(* ===== verification/Prelude.thy ===== *)
theory Prelude
  imports Complex_Main "HOL-Library.Word"
begin

text \<open>
  Shared vocabulary of the development: the machine types the C sources use, the
  outcomes that the C standard leaves undefined, the sequencing of computations that may
  meet such an outcome, and the generic facts on words and lists that the component
  theories rest on.  The collection \<open>c_simps\<close> holds the rewrite rules of the
  sequencing operator; \<open>bit_masks\<close> holds the bit patterns of the 64-bit masks that
  occur in the sources.
\<close>

unbundle bit_operations_syntax

named_theorems c_simps
named_theorems bit_masks

subsection \<open>Machine types and undefined outcomes\<close>

type_synonym u8 = "8 word"
type_synonym u16 = "16 word"
type_synonym u32 = "32 word"
type_synonym u64 = "64 word"

text \<open>
  What the C standard leaves undefined, as far as the modelled code can reach it, and the failure of
  an assertion of the code.
\<close>

datatype c_ub =
    Bad_Shift
  | Bad_Conversion
  | Out_Of_Bounds
  | Null_Deref
  | Uninitialised
  | Stale_Pointer
  | Div_By_Zero
  | Signed_Overflow
  | Assert_Failed

type_synonym 'a c = "c_ub + 'a"

definition c_bind :: "'e + 'a \<Rightarrow> ('a \<Rightarrow> 'e + 'b) \<Rightarrow> 'e + 'b" where
  "c_bind m f = (case m of Inl e \<Rightarrow> Inl e | Inr a \<Rightarrow> f a)"

lemma c_bind_simps [simp, c_simps]:
  "c_bind (Inl e) f = Inl e"
  "c_bind (Inr a) f = f a"
  by (simp_all add: c_bind_def)

lemma c_bind_cong [fundef_cong]: "m = m' \<Longrightarrow> (\<And>a. m' = Inr a \<Longrightarrow> f a = g a) \<Longrightarrow> c_bind m f = c_bind m' g"
  by (cases m') auto

lemma c_bind_eq_Inr [c_simps]:
  "c_bind m f = Inr b \<longleftrightarrow> (\<exists>a. m = Inr a \<and> f a = Inr b)"
  by (cases m) auto

lemma c_bind_eq_Inl [c_simps]:
  "c_bind m f = Inl e \<longleftrightarrow> m = Inl e \<or> (\<exists>a. m = Inr a \<and> f a = Inl e)"
  by (cases m) auto

lemma c_bind_assoc [c_simps]:
  "c_bind (c_bind m f) g = c_bind m (\<lambda>a. c_bind (f a) g)"
  by (cases m) auto

lemma replicate_rec: "replicate (numeral k) x = x # replicate (pred_numeral k) x"
  by (simp add: numeral_eq_Suc)

subsection \<open>Finite enumeration of bit positions\<close>

lemma upt_64:
  "[0..<64] = [0::nat, 1, 2, 3, 4, 5, 6, 7, 8, 9, 10, 11, 12, 13, 14, 15, 16, 17, 18, 19, 20,
     21, 22, 23, 24, 25, 26, 27, 28, 29, 30, 31, 32, 33, 34, 35, 36, 37, 38, 39, 40, 41, 42,
     43, 44, 45, 46, 47, 48, 49, 50, 51, 52, 53, 54, 55, 56, 57, 58, 59, 60, 61, 62, 63]"
  by code_simp

lemma bits_by_enumeration:
  assumes "\<forall>n \<in> set [0..<64]. P n" and "n < 64"
  shows "P (n::nat)"
  using assms by simp

lemma bit_u64_ge [simp]: "64 \<le> n \<Longrightarrow> \<not> bit (w::u64) n"
  using bit_imp_le_length [of w n] by auto

lemma bit_u32_ge [simp]: "32 \<le> n \<Longrightarrow> \<not> bit (w::u32) n"
  using bit_imp_le_length [of w n] by auto

lemma u64_eqI:
  assumes "\<And>n. n < 64 \<Longrightarrow> bit (a::u64) n = bit b n"
  shows "a = b"
proof (rule bit_eqI)
  fix n show "bit a n = bit b n" using assms by (cases "n < 64") auto
qed

end
