(* ===== verification/Rounding.thy ===== *)
theory Rounding
  imports Prelude
begin

text \<open>
  Floating-point arithmetic.  The C code computes with \<open>double\<close>; a model function takes
  the rounding \<open>fl\<close> of the arithmetic as an argument and applies it to the exact result of
  every operation, the way IEEE 754 specifies it.  The locale \<open>rounding\<close> is the contract
  the proofs use: rounding is monotone, idempotent, odd, exact on integers up to $2^{53}$,
  and commutes with scaling by a power of two; \<open>double_rounding\<close> extends it with the bound on the
  relative error.  Both are interpreted for \<open>fl64\<close>, the
  round-to-nearest-even of a 53-bit significand with an unbounded exponent (so overflow to
  infinity, NaN and subnormal numbers are outside the model), and for exact arithmetic.
\<close>

locale rounding =
  fixes fl :: "real \<Rightarrow> real"
  assumes fl_mono: "x \<le> y \<Longrightarrow> fl x \<le> fl y"
    and fl_idem: "fl (fl x) = fl x"
    and fl_minus: "fl (- x) = - fl x"
    and fl_int: "\<bar>n\<bar> \<le> 2 ^ 53 \<Longrightarrow> fl (of_int n) = of_int n"
    and fl_scale: "fl (x * 2 ^ k) = fl x * 2 ^ k"
begin

lemma fl_0 [simp]: "fl 0 = 0"
  using fl_int [of 0] by simp

lemma fl_1 [simp]: "fl 1 = 1"
  using fl_int [of 1] by simp

lemma fl_numeral: "numeral n \<le> (2 ^ 53 :: int) \<Longrightarrow> fl (numeral n) = numeral n"
  using fl_int [of "numeral n"] by simp

lemma fl_nonneg: "0 \<le> x \<Longrightarrow> 0 \<le> fl x"
  using fl_mono [of 0 x] by simp

lemma fl_le_int: "x \<le> of_int n \<Longrightarrow> \<bar>n\<bar> \<le> 2 ^ 53 \<Longrightarrow> fl x \<le> of_int n"
  using fl_mono [of x "of_int n"] fl_int [of n] by simp

lemma fl_le_1: "x \<le> 1 \<Longrightarrow> fl x \<le> 1"
  using fl_mono [of x 1] by simp

lemma fl_pow2_half: "0 < x \<Longrightarrow> x < 2 ^ 53 \<Longrightarrow> fl x \<le> 2 ^ 53"
  using fl_le_int [of x "2 ^ 53"] by simp

text \<open>A rounded quotient \<open>(x - a) / (b - a)\<close> with \<open>x\<close> in \<open>[a, b]\<close> stays in the unit interval.\<close>

lemma fl_unit_quotient:
  assumes "a \<le> x" "x \<le> b" "a < b"
  shows "0 \<le> fl (fl (x - a) / fl (b - a))" and "fl (fl (x - a) / fl (b - a)) \<le> 1"
proof -
  have n: "0 \<le> fl (x - a)" using assms by (simp add: fl_nonneg)
  have d: "fl (x - a) \<le> fl (b - a)" using assms by (intro fl_mono) simp
  with n have "0 \<le> fl (x - a) / fl (b - a)" by simp
  then show "0 \<le> fl (fl (x - a) / fl (b - a))" by (rule fl_nonneg)
  have "fl (x - a) / fl (b - a) \<le> 1"
    using n d by (cases "fl (b - a) = 0") (simp_all add: divide_le_eq)
  then show "fl (fl (x - a) / fl (b - a)) \<le> 1" by (rule fl_le_1)
qed

end

text \<open>The arithmetic of \<open>double\<close>: moreover, the relative error of a rounding is at most $2^{-53}$.\<close>

locale double_rounding = rounding +
  assumes fl_error: "\<bar>fl x - x\<bar> \<le> \<bar>x\<bar> / 2 ^ 53"
begin

lemma two_53: "(2 :: real) ^ 53 = 9007199254740992" "(2 :: real) ^ 48 = 281474976710656"
  by simp_all

lemma fl_near: "\<bar>x\<bar> \<le> m \<Longrightarrow> \<bar>fl x - x\<bar> \<le> m / 2 ^ 53"
  by (rule order_trans [OF fl_error]) (simp add: divide_right_mono)

lemma fl_half: "fl (fl x / 2) = fl x / 2"
  using fl_scale [of "fl x / 2" 1] fl_idem [of x] by simp

lemma fl_dyadic: "i \<le> 2 ^ 53 \<Longrightarrow> fl (real i / 2 ^ k) = real i / 2 ^ k"
proof -
  assume "i \<le> 2 ^ 53"
  then have "\<bar>int i\<bar> \<le> 2 ^ 53" by (metis abs_of_nat of_nat_le_iff of_nat_numeral of_nat_power)
  then have "fl (real i) = real i" using fl_int [of "int i"] by simp
  then show ?thesis using fl_scale [of "real i / 2 ^ k" k] by (simp add: nonzero_eq_divide_eq)
qed

text \<open>The rounded quotient \<open>(x - a) / (b - a)\<close> of a point \<open>x\<close> in \<open>[a, b]\<close>.\<close>

lemma fl_quotient_near:
  assumes "a \<le> x" "x \<le> b" "a < b"
  shows "\<bar>fl (fl (x - a) / fl (b - a)) - (x - a) / (b - a)\<bar> \<le> 4 / 2 ^ 53"
proof -
  define d W where "d = x - a" "W = b - a"
  have d: "0 \<le> d" "d \<le> W" "0 < W" using assms by (simp_all add: d_W_def)
  have w: "\<bar>fl W - W\<bar> \<le> W / 2 ^ 53" "\<bar>fl d - d\<bar> \<le> d / 2 ^ 53" using fl_error [of W] fl_error [of d] d by simp_all
  then have p: "2 / 3 * W \<le> fl W" "0 < fl W" using d unfolding two_53 by linarith+
  have "\<bar>(fl d - d) * W + d * (W - fl W)\<bar> \<le> \<bar>fl d - d\<bar> * W + d * \<bar>W - fl W\<bar>"
    using abs_triangle_ineq [of "(fl d - d) * W" "d * (W - fl W)"] d by (simp add: abs_mult)
  also have "\<dots> \<le> d / 2 ^ 53 * W + d * (W / 2 ^ 53)"
    using w d by (intro add_mono mult_right_mono mult_left_mono) (simp_all add: abs_minus_commute)
  also have "\<dots> = 2 / 2 ^ 53 * d * W" by simp
  also have "\<dots> \<le> 2 / 2 ^ 53 * (3 / 2 * fl W) * W" using d p by (intro mult_right_mono mult_left_mono) simp_all
  finally have "\<bar>fl d * W - d * fl W\<bar> \<le> 3 / 2 ^ 53 * (fl W * W)" by (simp add: algebra_simps)
  moreover have "fl d / fl W - d / W = (fl d * W - d * fl W) / (fl W * W)" using p d by (simp add: field_simps)
  ultimately have "\<bar>fl d / fl W - d / W\<bar> \<le> 3 / 2 ^ 53" using p d by (simp add: abs_divide abs_mult divide_le_eq)
  moreover have "fl d \<le> fl W" "0 \<le> fl d" using d by (simp_all add: fl_mono fl_nonneg)
  then have "\<bar>fl d / fl W\<bar> \<le> 1" using p by (simp add: divide_le_eq)
  then have "\<bar>fl (fl d / fl W) - fl d / fl W\<bar> \<le> 1 / 2 ^ 53" by (rule fl_near)
  ultimately show ?thesis unfolding d_W_def by linarith
qed

end

subsection \<open>Exact arithmetic\<close>

definition exact :: "real \<Rightarrow> real" where
  "exact x = x"

interpretation exact_rounding: rounding exact
  by unfold_locales (simp_all add: exact_def)

interpretation exact_double: double_rounding exact
  by unfold_locales (simp add: exact_def)

subsection \<open>Round to nearest, ties to even\<close>

definition rne :: "real \<Rightarrow> int" where
  "rne y = (let n = \<lfloor>y\<rfloor>; d = y - of_int n in
     if d < 1/2 then n else if 1/2 < d then n + 1 else if even n then n else n + 1)"

definition fl64 :: "real \<Rightarrow> real" where
  "fl64 x = (if x = 0 then 0 else
     let e = \<lfloor>log 2 \<bar>x\<bar>\<rfloor> - 52 in of_int (rne (x / 2 powi e)) * 2 powi e)"

lemma rne_of_int [simp]: "rne (of_int n) = n"
  by (simp add: rne_def)

lemma rne_bounds: "\<lfloor>y\<rfloor> \<le> rne y" "rne y \<le> \<lfloor>y\<rfloor> + 1"
  by (auto simp: rne_def Let_def)

lemma rne_mono: "x \<le> y \<Longrightarrow> rne x \<le> rne y"
proof (cases "\<lfloor>x\<rfloor> = \<lfloor>y\<rfloor>")
  case True
  assume "x \<le> y"
  with True show ?thesis by (auto simp: rne_def Let_def)
next
  case False
  assume "x \<le> y"
  then have "\<lfloor>x\<rfloor> + 1 \<le> \<lfloor>y\<rfloor>" using False floor_mono [of x y] by linarith
  then show ?thesis using rne_bounds [of x] rne_bounds [of y] by linarith
qed

lemma rne_minus: "rne (- y) = - rne y"
proof (cases "of_int \<lfloor>y\<rfloor> = y")
  case True
  then show ?thesis by (metis of_int_minus rne_of_int)
next
  case False
  then have "\<lfloor>- y\<rfloor> = - \<lfloor>y\<rfloor> - 1" by linarith
  then show ?thesis by (auto simp: rne_def Let_def)
qed

lemma rne_le_int: "y \<le> of_int n \<Longrightarrow> rne y \<le> n"
  using rne_mono [of y "of_int n"] by simp

lemma rne_ge_int: "of_int n \<le> y \<Longrightarrow> n \<le> rne y"
  using rne_mono [of "of_int n" y] by simp

lemma fl64_0 [simp]: "fl64 0 = 0"
  by (simp add: fl64_def)

lemma fl64_minus: "fl64 (- x) = - fl64 x"
  by (simp add: fl64_def Let_def rne_minus)

lemma fl64_scale_powi: "fl64 (x * 2 powi k) = fl64 x * 2 powi k"
proof (cases "x = 0")
  case False
  have "log 2 \<bar>x * 2 powi k\<bar> = log 2 \<bar>x\<bar> + of_int k"
    using False by (simp add: abs_mult log_mult powr_real_of_int' [symmetric])
  then have e: "\<lfloor>log 2 \<bar>x * 2 powi k\<bar>\<rfloor> - 52 = \<lfloor>log 2 \<bar>x\<bar>\<rfloor> - 52 + k" by simp
  have "x * 2 powi k / 2 powi (\<lfloor>log 2 \<bar>x\<bar>\<rfloor> - 52 + k) = x / 2 powi (\<lfloor>log 2 \<bar>x\<bar>\<rfloor> - 52)"
    by (simp add: power_int_add)
  then show ?thesis using False
    by (simp add: fl64_def Let_def e power_int_add)
qed (simp add: fl64_def)

lemma fl64_scale: "fl64 (x * 2 ^ k) = fl64 x * 2 ^ k"
  using fl64_scale_powi [of x "int k"] by simp

text \<open>The significand of a positive number lies in $[2^{52}, 2^{53})$.\<close>

lemma significand_bounds:
  assumes "0 < x"
  defines "e \<equiv> \<lfloor>log 2 x\<rfloor> - 52"
  shows "2 ^ 52 \<le> x / 2 powi e" and "x / 2 powi e < 2 ^ 53"
proof -
  have lo: "2 powi \<lfloor>log 2 x\<rfloor> \<le> x"
    using assms powr_log_cancel [of 2 x] powr_mono [of "of_int \<lfloor>log 2 x\<rfloor>" "log 2 x" 2]
    by (simp add: powr_real_of_int')
  have hi: "x < 2 powi (\<lfloor>log 2 x\<rfloor> + 1)"
  proof -
    have "x = 2 powr log 2 x" using assms by simp
    also have "\<dots> < 2 powr (of_int (\<lfloor>log 2 x\<rfloor> + 1))" by (intro powr_less_mono) linarith+
    finally show ?thesis by (simp add: powr_real_of_int' del: of_int_add)
  qed
  have p: "(2::real) powi \<lfloor>log 2 x\<rfloor> = 2 ^ 52 * 2 powi e"
    unfolding e_def by (simp add: power_int_diff)
  have q: "(2::real) powi (\<lfloor>log 2 x\<rfloor> + 1) = 2 ^ 53 * 2 powi e"
    unfolding e_def by (simp add: power_int_diff power_int_add)
  show "2 ^ 52 \<le> x / 2 powi e" using lo unfolding p by (simp add: le_divide_eq)
  show "x / 2 powi e < 2 ^ 53" using hi unfolding q by (simp add: divide_less_eq)
qed

lemma fl64_int:
  assumes "\<bar>n\<bar> \<le> 2 ^ 53"
  shows "fl64 (of_int n) = of_int n"
proof (cases "n = 0")
  case False
  let ?x = "\<bar>of_int n :: real\<bar>"
  let ?e = "\<lfloor>log 2 ?x\<rfloor> - 52"
  have x: "1 \<le> ?x" "?x \<le> 2 ^ 53" using False assms
    by (metis abs_ge_zero int_one_le_iff_zero_less of_int_1_le_iff of_int_abs zero_less_abs_iff,
        metis assms of_int_abs of_int_le_iff of_int_numeral of_int_power)
  have "\<exists>k. (of_int n :: real) / 2 powi ?e = of_int k"
  proof (cases "?x = 2 ^ 53")
    case True
    have "log 2 ((2::real) ^ 53) = of_nat 53" by (rule log_pow_cancel) simp_all
    then have "?e = 1" unfolding True by (simp only: floor_of_nat)
    moreover have "\<bar>n\<bar> = 2 ^ 53" using True by (metis of_int_abs of_int_eq_iff of_int_numeral of_int_power)
    then have "n = 2 ^ 53 \<or> n = - (2 ^ 53)" by linarith
    ultimately show ?thesis
      by (metis dvd_div_mult_self dvd_minus_iff dvd_power nonzero_mult_div_cancel_right of_int_mult
          of_int_numeral power_int_1_right zero_less_numeral zero_neq_numeral)
  next
    case False
    then have "?x < 2 ^ 53" using x by simp
    then have "log 2 ?x < 53" using x by (simp add: log_less_iff powr_realpow [symmetric])
    then have "?e \<le> 0" by linarith
    then have "(of_int n :: real) / 2 powi ?e = of_int (n * 2 ^ nat (- ?e))"
      by (simp add: power_int_def field_simps power_inverse)
    then show ?thesis by blast
  qed
  then obtain k where "(of_int n :: real) / 2 powi ?e = of_int k" ..
  then show ?thesis using False
    by (simp add: fl64_def Let_def) (metis nonzero_divide_eq_eq power_int_eq_0_iff zero_neq_numeral)
qed (simp add: fl64_def)

lemma fl64_bounds:
  assumes "0 < x"
  shows "2 powi \<lfloor>log 2 x\<rfloor> \<le> fl64 x" and "fl64 x \<le> 2 powi (\<lfloor>log 2 x\<rfloor> + 1)"
proof -
  let ?e = "\<lfloor>log 2 x\<rfloor> - 52"
  note b = significand_bounds [OF assms]
  have lo: "2 ^ 52 \<le> rne (x / 2 powi ?e)" using b(1) by (intro rne_ge_int) simp
  have hi: "rne (x / 2 powi ?e) \<le> 2 ^ 53" using b(2) by (intro rne_le_int) simp
  have f: "fl64 x = of_int (rne (x / 2 powi ?e)) * 2 powi ?e"
    using assms by (simp add: fl64_def Let_def)
  have "(2::real) ^ 52 * 2 powi ?e \<le> fl64 x"
    unfolding f using lo by (intro mult_right_mono) (metis of_int_le_iff of_int_numeral of_int_power, simp)
  then show "2 powi \<lfloor>log 2 x\<rfloor> \<le> fl64 x" by (simp add: power_int_diff)
  have "fl64 x \<le> (2::real) ^ 53 * 2 powi ?e"
    unfolding f using hi by (intro mult_right_mono) (metis of_int_le_iff of_int_numeral of_int_power, simp)
  then show "fl64 x \<le> 2 powi (\<lfloor>log 2 x\<rfloor> + 1)" by (simp add: power_int_diff power_int_add)
qed

lemma fl64_mono_pos:
  assumes "0 < x" "x \<le> y"
  shows "fl64 x \<le> fl64 y"
proof (cases "\<lfloor>log 2 x\<rfloor> = \<lfloor>log 2 y\<rfloor>")
  case True
  have "rne (x / 2 powi (\<lfloor>log 2 y\<rfloor> - 52)) \<le> rne (y / 2 powi (\<lfloor>log 2 y\<rfloor> - 52))"
    using assms by (intro rne_mono divide_right_mono) simp_all
  then show ?thesis using assms True
    by (simp add: fl64_def Let_def mult_right_mono)
next
  case False
  have "log 2 x \<le> log 2 y" using assms by simp
  then have "\<lfloor>log 2 x\<rfloor> + 1 \<le> \<lfloor>log 2 y\<rfloor>" using False floor_mono by fastforce
  then have "(2::real) powi (\<lfloor>log 2 x\<rfloor> + 1) \<le> 2 powi \<lfloor>log 2 y\<rfloor>"
    by (intro power_int_increasing) auto
  then show ?thesis using fl64_bounds [of x] fl64_bounds [of y] assms by linarith
qed

lemma fl64_sign: "0 \<le> x \<Longrightarrow> 0 \<le> fl64 x"
proof (cases "x = 0")
  case False
  assume "0 \<le> x"
  then have "0 < x" using False by simp
  then show ?thesis using fl64_bounds(1) [of x] zero_less_power_int [of "2::real" "\<lfloor>log 2 x\<rfloor>"] by linarith
qed (simp add: fl64_def)

lemma fl64_mono: "x \<le> y \<Longrightarrow> fl64 x \<le> fl64 y"
proof -
  assume le: "x \<le> y"
  consider "0 < x" | "x \<le> 0" "0 \<le> y" | "y < 0" by linarith
  then show ?thesis
  proof cases
    case 2
    then show ?thesis using fl64_sign [of y] fl64_sign [of "- x"] by (simp add: fl64_minus)
  next
    case 3
    then show ?thesis using fl64_mono_pos [of "- y" "- x"] le by (simp add: fl64_minus)
  qed (simp add: fl64_mono_pos le)
qed

lemma fl64_idem_pos: "0 < x \<Longrightarrow> fl64 (fl64 x) = fl64 x"
proof -
  assume x: "0 < x"
  let ?e = "\<lfloor>log 2 x\<rfloor> - 52"
  let ?m = "rne (x / 2 powi ?e)"
  note b = significand_bounds [OF x]
  have "\<bar>?m\<bar> \<le> 2 ^ 53"
    using rne_ge_int [of "2 ^ 52" "x / 2 powi ?e"] rne_le_int [of "x / 2 powi ?e" "2 ^ 53"] b by simp
  then have "fl64 (of_int ?m * 2 powi ?e) = of_int ?m * 2 powi ?e"
    by (simp only: fl64_scale_powi fl64_int)
  then show ?thesis using x by (simp add: fl64_def [of x] Let_def)
qed

lemma fl64_idem: "fl64 (fl64 x) = fl64 x"
proof -
  consider "0 < x" | "x = 0" | "0 < - x" by linarith
  then show ?thesis
  proof cases
    case 3
    from fl64_idem_pos [OF this] show ?thesis by (simp only: fl64_minus minus_equation_iff minus_minus)
  qed (simp_all add: fl64_idem_pos)
qed

interpretation fl64_rounding: rounding fl64
  by unfold_locales (simp_all add: fl64_mono fl64_idem fl64_minus fl64_int fl64_scale)

lemma rne_near: "\<bar>of_int (rne y) - y\<bar> \<le> 1 / 2"
  by (auto simp: rne_def Let_def abs_le_iff)

lemma fl64_error: "\<bar>fl64 x - x\<bar> \<le> \<bar>x\<bar> / 2 ^ 53"
proof -
  have pos: "\<bar>fl64 x - x\<bar> \<le> x / 2 ^ 53" if "0 < x" for x
  proof -
    let ?p = "2 powi (\<lfloor>log 2 x\<rfloor> - 52) :: real"
    have p: "0 < ?p" by simp
    have "fl64 x = of_int (rne (x / ?p)) * ?p" using that by (simp add: fl64_def Let_def)
    then have "fl64 x - x = (of_int (rne (x / ?p)) - x / ?p) * ?p" by (simp add: algebra_simps)
    then have "\<bar>fl64 x - x\<bar> = \<bar>of_int (rne (x / ?p)) - x / ?p\<bar> * ?p" by (simp add: abs_mult)
    also have "\<dots> \<le> 1 / 2 * ?p" using rne_near [of "x / ?p"] by (intro mult_right_mono) simp_all
    also have "\<dots> \<le> x / 2 ^ 53" using significand_bounds(1) [OF that] p by (simp add: le_divide_eq)
    finally show ?thesis .
  qed
  consider "0 < x" | "x = 0" | "0 < - x" by linarith
  then show ?thesis
  proof cases
    case 3
    then show ?thesis using pos [OF 3] by (simp add: fl64_minus)
  qed (use pos in auto)
qed

interpretation fl64_double: double_rounding fl64
  by unfold_locales (rule fl64_error)

end
