(* ===== verification/Bit_Spread.thy ===== *)
theory Bit_Spread
  imports Prelude
begin

text \<open>
  The arithmetic behind ``magic mask'' bit spreading.  A 64-bit word whose 32 payload bits
  sit in blocks of \<open>s\<close> bits at a stride of \<open>2 s\<close> is described by two functions on bit
  positions: \<open>low_half s n\<close> says that position \<open>n\<close> carries payload, and
  \<open>squeeze s n\<close> is the payload index it carries.  One shift-or-mask step halves the block
  size (\<open>spread_stage\<close>) or doubles it (\<open>squeeze_stage\<close>).  The second half
  introduces dilated naturals: the payload bits of a number moved to the even positions,
  and the carry rules of addition on them.
\<close>

definition low_half :: "nat \<Rightarrow> nat \<Rightarrow> bool" where
  "low_half s n \<longleftrightarrow> n mod (2 * s) < s"
definition squeeze :: "nat \<Rightarrow> nat \<Rightarrow> nat" where
  "squeeze s n = n div (2 * s) * s + n mod (2 * s)"

lemma split_block:
  assumes "0 < (s::nat)"
  obtains k r b where "n = 4 * s * k + 2 * s * b + r" "r < 2 * s" "b < 2"
proof
  let ?q = "n div (2 * s)"
  have "2 * s * (2 * u + v) = 4 * s * u + 2 * s * v" for u v :: nat by (simp add: distrib_left)
  from this [of "?q div 2" "?q mod 2"]
  show "n = 4 * s * (?q div 2) + 2 * s * (?q mod 2) + n mod (2 * s)"
    by (metis mult_div_mod_eq)
  show "n mod (2 * s) < 2 * s" using assms by simp
  show "?q mod 2 < 2" by simp
qed

lemma low_half_block:
  assumes "0 < s" "r < 2 * s"
  shows "low_half s (4 * s * k + 2 * s * b + r) \<longleftrightarrow> r < s"
    and "squeeze s (4 * s * k + 2 * s * b + r) = 2 * s * k + s * b + r"
proof -
  have *: "4 * s * k + 2 * s * b + r = r + (2 * s) * (2 * k + b)" by (simp add: algebra_simps)
  show "low_half s (4 * s * k + 2 * s * b + r) \<longleftrightarrow> r < s"
    unfolding low_half_def * using assms by simp
  have "(r + (2 * s) * (2 * k + b)) div (2 * s) = 2 * k + b" using assms by simp
  moreover have "(r + (2 * s) * (2 * k + b)) mod (2 * s) = r" using assms by simp
  ultimately show "squeeze s (4 * s * k + 2 * s * b + r) = 2 * s * k + s * b + r"
    unfolding squeeze_def * by (simp add: algebra_simps)
qed

lemma low_half_block2:
  assumes "0 < s" "r < 4 * s"
  shows "low_half (2 * s) (4 * s * k + r) \<longleftrightarrow> r < 2 * s"
    and "squeeze (2 * s) (4 * s * k + r) = 2 * s * k + r"
  using low_half_block [of "2 * s" r 0 k] assms
  by (simp_all add: low_half_def squeeze_def mult.assoc)

lemma spread_stage:
  fixes x m :: "64 word"
  assumes s: "0 < s" and n: "n < 64"
    and m: "\<And>n. n < 64 \<Longrightarrow> bit m n \<longleftrightarrow> low_half s n"
    and x: "\<And>n. n < 64 \<Longrightarrow> bit x n \<longleftrightarrow> low_half (2 * s) n \<and> P (squeeze (2 * s) n)"
  shows "bit ((x OR push_bit s x) AND m) n \<longleftrightarrow> low_half s n \<and> P (squeeze s n)"
proof -
  obtain k r b where n_eq: "n = 4 * s * k + 2 * s * b + r" and r: "r < 2 * s" and b: "b < 2"
    using split_block [OF s] by blast
  have "bit ((x OR push_bit s x) AND m) n \<longleftrightarrow> low_half s n \<and> (bit x n \<or> s \<le> n \<and> bit x (n - s))"
    using n m by (auto simp: bit_simps)
  also have "\<dots> \<longleftrightarrow> low_half s n \<and> P (squeeze s n)"
  proof (cases "b = 0")
    case True
    then have n0: "n = 4 * s * k + r" using n_eq by simp
    have up: "bit x n \<longleftrightarrow> P (squeeze s n)"
      using x [OF n] low_half_block2 [OF s, of r k] low_half_block [OF s r, of k 0] r
      by (simp add: n0)
    have "\<not> bit x (n - s)" if "s \<le> n" "r < s"
    proof -
      from that r have "0 < k" using n0 by (cases k) auto
      then obtain k' where k': "k = Suc k'" by (cases k) auto
      have e: "n - s = 4 * s * k' + (3 * s + r)" using n0 k' that by (simp add: algebra_simps)
      have "\<not> low_half (2 * s) (n - s)"
        using low_half_block2 [OF s, of "3 * s + r" k'] that by (simp add: e)
      then show ?thesis using x [of "n - s"] n by simp
    qed
    with up show ?thesis
      using low_half_block [OF s r, of k 0] by (auto simp: n0)
  next
    case False
    then have n1: "n = 4 * s * k + (2 * s + r)" and n1': "n = 4 * s * k + 2 * s * 1 + r"
      using n_eq b by auto
    have "\<not> bit x n"
      using x [OF n] low_half_block2 [OF s, of "2 * s + r" k] r by (simp add: n1)
    moreover have "bit x (n - s) \<longleftrightarrow> P (squeeze s n)" if "r < s"
    proof -
      have e: "n - s = 4 * s * k + (s + r)" "4 * s * k + (s + r) < 64" using n1 n by simp_all
      have "squeeze s n = 2 * s * k + (s + r)"
        using low_half_block(2) [OF s r, of k 1] by (simp add: n1')
      then show ?thesis
        using x [of "n - s"] n low_half_block2 [OF s, of "s + r" k] that
        by (simp add: e)
    qed
    moreover have "s \<le> n" using n1 by simp
    ultimately show ?thesis
      using low_half_block(1) [OF s r, of k 1] unfolding n1' [symmetric] by auto
  qed
  finally show ?thesis .
qed

lemma squeeze_ge: "n \<le> 2 * squeeze s n"
proof -
  have "2 * squeeze s n = 2 * s * (n div (2 * s)) + 2 * (n mod (2 * s))"
    by (simp add: squeeze_def mult.commute mult.left_commute)
  also have "n \<le> \<dots>" by (metis mult_div_mod_eq le_add1 mult_2 nat_add_left_cancel_le)
  finally show ?thesis .
qed

lemma squeeze_stage:
  fixes x m :: "64 word"
  assumes s: "0 < s"
    and m: "\<And>n. n < 64 \<Longrightarrow> bit m n \<longleftrightarrow> low_half (2 * s) n"
    and x: "\<And>n. bit x n \<longleftrightarrow> low_half s n \<and> P (squeeze s n)"
    and P: "\<And>n. P n \<Longrightarrow> n < 32"
  shows "bit ((x OR drop_bit s x) AND m) n \<longleftrightarrow> low_half (2 * s) n \<and> P (squeeze (2 * s) n)"
proof (cases "n < 64")
  case False
  then have "\<not> P (squeeze (2 * s) n)" using P squeeze_ge [of n "2 * s"] by fastforce
  moreover have "\<not> bit m n" using False bit_imp_le_length [of m n] by auto
  ultimately show ?thesis by (simp add: bit_simps)
next
  case True
  obtain k r b where n_eq: "n = 4 * s * k + 2 * s * b + r" and r: "r < 2 * s" and b: "b < 2"
    using split_block [OF s] by blast
  have step: "bit ((x OR drop_bit s x) AND m) n \<longleftrightarrow> low_half (2 * s) n \<and> (bit x n \<or> bit x (s + n))"
    using True m by (auto simp: bit_simps add.commute)
  show ?thesis
  proof (cases "b = 0")
    case False
    then have n1: "n = 4 * s * k + (2 * s + r)" using n_eq b by auto
    have "\<not> low_half (2 * s) n"
      using low_half_block2(1) [OF s, of "2 * s + r" k] r by (simp add: n1)
    with step show ?thesis by blast
  next
    case True
    then have n0: "n = 4 * s * k + r" "n = 4 * s * k + 2 * s * 0 + r" using n_eq by simp_all
    have sq: "squeeze (2 * s) n = 2 * s * k + r"
      using low_half_block2(2) [OF s, of r k] r by (simp add: n0)
    show ?thesis
    proof (cases "r < s")
      case True
      have e: "s + n = 4 * s * k + 2 * s * 0 + (s + r)" using n0 by simp
      have "\<not> low_half s (s + n)"
        unfolding e using low_half_block(1) [OF s, of "s + r" k 0] True by simp
      moreover have "low_half s n" "squeeze s n = squeeze (2 * s) n"
        unfolding sq using low_half_block [OF s r, of k 0] True by (simp_all add: n0)
      ultimately show ?thesis using step x by auto
    next
      case False
      have e: "s + n = 4 * s * k + 2 * s * 1 + (r - s)" using n0 False by simp
      have "low_half s (s + n)" "squeeze s (s + n) = squeeze (2 * s) n"
        unfolding sq e using low_half_block [OF s, of "r - s" k 1] False r by simp_all
      moreover have "\<not> low_half s n"
        using low_half_block(1) [OF s r, of k 0] False by (simp add: n0)
      ultimately show ?thesis using step x by auto
    qed
  qed
qed

lemma low_half_1 [simp]: "low_half (Suc 0) n \<longleftrightarrow> even n"
  by (auto simp: low_half_def even_iff_mod_2_eq_zero)

lemma squeeze_1: "even n \<Longrightarrow> squeeze (Suc 0) n = n div 2"
  by (simp add: squeeze_def even_iff_mod_2_eq_zero)

lemma squeeze_32: "n < 32 \<Longrightarrow> low_half 32 n" "n < 64 \<Longrightarrow> low_half 32 n \<longleftrightarrow> n < 32" "n < 64 \<Longrightarrow> squeeze 32 n = n"
  by (simp_all add: low_half_def squeeze_def)

subsection \<open>The masks\<close>

lemma mask_1 [bit_masks]: "n < 64 \<Longrightarrow> bit (0x5555555555555555 :: u64) n \<longleftrightarrow> low_half 1 n"
  by (erule bits_by_enumeration [rotated], unfold upt_64, simp add: low_half_def)

lemma mask_2 [bit_masks]: "n < 64 \<Longrightarrow> bit (0x3333333333333333 :: u64) n \<longleftrightarrow> low_half 2 n"
  by (erule bits_by_enumeration [rotated], unfold upt_64, simp add: low_half_def)

lemma mask_4 [bit_masks]: "n < 64 \<Longrightarrow> bit (0x0F0F0F0F0F0F0F0F :: u64) n \<longleftrightarrow> low_half 4 n"
  by (erule bits_by_enumeration [rotated], unfold upt_64, simp add: low_half_def)

lemma mask_8 [bit_masks]: "n < 64 \<Longrightarrow> bit (0x00FF00FF00FF00FF :: u64) n \<longleftrightarrow> low_half 8 n"
  by (erule bits_by_enumeration [rotated], unfold upt_64, simp add: low_half_def)

lemma mask_16 [bit_masks]: "n < 64 \<Longrightarrow> bit (0x0000FFFF0000FFFF :: u64) n \<longleftrightarrow> low_half 16 n"
  by (erule bits_by_enumeration [rotated], unfold upt_64, simp add: low_half_def)

lemma mask_32 [bit_masks]: "n < 64 \<Longrightarrow> bit (0x00000000FFFFFFFF :: u64) n \<longleftrightarrow> low_half 32 n"
  by (erule bits_by_enumeration [rotated], unfold upt_64, simp add: low_half_def)

lemma mask_odd [bit_masks]: "n < 64 \<Longrightarrow> bit (0xaaaaaaaaaaaaaaaa :: u64) n \<longleftrightarrow> odd n"
  by (erule bits_by_enumeration [rotated], unfold upt_64, simp)

lemma mask_even [bit_masks]: "n < 64 \<Longrightarrow> bit (0x5555555555555555 :: u64) n \<longleftrightarrow> even n"
  using mask_1 [of n] by simp

text \<open>From here on a mask is described by its rule above, not bit by bit.\<close>

declare bit_numeral_word_iff [simp del]

subsection \<open>Spreading a 32-bit payload and squeezing it back\<close>

text \<open>
  Five steps move the bits of a 32-bit value to the even positions, six steps collect the
  even positions again.
\<close>

definition spread_step :: "nat \<Rightarrow> u64 \<Rightarrow> u64 \<Rightarrow> u64" where
  "spread_step s m x = (x OR push_bit s x) AND m"

definition squeeze_step :: "nat \<Rightarrow> u64 \<Rightarrow> u64 \<Rightarrow> u64" where
  "squeeze_step s m x = (x OR drop_bit s x) AND m"

definition spread :: "u64 \<Rightarrow> u64" where
  "spread x = spread_step 1 0x5555555555555555 (spread_step 2 0x3333333333333333
     (spread_step 4 0x0F0F0F0F0F0F0F0F (spread_step 8 0x00FF00FF00FF00FF
     (spread_step 16 0x0000FFFF0000FFFF x))))"

definition unspread :: "u64 \<Rightarrow> u64" where
  "unspread x = squeeze_step 16 0x00000000FFFFFFFF (squeeze_step 8 0x0000FFFF0000FFFF
     (squeeze_step 4 0x00FF00FF00FF00FF (squeeze_step 2 0x0F0F0F0F0F0F0F0F
     (squeeze_step 1 0x3333333333333333 (squeeze_step 0 0x5555555555555555 x)))))"

lemma bit_spread_step:
  assumes "0 < s" "n < 64"
    and "\<And>n. n < 64 \<Longrightarrow> bit m n \<longleftrightarrow> low_half s n"
    and "\<And>n. n < 64 \<Longrightarrow> bit x n \<longleftrightarrow> low_half (2 * s) n \<and> P (squeeze (2 * s) n)"
  shows "bit (spread_step s m x) n \<longleftrightarrow> low_half s n \<and> P (squeeze s n)"
  unfolding spread_step_def using assms by (rule spread_stage)

lemma bit_squeeze_step:
  assumes "0 < s"
    and "\<And>n. n < 64 \<Longrightarrow> bit m n \<longleftrightarrow> low_half (2 * s) n"
    and "\<And>n. bit x n \<longleftrightarrow> low_half s n \<and> P (squeeze s n)"
    and "\<And>n. P n \<Longrightarrow> n < 32"
  shows "bit (squeeze_step s m x) n \<longleftrightarrow> low_half (2 * s) n \<and> P (squeeze (2 * s) n)"
  unfolding squeeze_step_def using assms by (rule squeeze_stage)

lemma bit_spread:
  assumes "n < 64"
  shows "bit (spread (ucast (v :: u32))) n \<longleftrightarrow> even n \<and> bit v (n div 2)"
proof -
  have 0: "bit (ucast v :: u64) n \<longleftrightarrow> low_half (2 * 16) n \<and> bit v (squeeze (2 * 16) n)"
    if "n < 64" for n
    using that bit_imp_le_length [of v n] by (auto simp: bit_simps squeeze_32)
  note stage = bit_spread_step [where P = "bit v"]
  note 1 = stage [OF _ _ mask_16 0, simplified]
  note 2 = stage [of 8, simplified, OF _ mask_8 1]
  note 3 = stage [of 4, simplified, OF _ mask_4 2]
  note 4 = stage [of 2, simplified, OF _ mask_2 3]
  note 5 = stage [of 1, simplified, OF _ mask_even 4]
  show ?thesis unfolding spread_def
    using 5 [OF assms] by (auto simp: squeeze_1)
qed

lemma bit_unspread:
  "bit (unspread w) n \<longleftrightarrow> n < 32 \<and> bit w (2 * n)"
proof -
  let ?P = "\<lambda>n. n < 32 \<and> bit w (2 * n)"
  have 0: "bit (squeeze_step 0 0x5555555555555555 w) n \<longleftrightarrow> low_half 1 n \<and> ?P (squeeze 1 n)" for n
    by (cases "n < 64")
      (auto simp: squeeze_step_def bit_and_iff bit_or_iff mask_even squeeze_1)
  note stage = bit_squeeze_step [where P = ?P]
  note 1 = stage [of 1, simplified, OF mask_2 0 [simplified], simplified]
  note 2 = stage [of 2, simplified, OF mask_4 1, simplified]
  note 3 = stage [of 4, simplified, OF mask_8 2, simplified]
  note 4 = stage [of 8, simplified, OF mask_16 3, simplified]
  note 5 = stage [of 16, simplified, OF mask_32 4, simplified]
  have "squeeze 32 n < 32 \<Longrightarrow> n < 64" using squeeze_ge [of n 32] by simp
  then show ?thesis
    unfolding unspread_def using 5 [of n] by (auto simp: squeeze_32)
qed

subsection \<open>Dilated naturals\<close>

text \<open>\<open>dil n\<close> has the bits of \<open>n\<close> at its even positions and zeros in the gaps.\<close>

fun dil :: "nat \<Rightarrow> nat" where
  "dil n = (if n = 0 then 0 else n mod 2 + 4 * dil (n div 2))"

declare dil.simps [simp del]

lemma dil_0 [simp]: "dil 0 = 0" by (simp add: dil.simps)

lemma dil_rec: "dil n = n mod 2 + 4 * dil (n div 2)"
  by (cases "n = 0") (simp_all add: dil.simps [of n])

lemma dil_double [simp]: "dil (2 * n) = 4 * dil n" "dil (Suc (2 * n)) = 1 + 4 * dil n"
  using dil_rec [of "2 * n"] dil_rec [of "Suc (2 * n)"] by simp_all

lemma bit_dil: "bit (dil n) i \<longleftrightarrow> even i \<and> bit n (i div 2)"
proof (induction n arbitrary: i rule: dil.induct)
  case (1 n)
  show ?case
  proof (cases "n = 0")
    case False
    note IH = "1.IH" [OF False]
    show ?thesis
    proof (cases i)
      case 0
      then show ?thesis by (subst dil_rec) (simp add: bit_0)
    next
      case (Suc j)
      show ?thesis
      proof (cases j)
        case 0
        have "(n mod 2 + 4 * dil (n div 2)) div 2 = 2 * dil (n div 2)" by simp
        then show ?thesis using Suc 0 by (subst dil_rec) (simp add: bit_Suc bit_0)
      next
        case (Suc k)
        have "(n mod 2 + 4 * dil (n div 2)) div 2 div 2 = dil (n div 2)" by simp
        then show ?thesis using \<open>i = Suc j\<close> Suc IH [of k]
          by (subst dil_rec) (simp add: bit_Suc div_mult2_eq [symmetric])
      qed
    qed
  qed simp
qed

lemma and_even_odd:
  fixes b d :: nat
  shows "(2 * b) AND (2 * d) = 2 * (b AND d)"
    and "(2 * b) AND (Suc (2 * d)) = 2 * (b AND d)"
    and "(Suc (2 * b)) AND (2 * d) = 2 * (b AND d)"
    and "(Suc (2 * b)) AND (Suc (2 * d)) = Suc (2 * (b AND d))"
  by (subst and_rec, simp)+

definition ones :: "nat \<Rightarrow> nat" where
  "ones s = dil (2 ^ s - 1)"

lemma ones_0 [simp]: "ones 0 = 0" by (simp add: ones_def)

lemma ones_Suc: "ones (Suc s) = 1 + 4 * ones s"
proof -
  obtain k where "(2::nat) ^ s = Suc k" by (metis not0_implies_Suc power_not_zero zero_neq_numeral)
  then have "2 ^ Suc s - 1 = Suc (2 * (2 ^ s - 1 :: nat))" by simp
  then show ?thesis by (simp only: ones_def dil_double)
qed

lemma bit_nat_less: "a < 2 ^ s \<Longrightarrow> bit (a::nat) j \<Longrightarrow> j < s"
  by (metis bit_take_bit_iff take_bit_nat_eq_self)

lemma bit_ones: "bit (ones s) i \<longleftrightarrow> even i \<and> i < 2 * s"
proof -
  have "bit (2 ^ s - 1 :: nat) j \<longleftrightarrow> j < s" for j
    using bit_mask_iff [where 'a = nat, of s j] by (simp add: mask_eq_exp_minus_1)
  then have "bit (ones s) i \<longleftrightarrow> even i \<and> i div 2 < s" by (simp only: ones_def bit_dil)
  then show ?thesis by auto
qed

lemma ones_Suc_double: "2 * ones (Suc s) = 2 * (Suc (2 * (2 * ones s)))"
  by (simp add: ones_Suc)

lemma parity_cases:
  obtains (even) a' where "a = 2 * a'" | (odd) a' where "a = Suc (2 * a' :: nat)"
  by (metis evenE oddE Suc_eq_plus1)

lemma dil_pos: "0 < a \<Longrightarrow> 0 < dil a"
proof (induction a rule: dil.induct)
  case (1 a)
  then show ?case by (cases a rule: parity_cases) auto
qed

lemma dil_and_ones: "a < 2 ^ s \<Longrightarrow> dil a AND ones s = dil a"
  by (rule bit_eqI) (auto simp: bit_and_iff bit_dil bit_ones dest: bit_nat_less)

lemma dil_plus_ones: "a < 2 ^ s \<Longrightarrow> (2 * dil a + ones s) AND (2 * ones s) = 2 * dil a"
proof (induction s arbitrary: a)
  case (Suc s)
  show ?case
  proof (cases a rule: parity_cases)
    case (even a')
    have "2 * dil a + ones (Suc s) = Suc (2 * (2 * (2 * dil a' + ones s)))"
      using even by (simp add: ones_Suc)
    then show ?thesis using Suc even by (simp only: ones_Suc_double and_even_odd) simp
  next
    case (odd a')
    have "2 * dil a + ones (Suc s) = Suc (2 * (Suc (2 * (2 * dil a' + ones s))))"
      using odd by (simp add: ones_Suc)
    then show ?thesis using Suc odd by (simp only: ones_Suc_double and_even_odd) simp
  qed
qed simp

text \<open>Adding one above the gaps: the carry runs through the ones in the gaps.\<close>

lemma dil_succ:
  "a < 2 ^ s \<Longrightarrow> (2 * dil a + ones s + 1) AND (2 * ones s) = 2 * dil ((a + 1) mod 2 ^ s)"
proof (induction s arbitrary: a)
  case (Suc s)
  show ?case
  proof (cases a rule: parity_cases)
    case (even a')
    have "2 * dil a + ones (Suc s) + 1 = 2 * (Suc (2 * (2 * dil a' + ones s)))"
      using even by (simp add: ones_Suc)
    moreover have "(a + 1) mod 2 ^ Suc s = Suc (2 * a')" using Suc.prems even by simp
    ultimately show ?thesis using dil_plus_ones [of a' s] Suc.prems even
      by (simp only: ones_Suc_double and_even_odd) simp
  next
    case (odd a')
    have "2 * dil a + ones (Suc s) + 1 = 2 * (2 * (2 * dil a' + ones s + 1))"
      using odd by (simp add: ones_Suc)
    moreover have "(a + 1) mod 2 ^ Suc s = 2 * ((a' + 1) mod 2 ^ s)"
      using odd by (simp add: mult_mod_right)
    ultimately show ?thesis using Suc.IH [of a'] Suc.prems odd
      by (simp only: ones_Suc_double and_even_odd) simp
  qed
qed simp

lemma dil_pred:
  "a < 2 ^ s \<Longrightarrow> 0 < a \<Longrightarrow> (2 * dil a - 1) AND (2 * ones s) = 2 * dil (a - 1)"
proof (induction s arbitrary: a)
  case (Suc s)
  show ?case
  proof (cases a rule: parity_cases)
    case (even a')
    then have "0 < a'" using Suc.prems by simp
    then have "2 * dil a - 1 = Suc (2 * (Suc (2 * (2 * dil a' - 1))))"
      using even dil_pos [of a'] by simp
    moreover have "a - 1 = Suc (2 * (a' - 1))" using even \<open>0 < a'\<close> by simp
    ultimately show ?thesis using Suc.IH [of a'] Suc.prems even \<open>0 < a'\<close>
      by (simp only: ones_Suc_double and_even_odd) simp
  next
    case (odd a')
    have "2 * dil a - 1 = Suc (2 * (2 * (2 * dil a')))" using odd by simp
    moreover have "(2 * dil a') AND (2 * ones s) = 2 * dil a'"
      using dil_and_ones [of a' s] Suc.prems odd by (simp only: and_even_odd) simp
    ultimately show ?thesis using odd by (simp only: ones_Suc_double and_even_odd) simp
  qed
qed simp

subsection \<open>Words that hold dilated naturals\<close>

lemma bit_of_nat_u64: "bit (of_nat k :: u64) n \<longleftrightarrow> n < 64 \<and> bit k n"
  by (simp add: bit_simps)

lemma spread_eq_dil: "spread (ucast (v :: u32)) = of_nat (dil (unat v))"
  by (rule u64_eqI) (simp add: bit_spread bit_of_nat_u64 bit_dil bit_unsigned_iff)

lemma even_mask_shift: "s \<le> 32 \<Longrightarrow> drop_bit (64 - 2 * s) (0x5555555555555555 :: u64) = of_nat (ones s)"
proof (rule u64_eqI)
  fix n :: nat assume "s \<le> 32" "n < 64"
  moreover have "even (64 - 2 * s + n) \<longleftrightarrow> even n" by simp
  ultimately show "bit (drop_bit (64 - 2 * s) (0x5555555555555555 :: u64)) n = bit (of_nat (ones s) :: u64) n"
    by (cases "64 - 2 * s + n < 64") (auto simp: bit_drop_bit_eq mask_even bit_of_nat_u64 bit_ones)
qed

lemma odd_mask_shift: "s \<le> 32 \<Longrightarrow> drop_bit (64 - 2 * s) (0xaaaaaaaaaaaaaaaa :: u64) = of_nat (2 * ones s)"
proof (rule u64_eqI)
  fix n :: nat assume s: "s \<le> 32" and n: "n < 64"
  have "odd (64 - 2 * s + n) \<longleftrightarrow> odd n" by simp
  moreover have "bit (2 * ones s) n \<longleftrightarrow> odd n \<and> n < 2 * s"
    by (cases n) (auto simp: bit_double_iff bit_ones bit_0)
  ultimately show "bit (drop_bit (64 - 2 * s) (0xaaaaaaaaaaaaaaaa :: u64)) n = bit (of_nat (2 * ones s) :: u64) n"
    using s n unfolding bit_of_nat_u64
    by (cases "64 - 2 * s + n < 64") (auto simp: bit_drop_bit_eq mask_odd)
qed

lemma of_nat_and_u64: "(of_nat a AND of_nat b :: u64) = of_nat (a AND b)"
  by (rule u64_eqI) (simp only: bit_and_iff bit_of_nat_u64, auto)

end
