(* ===== verification/Geohash.thy ===== *)
theory Geohash
  imports Rounding Bit_Spread
begin

text \<open>
  The model of \<open>src/redis/geohash.c\<close> and \<open>geohash.h\<close>: bit interleaving, the encoding
  of a coordinate pair as a 64-bit cell number at a precision of \<open>step\<close> bits per axis,
  the decoding of a cell number to its area, and the neighbour cells.  The output
  parameters (\<open>GeoHashBits *hash\<close> and so on) are values of type \<open>option\<close> (\<open>None\<close> is
  the null pointer) that are passed in and returned updated.  Where C leaves the outcome
  undefined (the shift \<open>1 << step\<close> and the conversion of a double to \<open>uint32_t\<close>) the
  model returns \<open>Inl\<close>.
\<close>

subsection \<open>Data\<close>

record GeoHashBits =
  bits :: u64
  step :: u8

record GeoHashRange =
  min_of :: real
  max_of :: real

record GeoHashArea =
  hash_of :: GeoHashBits
  longitude_of :: GeoHashRange
  latitude_of :: GeoHashRange

record GeoHashNeighbors =
  north :: GeoHashBits
  east :: GeoHashBits
  west :: GeoHashBits
  south :: GeoHashBits
  north_east :: GeoHashBits
  south_east :: GeoHashBits
  north_west :: GeoHashBits
  south_west :: GeoHashBits

definition HASHISZERO :: "GeoHashBits \<Rightarrow> bool" where
  "HASHISZERO r \<longleftrightarrow> bits r = 0 \<and> step r = 0"

definition RANGEISZERO :: "GeoHashRange \<Rightarrow> bool" where
  "RANGEISZERO r \<longleftrightarrow> max_of r = 0 \<and> min_of r = 0"

definition RANGEPISZERO :: "GeoHashRange option \<Rightarrow> bool" where
  "RANGEPISZERO r \<longleftrightarrow> (case r of None \<Rightarrow> True | Some r' \<Rightarrow> RANGEISZERO r')"

definition GEO_STEP_MAX :: u8 where "GEO_STEP_MAX = 26"

definition GEO_LAT_MAX :: "(real \<Rightarrow> real) \<Rightarrow> real" where
  "GEO_LAT_MAX fl = fl (8505112878 / 100000000)"

definition GEO_LAT_MIN :: "(real \<Rightarrow> real) \<Rightarrow> real" where
  "GEO_LAT_MIN fl = - fl (8505112878 / 100000000)"

definition GEO_LONG_MAX :: real where "GEO_LONG_MAX = 180"

definition GEO_LONG_MIN :: real where "GEO_LONG_MIN = -180"

subsection \<open>Interleaving\<close>

definition interleave64 :: "u32 \<Rightarrow> u32 \<Rightarrow> u64" where
  "interleave64 xlo ylo =
    (let x = ucast xlo :: u64; y = ucast ylo :: u64;
      x = (x OR push_bit 16 x) AND 0x0000FFFF0000FFFF;
      y = (y OR push_bit 16 y) AND 0x0000FFFF0000FFFF;
      x = (x OR push_bit 8 x) AND 0x00FF00FF00FF00FF;
      y = (y OR push_bit 8 y) AND 0x00FF00FF00FF00FF;
      x = (x OR push_bit 4 x) AND 0x0F0F0F0F0F0F0F0F;
      y = (y OR push_bit 4 y) AND 0x0F0F0F0F0F0F0F0F;
      x = (x OR push_bit 2 x) AND 0x3333333333333333;
      y = (y OR push_bit 2 y) AND 0x3333333333333333;
      x = (x OR push_bit 1 x) AND 0x5555555555555555;
      y = (y OR push_bit 1 y) AND 0x5555555555555555
     in x OR push_bit 1 y)"

definition deinterleave64 :: "u64 \<Rightarrow> u64" where
  "deinterleave64 interleaved =
    (let x = interleaved; y = drop_bit 1 interleaved;
      x = (x OR drop_bit 0 x) AND 0x5555555555555555;
      y = (y OR drop_bit 0 y) AND 0x5555555555555555;
      x = (x OR drop_bit 1 x) AND 0x3333333333333333;
      y = (y OR drop_bit 1 y) AND 0x3333333333333333;
      x = (x OR drop_bit 2 x) AND 0x0F0F0F0F0F0F0F0F;
      y = (y OR drop_bit 2 y) AND 0x0F0F0F0F0F0F0F0F;
      x = (x OR drop_bit 4 x) AND 0x00FF00FF00FF00FF;
      y = (y OR drop_bit 4 y) AND 0x00FF00FF00FF00FF;
      x = (x OR drop_bit 8 x) AND 0x0000FFFF0000FFFF;
      y = (y OR drop_bit 8 y) AND 0x0000FFFF0000FFFF;
      x = (x OR drop_bit 16 x) AND 0x00000000FFFFFFFF;
      y = (y OR drop_bit 16 y) AND 0x00000000FFFFFFFF
     in x OR push_bit 32 y)"

subsection \<open>Encoding\<close>

definition geohashGetCoordRange :: "(real \<Rightarrow> real) \<Rightarrow> GeoHashRange \<times> GeoHashRange" where
  "geohashGetCoordRange fl =
    (\<lparr>min_of = GEO_LONG_MIN, max_of = GEO_LONG_MAX\<rparr>,
     \<lparr>min_of = GEO_LAT_MIN fl, max_of = GEO_LAT_MAX fl\<rparr>)"

text \<open>\<open>1 << n\<close> on a 32-bit \<open>int\<close>.\<close>

definition int_one_shl :: "nat \<Rightarrow> int c" where
  "int_one_shl n = (if n < 31 then Inr (2 ^ n) else Inl Bad_Shift)"

text \<open>A \<open>double\<close> passed where a \<open>uint32_t\<close> is expected: the fraction is cut off.\<close>

definition double_to_u32 :: "real \<Rightarrow> u32 c" where
  "double_to_u32 x = (if - 1 < x \<and> x < 2 ^ 32 then Inr (of_nat (nat \<lfloor>x\<rfloor>)) else Inl Bad_Conversion)"

definition geohashEncode ::
  "(real \<Rightarrow> real) \<Rightarrow> GeoHashRange option \<Rightarrow> GeoHashRange option \<Rightarrow> real \<Rightarrow> real \<Rightarrow> u8 \<Rightarrow>
   GeoHashBits option \<Rightarrow> (int \<times> GeoHashBits option) c" where
  "geohashEncode fl long_range lat_range longitude latitude stp hash =
    (if hash = None \<or> stp > 32 \<or> stp = 0 \<or> RANGEPISZERO lat_range \<or> RANGEPISZERO long_range
     then Inr (0, hash)
     else if longitude > 180 \<or> longitude < -180 \<or>
             latitude > fl (8505112878 / 100000000) \<or> latitude < - fl (8505112878 / 100000000)
     then Inr (0, hash)
     else
       let h = \<lparr>bits = 0, step = stp\<rparr>; lat_r = the lat_range; long_r = the long_range in
       if latitude < min_of lat_r \<or> latitude > max_of lat_r \<or>
          longitude < min_of long_r \<or> longitude > max_of long_r
       then Inr (0, Some h)
       else
         let lat_offset = fl (fl (latitude - min_of lat_r) / fl (max_of lat_r - min_of lat_r));
             long_offset = fl (fl (longitude - min_of long_r) / fl (max_of long_r - min_of long_r)) in
         c_bind (int_one_shl (unat stp)) (\<lambda>p.
         c_bind (double_to_u32 (fl (lat_offset * of_int p))) (\<lambda>a.
         c_bind (double_to_u32 (fl (long_offset * of_int p))) (\<lambda>b.
           Inr (1, Some (h\<lparr>bits := interleave64 a b\<rparr>))))))"

definition geohashEncodeType ::
  "(real \<Rightarrow> real) \<Rightarrow> real \<Rightarrow> real \<Rightarrow> u8 \<Rightarrow> GeoHashBits option \<Rightarrow> (int \<times> GeoHashBits option) c" where
  "geohashEncodeType fl longitude latitude stp hash =
    (let (r0, r1) = geohashGetCoordRange fl
     in geohashEncode fl (Some r0) (Some r1) longitude latitude stp hash)"

definition geohashEncodeWGS84 ::
  "(real \<Rightarrow> real) \<Rightarrow> real \<Rightarrow> real \<Rightarrow> u8 \<Rightarrow> GeoHashBits option \<Rightarrow> (int \<times> GeoHashBits option) c" where
  "geohashEncodeWGS84 fl longitude latitude stp hash =
     geohashEncodeType fl longitude latitude stp hash"

subsection \<open>Decoding\<close>

definition geohashDecode ::
  "(real \<Rightarrow> real) \<Rightarrow> GeoHashRange \<Rightarrow> GeoHashRange \<Rightarrow> GeoHashBits \<Rightarrow> GeoHashArea option \<Rightarrow>
   (int \<times> GeoHashArea option) c" where
  "geohashDecode fl long_range lat_range hash area =
    (if HASHISZERO hash \<or> area = None \<or> RANGEISZERO lat_range \<or> RANGEISZERO long_range
     then Inr (0, area)
     else
       let stp = unat (step hash);
           hash_sep = deinterleave64 (bits hash);
           lat_scale = fl (max_of lat_range - min_of lat_range);
           long_scale = fl (max_of long_range - min_of long_range);
           ilato = ucast hash_sep :: u32;
           ilono = ucast (drop_bit 32 hash_sep) :: u32;
           edge = (\<lambda>range scale (i :: u32).
             fl (min_of range + fl (fl (real (unat i) / 2 ^ stp) * scale))) in
       if 64 \<le> stp then Inl Bad_Shift
       else Inr (1, Some \<lparr>
         hash_of = hash,
         longitude_of = \<lparr>min_of = edge long_range long_scale ilono,
                         max_of = edge long_range long_scale (ilono + 1)\<rparr>,
         latitude_of = \<lparr>min_of = edge lat_range lat_scale ilato,
                        max_of = edge lat_range lat_scale (ilato + 1)\<rparr>\<rparr>))"

definition geohashDecodeType ::
  "(real \<Rightarrow> real) \<Rightarrow> GeoHashBits \<Rightarrow> GeoHashArea option \<Rightarrow> (int \<times> GeoHashArea option) c" where
  "geohashDecodeType fl hash area =
    (let (r0, r1) = geohashGetCoordRange fl in geohashDecode fl r0 r1 hash area)"

definition geohashDecodeWGS84 ::
  "(real \<Rightarrow> real) \<Rightarrow> GeoHashBits \<Rightarrow> GeoHashArea option \<Rightarrow> (int \<times> GeoHashArea option) c" where
  "geohashDecodeWGS84 fl hash area = geohashDecodeType fl hash area"

definition geohashDecodeAreaToLongLat ::
  "(real \<Rightarrow> real) \<Rightarrow> GeoHashArea \<Rightarrow> (real \<times> real) option \<Rightarrow> int \<times> (real \<times> real) option" where
  "geohashDecodeAreaToLongLat fl area xy =
    (case xy of None \<Rightarrow> (0, None)
     | Some _ \<Rightarrow> (1, Some
        (fl (fl (min_of (longitude_of area) + max_of (longitude_of area)) / 2),
         fl (fl (min_of (latitude_of area) + max_of (latitude_of area)) / 2))))"

definition zero_area :: GeoHashArea where
  "zero_area = \<lparr>hash_of = \<lparr>bits = 0, step = 0\<rparr>,
     longitude_of = \<lparr>min_of = 0, max_of = 0\<rparr>, latitude_of = \<lparr>min_of = 0, max_of = 0\<rparr>\<rparr>"

definition geohashDecodeToLongLatType ::
  "(real \<Rightarrow> real) \<Rightarrow> GeoHashBits \<Rightarrow> (real \<times> real) option \<Rightarrow> (int \<times> (real \<times> real) option) c" where
  "geohashDecodeToLongLatType fl hash xy =
    (if xy = None then Inr (0, xy)
     else c_bind (geohashDecodeType fl hash (Some zero_area)) (\<lambda>(ok, area).
       if ok = 0 then Inr (0, xy)
       else Inr (geohashDecodeAreaToLongLat fl (the area) xy)))"

definition geohashDecodeToLongLatWGS84 ::
  "(real \<Rightarrow> real) \<Rightarrow> GeoHashBits \<Rightarrow> (real \<times> real) option \<Rightarrow> (int \<times> (real \<times> real) option) c" where
  "geohashDecodeToLongLatWGS84 fl hash xy = geohashDecodeToLongLatType fl hash xy"

subsection \<open>Neighbour cells\<close>

definition geohash_move_x :: "GeoHashBits \<Rightarrow> int \<Rightarrow> GeoHashBits c" where
  "geohash_move_x hash d =
    (if d = 0 then Inr hash
     else if step hash = 0 \<or> 32 < step hash then Inl Bad_Shift
     else
       let x = bits hash AND 0xaaaaaaaaaaaaaaaa;
           y = bits hash AND 0x5555555555555555;
           zz = drop_bit (64 - 2 * unat (step hash)) (0x5555555555555555 :: u64);
           x = (if d > 0 then x + (zz + 1) else (x OR zz) - (zz + 1));
           x = x AND drop_bit (64 - 2 * unat (step hash)) 0xaaaaaaaaaaaaaaaa
       in Inr (hash\<lparr>bits := x OR y\<rparr>))"

definition geohash_move_y :: "GeoHashBits \<Rightarrow> int \<Rightarrow> GeoHashBits c" where
  "geohash_move_y hash d =
    (if d = 0 then Inr hash
     else if step hash = 0 \<or> 32 < step hash then Inl Bad_Shift
     else
       let x = bits hash AND 0xaaaaaaaaaaaaaaaa;
           y = bits hash AND 0x5555555555555555;
           zz = drop_bit (64 - 2 * unat (step hash)) (0xaaaaaaaaaaaaaaaa :: u64);
           y = (if d > 0 then y + (zz + 1) else (y OR zz) - (zz + 1));
           y = y AND drop_bit (64 - 2 * unat (step hash)) 0x5555555555555555
       in Inr (hash\<lparr>bits := x OR y\<rparr>))"

definition geohash_move :: "GeoHashBits \<Rightarrow> int \<Rightarrow> int \<Rightarrow> GeoHashBits c" where
  "geohash_move hash dx dy = c_bind (geohash_move_x hash dx) (\<lambda>h. geohash_move_y h dy)"

definition geohashNeighbors :: "GeoHashBits \<Rightarrow> GeoHashNeighbors c" where
  "geohashNeighbors hash =
    c_bind (geohash_move hash 1 0) (\<lambda>e.
    c_bind (geohash_move hash (-1) 0) (\<lambda>w.
    c_bind (geohash_move hash 0 (-1)) (\<lambda>s.
    c_bind (geohash_move hash 0 1) (\<lambda>n.
    c_bind (geohash_move hash (-1) 1) (\<lambda>nw.
    c_bind (geohash_move hash 1 1) (\<lambda>ne.
    c_bind (geohash_move hash 1 (-1)) (\<lambda>se.
    c_bind (geohash_move hash (-1) (-1)) (\<lambda>sw.
      Inr \<lparr>north = n, east = e, west = w, south = s, north_east = ne, south_east = se,
           north_west = nw, south_west = sw\<rparr>))))))))"

subsection \<open>Facts on interleaving\<close>

lemma interleave64_spread:
  "interleave64 x y = spread (ucast x) OR push_bit 1 (spread (ucast y))"
  by (simp only: interleave64_def Let_def spread_def spread_step_def)

lemma deinterleave64_unspread:
  "deinterleave64 w = unspread w OR push_bit 32 (unspread (drop_bit 1 w))"
  by (simp only: deinterleave64_def Let_def unspread_def squeeze_step_def)

lemma bit_interleave64:
  assumes "n < 64"
  shows "bit (interleave64 x y) n \<longleftrightarrow> (if even n then bit x (n div 2) else bit y (n div 2))"
proof (cases n)
  case 0
  then show ?thesis by (simp add: interleave64_spread bit_or_iff bit_push_bit_iff bit_spread del: push_bit_Suc)
next
  case (Suc m)
  then show ?thesis using assms
    by (auto simp: interleave64_spread bit_or_iff bit_push_bit_iff bit_spread simp del: push_bit_Suc)
qed

lemma bit_deinterleave64:
  "n < 64 \<Longrightarrow> bit (deinterleave64 w) n \<longleftrightarrow> (if n < 32 then bit w (2 * n) else bit w (2 * (n - 32) + 1))"
  by (auto simp: deinterleave64_unspread bit_or_iff bit_push_bit_iff bit_unspread bit_drop_bit_eq)

lemma deinterleave_interleave:
  "deinterleave64 (interleave64 x y) = ucast x OR push_bit 32 (ucast y)"
  by (rule u64_eqI)
    (auto simp: bit_deinterleave64 bit_interleave64 bit_or_iff bit_push_bit_iff bit_ucast_iff)

lemma interleave_deinterleave:
  "interleave64 (ucast (deinterleave64 w)) (ucast (drop_bit 32 (deinterleave64 w))) = w"
  by (rule u64_eqI)
    (auto simp: bit_interleave64 bit_ucast_iff bit_drop_bit_eq bit_deinterleave64 odd_iff_mod_2_eq_one
      minus_mod_eq_mult_div [symmetric])

subsection \<open>The neighbour moves are additions modulo the grid size\<close>

text \<open>The cell in row \<open>a\<close> (latitude) and column \<open>b\<close> (longitude) of the grid of size \<open>2 ^ s\<close>.\<close>

definition cell :: "nat \<Rightarrow> nat \<Rightarrow> nat \<Rightarrow> GeoHashBits" where
  "cell s a b = \<lparr>bits = interleave64 (of_nat a) (of_nat b), step = of_nat s\<rparr>"

lemma bit_double_dil: "bit (2 * dil b) n \<longleftrightarrow> odd n \<and> bit b (n div 2)"
  by (cases n) (auto simp: bit_double_iff bit_dil bit_0)

lemma bit_of_nat_u32: "n < 32 \<Longrightarrow> bit (of_nat k :: u32) n \<longleftrightarrow> bit k n"
  by (simp add: bit_simps)

lemma grid_bound: "a < 2 ^ s \<Longrightarrow> s \<le> 32 \<Longrightarrow> a < (2::nat) ^ 32"
  by (erule less_le_trans) (rule power_increasing, auto)

lemma interleave_parts:
  "interleave64 (of_nat a) (of_nat b) AND 0xaaaaaaaaaaaaaaaa = of_nat (2 * dil (take_bit 32 b))"
  "interleave64 (of_nat a) (of_nat b) AND 0x5555555555555555 = of_nat (dil (take_bit 32 a))"
  by (rule u64_eqI, simp only: bit_and_iff bit_interleave64 bit_of_nat_u64 bit_double_dil bit_dil mask_odd mask_even,
      auto simp: bit_of_nat_u32 bit_take_bit_iff)+

lemma interleave_join:
  assumes "a < 2 ^ 32" "b < 2 ^ 32"
  shows "of_nat (2 * dil b) OR of_nat (dil a) = interleave64 (of_nat a) (of_nat b)"
proof (rule u64_eqI)
  fix n :: nat assume n: "n < 64"
  then have "n div 2 < 32" by simp
  then show "bit (of_nat (2 * dil b) OR of_nat (dil a) :: u64) n = bit (interleave64 (of_nat a) (of_nat b)) n"
    using n by (simp only: bit_or_iff bit_interleave64 bit_of_nat_u64 bit_double_dil bit_dil bit_of_nat_u32) simp
qed

lemma masked_succ:
  assumes "a < 2 ^ s"
  shows "(of_nat (2 * dil a) + (of_nat (ones s) + 1)) AND of_nat (2 * ones s) =
    (of_nat (2 * dil ((a + 1) mod 2 ^ s)) :: u64)"
proof -
  have "(of_nat (2 * dil a) + (of_nat (ones s) + 1) :: u64) = of_nat (2 * dil a + ones s + 1)" by simp
  then show ?thesis by (simp only: of_nat_and_u64 dil_succ [OF assms])
qed

lemma or_disjoint_u64: "of_nat (2 * dil a) OR of_nat (ones s) = (of_nat (2 * dil a) + of_nat (ones s) :: u64)"
proof -
  have "of_nat (2 * dil a) AND of_nat (ones s) = (0 :: u64)"
    by (rule u64_eqI) (simp only: bit_and_iff bit_of_nat_u64 bit_double_dil bit_ones, simp)
  then show ?thesis by (simp add: disjunctive_add_eq_or)
qed

lemma masked_pred:
  assumes "a < 2 ^ s"
  shows "((of_nat (2 * dil a) OR of_nat (ones s)) - (of_nat (ones s) + 1)) AND of_nat (2 * ones s) =
    (of_nat (2 * dil ((a + 2 ^ s - 1) mod 2 ^ s)) :: u64)"
proof (cases "a = 0")
  case True
  have "(-1 :: u64) AND of_nat (2 * ones s) = of_nat (2 * ones s)" by simp
  then show ?thesis using True by (simp add: ones_def)
next
  case False
  then have "(a + 2 ^ s - 1) mod 2 ^ s = a - 1" using assms
    by (metis Nat.add_diff_assoc2 One_nat_def Suc_leI less_imp_diff_less mod_add_self2 mod_less neq0_conv)
  moreover have "(of_nat (2 * dil a) OR of_nat (ones s)) - (of_nat (ones s) + 1) = (of_nat (2 * dil a - 1) :: u64)"
    using False dil_pos [of a] unfolding or_disjoint_u64 by (simp add: of_nat_diff)
  ultimately show ?thesis using dil_pred [OF assms] False by (simp only: of_nat_and_u64)
qed

lemma dil_and_ones_mod: "dil a AND ones s = dil (a mod 2 ^ s)"
  unfolding take_bit_eq_mod [symmetric]
  by (rule bit_eqI) (auto simp: bit_and_iff bit_dil bit_ones bit_take_bit_iff)

lemma dil_succ_even:
  assumes "a < 2 ^ s"
  shows "(dil a + 2 * ones s + 1) AND ones s = dil ((a + 1) mod 2 ^ s)"
proof -
  have "a < 2 ^ Suc s" using assms by simp
  note succ = dil_succ [OF this]
  have wrap: "(a + 1) mod 2 ^ Suc s mod 2 ^ s = (a + 1) mod 2 ^ s"
    by (rule mod_mod_cancel) simp
  have m: "ones (Suc s) AND ones s = ones s"
    by (rule bit_eqI) (auto simp: bit_and_iff bit_ones)
  have "2 * ((dil a + 2 * ones s + 1) AND ones s) = (2 * dil a + ones (Suc s) + 1) AND (2 * ones s)"
    by (simp add: and_even_odd(1) [symmetric] ones_Suc)
  also have "\<dots> = ((2 * dil a + ones (Suc s) + 1) AND (2 * ones (Suc s))) AND (2 * ones s)"
    using m by (simp only: and.assoc and_even_odd)
  also have "\<dots> = 2 * dil ((a + 1) mod 2 ^ s)"
    by (simp only: succ and_even_odd dil_and_ones_mod wrap)
  finally show ?thesis by simp
qed

lemma dil_pred_even:
  assumes "a < 2 ^ s" "0 < a"
  shows "(dil a - 1) AND ones s = dil (a - 1)"
proof -
  have "2 * dil a - 1 = Suc (2 * (dil a - 1))" using dil_pos [OF assms(2)] by simp
  then show ?thesis using dil_pred [OF assms] by (simp only: and_even_odd)
qed

lemma masked_succ_even:
  assumes "a < 2 ^ s"
  shows "(of_nat (dil a) + (of_nat (2 * ones s) + 1)) AND of_nat (ones s) =
    (of_nat (dil ((a + 1) mod 2 ^ s)) :: u64)"
proof -
  have "(of_nat (dil a) + (of_nat (2 * ones s) + 1) :: u64) = of_nat (dil a + 2 * ones s + 1)" by simp
  then show ?thesis by (simp only: of_nat_and_u64 dil_succ_even [OF assms])
qed

lemma or_disjoint_even: "of_nat (dil a) OR of_nat (2 * ones s) = (of_nat (dil a) + of_nat (2 * ones s) :: u64)"
proof -
  have "of_nat (dil a) AND of_nat (2 * ones s) = (0 :: u64)"
    by (rule u64_eqI) (simp only: bit_and_iff bit_of_nat_u64 ones_def bit_double_dil bit_dil, simp)
  then show ?thesis by (simp only: disjunctive_add_eq_or)
qed

lemma pred_mod: "a < 2 ^ s \<Longrightarrow> 0 < a \<Longrightarrow> (a + 2 ^ s - 1) mod 2 ^ s = (a - 1 :: nat)"
  by (metis Nat.add_diff_assoc2 One_nat_def Suc_leI less_imp_diff_less mod_add_self2 mod_less)

lemma masked_pred_even:
  assumes "a < 2 ^ s"
  shows "((of_nat (dil a) OR of_nat (2 * ones s)) - (of_nat (2 * ones s) + 1)) AND of_nat (ones s) =
    (of_nat (dil ((a + 2 ^ s - 1) mod 2 ^ s)) :: u64)"
proof (cases "a = 0")
  case True
  have "(-1 :: u64) AND of_nat (ones s) = of_nat (ones s)" by simp
  then show ?thesis using True by (simp add: ones_def)
next
  case False
  have "(of_nat (dil a) OR of_nat (2 * ones s)) - (of_nat (2 * ones s) + 1) = (of_nat (dil a - 1) :: u64)"
    using False dil_pos [of a] unfolding or_disjoint_even by (simp add: of_nat_diff)
  then show ?thesis using dil_pred_even [OF assms] pred_mod [OF assms] False
    by (simp add: of_nat_and_u64)
qed

text \<open>The step of a modelled hash as a number, for steps that the shifts allow.\<close>

lemma step_cell:
  assumes "1 \<le> s" "s \<le> 32"
  shows "unat (of_nat s :: u8) = s" "(of_nat s :: u8) \<noteq> 0" "\<not> 32 < (of_nat s :: u8)"
proof -
  show u: "unat (of_nat s :: u8) = s" using assms by (simp add: unat_of_nat)
  then show "(of_nat s :: u8) \<noteq> 0" using assms by (metis not_one_le_zero unat_0)
  show "\<not> 32 < (of_nat s :: u8)" using assms u by (simp add: word_less_nat_alt)
qed

lemma take_bit_grid: "a < 2 ^ s \<Longrightarrow> s \<le> 32 \<Longrightarrow> take_bit 32 a = (a::nat)"
  using grid_bound by (simp add: take_bit_nat_eq_self)

lemma move_x_cell:
  assumes "1 \<le> s" "s \<le> 32" "a < 2 ^ s" "b < 2 ^ s"
  shows "geohash_move_x (cell s a b) 1 = Inr (cell s a ((b + 1) mod 2 ^ s))"
    and "geohash_move_x (cell s a b) (-1) = Inr (cell s a ((b + 2 ^ s - 1) mod 2 ^ s))"
proof -
  note g = grid_bound [OF _ assms(2)] step_cell [OF assms(1,2)] take_bit_grid [OF _ assms(2)]
  have m: "x mod 2 ^ s < 2 ^ s" for x :: nat by simp
  show "geohash_move_x (cell s a b) 1 = Inr (cell s a ((b + 1) mod 2 ^ s))"
    using masked_succ [OF assms(4)] interleave_join [OF g(1) [OF assms(3)] g(1) [OF m]]
    by (simp only: geohash_move_x_def cell_def Let_def GeoHashBits.select_convs g(2,3,4)
        interleave_parts g(5) [OF assms(3)] g(5) [OF assms(4)] even_mask_shift [OF assms(2)]
        odd_mask_shift [OF assms(2)]) simp
  show "geohash_move_x (cell s a b) (-1) = Inr (cell s a ((b + 2 ^ s - 1) mod 2 ^ s))"
    using masked_pred [OF assms(4)] interleave_join [OF g(1) [OF assms(3)] g(1) [OF m]]
    by (simp only: geohash_move_x_def cell_def Let_def GeoHashBits.select_convs g(2,3,4)
        interleave_parts g(5) [OF assms(3)] g(5) [OF assms(4)] even_mask_shift [OF assms(2)]
        odd_mask_shift [OF assms(2)]) simp
qed

lemma move_y_cell:
  assumes "1 \<le> s" "s \<le> 32" "a < 2 ^ s" "b < 2 ^ s"
  shows "geohash_move_y (cell s a b) 1 = Inr (cell s ((a + 1) mod 2 ^ s) b)"
    and "geohash_move_y (cell s a b) (-1) = Inr (cell s ((a + 2 ^ s - 1) mod 2 ^ s) b)"
proof -
  note g = grid_bound [OF _ assms(2)] step_cell [OF assms(1,2)] take_bit_grid [OF _ assms(2)]
  have m: "x mod 2 ^ s < 2 ^ s" for x :: nat by simp
  show "geohash_move_y (cell s a b) 1 = Inr (cell s ((a + 1) mod 2 ^ s) b)"
    using masked_succ_even [OF assms(3)] interleave_join [OF g(1) [OF m] g(1) [OF assms(4)]]
    by (simp only: geohash_move_y_def cell_def Let_def GeoHashBits.select_convs g(2,3,4)
        interleave_parts g(5) [OF assms(3)] g(5) [OF assms(4)] even_mask_shift [OF assms(2)]
        odd_mask_shift [OF assms(2)]) simp
  show "geohash_move_y (cell s a b) (-1) = Inr (cell s ((a + 2 ^ s - 1) mod 2 ^ s) b)"
    using masked_pred_even [OF assms(3)] interleave_join [OF g(1) [OF m] g(1) [OF assms(4)]]
    by (simp only: geohash_move_y_def cell_def Let_def GeoHashBits.select_convs g(2,3,4)
        interleave_parts g(5) [OF assms(3)] g(5) [OF assms(4)] even_mask_shift [OF assms(2)]
        odd_mask_shift [OF assms(2)]) simp
qed
lemma move_zero [simp]: "geohash_move_x h 0 = Inr h" "geohash_move_y h 0 = Inr h"
  by (simp_all add: geohash_move_x_def geohash_move_y_def)

text \<open>
  C7. For every precision from 1 to 32 bits, the eight neighbours of the cell in row \<open>a\<close>
  and column \<open>b\<close> are the eight cells at distance one, with both axes taken modulo the grid
  size: the masked additions and subtractions on interleaved bits never carry from one axis
  into the other.
\<close>

theorem geohashNeighbors_correct:
  assumes "1 \<le> s" "s \<le> 32" "a < 2 ^ s" "b < 2 ^ s"
  defines "up x \<equiv> (x + 1) mod 2 ^ s" and "down x \<equiv> (x + 2 ^ s - 1) mod 2 ^ s"
  shows "geohashNeighbors (cell s a b) = Inr \<lparr>
    north = cell s (up a) b, east = cell s a (up b), west = cell s a (down b),
    south = cell s (down a) b, north_east = cell s (up a) (up b),
    south_east = cell s (down a) (up b), north_west = cell s (up a) (down b),
    south_west = cell s (down a) (down b)\<rparr>"
proof -
  have m: "x mod 2 ^ s < 2 ^ s" for x :: nat by simp
  note X = move_x_cell [OF assms(1-4), folded up_def down_def]
  note Y0 = move_y_cell [OF assms(1-4), folded up_def down_def]
  note Y1 = move_y_cell [OF assms(1-3) m, of "b + 1", folded up_def down_def]
  note Y2 = move_y_cell [OF assms(1-3) m, of "b + 2 ^ s - 1", folded up_def down_def]
  show ?thesis unfolding geohashNeighbors_def geohash_move_def
    by (simp add: X Y0 Y1 Y2)
qed

theorem geohashNeighbors_correct_witness:
  "geohashNeighbors (cell 2 3 0) = Inr \<lparr>
    north = cell 2 0 0, east = cell 2 3 1, west = cell 2 3 3,
    south = cell 2 2 0, north_east = cell 2 0 1,
    south_east = cell 2 2 1, north_west = cell 2 0 3, south_west = cell 2 2 3\<rparr>"
  using geohashNeighbors_correct [of 2 3 0] by simp

lemma interleave_halves:
  "ucast (deinterleave64 (interleave64 x y)) = x"
  "ucast (drop_bit 32 (deinterleave64 (interleave64 x y))) = y"
  unfolding deinterleave_interleave by (rule bit_eqI, auto simp: bit_simps)+

text \<open>
  C22. Interleaving and deinterleaving are inverse to each other: splitting an interleaved
  pair returns both 32-bit halves, and interleaving the halves of a split word returns the
  word.
\<close>

theorem interleave_roundtrip:
  "ucast (deinterleave64 (interleave64 x y)) = x \<and>
   ucast (drop_bit 32 (deinterleave64 (interleave64 x y))) = y \<and>
   interleave64 (ucast (deinterleave64 w)) (ucast (drop_bit 32 (deinterleave64 w))) = w"
  by (simp only: interleave_halves interleave_deinterleave)

subsection \<open>Encoding and decoding on the grid\<close>

definition valid_range :: "GeoHashRange \<Rightarrow> bool" where
  "valid_range r \<longleftrightarrow> min_of r < max_of r"

definition in_range :: "real \<Rightarrow> GeoHashRange \<Rightarrow> bool" where
  "in_range x r \<longleftrightarrow> min_of r \<le> x \<and> x \<le> max_of r"

definition in_world :: "(real \<Rightarrow> real) \<Rightarrow> real \<Rightarrow> real \<Rightarrow> bool" where
  "in_world fl longitude latitude \<longleftrightarrow>
     \<bar>longitude\<bar> \<le> 180 \<and> \<bar>latitude\<bar> \<le> fl (8505112878 / 100000000)"

definition grid_index :: "(real \<Rightarrow> real) \<Rightarrow> GeoHashRange \<Rightarrow> nat \<Rightarrow> real \<Rightarrow> nat" where
  "grid_index fl r s x =
     nat \<lfloor>fl (fl (fl (x - min_of r) / fl (max_of r - min_of r)) * 2 ^ s)\<rfloor>"

text \<open>The two ranges of the projection.\<close>

abbreviation world_long :: GeoHashRange where
  "world_long \<equiv> \<lparr>min_of = GEO_LONG_MIN, max_of = GEO_LONG_MAX\<rparr>"

abbreviation world_lat :: "(real \<Rightarrow> real) \<Rightarrow> GeoHashRange" where
  "world_lat fl \<equiv> \<lparr>min_of = GEO_LAT_MIN fl, max_of = GEO_LAT_MAX fl\<rparr>"

lemma valid_range_nonzero: "valid_range r \<Longrightarrow> \<not> RANGEISZERO r" "valid_range r \<Longrightarrow> \<not> RANGEPISZERO (Some r)"
  by (auto simp: valid_range_def RANGEISZERO_def RANGEPISZERO_def)

context rounding
begin

lemma offset_scaled:
  "fl (fl (fl (x - a) / fl (b - a)) * 2 ^ s) = fl (fl (x - a) / fl (b - a)) * 2 ^ s"
  by (simp add: fl_scale fl_idem)

lemma grid_offset_bounds:
  assumes "valid_range r" "in_range x r"
  shows "0 \<le> fl (fl (fl (x - min_of r) / fl (max_of r - min_of r)) * 2 ^ s)"
    and "fl (fl (fl (x - min_of r) / fl (max_of r - min_of r)) * 2 ^ s) \<le> 2 ^ s"
proof -
  have b: "0 \<le> fl (fl (x - min_of r) / fl (max_of r - min_of r))"
      "fl (fl (x - min_of r) / fl (max_of r - min_of r)) \<le> 1"
    using fl_unit_quotient [of "min_of r" x "max_of r"] assms
    by (auto simp: valid_range_def in_range_def)
  show "0 \<le> fl (fl (fl (x - min_of r) / fl (max_of r - min_of r)) * 2 ^ s)"
    unfolding offset_scaled using b by simp
  show "fl (fl (fl (x - min_of r) / fl (max_of r - min_of r)) * 2 ^ s) \<le> 2 ^ s"
    unfolding offset_scaled using mult_right_mono [OF b(2), of "2 ^ s"] by simp
qed

lemma grid_index_le:
  assumes "valid_range r" "in_range x r"
  shows "grid_index fl r s x \<le> 2 ^ s"
proof -
  have "\<lfloor>fl (fl (fl (x - min_of r) / fl (max_of r - min_of r)) * 2 ^ s)\<rfloor> \<le> \<lfloor>(2::real) ^ s\<rfloor>"
    using grid_offset_bounds(2) [OF assms] by (rule floor_mono)
  also have "\<lfloor>(2::real) ^ s\<rfloor> = 2 ^ s" by (metis floor_of_int of_int_numeral of_int_power)
  finally show ?thesis by (simp add: grid_index_def nat_le_iff)
qed

lemma grid_index_mono:
  assumes "valid_range r" "x \<le> y"
  shows "grid_index fl r s x \<le> grid_index fl r s y"
proof -
  have "fl (x - min_of r) / fl (max_of r - min_of r) \<le> fl (y - min_of r) / fl (max_of r - min_of r)"
    using assms by (intro divide_right_mono fl_mono fl_nonneg) (auto simp: valid_range_def)
  then show ?thesis
    unfolding grid_index_def
    by (intro nat_mono floor_mono fl_mono mult_right_mono) simp_all
qed

lemma double_to_u32_grid:
  assumes "valid_range r" "in_range x r" "s < 32"
  shows "double_to_u32 (fl (fl (fl (x - min_of r) / fl (max_of r - min_of r)) * 2 ^ s)) =
    Inr (of_nat (grid_index fl r s x))"
proof -
  have "(2::real) ^ s < 2 ^ 32" using assms by (intro power_strict_increasing) auto
  then show ?thesis using grid_offset_bounds [OF assms(1,2), of s]
    by (simp add: double_to_u32_def grid_index_def)
qed

lemma encode_value:
  assumes "1 \<le> s" "s \<le> 30" "valid_range long_r" "valid_range lat_r"
    and "in_world fl longitude latitude" "in_range longitude long_r" "in_range latitude lat_r"
  shows "geohashEncode fl (Some long_r) (Some lat_r) longitude latitude (of_nat s) (Some h) =
    Inr (1, Some (cell s (grid_index fl lat_r s latitude) (grid_index fl long_r s longitude)))"
proof -
  have u: "unat (of_nat s :: u8) = s" "(of_nat s :: u8) \<noteq> 0" "\<not> 32 < (of_nat s :: u8)"
    using step_cell [of s] assms by simp_all
  show ?thesis
    unfolding geohashEncode_def
    using assms u valid_range_nonzero
      double_to_u32_grid [OF assms(4,7), of s] double_to_u32_grid [OF assms(3,6), of s]
    by (auto simp: in_world_def in_range_def int_one_shl_def cell_def Let_def abs_le_iff)
qed

lemma encode_wgs84:
  assumes "1 \<le> s" "s \<le> 30" "\<bar>longitude\<bar> \<le> 180" "\<bar>latitude\<bar> \<le> GEO_LAT_MAX fl" "0 < GEO_LAT_MAX fl"
  shows "geohashEncodeWGS84 fl longitude latitude (of_nat s) (Some h) =
    Inr (1, Some (cell s (grid_index fl (world_lat fl) s latitude) (grid_index fl world_long s longitude)))"
  unfolding geohashEncodeWGS84_def geohashEncodeType_def geohashGetCoordRange_def Let_def prod.case
  using assms by (intro encode_value)
    (auto simp: valid_range_def in_range_def in_world_def GEO_LONG_MIN_def GEO_LONG_MAX_def
      GEO_LAT_MIN_def GEO_LAT_MAX_def)

lemma encode_shift_undefined:
  assumes "s = 31 \<or> s = 32" "valid_range long_r" "valid_range lat_r"
    and "in_world fl longitude latitude" "in_range longitude long_r" "in_range latitude lat_r"
  shows "geohashEncode fl (Some long_r) (Some lat_r) longitude latitude (of_nat s) (Some h) = Inl Bad_Shift"
proof -
  have u: "unat (of_nat s :: u8) = s" "(of_nat s :: u8) \<noteq> 0" "\<not> 32 < (of_nat s :: u8)"
    using step_cell [of s] assms by auto
  show ?thesis
    unfolding geohashEncode_def
    using assms u valid_range_nonzero
    by (auto simp: in_world_def in_range_def int_one_shl_def Let_def abs_le_iff)
qed

end

text \<open>A border of a cell, computed exactly, and as the code computes it.\<close>

definition cell_edge :: "GeoHashRange \<Rightarrow> nat \<Rightarrow> nat \<Rightarrow> real" where
  "cell_edge r s i = min_of r + real i / 2 ^ s * (max_of r - min_of r)"

definition cell_border :: "(real \<Rightarrow> real) \<Rightarrow> GeoHashRange \<Rightarrow> nat \<Rightarrow> nat \<Rightarrow> real" where
  "cell_border fl r s i = fl (min_of r + fl (fl (real i / 2 ^ s) * fl (max_of r - min_of r)))"

lemma decode_value:
  assumes "1 \<le> s" "s < 32" "a \<le> 2 ^ s" "b \<le> 2 ^ s" "valid_range long_r" "valid_range lat_r"
  shows "geohashDecode fl long_r lat_r (cell s a b) (Some area) = Inr (1, Some \<lparr>
    hash_of = cell s a b,
    longitude_of = \<lparr>min_of = cell_border fl long_r s b, max_of = cell_border fl long_r s (b + 1)\<rparr>,
    latitude_of = \<lparr>min_of = cell_border fl lat_r s a, max_of = cell_border fl lat_r s (a + 1)\<rparr>\<rparr>)"
proof -
  have lt: "a < 2 ^ 32 - 1" "b < 2 ^ 32 - 1"
  proof -
    have "(2::nat) ^ s \<le> 2 ^ 31" using assms by (intro power_increasing) auto
    then show "a < 2 ^ 32 - 1" "b < 2 ^ 32 - 1" using assms by auto
  qed
  have u: "unat (of_nat x :: u32) = x" "unat (of_nat x + 1 :: u32) = x + 1" if "x < 2 ^ 32 - 1" for x
  proof -
    show "unat (of_nat x :: u32) = x" using that by (simp add: unat_of_nat)
    have "unat (of_nat (x + 1) :: u32) = x + 1" using that by (simp only: unat_of_nat) simp
    then show "unat (of_nat x + 1 :: u32) = x + 1" by (simp add: add.commute)
  qed
  have z: "\<not> HASHISZERO (cell s a b)" using step_cell(2) [of s] assms by (simp add: HASHISZERO_def cell_def)
  have st: "unat (step (cell s a b)) = s" using step_cell(1) [of s] assms by (simp add: cell_def)
  have x: "ucast (deinterleave64 (bits (cell s a b))) = (of_nat a :: u32)"
      "ucast (drop_bit 32 (deinterleave64 (bits (cell s a b)))) = (of_nat b :: u32)"
    by (simp_all add: cell_def interleave_halves)
  show ?thesis
    unfolding geohashDecode_def Let_def x st
    using z assms valid_range_nonzero lt
    by (simp add: u cell_border_def)
qed

text \<open>The greatest absolute value of a coordinate of a range.\<close>

definition extent :: "GeoHashRange \<Rightarrow> real" where
  "extent r = max \<bar>min_of r\<bar> \<bar>max_of r\<bar>"

lemma extent_bounds: "\<bar>min_of r\<bar> \<le> extent r" "max_of r - min_of r \<le> 2 * extent r" "0 \<le> extent r"
  by (auto simp: extent_def)

lemma border_quotient: "i \<le> 2 ^ s + 1 \<Longrightarrow> real i / 2 ^ s \<le> 2"
proof -
  assume "i \<le> 2 ^ s + 1"
  then have "real i \<le> real (2 ^ s + 1)" by (simp only: of_nat_le_iff)
  also have "real (2 ^ s + 1) \<le> 2 * 2 ^ s" by simp
  finally show ?thesis by (simp add: divide_le_eq)
qed

lemma cell_edge_bound:
  assumes "valid_range r" "i \<le> 2 ^ s + 1"
  shows "\<bar>cell_edge r s i\<bar> \<le> 5 * extent r"
proof -
  let ?W = "max_of r - min_of r"
  have sum: "\<bar>m + y\<bar> \<le> 5 * e" if "y \<le> 2 * w" "0 \<le> y" "\<bar>m\<bar> \<le> e" "w \<le> 2 * e" "0 \<le> e" for m y w e :: real
    using that by linarith
  note border_quotient [OF assms(2)]
  moreover have "0 < ?W" using assms(1) by (simp add: valid_range_def)
  ultimately have "real i / 2 ^ s * ?W \<le> 2 * ?W" "0 \<le> real i / 2 ^ s * ?W" by (intro mult_right_mono mult_nonneg_nonneg; simp)+
  from sum [OF this extent_bounds] show ?thesis unfolding cell_edge_def .
qed

context double_rounding
begin

text \<open>The point lies between the borders of its cell, computed exactly, up to the rounding of the quotient.\<close>

lemma grid_index_near:
  assumes "valid_range r" "in_range x r"
  shows "cell_edge r s (grid_index fl r s x) \<le> x + 8 / 2 ^ 53 * extent r"
    and "x \<le> cell_edge r s (grid_index fl r s x + 1) + 8 / 2 ^ 53 * extent r"
proof -
  let ?W = "max_of r - min_of r" and ?i = "grid_index fl r s x"
  let ?q = "fl (fl (x - min_of r) / fl ?W)" and ?t = "(x - min_of r) / ?W"
  have W: "0 < ?W" "min_of r \<le> x" "x \<le> max_of r" using assms by (simp_all add: valid_range_def in_range_def)
  have q: "\<bar>?q - ?t\<bar> \<le> 4 / 2 ^ 53" "0 \<le> ?q" using W by (intro fl_quotient_near fl_unit_quotient; simp)+
  have "real ?i = of_int \<lfloor>?q * 2 ^ s\<rfloor>" unfolding grid_index_def offset_scaled using q(2) by simp
  then have "real ?i \<le> ?q * 2 ^ s" "?q * 2 ^ s \<le> real ?i + 1" by linarith+
  then have "real ?i / 2 ^ s \<le> ?q" "?q \<le> (real ?i + 1) / 2 ^ s" by (simp_all add: divide_le_eq le_divide_eq)
  then have "real ?i / 2 ^ s \<le> ?t + 4 / 2 ^ 53" "?t \<le> (real ?i + 1) / 2 ^ s + 4 / 2 ^ 53" using q(1) by (simp_all only: abs_le_iff) linarith+
  then have "real ?i / 2 ^ s * ?W \<le> (?t + 4 / 2 ^ 53) * ?W" "?t * ?W \<le> ((real ?i + 1) / 2 ^ s + 4 / 2 ^ 53) * ?W"
    using W by (intro mult_right_mono; simp)+
  moreover have "?t * ?W = x - min_of r" using W by simp
  moreover have "4 / 2 ^ 53 * ?W \<le> 8 / 2 ^ 53 * extent r" using extent_bounds(2) [of r] by simp
  ultimately show "cell_edge r s ?i \<le> x + 8 / 2 ^ 53 * extent r" "x \<le> cell_edge r s (?i + 1) + 8 / 2 ^ 53 * extent r"
    unfolding cell_edge_def distrib_right of_nat_add of_nat_1 by linarith+
qed

text \<open>The computed borders are near the exact ones.\<close>

lemma cell_border_near:
  assumes "valid_range r" "i \<le> 2 ^ s + 1" "s \<le> 30"
  shows "\<bar>cell_border fl r s i - cell_edge r s i\<bar> \<le> 16 / 2 ^ 53 * extent r"
proof -
  define W y where "W = max_of r - min_of r" "y = real i / 2 ^ s"
  have W: "0 < W" "W \<le> 2 * extent r" using assms(1) extent_bounds(2) [of r] by (simp_all add: W_y_def valid_range_def)
  have y: "0 \<le> y" "y \<le> 2" using border_quotient [OF assms(2)] by (simp_all add: W_y_def)
  have "(2 :: nat) ^ s \<le> 2 ^ 30" using assms(3) by (intro power_increasing) simp_all
  then have fy: "fl y = y" unfolding W_y_def using assms(2) by (intro fl_dyadic) simp
  have w: "\<bar>fl W - W\<bar> \<le> W / 2 ^ 53" using fl_error [of W] W by simp
  have "\<bar>y * fl W - y * W\<bar> = y * \<bar>fl W - W\<bar>" using y by (simp add: abs_mult right_diff_distrib [symmetric])
  also have "\<dots> \<le> 2 * (W / 2 ^ 53)" using y w by (intro mult_mono) simp_all
  finally have e1: "\<bar>y * fl W - y * W\<bar> \<le> 2 * (W / 2 ^ 53)" .
  have "y * W \<le> 2 * W" "0 \<le> y * W" using y W by simp_all
  then have "\<bar>y * fl W\<bar> \<le> 3 * W" using e1 W unfolding two_53 by linarith
  from fl_near [OF this] have e2: "\<bar>fl (y * fl W) - y * W\<bar> \<le> 5 * (W / 2 ^ 53)" using e1 by linarith
  then have "\<bar>min_of r + fl (y * fl W)\<bar> \<le> 6 * extent r"
    using \<open>y * W \<le> 2 * W\<close> \<open>0 \<le> y * W\<close> extent_bounds [of r] W unfolding two_53 by linarith
  from fl_near [OF this] e2 W extent_bounds(3) [of r] show ?thesis
    unfolding cell_border_def cell_edge_def W_y_def [symmetric] fy two_53 by linarith
qed

lemma contains_near:
  assumes "valid_range r" "in_range x r" "s \<le> 30"
  shows "cell_border fl r s (grid_index fl r s x) - extent r / 2 ^ 48 \<le> x"
    and "x \<le> cell_border fl r s (grid_index fl r s x + 1) + extent r / 2 ^ 48"
proof -
  let ?i = "grid_index fl r s x"
  have "?i \<le> 2 ^ s" by (rule grid_index_le [OF assms(1,2)])
  then have n: "\<bar>cell_border fl r s ?i - cell_edge r s ?i\<bar> \<le> 16 / 2 ^ 53 * extent r"
    "\<bar>cell_border fl r s (?i + 1) - cell_edge r s (?i + 1)\<bar> \<le> 16 / 2 ^ 53 * extent r"
    by (intro cell_border_near [OF assms(1) _ assms(3)]; simp)+
  show "cell_border fl r s ?i - extent r / 2 ^ 48 \<le> x" "x \<le> cell_border fl r s (?i + 1) + extent r / 2 ^ 48"
    using n grid_index_near [OF assms(1,2), of s] extent_bounds(3) [of r] unfolding two_53 by linarith+
qed

lemma midpoint_arith:
  fixes f e0 e1 c0 c1 h x m :: real
  assumes "\<bar>f - (e0 + e1)\<bar> \<le> 11 * m / 2 ^ 53" "\<bar>e0 - c0\<bar> \<le> 16 / 2 ^ 53 * m" "\<bar>e1 - c1\<bar> \<le> 16 / 2 ^ 53 * m"
    "c0 \<le> x + 8 / 2 ^ 53 * m" "x \<le> c1 + 8 / 2 ^ 53 * m" "c1 = c0 + 2 * h" "0 \<le> m"
  shows "\<bar>f / 2 - x\<bar> \<le> h + m / 2 ^ 48"
  using assms unfolding two_53 by linarith

lemma midpoint_near:
  assumes "valid_range r" "in_range x r" "s \<le> 30"
  defines "i \<equiv> grid_index fl r s x"
  shows "\<bar>fl (fl (cell_border fl r s i + cell_border fl r s (i + 1)) / 2) - x\<bar> \<le> (max_of r - min_of r) / 2 ^ (s + 1) + extent r / 2 ^ 48"
proof -
  let ?c0 = "cell_edge r s i" and ?c1 = "cell_edge r s (i + 1)" and ?h = "(max_of r - min_of r) / 2 ^ (s + 1)"
  let ?S = "cell_border fl r s i + cell_border fl r s (i + 1)"
  have i: "i \<le> 2 ^ s" unfolding i_def by (rule grid_index_le [OF assms(1,2)])
  have n: "\<bar>cell_border fl r s i - ?c0\<bar> \<le> 16 / 2 ^ 53 * extent r" "\<bar>cell_border fl r s (i + 1) - ?c1\<bar> \<le> 16 / 2 ^ 53 * extent r"
    using i by (intro cell_border_near [OF assms(1) _ assms(3)]; simp)+
  have g: "?c0 \<le> x + 8 / 2 ^ 53 * extent r" "x \<le> ?c1 + 8 / 2 ^ 53 * extent r" unfolding i_def by (rule grid_index_near [OF assms(1,2)])+
  have "real (i + 1) / 2 ^ s * w = real i / 2 ^ s * w + 2 * (w / 2 ^ (s + 1))" for w :: real
    by (simp add: add_divide_distrib distrib_right)
  then have c: "?c1 = ?c0 + 2 * ?h" by (simp only: cell_edge_def add.assoc)
  have "\<bar>?c0\<bar> \<le> 5 * extent r" "\<bar>?c1\<bar> \<le> 5 * extent r" using i by (auto intro: cell_edge_bound [OF assms(1)])
  then have "\<bar>?S\<bar> \<le> 11 * extent r" using n extent_bounds(3) [of r] unfolding two_53 by linarith
  from midpoint_arith [OF fl_near [OF this] n g c extent_bounds(3)] show ?thesis unfolding fl_half .
qed

end


subsection \<open>Properties of the encoder\<close>

text \<open>
  C23. In the arithmetic of \<open>double\<close>, that is, for every rounding with a relative error of at most $2^{-53}$,
  encoding a point of the coordinate ranges, their borders included, and decoding the cell number gives an area
  that contains the point up to $2^{-48}$ of the greatest coordinate of the range, at every precision from 1 to
  30 bits; both calls report success.  (A point on the upper border, or rounded to it, lies in the row or column
  one past the grid, and is decoded to the area there.)
\<close>

theorem encode_decode_contains:
  assumes "double_rounding fl" "1 \<le> s" "s \<le> 30" "valid_range long_r" "valid_range lat_r"
    and "in_world fl longitude latitude" "in_range longitude long_r" "in_range latitude lat_r"
  defines "tiny r \<equiv> max \<bar>min_of r\<bar> \<bar>max_of r\<bar> / 2 ^ 48"
  shows "\<exists>h' area'.
    geohashEncode fl (Some long_r) (Some lat_r) longitude latitude (of_nat s) (Some h) = Inr (1, Some h') \<and>
    geohashDecode fl long_r lat_r h' (Some area) = Inr (1, Some area') \<and>
    min_of (longitude_of area') - tiny long_r \<le> longitude \<and> longitude \<le> max_of (longitude_of area') + tiny long_r \<and>
    min_of (latitude_of area') - tiny lat_r \<le> latitude \<and> latitude \<le> max_of (latitude_of area') + tiny lat_r"
proof -
  have r: "rounding fl" using assms(1) by (rule double_rounding.axioms)
  let ?a = "grid_index fl lat_r s latitude" and ?b = "grid_index fl long_r s longitude"
  have e: "geohashEncode fl (Some long_r) (Some lat_r) longitude latitude (of_nat s) (Some h) = Inr (1, Some (cell s ?a ?b))"
    by (rule rounding.encode_value [OF r assms(2-8)])
  have i: "?a \<le> 2 ^ s" "?b \<le> 2 ^ s" using rounding.grid_index_le [OF r] assms by blast+
  note d = decode_value [OF assms(2) _ i assms(4,5), of fl area]
  show ?thesis using e d double_rounding.contains_near [OF assms(1,4,7,3)] double_rounding.contains_near [OF assms(1,5,8,3)] assms(3)
    by (simp add: tiny_def extent_def)
qed

theorem encode_decode_contains_witness:
  "\<exists>h' area'.
    geohashEncode fl64 (Some \<lparr>min_of = -180, max_of = 180\<rparr>) (Some \<lparr>min_of = -90, max_of = 90\<rparr>)
      (-46) (-23) (of_nat 26) (Some \<lparr>bits = 0, step = 0\<rparr>) = Inr (1, Some h') \<and>
    geohashDecode fl64 \<lparr>min_of = -180, max_of = 180\<rparr> \<lparr>min_of = -90, max_of = 90\<rparr> h' (Some zero_area) = Inr (1, Some area') \<and>
    min_of (longitude_of area') - 180 / 2 ^ 48 \<le> -46 \<and> -46 \<le> max_of (longitude_of area') + 180 / 2 ^ 48"
proof -
  have "23 \<le> fl64 (8505112878 / 100000000)" using fl64_mono [of 23 "8505112878 / 100000000"] fl64_int [of 23] by simp
  then show ?thesis
    using encode_decode_contains [OF fl64_double.double_rounding_axioms, of 26 "\<lparr>min_of = -180, max_of = 180\<rparr>" "\<lparr>min_of = -90, max_of = 90\<rparr>"
      "-46" "-23" "\<lparr>bits = 0, step = 0\<rparr>" zero_area]
    by (auto simp: valid_range_def in_range_def in_world_def)
qed

text \<open>
  C34. Under every rounding of the arithmetic, the encoder is total on in-range points for
  precisions from 1 to 30 bits: no conversion is out of range, the result is the cell of the
  two grid indices, neither index exceeds \<open>2 ^ s\<close>, the row grows with the latitude and the column with the
  longitude.
\<close>

theorem geohashEncode_total:
  assumes "rounding fl" "1 \<le> s" "s \<le> 30" "valid_range long_r" "valid_range lat_r"
    and "in_world fl longitude latitude" "in_range longitude long_r" "in_range latitude lat_r"
  shows "geohashEncode fl (Some long_r) (Some lat_r) longitude latitude (of_nat s) (Some h) =
      Inr (1, Some (cell s (grid_index fl lat_r s latitude) (grid_index fl long_r s longitude))) \<and>
    grid_index fl lat_r s latitude \<le> 2 ^ s \<and> grid_index fl long_r s longitude \<le> 2 ^ s \<and>
    (\<forall>latitude' \<le> latitude. grid_index fl lat_r s latitude' \<le> grid_index fl lat_r s latitude) \<and>
    (\<forall>longitude' \<le> longitude. grid_index fl long_r s longitude' \<le> grid_index fl long_r s longitude)"
  using rounding.encode_value [OF assms] rounding.grid_index_le [OF assms(1)]
    rounding.grid_index_mono [OF assms(1,5)] rounding.grid_index_mono [OF assms(1,4)] assms by blast

theorem geohashEncode_total_witness:
  "geohashEncode fl64 (Some \<lparr>min_of = -180, max_of = 180\<rparr>) (Some \<lparr>min_of = -85, max_of = 85\<rparr>)
      0 0 (of_nat 26) (Some \<lparr>bits = 0, step = 0\<rparr>) =
      Inr (1, Some (cell 26 (grid_index fl64 \<lparr>min_of = -85, max_of = 85\<rparr> 26 0)
        (grid_index fl64 \<lparr>min_of = -180, max_of = 180\<rparr> 26 0)))"
proof -
  have "0 \<le> fl64 (8505112878 / 100000000)" by (simp add: fl64_sign)
  then show ?thesis
    using geohashEncode_total [OF fl64_rounding.rounding_axioms, of 26 "\<lparr>min_of = -180, max_of = 180\<rparr>"
        "\<lparr>min_of = -85, max_of = 85\<rparr>" 0 0 "\<lparr>bits = 0, step = 0\<rparr>"]
    by (simp add: valid_range_def in_range_def in_world_def)
qed

text \<open>
  C40. The argument check admits precisions up to 32, but for 31 and 32 every in-range point
  reaches the undefined shift \<open>1 << step\<close> of a 32-bit \<open>int\<close>.
\<close>

theorem geohashEncode_step_31_undefined:
  assumes "rounding fl" "s = 31 \<or> s = 32" "valid_range long_r" "valid_range lat_r"
    and "in_world fl longitude latitude" "in_range longitude long_r" "in_range latitude lat_r"
  shows "geohashEncode fl (Some long_r) (Some lat_r) longitude latitude (of_nat s) (Some h) = Inl Bad_Shift"
  using assms by (rule rounding.encode_shift_undefined)

theorem geohashEncode_step_31_undefined_witness:
  "geohashEncode exact (Some \<lparr>min_of = -180, max_of = 180\<rparr>) (Some \<lparr>min_of = -90, max_of = 90\<rparr>)
      1 1 (of_nat 31) (Some \<lparr>bits = 0, step = 0\<rparr>) = Inl Bad_Shift"
  by (rule geohashEncode_step_31_undefined [OF exact_rounding.rounding_axioms])
    (simp_all add: valid_range_def in_range_def in_world_def exact_def)

text \<open>
  On the eastern edge of the world the column is \<open>2 ^ s\<close>, one past the last column of the
  grid, under every rounding: the cell number then has a bit above its \<open>2 s\<close> bits.
\<close>

theorem geohashEncode_east_edge:
  assumes "rounding fl" "1 \<le> s" "s \<le> 30" "\<bar>latitude\<bar> \<le> GEO_LAT_MAX fl" "0 < GEO_LAT_MAX fl"
  shows "\<exists>a. geohashEncodeWGS84 fl 180 latitude (of_nat s) (Some h) = Inr (1, Some (cell s a (2 ^ s))) \<and>
    bit (bits (cell s a (2 ^ s))) (2 * s + 1)"
proof -
  have fl: "fl 360 = 360" "fl 1 = 1" "fl (2 ^ s) = 2 ^ s"
    using rounding.fl_int [OF assms(1), of 360] rounding.fl_int [OF assms(1), of 1]
      rounding.fl_scale [OF assms(1), of 1 s] by simp_all
  then have "grid_index fl world_long s 180 = 2 ^ s"
    by (simp add: grid_index_def GEO_LONG_MIN_def GEO_LONG_MAX_def nat_power_eq)
  moreover have "bit (bits (cell s a (2 ^ s))) (2 * s + 1)" for a
    using assms by (simp add: cell_def bit_interleave64 bit_of_nat_u32 bit_exp_iff del: of_nat_power)
  ultimately show ?thesis
    using rounding.encode_wgs84 [OF assms(1-3), of 180 latitude] assms by auto
qed

theorem geohashEncode_east_edge_witness:
  "\<exists>a. geohashEncodeWGS84 exact 180 0 (of_nat 26) (Some \<lparr>bits = 0, step = 0\<rparr>) =
      Inr (1, Some (cell 26 a (2 ^ 26))) \<and> bit (bits (cell 26 a (2 ^ 26))) (2 * 26 + 1)"
  by (rule geohashEncode_east_edge [OF exact_rounding.rounding_axioms])
    (simp_all add: GEO_LAT_MAX_def exact_def)

end
