(* ===== verification/Geohash_Helper.thy ===== *)
theory Geohash_Helper
  imports Geohash
begin

text \<open>
  The model of \<open>src/redis/geohash_helper.c\<close>: the precision for a search radius, the
  bounding box, the nine cells of a radius search, the 52-bit alignment and the great-circle
  distance.  The functions of the C math library are the fields of a record that the
  definitions take beside the rounding; \<open>real_libm\<close> is its instance in exact arithmetic.
\<close>

record libm =
  c_sin :: "real \<Rightarrow> real"
  c_cos :: "real \<Rightarrow> real"
  c_asin :: "real \<Rightarrow> real"
  c_sqrt :: "real \<Rightarrow> real"

definition real_libm :: libm where
  "real_libm = \<lparr>c_sin = sin, c_cos = cos, c_asin = arcsin, c_sqrt = sqrt\<rparr>"

record GeoHashRadius =
  r_hash :: GeoHashBits
  r_area :: GeoHashArea
  r_neighbors :: GeoHashNeighbors

definition D_R :: "(real \<Rightarrow> real) \<Rightarrow> real" where
  "D_R fl = fl (fl pi / 180)"

definition EARTH_RADIUS_IN_METERS :: "(real \<Rightarrow> real) \<Rightarrow> real" where
  "EARTH_RADIUS_IN_METERS fl = fl (6372797560856 / 1000000)"

definition MERCATOR_MAX :: "(real \<Rightarrow> real) \<Rightarrow> real" where
  "MERCATOR_MAX fl = fl (2003772637 / 100)"

definition deg_rad :: "(real \<Rightarrow> real) \<Rightarrow> real \<Rightarrow> real" where
  "deg_rad fl ang = fl (ang * D_R fl)"

definition rad_deg :: "(real \<Rightarrow> real) \<Rightarrow> real \<Rightarrow> real" where
  "rad_deg fl ang = fl (ang / D_R fl)"

subsection \<open>The precision for a radius\<close>

text \<open>The doubling loop; \<open>None\<close> stands for a loop that does not end.\<close>

partial_function (option) steps_loop :: "(real \<Rightarrow> real) \<Rightarrow> real \<Rightarrow> int \<Rightarrow> int option" where
  "steps_loop fl range_meters stp =
    (if range_meters < MERCATOR_MAX fl then steps_loop fl (fl (range_meters * 2)) (stp + 1)
     else Some stp)"

definition frame_step :: "real \<Rightarrow> int \<Rightarrow> int" where
  "frame_step lat stp0 =
    (let stp = stp0 - 2;
         stp = (if lat > 67 \<or> lat < -67 then stp - 1 else stp);
         stp = (if lat > 80 \<or> lat < -80 then stp - 1 else stp);
         stp = (if stp < 1 then 1 else stp);
         stp = (if stp > 26 then 25 else stp)
     in stp)"

definition geohashEstimateStepsByRadius :: "(real \<Rightarrow> real) \<Rightarrow> real \<Rightarrow> real \<Rightarrow> u8 option" where
  "geohashEstimateStepsByRadius fl range_meters lat =
    (if range_meters = 0 then Some 26
     else map_option (\<lambda>stp. of_int (frame_step lat stp)) (steps_loop fl range_meters 1))"

subsection \<open>Comparison, bounding box, alignment, distance\<close>

text \<open>The difference of the bits is a 64-bit word that is cut to an \<open>int\<close>.\<close>

definition geohashBitsComparator :: "GeoHashBits \<Rightarrow> GeoHashBits \<Rightarrow> int" where
  "geohashBitsComparator a b =
    (if step a \<noteq> step b then int (unat (step a)) - int (unat (step b))
     else sint (ucast (bits a - bits b) :: u32))"

definition geohashBoundingBox ::
  "(real \<Rightarrow> real) \<Rightarrow> libm \<Rightarrow> real \<Rightarrow> real \<Rightarrow> real \<Rightarrow> (real \<times> real \<times> real \<times> real) option \<Rightarrow>
   int \<times> (real \<times> real \<times> real \<times> real) option" where
  "geohashBoundingBox fl m longitude latitude radius_meters bounds =
    (if bounds = None then (0, bounds)
     else
       let lonr = deg_rad fl longitude;
           latr = deg_rad fl latitude;
           distance = fl (radius_meters / EARTH_RADIUS_IN_METERS fl);
           min_latitude = fl (latr - distance);
           max_latitude = fl (latr + distance);
           difference_longitude = c_asin m (fl (c_sin m distance / c_cos m latr));
           min_longitude = fl (lonr - difference_longitude);
           max_longitude = fl (lonr + difference_longitude)
       in (1, Some (rad_deg fl min_longitude, rad_deg fl min_latitude,
                    rad_deg fl max_longitude, rad_deg fl max_latitude)))"

definition geohashAlign52Bits :: "GeoHashBits \<Rightarrow> u64 c" where
  "geohashAlign52Bits hash =
    (if unat (step hash) \<le> 26 then Inr (push_bit (52 - 2 * unat (step hash)) (bits hash))
     else Inl Bad_Shift)"

definition geohashGetDistance ::
  "(real \<Rightarrow> real) \<Rightarrow> libm \<Rightarrow> real \<Rightarrow> real \<Rightarrow> real \<Rightarrow> real \<Rightarrow> real" where
  "geohashGetDistance fl m lon1d lat1d lon2d lat2d =
    (let lat1r = deg_rad fl lat1d;
         lon1r = deg_rad fl lon1d;
         lat2r = deg_rad fl lat2d;
         lon2r = deg_rad fl lon2d;
         u = c_sin m (fl (fl (lat2r - lat1r) / 2));
         v = c_sin m (fl (fl (lon2r - lon1r) / 2))
     in fl (fl (2 * EARTH_RADIUS_IN_METERS fl) *
        c_asin m (c_sqrt m (fl (fl (u * u) + fl (fl (fl (c_cos m lat1r * c_cos m lat2r) * v) * v))))))"

definition geohashGetDistanceIfInRadius ::
  "(real \<Rightarrow> real) \<Rightarrow> libm \<Rightarrow> real \<Rightarrow> real \<Rightarrow> real \<Rightarrow> real \<Rightarrow> real \<Rightarrow> int \<times> real" where
  "geohashGetDistanceIfInRadius fl m x1 y1 x2 y2 radius =
    (let distance = geohashGetDistance fl m x1 y1 x2 y2
     in (if distance > radius then 0 else 1, distance))"

definition geohashGetDistanceIfInRadiusWGS84 ::
  "(real \<Rightarrow> real) \<Rightarrow> libm \<Rightarrow> real \<Rightarrow> real \<Rightarrow> real \<Rightarrow> real \<Rightarrow> real \<Rightarrow> int \<times> real" where
  "geohashGetDistanceIfInRadiusWGS84 fl m x1 y1 x2 y2 radius =
     geohashGetDistanceIfInRadius fl m x1 y1 x2 y2 radius"

subsection \<open>The cells of a radius search\<close>

definition GZERO :: GeoHashBits where
  "GZERO = \<lparr>bits = 0, step = 0\<rparr>"

definition drop_useless ::
  "GeoHashArea \<Rightarrow> real \<times> real \<times> real \<times> real \<Rightarrow> GeoHashNeighbors \<Rightarrow> GeoHashNeighbors" where
  "drop_useless area bounds nb =
    (let (min_lon, min_lat, max_lon, max_lat) = bounds;
         nb = (if min_of (latitude_of area) < min_lat
               then nb\<lparr>south := GZERO, south_west := GZERO, south_east := GZERO\<rparr> else nb);
         nb = (if max_of (latitude_of area) > max_lat
               then nb\<lparr>north := GZERO, north_east := GZERO, north_west := GZERO\<rparr> else nb);
         nb = (if min_of (longitude_of area) < min_lon
               then nb\<lparr>west := GZERO, south_west := GZERO, north_west := GZERO\<rparr> else nb);
         nb = (if max_of (longitude_of area) > max_lon
               then nb\<lparr>east := GZERO, south_east := GZERO, north_east := GZERO\<rparr> else nb)
     in nb)"

text \<open>\<open>None\<close>: the precision loop does not end; \<open>Some (Inl _)\<close>: undefined behaviour.\<close>

definition geohashGetAreasByRadius ::
  "(real \<Rightarrow> real) \<Rightarrow> libm \<Rightarrow> real \<Rightarrow> real \<Rightarrow> real \<Rightarrow> GeoHashRadius c option" where
  "geohashGetAreasByRadius fl m longitude latitude radius_meters =
    (let bounds = the (snd (geohashBoundingBox fl m longitude latitude radius_meters (Some (0, 0, 0, 0)))) in
     map_option (\<lambda>steps.
       let (long_range, lat_range) = geohashGetCoordRange fl in
       c_bind (geohashEncode fl (Some long_range) (Some lat_range) longitude latitude steps (Some GZERO)) (\<lambda>(_, hash).
       c_bind (geohashNeighbors (the hash)) (\<lambda>neighbors.
       c_bind (geohashDecode fl long_range lat_range (the hash) (Some zero_area)) (\<lambda>(_, area).
         Inr \<lparr>r_hash = the hash, r_area = the area,
              r_neighbors = drop_useless (the area) bounds neighbors\<rparr>))))
     (geohashEstimateStepsByRadius fl radius_meters latitude))"

definition geohashGetAreasByRadiusWGS84 ::
  "(real \<Rightarrow> real) \<Rightarrow> libm \<Rightarrow> real \<Rightarrow> real \<Rightarrow> real \<Rightarrow> GeoHashRadius c option" where
  "geohashGetAreasByRadiusWGS84 fl m longitude latitude radius_meters =
     geohashGetAreasByRadius fl m longitude latitude radius_meters"

subsection \<open>The precision loop\<close>

context rounding
begin

lemma mercator_ge_1: "1 \<le> MERCATOR_MAX fl"
  using fl_mono [of 1 "2003772637 / 100"] by (simp add: MERCATOR_MAX_def)

lemma fl_double: "fl x = x \<Longrightarrow> fl (x * 2) = x * 2"
  using fl_scale [of x 1] by simp

lemma steps_loop_value:
  assumes "fl x = x" "MERCATOR_MAX fl \<le> x * 2 ^ n" "\<And>k. k < n \<Longrightarrow> x * 2 ^ k < MERCATOR_MAX fl"
  shows "steps_loop fl x stp = Some (stp + int n)"
  using assms
proof (induction n arbitrary: x stp)
  case 0
  then show ?case by (simp add: steps_loop.simps)
next
  case (Suc n)
  have "x < MERCATOR_MAX fl" using Suc.prems(3) [of 0] by simp
  moreover have "steps_loop fl (x * 2) (stp + 1) = Some (stp + 1 + int n)"
  proof (rule Suc.IH)
    show "fl (x * 2) = x * 2" using Suc.prems(1) by (rule fl_double)
    show "MERCATOR_MAX fl \<le> x * 2 * 2 ^ n" using Suc.prems(2) by (simp add: mult.assoc)
    show "x * 2 * 2 ^ k < MERCATOR_MAX fl" if "k < n" for k
      using Suc.prems(3) [of "Suc k"] that by (simp add: mult.assoc)
  qed
  ultimately show ?case using Suc.prems(1) by (subst steps_loop.simps) (simp add: fl_double)
qed

lemma doublings_exist:
  assumes "0 < x"
  obtains n where "M \<le> x * 2 ^ n" "\<And>k. k < n \<Longrightarrow> x * 2 ^ k < (M::real)"
proof -
  obtain m where "M / x < 2 ^ m" using real_arch_pow [of 2 "M / x"] by auto
  then have ex: "M \<le> x * 2 ^ m" using assms by (simp add: divide_less_eq mult.commute)
  let ?n = "LEAST n. M \<le> x * 2 ^ n"
  have "M \<le> x * 2 ^ ?n" using ex by (rule LeastI)
  moreover have "x * 2 ^ k < M" if "k < ?n" for k using not_less_Least [OF that] by simp
  ultimately show ?thesis by (rule that)
qed

end

lemma frame_step_bounds: "1 \<le> frame_step lat stp \<and> frame_step lat stp \<le> 26"
  by (simp add: frame_step_def Let_def)

lemma estimate_steps_total:
  assumes "rounding fl" "fl r = r" "0 \<le> r"
  shows "\<exists>s. geohashEstimateStepsByRadius fl r lat = Some s \<and> 1 \<le> unat s \<and> unat s \<le> 26"
proof (cases "r = 0")
  case True
  then show ?thesis by (simp add: geohashEstimateStepsByRadius_def)
next
  case False
  then obtain n where n: "MERCATOR_MAX fl \<le> r * 2 ^ n" "\<And>k. k < n \<Longrightarrow> r * 2 ^ k < MERCATOR_MAX fl"
    using rounding.doublings_exist [OF assms(1), of r "MERCATOR_MAX fl"] assms by auto
  have "steps_loop fl r 1 = Some (1 + int n)"
    using rounding.steps_loop_value [OF assms(1,2)] n by blast
  moreover have "unat (of_int (frame_step lat (1 + int n)) :: u8) = nat (frame_step lat (1 + int n))"
    using frame_step_bounds [of lat "1 + int n"] by (simp add: unat_eq_nat_uint uint_word_of_int_eq take_bit_int_eq_self)
  ultimately show ?thesis
    using False frame_step_bounds [of lat "1 + int n"]
    by (auto simp: geohashEstimateStepsByRadius_def nat_le_iff le_nat_iff)
qed

text \<open>
  C37. For every radius that is a positive double (or zero) the precision loop ends, under
  every rounding, and the precision returned lies between 1 and 26, so that it is a valid
  argument of the encoder and of the 52-bit alignment.
\<close>

theorem estimate_steps_terminates:
  assumes "rounding fl" "fl r = r" "0 \<le> r"
  shows "\<exists>s. geohashEstimateStepsByRadius fl r lat = Some s \<and> 1 \<le> unat s \<and> unat s \<le> 26"
  using assms by (rule estimate_steps_total)

theorem estimate_steps_terminates_witness:
  "\<exists>s. geohashEstimateStepsByRadius fl64 1000 0 = Some s \<and> 1 \<le> unat s \<and> unat s \<le> 26"
  by (rule estimate_steps_terminates [OF fl64_rounding.rounding_axioms])
    (use fl64_rounding.fl_numeral [of "num.Bit0 (num.Bit0 (num.Bit0 (num.Bit1 (num.Bit0 (num.Bit1 (num.Bit1 (num.Bit1 (num.Bit1 num.One))))))))"] in simp_all)

lemma steps_loop_negative:
  assumes "rounding fl" "fl r = r" "steps_loop fl r stp = Some s"
  shows "\<not> r < 0"
proof -
  let ?P = "\<lambda>fl r (stp::int) (s::int). rounding fl \<and> fl r = r \<longrightarrow> \<not> r < 0"
  have "?P fl r stp s"
  proof (rule steps_loop.raw_induct [where P = ?P, OF _ assms(3)])
    fix f :: "(real \<Rightarrow> real) \<Rightarrow> real \<Rightarrow> int \<Rightarrow> int option" and fl r stp s
    assume IH: "\<And>fl r stp s. f fl r stp = Some s \<Longrightarrow> ?P fl r stp s"
      and eq: "(if r < MERCATOR_MAX fl then f fl (fl (r * 2)) (stp + 1) else Some stp) = Some s"
    show "?P fl r stp s"
    proof (intro impI notI)
      assume fl: "rounding fl \<and> fl r = r" and r: "r < 0"
      then have "1 \<le> MERCATOR_MAX fl" using rounding.mercator_ge_1 by blast
      then have "f fl (fl (r * 2)) (stp + 1) = Some s" using eq r by simp
      moreover have "fl (r * 2) = r * 2" using fl rounding.fl_double by blast
      ultimately have "\<not> r * 2 < 0" using IH fl by metis
      then show False using r by simp
    qed
  qed
  then show ?thesis using assms by blast
qed

text \<open>
  For a negative radius the precision loop never ends, under every rounding: the doubled
  radius moves away from the bound it is compared with.
\<close>

theorem estimate_steps_negative_diverges:
  assumes "rounding fl" "fl r = r" "r < 0"
  shows "geohashEstimateStepsByRadius fl r lat = None"
proof (cases "steps_loop fl r 1")
  case None
  then show ?thesis using assms by (simp add: geohashEstimateStepsByRadius_def)
next
  case (Some s)
  then show ?thesis using steps_loop_negative [OF assms(1,2) Some] assms(3) by simp
qed

theorem estimate_steps_negative_diverges_witness:
  "geohashEstimateStepsByRadius exact (-1) 0 = None"
  by (rule estimate_steps_negative_diverges [OF exact_rounding.rounding_axioms])
    (simp_all add: exact_def)

subsection \<open>The clamp of the precision\<close>

text \<open>
  The clamp at the upper end is not monotone: a radius of an eighth of a metre gets 25
  bits, while a radius of a quarter of a metre gets 26 bits, although the smaller radius asks
  for the finer grid.
\<close>

theorem estimate_steps_clamp_inverted:
  "geohashEstimateStepsByRadius exact (1/8) 0 = Some 25 \<and>
   geohashEstimateStepsByRadius exact (1/4) 0 = Some 26"
  by (simp add: geohashEstimateStepsByRadius_def steps_loop.simps exact_def MERCATOR_MAX_def
      frame_step_def)

subsection \<open>The comparator\<close>

lemma sint_of_int_u32:
  assumes "- (2 ^ 31) \<le> k" "k < 2 ^ 31"
  shows "sint (ucast (of_int k :: u64) :: u32) = k"
proof -
  have "(ucast (of_int k :: u64) :: u32) = of_int k"
    by (rule bit_eqI) (simp add: bit_simps)
  then show ?thesis using assms by (simp add: sint_sbintrunc' signed_take_bit_int_eq_self)
qed

text \<open>
  On two hashes of the same precision whose cell numbers differ by less than $2^{31}$ the
  comparator returns the signed difference of the cell numbers.
\<close>

theorem comparator_small_difference:
  assumes "step a = step b" "\<bar>int (unat (bits a)) - int (unat (bits b))\<bar> < 2 ^ 31"
  shows "geohashBitsComparator a b = int (unat (bits a)) - int (unat (bits b))"
proof -
  have "bits a - bits b = of_int (int (unat (bits a)) - int (unat (bits b)))" by simp
  then show ?thesis using assms sint_of_int_u32 [of "int (unat (bits a)) - int (unat (bits b))"]
    by (simp add: geohashBitsComparator_def abs_less_iff)
qed

theorem comparator_small_difference_witness:
  "geohashBitsComparator \<lparr>bits = 7, step = 26\<rparr> \<lparr>bits = 9, step = 26\<rparr> = -2"
  using comparator_small_difference [of "\<lparr>bits = 7, step = 26\<rparr>" "\<lparr>bits = 9, step = 26\<rparr>"] by simp

text \<open>
  The comparator cuts the 64-bit difference to an \<open>int\<close>: two different cells of the full
  26-bit precision can compare as equal.
\<close>

theorem comparator_truncates:
  "geohashBitsComparator \<lparr>bits = 2 ^ 32, step = 26\<rparr> \<lparr>bits = 0, step = 26\<rparr> = 0 \<and>
   geohashBitsComparator \<lparr>bits = 2 ^ 31, step = 26\<rparr> \<lparr>bits = 0, step = 26\<rparr> < 0"
  by (simp add: geohashBitsComparator_def)

subsection \<open>The great-circle distance\<close>

lemma haversine_bounds:
  assumes "0 \<le> cos p" "0 \<le> cos q"
  shows "0 \<le> (sin ((q - p) / 2))\<^sup>2 + cos p * cos q * (sin l)\<^sup>2"
    and "(sin ((q - p) / 2))\<^sup>2 + cos p * cos q * (sin l)\<^sup>2 \<le> (1::real)"
proof -
  have c: "0 \<le> cos p * cos q" using assms by simp
  then show "0 \<le> (sin ((q - p) / 2))\<^sup>2 + cos p * cos q * (sin l)\<^sup>2" by simp
  have l: "(sin l)\<^sup>2 \<le> 1" by (simp add: abs_square_le_1)
  have "cos p * cos q * (sin l)\<^sup>2 \<le> cos p * cos q" using mult_left_mono [OF l c] by simp
  moreover have "2 * ((q - p) / 2) = q - p" by simp
  then have "cos (q - p) = 1 - 2 * (sin ((q - p) / 2))\<^sup>2" by (metis cos_double_sin)
  moreover have "cos (q - p) = cos q * cos p + sin q * sin p" by (rule cos_diff)
  moreover have "cos (q + p) = cos q * cos p - sin q * sin p" by (rule cos_add)
  moreover have "cos (q + p) \<le> 1" by simp
  ultimately show "(sin ((q - p) / 2))\<^sup>2 + cos p * cos q * (sin l)\<^sup>2 \<le> 1"
    by (simp add: mult.commute)
qed

lemma cos_deg_rad: "\<bar>lat\<bar> \<le> 90 \<Longrightarrow> 0 \<le> cos (deg_rad exact lat)"
  using mult_right_mono [of "-90" lat "pi / 180"] mult_right_mono [of lat 90 "pi / 180"]
  by (intro cos_ge_zero) (simp_all add: deg_rad_def D_R_def exact_def abs_le_iff)

text \<open>
  In exact arithmetic, for latitudes between the poles, the argument of the arc sine lies
  in the unit interval, so the distance is between 0 and half the circumference; it is
  symmetric in the two points and zero from a point to itself.
\<close>

theorem distance_metric_facts:
  assumes "\<bar>lat1\<bar> \<le> 90" "\<bar>lat2\<bar> \<le> 90"
  shows "0 \<le> geohashGetDistance exact real_libm lon1 lat1 lon2 lat2 \<and>
    geohashGetDistance exact real_libm lon1 lat1 lon2 lat2 \<le> pi * EARTH_RADIUS_IN_METERS exact \<and>
    geohashGetDistance exact real_libm lon1 lat1 lon2 lat2 =
      geohashGetDistance exact real_libm lon2 lat2 lon1 lat1 \<and>
    geohashGetDistance exact real_libm lon1 lat1 lon1 lat1 = 0"
proof -
  let ?p = "deg_rad exact lat1" and ?q = "deg_rad exact lat2"
  let ?l = "(deg_rad exact lon2 - deg_rad exact lon1) / 2"
  let ?h = "(sin ((?q - ?p) / 2))\<^sup>2 + cos ?p * cos ?q * (sin ?l)\<^sup>2"
  have b: "0 \<le> sqrt ?h" "sqrt ?h \<le> 1"
    using haversine_bounds [of ?p ?q ?l] cos_deg_rad assms by auto
  have d: "geohashGetDistance exact real_libm lon1 lat1 lon2 lat2 =
      2 * EARTH_RADIUS_IN_METERS exact * arcsin (sqrt ?h)"
    by (simp add: geohashGetDistance_def real_libm_def exact_def Let_def power2_eq_square mult.assoc)
  have R: "0 < EARTH_RADIUS_IN_METERS exact" by (simp add: EARTH_RADIUS_IN_METERS_def exact_def)
  have "0 \<le> arcsin (sqrt ?h)" using b arcsin_le_mono [of 0 "sqrt ?h"] by simp
  then have lo: "0 \<le> geohashGetDistance exact real_libm lon1 lat1 lon2 lat2" using R d by simp
  have "arcsin (sqrt ?h) \<le> pi / 2" using b by (intro arcsin_ubound) linarith+
  then have hi: "geohashGetDistance exact real_libm lon1 lat1 lon2 lat2 \<le> pi * EARTH_RADIUS_IN_METERS exact"
    using R d mult_left_mono [of "arcsin (sqrt ?h)" "pi / 2" "2 * EARTH_RADIUS_IN_METERS exact"]
    by (simp add: mult.commute)
  have sym: "geohashGetDistance exact real_libm lon1 lat1 lon2 lat2 =
      geohashGetDistance exact real_libm lon2 lat2 lon1 lat1"
    using sin_minus [of "(?q - ?p) / 2"] sin_minus [of ?l]
    by (simp add: geohashGetDistance_def real_libm_def exact_def Let_def mult.commute minus_divide_left)
  have "geohashGetDistance exact real_libm lon1 lat1 lon1 lat1 = 0"
    by (simp add: geohashGetDistance_def real_libm_def exact_def Let_def)
  then show ?thesis using lo hi sym by blast
qed

theorem distance_metric_facts_witness:
  "0 \<le> geohashGetDistance exact real_libm 13 38 15 37 \<and>
    geohashGetDistance exact real_libm 13 38 15 37 \<le> pi * EARTH_RADIUS_IN_METERS exact \<and>
    geohashGetDistance exact real_libm 13 38 15 37 = geohashGetDistance exact real_libm 15 37 13 38 \<and>
    geohashGetDistance exact real_libm 13 38 13 38 = 0"
  by (rule distance_metric_facts) simp_all

subsection \<open>The radius search\<close>

text \<open>
  A radius search for a latitude beyond the northern limit of the projection is
  undefined: the encoder refuses the point and leaves precision 0, its return
  value is ignored, and the neighbour computation then shifts a 64-bit word by 64.
\<close>

theorem radius_search_polar_undefined:
  assumes "rounding fl" "fl r = r" "0 \<le> r" "GEO_LAT_MAX fl < latitude"
  shows "geohashGetAreasByRadiusWGS84 fl m longitude latitude r = Some (Inl Bad_Shift)"
proof -
  obtain n where n: "geohashEstimateStepsByRadius fl r latitude = Some n"
    using estimate_steps_total [OF assms(1-3)] by blast
  have "geohashNeighbors GZERO = Inl Bad_Shift"
    by (simp add: geohashNeighbors_def geohash_move_def geohash_move_x_def GZERO_def)
  moreover have "geohashEncode fl lo la longitude latitude n (Some GZERO) = Inr (0, Some GZERO)" for lo la
    using assms(4) by (simp add: geohashEncode_def GEO_LAT_MAX_def)
  ultimately show ?thesis
    by (simp add: geohashGetAreasByRadiusWGS84_def geohashGetAreasByRadius_def n geohashGetCoordRange_def Let_def)
qed

theorem radius_search_polar_undefined_witness:
  "geohashGetAreasByRadiusWGS84 exact real_libm 0 89 1000 = Some (Inl Bad_Shift)"
  by (rule radius_search_polar_undefined [OF exact_rounding.rounding_axioms])
    (simp_all add: exact_def GEO_LAT_MAX_def)

end
