(* ===== verification/Rgeohash.thy ===== *)
theory Rgeohash
  imports Geohash_Helper
begin

text \<open>
  The model of \<open>src/redis/rgeohash.c\<close>, the library interface over the two geohash
  theories: the 11-character text form and the 52-bit form of a point, and the way back.
  A local variable that the C code does not initialise is an argument (\<open>h0\<close>) of the model
  function.  The right shift of a 64-bit word is an argument as well, with the contract
  \<open>right_shift\<close>: C fixes its result for counts from 0 to 63 only, and the text encoder
  uses the count \<open>-3\<close>.  \<open>x86_shr\<close> is the shift of the machine the sources are built for.
\<close>

locale right_shift =
  fixes shr :: "u64 \<Rightarrow> int \<Rightarrow> u64"
  assumes shr_defined: "0 \<le> n \<Longrightarrow> n < 64 \<Longrightarrow> shr w n = drop_bit (nat n) w"

definition x86_shr :: "u64 \<Rightarrow> int \<Rightarrow> u64" where
  "x86_shr w n = drop_bit (nat (n mod 64)) w"

interpretation x86: right_shift x86_shr
  by unfold_locales (simp add: x86_shr_def)

subsection \<open>Definitions\<close>

definition geoalphabet :: string where
  "geoalphabet = ''0123456789bcdefghjkmnpqrstuvwxyz''"

definition NUL :: char where
  "NUL = CHR 0x00"

definition write_char :: "string \<Rightarrow> nat \<Rightarrow> char \<Rightarrow> string c" where
  "write_char buf i ch = (if i < length buf then Inr (buf[i := ch]) else Inl Out_Of_Bounds)"

fun write_chars :: "string \<Rightarrow> nat \<Rightarrow> string \<Rightarrow> string c" where
  "write_chars buf i [] = Inr buf"
| "write_chars buf i (ch # chs) = c_bind (write_char buf i ch) (\<lambda>buf. write_chars buf (Suc i) chs)"

definition geohash_index :: "(u64 \<Rightarrow> int \<Rightarrow> u64) \<Rightarrow> u64 \<Rightarrow> nat \<Rightarrow> nat" where
  "geohash_index shr w i = unat (shr w (52 - (int i + 1) * 5) AND 0x1f)"

definition geohash ::
  "(real \<Rightarrow> real) \<Rightarrow> (u64 \<Rightarrow> int \<Rightarrow> u64) \<Rightarrow> GeoHashBits \<Rightarrow> real \<Rightarrow> real \<Rightarrow> string \<Rightarrow> string c" where
  "geohash fl shr h0 longitude latitude buf =
    (if \<bar>longitude\<bar> > 180 \<or> \<bar>latitude\<bar> > 90 then write_chars buf 0 (''error'' @ [NUL])
     else
       c_bind (geohashEncodeWGS84 fl longitude latitude GEO_STEP_MAX (Some h0)) (\<lambda>(_, h).
       c_bind (geohashEncode fl (Some \<lparr>min_of = -180, max_of = 180\<rparr>) (Some \<lparr>min_of = -90, max_of = 90\<rparr>)
                 longitude latitude 26 h) (\<lambda>(_, h).
       c_bind (write_chars buf 0 (map (\<lambda>i. geoalphabet ! geohash_index shr (bits (the h)) i) [0..<11]))
         (\<lambda>buf. write_char buf 11 NUL))))"

definition geohash64 :: "(real \<Rightarrow> real) \<Rightarrow> GeoHashBits \<Rightarrow> real \<Rightarrow> real \<Rightarrow> u64 c" where
  "geohash64 fl h0 longitude latitude =
    (if \<bar>longitude\<bar> > 180 \<or> \<bar>latitude\<bar> > 90 then Inr 0
     else
       c_bind (geohashEncodeWGS84 fl longitude latitude GEO_STEP_MAX (Some h0)) (\<lambda>(_, h).
         geohashAlign52Bits (the h)))"

text \<open>\<open>strchr\<close> also finds the terminating zero, at position 32.\<close>

fun find_index :: "char \<Rightarrow> string \<Rightarrow> nat option" where
  "find_index ch [] = None"
| "find_index ch (x # xs) = (if x = ch then Some 0 else map_option Suc (find_index ch xs))"

definition strchr_pos :: "char \<Rightarrow> nat option" where
  "strchr_pos ch = find_index ch (geoalphabet @ [NUL])"

record coords =
  c_lat :: "real \<times> real"
  c_lon :: "real \<times> real"
  c_flip :: bool

definition halve :: "(real \<Rightarrow> real) \<Rightarrow> nat \<Rightarrow> coords \<Rightarrow> nat \<Rightarrow> coords" where
  "halve fl pos c b =
    (let (lo, hi) = (if c_flip c then c_lon c else c_lat c);
         mid = fl (fl (lo + hi) / 2);
         r = (if pos AND b > 0 then (mid, hi) else (lo, mid));
         c = (if c_flip c then c\<lparr>c_lon := r\<rparr> else c\<lparr>c_lat := r\<rparr>)
     in c\<lparr>c_flip := \<not> c_flip c\<rparr>)"

text \<open>The outer loop: \<open>Inr None\<close> is the early return of 0 at a foreign character.\<close>

fun decode_chars :: "(real \<Rightarrow> real) \<Rightarrow> string \<Rightarrow> nat \<Rightarrow> coords \<Rightarrow> coords option c" where
  "decode_chars fl buf 0 c = Inr (Some c)"
| "decode_chars fl [] (Suc n) c = Inl Out_Of_Bounds"
| "decode_chars fl (ch # buf) (Suc n) c =
    (case strchr_pos ch of None \<Rightarrow> Inr None
     | Some pos \<Rightarrow> decode_chars fl buf n (foldl (halve fl pos) c [16, 8, 4, 2, 1]))"

definition geohash_decode64 :: "(real \<Rightarrow> real) \<Rightarrow> GeoHashBits \<Rightarrow> string \<Rightarrow> u64 c" where
  "geohash_decode64 fl h0 buf =
    c_bind (decode_chars fl buf 11 \<lparr>c_lat = (-90, 90), c_lon = (-180, 180), c_flip = True\<rparr>) (\<lambda>r.
      case r of None \<Rightarrow> Inr 0
      | Some c \<Rightarrow>
        c_bind (geohashEncodeWGS84 fl (fst (c_lon c)) (fst (c_lat c)) GEO_STEP_MAX (Some h0)) (\<lambda>(_, h).
          geohashAlign52Bits (the h)))"

definition geohash_decode :: "(real \<Rightarrow> real) \<Rightarrow> real \<times> real \<Rightarrow> u64 \<Rightarrow> (real \<times> real) c" where
  "geohash_decode fl xy0 b =
    c_bind (geohashDecodeToLongLatWGS84 fl \<lparr>bits = b, step = GEO_STEP_MAX\<rparr> (Some xy0)) (\<lambda>(_, xy).
      Inr (the xy))"

subsection \<open>The 52-bit form\<close>

lemma step_max: "GEO_STEP_MAX = of_nat 26" "unat GEO_STEP_MAX = 26"
  by (simp_all add: GEO_STEP_MAX_def)

lemma align_26: "geohashAlign52Bits (cell 26 a b) = Inr (bits (cell 26 a b))"
  by (simp add: geohashAlign52Bits_def cell_def)

text \<open>The limit of the projection, whatever the rounding of the constant.\<close>

context rounding
begin

lemma GEO_LAT_MAX_bounds: "85 \<le> GEO_LAT_MAX fl" "GEO_LAT_MAX fl \<le> 90"
  using fl_mono [of 85 "8505112878 / 100000000"] fl_mono [of "8505112878 / 100000000" 90] fl_numeral
  by (simp_all add: GEO_LAT_MAX_def)

lemma projection_ranges: "valid_range world_long" "valid_range (world_lat fl)"
  using GEO_LAT_MAX_bounds by (simp_all add: valid_range_def GEO_LONG_MIN_def GEO_LONG_MAX_def GEO_LAT_MIN_def GEO_LAT_MAX_def)

lemma projection_in_range:
  "\<bar>longitude\<bar> \<le> 180 \<Longrightarrow> in_range longitude world_long" "\<bar>latitude\<bar> \<le> GEO_LAT_MAX fl \<Longrightarrow> in_range latitude (world_lat fl)"
  by (auto simp: in_range_def GEO_LONG_MIN_def GEO_LONG_MAX_def GEO_LAT_MIN_def GEO_LAT_MAX_def)

lemma encode_projection:
  assumes "\<bar>longitude\<bar> \<le> 180" "\<bar>latitude\<bar> \<le> GEO_LAT_MAX fl"
  shows "geohash64 fl h0 longitude latitude =
    Inr (bits (cell 26 (grid_index fl (world_lat fl) 26 latitude) (grid_index fl world_long 26 longitude)))"
proof -
  have "geohashEncodeWGS84 fl longitude latitude GEO_STEP_MAX (Some h0) = Inr (1, Some
      (cell 26 (grid_index fl (world_lat fl) 26 latitude) (grid_index fl world_long 26 longitude)))"
    unfolding step_max using assms GEO_LAT_MAX_bounds by (intro encode_wgs84) simp_all
  then show ?thesis using assms GEO_LAT_MAX_bounds by (simp add: geohash64_def align_26)
qed

lemma decode_projection:
  assumes "a \<le> 2 ^ 26" "b \<le> 2 ^ 26"
  shows "geohash_decode fl xy0 (bits (cell 26 a b)) = Inr
      (fl (fl (cell_border fl world_long 26 b + cell_border fl world_long 26 (b + 1)) / 2),
       fl (fl (cell_border fl (world_lat fl) 26 a + cell_border fl (world_lat fl) 26 (a + 1)) / 2))"
proof -
  have c: "\<lparr>bits = bits (cell 26 a b), step = GEO_STEP_MAX\<rparr> = cell 26 a b"
    by (simp add: cell_def step_max)
  show ?thesis using decode_value [of 26 a b world_long "world_lat fl" fl zero_area] assms projection_ranges
    by (simp add: geohash_decode_def c geohashDecodeToLongLatWGS84_def geohashDecodeToLongLatType_def
        geohashDecodeType_def geohashGetCoordRange_def geohashDecodeAreaToLongLat_def)
qed

end

text \<open>
  C35. In the arithmetic of \<open>double\<close>, for every rounding with a relative error of at most $2^{-53}$, decoding
  the 52-bit form of a point of the projection, its borders included, returns the point up to half a cell and the
  error of the arithmetic: the longitude is off by at most $360 / 2^{27} + 180 / 2^{48}$ degrees, and the latitude
  by at most $2 m / 2^{27} + m / 2^{48}$ where \<open>m\<close> is the limit of the projection.
\<close>

theorem geohash64_decode_error:
  assumes "double_rounding fl" "\<bar>longitude\<bar> \<le> 180" "\<bar>latitude\<bar> \<le> GEO_LAT_MAX fl"
  shows "\<exists>w lon lat. geohash64 fl h0 longitude latitude = Inr w \<and>
    geohash_decode fl xy0 w = Inr (lon, lat) \<and>
    \<bar>lon - longitude\<bar> \<le> 360 / 2 ^ 27 + 180 / 2 ^ 48 \<and>
    \<bar>lat - latitude\<bar> \<le> 2 * GEO_LAT_MAX fl / 2 ^ 27 + GEO_LAT_MAX fl / 2 ^ 48"
proof -
  have r: "rounding fl" using assms(1) by (rule double_rounding.axioms)
  note v = rounding.projection_ranges [OF r]
  have i: "in_range longitude world_long" "in_range latitude (world_lat fl)" using rounding.projection_in_range [OF r] assms(2,3) by blast+
  note m = rounding.GEO_LAT_MAX_bounds [OF r]
  have w: "extent world_long = 180" "extent (world_lat fl) = GEO_LAT_MAX fl" "max_of world_long - min_of world_long = 360"
    "max_of (world_lat fl) - min_of (world_lat fl) = 2 * GEO_LAT_MAX fl" "(26 :: nat) + 1 = 27"
    using m by (simp_all add: extent_def GEO_LONG_MIN_def GEO_LONG_MAX_def GEO_LAT_MIN_def GEO_LAT_MAX_def)
  have "(26 :: nat) \<le> 30" by simp
  note near = double_rounding.midpoint_near [OF assms(1) v(1) i(1) this, unfolded w] double_rounding.midpoint_near [OF assms(1) v(2) i(2) this, unfolded w]
  show ?thesis
    using rounding.encode_projection [OF r assms(2,3), of h0] near
      rounding.decode_projection [OF r rounding.grid_index_le [OF r v(2) i(2)] rounding.grid_index_le [OF r v(1) i(1)], of xy0] by blast
qed

theorem geohash64_decode_error_witness:
  "\<exists>w lon lat. geohash64 fl64 \<lparr>bits = 0, step = 0\<rparr> (-46) (-23) = Inr w \<and>
    geohash_decode fl64 (0, 0) w = Inr (lon, lat) \<and> \<bar>lon - (-46)\<bar> \<le> 360 / 2 ^ 27 + 180 / 2 ^ 48"
  using geohash64_decode_error [OF fl64_double.double_rounding_axioms, of "-46" "-23" "\<lparr>bits = 0, step = 0\<rparr>" "(0, 0)"]
    fl64_rounding.GEO_LAT_MAX_bounds by auto

text \<open>
  A latitude between the limit of the projection and the pole passes the argument check
  of \<open>geohash64\<close> but is refused by the encoder, whose result is ignored: under every
  rounding the function returns the bits that the uninitialised variable happened to hold.
\<close>

theorem geohash64_polar_uninitialised:
  assumes "GEO_LAT_MAX fl < latitude" "latitude \<le> 90" "\<bar>longitude\<bar> \<le> 180" "0 < latitude"
    and "unat (step h0) = 26"
  shows "geohash64 fl h0 longitude latitude = Inr (bits h0)"
proof -
  have "geohashEncodeWGS84 fl longitude latitude GEO_STEP_MAX (Some h0) = Inr (0, Some h0)"
    using assms by (auto simp: geohashEncodeWGS84_def geohashEncodeType_def geohashEncode_def
        geohashGetCoordRange_def GEO_LAT_MAX_def)
  then show ?thesis using assms by (simp add: geohash64_def geohashAlign52Bits_def)
qed

theorem geohash64_polar_uninitialised_witness:
  "geohash64 exact \<lparr>bits = 42, step = 26\<rparr> 0 89 = Inr 42"
  using geohash64_polar_uninitialised [of exact 89 0 "\<lparr>bits = 42, step = 26\<rparr>"]
  by (simp add: GEO_LAT_MAX_def exact_def)

subsection \<open>The text form\<close>

lemma write_chars_prefix:
  "i + length chs \<le> length buf \<Longrightarrow>
   write_chars buf i chs = Inr (take i buf @ chs @ drop (i + length chs) buf)"
proof (induction chs arbitrary: buf i)
  case (Cons ch chs)
  then have "i < length buf" by simp
  then show ?case using Cons.IH [of "Suc i" "buf[i := ch]"] Cons.prems
    by (simp add: write_char_def take_Suc_conv_app_nth)
qed simp

lemma geohash_index_bound: "geohash_index shr w i < length geoalphabet"
proof -
  have "unat (shr w (52 - (int i + 1) * 5) AND 0x1f) \<le> unat (0x1f :: u64)"
    by (rule word_and_le1 [THEN word_le_nat_alt [THEN iffD1]])
  then show ?thesis by (simp add: geohash_index_def geoalphabet_def)
qed

context right_shift
begin

lemma geohash_index_digit:
  "i < 10 \<Longrightarrow> geohash_index shr w i = unat (drop_bit (47 - 5 * i) w AND 0x1f)"
  by (simp add: geohash_index_def shr_defined nat_diff_distrib nat_mult_distrib mult.commute)

end

text \<open>
  For a point the encoder accepts, the text form is eleven characters of the alphabet
  and a terminating zero, written inside a buffer of at least twelve bytes.  Its first ten
  characters are the ten leading base-32 digits of the cell number at 26 bits per axis, on
  every machine; the eleventh comes from the shift by \<open>-3\<close>, and on the x86 it is always
  the character \<open>0\<close> when the cell number fits in 52 bits.
\<close>

theorem geohash_text_form:
  assumes "right_shift shr" "rounding fl"
    and "\<bar>longitude\<bar> \<le> 180" "\<bar>latitude\<bar> \<le> GEO_LAT_MAX fl" "GEO_LAT_MAX fl < 90" "0 < GEO_LAT_MAX fl"
    and "12 \<le> length buf"
  defines "w \<equiv> bits (cell 26 (grid_index fl \<lparr>min_of = -90, max_of = 90\<rparr> 26 latitude)
    (grid_index fl \<lparr>min_of = -180, max_of = 180\<rparr> 26 longitude))"
  shows "\<exists>txt. geohash fl shr h0 longitude latitude buf = Inr (txt @ NUL # drop 12 buf) \<and>
    length txt = 11 \<and> set txt \<subseteq> set geoalphabet \<and>
    (\<forall>i<10. txt ! i = geoalphabet ! unat (drop_bit (47 - 5 * i) w AND 0x1f)) \<and>
    (shr = x86_shr \<and> w < 2 ^ 52 \<longrightarrow> txt ! 10 = CHR ''0'')"
proof -
  let ?txt = "map (\<lambda>i. geoalphabet ! geohash_index shr w i) [0..<11]"
  obtain a b where e1: "geohashEncodeWGS84 fl longitude latitude GEO_STEP_MAX (Some h0) = Inr (1, Some (cell 26 a b))"
    using rounding.encode_wgs84 [OF assms(2), of 26 longitude latitude h0] assms(3-6) unfolding step_max by auto
  have e2: "geohashEncode fl (Some \<lparr>min_of = -180, max_of = 180\<rparr>) (Some \<lparr>min_of = -90, max_of = 90\<rparr>)
      longitude latitude 26 (Some (cell 26 a b)) = Inr (1, Some (cell 26
        (grid_index fl \<lparr>min_of = -90, max_of = 90\<rparr> 26 latitude)
        (grid_index fl \<lparr>min_of = -180, max_of = 180\<rparr> 26 longitude)))"
    using rounding.encode_value [OF assms(2), of 26 "\<lparr>min_of = -180, max_of = 180\<rparr>"
        "\<lparr>min_of = -90, max_of = 90\<rparr>" longitude latitude "cell 26 a b"] assms(3-6)
    by (simp add: valid_range_def in_world_def in_range_def GEO_LAT_MAX_def abs_le_iff)
  have wr: "write_chars buf 0 ?txt = Inr (?txt @ drop 11 buf)"
    using write_chars_prefix [of 0 ?txt buf] assms(7) by simp
  have "drop 11 buf = buf ! 11 # drop 12 buf" using assms(7) Cons_nth_drop_Suc [of 11 buf] by simp
  then have "geohash fl shr h0 longitude latitude buf = Inr (?txt @ NUL # drop 12 buf)"
    using assms(3-7) e1 e2 wr
    by (auto simp: geohash_def w_def [symmetric] write_char_def list_update_append)
  moreover have "set ?txt \<subseteq> set geoalphabet" using geohash_index_bound by fastforce
  moreover have "\<forall>i<10. ?txt ! i = geoalphabet ! unat (drop_bit (47 - 5 * i) w AND 0x1f)"
    using right_shift.geohash_index_digit [OF assms(1)] by simp
  moreover have "?txt ! 10 = CHR ''0''" if "shr = x86_shr" "w < 2 ^ 52"
  proof -
    have "unat w < 2 ^ 52" using that(2) by (simp add: word_less_nat_alt)
    then have "unat (drop_bit 61 w) = 0" by (simp only: unat_drop_bit_eq) (simp add: drop_bit_eq_div)
    then have "drop_bit 61 w = 0" by (simp only: unat_eq_0)
    then show ?thesis using that by (simp add: geohash_index_def x86_shr_def geoalphabet_def)
  qed
  ultimately show ?thesis by (intro exI [of _ ?txt]) simp
qed

theorem geohash_text_form_witness:
  "\<exists>txt. geohash exact x86_shr GZERO 0 0 (replicate 12 NUL) = Inr (txt @ [NUL]) \<and> length txt = 11"
  using geohash_text_form [OF x86.right_shift_axioms exact_rounding.rounding_axioms, of 0 0 "replicate 12 NUL" GZERO]
  by (auto simp: GEO_LAT_MAX_def exact_def)

end
