(* ===== verification/Tcpclient.thy ===== *)
theory Tcpclient
  imports Prelude
begin

text \<open>
  The model of \<open>src/servers/tcpclient.c\<close>: filling the buffer, the read loop that
  collects a full buffer from a stream socket, and the echo test.  The kernel's side of the
  socket is a list of read events: a chunk of bytes that arrived together, the end of the
  stream, or an error.  \<open>sys_read\<close> is the documented behaviour of \<open>read\<close> on such a
  socket: at most \<open>count\<close> bytes of the first chunk are delivered, the end of the stream is
  reported by every further call, and a call blocks when nothing has arrived.  Loops that may
  not return are partial functions: \<open>None\<close> stands for a call that never returns.
\<close>

definition BUFSIZE :: nat where "BUFSIZE = 1024"

definition NOREQUESTS :: nat where "NOREQUESTS = 10"

datatype event = Chunk "u8 list" | Eof | Err

datatype read_result = Blocked | Failed | Got "u8 list" "event list"

subsection \<open>Filling the buffer\<close>

definition put :: "u8 list \<Rightarrow> nat \<Rightarrow> u8 \<Rightarrow> u8 list c" where
  "put buf i b = (if i < length buf then Inr (buf[i := b]) else Inl Out_Of_Bounds)"

function fill_loop :: "u8 list \<Rightarrow> nat \<Rightarrow> nat \<Rightarrow> u8 \<Rightarrow> u8 list c" where
  "fill_loop buf n i current =
    (if i < n then
       if i mod 64 = 0 then
         c_bind (put buf i 10) (\<lambda>buf.
           fill_loop buf n (i + 1) (if i \<noteq> 0 then current + 1 else current))
       else c_bind (put buf i current) (\<lambda>buf. fill_loop buf n (i + 1) current)
     else Inr buf)"
  by pat_completeness auto
termination by (relation "measure (\<lambda>(buf, n, i, current). n - i)") auto

declare fill_loop.simps [simp del]

definition fillBuf :: "u8 list \<Rightarrow> nat \<Rightarrow> u8 list c" where
  "fillBuf buf n = fill_loop buf n 0 97"

subsection \<open>Reading a full buffer\<close>

fun sys_read :: "event list \<Rightarrow> nat \<Rightarrow> read_result" where
  "sys_read [] count = Blocked"
| "sys_read (Err # es) count = Failed"
| "sys_read (Eof # es) count = Got [] (Eof # es)"
| "sys_read (Chunk bs # es) count =
    (if length bs \<le> count then Got bs es
     else Got (take count bs) (Chunk (drop count bs) # es))"

text \<open>The bytes land in the buffer at \<open>bpt\<close>.\<close>

definition store :: "u8 list \<Rightarrow> nat \<Rightarrow> u8 list \<Rightarrow> u8 list" where
  "store buf off bs = take off buf @ bs @ drop (off + length bs) buf"

text \<open>\<open>Inl code\<close> is the exit of the process.\<close>

partial_function (option) doRead_loop ::
  "event list \<Rightarrow> u8 list \<Rightarrow> nat \<Rightarrow> nat \<Rightarrow> nat \<Rightarrow> nat \<Rightarrow> (int + event list \<times> u8 list) option" where
  "doRead_loop env buf bpt count amtread amountNeeded =
    (case sys_read env count of
       Blocked \<Rightarrow> None
     | Failed \<Rightarrow> Some (Inl 1)
     | Got bs env' \<Rightarrow>
         (if amtread + length bs < amountNeeded
          then doRead_loop env' (store buf bpt bs) (bpt + length bs) (count - length bs)
                 (amtread + length bs) amountNeeded
          else Some (Inr (env', store buf bpt bs))))"

definition doRead :: "event list \<Rightarrow> u8 list \<Rightarrow> nat \<Rightarrow> (int + event list \<times> u8 list) option" where
  "doRead env buf amountNeeded = doRead_loop env buf 0 amountNeeded 0 amountNeeded"

subsection \<open>The echo test\<close>

text \<open>
  \<open>wr n\<close> is the value \<open>write\<close> returns for \<open>n\<close> bytes, and \<open>peer bs\<close> is how the remote
  side answers the bytes it received.
\<close>

fun echo_loop ::
  "(nat \<Rightarrow> int) \<Rightarrow> (u8 list \<Rightarrow> event list) \<Rightarrow> event list \<Rightarrow> u8 list \<Rightarrow> nat \<Rightarrow>
   (int + event list \<times> u8 list) option" where
  "echo_loop wr peer env buf 0 = Some (Inr (env, buf))"
| "echo_loop wr peer env buf (Suc i) =
    (let rc = wr BUFSIZE in
     if rc < 0 then Some (Inl 1)
     else
       case doRead (env @ peer (take (nat rc) buf)) buf BUFSIZE of
         None \<Rightarrow> None
       | Some (Inl e) \<Rightarrow> Some (Inl e)
       | Some (Inr (env', buf')) \<Rightarrow> echo_loop wr peer env' buf' i)"

definition echoTest ::
  "(nat \<Rightarrow> int) \<Rightarrow> (u8 list \<Rightarrow> event list) \<Rightarrow> event list \<Rightarrow> u8 list \<Rightarrow>
   (int + event list \<times> u8 list) option" where
  "echoTest wr peer env buf = echo_loop wr peer env buf NOREQUESTS"

subsection \<open>Dumping a buffer\<close>

definition hex_digit :: "nat \<Rightarrow> char" where
  "hex_digit n = ''0123456789abcdef'' ! n"

definition hex :: "u8 \<Rightarrow> string" where
  "hex b = (let v = unat b in
    if v < 16 then [hex_digit v] else [hex_digit (v div 16), hex_digit (v mod 16)])"

fun print_loop :: "u8 list \<Rightarrow> nat \<Rightarrow> nat \<Rightarrow> string c" where
  "print_loop buf 0 i = Inr ''''"
| "print_loop [] (Suc n) i = Inl Out_Of_Bounds"
| "print_loop (b # buf) (Suc n) i =
    (if i = 0 then c_bind (print_loop buf n 16) (\<lambda>s. Inr (hex b @ [CHR 0x0A] @ s))
     else c_bind (print_loop buf n (i - 1)) (\<lambda>s. Inr (hex b @ s)))"

definition printBuf :: "u8 list \<Rightarrow> nat \<Rightarrow> string c" where
  "printBuf buf n = print_loop buf n 16"

subsection \<open>Facts on filling\<close>

definition fill_byte :: "nat \<Rightarrow> u8" where
  "fill_byte i = (if i mod 64 = 0 then 10 else 97 + of_nat (i div 64))"

lemma line_number_step:
  fixes i :: nat
  assumes "i \<noteq> 0" "i mod 64 = 0"
  shows "i div 64 = Suc ((i - 1) div 64)"
proof -
  have "i = 64 * (i div 64)" using assms(2) by (metis add.right_neutral mult_div_mod_eq)
  with assms(1) show ?thesis by linarith
qed

lemma line_number_same:
  fixes i :: nat
  assumes "i mod 64 \<noteq> 0"
  shows "(i - 1) div 64 = i div 64"
proof -
  have "i = 64 * (i div 64) + i mod 64" by simp
  with assms show ?thesis by linarith
qed

lemma fill_loop_value:
  assumes "n \<le> length buf" "i \<le> n" "current = 97 + of_nat ((i - 1) div 64)"
  shows "fill_loop buf n i current = Inr (take i buf @ map fill_byte [i..<n] @ drop n buf)"
  using assms
proof (induction buf n i current rule: fill_loop.induct)
  case (1 buf n i current)
  show ?case
  proof (cases "i < n")
    case False
    then show ?thesis using "1.prems" by (simp add: fill_loop.simps)
  next
    case True
    then have upt: "[i..<n] = i # [Suc i..<n]" by (simp add: upt_rec)
    have tk: "take (Suc i) (buf[i := b]) = take i buf @ [b]" for b
      using True "1.prems" by (simp add: take_Suc_conv_app_nth)
    have put: "put buf i b = Inr (buf[i := b])" for b using True "1.prems" by (simp add: put_def)
    show ?thesis
    proof (cases "i mod 64 = 0")
      case m: True
      have "(if i \<noteq> 0 then current + 1 else current) = 97 + of_nat (i div 64)"
      proof (cases "i = 0")
        case False
        then have "i div 64 = Suc ((i - 1) div 64)" using m by (rule line_number_step)
        then have "of_nat (i div 64) = of_nat ((i - 1) div 64) + (1 :: u8)" by (simp only: of_nat_Suc add.commute)
        then show ?thesis using False by (simp only: "1.prems"(3) add.assoc if_True not_False_eq_True)
      qed (use "1.prems" in simp)
      then show ?thesis using "1.IH"(1) [OF True m, of "buf[i := 10]"] "1.prems" True m
        by (subst fill_loop.simps) (simp add: put tk upt fill_byte_def)
    next
      case m: False
      then have "(i - 1) div 64 = i div 64" by (rule line_number_same)
      then show ?thesis using "1.IH"(2) [OF True m, of "buf[i := current]"] "1.prems" True m
        by (subst fill_loop.simps) (simp add: put tk upt fill_byte_def)
    qed
  qed
qed

text \<open>
  Filling a buffer of at least \<open>n\<close> bytes stays inside the buffer, writes a newline at
  every multiple of 64 and the letter of its line everywhere else, and leaves the bytes after
  \<open>n\<close> as they were.
\<close>

theorem fillBuf_value:
  assumes "n \<le> length buf"
  shows "fillBuf buf n = Inr (map fill_byte [0..<n] @ drop n buf)"
  using fill_loop_value [of n buf 0 97] assms by (simp add: fillBuf_def)

theorem fillBuf_value_witness:
  "fillBuf (replicate 66 0) 65 = Inr (10 # replicate 63 97 @ [10, 0])"
  using fillBuf_value [of 65 "replicate 66 0"] by (simp add: fill_byte_def upt_rec replicate_rec)

subsection \<open>Facts on reading\<close>

text \<open>
  The bytes a stream still holds, and streams on which every \<open>read\<close> makes progress until the
  bytes are used up: nonempty chunks, then anything that no call reaches.
\<close>

fun pending :: "event list \<Rightarrow> u8 list" where
  "pending (Chunk bs # es) = bs @ pending es"
| "pending _ = []"

fun nonempty_chunks :: "event list \<Rightarrow> bool" where
  "nonempty_chunks (Chunk bs # es) \<longleftrightarrow> bs \<noteq> [] \<and> nonempty_chunks es"
| "nonempty_chunks _ \<longleftrightarrow> True"

lemma pending_append [simp]:
  "list_all (\<lambda>e. case e of Chunk _ \<Rightarrow> True | _ \<Rightarrow> False) es \<Longrightarrow> pending (es @ fs) = pending es @ pending fs"
  by (induction es) (auto split: event.splits)

lemma sys_read_progress:
  assumes "nonempty_chunks env" "pending env \<noteq> []" "0 < count"
  obtains bs env' where "sys_read env count = Got bs env'" "bs \<noteq> []" "length bs \<le> count"
    "pending env = bs @ pending env'" "nonempty_chunks env'"
proof (cases env rule: pending.cases)
  case (1 cs es)
  with assms that [of "if length cs \<le> count then cs else take count cs"
      "if length cs \<le> count then es else Chunk (drop count cs) # es"]
  show thesis by (auto split: if_splits)
qed (use assms in auto)

lemma length_store [simp]: "off + length bs \<le> length buf \<Longrightarrow> length (store buf off bs) = length buf"
  by (simp add: store_def)

lemma store_store:
  assumes "off + length bs + length cs \<le> length buf"
  shows "store (store buf off bs) (off + length bs) cs = store buf off (bs @ cs)"
  using assms by (simp add: store_def add.assoc add.commute [of "length cs"])

lemma doRead_loop_complete:
  assumes "nonempty_chunks env" "0 < count" "count \<le> length (pending env)"
    "bpt + count \<le> length buf" "amtread + count = need"
  shows "\<exists>env'. doRead_loop env buf bpt count amtread need =
      Some (Inr (env', store buf bpt (take count (pending env)))) \<and>
    pending env' = drop count (pending env) \<and> nonempty_chunks env'"
  using assms
proof (induction count arbitrary: env buf bpt amtread rule: less_induct)
  case (less count)
  then have "pending env \<noteq> []" by auto
  with less.prems obtain bs es where rd: "sys_read env count = Got bs es" "bs \<noteq> []"
      "length bs \<le> count" "pending env = bs @ pending es" "nonempty_chunks es"
    by (metis sys_read_progress)
  show ?case
  proof (cases "length bs = count")
    case True
    then show ?thesis using rd less.prems by (subst doRead_loop.simps) simp
  next
    case False
    let ?c = "count - length bs"
    have "\<exists>env'. doRead_loop es (store buf bpt bs) (bpt + length bs) ?c (amtread + length bs) need =
        Some (Inr (env', store (store buf bpt bs) (bpt + length bs) (take ?c (pending es)))) \<and>
      pending env' = drop ?c (pending es) \<and> nonempty_chunks env'"
      using rd less.prems False by (intro less.IH) auto
    moreover have "store (store buf bpt bs) (bpt + length bs) (take ?c (pending es)) =
        store buf bpt (take count (pending env))"
      using rd less.prems False by (subst store_store) auto
    ultimately show ?thesis using rd less.prems False by (subst doRead_loop.simps) simp
  qed
qed

lemma doRead_value:
  assumes "nonempty_chunks env" "0 < need" "need \<le> length (pending env)" "need \<le> length buf"
  shows "\<exists>env'. doRead env buf need = Some (Inr (env', take need (pending env) @ drop need buf)) \<and>
    pending env' = drop need (pending env) \<and> nonempty_chunks env'"
  using doRead_loop_complete [OF assms(1-3), of 0 buf 0 need] assms
  by (simp add: doRead_def store_def min_absorb2)

text \<open>
  C31. However the network splits the stream into chunks, \<open>doRead\<close> returns once the needed bytes
  have arrived: the start of the buffer then holds exactly the next bytes of the stream, the rest
  of the buffer is untouched, and the bytes after them are left in the socket.
\<close>

theorem doRead_complete:
  assumes "nonempty_chunks env" "0 < need" "need \<le> length (pending env)" "need \<le> length buf"
  shows "\<exists>env'. doRead env buf need = Some (Inr (env', take need (pending env) @ drop need buf)) \<and>
    pending env' = drop need (pending env) \<and> nonempty_chunks env'"
  by (rule doRead_value [OF assms])

theorem doRead_complete_witness:
  "\<exists>env'. doRead [Chunk [1, 2], Chunk [3, 4, 5], Eof] [0, 0, 0, 9] 3 =
    Some (Inr (env', [1, 2, 3, 9])) \<and> pending env' = [4, 5] \<and> nonempty_chunks env'"
  using doRead_complete [of "[Chunk [1, 2], Chunk [3, 4, 5], Eof]" 3 "[0, 0, 0, 9]"]
  by (simp add: numeral_3_eq_3)

lemma doRead_loop_eof:
  assumes "amtread < need"
  shows "doRead_loop (Eof # es) buf bpt count amtread need = None"
proof (rule ccontr)
  assume "doRead_loop (Eof # es) buf bpt count amtread need \<noteq> None"
  then obtain r where r: "doRead_loop (Eof # es) buf bpt count amtread need = Some r" by auto
  have "\<forall>es. env = Eof # es \<longrightarrow> \<not> amtread < need"
    if "doRead_loop env buf bpt count amtread need = Some r" for env buf bpt count amtread need r
    by (rule doRead_loop.raw_induct [where P =
          "\<lambda>env buf bpt count amtread need r. \<forall>es. env = Eof # es \<longrightarrow> \<not> amtread < need", OF _ that])
      (auto split: read_result.splits if_splits)
  from this [OF r] assms show False by simp
qed

lemma doRead_loop_short:
  assumes "nonempty_chunks env" "amtread + count = need" "0 < count"
    "length es < count" "env = map Chunk css @ [Eof]" "pending env = es"
  shows "doRead_loop env buf bpt count amtread need = None"
  using assms
proof (induction css arbitrary: env buf bpt count amtread es)
  case Nil
  then show ?case by (simp add: doRead_loop_eof)
next
  case (Cons cs css)
  have "length cs \<le> count" using Cons.prems by auto
  then have "sys_read env count = Got cs (map Chunk css @ [Eof])" using Cons.prems by simp
  then show ?case
    using Cons.prems Cons.IH [of "map Chunk css @ [Eof]" "amtread + length cs" "count - length cs"
        "pending (map Chunk css @ [Eof])"]
    by (subst doRead_loop.simps) auto
qed

text \<open>
  C39. When the server closes the connection before the needed bytes have arrived, \<open>doRead\<close> does
  not return: \<open>read\<close> reports the end of the stream as 0 bytes and the loop calls it again for
  ever.
\<close>

theorem doRead_eof_diverges:
  assumes "\<forall>cs \<in> set css. cs \<noteq> []" "length (concat css) < need"
  shows "doRead (map Chunk css @ [Eof]) buf need = None"
proof -
  have "nonempty_chunks (map Chunk css @ [Eof])" using assms(1) by (induction css) auto
  moreover have "pending (map Chunk css @ [Eof]) = concat css" by (induction css) auto
  ultimately show ?thesis using doRead_loop_short assms(2) unfolding doRead_def by auto
qed

theorem doRead_eof_diverges_witness: "doRead [Chunk [1, 2], Eof] [0, 0, 0] 3 = None"
  using doRead_eof_diverges [of "[[1, 2]]" 3 "[0, 0, 0]"] by simp

subsection \<open>Facts on the echo test\<close>

text \<open>
  A peer that echoes: the answer to some bytes is the same bytes, in chunks of any size.
\<close>

definition echoes :: "(u8 list \<Rightarrow> event list) \<Rightarrow> bool" where
  "echoes peer \<longleftrightarrow> (\<forall>bs. pending (peer bs) = bs \<and> nonempty_chunks (peer bs) \<and>
    (\<forall>e \<in> set (peer bs). \<exists>cs. e = Chunk cs))"

lemma doRead_drains:
  assumes "\<forall>e \<in> set env. \<exists>cs. e = Chunk cs" "nonempty_chunks env" "length (pending env) = n"
    "0 < n" "length buf = n"
  shows "doRead env buf n = Some (Inr ([], pending env))"
proof -
  have "doRead_loop env buf bpt count amtread need = Some (Inr ([], store buf bpt (pending env)))"
    if "\<forall>e \<in> set env. \<exists>cs. e = Chunk cs" "nonempty_chunks env" "length (pending env) = count"
      "0 < count" "bpt + count = length buf" "amtread + count = need" for buf bpt count amtread need
    using that
  proof (induction env arbitrary: buf bpt count amtread)
    case (Cons e es)
    then obtain cs where e: "e = Chunk cs" by auto
    show ?case
    proof (cases "es = []")
      case True
      then show ?thesis using Cons.prems e by (subst doRead_loop.simps) simp
    next
      case False
      then have "pending es \<noteq> []" using Cons.prems by (cases es rule: nonempty_chunks.cases) auto
      then have "0 < length (pending es)" by simp
      moreover have "length cs + length (pending es) = count" using Cons.prems e by simp
      ultimately have "amtread + length cs < need" using Cons.prems(6) by linarith
      then show ?thesis using Cons.prems e
          Cons.IH [of "count - length cs" "bpt + length cs" "store buf bpt cs" "amtread + length cs"]
        by (subst doRead_loop.simps) (simp add: store_store)
    qed
  qed simp
  from this [of n 0 buf 0 n] show ?thesis using assms by (simp add: doRead_def store_def)
qed

text \<open>
  Against a peer that echoes what it receives, in chunks of any size, and with \<open>write\<close>
  taking the whole buffer, the echo test finishes its ten rounds with the buffer as it was and
  no byte left in the socket.
\<close>

theorem echoTest_completes:
  assumes "echoes peer" "wr BUFSIZE = int BUFSIZE" "length buf = BUFSIZE"
  shows "echoTest wr peer [] buf = Some (Inr ([], buf))"
proof -
  have "echo_loop wr peer [] buf k = Some (Inr ([], buf))" for k
  proof (induction k)
    case (Suc k)
    have "doRead (peer buf) buf BUFSIZE = Some (Inr ([], buf))"
      using doRead_drains [of "peer buf" BUFSIZE buf] assms by (auto simp: echoes_def BUFSIZE_def)
    then show ?case using Suc assms by simp
  qed simp
  then show ?thesis by (simp add: echoTest_def)
qed

theorem echoTest_completes_witness:
  "echoTest int (map (\<lambda>b. Chunk [b])) [] (replicate 1024 7) = Some (Inr ([], replicate 1024 7))"
proof -
  have "pending (map (\<lambda>b. Chunk [b]) bs) = bs \<and> nonempty_chunks (map (\<lambda>b. Chunk [b]) bs)" for bs
    by (induction bs) auto
  then have "echoes (map (\<lambda>b. Chunk [b]))" by (auto simp: echoes_def)
  then show ?thesis
    using echoTest_completes [of "map (\<lambda>b. Chunk [b])" int "replicate 1024 7"]
    by (simp add: BUFSIZE_def)
qed

text \<open>
  The count \<open>write\<close> returns is only compared with zero: when the first \<open>write\<close> takes fewer
  bytes than the buffer holds, the echo test never returns, because \<open>doRead\<close> waits for bytes the
  peer was never sent.
\<close>

theorem echoTest_short_write_blocks:
  assumes "echoes peer" "0 \<le> wr BUFSIZE" "wr BUFSIZE < int BUFSIZE" "length buf = BUFSIZE"
  shows "echoTest wr peer [] buf = None"
proof -
  have blk: "doRead_loop env b bpt count amtread need = None"
    if "\<forall>e \<in> set env. \<exists>cs. e = Chunk cs" "length (pending env) < count" "amtread + count = need"
    for env b bpt count amtread need
    using that
  proof (induction env arbitrary: b bpt count amtread)
    case (Cons e es)
    then obtain cs where "e = Chunk cs" by auto
    then show ?case using Cons.prems Cons.IH by (subst doRead_loop.simps) auto
  qed (subst doRead_loop.simps, simp)
  have "length (pending (peer (take (nat (wr BUFSIZE)) buf))) < BUFSIZE"
    using assms by (auto simp: echoes_def)
  then have "doRead (peer (take (nat (wr BUFSIZE)) buf)) buf BUFSIZE = None"
    using assms(1) unfolding doRead_def echoes_def by (intro blk) auto
  then show ?thesis using assms by (simp add: echoTest_def NOREQUESTS_def numeral_eq_Suc Let_def)
qed

theorem echoTest_short_write_blocks_witness:
  "echoTest (\<lambda>n. 1000) (map (\<lambda>b. Chunk [b])) [] (replicate 1024 7) = None"
proof -
  have "pending (map (\<lambda>b. Chunk [b]) bs) = bs \<and> nonempty_chunks (map (\<lambda>b. Chunk [b]) bs)" for bs
    by (induction bs) auto
  then have "echoes (map (\<lambda>b. Chunk [b]))" by (auto simp: echoes_def)
  then show ?thesis
    using echoTest_short_write_blocks [of "map (\<lambda>b. Chunk [b])" "\<lambda>n. 1000" "replicate 1024 7"]
    by (simp add: BUFSIZE_def)
qed

end
