(* ===== verification/Mill_Server.thy ===== *)
theory Mill_Server
  imports Prelude
begin

text \<open>
  The model of \<open>src/libmill/test.c\<close>, a server with one coroutine per connection and one
  coroutine that keeps statistics.  The channel between them has no buffer: \<open>chs\<close> and \<open>chr\<close>
  meet, and the statistics coroutine handles the message before it receives the next one.  The
  conversation on one socket is a function of what the socket calls return; the server is a
  step relation in which connections are accepted at any moment and the coroutines interleave.
\<close>

definition CONN_ESTABLISHED :: int where "CONN_ESTABLISHED = 1"
definition CONN_SUCCEEDED :: int where "CONN_SUCCEEDED = 2"
definition CONN_FAILED :: int where "CONN_FAILED = 3"

lemmas conn_ops = CONN_ESTABLISHED_def CONN_SUCCEEDED_def CONN_FAILED_def

subsection \<open>The statistics coroutine\<close>

text \<open>The counters are of the type \<open>int\<close>, whose overflow is undefined.\<close>

record stats =
  connections :: int
  active :: int
  failed :: int

definition statistics_init :: stats where
  "statistics_init = \<lparr> connections = 0, active = 0, failed = 0 \<rparr>"

definition int_add :: "int \<Rightarrow> int \<Rightarrow> int c" where
  "int_add x y = (if - (2 ^ 31) \<le> x + y \<and> x + y < 2 ^ 31 then Inr (x + y) else Inl Signed_Overflow)"

text \<open>One round of the loop, for the message \<open>op\<close>.\<close>

definition statistics :: "int \<Rightarrow> stats \<Rightarrow> stats c" where
  "statistics op s =
    c_bind (if op = CONN_ESTABLISHED
      then c_bind (int_add (connections s) 1) (\<lambda>n. c_bind (int_add (active s) 1) (\<lambda>a.
        Inr (s \<lparr> connections := n, active := a \<rparr>)))
      else c_bind (int_add (active s) (- 1)) (\<lambda>a. Inr (s \<lparr> active := a \<rparr>))) (\<lambda>s.
    if op = CONN_FAILED then c_bind (int_add (failed s) 1) (\<lambda>f. Inr (s \<lparr> failed := f \<rparr>)) else Inr s)"

subsection \<open>The conversation on one socket\<close>

text \<open>
  What the socket calls of one conversation return: the value of \<open>errno\<close> after each of them and
  the bytes \<open>tcprecvuntil\<close> delivered, the delimiter included.
\<close>

record socket =
  send_question :: int
  flush_question :: int
  recv_name :: int
  name_bytes :: string
  send_greeting :: int
  flush_greeting :: int

text \<open>The bytes of \<open>inbuf\<close> that \<open>%s\<close> prints, after the delimiter is overwritten.\<close>

definition c_string :: "string \<Rightarrow> string" where
  "c_string s = takeWhile (\<lambda>ch. ch \<noteq> CHR 0x00) s"

definition terminate_name :: "string \<Rightarrow> string c" where
  "terminate_name s = (if s = [] then Inl Out_Of_Bounds else Inr (c_string (butlast s @ [CHR 0x00])))"

text \<open>
  \<open>snprintf\<close> writes at most 255 characters and a null byte to \<open>outbuf\<close> and returns the length of
  the whole text; \<open>tcpsend\<close> then reads that many bytes of the 256 of \<open>outbuf\<close>.
\<close>

definition greeting :: "string \<Rightarrow> string" where
  "greeting name = ''Hello, '' @ name @ ''!'' @ [CHR 0x0D, CHR 0x0A]"

definition send_outbuf :: "string \<Rightarrow> string c" where
  "send_outbuf out =
    (let outbuf = take 255 out @ [CHR 0x00]; rc = length out
     in if rc \<le> 256 then Inr (take rc outbuf) else Inl Out_Of_Bounds)"

text \<open>The value of \<open>errno\<close> at \<open>cleanup\<close>, and the greeting that was sent, if any.\<close>

definition dialogue :: "socket \<Rightarrow> (int \<times> string) c" where
  "dialogue as =
    (if send_question as \<noteq> 0 then Inr (send_question as, [])
     else if flush_question as \<noteq> 0 then Inr (flush_question as, [])
     else if recv_name as \<noteq> 0 then Inr (recv_name as, [])
     else
       c_bind (terminate_name (name_bytes as)) (\<lambda>name.
       c_bind (send_outbuf (greeting name)) (\<lambda>sent.
       if send_greeting as \<noteq> 0 then Inr (send_greeting as, sent)
       else Inr (flush_greeting as, sent))))"

definition cleanup_op :: "int \<Rightarrow> int" where
  "cleanup_op errno = (if errno = 0 then CONN_SUCCEEDED else CONN_FAILED)"

subsection \<open>The server\<close>

text \<open>Where a conversation's coroutine stands; \<open>Cleanup\<close> and \<open>Closed\<close> keep the value of \<open>errno\<close> it ended with.\<close>

datatype conn = Accepted | Talking | Cleanup int | Closed int

text \<open>\<open>pending_op\<close> is the message the statistics coroutine has received and not yet counted.\<close>

record server =
  counters :: stats
  pending_op :: "int option"
  conns :: "conn list"

definition server_init :: server where
  "server_init = \<lparr> counters = statistics_init, pending_op = None, conns = [] \<rparr>"

inductive server_step :: "server \<Rightarrow> server \<Rightarrow> bool" where
  accept: "server_step w (w \<lparr> conns := conns w @ [Accepted] \<rparr>)"
| established: "i < length (conns w) \<Longrightarrow> conns w ! i = Accepted \<Longrightarrow> pending_op w = None \<Longrightarrow>
    server_step w (w \<lparr> conns := (conns w)[i := Talking], pending_op := Some CONN_ESTABLISHED \<rparr>)"
| talked: "i < length (conns w) \<Longrightarrow> conns w ! i = Talking \<Longrightarrow> dialogue as = Inr (errno, sent) \<Longrightarrow>
    server_step w (w \<lparr> conns := (conns w)[i := Cleanup errno] \<rparr>)"
| reported: "i < length (conns w) \<Longrightarrow> conns w ! i = Cleanup errno \<Longrightarrow> pending_op w = None \<Longrightarrow>
    server_step w (w \<lparr> conns := (conns w)[i := Closed errno],
      pending_op := Some (cleanup_op errno) \<rparr>)"
| counted: "pending_op w = Some op \<Longrightarrow> statistics op (counters w) = Inr s \<Longrightarrow>
    server_step w (w \<lparr> counters := s, pending_op := None \<rparr>)"

inductive reachable :: "server \<Rightarrow> bool" where
  init: "reachable server_init"
| step: "reachable w \<Longrightarrow> server_step w w' \<Longrightarrow> reachable w'"

inductive_cases server_stepE: "server_step w w'"

subsection \<open>The counters are exact\<close>

fun announced :: "conn \<Rightarrow> bool" where
  "announced Accepted = False"
| "announced _ = True"

fun open_conn :: "conn \<Rightarrow> bool" where
  "open_conn Talking = True"
| "open_conn (Cleanup _) = True"
| "open_conn _ = False"

text \<open>A conversation failed when it ended with an error of a socket call.\<close>

fun failed_conn :: "conn \<Rightarrow> bool" where
  "failed_conn (Closed errno) = (errno \<noteq> 0)"
| "failed_conn _ = False"

fun succeeded_conn :: "conn \<Rightarrow> bool" where
  "succeeded_conn (Closed errno) = (errno = 0)"
| "succeeded_conn _ = False"

definition count_conns :: "(conn \<Rightarrow> bool) \<Rightarrow> server \<Rightarrow> int" where
  "count_conns P w = int (length (filter P (conns w)))"

text \<open>What the counters will be once the message in flight is counted.\<close>

definition settled :: "server \<Rightarrow> stats c" where
  "settled w = (case pending_op w of None \<Rightarrow> Inr (counters w) | Some op \<Rightarrow> statistics op (counters w))"

definition true_counts :: "server \<Rightarrow> stats" where
  "true_counts w = \<lparr> connections = count_conns announced w, active = count_conns open_conn w, failed = count_conns failed_conn w \<rparr>"

lemma filter_update_count:
  assumes "i < length xs"
  shows "int (length (filter P (xs[i := y]))) =
    int (length (filter P xs)) - (if P (xs ! i) then 1 else 0) + (if P y then 1 else 0)"
  using assms
proof (induction xs arbitrary: i)
  case (Cons x xs)
  show ?case
  proof (cases i)
    case 0
    then show ?thesis by simp
  next
    case (Suc j)
    then show ?thesis using Cons.IH [of j] Cons.prems by (auto split: if_splits)
  qed
qed simp

lemma count_update:
  "i < length (conns w) \<Longrightarrow> count_conns P (w \<lparr> conns := (conns w)[i := y], pending_op := m \<rparr>) =
    count_conns P w - (if P (conns w ! i) then 1 else 0) + (if P y then 1 else 0)"
  "i < length (conns w) \<Longrightarrow> count_conns P (w \<lparr> conns := (conns w)[i := y] \<rparr>) =
    count_conns P w - (if P (conns w ! i) then 1 else 0) + (if P y then 1 else 0)"
  by (simp_all add: count_conns_def filter_update_count)

text \<open>A counter below \<open>2 ^ 31\<close> connections does not overflow.\<close>

lemma count_bounds: "0 \<le> count_conns P w" "count_conns P w \<le> int (length (conns w))"
  by (simp_all add: count_conns_def)

lemma int_add_fits: "0 \<le> x + y \<Longrightarrow> x + y < 2 ^ 31 \<Longrightarrow> int_add x y = Inr (x + y)"
  by (simp add: int_add_def)

lemma statistics_established:
  assumes "0 \<le> connections s" "0 \<le> active s" "connections s + 1 < 2 ^ 31" "active s + 1 < 2 ^ 31"
  shows "statistics CONN_ESTABLISHED s = Inr (s \<lparr> connections := connections s + 1, active := active s + 1 \<rparr>)"
  using assms by (simp add: statistics_def int_add_fits conn_ops)

lemma statistics_cleanup:
  assumes "1 \<le> active s" "0 \<le> failed s" "active s < 2 ^ 31" "failed s + 1 < 2 ^ 31"
  shows "statistics (cleanup_op errno) s =
    Inr (s \<lparr> active := active s - 1, failed := failed s + (if errno = 0 then 0 else 1) \<rparr>)"
  using assms int_add_fits [of "active s" "- 1"] int_add_fits [of "failed s" 1] by (simp add: statistics_def cleanup_op_def conn_ops)

lemma server_step_conns: "server_step w w' \<Longrightarrow> length (conns w) \<le> length (conns w')"
  by (erule server_stepE) simp_all

lemma settled_step:
  assumes "server_step w w'" "settled w = Inr (true_counts w)" "length (conns w') < 2 ^ 31"
  shows "settled w' = Inr (true_counts w')"
  using assms
proof (cases rule: server_step.cases)
  case accept
  then show ?thesis using assms(2) by (simp add: settled_def true_counts_def count_conns_def split: option.splits)
next
  case (established i)
  have "counters w = true_counts w" using assms(2) established by (simp add: settled_def)
  moreover have "statistics CONN_ESTABLISHED (true_counts w) = Inr (true_counts w')"
    using count_bounds [of announced w] count_bounds [of open_conn w] count_bounds(2) [of announced w'] count_bounds(2) [of open_conn w'] assms(3) established
    by (subst statistics_established) (simp_all add: true_counts_def count_update)
  ultimately show ?thesis using established by (simp add: settled_def)
next
  case (talked i)
  then show ?thesis using assms(2) by (simp add: settled_def true_counts_def count_update split: option.splits)
next
  case (reported i errno)
  have "counters w = true_counts w" using assms(2) reported by (simp add: settled_def)
  moreover have "count_conns open_conn w' = count_conns open_conn w - 1" using reported by (simp add: count_update)
  moreover have "count_conns open_conn w + count_conns failed_conn w \<le> int (length (conns w))"
    unfolding count_conns_def of_nat_add [symmetric] of_nat_le_iff
  proof (induction "conns w" arbitrary: w)
    case (Cons c cs)
    have "length (filter open_conn cs) + length (filter failed_conn cs) \<le> length cs" using Cons(1) [of "w \<lparr> conns := cs \<rparr>"] by simp
    then show ?case unfolding Cons(2) [symmetric] by (cases c) auto
  qed simp
  ultimately have "statistics (cleanup_op errno) (counters w) = Inr (true_counts w')"
    using count_bounds [of open_conn w] count_bounds [of open_conn w'] count_bounds [of failed_conn w] assms(3) reported
    by (subst statistics_cleanup) (simp_all add: true_counts_def count_update)
  then show ?thesis using reported by (simp add: settled_def)
next
  case (counted op s)
  then show ?thesis using assms(2) by (simp add: settled_def true_counts_def count_conns_def)
qed

lemma reachable_settled: "reachable w \<Longrightarrow> length (conns w) < 2 ^ 31 \<Longrightarrow> settled w = Inr (true_counts w)"
proof (induction rule: reachable.induct)
  case init
  then show ?case by (simp add: settled_def true_counts_def server_init_def statistics_init_def count_conns_def)
next
  case (step w w')
  then show ?case using settled_step [OF step.hyps(2)] server_step_conns [OF step.hyps(2)] by simp
qed

text \<open>
  C19. In every state that the server reaches with fewer than \<open>2 ^ 31\<close> connections, whatever the interleaving
  of the coroutines, counting the message in flight overflows no counter, and the counters are then the number
  of connections that announced themselves, the number that have not yet reported, and the number of those
  reported whose conversation ended with an error; each closed connection is counted exactly once.
\<close>

theorem statistics_exact:
  assumes "reachable w" "length (conns w) < 2 ^ 31"
  shows "\<exists>s. settled w = Inr s \<and> connections s = count_conns announced w \<and> active s = count_conns open_conn w \<and>
    failed s = count_conns failed_conn w"
  using reachable_settled [OF assms] by (simp add: true_counts_def)

theorem statistics_exact_witness:
  "\<exists>s. settled (server_init \<lparr> counters := \<lparr> connections = 1, active = 1, failed = 0 \<rparr>, conns := [Closed 110], pending_op := Some CONN_FAILED \<rparr>) = Inr s \<and>
    connections s = 1 \<and> active s = 0 \<and> failed s = 1"
proof -
  let ?w0 = "server_init \<lparr> conns := [Accepted] \<rparr>"
  let ?w1 = "server_init \<lparr> conns := [Talking], pending_op := Some CONN_ESTABLISHED \<rparr>"
  let ?s = "\<lparr> connections = 1, active = 1, failed = 0 \<rparr>"
  let ?w2 = "server_init \<lparr> counters := ?s, conns := [Talking] \<rparr>"
  let ?as = "\<lparr> send_question = 110, flush_question = 0, recv_name = 0, name_bytes = [], send_greeting = 0, flush_greeting = 0 \<rparr>"
  have "reachable ?w0" using reachable.step [OF reachable.init server_step.accept [of server_init]] by (simp add: server_init_def)
  then have "reachable ?w1" using reachable.step [OF _ server_step.established [of 0 ?w0]] by (simp add: server_init_def)
  moreover have "statistics CONN_ESTABLISHED statistics_init = Inr ?s" by (simp add: statistics_def statistics_init_def int_add_def conn_ops)
  ultimately have "reachable ?w2" using reachable.step [OF _ server_step.counted [of ?w1 CONN_ESTABLISHED ?s]] by (simp add: server_init_def)
  moreover have "dialogue ?as = Inr (110, [])" by (simp add: dialogue_def)
  ultimately have "reachable (server_init \<lparr> counters := ?s, conns := [Cleanup 110] \<rparr>)"
    using reachable.step [OF _ server_step.talked [of 0 ?w2 ?as 110 "[]"]] by (simp add: server_init_def)
  then have "reachable (server_init \<lparr> counters := ?s, conns := [Closed 110], pending_op := Some CONN_FAILED \<rparr>)"
    using reachable.step [OF _ server_step.reported [of 0 "server_init \<lparr> counters := ?s, conns := [Cleanup 110] \<rparr>" 110]]
    by (simp add: server_init_def cleanup_op_def)
  from statistics_exact [OF this] show ?thesis by (simp add: count_conns_def)
qed

text \<open>With one connection more than \<open>int\<close> can count, the counter of the connections overflows.\<close>

lemma statistics_overflow: "connections s = 2 ^ 31 - 1 \<Longrightarrow> statistics CONN_ESTABLISHED s = Inl Signed_Overflow"
  by (simp add: statistics_def int_add_def)

text \<open>
  Between two messages the printed numbers are consistent: nothing is negative, and every
  announced connection is active, failed, or succeeded.
\<close>

theorem statistics_consistent:
  assumes "reachable w" "length (conns w) < 2 ^ 31" "pending_op w = None"
  shows "0 \<le> active (counters w) \<and> 0 \<le> failed (counters w) \<and>
    connections (counters w) = active (counters w) + failed (counters w) + count_conns succeeded_conn w"
proof -
  have "int (length (filter announced cs)) = int (length (filter open_conn cs)) +
      int (length (filter failed_conn cs)) + int (length (filter succeeded_conn cs))" for cs
  proof (induction cs)
    case (Cons c cs)
    then show ?case by (cases c) auto
  qed simp
  then show ?thesis using reachable_settled [OF assms(1,2)] assms(3) by (simp add: settled_def true_counts_def count_conns_def)
qed

theorem statistics_consistent_witness: "0 \<le> active (counters server_init)"
  using statistics_consistent [OF reachable.init] by (simp add: server_init_def)

subsection \<open>The greeting\<close>

lemma length_greeting [simp]: "length (greeting name) = length name + 10"
  by (simp add: greeting_def)

lemma terminate_name_delimited:
  assumes "CHR 0x00 \<notin> set name"
  shows "terminate_name (name @ [CHR 0x0D]) = Inr name"
  using assms by (simp add: terminate_name_def c_string_def takeWhile_append takeWhile_eq_all_conv)

text \<open>
  When every socket call succeeds and the client's name has at most 245 characters, the
  server answers exactly \<open>Hello, name!\<close> and the conversation counts as succeeded.
\<close>

theorem dialogue_greets:
  assumes "send_question as = 0" "flush_question as = 0" "recv_name as = 0" "send_greeting as = 0"
    "flush_greeting as = 0" "name_bytes as = name @ [CHR 0x0D]" "CHR 0x00 \<notin> set name"
    "length name \<le> 245"
  shows "dialogue as = Inr (0, greeting name) \<and> cleanup_op 0 = CONN_SUCCEEDED"
  using assms by (simp add: dialogue_def terminate_name_delimited send_outbuf_def cleanup_op_def Let_def)

theorem dialogue_greets_witness:
  "dialogue \<lparr> send_question = 0, flush_question = 0, recv_name = 0, name_bytes = ''Ann'' @ [CHR 0x0D],
     send_greeting = 0, flush_greeting = 0 \<rparr> = Inr (0, ''Hello, Ann!'' @ [CHR 0x0D, CHR 0x0A])"
  using dialogue_greets [of "\<lparr> send_question = 0, flush_question = 0, recv_name = 0,
     name_bytes = ''Ann'' @ [CHR 0x0D], send_greeting = 0, flush_greeting = 0 \<rparr>" "''Ann''"]
  by (simp add: greeting_def)

text \<open>
  A longer name, which \<open>inbuf\<close> can hold, makes the server send bytes from beyond \<open>outbuf\<close>:
  \<open>snprintf\<close> returns the length of the text before truncation, and \<open>tcpsend\<close> is given that
  length.
\<close>

theorem dialogue_overread:
  assumes "send_question as = 0" "flush_question as = 0" "recv_name as = 0"
    "name_bytes as = name @ [CHR 0x0D]" "CHR 0x00 \<notin> set name" "246 < length name"
  shows "dialogue as = Inl Out_Of_Bounds"
  using assms by (simp add: dialogue_def terminate_name_delimited send_outbuf_def Let_def)

theorem dialogue_overread_witness:
  "length (replicate 250 CHR ''a'' @ [CHR 0x0D]) \<le> 256 \<and>
   dialogue \<lparr> send_question = 0, flush_question = 0, recv_name = 0,
     name_bytes = replicate 250 CHR ''a'' @ [CHR 0x0D], send_greeting = 0, flush_greeting = 0 \<rparr>
   = Inl Out_Of_Bounds"
  using dialogue_overread [of "\<lparr> send_question = 0, flush_question = 0, recv_name = 0,
     name_bytes = replicate 250 CHR ''a'' @ [CHR 0x0D], send_greeting = 0, flush_greeting = 0 \<rparr>"
     "replicate 250 CHR ''a''"]
  by simp

end
