(* ===== verification/Tiny_Hashtable.thy ===== *)
theory Tiny_Hashtable
  imports Prelude
begin

unbundle bit_operations_syntax

text \<open>
  The model of \<open>src/hashtable/hashtable.c\<close>.  The table is the array of \<open>SIZE\<close> pointers that
  \<open>hnew\<close> allocates; a slot is \<open>None\<close> for a null pointer and \<open>Some (k, v)\<close> for a pointer to the
  pair.  \<open>hget\<close> returns a pointer into the table, here its index.  Its loop starts at the first
  slot, whatever the hash, and moves the pointer forward by the running value of \<open>h\<close>, so that
  it may leave the array: reading a slot out of the array is \<open>Inl Out_Of_Bounds\<close>.
\<close>

type_synonym table = "(int \<times> int) option list"

definition SIZE :: nat where "SIZE = 1024"

definition hnew :: table where "hnew = replicate SIZE None"

definition next_h :: "nat \<Rightarrow> nat" where
  "next_h h = (h + 1) AND (SIZE - 1)"

lemma next_h_eq: "next_h h = (h + 1) mod 1024"
proof -
  have "(h + 1) AND 1023 = take_bit 10 (h + 1)" by (simp add: take_bit_eq_mask mask_eq_exp_minus_1)
  then show ?thesis by (simp add: next_h_def SIZE_def take_bit_eq_mod)
qed

function hget_loop :: "table \<Rightarrow> int \<Rightarrow> nat \<Rightarrow> nat \<Rightarrow> nat c" where
  "hget_loop t k h p =
    (if p < length t then
       (case t ! p of
          None \<Rightarrow> Inr p
        | Some (k', _) \<Rightarrow>
            if k' \<noteq> k then hget_loop t k (next_h h) (p + next_h h) else Inr p)
     else Inl Out_Of_Bounds)"
  by pat_completeness auto

text \<open>
  The pointer moves forward, except in the one round in which \<open>h\<close> wraps to 0.
\<close>

termination
  by (relation "measures [\<lambda>(t, k, h, p). length t - p, \<lambda>(t, k, h, p). if next_h h = 0 then 1 else 0]")
    (auto simp: next_h_eq)

declare hget_loop.simps [simp del]

definition hash_of :: "int \<Rightarrow> nat" where
  "hash_of k = nat (k AND (int SIZE - 1))"

definition hget :: "table \<Rightarrow> int \<Rightarrow> nat c" where
  "hget t k = hget_loop t k (hash_of k) 0"

text \<open>The loop of \<open>hset\<close> runs its body at most once; \<open>malloc_ok\<close> says whether \<open>malloc\<close> succeeds.\<close>

definition hset :: "bool \<Rightarrow> table \<Rightarrow> int \<Rightarrow> int \<Rightarrow> table c" where
  "hset malloc_ok t k v = c_bind (hget t k) (\<lambda>a.
    if t ! a = None \<and> malloc_ok then Inr (t[a := Some (k, v)]) else Inr t)"

text \<open>\<open>hdel\<close> frees every entry, then the array: the entries it hands to \<open>free\<close>.\<close>

definition hdel :: "table \<Rightarrow> (int \<times> int) option list" where
  "hdel e = map (\<lambda>i. e ! i) [0..<SIZE]"

text \<open>The lookup of a value through the returned pointer, as \<open>main\<close> does it.\<close>

definition value_at :: "table \<Rightarrow> nat \<Rightarrow> (int \<times> int) c" where
  "value_at t a = (case t ! a of None \<Rightarrow> Inl Null_Deref | Some kv \<Rightarrow> Inr kv)"

definition main_run :: "((int \<times> int) \<times> (int \<times> int) \<times> (int \<times> int)) c" where
  "main_run =
    c_bind (hset True hnew 10 20) (\<lambda>t. c_bind (hset True t 20 30) (\<lambda>t. c_bind (hset True t 30 40) (\<lambda>t.
    c_bind (hget t 10) (\<lambda>a. c_bind (hget t 20) (\<lambda>b. c_bind (hget t 30) (\<lambda>c.
    c_bind (value_at t a) (\<lambda>x. c_bind (value_at t b) (\<lambda>y. c_bind (value_at t c) (\<lambda>z.
    Inr (x, y, z))))))))))"

subsection \<open>Facts on the loop\<close>

lemma hget_loop_cases:
  "\<not> p < length t \<Longrightarrow> hget_loop t k h p = Inl Out_Of_Bounds"
  "p < length t \<Longrightarrow> t ! p = None \<Longrightarrow> hget_loop t k h p = Inr p"
  "p < length t \<Longrightarrow> t ! p = Some (k, v) \<Longrightarrow> hget_loop t k h p = Inr p"
  "p < length t \<Longrightarrow> t ! p = Some (k', v) \<Longrightarrow> k' \<noteq> k \<Longrightarrow>
    hget_loop t k h p = hget_loop t k (next_h h) (p + next_h h)"
  by (subst hget_loop.simps, simp)+

text \<open>A pointer that the loop returns is in the table and is either free or holds the key.\<close>

lemma hget_loop_result:
  "hget_loop t k h p = Inr a \<Longrightarrow> a < length t \<and> (t ! a = None \<or> (\<exists>v. t ! a = Some (k, v)))"
proof (induction t k h p rule: hget_loop.induct)
  case (1 t k h p)
  then show ?case using hget_loop.simps [of t k h p]
    by (auto split: option.splits if_splits prod.splits)
qed

text \<open>Filling a free slot does not change the walk of a key that is stored already.\<close>

lemma hget_loop_update_other:
  assumes "hget_loop t k h p = Inr a" "t ! a = Some (k, v)" "t ! b = None" "b < length t"
  shows "hget_loop (t[b := Some kv]) k h p = Inr a"
  using assms
proof (induction t k h p rule: hget_loop.induct)
  case (1 t k h p)
  note step = hget_loop.simps [of t k h p]
  have p: "p < length t" using "1.prems"(1) step by (auto split: if_splits)
  show ?case
  proof (cases "p = b")
    case True
    then have "a = b" using "1.prems" step p by simp
    then show ?thesis using "1.prems" by simp
  next
    case False
    show ?thesis
      using "1.prems" step p False "1.IH"
      by (subst hget_loop.simps) (auto split: option.splits prod.splits if_splits)
  qed
qed

text \<open>Filling the free slot at which the walk of the key ends makes the key found there.\<close>

lemma hget_loop_update_same:
  assumes "hget_loop t k h p = Inr a" "t ! a = None"
  shows "hget_loop (t[a := Some (k, v)]) k h p = Inr a"
  using assms
proof (induction t k h p rule: hget_loop.induct)
  case (1 t k h p)
  note step = hget_loop.simps [of t k h p]
  have p: "p < length t" using "1.prems"(1) step by (auto split: if_splits)
  show ?case
  proof (cases "p = a")
    case True
    then show ?thesis using p by (subst hget_loop.simps) simp
  next
    case False
    show ?thesis
      using "1.prems" step p False "1.IH"
      by (subst hget_loop.simps) (auto split: option.splits prod.splits if_splits)
  qed
qed

subsection \<open>The table as a map\<close>

definition lookup :: "table \<Rightarrow> int \<Rightarrow> int option" where
  "lookup t k = (case hget t k of Inl _ \<Rightarrow> None | Inr a \<Rightarrow> map_option snd (t ! a))"

text \<open>
  C38. A call of \<open>hset\<close> that stays inside the table keeps the table's size, makes its key
  readable, keeps the value the key already had, and does not change what any other stored key
  maps to.
\<close>

theorem hset_lookup:
  assumes "hset True t k v = Inr t'"
  shows "length t' = length t \<and>
    lookup t' k = Some (case lookup t k of None \<Rightarrow> v | Some w \<Rightarrow> w) \<and>
    (\<forall>k' w. lookup t k' = Some w \<longrightarrow> lookup t' k' = Some w)"
proof -
  from assms obtain a where a: "hget t k = Inr a" by (auto simp: hset_def c_bind_def split: sum.splits)
  then have inb: "a < length t" "t ! a = None \<or> (\<exists>v. t ! a = Some (k, v))"
    using hget_loop_result by (simp_all add: hget_def)
  have "lookup t' k = Some (case lookup t k of None \<Rightarrow> v | Some w \<Rightarrow> w)"
    using assms a inb hget_loop_update_same [of t k "hash_of k" 0 a v]
    by (auto simp: hset_def lookup_def hget_def split: if_splits)
  moreover have "lookup t' k' = Some w" if l: "lookup t k' = Some w" for k' w
  proof -
    obtain b where b: "hget t k' = Inr b" "t ! b = Some (k', w)"
      using l hget_loop_result [of t k' "hash_of k'" 0]
      by (fastforce simp: lookup_def hget_def split: sum.splits)
    then show ?thesis
      using assms a inb hget_loop_update_other [of t k' "hash_of k'" 0 b w a]
      by (auto simp: hset_def lookup_def hget_def nth_list_update split: if_splits)
  qed
  moreover have "length t' = length t"
    using assms a by (auto simp: hset_def split: if_splits)
  ultimately show ?thesis by blast
qed

text \<open>Two fills of the new table, evaluated.\<close>

lemma length_hnew [simp]: "length hnew = 1024"
  by (simp add: hnew_def SIZE_def)

lemma hnew_not_Nil [simp]: "hnew \<noteq> []"
  by (simp add: hnew_def SIZE_def)

lemma hnew_nth [simp]: "p < 1024 \<Longrightarrow> hnew ! p = None"
  by (simp add: hnew_def SIZE_def)

lemma hash_of_10_20_30 [simp]: "hash_of 10 = 10" "hash_of 20 = 20" "hash_of 30 = 30" "hash_of 1022 = 1022"
  "hash_of 2046 = 1022" "hash_of 7 = 7"
  by (simp_all add: hash_of_def SIZE_def)

lemma hset_hnew: "hset True hnew k v = Inr (hnew[0 := Some (k, v)])"
  by (simp add: hset_def hget_def hget_loop_cases)

theorem hset_lookup_witness:
  "lookup (hnew[0 := Some (10, 20)]) 10 = Some 20"
  using hset_lookup [OF hset_hnew [of 10 20]]
  by (simp add: lookup_def hget_def hget_loop_cases)

text \<open>
  The program's own run reads back what it stored: it prints 10:20, 20:30 and 30:40, without
  leaving the table.
\<close>

theorem main_run_output: "main_run = Inr ((10, 20), (20, 30), (30, 40))"
  by (simp add: main_run_def hset_def hget_def hget_loop_cases next_h_eq value_at_def)

text \<open>
  The loop leaves the array when the table holds two entries: after any first key, a second
  key with the hash 1022 takes the last slot, and a third key with the same hash makes \<open>hset\<close>
  read beyond the array, with 1022 slots still free.
\<close>

theorem hset_out_of_bounds:
  assumes "k \<noteq> 1022" "k \<noteq> 2046"
  shows "\<exists>t. c_bind (hset True hnew k v) (\<lambda>t. hset True t 1022 w) = Inr t \<and>
    length (filter (\<lambda>e. e = None) t) = 1022 \<and> hset True t 2046 x = Inl Out_Of_Bounds"
proof -
  let ?t = "(hnew[0 := Some (k, v)])[1023 := Some (1022, w)]"
  have "hset True (hnew[0 := Some (k, v)]) 1022 w = Inr ?t"
    using assms by (simp add: hset_def hget_def hget_loop_cases next_h_eq)
  moreover have "hset True ?t 2046 x = Inl Out_Of_Bounds"
    using assms by (simp add: hset_def hget_def hget_loop_cases next_h_eq)
  moreover have "?t = Some (k, v) # replicate 1022 None @ [Some (1022, w)]"
    by (rule nth_equalityI) (auto simp: nth_list_update nth_Cons nth_append split: nat.splits)
  ultimately show ?thesis by (simp add: hset_hnew)
qed

theorem hset_out_of_bounds_witness:
  "\<exists>t. c_bind (hset True hnew 7 1) (\<lambda>t. hset True t 1022 2) = Inr t \<and>
    length (filter (\<lambda>e. e = None) t) = 1022 \<and> hset True t 2046 3 = Inl Out_Of_Bounds"
  using hset_out_of_bounds [of 7 1 2 3] by simp

end
