(* ===== verification/Netfilter.thy ===== *)
theory Netfilter
  imports Prelude
begin

text \<open>
  The model of the two packet filters, \<open>src/netfilter/test.c\<close> and
  \<open>src/netfilter/cs_DADDR/cs_DADDR.c\<close>.  A socket buffer is its linear memory, the offsets of
  \<open>skb->data\<close> and of the network header in it, its length, and whether it has fragments.
  Header fields are read and written as network-order bytes, and \<open>__sum16\<close> and \<open>__be16\<close>
  values are modelled by their network-order value.  The kernel's functions are the fields of
  the record \<open>kernel\<close>: the checksum routines and \<open>skb_linearize\<close>, which returns the new buffer
  and whether the memory was moved, in which case every pointer into the old memory is stale.
  The text that \<open>printk\<close> writes is modelled for \<open>hook_func_in\<close>, whose only effect it is.
\<close>

subsection \<open>Socket buffers\<close>

record sk_buff =
  head :: "u8 list"
  data :: nat
  network_header :: nat
  len :: nat
  nonlinear :: bool

record kernel =
  csum_partial :: "u8 list \<Rightarrow> u32"
  tcp_v4_check :: "nat \<Rightarrow> u32 \<Rightarrow> u32 \<Rightarrow> u32 \<Rightarrow> u16"
  ip_fast_csum :: "u8 list \<Rightarrow> u16"
  skb_linearize :: "sk_buff \<Rightarrow> sk_buff \<times> bool"

definition NF_DROP :: u32 where "NF_DROP = 0"
definition NF_ACCEPT :: u32 where "NF_ACCEPT = 1"
definition IPPROTO_ICMP :: u8 where "IPPROTO_ICMP = 1"
definition IPPROTO_TCP :: u8 where "IPPROTO_TCP = 6"
definition IPPROTO_UDP :: u8 where "IPPROTO_UDP = 17"

definition rd8 :: "sk_buff \<Rightarrow> nat \<Rightarrow> u8 c" where
  "rd8 skb i = (if i < length (head skb) then Inr (head skb ! i) else Inl Out_Of_Bounds)"

definition word16 :: "u8 \<Rightarrow> u8 \<Rightarrow> u16" where
  "word16 a b = push_bit 8 (ucast a) OR ucast b"

definition rd16 :: "sk_buff \<Rightarrow> nat \<Rightarrow> u16 c" where
  "rd16 skb i = c_bind (rd8 skb i) (\<lambda>a. c_bind (rd8 skb (i + 1)) (\<lambda>b. Inr (word16 a b)))"

definition rd32 :: "sk_buff \<Rightarrow> nat \<Rightarrow> u32 c" where
  "rd32 skb i = c_bind (rd16 skb i) (\<lambda>a. c_bind (rd16 skb (i + 2)) (\<lambda>b.
    Inr (push_bit 16 (ucast a) OR ucast b)))"

definition wr8 :: "sk_buff \<Rightarrow> nat \<Rightarrow> u8 \<Rightarrow> sk_buff c" where
  "wr8 skb i b = (if i < length (head skb) then Inr (skb \<lparr> head := (head skb)[i := b] \<rparr>)
    else Inl Out_Of_Bounds)"

definition hi :: "u16 \<Rightarrow> u8" where "hi v = ucast (drop_bit 8 v)"
definition lo :: "u16 \<Rightarrow> u8" where "lo v = ucast v"

definition put16 :: "u8 list \<Rightarrow> nat \<Rightarrow> u16 \<Rightarrow> u8 list" where
  "put16 h i v = h[i := hi v, i + 1 := lo v]"

definition wr16 :: "sk_buff \<Rightarrow> nat \<Rightarrow> u16 \<Rightarrow> sk_buff c" where
  "wr16 skb i v = (if i + 1 < length (head skb) then Inr (skb \<lparr> head := put16 (head skb) i v \<rparr>)
    else Inl Out_Of_Bounds)"

definition slice :: "'a list \<Rightarrow> nat \<Rightarrow> nat \<Rightarrow> 'a list" where
  "slice xs i n = take n (drop i xs)"

definition rd_bytes :: "sk_buff \<Rightarrow> nat \<Rightarrow> nat \<Rightarrow> u8 list c" where
  "rd_bytes skb i n = (if i + n \<le> length (head skb) then Inr (slice (head skb) i n) else Inl Out_Of_Bounds)"

text \<open>The header fields the code uses, at their offsets; \<open>ihl << 2\<close> is the header's length.\<close>

definition ihl_bytes :: "sk_buff \<Rightarrow> nat \<Rightarrow> nat c" where
  "ihl_bytes skb ip = c_bind (rd8 skb ip) (\<lambda>b. Inr (4 * unat (b AND 15)))"

definition doff_bytes :: "sk_buff \<Rightarrow> nat \<Rightarrow> nat c" where
  "doff_bytes skb tcp = c_bind (rd8 skb (tcp + 12)) (\<lambda>b. Inr (4 * unat (drop_bit 4 b)))"

subsection \<open>Recomputing the checksums\<close>

text \<open>
  Both filters end with the same two steps: the TCP checksum over the segment and the
  pseudo-header, then the checksum of the IP header.  A negative \<open>tcplen\<close> is an access out of
  bounds.
\<close>

definition tcp_rechecksum :: "kernel \<Rightarrow> sk_buff \<Rightarrow> nat \<Rightarrow> nat \<Rightarrow> sk_buff c" where
  "tcp_rechecksum k skb ip tcp =
    c_bind (ihl_bytes skb ip) (\<lambda>l.
    if len skb < l then Inl Out_Of_Bounds
    else
      let tcplen = len skb - l in
      c_bind (wr16 skb (tcp + 16) 0) (\<lambda>skb.
      c_bind (rd32 skb (ip + 12)) (\<lambda>saddr.
      c_bind (rd32 skb (ip + 16)) (\<lambda>daddr.
      c_bind (rd_bytes skb tcp tcplen) (\<lambda>seg.
      wr16 skb (tcp + 16) (tcp_v4_check k tcplen saddr daddr (csum_partial k seg)))))))"

definition ip_rechecksum :: "kernel \<Rightarrow> sk_buff \<Rightarrow> nat \<Rightarrow> sk_buff c" where
  "ip_rechecksum k skb ip =
    c_bind (wr16 skb (ip + 10) 0) (\<lambda>skb.
    c_bind (ihl_bytes skb ip) (\<lambda>l.
    c_bind (rd_bytes skb ip l) (\<lambda>hdr.
    wr16 skb (ip + 10) (ip_fast_csum k hdr))))"

text \<open>Pointers taken before the call are stale when the memory moved.\<close>

definition linearize :: "kernel \<Rightarrow> sk_buff \<Rightarrow> sk_buff \<times> bool" where
  "linearize k skb = (if nonlinear skb then skb_linearize k skb else (skb, False))"

subsection \<open>The checksum filter\<close>

definition hook_func :: "kernel \<Rightarrow> sk_buff \<Rightarrow> (u32 \<times> sk_buff) c" where
  "hook_func k skb =
    (let ip = network_header skb in
     c_bind (rd8 skb (ip + 1)) (\<lambda>tos.
     if tos = 0 then Inr (NF_ACCEPT, skb)
     else c_bind (rd8 skb (ip + 9)) (\<lambda>protocol.
     if protocol \<noteq> IPPROTO_TCP then Inr (NF_ACCEPT, skb)
     else c_bind (ihl_bytes skb ip) (\<lambda>l.
     let tcp = data skb + l in
     c_bind (rd16 skb (ip + 10)) (\<lambda>ip_old.
     c_bind (rd16 skb (tcp + 16)) (\<lambda>tcp_old.
     case linearize k skb of (skb, moved) \<Rightarrow>
     if moved then Inl Stale_Pointer
     else c_bind (tcp_rechecksum k skb ip tcp) (\<lambda>skb.
     c_bind (ip_rechecksum k skb ip) (\<lambda>skb.
     Inr (NF_ACCEPT, skb)))))))))"

subsection \<open>The test filter\<close>

definition check_addrs :: "u32 \<Rightarrow> u32 \<Rightarrow> u32" where
  "check_addrs saddr daddr = NF_ACCEPT"

text \<open>What \<open>hook_func_in\<close> logs.\<close>

datatype log =
    Udp u32 u16 u32 u16
  | Icmp u32 u32 u8 u8
  | Tcp u32 u16 u32 u16

definition hook_func_in :: "sk_buff \<Rightarrow> (u32 \<times> log list) c" where
  "hook_func_in skb =
    (let ip = network_header skb in
     c_bind (rd8 skb (ip + 9)) (\<lambda>protocol.
     c_bind (rd32 skb (ip + 12)) (\<lambda>saddr.
     c_bind (rd32 skb (ip + 16)) (\<lambda>daddr.
     c_bind (ihl_bytes skb ip) (\<lambda>l.
     let h = data skb + l in
     c_bind
       (if protocol = IPPROTO_UDP then
          c_bind (rd16 skb h) (\<lambda>s. c_bind (rd16 skb (h + 2)) (\<lambda>d. Inr [Udp saddr s daddr d]))
        else if protocol = IPPROTO_ICMP then
          c_bind (rd8 skb h) (\<lambda>t. c_bind (rd8 skb (h + 1)) (\<lambda>c. Inr [Icmp saddr daddr t c]))
        else if protocol = IPPROTO_TCP then
          c_bind (rd16 skb h) (\<lambda>s. c_bind (rd16 skb (h + 2)) (\<lambda>d. Inr [Tcp saddr s daddr d]))
        else Inr [])
       (\<lambda>out. Inr (check_addrs saddr daddr, out)))))))"

text \<open>\<open>strncmp(data, "irr", 3) == 0\<close> stops at the first byte that differs.\<close>

fun strncmp_eq :: "sk_buff \<Rightarrow> nat \<Rightarrow> u8 list \<Rightarrow> bool c" where
  "strncmp_eq skb i [] = Inr True"
| "strncmp_eq skb i (b # bs) =
    c_bind (rd8 skb i) (\<lambda>a. if a = b then strncmp_eq skb (i + 1) bs else Inr False)"

fun strcpy :: "sk_buff \<Rightarrow> nat \<Rightarrow> u8 list \<Rightarrow> sk_buff c" where
  "strcpy skb i [] = wr8 skb i 0"
| "strcpy skb i (b # bs) = c_bind (wr8 skb i b) (\<lambda>skb. strcpy skb (i + 1) bs)"

definition irr :: "u8 list" where "irr = [0x69, 0x72, 0x72]"
definition ale :: "u8 list" where "ale = [0x61, 0x6C, 0x65]"

definition payload_rewrite :: "sk_buff \<Rightarrow> nat \<Rightarrow> sk_buff c" where
  "payload_rewrite skb payload =
    c_bind (strncmp_eq skb payload irr) (\<lambda>eq. if eq then strcpy skb payload ale else Inr skb)"

definition bump_tos :: "sk_buff \<Rightarrow> nat \<Rightarrow> sk_buff c" where
  "bump_tos skb ip = c_bind (rd8 skb (ip + 1)) (\<lambda>tos. wr8 skb (ip + 1) (tos + 1))"

definition hook_func_out :: "kernel \<Rightarrow> sk_buff \<Rightarrow> (u32 \<times> sk_buff) c" where
  "hook_func_out k skb =
    (let ip = network_header skb in
     c_bind (rd8 skb (ip + 9)) (\<lambda>protocol.
     c_bind (rd32 skb (ip + 12)) (\<lambda>saddr.
     c_bind (rd32 skb (ip + 16)) (\<lambda>daddr.
     if protocol \<noteq> IPPROTO_TCP then Inr (check_addrs saddr daddr, skb)
     else c_bind (ihl_bytes skb ip) (\<lambda>l.
     let tcp = data skb + l in
     c_bind (rd16 skb (tcp + 2)) (\<lambda>dest.
     if dest \<noteq> 8888 then Inr (check_addrs saddr daddr, skb)
     else c_bind (doff_bytes skb tcp) (\<lambda>d.
     c_bind (rd16 skb (ip + 2)) (\<lambda>tot_len.
     let payload_offset = l + d; payload_length = (ucast tot_len :: u32) - of_nat (l + d) in
     if payload_length = 0 then Inr (check_addrs saddr daddr, skb)
     else case linearize k skb of (skb, moved) \<Rightarrow>
     c_bind (payload_rewrite skb (data skb + payload_offset)) (\<lambda>skb.
     if moved then Inl Stale_Pointer
     else c_bind (tcp_rechecksum k skb ip tcp) (\<lambda>skb.
     c_bind (bump_tos skb ip) (\<lambda>skb.
     c_bind (ip_rechecksum k skb ip) (\<lambda>skb.
     Inr (check_addrs saddr daddr, skb)))))))))))))"

subsection \<open>Loading and unloading\<close>

datatype hook = Hook_func | Hook_func_in | Hook_func_out

record nf_hook_ops =
  hook_of :: hook
  hooknum :: nat
  pf :: nat
  priority :: int

datatype registration = Register nf_hook_ops | Unregister nf_hook_ops

definition PF_INET :: nat where "PF_INET = 2"
definition NF_IP_PRI_FIRST :: int where "NF_IP_PRI_FIRST = - (2 ^ 31)"

definition nfho :: nf_hook_ops where
  "nfho = \<lparr> hook_of = Hook_func, hooknum = 4, pf = PF_INET, priority = NF_IP_PRI_FIRST \<rparr>"

definition nfho2 :: nf_hook_ops where
  "nfho2 = \<lparr> hook_of = Hook_func_out, hooknum = 4, pf = PF_INET, priority = NF_IP_PRI_FIRST \<rparr>"

definition cs_DADDR_init_module :: "registration list" where "cs_DADDR_init_module = [Register nfho]"
definition cs_DADDR_cleanup_module :: "registration list" where "cs_DADDR_cleanup_module = [Unregister nfho]"
definition test_init_module :: "registration list" where "test_init_module = [Register nfho2]"
definition test_cleanup_module :: "registration list" where "test_cleanup_module = [Unregister nfho2]"

subsection \<open>One's complement sums\<close>

text \<open>
  The reference checksum of RFC 1071: the sum of the network-order 16-bit words, an odd last
  byte padded with zero, with end-around carry.
\<close>

fun sum16 :: "u8 list \<Rightarrow> nat" where
  "sum16 [] = 0"
| "sum16 [a] = 256 * unat a"
| "sum16 (a # b # bs) = 256 * unat a + unat b + sum16 bs"

definition fold16 :: "nat \<Rightarrow> nat" where
  "fold16 n = (if n = 0 then 0 else (n - 1) mod 65535 + 1)"

lemma fold16_complement: "fold16 (n + (65535 - fold16 n)) = 65535"
proof (cases "n = 0")
  case True
  then show ?thesis by (simp add: fold16_def)
next
  case False
  have "n - 1 = 65535 * ((n - 1) div 65535) + (n - 1) mod 65535" by simp
  moreover have "(n - 1) mod 65535 < 65535" by simp
  moreover have "fold16 n = (n - 1) mod 65535 + 1" using False by (simp add: fold16_def)
  ultimately have "n + (65535 - fold16 n) = Suc (65534 + 65535 * ((n - 1) div 65535))"
    using False by linarith
  then show ?thesis by (simp add: fold16_def)
qed

lemma unat_hi_lo: "256 * unat (hi v) + unat (lo v) = unat v"
proof -
  have "unat (hi v) = unat v div 256"
    using unsigned_less [of v, where 'a = nat]
    by (simp add: hi_def drop_bit_eq_div unsigned_ucast_eq take_bit_eq_mod unat_div)
  moreover have "unat (lo v) = unat v mod 256"
    by (simp add: lo_def unsigned_ucast_eq take_bit_eq_mod)
  ultimately show ?thesis by simp
qed

lemma length_put16 [simp]: "length (put16 h i v) = length h"
  by (simp add: put16_def)

lemma put16_put16 [simp]: "put16 (put16 h i v) i w = put16 h i w"
  by (simp add: put16_def list_update_swap [of i "Suc i"])

lemma put16_nth: "j \<noteq> i \<Longrightarrow> j \<noteq> i + 1 \<Longrightarrow> put16 h i v ! j = h ! j"
  by (simp add: put16_def)

lemma slice_put16_inside:
  assumes "off \<le> i" "i + 2 \<le> off + n" "off + n \<le> length h"
  shows "slice (put16 h i v) off n = put16 (slice h off n) (i - off) v"
  using assms by (intro nth_equalityI) (auto simp: slice_def put16_def nth_list_update)

lemma slice_put16_outside:
  assumes "i + 2 \<le> off \<or> off + n \<le> i"
  shows "slice (put16 h i v) off n = slice h off n"
  using assms by (intro nth_equalityI) (auto simp: slice_def put16_def nth_list_update)

lemma sum16_put16:
  "2 * j + 1 < length bs \<Longrightarrow> sum16 (put16 bs (2 * j) v) = sum16 (put16 bs (2 * j) 0) + unat v"
proof (induction bs arbitrary: j rule: sum16.induct)
  case (3 a b bs)
  then show ?case
    by (cases j) (use unat_hi_lo [of v] in \<open>simp_all add: put16_def hi_def [of 0] lo_def [of 0]\<close>)
qed simp_all

text \<open>
  What the kernel's routines promise, by their documentation: \<open>ip_fast_csum\<close> returns the
  complement of the folded sum of the header, and \<open>tcp_v4_check\<close> of \<open>csum_partial\<close> the
  complement of the folded sum of the segment and its pseudo-header.
\<close>

definition pseudo_header :: "nat \<Rightarrow> u32 \<Rightarrow> u32 \<Rightarrow> nat" where
  "pseudo_header n saddr daddr =
    unat (drop_bit 16 saddr) + unat (take_bit 16 saddr) + unat (drop_bit 16 daddr) +
    unat (take_bit 16 daddr) + 6 + n"

definition rfc1071 :: "kernel \<Rightarrow> bool" where
  "rfc1071 k \<longleftrightarrow>
    (\<forall>bs. length bs < 65536 \<longrightarrow> unat (ip_fast_csum k bs) = 65535 - fold16 (sum16 bs)) \<and>
    (\<forall>bs s d. length bs < 65536 \<longrightarrow> unat (tcp_v4_check k (length bs) s d (csum_partial k bs)) =
       65535 - fold16 (sum16 bs + pseudo_header (length bs) s d))"

lemma checksum_field_valid:
  assumes "2 * j + 1 < length bs"
    and "unat c = 65535 - fold16 (sum16 (put16 bs (2 * j) 0) + r)"
  shows "fold16 (sum16 (put16 bs (2 * j) c) + r) = 65535"
proof -
  have "sum16 (put16 bs (2 * j) c) + r =
      (sum16 (put16 bs (2 * j) 0) + r) + (65535 - fold16 (sum16 (put16 bs (2 * j) 0) + r))"
    using sum16_put16 [OF assms(1), of c] assms(2) by linarith
  then show ?thesis by (simp only: fold16_complement)
qed

subsection \<open>The recomputed checksums are valid\<close>

text \<open>
  A linear TCP packet with the network header at \<open>skb->data\<close>, as the output hook sees it:
  \<open>l\<close> is the length of the IP header.
\<close>

definition packet_ok :: "sk_buff \<Rightarrow> nat \<Rightarrow> bool" where
  "packet_ok skb l \<longleftrightarrow> \<not> nonlinear skb \<and> len skb < 65536 \<and> data skb = network_header skb \<and>
    network_header skb + len skb \<le> length (head skb) \<and>
    l = 4 * unat (head skb ! network_header skb AND 15) \<and> 20 \<le> l \<and> l + 20 \<le> len skb \<and>
    head skb ! (network_header skb + 9) = IPPROTO_TCP"

definition word32 :: "u8 list \<Rightarrow> nat \<Rightarrow> u32" where
  "word32 h i = push_bit 16 (ucast (word16 (h ! i) (h ! (i + 1)))) OR
    ucast (word16 (h ! (i + 2)) (h ! (i + 3)))"

definition ip_valid :: "sk_buff \<Rightarrow> nat \<Rightarrow> bool" where
  "ip_valid skb l \<longleftrightarrow> fold16 (sum16 (slice (head skb) (network_header skb) l)) = 65535"

definition tcp_valid :: "sk_buff \<Rightarrow> nat \<Rightarrow> bool" where
  "tcp_valid skb l \<longleftrightarrow>
    fold16 (sum16 (slice (head skb) (network_header skb + l) (len skb - l)) +
      pseudo_header (len skb - l) (word32 (head skb) (network_header skb + 12))
        (word32 (head skb) (network_header skb + 16))) = 65535"

lemma rd_in [simp]:
  "i < length (head skb) \<Longrightarrow> rd8 skb i = Inr (head skb ! i)"
  "i + 1 < length (head skb) \<Longrightarrow> rd16 skb i = Inr (word16 (head skb ! i) (head skb ! (i + 1)))"
  "i + 3 < length (head skb) \<Longrightarrow> rd32 skb i = Inr (word32 (head skb) i)"
  by (simp_all add: rd8_def rd16_def rd32_def word32_def eval_nat_numeral)

lemma length_slice [simp]: "i + n \<le> length xs \<Longrightarrow> length (slice xs i n) = n"
  by (simp add: slice_def)

lemma word32_put16: "i + 4 \<le> j \<or> j + 2 \<le> i \<Longrightarrow> word32 (put16 h j v) i = word32 h i"
  by (auto simp: word32_def put16_nth)

text \<open>The two steps, on memory that holds the packet.\<close>

lemma tcp_rechecksum_value:
  assumes "rfc1071 k" and p: "packet_ok skb l"
  obtains c where "tcp_rechecksum k skb (network_header skb) (network_header skb + l) =
      Inr (skb \<lparr> head := put16 (head skb) (network_header skb + l + 16) c \<rparr>)"
    "tcp_valid (skb \<lparr> head := put16 (head skb) (network_header skb + l + 16) c \<rparr>) l"
proof -
  let ?ip = "network_header skb" and ?h = "head skb" and ?n = "len skb - l"
  let ?s = "word32 ?h (?ip + 12)" and ?d = "word32 ?h (?ip + 16)"
  let ?z = "slice (put16 ?h (?ip + l + 16) 0) (?ip + l) ?n"
  define c where "c = tcp_v4_check k ?n ?s ?d (csum_partial k ?z)"
  have b: "?ip + len skb \<le> length ?h" "l + 20 \<le> len skb" "20 \<le> l"
    "l = 4 * unat (?h ! ?ip AND 15)" "len skb < 65536" using p by (simp_all add: packet_ok_def)
  have z: "?z = put16 (slice ?h (?ip + l) ?n) (2 * 8) 0"
    using b by (subst slice_put16_inside) auto
  have len: "length ?z = ?n" using b by simp
  have "tcp_rechecksum k skb ?ip (?ip + l) = Inr (skb \<lparr> head := put16 ?h (?ip + l + 16) c \<rparr>)"
    using b(1-3) unfolding tcp_rechecksum_def ihl_bytes_def
    by (simp add: wr16_def rd_bytes_def Let_def word32_put16 c_def b(4) [symmetric])
  moreover have "unat c = 65535 - fold16 (sum16 ?z + pseudo_header ?n ?s ?d)"
  proof -
    have "length ?z < 65536" using len b(5) by linarith
    then show ?thesis using assms(1) len unfolding rfc1071_def c_def by (metis (no_types))
  qed
  then have "fold16 (sum16 (put16 (slice ?h (?ip + l) ?n) (2 * 8) c) + pseudo_header ?n ?s ?d) = 65535"
    unfolding z using b by (intro checksum_field_valid) auto
  then have "tcp_valid (skb \<lparr> head := put16 ?h (?ip + l + 16) c \<rparr>) l"
    using b by (simp add: tcp_valid_def slice_put16_inside word32_put16)
  ultimately show thesis by (rule that)
qed

lemma ip_rechecksum_value:
  assumes "rfc1071 k" and p: "packet_ok skb l"
  obtains c where "ip_rechecksum k skb (network_header skb) =
      Inr (skb \<lparr> head := put16 (head skb) (network_header skb + 10) c \<rparr>)"
    "ip_valid (skb \<lparr> head := put16 (head skb) (network_header skb + 10) c \<rparr>) l"
proof -
  let ?ip = "network_header skb" and ?h = "head skb"
  let ?z = "slice (put16 ?h (?ip + 10) 0) ?ip l"
  define c where "c = ip_fast_csum k ?z"
  have b: "?ip + len skb \<le> length ?h" "l + 20 \<le> len skb" "20 \<le> l"
    "l = 4 * unat (?h ! ?ip AND 15)" "len skb < 65536" using p by (simp_all add: packet_ok_def)
  have z: "?z = put16 (slice ?h ?ip l) (2 * 5) 0" using b by (subst slice_put16_inside) auto
  have "ip_rechecksum k skb ?ip = Inr (skb \<lparr> head := put16 ?h (?ip + 10) c \<rparr>)"
    using b(1-3) unfolding ip_rechecksum_def ihl_bytes_def
    by (simp add: wr16_def rd_bytes_def put16_nth c_def b(4) [symmetric])
  moreover have "unat c = 65535 - fold16 (sum16 ?z + 0)"
    using assms(1) b unfolding rfc1071_def c_def by simp
  then have "fold16 (sum16 (put16 (slice ?h ?ip l) (2 * 5) c) + 0) = 65535"
    unfolding z using b by (intro checksum_field_valid) auto
  then have "ip_valid (skb \<lparr> head := put16 ?h (?ip + 10) c \<rparr>) l"
    using b by (simp add: ip_valid_def slice_put16_inside)
  ultimately show thesis by (rule that)
qed

lemma tcp_valid_ip_write:
  assumes "tcp_valid skb l" "20 \<le> l"
  shows "tcp_valid (skb \<lparr> head := put16 (head skb) (network_header skb + 10) c \<rparr>) l"
  using assms by (simp add: tcp_valid_def slice_put16_outside word32_put16)

lemma packet_ok_write:
  assumes "packet_ok skb l" "network_header skb + 10 \<le> i"
  shows "packet_ok (skb \<lparr> head := put16 (head skb) i c \<rparr>) l"
  using assms by (simp add: packet_ok_def put16_nth)

text \<open>
  C20. Where the kernel's routines compute the RFC 1071 checksum, a linear TCP packet with a
  nonzero type of service is accepted by the checksum filter and leaves it with a valid IP header
  checksum and a valid TCP checksum, with no byte changed but the two checksum fields.
\<close>

theorem hook_func_checksums:
  assumes "rfc1071 k" "packet_ok skb l" "head skb ! (network_header skb + 1) \<noteq> 0"
  shows "\<exists>skb'. hook_func k skb = Inr (NF_ACCEPT, skb') \<and> ip_valid skb' l \<and> tcp_valid skb' l \<and>
    length (head skb') = length (head skb) \<and>
    (\<forall>i. i \<notin> {network_header skb + 10, network_header skb + 11,
          network_header skb + l + 16, network_header skb + l + 17} \<longrightarrow> head skb' ! i = head skb ! i)"
proof -
  let ?ip = "network_header skb"
  obtain c where c: "tcp_rechecksum k skb ?ip (?ip + l) =
      Inr (skb \<lparr> head := put16 (head skb) (?ip + l + 16) c \<rparr>)"
    "tcp_valid (skb \<lparr> head := put16 (head skb) (?ip + l + 16) c \<rparr>) l"
    using tcp_rechecksum_value [OF assms(1,2)] .
  let ?skb = "skb \<lparr> head := put16 (head skb) (?ip + l + 16) c \<rparr>"
  have ok: "packet_ok ?skb l" using assms(2) by (intro packet_ok_write) (auto simp: packet_ok_def)
  obtain d where d: "ip_rechecksum k ?skb ?ip = Inr (?skb \<lparr> head := put16 (head ?skb) (?ip + 10) d \<rparr>)"
    "ip_valid (?skb \<lparr> head := put16 (head ?skb) (?ip + 10) d \<rparr>) l"
    using ip_rechecksum_value [OF assms(1) ok] by auto
  have b: "?ip + len skb \<le> length (head skb)" "l + 20 \<le> len skb" "20 \<le> l" "data skb = ?ip"
    "l = 4 * unat (head skb ! ?ip AND 15)" "\<not> nonlinear skb" "head skb ! (?ip + 9) = IPPROTO_TCP"
    using assms(2) by (simp_all add: packet_ok_def)
  have "hook_func k skb = Inr (NF_ACCEPT, ?skb \<lparr> head := put16 (head ?skb) (?ip + 10) d \<rparr>)"
    using b(1-3) assms(3) c(1) d(1) unfolding hook_func_def ihl_bytes_def
    by (simp add: Let_def linearize_def b(4,6,7) b(5) [symmetric])
  moreover have "tcp_valid (?skb \<lparr> head := put16 (head ?skb) (?ip + 10) d \<rparr>) l"
    using tcp_valid_ip_write [OF c(2) b(3)] by simp
  ultimately show ?thesis using d(2) by (auto simp: put16_nth)
qed

text \<open>A kernel that computes the reference checksum, and a packet of 44 bytes to port 8888.\<close>

definition rfc_kernel :: kernel where
  "rfc_kernel = \<lparr> csum_partial = (\<lambda>bs. of_nat (sum16 bs)),
     tcp_v4_check = (\<lambda>n s d c. of_nat (65535 - fold16 (unat c + pseudo_header n s d))),
     ip_fast_csum = (\<lambda>bs. of_nat (65535 - fold16 (sum16 bs))),
     skb_linearize = (\<lambda>skb. (skb \<lparr> nonlinear := False \<rparr>, True)) \<rparr>"

definition sample_skb :: sk_buff where
  "sample_skb = \<lparr> head = [0x45, 1, 0, 44] @ replicate 5 0 @ [6, 0, 0, 10, 0, 0, 1, 10, 0, 0, 2] @
       [0, 80, 0x22, 0xB8] @ replicate 8 0 @ [0x50, 0] @ replicate 6 0 @ irr @ [0x21],
     data = 0, network_header = 0, len = 44, nonlinear = False \<rparr>"

lemma sum16_bound: "2 * sum16 bs \<le> 65536 * (length bs + 1)"
proof (induction bs rule: sum16.induct)
  case (2 a)
  show ?case using unsigned_less [of a, where 'a = nat] by simp
next
  case (3 a b bs)
  then show ?case using unsigned_less [of a, where 'a = nat] unsigned_less [of b, where 'a = nat] by simp
qed simp

lemma unat_complement: "unat (of_nat (65535 - n) :: u16) = 65535 - n"
  by (simp add: unat_of_nat take_bit_eq_mod)

lemma rfc_kernel_rfc1071: "rfc1071 rfc_kernel"
proof -
  have "unat (of_nat (sum16 bs) :: u32) = sum16 bs" if "length bs < 65536" for bs
    using sum16_bound [of bs] that by (simp add: unat_of_nat take_bit_eq_mod)
  then show ?thesis by (simp add: rfc1071_def rfc_kernel_def unat_complement)
qed

lemma sample_skb_ok: "packet_ok sample_skb 20"
  by (simp add: packet_ok_def sample_skb_def irr_def IPPROTO_TCP_def nth_append)

theorem hook_func_checksums_witness:
  "\<exists>skb'. hook_func rfc_kernel sample_skb = Inr (NF_ACCEPT, skb') \<and> ip_valid skb' 20 \<and> tcp_valid skb' 20"
  using hook_func_checksums [OF rfc_kernel_rfc1071 sample_skb_ok]
  by (auto simp: sample_skb_def)

text \<open>
  Both filters use pointers that \<open>skb_linearize\<close> may have made stale: when it moves the memory
  of a fragmented TCP packet, the checksum filter goes on to read and write the freed header.
\<close>

theorem hook_func_stale:
  assumes "nonlinear skb" "snd (skb_linearize k skb)"
    "network_header skb + 20 \<le> length (head skb)" "data skb + 78 \<le> length (head skb)"
    "head skb ! (network_header skb + 1) \<noteq> 0" "head skb ! (network_header skb + 9) = IPPROTO_TCP"
  shows "hook_func k skb = Inl Stale_Pointer"
proof -
  have "unat (head skb ! network_header skb AND 15) \<le> 15"
    using word_and_le1 [of "head skb ! network_header skb" 15] by (simp add: word_le_nat_alt)
  then show ?thesis using assms
    by (auto simp: hook_func_def ihl_bytes_def Let_def linearize_def split: prod.splits)
qed

theorem hook_func_stale_witness:
  "hook_func rfc_kernel (sample_skb \<lparr> head := head sample_skb @ replicate 100 0, nonlinear := True \<rparr>)
    = Inl Stale_Pointer"
  by (rule hook_func_stale)
    (simp_all add: sample_skb_def rfc_kernel_def irr_def IPPROTO_TCP_def nth_append)

subsection \<open>The rewriting filter\<close>

lemma slice_update_before: "i < off \<Longrightarrow> slice (h[i := b]) off n = slice h off n"
  by (simp add: slice_def)

lemma slice_write4:
  assumes "i + 4 \<le> length h"
  shows "slice (h[i := a, i + 1 := b, i + 2 := c, i + 3 := d]) i 4 = [a, b, c, d]"
proof -
  have "n < 4 \<Longrightarrow> h[i := a, i + 1 := b, i + 2 := c, i + 3 := d] ! (i + n) = [a, b, c, d] ! n" for n
    using assms by (auto simp: less_Suc_eq numeral_eq_Suc)
  then show ?thesis using assms by (intro nth_equalityI) (simp_all add: slice_def)
qed

lemma payload_rewrite_irr:
  assumes "po + 4 \<le> length (head skb)" "slice (head skb) po 3 = irr"
  shows "payload_rewrite skb po = Inr (skb \<lparr> head := (head skb)
    [po := 0x61, po + 1 := 0x6C, po + 2 := 0x65, po + 3 := 0] \<rparr>)"
proof -
  have "head skb ! po = 0x69" "head skb ! (po + 1) = 0x72" "head skb ! (po + 2) = 0x72"
    using arg_cong [OF assms(2), of "\<lambda>xs. xs ! 0"] arg_cong [OF assms(2), of "\<lambda>xs. xs ! 1"]
      arg_cong [OF assms(2), of "\<lambda>xs. xs ! 2"] assms(1)
    by (simp_all add: slice_def irr_def)
  then show ?thesis using assms(1)
    by (simp add: payload_rewrite_def irr_def ale_def wr8_def numeral_2_eq_2 numeral_3_eq_3)
qed

lemma payload_nonzero:
  fixes tot :: u16
  assumes "n < unat tot"
  shows "(ucast tot :: u32) - of_nat n \<noteq> 0"
proof -
  have "unat (ucast tot :: u32) = unat tot"
    using unsigned_less [of tot, where 'a = nat] by (simp add: unsigned_ucast_eq take_bit_eq_mod)
  moreover have "unat (of_nat n :: u32) = n"
    using assms unsigned_less [of tot, where 'a = nat] by (simp add: unat_of_nat take_bit_eq_mod)
  ultimately show ?thesis using assms by (metis eq_iff_diff_eq_0 less_irrefl)
qed

text \<open>
  C36. The rewriting filter turns the payload \<open>irr\<close> of a packet to port 8888 into \<open>ale\<close>, adds one
  to the type of service, and leaves both checksums valid; but \<open>strcpy\<close> also overwrites the byte
  after the word with zero.
\<close>

theorem hook_func_out_rewrites:
  assumes "rfc1071 k" "packet_ok skb l"
    and "ip = network_header skb" "tcp = ip + l" "d = 4 * unat (drop_bit 4 (head skb ! (tcp + 12)))"
    and "word16 (head skb ! (tcp + 2)) (head skb ! (tcp + 3)) = 8888"
    and "20 \<le> d" "l + d + 4 \<le> len skb" "unat (word16 (head skb ! (ip + 2)) (head skb ! (ip + 3))) = len skb"
    and "slice (head skb) (tcp + d) 3 = irr"
  shows "\<exists>skb'. hook_func_out k skb = Inr (NF_ACCEPT, skb') \<and> ip_valid skb' l \<and> tcp_valid skb' l \<and>
    slice (head skb') (tcp + d) 4 = ale @ [0] \<and> head skb' ! (ip + 1) = head skb ! (ip + 1) + 1"
proof -
  let ?po = "tcp + d"
  let ?h1 = "(head skb)[?po := 0x61, ?po + 1 := 0x6C, ?po + 2 := 0x65, ?po + 3 := 0]"
  let ?s1 = "skb \<lparr> head := ?h1 \<rparr>"
  have b: "ip + len skb \<le> length (head skb)" "l + 20 \<le> len skb" "20 \<le> l" "data skb = ip"
    "l = 4 * unat (head skb ! ip AND 15)" "\<not> nonlinear skb" "head skb ! (ip + 9) = IPPROTO_TCP"
    "len skb < 65536"
    using assms(2,3) by (simp_all add: packet_ok_def)
  have pr: "payload_rewrite skb ?po = Inr ?s1"
    using assms(4,8,10) b by (intro payload_rewrite_irr) auto
  have ok1: "packet_ok ?s1 l" using assms(2-4,7) b by (simp add: packet_ok_def)
  obtain c where c: "tcp_rechecksum k ?s1 ip tcp = Inr (?s1 \<lparr> head := put16 ?h1 (tcp + 16) c \<rparr>)"
    "tcp_valid (?s1 \<lparr> head := put16 ?h1 (tcp + 16) c \<rparr>) l"
    using tcp_rechecksum_value [OF assms(1) ok1] assms(3,4) by auto
  let ?h2 = "put16 ?h1 (tcp + 16) c"
  let ?h3 = "?h2[ip + 1 := ?h2 ! (ip + 1) + 1]"
  let ?s3 = "skb \<lparr> head := ?h3 \<rparr>"
  have bump: "bump_tos (skb \<lparr> head := ?h2 \<rparr>) ip = Inr ?s3"
    using b by (simp add: bump_tos_def wr8_def)
  have ok3: "packet_ok ?s3 l" using ok1 assms(3,4) b by (simp add: packet_ok_def put16_nth)
  have tv: "tcp_valid ?s3 l"
    using c(2) assms(3) b by (simp add: tcp_valid_def slice_update_before word32_def)
  obtain e where e: "ip_rechecksum k ?s3 ip = Inr (?s3 \<lparr> head := put16 ?h3 (ip + 10) e \<rparr>)"
    "ip_valid (?s3 \<lparr> head := put16 ?h3 (ip + 10) e \<rparr>) l"
    using ip_rechecksum_value [OF assms(1) ok3] assms(3) by auto
  let ?s4 = "skb \<lparr> head := put16 ?h3 (ip + 10) e \<rparr>"
  have tl: "(ucast (word16 (head skb ! (ip + 2)) (head skb ! (ip + 3))) :: u32) - of_nat (l + d) \<noteq> 0"
    using assms(8,9) b(8) by (intro payload_nonzero) auto
  have r: "rd8 skb (ip + 9) = Inr IPPROTO_TCP" "rd32 skb (ip + 12) = Inr (word32 (head skb) (ip + 12))"
    "rd32 skb (ip + 16) = Inr (word32 (head skb) (ip + 16))" "ihl_bytes skb ip = Inr l"
    "rd16 skb (ip + 2) = Inr (word16 (head skb ! (ip + 2)) (head skb ! (ip + 3)))"
    using b(1-3,7) b(5) [symmetric] by (simp_all add: ihl_bytes_def numeral_3_eq_3)
  have q: "rd16 skb (tcp + 2) = Inr 8888" "doff_bytes skb tcp = Inr d" "linearize k skb = (skb, False)"
    "payload_rewrite skb (ip + (l + d)) = Inr ?s1"
    using b(1-3,6) assms(4,6) assms(5) [symmetric] pr by (simp_all add: doff_bytes_def linearize_def add.assoc numeral_3_eq_3)
  have upd: "?s1 \<lparr> head := ?h2 \<rparr> = skb \<lparr> head := ?h2 \<rparr>" "?s3 \<lparr> head := put16 ?h3 (ip + 10) e \<rparr> = ?s4"
    by simp_all
  have "hook_func_out k skb = Inr (NF_ACCEPT, ?s4)"
    unfolding hook_func_out_def Let_def assms(3) [symmetric]
    by (simp only: r b(4) assms(4) [symmetric] q c(1) e(1) upd bump tl c_bind_simps prod.case
        simp_thms if_True if_False check_addrs_def)
  moreover have "tcp_valid ?s4 l" using tcp_valid_ip_write [OF tv b(3), of e] assms(3) by simp
  moreover have "slice (head ?s4) ?po 4 = ale @ [0]"
  proof -
    have "slice ?h1 ?po 4 = ale @ [0]"
      using slice_write4 [of ?po "head skb"] assms(4,8) b(1) by (simp add: ale_def)
    then show ?thesis using assms(4,7) b(3) by (simp add: slice_put16_outside slice_update_before)
  qed
  moreover have "head ?s4 ! (ip + 1) = head skb ! (ip + 1) + 1"
    using assms(4,7) b by (simp add: put16_nth)
  ultimately show ?thesis using e(2) by auto
qed

theorem hook_func_out_rewrites_witness:
  "\<exists>skb'. hook_func_out rfc_kernel sample_skb = Inr (NF_ACCEPT, skb') \<and> ip_valid skb' 20 \<and>
    tcp_valid skb' 20 \<and> slice (head skb') 40 4 = [0x61, 0x6C, 0x65, 0] \<and> head skb' ! 1 = 2"
  using hook_func_out_rewrites [OF rfc_kernel_rfc1071 sample_skb_ok, of 0 20 20]
  by (simp add: sample_skb_def irr_def ale_def word16_def slice_def nth_append)

end
