(* ===== verification/Strict_Weak_Order.thy ===== *)
theory Strict_Weak_Order
  imports Main
begin

text \<open>
  The contract that the comparison object \<open>comp\<close> of the dlib containers has to meet: a strict
  weak order, whose incomparable elements are what the containers call equivalent.  The
  containers' default, \<open>std::less\<close>, is shown to meet it.
\<close>

locale strict_weak_order =
  fixes cmp :: "'d \<Rightarrow> 'd \<Rightarrow> bool"
  assumes asym: "cmp x y \<Longrightarrow> \<not> cmp y x"
    and cotrans: "cmp x z \<Longrightarrow> cmp x y \<or> cmp y z"
begin

definition equivalent :: "'d \<Rightarrow> 'd \<Rightarrow> bool" where
  "equivalent x y \<longleftrightarrow> \<not> cmp x y \<and> \<not> cmp y x"

lemma irrefl [simp]: "\<not> cmp x x"
  using asym by blast

lemma trans: "cmp x y \<Longrightarrow> cmp y z \<Longrightarrow> cmp x z"
  using asym cotrans by blast

lemma not_cmp_trans: "\<not> cmp y x \<Longrightarrow> \<not> cmp z y \<Longrightarrow> \<not> cmp z x"
  using cotrans by blast

lemma cmp_not_cmp_trans: "cmp x y \<Longrightarrow> \<not> cmp z y \<Longrightarrow> cmp x z"
  using cotrans by blast

lemma not_cmp_cmp_trans: "\<not> cmp y x \<Longrightarrow> cmp y z \<Longrightarrow> cmp x z"
  using cotrans by blast

lemma equivalent_refl [simp]: "equivalent x x"
  by (simp add: equivalent_def)

end

definition std_less :: "'d::linorder \<Rightarrow> 'd \<Rightarrow> bool" where
  "std_less x y \<longleftrightarrow> x < y"

interpretation std_less: strict_weak_order "std_less :: 'd::linorder \<Rightarrow> 'd \<Rightarrow> bool"
  by unfold_locales (auto simp: std_less_def)

lemma std_less_strict_weak_order: "strict_weak_order (std_less :: 'd::linorder \<Rightarrow> 'd \<Rightarrow> bool)"
  by (rule std_less.strict_weak_order_axioms)

end
