(* ===== verification/Avl_Tree.thy ===== *)
theory Avl_Tree
  imports Strict_Weak_Order "HOL-Library.Multiset"
begin

text \<open>
  The tree operations of \<open>src/dlib-minimal/lib/dlib/binary_search_tree/binary_search_tree_kernel_1.h\<close>,
  an AVL tree that keeps a balance number in each node.  A node carries its address, so that the
  pointers of the enumerator have something to point to; \<open>Null\<close> is the null pointer.  A function
  that takes a reference to a node pointer returns the new value of that pointer.  The equations
  leave out the calls that dereference a null pointer: there the functions are unspecified, and
  the theorems below show that no call of the containers gets there.
\<close>

datatype ('d, 'r) node =
    Null
  | Node (addr: nat) (left: "('d, 'r) node") (node_d: 'd) (node_r: 'r) (balance: int) (right: "('d, 'r) node")

subsection \<open>Rotations\<close>

fun rotate_left :: "('d, 'r) node \<Rightarrow> ('d, 'r) node" where
  "rotate_left (Node a l x v b (Node a' l' x' v' b' r')) =
    (if b' = 1 then Node a' (Node a l x v 0 l') x' v' 0 r'
     else Node a' (Node a l x v 1 l') x' v' (- 1) r')"

fun rotate_right :: "('d, 'r) node \<Rightarrow> ('d, 'r) node" where
  "rotate_right (Node a (Node a' l' x' v' b' r') x v b r) =
    (if b' = - 1 then Node a' l' x' v' 0 (Node a r' x v 0 r)
     else Node a' l' x' v' 1 (Node a r' x v (- 1) r))"

text \<open>The balance numbers of the two children after a double rotation, from the middle node's.\<close>

definition split_balance :: "int \<Rightarrow> int \<times> int" where
  "split_balance b = (if b < 0 then (0, 1) else if b > 0 then (- 1, 0) else (0, 0))"

fun double_rotate_right :: "('d, 'r) node \<Rightarrow> ('d, 'r) node" where
  "double_rotate_right (Node a (Node a' l' x' v' b' (Node m lm xm vm bm rm)) x v b r) =
    Node m (Node a' l' x' v' (fst (split_balance bm)) lm) xm vm 0
      (Node a rm x v (snd (split_balance bm)) r)"

fun double_rotate_left :: "('d, 'r) node \<Rightarrow> ('d, 'r) node" where
  "double_rotate_left (Node a l x v b (Node a' (Node m lm xm vm bm rm) x' v' b' r')) =
    Node m (Node a l x v (fst (split_balance bm)) lm) xm vm 0
      (Node a' rm x' v' (snd (split_balance bm)) r')"

text \<open>The flag says whether the tree became one shorter.\<close>

definition keep_node_balanced :: "('d, 'r) node \<Rightarrow> ('d, 'r) node \<times> bool" where
  "keep_node_balanced t =
    (if balance t = 0 then (t, False)
     else
       let t' = (if balance t = 2 then
                   (if balance (right t) \<ge> 0 then rotate_left t else double_rotate_left t)
                 else if balance t = - 2 then
                   (if balance (left t) \<le> 0 then rotate_right t else double_rotate_right t)
                 else t)
       in (t', balance t' = 0))"

subsection \<open>Adding and removing\<close>

text \<open>\<open>a\<close> is the address of the node that \<open>pool.allocate\<close> returns.\<close>

fun add_to_tree ::
  "('d \<Rightarrow> 'd \<Rightarrow> bool) \<Rightarrow> nat \<Rightarrow> 'd \<Rightarrow> 'r \<Rightarrow> ('d, 'r) node \<Rightarrow> ('d, 'r) node \<times> bool" where
  "add_to_tree cmp a x v Null = (Node a Null x v 0 Null, True)"
| "add_to_tree cmp a x v (Node n l y w old_balance rt) =
    (let tree = (if cmp x y
                 then case add_to_tree cmp a x v l of
                   (l', g) \<Rightarrow> Node n l' y w (old_balance - of_bool g) rt
                 else case add_to_tree cmp a x v rt of
                   (r', g) \<Rightarrow> Node n l y w (old_balance + of_bool g) r')
     in if old_balance = 0 then (tree, balance tree \<noteq> 0)
        else if balance tree = 0 then (tree, False)
        else if balance tree \<noteq> old_balance then
          (case keep_node_balanced tree of (t, shrunk) \<Rightarrow> (t, \<not> shrunk))
        else (tree, False))"

text \<open>The removed domain and range elements are returned with the tree.\<close>

fun remove_biggest_element_in_tree ::
  "('d, 'r) node \<Rightarrow> ('d, 'r) node \<times> ('d \<times> 'r) \<times> bool" where
  "remove_biggest_element_in_tree (Node n l y w b rt) =
    (if rt = Null then (l, (y, w), True)
     else case remove_biggest_element_in_tree rt of (r', e, shrunk) \<Rightarrow>
       if shrunk then
         (if b = 1 then (Node n l y w (b - 1) r', e, True)
          else case keep_node_balanced (Node n l y w (b - 1) r') of (t, s) \<Rightarrow> (t, e, s))
       else (Node n l y w b r', e, False))"

fun remove_least_element_in_tree ::
  "('d, 'r) node \<Rightarrow> ('d, 'r) node \<times> ('d \<times> 'r) \<times> bool" where
  "remove_least_element_in_tree (Node n l y w b rt) =
    (if l = Null then (rt, (y, w), True)
     else case remove_least_element_in_tree l of (l', e, shrunk) \<Rightarrow>
       if shrunk then
         (if b = - 1 then (Node n l' y w (b + 1) rt, e, True)
          else case keep_node_balanced (Node n l' y w (b + 1) rt) of (t, s) \<Rightarrow> (t, e, s))
       else (Node n l' y w b rt, e, False))"

text \<open>
  The node's own element is taken out: with one child or none the child takes the node's place,
  with two the least element of the right subtree is moved into the node.
\<close>

definition remove_here :: "('d, 'r) node \<Rightarrow> ('d, 'r) node \<times> bool" where
  "remove_here t =
    (if left t = Null then (right t, True)
     else if right t = Null then (left t, True)
     else case remove_least_element_in_tree (right t) of (r', (y, w), shrunk) \<Rightarrow>
       if shrunk then
         (let tree = Node (addr t) (left t) y w (balance t - 1) r'
          in if balance tree = 0 then (tree, True) else keep_node_balanced tree)
       else (Node (addr t) (left t) y w (balance t) r', False))"

text \<open>What both recursive removals do once a subtree has been shortened, or not.\<close>

definition shrink_left :: "('d, 'r) node \<Rightarrow> ('d, 'r) node \<Rightarrow> bool \<Rightarrow> ('d, 'r) node \<times> bool" where
  "shrink_left t l' shrunk =
    (let tree = Node (addr t) l' (node_d t) (node_r t) (balance t + of_bool shrunk) (right t)
     in if balance t = - 1 then (tree, balance tree = 0) else keep_node_balanced tree)"

definition shrink_right :: "('d, 'r) node \<Rightarrow> ('d, 'r) node \<Rightarrow> bool \<Rightarrow> ('d, 'r) node \<times> bool" where
  "shrink_right t r' shrunk =
    (let tree = Node (addr t) (left t) (node_d t) (node_r t) (balance t - of_bool shrunk) r'
     in if balance t = 1 then (tree, balance tree = 0) else keep_node_balanced tree)"

fun remove_from_tree ::
  "('d \<Rightarrow> 'd \<Rightarrow> bool) \<Rightarrow> 'd \<Rightarrow> ('d, 'r) node \<Rightarrow> ('d, 'r) node \<times> ('d \<times> 'r) \<times> bool" where
  "remove_from_tree cmp x (Node n l y w b rt) =
    (if cmp x y then
       (case remove_from_tree cmp x l of (l', e, s) \<Rightarrow>
          case shrink_left (Node n l y w b rt) l' s of (t, shrunk) \<Rightarrow> (t, e, shrunk))
     else if cmp y x then
       (case remove_from_tree cmp x rt of (r', e, s) \<Rightarrow>
          case shrink_right (Node n l y w b rt) r' s of (t, shrunk) \<Rightarrow> (t, e, shrunk))
     else case remove_here (Node n l y w b rt) of (t, shrunk) \<Rightarrow> (t, (y, w), shrunk))"

text \<open>The version that does not hand the element out.\<close>

fun destroy_from_tree ::
  "('d \<Rightarrow> 'd \<Rightarrow> bool) \<Rightarrow> 'd \<Rightarrow> ('d, 'r) node \<Rightarrow> ('d, 'r) node \<times> bool" where
  "destroy_from_tree cmp x (Node n l y w b rt) =
    (if cmp x y then
       (case destroy_from_tree cmp x l of (l', s) \<Rightarrow> shrink_left (Node n l y w b rt) l' s)
     else if cmp y x then
       (case destroy_from_tree cmp x rt of (r', s) \<Rightarrow> shrink_right (Node n l y w b rt) r' s)
     else remove_here (Node n l y w b rt))"

subsection \<open>Searching\<close>

text \<open>A returned reference is the node's address with the value found there.\<close>

fun return_reference :: "('d \<Rightarrow> 'd \<Rightarrow> bool) \<Rightarrow> ('d, 'r) node \<Rightarrow> 'd \<Rightarrow> (nat \<times> 'r) option" where
  "return_reference cmp Null x = None"
| "return_reference cmp (Node n l y w b rt) x =
    (if cmp x y then return_reference cmp l x
     else if cmp y x then return_reference cmp rt x
     else Some (n, w))"

fun get_count :: "('d \<Rightarrow> 'd \<Rightarrow> bool) \<Rightarrow> 'd \<Rightarrow> ('d, 'r) node \<Rightarrow> nat" where
  "get_count cmp x Null = 0"
| "get_count cmp x (Node n l y w b rt) =
    (if cmp x y then get_count cmp x l
     else if cmp y x then get_count cmp x rt
     else get_count cmp x l + get_count cmp x rt + 1)"

text \<open>The addresses handed to \<open>pool.deallocate\<close>, in order.\<close>

fun delete_tree :: "('d, 'r) node \<Rightarrow> nat list" where
  "delete_tree Null = []"
| "delete_tree (Node n l y w b rt) = delete_tree l @ delete_tree rt @ [n]"

subsection \<open>Shape and contents\<close>

fun ht :: "('d, 'r) node \<Rightarrow> int" where
  "ht Null = 0"
| "ht (Node n l y w b rt) = max (ht l) (ht rt) + 1"

fun avl :: "('d, 'r) node \<Rightarrow> bool" where
  "avl Null \<longleftrightarrow> True"
| "avl (Node n l y w b rt) \<longleftrightarrow> avl l \<and> avl rt \<and> b = ht rt - ht l \<and> - 1 \<le> b \<and> b \<le> 1"

fun inorder :: "('d, 'r) node \<Rightarrow> ('d \<times> 'r) list" where
  "inorder Null = []"
| "inorder (Node n l y w b rt) = inorder l @ (y, w) # inorder rt"

fun addrs :: "('d, 'r) node \<Rightarrow> nat multiset" where
  "addrs Null = {#}"
| "addrs (Node n l y w b rt) = add_mset n (addrs l + addrs rt)"

lemma ht_nonneg [simp]: "0 \<le> ht t"
  by (induction t) auto

lemma ht_Node_pos [simp]: "0 < ht (Node n l y w b rt)"
  using ht_nonneg [of l] by (simp add: max_def)

lemma ht_eq_0 [simp]: "ht t = 0 \<longleftrightarrow> t = Null"
proof (cases t)
  case (Node n l y w b rt)
  then show ?thesis using ht_Node_pos [of n l y w b rt] by (metis less_irrefl node.distinct(1))
qed simp

lemma ht_pos: "0 < ht t \<longleftrightarrow> t \<noteq> Null"
  using ht_nonneg [of t] ht_eq_0 [of t] by (auto simp: order_le_less)

text \<open>One node whose subtrees are in order and whose heights may differ by two.\<close>

lemma keep_node_balanced_correct:
  assumes "avl l" "avl rt" "b = ht rt - ht l" "- 2 \<le> b" "b \<le> 2"
    and "keep_node_balanced (Node n l y w b rt) = (t, s)"
  shows "avl t" "ht t = max (ht l) (ht rt) + 1 - of_bool s" "inorder t = inorder l @ (y, w) # inorder rt"
    "addrs t = add_mset n (addrs l + addrs rt)"
proof -
  consider "b = 2" | "b = - 2" | "- 1 \<le> b \<and> b \<le> 1" using assms(4,5) by linarith
  then have "avl t \<and> ht t = max (ht l) (ht rt) + 1 - of_bool s \<and>
      inorder t = inorder l @ (y, w) # inorder rt \<and> addrs t = add_mset n (addrs l + addrs rt)"
  proof cases
    case 1
    then have "0 < ht rt" using assms(3) ht_nonneg [of l] by linarith
    then obtain n' l' y' w' b' r' where rt: "rt = Node n' l' y' w' b' r'" by (cases rt) auto
    show ?thesis
    proof (cases "b' \<ge> 0")
      case True
      then show ?thesis using 1 assms rt
        by (auto simp: keep_node_balanced_def Let_def ac_simps split: if_splits)
    next
      case False
      then have "0 < ht l'" using assms(2) rt ht_nonneg [of r'] by (simp del: ht_nonneg)
      then obtain m lm ym wm bm rm where "l' = Node m lm ym wm bm rm" by (cases l') auto
      then show ?thesis using 1 assms rt False
        by (auto simp: keep_node_balanced_def Let_def split_balance_def ac_simps)
    qed
  next
    case 2
    then have "0 < ht l" using assms(3) ht_nonneg [of rt] by linarith
    then obtain n' l' y' w' b' r' where l: "l = Node n' l' y' w' b' r'" by (cases l) auto
    show ?thesis
    proof (cases "b' \<le> 0")
      case True
      then show ?thesis using 2 assms l
        by (auto simp: keep_node_balanced_def Let_def ac_simps split: if_splits)
    next
      case False
      then have "0 < ht r'" using assms(1) l ht_nonneg [of l'] by (simp del: ht_nonneg)
      then obtain m lm ym wm bm rm where "r' = Node m lm ym wm bm rm" by (cases r') auto
      then show ?thesis using 2 assms l False
        by (auto simp: keep_node_balanced_def Let_def split_balance_def ac_simps)
    qed
  next
    case 3
    then show ?thesis using assms by (auto simp: keep_node_balanced_def Let_def split: if_splits)
  qed
  then show "avl t" "ht t = max (ht l) (ht rt) + 1 - of_bool s"
    "inorder t = inorder l @ (y, w) # inorder rt" "addrs t = add_mset n (addrs l + addrs rt)"
    by blast+
qed

subsection \<open>Adding\<close>

text \<open>Where a new element goes: after the elements it is not less than.\<close>

fun insert_sorted :: "('d \<Rightarrow> 'd \<Rightarrow> bool) \<Rightarrow> 'd \<Rightarrow> 'r \<Rightarrow> ('d \<times> 'r) list \<Rightarrow> ('d \<times> 'r) list" where
  "insert_sorted cmp x v [] = [(x, v)]"
| "insert_sorted cmp x v ((y, w) # ys) =
    (if cmp x y then (x, v) # (y, w) # ys else (y, w) # insert_sorted cmp x v ys)"

definition ordered :: "('d \<Rightarrow> 'd \<Rightarrow> bool) \<Rightarrow> ('d \<times> 'r) list \<Rightarrow> bool" where
  "ordered cmp xs \<longleftrightarrow> sorted_wrt (\<lambda>p q. \<not> cmp (fst q) (fst p)) xs"

lemma insert_sorted_append_right:
  "(\<forall>p \<in> set xs. \<not> cmp x (fst p)) \<Longrightarrow> insert_sorted cmp x v (xs @ ys) = xs @ insert_sorted cmp x v ys"
  by (induction xs) auto

lemma insert_sorted_append_left:
  "cmp x y \<Longrightarrow> insert_sorted cmp x v (xs @ (y, w) # ys) = insert_sorted cmp x v xs @ (y, w) # ys"
  by (induction xs) auto

lemma mset_insert_sorted [simp]: "mset (insert_sorted cmp x v xs) = add_mset (x, v) (mset xs)"
  by (induction xs) auto

lemma set_insert_sorted [simp]: "set (insert_sorted cmp x v xs) = insert (x, v) (set xs)"
  by (metis mset_insert_sorted set_mset_add_mset_insert set_mset_mset)

lemma add_to_tree_shape:
  assumes "avl t" "add_to_tree cmp a x v t = (t', g)"
  shows "avl t' \<and> ht t' = ht t + of_bool g \<and> addrs t' = add_mset a (addrs t)"
  using assms
proof (induction t arbitrary: t' g)
  case (Node n l y w b rt)
  obtain l' gl r' gr where l: "add_to_tree cmp a x v l = (l', gl)" and r: "add_to_tree cmp a x v rt = (r', gr)"
    by (metis surj_pair)
  note IH = Node.IH(1) [OF _ l] Node.IH(2) [OF _ r]
  show ?case
  proof (cases "cmp x y")
    case True
    obtain t2 s where k: "keep_node_balanced (Node n l' y w (b - of_bool gl) rt) = (t2, s)"
      by (metis surj_pair)
    show ?thesis
      using Node.prems l True IH(1) k keep_node_balanced_correct [of l' rt "b - of_bool gl" n y w t2 s]
      by (cases gl) (auto simp: Let_def max_def split: if_splits)
  next
    case False
    obtain t2 s where k: "keep_node_balanced (Node n l y w (b + of_bool gr) r') = (t2, s)"
      by (metis surj_pair)
    show ?thesis
      using Node.prems r False IH(2) k keep_node_balanced_correct [of l r' "b + of_bool gr" n y w t2 s]
      by (cases gr) (auto simp: Let_def max_def split: if_splits)
  qed
qed auto

lemma ordered_append:
  "ordered cmp (xs @ ys) \<longleftrightarrow>
    ordered cmp xs \<and> ordered cmp ys \<and> (\<forall>p \<in> set xs. \<forall>q \<in> set ys. \<not> cmp (fst q) (fst p))"
  by (auto simp: ordered_def sorted_wrt_append)

lemma ordered_Cons:
  "ordered cmp (p # ys) \<longleftrightarrow> ordered cmp ys \<and> (\<forall>q \<in> set ys. \<not> cmp (fst q) (fst p))"
  by (auto simp: ordered_def)

lemma ordered_inorder_Node:
  "ordered cmp (inorder (Node n l y w b rt)) \<longleftrightarrow>
    ordered cmp (inorder l) \<and> ordered cmp (inorder rt) \<and> (\<forall>p \<in> set (inorder l). \<not> cmp y (fst p)) \<and>
    (\<forall>q \<in> set (inorder rt). \<not> cmp (fst q) y) \<and>
    (\<forall>p \<in> set (inorder l). \<forall>q \<in> set (inorder rt). \<not> cmp (fst q) (fst p))"
  by (auto simp: ordered_append ordered_Cons)

context strict_weak_order
begin

lemma ordered_insert_sorted: "ordered cmp xs \<Longrightarrow> ordered cmp (insert_sorted cmp x v xs)"
proof (induction xs)
  case Nil
  then show ?case by (simp add: ordered_def)
next
  case (Cons p xs)
  obtain y w where p: "p = (y, w)" by (cases p)
  show ?case
  proof (cases "cmp x y")
    case True
    then show ?thesis using Cons.prems p by (auto simp: ordered_Cons dest: asym cmp_not_cmp_trans)
  next
    case False
    then show ?thesis using Cons p by (auto simp: ordered_Cons)
  qed
qed

lemma add_to_tree_inorder:
  assumes "avl t" "ordered cmp (inorder t)" "add_to_tree cmp a x v t = (t', g)"
  shows "inorder t' = insert_sorted cmp x v (inorder t)"
  using assms
proof (induction t arbitrary: t' g)
  case (Node n l y w b rt)
  obtain l' gl r' gr where l: "add_to_tree cmp a x v l = (l', gl)" and r: "add_to_tree cmp a x v rt = (r', gr)"
    by (metis surj_pair)
  note ord = Node.prems(2) [unfolded ordered_inorder_Node]
  show ?case
  proof (cases "cmp x y")
    case True
    obtain t2 s where k: "keep_node_balanced (Node n l' y w (b - of_bool gl) rt) = (t2, s)"
      by (metis surj_pair)
    have "avl l' \<and> ht l' = ht l + of_bool gl" using add_to_tree_shape l Node.prems(1) by fastforce
    then have "inorder t' = inorder l' @ (y, w) # inorder rt"
      using Node.prems(1,3) l True k keep_node_balanced_correct(3) [of l' rt "b - of_bool gl" n y w t2 s]
      by (cases gl) (auto simp: Let_def split: if_splits)
    then show ?thesis
      using Node.IH(1) [OF _ _ l] Node.prems(1) ord True by (simp add: insert_sorted_append_left)
  next
    case False
    obtain t2 s where k: "keep_node_balanced (Node n l y w (b + of_bool gr) r') = (t2, s)"
      by (metis surj_pair)
    have "avl r' \<and> ht r' = ht rt + of_bool gr" using add_to_tree_shape r Node.prems(1) by fastforce
    then have "inorder t' = inorder l @ (y, w) # inorder r'"
      using Node.prems(1,3) r False k keep_node_balanced_correct(3) [of l r' "b + of_bool gr" n y w t2 s]
      by (cases gr) (auto simp: Let_def split: if_splits)
    moreover have "\<forall>p \<in> set (inorder l). \<not> cmp x (fst p)" using ord False not_cmp_trans by blast
    ultimately show ?thesis
      using Node.IH(2) [OF _ _ r] Node.prems(1) ord False by (simp add: insert_sorted_append_right)
  qed
qed auto

end

subsection \<open>Removing\<close>

lemma remove_least_correct:
  assumes "avl t" "t \<noteq> Null" "remove_least_element_in_tree t = (t', e, s)"
  shows "avl t' \<and> ht t' = ht t - of_bool s \<and> inorder t = e # inorder t' \<and>
    (\<exists>a. addrs t = add_mset a (addrs t'))"
  using assms
proof (induction t arbitrary: t' e s)
  case (Node n l y w b rt)
  show ?case
  proof (cases "l = Null")
    case True
    then show ?thesis using Node.prems by auto
  next
    case False
    obtain l' e' s' where l: "remove_least_element_in_tree l = (l', e', s')" by (metis surj_pair)
    obtain t2 s2 where k: "keep_node_balanced (Node n l' y w (b + 1) rt) = (t2, s2)" by (metis surj_pair)
    show ?thesis
      using Node.prems False l Node.IH(1) [OF _ False l] k
        keep_node_balanced_correct [of l' rt "b + 1" n y w t2 s2]
      by (cases s') (auto simp: max_def split: if_splits)
  qed
qed auto

lemma remove_biggest_correct:
  assumes "avl t" "t \<noteq> Null" "remove_biggest_element_in_tree t = (t', e, s)"
  shows "avl t' \<and> ht t' = ht t - of_bool s \<and> inorder t = inorder t' @ [e] \<and>
    (\<exists>a. addrs t = add_mset a (addrs t'))"
  using assms
proof (induction t arbitrary: t' e s)
  case (Node n l y w b rt)
  show ?case
  proof (cases "rt = Null")
    case True
    then show ?thesis using Node.prems by auto
  next
    case False
    obtain r' e' s' where r: "remove_biggest_element_in_tree rt = (r', e', s')" by (metis surj_pair)
    obtain t2 s2 where k: "keep_node_balanced (Node n l y w (b - 1) r') = (t2, s2)" by (metis surj_pair)
    show ?thesis
      using Node.prems False r Node.IH(2) [OF _ False r] k
        keep_node_balanced_correct [of l r' "b - 1" n y w t2 s2]
      by (cases s') (auto simp: max_def split: if_splits)
  qed
qed auto

lemma remove_here_correct:
  assumes "avl (Node n l y w b rt)" "remove_here (Node n l y w b rt) = (t', s)"
  shows "avl t' \<and> ht t' = ht (Node n l y w b rt) - of_bool s \<and> inorder t' = inorder l @ inorder rt \<and>
    (\<exists>a. addrs (Node n l y w b rt) = add_mset a (addrs t'))"
proof (cases "l = Null \<or> rt = Null")
  case True
  then show ?thesis using assms by (auto simp: remove_here_def split: if_splits)
next
  case False
  obtain r' y' w' s' where r: "remove_least_element_in_tree rt = (r', (y', w'), s')" by (metis surj_pair)
  obtain t2 s2 where k: "keep_node_balanced (Node n l y' w' (b - 1) r') = (t2, s2)" by (metis surj_pair)
  show ?thesis
    using assms False r remove_least_correct [OF _ _ r] k
      keep_node_balanced_correct [of l r' "b - 1" n y' w' t2 s2]
    by (cases s') (auto simp: remove_here_def Let_def max_def split: if_splits)
qed

lemma shrink_left_correct:
  assumes "avl (Node n l y w b rt)" "avl l'" "ht l' = ht l - of_bool s"
    and "shrink_left (Node n l y w b rt) l' s = (t', s')"
  shows "avl t' \<and> ht t' = ht (Node n l y w b rt) - of_bool s' \<and>
    inorder t' = inorder l' @ (y, w) # inorder rt \<and> addrs t' = add_mset n (addrs l' + addrs rt)"
proof -
  obtain t2 s2 where "keep_node_balanced (Node n l' y w (b + of_bool s) rt) = (t2, s2)" by (metis surj_pair)
  then show ?thesis using assms keep_node_balanced_correct [of l' rt "b + of_bool s" n y w t2 s2]
    by (cases s) (auto simp: shrink_left_def Let_def max_def split: if_splits)
qed

lemma shrink_right_correct:
  assumes "avl (Node n l y w b rt)" "avl r'" "ht r' = ht rt - of_bool s"
    and "shrink_right (Node n l y w b rt) r' s = (t', s')"
  shows "avl t' \<and> ht t' = ht (Node n l y w b rt) - of_bool s' \<and>
    inorder t' = inorder l @ (y, w) # inorder r' \<and> addrs t' = add_mset n (addrs l + addrs r')"
proof -
  obtain t2 s2 where "keep_node_balanced (Node n l y w (b - of_bool s) r') = (t2, s2)" by (metis surj_pair)
  then show ?thesis using assms keep_node_balanced_correct [of l r' "b - of_bool s" n y w t2 s2]
    by (cases s) (auto simp: shrink_right_def Let_def max_def split: if_splits)
qed

lemma return_reference_Node:
  "return_reference cmp (Node n l y w b rt) x \<noteq> None \<Longrightarrow> cmp x y \<Longrightarrow> return_reference cmp l x \<noteq> None"
  "return_reference cmp (Node n l y w b rt) x \<noteq> None \<Longrightarrow> \<not> cmp x y \<Longrightarrow> cmp y x \<Longrightarrow>
    return_reference cmp rt x \<noteq> None"
  by auto

lemma remove_from_tree_correct:
  assumes "avl t" "return_reference cmp t x \<noteq> None" "remove_from_tree cmp x t = (t', e, s)"
  shows "avl t' \<and> ht t' = ht t - of_bool s \<and> (\<exists>a. addrs t = add_mset a (addrs t')) \<and>
    (\<exists>xs ys. inorder t = xs @ e # ys \<and> inorder t' = xs @ ys) \<and>
    \<not> cmp x (fst e) \<and> \<not> cmp (fst e) x \<and> map_option snd (return_reference cmp t x) = Some (snd e)"
  using assms
proof (induction t arbitrary: t' e s)
  case (Node n l y w b rt)
  have avl: "avl l" "avl rt" using Node.prems(1) by auto
  consider "cmp x y" | "\<not> cmp x y" "cmp y x" | "\<not> cmp x y" "\<not> cmp y x" by blast
  then show ?case
  proof cases
    case 1
    obtain l' e' s' where l: "remove_from_tree cmp x l = (l', e', s')" by (metis surj_pair)
    note IH = Node.IH(1) [OF avl(1) return_reference_Node(1) [OF Node.prems(2) 1] l]
    have sh: "shrink_left (Node n l y w b rt) l' s' = (t', s)" "e = e'"
      using Node.prems(3) 1 l by (auto split: prod.splits)
    from IH obtain xs ys a where "inorder l = xs @ e' # ys" "inorder l' = xs @ ys"
      "addrs l = add_mset a (addrs l')" by auto
    moreover have "inorder t' = inorder l' @ (y, w) # inorder rt"
      using IH shrink_left_correct [OF Node.prems(1) _ _ sh(1)] by blast
    ultimately have "inorder (Node n l y w b rt) = xs @ e # (ys @ (y, w) # inorder rt) \<and>
        inorder t' = xs @ (ys @ (y, w) # inorder rt)" using sh(2) by simp
    then show ?thesis using IH shrink_left_correct [OF Node.prems(1) _ _ sh(1)] 1 sh(2)
      \<open>addrs l = add_mset a (addrs l')\<close> by (simp del: inorder.simps) blast
  next
    case 2
    obtain r' e' s' where r: "remove_from_tree cmp x rt = (r', e', s')" by (metis surj_pair)
    note IH = Node.IH(2) [OF avl(2) return_reference_Node(2) [OF Node.prems(2) 2] r]
    have sh: "shrink_right (Node n l y w b rt) r' s' = (t', s)" "e = e'"
      using Node.prems(3) 2 r by (auto split: prod.splits)
    from IH obtain xs ys a where "inorder rt = xs @ e' # ys" "inorder r' = xs @ ys"
      "addrs rt = add_mset a (addrs r')" by auto
    moreover have "inorder t' = inorder l @ (y, w) # inorder r'"
      using IH shrink_right_correct [OF Node.prems(1) _ _ sh(1)] by blast
    ultimately have "inorder (Node n l y w b rt) = (inorder l @ (y, w) # xs) @ e # ys \<and>
        inorder t' = (inorder l @ (y, w) # xs) @ ys" using sh(2) by simp
    then have "\<exists>xs ys. inorder (Node n l y w b rt) = xs @ e # ys \<and> inorder t' = xs @ ys" by blast
    then show ?thesis using IH shrink_right_correct [OF Node.prems(1) _ _ sh(1)] 2 sh(2)
      \<open>addrs rt = add_mset a (addrs r')\<close> by (simp del: inorder.simps)
  next
    case 3
    then have "remove_here (Node n l y w b rt) = (t', s)" "e = (y, w)"
      using Node.prems(3) by (auto split: prod.splits)
    moreover from this have "\<exists>xs ys. inorder (Node n l y w b rt) = xs @ e # ys \<and> inorder t' = xs @ ys"
      using remove_here_correct [OF Node.prems(1)] by (metis inorder.simps(2))
    ultimately show ?thesis using remove_here_correct [OF Node.prems(1)] 3 by (simp del: inorder.simps)
  qed
qed auto

text \<open>The two removals leave the same tree.\<close>

lemma destroy_from_tree_eq:
  "return_reference cmp t x \<noteq> None \<Longrightarrow> remove_from_tree cmp x t = (t', e, s) \<Longrightarrow>
    destroy_from_tree cmp x t = (t', s)"
proof (induction t arbitrary: t' e s)
  case (Node n l y w b rt)
  then show ?case by (auto split: prod.splits if_splits)
qed simp

subsection \<open>Searching\<close>

context strict_weak_order
begin

lemma return_reference_None:
  assumes "ordered cmp (inorder t)"
  shows "return_reference cmp t x = None \<longleftrightarrow> (\<forall>p \<in> set (inorder t). \<not> equivalent x (fst p))"
  using assms
proof (induction t)
  case (Node n l y w b rt)
  note ord = Node.prems [unfolded ordered_inorder_Node]
  have "\<forall>q \<in> set (inorder rt). \<not> equivalent x (fst q)" if "cmp x y"
    using ord that cmp_not_cmp_trans unfolding equivalent_def by blast
  moreover have "\<forall>p \<in> set (inorder l). \<not> equivalent x (fst p)" if "cmp y x"
    using ord that not_cmp_cmp_trans unfolding equivalent_def by blast
  ultimately show ?case using Node.IH ord by (auto simp: equivalent_def dest: asym)
qed simp

lemma return_reference_value:
  "return_reference cmp t x = Some (a, v) \<Longrightarrow>
    a \<in># addrs t \<and> (\<exists>y. (y, v) \<in> set (inorder t) \<and> equivalent x y)"
  by (induction t) (auto simp: equivalent_def split: if_splits)

lemma get_count_eq:
  assumes "ordered cmp (inorder t)"
  shows "get_count cmp x t = length (filter (\<lambda>p. equivalent x (fst p)) (inorder t))"
  using assms
proof (induction t)
  case (Node n l y w b rt)
  note ord = Node.prems [unfolded ordered_inorder_Node]
  have "filter (\<lambda>p. equivalent x (fst p)) (inorder rt) = []" if "cmp x y"
    using ord that cmp_not_cmp_trans unfolding equivalent_def filter_empty_conv by blast
  moreover have "filter (\<lambda>p. equivalent x (fst p)) (inorder l) = []" if "cmp y x"
    using ord that not_cmp_cmp_trans unfolding equivalent_def filter_empty_conv by blast
  ultimately show ?case using Node.IH ord by (auto simp: equivalent_def dest: asym)
qed simp

end

subsection \<open>How deep a tree can be\<close>

text \<open>The least number of nodes of a tree of height \<open>h\<close>, as for every AVL tree.\<close>

fun min_nodes :: "nat \<Rightarrow> nat" where
  "min_nodes 0 = 0"
| "min_nodes (Suc 0) = 1"
| "min_nodes (Suc (Suc h)) = min_nodes (Suc h) + min_nodes h + 1"

lemma min_nodes_mono_Suc: "min_nodes h \<le> min_nodes (Suc h)"
  by (induction h rule: min_nodes.induct) auto

lemma min_nodes_mono: "h \<le> k \<Longrightarrow> min_nodes h \<le> min_nodes k"
  by (rule lift_Suc_mono_le [of min_nodes, OF min_nodes_mono_Suc])

lemma avl_min_nodes: "avl t \<Longrightarrow> min_nodes (nat (ht t)) \<le> length (inorder t)"
proof (induction t)
  case (Node n l y w b rt)
  let ?a = "nat (ht l)" and ?b = "nat (ht rt)"
  have IH: "min_nodes ?a \<le> length (inorder l)" "min_nodes ?b \<le> length (inorder rt)"
    using Node by auto
  have h: "nat (ht (Node n l y w b rt)) = Suc (max ?a ?b)" using ht_nonneg [of l] ht_nonneg [of rt]
    by (cases "ht l \<le> ht rt") (simp_all add: max_def nat_add_distrib nat_le_eq_zle)
  have "min_nodes (Suc (max ?a ?b)) \<le> min_nodes ?a + min_nodes ?b + 1"
  proof (cases "max ?a ?b")
    case 0
    then show ?thesis by simp
  next
    case (Suc k)
    moreover have "?a = Suc k \<and> k \<le> ?b \<or> ?b = Suc k \<and> k \<le> ?a"
      using Suc Node.prems by (auto simp: max_def split: if_splits)
    ultimately show ?thesis using min_nodes_mono [of k ?a] min_nodes_mono [of k ?b] by auto
  qed
  then show ?case using IH h by simp
qed simp

definition next_min :: "nat \<times> nat \<Rightarrow> nat \<times> nat" where
  "next_min = (\<lambda>(a, b). (b, a + b + 1))"

lemma min_nodes_iterate: "(next_min ^^ h) (0, 1) = (min_nodes h, min_nodes (Suc h))"
  by (induction h) (simp_all add: next_min_def)

lemma next_min_numeral: "(next_min ^^ numeral k) (a, b) = (next_min ^^ pred_numeral k) (b, a + b + 1)"
  by (simp add: numeral_eq_Suc funpow_swap1) (simp add: next_min_def)

lemma min_nodes_51_52: "2 ^ 35 \<le> min_nodes 51" "2 ^ 36 \<le> min_nodes 52"
proof -
  have "(next_min ^^ 51) (0, 1) = (min_nodes 51, min_nodes 52)"
    using min_nodes_iterate [of 51] by simp
  moreover have "(next_min ^^ 51) (0, 1) = (53316291172, 86267571271)"
    by (simp add: next_min_numeral del: One_nat_def) (simp add: next_min_def)
  ultimately show "2 ^ 35 \<le> min_nodes 51" "2 ^ 36 \<le> min_nodes 52" by simp_all
qed

lemma avl_height_bound:
  assumes "avl t" "length (inorder t) < 2 ^ 36"
  shows "ht t \<le> 51"
proof (rule ccontr)
  assume "\<not> ht t \<le> 51"
  then have "min_nodes 52 \<le> min_nodes (nat (ht t))" by (intro min_nodes_mono) simp
  then show False using avl_min_nodes [OF assms(1)] assms(2) min_nodes_51_52(2) by linarith
qed

lemma avl_height_bound_50:
  assumes "avl t" "length (inorder t) < 2 ^ 35"
  shows "ht t \<le> 50"
proof (rule ccontr)
  assume "\<not> ht t \<le> 50"
  then have "min_nodes 51 \<le> min_nodes (nat (ht t))" by (intro min_nodes_mono) simp
  then show False using avl_min_nodes [OF assms(1)] assms(2) min_nodes_51_52(1) by linarith
qed

lemma size_addrs: "size (addrs t) = length (inorder t)"
  by (induction t) auto

lemma delete_tree_addrs: "mset (delete_tree t) = addrs t"
  by (induction t) auto

end
