(* ===== verification/Binary_Search_Tree.thy ===== *)
theory Binary_Search_Tree
  imports Prelude Avl_Tree
begin

text \<open>
  The object of \<open>binary_search_tree_kernel_1.h\<close>: the AVL tree of \<open>Avl_Tree\<close> with its size, its
  height, and the enumerator, which keeps a pointer to the current node and a stack of fifty
  pointers to the nodes above it.  Pointers are node addresses, \<open>None\<close> is the null pointer;
  following a pointer looks the address up in the tree, and a pointer to no node of the tree is
  \<open>Inl Stale_Pointer\<close>.  Pushing onto a full stack and popping an empty one are
  \<open>Inl Out_Of_Bounds\<close>.
\<close>

record ('d, 'r) bst =
  tree_size :: nat
  tree_root :: "('d, 'r) node"
  current_element :: "nat option"
  tree_height :: int
  at_start :: bool
  stack_pos :: nat
  stack :: "nat list"

definition bst_new :: "('d, 'r) bst" where
  "bst_new = \<lparr> tree_size = 0, tree_root = Null, current_element = None, tree_height = 0,
     at_start = True, stack_pos = 0, stack = replicate 50 0 \<rparr>"

fun deref :: "('d, 'r) node \<Rightarrow> nat \<Rightarrow> ('d, 'r) node" where
  "deref Null a = Null"
| "deref (Node n l y w b rt) a =
    (if n = a then Node n l y w b rt
     else case deref l a of Null \<Rightarrow> deref rt a | t \<Rightarrow> t)"

fun pointer :: "('d, 'r) node \<Rightarrow> nat option" where
  "pointer Null = None"
| "pointer (Node n l y w b rt) = Some n"

subsection \<open>The enumerator\<close>

definition bst_reset :: "('d, 'r) bst \<Rightarrow> ('d, 'r) bst" where
  "bst_reset s = s \<lparr> at_start := True, current_element := None, stack_pos := 0 \<rparr>"

definition bst_at_start :: "('d, 'r) bst \<Rightarrow> bool" where
  "bst_at_start s = at_start s"

definition bst_current_element_valid :: "('d, 'r) bst \<Rightarrow> bool" where
  "bst_current_element_valid s \<longleftrightarrow> current_element s \<noteq> None"

definition bst_element :: "('d, 'r) bst \<Rightarrow> ('d \<times> 'r) c" where
  "bst_element s =
    (case current_element s of
       None \<Rightarrow> Inl Null_Deref
     | Some a \<Rightarrow> (case deref (tree_root s) a of
         Null \<Rightarrow> Inl Stale_Pointer
       | Node n l y w b rt \<Rightarrow> Inr (y, w)))"

definition push :: "nat \<Rightarrow> ('d, 'r) bst \<Rightarrow> ('d, 'r) bst c" where
  "push n s =
    (if stack_pos s < length (stack s)
     then Inr (s \<lparr> stack := (stack s)[stack_pos s := n], stack_pos := stack_pos s + 1 \<rparr>)
     else Inl Out_Of_Bounds)"

definition pop :: "('d, 'r) bst \<Rightarrow> (nat \<times> ('d, 'r) bst) c" where
  "pop s =
    (if 0 < stack_pos s \<and> stack_pos s \<le> length (stack s)
     then Inr (stack s ! (stack_pos s - 1), s \<lparr> stack_pos := stack_pos s - 1 \<rparr>)
     else Inl Out_Of_Bounds)"

text \<open>Down the left children, with \<open>current_element\<close> at the given node.\<close>

fun leftmost :: "('d, 'r) node \<Rightarrow> ('d, 'r) bst \<Rightarrow> ('d, 'r) bst c" where
  "leftmost Null s = Inl Null_Deref"
| "leftmost (Node n l y w b rt) s =
    (if l = Null then Inr (s \<lparr> current_element := Some n \<rparr>)
     else c_bind (push n s) (\<lambda>s. leftmost l s))"

text \<open>Up to the popped parent \<open>p\<close> from the child \<open>a\<close>, until a parent is reached from its left.\<close>

function climb :: "nat \<Rightarrow> nat \<Rightarrow> ('d, 'r) bst \<Rightarrow> (bool \<times> ('d, 'r) bst) c" where
  "climb p a s =
    (case deref (tree_root s) p of
       Null \<Rightarrow> Inl Stale_Pointer
     | Node n l y w b rt \<Rightarrow>
         if pointer l = Some a then Inr (True, s \<lparr> current_element := Some p \<rparr>)
         else if Some p = pointer (tree_root s) then Inr (False, s \<lparr> current_element := None \<rparr>)
         else (case pop s of
             Inl e \<Rightarrow> Inl e
           | Inr (q, s') \<Rightarrow> climb q p s'))"
  by pat_completeness auto
termination
  by (relation "measure (\<lambda>(p, a, s). stack_pos s)") (auto simp: pop_def split: if_splits)

declare climb.simps [simp del]

definition bst_move_next :: "('d, 'r) bst \<Rightarrow> (bool \<times> ('d, 'r) bst) c" where
  "bst_move_next s =
    (if at_start s then
       let s = s \<lparr> at_start := False \<rparr> in
       if tree_size s = 0 then Inr (False, s)
       else c_bind (leftmost (tree_root s) s) (\<lambda>s. Inr (True, s))
     else case current_element s of
       None \<Rightarrow> Inr (False, s)
     | Some a \<Rightarrow> (case deref (tree_root s) a of
         Null \<Rightarrow> Inl Stale_Pointer
       | Node n l y w b rt \<Rightarrow>
           if rt \<noteq> Null then c_bind (push a s) (\<lambda>s. c_bind (leftmost rt s) (\<lambda>s. Inr (True, s)))
           else if Some a = pointer (tree_root s) then Inr (False, s \<lparr> current_element := None \<rparr>)
           else c_bind (pop s) (\<lambda>(p, s). climb p a s)))"

text \<open>
  The search of \<open>position_enumerator\<close>: the first flag says whether the element was found, the
  second is \<open>went_left\<close>.
\<close>

fun search_path ::
  "('d \<Rightarrow> 'd \<Rightarrow> bool) \<Rightarrow> 'd \<Rightarrow> ('d, 'r) node \<Rightarrow> bool \<Rightarrow> ('d, 'r) bst \<Rightarrow> (bool \<times> bool \<times> ('d, 'r) bst) c" where
  "search_path cmp x Null went_left s = Inr (False, went_left, s)"
| "search_path cmp x (Node n l y w b rt) went_left s =
    (if cmp x y then c_bind (push n s) (\<lambda>s. search_path cmp x l True s)
     else if cmp y x then c_bind (push n s) (\<lambda>s. search_path cmp x rt False s)
     else Inr (True, went_left, s \<lparr> current_element := Some n \<rparr>))"

definition bst_position_enumerator ::
  "('d \<Rightarrow> 'd \<Rightarrow> bool) \<Rightarrow> 'd \<Rightarrow> ('d, 'r) bst \<Rightarrow> ('d, 'r) bst c" where
  "bst_position_enumerator cmp x s =
    (let s = (bst_reset s) \<lparr> at_start := False \<rparr> in
     c_bind (search_path cmp x (tree_root s) False s) (\<lambda>(found, went_left, s).
       if found then Inr s
       else if stack_pos s > 0 then
         c_bind (pop s) (\<lambda>(p, s).
           let s = s \<lparr> current_element := Some p \<rparr> in
           if went_left then Inr s else c_bind (bst_move_next s) (\<lambda>(_, s). Inr s))
       else Inr s))"

subsection \<open>Adding, removing and looking up\<close>

definition bst_size :: "('d, 'r) bst \<Rightarrow> nat" where "bst_size s = tree_size s"

definition bst_height :: "('d, 'r) bst \<Rightarrow> int" where "bst_height s = tree_height s"

definition bst_count :: "('d \<Rightarrow> 'd \<Rightarrow> bool) \<Rightarrow> 'd \<Rightarrow> ('d, 'r) bst \<Rightarrow> nat" where
  "bst_count cmp x s = get_count cmp x (tree_root s)"

definition bst_index :: "('d \<Rightarrow> 'd \<Rightarrow> bool) \<Rightarrow> ('d, 'r) bst \<Rightarrow> 'd \<Rightarrow> (nat \<times> 'r) option" where
  "bst_index cmp s x = return_reference cmp (tree_root s) x"

text \<open>The addresses given back to the pool come first in the result.\<close>

definition bst_clear :: "('d, 'r) bst \<Rightarrow> nat list \<times> ('d, 'r) bst" where
  "bst_clear s =
    (if tree_size s > 0
     then (delete_tree (tree_root s),
           bst_reset (s \<lparr> tree_root := Null, tree_size := 0, tree_height := 0 \<rparr>))
     else ([], bst_reset s))"

definition bst_delete :: "('d, 'r) bst \<Rightarrow> nat list" where
  "bst_delete s = (if tree_size s \<noteq> 0 then delete_tree (tree_root s) else [])"

definition bst_add :: "('d \<Rightarrow> 'd \<Rightarrow> bool) \<Rightarrow> nat \<Rightarrow> 'd \<Rightarrow> 'r \<Rightarrow> ('d, 'r) bst \<Rightarrow> ('d, 'r) bst" where
  "bst_add cmp a x v s =
    (case add_to_tree cmp a x v (tree_root s) of (t, g) \<Rightarrow>
       bst_reset (s \<lparr> tree_root := t, tree_height := tree_height s + of_bool g,
         tree_size := tree_size s + 1 \<rparr>))"

text \<open>What every removal does with the shorter tree.\<close>

definition removed :: "('d, 'r) node \<Rightarrow> bool \<Rightarrow> ('d, 'r) bst \<Rightarrow> ('d, 'r) bst" where
  "removed t shrunk s = s \<lparr> tree_root := t, tree_height := tree_height s - of_bool shrunk,
     tree_size := tree_size s - 1 \<rparr>"

definition bst_remove :: "('d \<Rightarrow> 'd \<Rightarrow> bool) \<Rightarrow> 'd \<Rightarrow> ('d, 'r) bst \<Rightarrow> ('d \<times> 'r) \<times> ('d, 'r) bst" where
  "bst_remove cmp x s =
    (case remove_from_tree cmp x (tree_root s) of (t, e, sh) \<Rightarrow> (e, bst_reset (removed t sh s)))"

definition bst_destroy :: "('d \<Rightarrow> 'd \<Rightarrow> bool) \<Rightarrow> 'd \<Rightarrow> ('d, 'r) bst \<Rightarrow> ('d, 'r) bst" where
  "bst_destroy cmp x s =
    (case destroy_from_tree cmp x (tree_root s) of (t, sh) \<Rightarrow> bst_reset (removed t sh s))"

definition bst_remove_any :: "('d, 'r) bst \<Rightarrow> ('d \<times> 'r) \<times> ('d, 'r) bst" where
  "bst_remove_any s =
    (case remove_least_element_in_tree (tree_root s) of (t, e, sh) \<Rightarrow> (e, bst_reset (removed t sh s)))"

definition bst_remove_last_in_order :: "('d, 'r) bst \<Rightarrow> ('d \<times> 'r) \<times> ('d, 'r) bst" where
  "bst_remove_last_in_order s =
    (case remove_biggest_element_in_tree (tree_root s) of (t, e, sh) \<Rightarrow> (e, bst_reset (removed t sh s)))"

definition bst_swap :: "('d, 'r) bst \<Rightarrow> ('d, 'r) bst \<Rightarrow> ('d, 'r) bst \<times> ('d, 'r) bst" where
  "bst_swap s item = (item, s)"

text \<open>
  \<open>deserialize\<close>: \<open>n\<close> is the size read from the stream (\<open>None\<close> when it cannot be read), \<open>input\<close>
  the pairs that can still be read from it, each with the address of the node that will hold it;
  a stream that ends early clears the tree and throws.
\<close>

datatype 'a outcome = Thrown 'a | Returned 'a

fun bst_add_all ::
  "('d \<Rightarrow> 'd \<Rightarrow> bool) \<Rightarrow> nat \<Rightarrow> (nat \<times> 'd \<times> 'r) list \<Rightarrow> ('d, 'r) bst \<Rightarrow> ('d, 'r) bst outcome" where
  "bst_add_all cmp 0 input s = Returned s"
| "bst_add_all cmp (Suc n) [] s = Thrown (snd (bst_clear s))"
| "bst_add_all cmp (Suc n) ((a, x, v) # input) s = bst_add_all cmp n input (bst_add cmp a x v s)"

definition bst_deserialize ::
  "('d \<Rightarrow> 'd \<Rightarrow> bool) \<Rightarrow> nat option \<Rightarrow> (nat \<times> 'd \<times> 'r) list \<Rightarrow> ('d, 'r) bst \<Rightarrow> ('d, 'r) bst outcome" where
  "bst_deserialize cmp n input s =
    (let s = snd (bst_clear s) in
     case n of None \<Rightarrow> Thrown (snd (bst_clear s)) | Some n \<Rightarrow> bst_add_all cmp n input s)"

subsection \<open>Removing the current element\<close>

fun fix_stack ::
  "('d \<Rightarrow> 'd \<Rightarrow> bool) \<Rightarrow> nat \<Rightarrow> 'd \<Rightarrow> ('d, 'r) node \<Rightarrow> nat \<Rightarrow> ('d, 'r) bst \<Rightarrow> (bool \<times> ('d, 'r) bst) c" where
  "fix_stack cmp cur x Null depth s = Inr (False, s)"
| "fix_stack cmp cur x (Node n l y w b rt) depth s =
    (if n = cur then Inr (True, s \<lparr> stack_pos := depth \<rparr>)
     else
       c_bind (if \<not> cmp y x then fix_stack cmp cur x l (depth + 1) s else Inr (False, s)) (\<lambda>(found, s).
       if found then
         (if depth < length (stack s) then Inr (True, s \<lparr> stack := (stack s)[depth := n] \<rparr>)
          else Inl Out_Of_Bounds)
       else
         c_bind (if \<not> cmp x y then fix_stack cmp cur x rt (depth + 1) s else Inr (False, s)) (\<lambda>(found, s).
         if found then
           (if depth < length (stack s) then Inr (True, s \<lparr> stack := (stack s)[depth := n] \<rparr>)
            else Inl Out_Of_Bounds)
         else Inr (False, s))))"

definition points_to :: "('d, 'r) bst \<Rightarrow> nat \<Rightarrow> ('d, 'r) node \<Rightarrow> bool" where
  "points_to s i t \<longleftrightarrow> t \<noteq> Null \<and>
    (i < stack_pos s \<and> Some (stack s ! i) = pointer t \<or> pointer t = current_element s)"

fun remove_current_element_from_tree ::
  "('d, 'r) node \<Rightarrow> nat \<Rightarrow> ('d, 'r) bst \<Rightarrow> (('d, 'r) node \<times> ('d \<times> 'r) option \<times> bool \<times> ('d, 'r) bst) c" where
  "remove_current_element_from_tree Null cur_stack_pos s = Inl Null_Deref"
| "remove_current_element_from_tree (Node n l y w b rt) cur_stack_pos s =
    (if Some n = current_element s then
       if l = Null then c_bind (bst_move_next s) (\<lambda>(_, s). Inr (rt, Some (y, w), True, s))
       else if rt = Null then c_bind (bst_move_next s) (\<lambda>(_, s). Inr (l, Some (y, w), True, s))
       else (case remove_here (Node n l y w b rt) of (t, sh) \<Rightarrow> Inr (t, Some (y, w), sh, s))
     else if points_to s cur_stack_pos l then
       c_bind (remove_current_element_from_tree l (cur_stack_pos + 1) s) (\<lambda>(l', e, sh, s).
         case shrink_left (Node n l y w b rt) l' sh of (t, sh') \<Rightarrow> Inr (t, e, sh', s))
     else if points_to s cur_stack_pos rt then
       c_bind (remove_current_element_from_tree rt (cur_stack_pos + 1) s) (\<lambda>(r', e, sh, s).
         case shrink_right (Node n l y w b rt) r' sh of (t, sh') \<Rightarrow> Inr (t, e, sh', s))
     else Inr (Node n l y w b rt, None, False, s))"

definition bst_remove_current_element ::
  "('d \<Rightarrow> 'd \<Rightarrow> bool) \<Rightarrow> ('d, 'r) bst \<Rightarrow> (('d \<times> 'r) option \<times> ('d, 'r) bst) c" where
  "bst_remove_current_element cmp s =
    c_bind (remove_current_element_from_tree (tree_root s) 1 s) (\<lambda>(t, e, sh, s).
    let s = removed t sh s in
    case current_element s of
      None \<Rightarrow> Inr (e, s)
    | Some a \<Rightarrow> (case deref t a of
        Null \<Rightarrow> Inl Stale_Pointer
      | Node n l x w b rt \<Rightarrow> c_bind (fix_stack cmp a x t 0 s) (\<lambda>(_, s). Inr (e, s))))"

subsection \<open>The representation invariant\<close>

text \<open>
  The convention of the class: a balanced tree in order, whose size and height are the stored
  ones, with no node in it twice, and a stack of fifty entries.
\<close>

definition contents :: "('d, 'r) bst \<Rightarrow> ('d \<times> 'r) list" where
  "contents s = inorder (tree_root s)"

definition nodes_distinct :: "('d, 'r) node \<Rightarrow> bool" where
  "nodes_distinct t \<longleftrightarrow> distinct (delete_tree t)"

definition bst_inv :: "('d \<Rightarrow> 'd \<Rightarrow> bool) \<Rightarrow> ('d, 'r) bst \<Rightarrow> bool" where
  "bst_inv cmp s \<longleftrightarrow> avl (tree_root s) \<and> ordered cmp (contents s) \<and> nodes_distinct (tree_root s) \<and>
    tree_size s = length (contents s) \<and> tree_height s = ht (tree_root s) \<and> length (stack s) = 50"

lemma set_delete_tree: "set (delete_tree t) = set_mset (addrs t)"
  by (metis delete_tree_addrs set_mset_mset)

lemma nodes_distinct_iff: "nodes_distinct t \<longleftrightarrow> (\<forall>a. count (addrs t) a \<le> 1)"
proof -
  have "nodes_distinct t \<longleftrightarrow> (\<forall>a. count (mset (delete_tree t)) a = (if a \<in> set (delete_tree t) then 1 else 0))"
    unfolding nodes_distinct_def by (rule distinct_count_atmost_1)
  also have "\<dots> \<longleftrightarrow> (\<forall>a. count (addrs t) a \<le> 1)"
    by (auto simp: delete_tree_addrs set_delete_tree le_Suc_eq count_eq_zero_iff)
  finally show ?thesis .
qed

lemma bst_reset_simps [simp]:
  "tree_root (bst_reset s) = tree_root s" "tree_size (bst_reset s) = tree_size s"
  "tree_height (bst_reset s) = tree_height s" "stack (bst_reset s) = stack s"
  "at_start (bst_reset s)" "stack_pos (bst_reset s) = 0" "contents (bst_reset s) = contents s"
  by (simp_all add: bst_reset_def contents_def)

lemma bst_inv_reset [simp]: "bst_inv cmp (bst_reset s) \<longleftrightarrow> bst_inv cmp s"
  by (simp add: bst_inv_def)

lemma bst_new_inv: "bst_inv cmp bst_new"
  by (simp add: bst_inv_def bst_new_def contents_def ordered_def nodes_distinct_def)

lemma ordered_delete: "ordered cmp (xs @ e # ys) \<Longrightarrow> ordered cmp (xs @ ys)"
  by (auto simp: ordered_append ordered_Cons)

lemma removed_inv:
  assumes "bst_inv cmp s" "avl t" "ht t = ht (tree_root s) - of_bool sh"
    and "contents s = xs @ e # ys" "inorder t = xs @ ys" "addrs (tree_root s) = add_mset a (addrs t)"
  shows "bst_inv cmp (bst_reset (removed t sh s)) \<and> contents (bst_reset (removed t sh s)) = xs @ ys"
proof -
  have "count (addrs t) b \<le> 1" for b
  proof -
    have "count (addrs t) b \<le> count (addrs (tree_root s)) b" using assms(6) by simp
    also have "\<dots> \<le> 1" using assms(1) by (simp add: bst_inv_def nodes_distinct_iff)
    finally show ?thesis .
  qed
  then have "nodes_distinct t" by (simp add: nodes_distinct_iff)
  then show ?thesis using assms ordered_delete [of cmp xs e ys]
    by (auto simp: bst_inv_def removed_def contents_def)
qed

context strict_weak_order
begin

lemma bst_add_law:
  assumes "bst_inv cmp s" "a \<notin># addrs (tree_root s)"
  shows "bst_inv cmp (bst_add cmp a x v s) \<and>
    contents (bst_add cmp a x v s) = insert_sorted cmp x v (contents s)"
proof -
  obtain t g where t: "add_to_tree cmp a x v (tree_root s) = (t, g)" by (metis surj_pair)
  have inv: "avl (tree_root s)" "ordered cmp (inorder (tree_root s))"
    using assms(1) by (simp_all add: bst_inv_def contents_def)
  note shape = add_to_tree_shape [OF inv(1) t] add_to_tree_inorder [OF inv t]
  moreover have "nodes_distinct t" using shape assms by (auto simp: bst_inv_def nodes_distinct_iff count_eq_zero_iff)
  moreover have "length (insert_sorted cmp x v xs) = Suc (length xs)" for xs
    by (metis mset_insert_sorted size_add_mset size_mset)
  ultimately show ?thesis using assms(1) t ordered_insert_sorted [OF inv(2), of x v]
    by (simp add: bst_inv_def bst_add_def contents_def)
qed

lemma bst_remove_law:
  assumes "bst_inv cmp s" "bst_index cmp s x \<noteq> None" "bst_remove cmp x s = (e, s')"
  shows "bst_inv cmp s' \<and> equivalent x (fst e) \<and>
    (\<exists>xs ys. contents s = xs @ e # ys \<and> contents s' = xs @ ys)"
proof -
  obtain t sh where t: "remove_from_tree cmp x (tree_root s) = (t, e, sh)"
    and s': "s' = bst_reset (removed t sh s)"
    using assms(3) by (auto simp: bst_remove_def split: prod.splits)
  have avl: "avl (tree_root s)" using assms(1) by (simp add: bst_inv_def)
  note c = remove_from_tree_correct [OF avl assms(2) [unfolded bst_index_def] t]
  then obtain xs ys a where "contents s = xs @ e # ys" "inorder t = xs @ ys"
    "addrs (tree_root s) = add_mset a (addrs t)" by (auto simp: contents_def)
  then show ?thesis using removed_inv [OF assms(1), of t sh] c s' by (auto simp: equivalent_def)
qed

lemma bst_remove_any_law:
  assumes "bst_inv cmp s" "tree_size s \<noteq> 0" "bst_remove_any s = (e, s')"
  shows "bst_inv cmp s' \<and> contents s = e # contents s'"
proof -
  obtain t sh where t: "remove_least_element_in_tree (tree_root s) = (t, e, sh)"
    and s': "s' = bst_reset (removed t sh s)"
    using assms(3) by (auto simp: bst_remove_any_def split: prod.splits)
  have "avl (tree_root s)" "tree_root s \<noteq> Null" using assms(1,2) by (auto simp: bst_inv_def contents_def)
  note c = remove_least_correct [OF this t]
  then obtain a where "addrs (tree_root s) = add_mset a (addrs t)" by auto
  then show ?thesis using removed_inv [OF assms(1), of t sh "[]" e] c s' by (auto simp: contents_def)
qed

lemma bst_remove_last_law:
  assumes "bst_inv cmp s" "tree_size s \<noteq> 0" "bst_remove_last_in_order s = (e, s')"
  shows "bst_inv cmp s' \<and> contents s = contents s' @ [e]"
proof -
  obtain t sh where t: "remove_biggest_element_in_tree (tree_root s) = (t, e, sh)"
    and s': "s' = bst_reset (removed t sh s)"
    using assms(3) by (auto simp: bst_remove_last_in_order_def split: prod.splits)
  have "avl (tree_root s)" "tree_root s \<noteq> Null" using assms(1,2) by (auto simp: bst_inv_def contents_def)
  note c = remove_biggest_correct [OF this t]
  then obtain a where "addrs (tree_root s) = add_mset a (addrs t)" by auto
  then show ?thesis using removed_inv [OF assms(1), of t sh _ e "[]"] c s' by (auto simp: contents_def)
qed

lemma bst_destroy_law:
  assumes "bst_index cmp s x \<noteq> None"
  shows "bst_destroy cmp x s = snd (bst_remove cmp x s)"
  using destroy_from_tree_eq [of cmp "tree_root s" x] assms
  by (auto simp: bst_destroy_def bst_remove_def bst_index_def split: prod.splits)

lemma bst_index_law:
  assumes "bst_inv cmp s"
  shows "bst_index cmp s x = None \<longleftrightarrow> (\<forall>p \<in> set (contents s). \<not> equivalent x (fst p))"
  using return_reference_None assms by (auto simp: bst_inv_def contents_def bst_index_def)

lemma bst_count_law:
  assumes "bst_inv cmp s"
  shows "bst_count cmp x s = length (filter (\<lambda>p. equivalent x (fst p)) (contents s))"
  using get_count_eq assms by (auto simp: bst_inv_def contents_def bst_count_def)

end

lemma bst_clear_law:
  assumes "bst_inv cmp s"
  shows "bst_inv cmp (snd (bst_clear s)) \<and> contents (snd (bst_clear s)) = [] \<and>
    mset (fst (bst_clear s)) = addrs (tree_root s)"
  using assms by (auto simp: bst_clear_def bst_inv_def contents_def delete_tree_addrs ordered_def
      nodes_distinct_def) (cases "tree_root s"; auto)+

subsection \<open>Where the enumerator stands\<close>

text \<open>
  A position in a tree is the subtree at the current node and the nodes above it, innermost
  first, each with the side on which the position lies and the rest of that node.
\<close>

datatype ('d, 'r) crumb =
    LeftOf nat 'd 'r int "('d, 'r) node"
  | RightOf nat "('d, 'r) node" 'd 'r int

fun plug :: "('d, 'r) crumb list \<Rightarrow> ('d, 'r) node \<Rightarrow> ('d, 'r) node" where
  "plug [] t = t"
| "plug (LeftOf n y w b rt # cs) t = plug cs (Node n t y w b rt)"
| "plug (RightOf n l y w b # cs) t = plug cs (Node n l y w b t)"

fun crumb_addr :: "('d, 'r) crumb \<Rightarrow> nat" where
  "crumb_addr (LeftOf n y w b rt) = n"
| "crumb_addr (RightOf n l y w b) = n"

fun before :: "('d, 'r) crumb list \<Rightarrow> ('d \<times> 'r) list" where
  "before [] = []"
| "before (LeftOf n y w b rt # cs) = before cs"
| "before (RightOf n l y w b # cs) = before cs @ inorder l @ [(y, w)]"

fun after :: "('d, 'r) crumb list \<Rightarrow> ('d \<times> 'r) list" where
  "after [] = []"
| "after (LeftOf n y w b rt # cs) = (y, w) # inorder rt @ after cs"
| "after (RightOf n l y w b # cs) = after cs"

lemma inorder_plug: "inorder (plug cs t) = before cs @ inorder t @ after cs"
  by (induction cs t rule: plug.induct) auto

lemma plug_Null: "plug cs t = Null \<Longrightarrow> t = Null"
  by (induction cs t rule: plug.induct) auto

lemma addrs_plug_mono: "addrs t \<subseteq># addrs (plug cs t)"
proof (induction cs t rule: plug.induct)
  case (2 n y w b rt cs t)
  have "addrs t \<subseteq># addrs (Node n t y w b rt)" by (simp add: subseteq_mset_def)
  also note 2
  finally show ?case by simp
next
  case (3 n l y w b cs t)
  have "addrs t \<subseteq># addrs (Node n l y w b t)" by (simp add: subseteq_mset_def)
  also note 3
  finally show ?case by simp
qed simp

lemma nodes_distinct_plug: "nodes_distinct (plug cs t) \<Longrightarrow> nodes_distinct t"
  using addrs_plug_mono [of t cs] unfolding nodes_distinct_iff
  by (meson mset_subset_eq_count order_trans)

lemma deref_Null: "a \<notin># addrs t \<Longrightarrow> deref t a = Null"
  by (induction t) auto

lemma deref_in: "deref t a \<noteq> Null \<Longrightarrow> a \<in># addrs t"
  using deref_Null by blast

lemma nodes_distinct_Node:
  assumes "nodes_distinct (Node n l y w b rt)"
  shows "n \<notin># addrs l" "n \<notin># addrs rt" "\<And>a. a \<in># addrs l \<Longrightarrow> a \<notin># addrs rt"
    "nodes_distinct l" "nodes_distinct rt"
  using assms by (auto simp: nodes_distinct_def set_delete_tree)

lemma deref_plug:
  "nodes_distinct (plug cs t) \<Longrightarrow> deref t a \<noteq> Null \<Longrightarrow> deref (plug cs t) a = deref t a"
proof (induction cs t rule: plug.induct)
  case (2 n y w b rt cs t)
  have d: "nodes_distinct (Node n t y w b rt)" using nodes_distinct_plug 2(2) by (metis plug.simps(2))
  have "a \<in># addrs t" using 2(3) by (rule deref_in)
  then have "n \<noteq> a" using nodes_distinct_Node(1) [OF d] by blast
  then have "deref (Node n t y w b rt) a = deref t a" using 2(3) by (auto split: node.splits)
  then show ?case using 2 by simp
next
  case (3 n l y w b cs t)
  have d: "nodes_distinct (Node n l y w b t)" using nodes_distinct_plug 3(2) by (metis plug.simps(3))
  have "a \<in># addrs t" using 3(3) by (rule deref_in)
  then have "n \<noteq> a" "a \<notin># addrs l" using nodes_distinct_Node [OF d] by blast+
  then have "deref (Node n l y w b t) a = deref t a" by (simp add: deref_Null)
  then show ?case using 3 by simp
qed simp

lemma deref_root: "deref (Node n l y w b rt) n = Node n l y w b rt"
  by simp

lemma plug_height: "int (length cs) + ht t \<le> ht (plug cs t)"
proof (induction cs t rule: plug.induct)
  case (2 n y w b rt cs t)
  then show ?case by simp
next
  case (3 n l y w b cs t)
  then show ?case by simp
qed simp

lemma plug_root:
  assumes "nodes_distinct (plug cs t)" "cs \<noteq> []" "t \<noteq> Null"
  shows "pointer (plug cs t) \<noteq> pointer t"
proof
  assume e: "pointer (plug cs t) = pointer t"
  obtain n l y w b rt where t: "t = Node n l y w b rt" using assms(3) by (cases t) auto
  have "deref (plug cs t) n = t" using deref_plug [OF assms(1), of n] t by simp
  moreover have "deref (plug cs t) n = plug cs t"
    using e t by (cases "plug cs t") auto
  ultimately have "ht (plug cs t) = ht t" by simp
  then show False using plug_height [of cs t] assms(2) by simp
qed

text \<open>The stack holds the addresses of the nodes above the position, the outermost first.\<close>

definition stack_is :: "('d, 'r) bst \<Rightarrow> ('d, 'r) crumb list \<Rightarrow> bool" where
  "stack_is s cs \<longleftrightarrow> stack_pos s = length cs \<and> length (stack s) = 50 \<and> length cs \<le> 50 \<and>
    take (length cs) (stack s) = rev (map crumb_addr cs)"

lemma stack_is_push:
  assumes "stack_is s cs" "length cs < 50" "crumb_addr c = n"
  obtains s' where "push n s = Inr s'" "stack_is s' (c # cs)" "tree_root s' = tree_root s"
    "tree_size s' = tree_size s" "at_start s' = at_start s" "current_element s' = current_element s"
    "tree_height s' = tree_height s"
proof -
  have "take (Suc (length cs)) ((stack s)[length cs := n]) = rev (map crumb_addr cs) @ [n]"
    using assms by (simp add: stack_is_def take_Suc_conv_app_nth)
  then show thesis using assms that by (simp add: push_def stack_is_def)
qed

lemma stack_is_pop:
  assumes "stack_is s (c # cs)"
  shows "pop s = Inr (crumb_addr c, s \<lparr> stack_pos := length cs \<rparr>)" "stack_is (s \<lparr> stack_pos := length cs \<rparr>) cs"
proof -
  have tk: "take (Suc (length cs)) (stack s) = rev (map crumb_addr cs) @ [crumb_addr c]" "length cs < length (stack s)"
    using assms by (auto simp: stack_is_def)
  then have "stack s ! length cs = crumb_addr c"
    by (metis length_map length_rev nth_append_length nth_take lessI)
  then show "pop s = Inr (crumb_addr c, s \<lparr> stack_pos := length cs \<rparr>)"
    using assms by (simp add: pop_def stack_is_def)
  have "take (length cs) (stack s) = take (length cs) (take (Suc (length cs)) (stack s))" by simp
  then show "stack_is (s \<lparr> stack_pos := length cs \<rparr>) cs" using tk assms by (simp add: stack_is_def)
qed

definition at_position :: "('d, 'r) bst \<Rightarrow> ('d, 'r) crumb list \<Rightarrow> ('d, 'r) node \<Rightarrow> bool" where
  "at_position s cs t \<longleftrightarrow> tree_root s = plug cs t \<and> t \<noteq> Null \<and> current_element s = pointer t \<and>
    stack_is s cs \<and> \<not> at_start s"

text \<open>The parts of the object that moving the enumerator leaves alone.\<close>

definition same_tree :: "('d, 'r) bst \<Rightarrow> ('d, 'r) bst \<Rightarrow> bool" where
  "same_tree s s' \<longleftrightarrow> tree_root s' = tree_root s \<and> tree_size s' = tree_size s \<and>
    tree_height s' = tree_height s \<and> length (stack s') = length (stack s)"

lemma same_tree_trans: "same_tree s s' \<Longrightarrow> same_tree s' s'' \<Longrightarrow> same_tree s s''"
  by (simp add: same_tree_def)

lemma same_tree_inv: "same_tree s s' \<Longrightarrow> bst_inv cmp s' \<longleftrightarrow> bst_inv cmp s"
  by (simp add: same_tree_def bst_inv_def contents_def)

lemma leftmost_position:
  assumes "tree_root s = plug cs t" "t \<noteq> Null" "stack_is s cs" "\<not> at_start s" "int (length cs) + ht t \<le> 51"
  shows "\<exists>s' cs' t'. leftmost t s = Inr s' \<and> at_position s' cs' t' \<and> same_tree s s' \<and> left t' = Null \<and>
    before cs' = before cs"
  using assms
proof (induction t arbitrary: s cs)
  case (Node n l y w b rt)
  show ?case
  proof (cases "l = Null")
    case True
    then show ?thesis using Node.prems
      by (intro exI [of _ "s \<lparr> current_element := Some n \<rparr>"] exI [of _ cs] exI [of _ "Node n l y w b rt"])
        (simp add: at_position_def same_tree_def stack_is_def)
  next
    case False
    then have "0 < ht l" by (simp add: ht_pos)
    then have len: "length cs < 50" "int (length (LeftOf n y w b rt # cs)) + ht l \<le> 51"
      using Node.prems(5) by simp_all
    obtain s1 where s1: "push n s = Inr s1" "stack_is s1 (LeftOf n y w b rt # cs)"
      "tree_root s1 = tree_root s" "tree_size s1 = tree_size s" "at_start s1 = at_start s"
      "tree_height s1 = tree_height s"
      using stack_is_push [OF Node.prems(3) len(1), of "LeftOf n y w b rt" n] by auto
    have st: "same_tree s s1" using s1 Node.prems(3) by (simp add: same_tree_def stack_is_def)
    show ?thesis
      using Node.IH(1) [of s1 "LeftOf n y w b rt # cs"] s1 Node.prems False len(2)
        same_tree_trans [OF st] by auto
  qed
qed simp

text \<open>
  Climbing from a finished subtree stops at the next element in order, or falls off the root
  when there is none.
\<close>

lemma climb_position:
  assumes "tree_root s = plug (c # cs) t" "t \<noteq> Null" "stack_is s cs" "\<not> at_start s"
    "nodes_distinct (tree_root s)" "pointer t = Some a"
  shows "if after (c # cs) = []
    then \<exists>s'. climb (crumb_addr c) a s = Inr (False, s') \<and> same_tree s s' \<and> current_element s' = None \<and> \<not> at_start s'
    else \<exists>s' cs' t'. climb (crumb_addr c) a s = Inr (True, s') \<and> same_tree s s' \<and> at_position s' cs' t' \<and>
      before cs' @ inorder (left t') = before (c # cs) @ inorder t"
  using assms
proof (induction cs arbitrary: c t a s)
  case (Nil c t a s)
  show ?case
  proof (cases c)
    case (LeftOf n y w b rt)
    then show ?thesis using Nil by (subst climb.simps) (auto simp: at_position_def same_tree_def stack_is_def
        intro!: exI [of _ "[]"] exI [of _ "Node n t y w b rt"])
  next
    case (RightOf n l y w b)
    have "pointer l \<noteq> Some a"
    proof
      assume "pointer l = Some a"
      then have "a \<in># addrs l" by (cases l) auto
      moreover have "a \<in># addrs t" using Nil.prems(6) by (cases t) auto
      ultimately show False using nodes_distinct_Node(3) [of n l y w b t a] Nil.prems RightOf by simp
    qed
    then show ?thesis using Nil.prems RightOf by (subst climb.simps) (auto simp: same_tree_def)
  qed
next
  case (Cons c' cs c t a s)
  let ?T = "case c of LeftOf n y w b rt \<Rightarrow> Node n t y w b rt | RightOf n l y w b \<Rightarrow> Node n l y w b t"
  have root: "tree_root s = plug (c' # cs) ?T" "?T \<noteq> Null" "pointer ?T = Some (crumb_addr c)"
    using Cons.prems(1) by (cases c; simp)+
  have d: "deref (tree_root s) (crumb_addr c) = ?T"
    using deref_plug [of "c' # cs" ?T "crumb_addr c"] Cons.prems(5) root by (cases c) auto
  have nr: "pointer (tree_root s) \<noteq> Some (crumb_addr c)"
    using plug_root [of "c' # cs" ?T] Cons.prems(5) root by simp
  show ?case
  proof (cases c)
    case (LeftOf n y w b rt)
    have "at_position (s \<lparr> current_element := Some n \<rparr>) (c' # cs) (Node n t y w b rt)"
      using root LeftOf Cons.prems(3,4) by (simp add: at_position_def stack_is_def)
    then show ?thesis using d LeftOf Cons.prems(6)
      by (subst climb.simps) (auto simp: same_tree_def intro!: exI [of _ "c' # cs"] exI [of _ "Node n t y w b rt"])
  next
    case (RightOf n l y w b)
    have nd: "nodes_distinct (Node n l y w b t)"
      using nodes_distinct_plug [of "c' # cs" ?T] root(1) Cons.prems(5) RightOf by simp
    have "pointer l \<noteq> Some a"
    proof
      assume "pointer l = Some a"
      then have "a \<in># addrs l" by (cases l) auto
      moreover have "a \<in># addrs t" using Cons.prems(6) by (cases t) auto
      ultimately show False using nodes_distinct_Node(3) [OF nd] by simp
    qed
    then have step: "climb (crumb_addr c) a s = climb (crumb_addr c') n (s \<lparr> stack_pos := length cs \<rparr>)"
      using d RightOf nr stack_is_pop(1) [OF Cons.prems(3)] by (subst climb.simps) simp
    have st: "same_tree s (s \<lparr> stack_pos := length cs \<rparr>)" by (simp add: same_tree_def)
    show ?thesis
      using Cons.IH [of "s \<lparr> stack_pos := length cs \<rparr>" c' ?T n] root RightOf Cons.prems(4,5)
        stack_is_pop(2) [OF Cons.prems(3)] same_tree_trans [OF st] unfolding step by (auto split: if_splits)
  qed
qed

subsection \<open>Moving the enumerator\<close>

text \<open>The enumerator stands on the element with index \<open>k\<close>.\<close>

definition enum_at :: "('d, 'r) bst \<Rightarrow> nat \<Rightarrow> bool" where
  "enum_at s k \<longleftrightarrow> (\<exists>cs t. at_position s cs t \<and> length (before cs @ inorder (left t)) = k)"

lemma enum_atI: "at_position s cs t \<Longrightarrow> enum_at s (length (before cs @ inorder (left t)))"
  by (auto simp: enum_at_def)

lemma at_position_contents:
  assumes "at_position s cs t"
  shows "contents s = (before cs @ inorder (left t)) @ (node_d t, node_r t) # inorder (right t) @ after cs"
  using assms by (cases t) (auto simp: at_position_def contents_def inorder_plug)

lemma enum_at_less: "enum_at s k \<Longrightarrow> k < length (contents s)"
  by (auto simp: enum_at_def at_position_contents)

lemma bst_element_at:
  assumes "enum_at s k" "nodes_distinct (tree_root s)"
  shows "bst_element s = Inr (contents s ! k)"
proof -
  obtain cs t where p: "at_position s cs t" "length (before cs @ inorder (left t)) = k"
    using assms(1) by (auto simp: enum_at_def)
  obtain n l y w b rt where t: "t = Node n l y w b rt" using p(1) by (cases t) (auto simp: at_position_def)
  have "deref (tree_root s) n = t"
    using deref_plug [of cs t n] assms(2) p(1) t by (auto simp: at_position_def)
  moreover have "contents s ! k = (y, w)"
    unfolding at_position_contents [OF p(1)] p(2) [symmetric] nth_append_length using t by simp
  ultimately show ?thesis using p(1) t by (simp add: bst_element_def at_position_def)
qed

lemma bst_move_next_step:
  assumes "bst_inv cmp s" "tree_size s < 2 ^ 36" "enum_at s k"
  shows "if Suc k < tree_size s
    then \<exists>s'. bst_move_next s = Inr (True, s') \<and> same_tree s s' \<and> enum_at s' (Suc k)
    else \<exists>s'. bst_move_next s = Inr (False, s') \<and> same_tree s s' \<and> current_element s' = None \<and> \<not> at_start s'"
proof -
  obtain cs t where p: "at_position s cs t" "length (before cs @ inorder (left t)) = k"
    using assms(3) by (auto simp: enum_at_def)
  obtain n l y w b rt where t: "t = Node n l y w b rt" using p(1) by (cases t) (auto simp: at_position_def)
  have root: "tree_root s = plug cs t" "stack_is s cs" "\<not> at_start s" "current_element s = Some n"
    using p(1) t by (auto simp: at_position_def)
  have nd: "nodes_distinct (tree_root s)" and size_eq: "tree_size s = length (contents s)"
    using assms(1) by (auto simp: bst_inv_def)
  have d: "deref (tree_root s) n = t" using deref_plug [of cs t n] nd root t by auto
  have h: "int (length cs) + ht t \<le> 51"
    using plug_height [of cs t] avl_height_bound [of "tree_root s"] assms(1,2) root(1)
    by (auto simp: bst_inv_def contents_def)
  have cont: "contents s = (before cs @ inorder l) @ (y, w) # inorder rt @ after cs"
    using at_position_contents [OF p(1)] t by simp
  show ?thesis
  proof (cases "rt = Null")
    case False
    then have "0 < ht rt" by (simp add: ht_pos)
    then have len: "length cs < 50" "int (length (RightOf n l y w b # cs)) + ht rt \<le> 51"
      using h t by simp_all
    obtain s1 where s1: "push n s = Inr s1" "stack_is s1 (RightOf n l y w b # cs)"
      "tree_root s1 = tree_root s" "tree_size s1 = tree_size s" "at_start s1 = at_start s"
      "tree_height s1 = tree_height s"
      using stack_is_push [OF root(2) len(1), of "RightOf n l y w b" n] by auto
    have st: "same_tree s s1" using s1 root(2) by (simp add: same_tree_def stack_is_def)
    obtain s2 cs' t' where s2: "leftmost rt s1 = Inr s2" "at_position s2 cs' t'" "same_tree s1 s2"
      "left t' = Null" "before cs' = before (RightOf n l y w b # cs)"
      using leftmost_position [of s1 "RightOf n l y w b # cs" rt] s1 root t False len(2) by auto
    have "bst_move_next s = Inr (True, s2)"
      using root d t False s1(1) s2(1) by (simp add: bst_move_next_def)
    moreover have "enum_at s2 (Suc k)"
      using s2(2,4,5) p(2) t by (auto simp: enum_at_def intro!: exI [of _ cs'] exI [of _ t'])
    moreover have "Suc k < tree_size s" using size_eq cont p(2) t False by (cases rt) auto
    ultimately show ?thesis using same_tree_trans [OF st s2(3)] by auto
  next
    case rt: True
    show ?thesis
    proof (cases cs)
      case Nil
      have "bst_move_next s = Inr (False, s \<lparr> current_element := None \<rparr>)"
        using root d t rt Nil by (simp add: bst_move_next_def)
      then show ?thesis using size_eq cont p(2) t rt Nil root(3) by (simp add: same_tree_def)
    next
      case (Cons c cs')
      have nr: "pointer (tree_root s) \<noteq> Some n" using plug_root [of cs t] nd root(1) Cons t by simp
      have stk: "stack_is s (c # cs')" using root(2) Cons by simp
      let ?s = "s \<lparr> stack_pos := length cs' \<rparr>"
      have mv: "bst_move_next s = climb (crumb_addr c) n ?s"
        using root d t rt nr stack_is_pop(1) [OF stk] by (simp add: bst_move_next_def)
      have st: "same_tree s ?s" by (simp add: same_tree_def)
      have "before (c # cs') @ inorder t = (before cs @ inorder l) @ [(y, w)]" using Cons t rt by simp
      moreover have "length ((before cs @ inorder l) @ [(y, w)]) = Suc k" using p(2) t by simp
      ultimately have pos: "length (before cs'' @ inorder (left t'')) = Suc k"
        if "before cs'' @ inorder (left t'') = before (c # cs') @ inorder t" for cs'' t''
        using that by simp
      have more: "Suc k < tree_size s \<longleftrightarrow> after (c # cs') \<noteq> []"
        using size_eq cont p(2) t rt Cons by (cases "after (c # cs')") auto
      note cl = climb_position [of ?s c cs' t n]
      have pre: "tree_root ?s = plug (c # cs') t" "t \<noteq> Null" "\<not> at_start ?s" "nodes_distinct (tree_root ?s)"
        "pointer t = Some n" using root t Cons nd by simp_all
      show ?thesis
      proof (cases "after (c # cs') = []")
        case True
        then show ?thesis using cl pre stack_is_pop(2) [OF stk] same_tree_trans [OF st] more
          unfolding mv by auto
      next
        case False
        then obtain s' cs'' t'' where "climb (crumb_addr c) n ?s = Inr (True, s')" "same_tree ?s s'"
          "at_position s' cs'' t''" "before cs'' @ inorder (left t'') = before (c # cs') @ inorder t"
          using cl pre stack_is_pop(2) [OF stk] by auto
        then have "climb (crumb_addr c) n ?s = Inr (True, s') \<and> same_tree s s' \<and> enum_at s' (Suc k)"
          using same_tree_trans [OF st] pos unfolding enum_at_def by blast
        then show ?thesis using more False unfolding mv by auto
      qed
    qed
  qed
qed

lemma bst_move_next_first:
  assumes "bst_inv cmp s" "tree_size s < 2 ^ 36" "at_start s" "stack_pos s = 0"
  shows "if 0 < tree_size s
    then \<exists>s'. bst_move_next s = Inr (True, s') \<and> same_tree s s' \<and> enum_at s' 0
    else \<exists>s'. bst_move_next s = Inr (False, s') \<and> same_tree s s'"
proof (cases "tree_size s = 0")
  case True
  then show ?thesis using assms(3) by (simp add: bst_move_next_def same_tree_def)
next
  case False
  let ?s = "s \<lparr> at_start := False \<rparr>"
  have "tree_root s \<noteq> Null" "ht (tree_root s) \<le> 51" "length (stack s) = 50"
    using assms(1,2) False avl_height_bound [of "tree_root s"] by (auto simp: bst_inv_def contents_def)
  then obtain s' cs t where "leftmost (tree_root s) ?s = Inr s'" "at_position s' cs t" "same_tree ?s s'"
    "left t = Null" "before cs = []"
    using leftmost_position [of ?s "[]" "tree_root s"] assms(4) by (auto simp: stack_is_def)
  then show ?thesis using False assms(3)
    by (auto simp: bst_move_next_def same_tree_def enum_at_def intro!: exI [of _ cs] exI [of _ t])
qed

text \<open>Calling \<open>move_next\<close> and \<open>element\<close> in turn, at most \<open>n\<close> times.\<close>

fun enumerate_bst :: "nat \<Rightarrow> ('d, 'r) bst \<Rightarrow> ('d \<times> 'r) list c" where
  "enumerate_bst 0 s = Inr []"
| "enumerate_bst (Suc n) s = c_bind (bst_move_next s) (\<lambda>(more, s).
    if more then c_bind (bst_element s) (\<lambda>e. c_bind (enumerate_bst n s) (\<lambda>es. Inr (e # es)))
    else Inr [])"

lemma enumerate_from:
  assumes "bst_inv cmp s" "tree_size s < 2 ^ 36" "enum_at s k" "tree_size s \<le> n + Suc k"
  shows "enumerate_bst n s = Inr (drop (Suc k) (contents s))"
  using assms
proof (induction n arbitrary: s k)
  case 0
  then show ?case by (simp add: bst_inv_def)
next
  case (Suc n)
  have len: "length (contents s) = tree_size s" using Suc.prems(1) by (simp add: bst_inv_def)
  show ?case
  proof (cases "Suc k < tree_size s")
    case True
    then obtain s' where s': "bst_move_next s = Inr (True, s')" "same_tree s s'" "enum_at s' (Suc k)"
      using bst_move_next_step [OF Suc.prems(1-3)] by auto
    have c: "contents s' = contents s" using s'(2) by (simp add: same_tree_def contents_def)
    have e: "bst_element s' = Inr (contents s ! Suc k)"
      using bst_element_at [OF s'(3)] c s'(2) Suc.prems(1) by (simp add: same_tree_def bst_inv_def)
    have "enumerate_bst n s' = Inr (drop (Suc (Suc k)) (contents s))"
    proof -
      have "bst_inv cmp s'" "tree_size s' = tree_size s"
        using same_tree_inv [OF s'(2), of cmp] Suc.prems(1) s'(2) by (auto simp: same_tree_def)
      then show ?thesis using Suc.IH [of s' "Suc k"] s'(3) Suc.prems(2,4) c by simp
    qed
    moreover have "contents s ! Suc k # drop (Suc (Suc k)) (contents s) = drop (Suc k) (contents s)"
      using True len by (intro Cons_nth_drop_Suc) simp
    ultimately show ?thesis using s'(1) e by simp
  next
    case False
    then show ?thesis using bst_move_next_step [OF Suc.prems(1-3)] len by auto
  qed
qed

lemma enumerate_all:
  assumes "bst_inv cmp s" "tree_size s < 2 ^ 36" "tree_size s \<le> n"
  shows "enumerate_bst n (bst_reset s) = Inr (contents s)"
proof (cases n)
  case 0
  then show ?thesis using assms by (simp add: bst_inv_def)
next
  case (Suc m)
  have first: "if 0 < tree_size s
    then \<exists>s'. bst_move_next (bst_reset s) = Inr (True, s') \<and> same_tree (bst_reset s) s' \<and> enum_at s' 0
    else \<exists>s'. bst_move_next (bst_reset s) = Inr (False, s') \<and> same_tree (bst_reset s) s'"
    using bst_move_next_first [of cmp "bst_reset s"] assms by simp
  have len: "length (contents s) = tree_size s" using assms(1) by (simp add: bst_inv_def)
  show ?thesis
  proof (cases "0 < tree_size s")
    case True
    then obtain s' where s': "bst_move_next (bst_reset s) = Inr (True, s')" "same_tree (bst_reset s) s'" "enum_at s' 0"
      using first by auto
    have inv: "bst_inv cmp s'" "contents s' = contents s" "tree_size s' = tree_size s"
      using same_tree_inv [OF s'(2), of cmp] assms(1) s'(2) by (simp_all add: same_tree_def contents_def)
    have "bst_element s' = Inr (contents s ! 0)"
      using bst_element_at [OF s'(3)] inv by (simp add: bst_inv_def)
    moreover have "enumerate_bst m s' = Inr (drop (Suc 0) (contents s))"
      using enumerate_from [OF inv(1) _ s'(3), of m] inv assms Suc by simp
    moreover have "contents s ! 0 # drop (Suc 0) (contents s) = drop 0 (contents s)"
      using True len by (intro Cons_nth_drop_Suc) simp
    ultimately show ?thesis using Suc s'(1) by simp
  next
    case False
    then show ?thesis using first Suc len by auto
  qed
qed

subsection \<open>Positioning the enumerator\<close>

fun came_left :: "('d, 'r) crumb list \<Rightarrow> bool" where
  "came_left (LeftOf n y w b rt # cs) \<longleftrightarrow> True"
| "came_left _ \<longleftrightarrow> False"

context strict_weak_order
begin

text \<open>The elements around the position are split by \<open>x\<close>.\<close>

definition splits_at :: "'d \<Rightarrow> ('d, 'r) crumb list \<Rightarrow> bool" where
  "splits_at x cs \<longleftrightarrow> (\<forall>p \<in> set (before cs). cmp (fst p) x) \<and> (\<forall>p \<in> set (after cs). cmp x (fst p))"

lemma search_path_position:
  assumes "tree_root s = plug cs t" "stack_is s cs" "\<not> at_start s" "int (length cs) + ht t \<le> 50"
    "ordered cmp (inorder t)" "splits_at x cs"
  shows "\<exists>found s' cs' t'. search_path cmp x t (came_left cs) s = Inr (found, came_left cs', s') \<and>
    same_tree s s' \<and> tree_root s' = plug cs' t' \<and> stack_is s' cs' \<and> \<not> at_start s' \<and>
    (if found then at_position s' cs' t' \<and> equivalent x (node_d t')
     else t' = Null \<and> splits_at x cs' \<and> current_element s' = current_element s)"
  using assms
proof (induction t arbitrary: s cs)
  case Null
  then show ?case by (intro exI [of _ False] exI [of _ s] exI [of _ cs] exI [of _ Null])
      (simp add: same_tree_def)
next
  case (Node n l y w b rt)
  note ord = Node.prems(5) [unfolded ordered_inorder_Node]
  have len: "length cs < 50" using Node.prems(4) ht_Node_pos [of n l y w b rt] by linarith
  consider "cmp x y" | "\<not> cmp x y" "cmp y x" | "equivalent x y" by (auto simp: equivalent_def)
  then show ?case
  proof cases
    case 1
    let ?cs = "LeftOf n y w b rt # cs"
    obtain s1 where s1: "push n s = Inr s1" "stack_is s1 ?cs" "tree_root s1 = tree_root s"
      "tree_size s1 = tree_size s" "at_start s1 = at_start s" "current_element s1 = current_element s"
      "tree_height s1 = tree_height s"
      using stack_is_push [OF Node.prems(2) len, of "LeftOf n y w b rt" n] by auto
    have st: "same_tree s s1" using s1 Node.prems(2) by (simp add: same_tree_def stack_is_def)
    have "\<forall>q \<in> set (inorder rt). cmp x (fst q)" using ord 1 cmp_not_cmp_trans by blast
    then have sp: "splits_at x ?cs" using Node.prems(6) 1 by (auto simp: splits_at_def)
    have h: "int (length ?cs) + ht l \<le> 50" using Node.prems(4) by (simp add: max_def split: if_splits)
    obtain found s' cs' t' where
      "search_path cmp x l (came_left ?cs) s1 = Inr (found, came_left cs', s') \<and>
       same_tree s1 s' \<and> tree_root s' = plug cs' t' \<and> stack_is s' cs' \<and> \<not> at_start s' \<and>
       (if found then at_position s' cs' t' \<and> equivalent x (node_d t')
        else t' = Null \<and> splits_at x cs' \<and> current_element s' = current_element s1)"
      using Node.IH(1) [OF _ s1(2) _ h _ sp] s1(3,5) Node.prems(1,3) ord by auto
    then show ?thesis using 1 s1(1,6) same_tree_trans [OF st]
      by (intro exI [of _ found] exI [of _ s'] exI [of _ cs'] exI [of _ t']) auto
  next
    case 2
    let ?cs = "RightOf n l y w b # cs"
    obtain s1 where s1: "push n s = Inr s1" "stack_is s1 ?cs" "tree_root s1 = tree_root s"
      "tree_size s1 = tree_size s" "at_start s1 = at_start s" "current_element s1 = current_element s"
      "tree_height s1 = tree_height s"
      using stack_is_push [OF Node.prems(2) len, of "RightOf n l y w b" n] by auto
    have st: "same_tree s s1" using s1 Node.prems(2) by (simp add: same_tree_def stack_is_def)
    have "\<forall>p \<in> set (inorder l). cmp (fst p) x" using ord 2(2) not_cmp_cmp_trans by blast
    then have sp: "splits_at x ?cs" using Node.prems(6) 2 by (auto simp: splits_at_def)
    have h: "int (length ?cs) + ht rt \<le> 50" using Node.prems(4) by (simp add: max_def split: if_splits)
    obtain found s' cs' t' where
      "search_path cmp x rt (came_left ?cs) s1 = Inr (found, came_left cs', s') \<and>
       same_tree s1 s' \<and> tree_root s' = plug cs' t' \<and> stack_is s' cs' \<and> \<not> at_start s' \<and>
       (if found then at_position s' cs' t' \<and> equivalent x (node_d t')
        else t' = Null \<and> splits_at x cs' \<and> current_element s' = current_element s1)"
      using Node.IH(2) [OF _ s1(2) _ h _ sp] s1(3,5) Node.prems(1,3) ord by auto
    then show ?thesis using 2 s1(1,6) same_tree_trans [OF st]
      by (intro exI [of _ found] exI [of _ s'] exI [of _ cs'] exI [of _ t']) auto
  next
    case 3
    then show ?thesis using Node.prems
      by (intro exI [of _ True] exI [of _ "s \<lparr> current_element := Some n \<rparr>"] exI [of _ cs]
          exI [of _ "Node n l y w b rt"])
        (auto simp: equivalent_def at_position_def same_tree_def stack_is_def)
  qed
qed

lemma splits_filter:
  "splits_at x cs \<Longrightarrow> filter (\<lambda>p. cmp x (fst p)) (before cs @ after cs) = after cs"
  "splits_at x cs \<Longrightarrow> filter (\<lambda>p. equivalent x (fst p)) (before cs @ after cs) = []"
  by (auto simp: splits_at_def equivalent_def filter_empty_conv dest: asym)

text \<open>From the place where \<open>x\<close> would hang, the enumerator goes to the first greater element.\<close>

lemma position_from_leaf:
  assumes "bst_inv cmp s" "tree_size s < 2 ^ 36" "tree_root s = plug (c # cs) Null" "stack_is s (c # cs)"
    "\<not> at_start s" "splits_at x (c # cs)"
  shows "\<exists>s'. c_bind (pop s) (\<lambda>(p, s).
      let s = s \<lparr> current_element := Some p \<rparr> in
      if came_left (c # cs) then Inr s else c_bind (bst_move_next s) (\<lambda>(_, s). Inr s)) = Inr s' \<and>
    same_tree s s' \<and> \<not> at_start s' \<and>
    (case after (c # cs) of [] \<Rightarrow> current_element s' = None | p # _ \<Rightarrow> bst_element s' = Inr p)"
proof -
  let ?s = "s \<lparr> stack_pos := length cs, current_element := Some (crumb_addr c) \<rparr>"
  have st: "same_tree s ?s" by (simp add: same_tree_def)
  then have inv: "bst_inv cmp ?s" "tree_size ?s < 2 ^ 36" "nodes_distinct (tree_root s)"
    using same_tree_inv [OF st] assms(1,2) by (simp_all add: bst_inv_def)
  have pop: "pop s = Inr (crumb_addr c, s \<lparr> stack_pos := length cs \<rparr>)" "stack_is ?s cs"
    using stack_is_pop [OF assms(4)] by (simp_all add: stack_is_def)
  show ?thesis
  proof (cases c)
    case (LeftOf n y w b rt)
    have pos: "at_position ?s cs (Node n Null y w b rt)"
      using assms(3,5) pop(2) LeftOf by (simp add: at_position_def)
    have "enum_at ?s (length (before cs))" using enum_atI [OF pos] by simp
    from bst_element_at [OF this] have "bst_element ?s = Inr (y, w)"
      using inv(3) at_position_contents [OF pos] by simp
    then show ?thesis using pop(1) st assms(5) LeftOf by simp
  next
    case (RightOf n l y w b)
    have pos: "at_position ?s cs (Node n l y w b Null)"
      using assms(3,5) pop(2) RightOf by (simp add: at_position_def)
    have e: "enum_at ?s (length (before cs @ inorder l))" using enum_atI [OF pos] by simp
    have c: "contents ?s = (before cs @ inorder l @ [(y, w)]) @ after cs" "tree_size s = length (contents ?s)"
      using at_position_contents [OF pos] inv(1) by (simp_all add: bst_inv_def)
    note step = bst_move_next_step [OF inv(1,2) e]
    show ?thesis
    proof (cases "after cs")
      case Nil
      then show ?thesis using step c pop(1) RightOf same_tree_trans [OF st] by auto
    next
      case (Cons p ps)
      then obtain s' where s': "bst_move_next ?s = Inr (True, s')" "same_tree ?s s'"
        "enum_at s' (Suc (length (before cs @ inorder l)))" using step c by auto
      have "contents s' = contents ?s" using s'(2) by (simp add: same_tree_def contents_def)
      moreover have "contents ?s ! Suc (length (before cs @ inorder l)) = p"
        using Cons nth_append_length [of "before cs @ inorder l @ [(y, w)]" p ps] unfolding c(1) by simp
      ultimately have "bst_element s' = Inr p"
        using bst_element_at [OF s'(3)] inv(3) s'(2) by (simp add: same_tree_def)
      moreover have "\<not> at_start s'" using s'(3) by (auto simp: enum_at_def at_position_def)
      ultimately show ?thesis using pop(1) RightOf Cons s'(1) same_tree_trans [OF st s'(2)] by simp
    qed
  qed
qed

lemma position_enumerator_law:
  assumes "bst_inv cmp s" "tree_size s < 2 ^ 35"
  shows "\<exists>s'. bst_position_enumerator cmp x s = Inr s' \<and> same_tree s s' \<and> \<not> at_start s' \<and>
    (if bst_count cmp x s > 0 then \<exists>e. bst_element s' = Inr e \<and> equivalent x (fst e)
     else case filter (\<lambda>p. cmp x (fst p)) (contents s) of
       [] \<Rightarrow> current_element s' = None | p # _ \<Rightarrow> bst_element s' = Inr p)"
proof -
  let ?s = "(bst_reset s) \<lparr> at_start := False \<rparr>"
  have st: "same_tree s ?s" by (simp add: same_tree_def)
  have ord: "ordered cmp (inorder (tree_root s))" and h: "ht (tree_root s) \<le> 50" and "length (stack s) = 50"
    using assms avl_height_bound_50 [of "tree_root s"] by (auto simp: bst_inv_def contents_def)
  then have pre: "tree_root ?s = plug [] (tree_root s)" "stack_is ?s []" "\<not> at_start ?s"
    "int (length []) + ht (tree_root s) \<le> 50" "splits_at x []" "current_element ?s = None"
    by (simp_all add: stack_is_def splits_at_def) (simp add: bst_reset_def)
  obtain found s' cs t where r: "search_path cmp x (tree_root s) False ?s = Inr (found, came_left cs, s')"
    "same_tree ?s s'" "tree_root s' = plug cs t" "stack_is s' cs" "\<not> at_start s'"
    "if found then at_position s' cs t \<and> equivalent x (node_d t)
     else t = Null \<and> splits_at x cs \<and> current_element s' = None"
    using search_path_position [OF pre(1-4) ord pre(5)] unfolding pre(6) came_left.simps by metis
  note st' = same_tree_trans [OF st r(2)]
  have inv: "bst_inv cmp s'" "contents s' = contents s" "tree_size s' = tree_size s"
    using same_tree_inv [OF st', of cmp] assms(1) st' by (simp_all add: same_tree_def contents_def)
  have cnt: "bst_count cmp x s = length (filter (\<lambda>p. equivalent x (fst p)) (contents s))"
    using bst_count_law [OF assms(1)] .
  show ?thesis
  proof (cases found)
    case True
    then have pos: "at_position s' cs t" "equivalent x (node_d t)" using r(6) by auto
    have "bst_element s' = Inr (node_d t, node_r t)"
      using bst_element_at [of s' "length (before cs @ inorder (left t))"] pos(1) inv(1) at_position_contents [OF pos(1)]
      by (auto simp: enum_at_def bst_inv_def nth_append)
    moreover have "(node_d t, node_r t) \<in> set (contents s)"
      using at_position_contents [OF pos(1)] inv(2) by simp
    then have "bst_count cmp x s > 0" using pos(2) cnt by (force simp: filter_empty_conv)
    ultimately show ?thesis using r(1,5) True st' pos(2) by (auto simp: bst_position_enumerator_def Let_def)
  next
    case False
    then have sp: "t = Null" "splits_at x cs" "current_element s' = None" using r(6) by auto
    have cont: "contents s = before cs @ after cs" using r(3) sp(1) inv(2) by (simp add: contents_def inorder_plug)
    have z: "bst_count cmp x s = 0" "filter (\<lambda>p. cmp x (fst p)) (contents s) = after cs"
      using splits_filter [OF sp(2)] cnt cont by auto
    show ?thesis
    proof (cases cs)
      case Nil
      then show ?thesis using r False sp z st' by (auto simp: bst_position_enumerator_def Let_def stack_is_def)
    next
      case (Cons c cs')
      have "stack_pos s' > 0" using r(4) Cons by (simp add: stack_is_def)
      moreover obtain s2 where "c_bind (pop s') (\<lambda>(p, s).
          let s = s \<lparr> current_element := Some p \<rparr> in
          if came_left (c # cs') then Inr s else c_bind (bst_move_next s) (\<lambda>(_, s). Inr s)) = Inr s2"
        "same_tree s' s2" "\<not> at_start s2"
        "case after (c # cs') of [] \<Rightarrow> current_element s2 = None | p # _ \<Rightarrow> bst_element s2 = Inr p"
        using position_from_leaf [of s' c cs' x] inv assms(2) r(3-5) sp Cons by auto
      ultimately show ?thesis using r(1) False z Cons same_tree_trans [OF st']
        by (auto simp: bst_position_enumerator_def Let_def intro!: exI [of _ s2])
    qed
  qed
qed

end

subsection \<open>The kernel implements its specification\<close>

text \<open>
  C8. \<open>add\<close> keeps the convention of the class (a balanced tree in order, with the stored height and
  size) and puts the pair behind the pairs it is not less than: exactly one more pair is
  equivalent to the key, and the enumerator is reset.
\<close>

theorem bst_add_correct:
  assumes "strict_weak_order cmp" "bst_inv cmp s" "a \<notin># addrs (tree_root s)"
  shows "bst_inv cmp (bst_add cmp a x v s) \<and>
    contents (bst_add cmp a x v s) = insert_sorted cmp x v (contents s) \<and>
    bst_count cmp x (bst_add cmp a x v s) = bst_count cmp x s + 1 \<and> bst_at_start (bst_add cmp a x v s)"
proof -
  note laws = strict_weak_order.bst_add_law [OF assms]
    strict_weak_order.bst_count_law [OF assms(1)]
  have "length (filter (\<lambda>p. strict_weak_order.equivalent cmp x (fst p)) (insert_sorted cmp x v xs)) =
      length (filter (\<lambda>p. strict_weak_order.equivalent cmp x (fst p)) xs) + 1" for xs :: "('a \<times> 'b) list"
    by (induction xs) (auto simp: strict_weak_order.equivalent_refl [OF assms(1)])
  moreover have "bst_at_start (bst_add cmp a x v s)"
    by (simp add: bst_add_def bst_at_start_def split: prod.splits)
  ultimately show ?thesis using laws(1) laws(2) [OF assms(2)] laws(2) [OF conjunct1 [OF laws(1)]] by simp
qed

definition sample_bst :: "(nat, nat) bst" where
  "sample_bst = bst_add std_less 2 9 90 (bst_add std_less 1 5 50 bst_new)"

lemma sample_bst_root: "tree_root sample_bst = Node 1 Null 5 50 1 (Node 2 Null 9 90 0 Null)"
  "tree_size sample_bst = 2" "contents sample_bst = [(5, 50), (9, 90)]"
  by (simp_all add: sample_bst_def bst_add_def bst_new_def bst_reset_def std_less_def contents_def)

lemma sample_bst_inv: "bst_inv std_less sample_bst"
proof -
  have 1: "bst_inv std_less (bst_add std_less 1 (5 :: nat) (50 :: nat) bst_new)"
    using std_less.bst_add_law [OF bst_new_inv, of 1 "5 :: nat" "50 :: nat"] by (simp add: bst_new_def)
  have "2 \<notin># addrs (tree_root (bst_add std_less 1 (5 :: nat) (50 :: nat) bst_new))"
    by (simp add: bst_add_def bst_new_def bst_reset_def)
  from std_less.bst_add_law [OF 1 this] show ?thesis by (simp add: sample_bst_def)
qed

theorem bst_add_correct_witness:
  "bst_inv std_less (bst_add std_less 3 7 70 sample_bst) \<and>
   contents (bst_add std_less 3 7 70 sample_bst) = [(5, 50), (7, 70), (9, 90)]"
  using bst_add_correct [OF std_less_strict_weak_order sample_bst_inv, of 3 7 70]
  by (simp add: sample_bst_root std_less_def)

text \<open>
  C9. \<open>remove\<close> of a key that is present takes out one pair with an equivalent key and returns it,
  \<open>destroy\<close> leaves the same tree, \<open>remove_any\<close> takes the first pair in order and
  \<open>remove_last_in_order\<close> the last; each keeps the convention of the class.
\<close>

theorem bst_remove_correct:
  assumes "strict_weak_order cmp" "bst_inv cmp s"
  shows "(\<forall>x e s'. bst_index cmp s x \<noteq> None \<and> bst_remove cmp x s = (e, s') \<longrightarrow>
      bst_inv cmp s' \<and> \<not> cmp x (fst e) \<and> \<not> cmp (fst e) x \<and>
      (\<exists>xs ys. contents s = xs @ e # ys \<and> contents s' = xs @ ys) \<and> bst_destroy cmp x s = s') \<and>
    (\<forall>e s'. bst_size s \<noteq> 0 \<and> bst_remove_any s = (e, s') \<longrightarrow> bst_inv cmp s' \<and> contents s = e # contents s') \<and>
    (\<forall>e s'. bst_size s \<noteq> 0 \<and> bst_remove_last_in_order s = (e, s') \<longrightarrow>
      bst_inv cmp s' \<and> contents s = contents s' @ [e])"
proof (intro conjI allI impI)
  fix x e s' assume a: "bst_index cmp s x \<noteq> None \<and> bst_remove cmp x s = (e, s')"
  note law = strict_weak_order.bst_remove_law [OF assms conjunct1 [OF a] conjunct2 [OF a]]
  show "bst_inv cmp s'" "\<not> cmp x (fst e)" "\<not> cmp (fst e) x"
    "\<exists>xs ys. contents s = xs @ e # ys \<and> contents s' = xs @ ys"
    using law strict_weak_order.equivalent_def [OF assms(1)] by auto
  show "bst_destroy cmp x s = s'"
    using strict_weak_order.bst_destroy_law [OF assms(1) conjunct1 [OF a]] conjunct2 [OF a] by simp
next
  fix e s' assume "bst_size s \<noteq> 0 \<and> bst_remove_any s = (e, s')"
  then show "bst_inv cmp s'" "contents s = e # contents s'"
    using strict_weak_order.bst_remove_any_law [OF assms] by (auto simp: bst_size_def)
next
  fix e s' assume "bst_size s \<noteq> 0 \<and> bst_remove_last_in_order s = (e, s')"
  then show "bst_inv cmp s'" "contents s = contents s' @ [e]"
    using strict_weak_order.bst_remove_last_law [OF assms] by (auto simp: bst_size_def)
qed

theorem bst_remove_correct_witness:
  "bst_inv std_less (snd (bst_remove std_less 5 sample_bst)) \<and>
   [(5, 50), (9, 90)] = fst (bst_remove_any sample_bst) # contents (snd (bst_remove_any sample_bst))"
proof -
  have "bst_index std_less sample_bst 5 \<noteq> None" "bst_size sample_bst \<noteq> 0"
    by (simp_all add: bst_index_def sample_bst_root std_less_def bst_size_def)
  then show ?thesis
    using bst_remove_correct [OF std_less_strict_weak_order sample_bst_inv] sample_bst_root(3)
    by (metis prod.collapse)
qed

text \<open>
  C33. \<open>count\<close> is the number of pairs whose key is equivalent to the given one, and \<open>operator[]\<close>
  returns a null pointer exactly when that number is zero and otherwise points to the range
  element of such a pair.
\<close>

theorem bst_lookup_correct:
  assumes "strict_weak_order cmp" "bst_inv cmp s"
  shows "bst_count cmp x s = length (filter (\<lambda>p. \<not> cmp x (fst p) \<and> \<not> cmp (fst p) x) (contents s)) \<and>
    (case bst_index cmp s x of
       None \<Rightarrow> bst_count cmp x s = 0
     | Some (a, v) \<Rightarrow> \<exists>y. (y, v) \<in> set (contents s) \<and> \<not> cmp x y \<and> \<not> cmp y x)"
proof -
  note eq = strict_weak_order.equivalent_def [OF assms(1)]
  have count: "bst_count cmp x s = length (filter (\<lambda>p. \<not> cmp x (fst p) \<and> \<not> cmp (fst p) x) (contents s))"
    using strict_weak_order.bst_count_law [OF assms] by (simp add: eq)
  show ?thesis
  proof (cases "bst_index cmp s x")
    case None
    then have "filter (\<lambda>p. \<not> cmp x (fst p) \<and> \<not> cmp (fst p) x) (contents s) = []"
      using strict_weak_order.bst_index_law [OF assms, of x] by (simp add: eq filter_empty_conv)
    then show ?thesis using None count by simp
  next
    case (Some av)
    obtain a v where av: "av = (a, v)" by (cases av)
    have "\<exists>y. (y, v) \<in> set (contents s) \<and> \<not> cmp x y \<and> \<not> cmp y x"
      using strict_weak_order.return_reference_value [OF assms(1), of "tree_root s" x a v] Some av
      by (simp add: eq bst_index_def contents_def)
    then show ?thesis using Some av count by simp
  qed
qed

theorem bst_lookup_correct_witness: "bst_count std_less 5 sample_bst = 1"
  using bst_lookup_correct [OF std_less_strict_weak_order sample_bst_inv, of 5]
  by (simp add: sample_bst_root std_less_def)

text \<open>
  C26. After \<open>reset\<close>, alternating \<open>move_next\<close> and \<open>element\<close> visits every pair exactly once, in the
  order of the keys, and then stops; the stack of fifty pointers is never exceeded in a tree of
  fewer than \<open>2 ^ 36\<close> elements.
\<close>

theorem bst_enumeration_correct:
  assumes "bst_inv cmp s" "tree_size s < 2 ^ 36" "tree_size s \<le> n"
  shows "enumerate_bst n (bst_reset s) = Inr (contents s)"
  by (rule enumerate_all [OF assms])

theorem bst_enumeration_correct_witness:
  "enumerate_bst 5 (bst_reset sample_bst) = Inr [(5, 50), (9, 90)]"
  using bst_enumeration_correct [OF sample_bst_inv, of 5] by (simp add: sample_bst_root)

text \<open>
  \<open>position_enumerator\<close> puts the enumerator on a pair with an equivalent key when there is one,
  otherwise on the pair with the least greater key, and otherwise past the end.  A search that
  finds nothing pushes every node on its way, so that the stack is large enough for trees of
  fewer than \<open>2 ^ 35\<close> elements.
\<close>

theorem bst_position_enumerator_correct:
  assumes "strict_weak_order cmp" "bst_inv cmp s" "tree_size s < 2 ^ 35"
  shows "\<exists>s'. bst_position_enumerator cmp x s = Inr s' \<and> contents s' = contents s \<and> \<not> bst_at_start s' \<and>
    (if bst_count cmp x s > 0 then \<exists>e. bst_element s' = Inr e \<and> \<not> cmp x (fst e) \<and> \<not> cmp (fst e) x
     else case filter (\<lambda>p. cmp x (fst p)) (contents s) of
       [] \<Rightarrow> \<not> bst_current_element_valid s' | p # _ \<Rightarrow> bst_element s' = Inr p)"
proof -
  obtain s' where s': "bst_position_enumerator cmp x s = Inr s'" "same_tree s s'" "\<not> at_start s'"
    "if bst_count cmp x s > 0 then \<exists>e. bst_element s' = Inr e \<and> strict_weak_order.equivalent cmp x (fst e)
     else case filter (\<lambda>p. cmp x (fst p)) (contents s) of
       [] \<Rightarrow> current_element s' = None | p # _ \<Rightarrow> bst_element s' = Inr p"
    using strict_weak_order.position_enumerator_law [OF assms] by blast
  then show ?thesis
    by (auto simp: strict_weak_order.equivalent_def [OF assms(1)] same_tree_def contents_def bst_at_start_def
        bst_current_element_valid_def split: list.splits if_splits)
qed

theorem bst_position_enumerator_correct_witness:
  "\<exists>s'. bst_position_enumerator std_less 6 sample_bst = Inr s' \<and> bst_element s' = Inr (9, 90)"
proof -
  have "bst_count std_less 6 sample_bst = 0"
    by (simp add: bst_count_def sample_bst_root std_less_def)
  then show ?thesis
    using bst_position_enumerator_correct [OF std_less_strict_weak_order sample_bst_inv, of 6]
    by (auto simp: sample_bst_root std_less_def)
qed

end
