(* ===== verification/Sorted_Container.thy ===== *)
theory Sorted_Container
  imports Binary_Search_Tree
begin

text \<open>
  The interface between the dlib containers: \<open>set_kernel_1\<close> and \<open>map_kernel_1\<close> are templates over
  a type \<open>bst_base\<close> that implements
  \<open>binary_search_tree/binary_search_tree_kernel_abstract.h\<close>.  The locale states what that
  header promises of the operations the two containers call, over an abstract state with a list
  of contents in order; the containers' own lemmas are proved once under it.  The kernel of
  \<open>Binary_Search_Tree\<close> meets it.
\<close>

locale sorted_container = strict_weak_order cmp
  for cmp :: "'d \<Rightarrow> 'd \<Rightarrow> bool" +
  fixes inv :: "'s \<Rightarrow> bool"
    and elems :: "'s \<Rightarrow> ('d \<times> 'r) list"
    and fresh :: "nat \<Rightarrow> 's \<Rightarrow> bool"
    and add :: "nat \<Rightarrow> 'd \<Rightarrow> 'r \<Rightarrow> 's \<Rightarrow> 's"
    and remove :: "'d \<Rightarrow> 's \<Rightarrow> ('d \<times> 'r) \<times> 's"
    and destroy :: "'d \<Rightarrow> 's \<Rightarrow> 's"
    and remove_any :: "'s \<Rightarrow> ('d \<times> 'r) \<times> 's"
    and index :: "'s \<Rightarrow> 'd \<Rightarrow> (nat \<times> 'r) option"
  assumes inv_ordered: "inv s \<Longrightarrow> ordered cmp (elems s)"
    and add_inv: "inv s \<Longrightarrow> fresh a s \<Longrightarrow> inv (add a x v s)"
    and add_elems: "inv s \<Longrightarrow> fresh a s \<Longrightarrow> elems (add a x v s) = insert_sorted cmp x v (elems s)"
    and index_None: "inv s \<Longrightarrow> index s x = None \<longleftrightarrow> (\<forall>p \<in> set (elems s). \<not> equivalent x (fst p))"
    and index_Some: "inv s \<Longrightarrow> index s x = Some (a, v) \<Longrightarrow> \<exists>y. (y, v) \<in> set (elems s) \<and> equivalent x y"
    and remove_inv: "inv s \<Longrightarrow> index s x \<noteq> None \<Longrightarrow> remove x s = (e, s') \<Longrightarrow> inv s'"
    and remove_elems: "inv s \<Longrightarrow> index s x \<noteq> None \<Longrightarrow> remove x s = (e, s') \<Longrightarrow>
      equivalent x (fst e) \<and> (\<exists>xs ys. elems s = xs @ e # ys \<and> elems s' = xs @ ys)"
    and destroy_eq: "inv s \<Longrightarrow> index s x \<noteq> None \<Longrightarrow> destroy x s = snd (remove x s)"
    and remove_any_inv: "inv s \<Longrightarrow> elems s \<noteq> [] \<Longrightarrow> remove_any s = (e, s') \<Longrightarrow> inv s'"
    and remove_any_elems: "inv s \<Longrightarrow> elems s \<noteq> [] \<Longrightarrow> remove_any s = (e, s') \<Longrightarrow> elems s = e # elems s'"
begin

text \<open>What a client sees: membership, and the value stored under a key.\<close>

definition mem :: "'s \<Rightarrow> 'd \<Rightarrow> bool" where
  "mem s x \<longleftrightarrow> index s x \<noteq> None"

definition val :: "'s \<Rightarrow> 'd \<Rightarrow> 'r option" where
  "val s x = map_option snd (index s x)"

text \<open>No two stored keys are equivalent: the requirement of sets and maps on their clients.\<close>

definition unique :: "'s \<Rightarrow> bool" where
  "unique s \<longleftrightarrow> sorted_wrt (\<lambda>p q. cmp (fst p) (fst q)) (elems s)"

lemma equivalent_sym: "equivalent x y \<longleftrightarrow> equivalent y x"
  by (auto simp: equivalent_def)

lemma equivalent_trans: "equivalent x y \<Longrightarrow> equivalent y z \<Longrightarrow> equivalent x z"
  unfolding equivalent_def using cotrans by blast

lemma mem_iff: "inv s \<Longrightarrow> mem s x \<longleftrightarrow> (\<exists>p \<in> set (elems s). equivalent x (fst p))"
  using index_None by (simp add: mem_def)

lemma mem_add:
  "inv s \<Longrightarrow> fresh a s \<Longrightarrow> mem (add a x v s) y \<longleftrightarrow> equivalent y x \<or> mem s y"
  by (auto simp: mem_iff add_inv add_elems)

lemma sorted_insert_sorted:
  assumes "sorted_wrt (\<lambda>p q. cmp (fst p) (fst q)) xs" "\<forall>p \<in> set xs. \<not> equivalent x (fst p)"
  shows "sorted_wrt (\<lambda>p q. cmp (fst p) (fst q)) (insert_sorted cmp x v xs)"
  using assms by (induction xs) (auto simp: equivalent_def dest: asym, (metis fst_conv trans)+)

lemma unique_add:
  assumes "inv s" "fresh a s" "unique s" "\<not> mem s x"
  shows "unique (add a x v s)"
  using assms sorted_insert_sorted [of "elems s" x v] by (auto simp: unique_def add_elems mem_iff)

lemma unique_split:
  assumes "unique s" "elems s = xs @ e # ys" "p \<in> set (xs @ ys)"
  shows "\<not> equivalent (fst e) (fst p)"
  using assms by (auto simp: unique_def sorted_wrt_append equivalent_def)

lemma unique_remove:
  assumes "inv s" "unique s" "mem s x" "remove x s = (e, s')"
  shows "unique s'" "mem s' y \<longleftrightarrow> mem s y \<and> \<not> equivalent x y"
proof -
  obtain xs ys where e: "equivalent x (fst e)" "elems s = xs @ e # ys" "elems s' = xs @ ys"
    using remove_elems [OF assms(1) _ assms(4)] assms(3) by (auto simp: mem_def)
  have inv': "inv s'" using remove_inv [OF assms(1) _ assms(4)] assms(3) by (simp add: mem_def)
  show "unique s'" using assms(2) e by (auto simp: unique_def sorted_wrt_append)
  show "mem s' y \<longleftrightarrow> mem s y \<and> \<not> equivalent x y"
  proof -
    have "mem s' y \<longleftrightarrow> (\<exists>p \<in> set (xs @ ys). equivalent y (fst p))"
      using mem_iff [OF inv'] e(3) by simp
    moreover have "mem s y \<longleftrightarrow> equivalent y (fst e) \<or> (\<exists>p \<in> set (xs @ ys). equivalent y (fst p))"
      using mem_iff [OF assms(1)] e(2) by auto
    moreover have "equivalent y (fst e) \<longleftrightarrow> equivalent x y"
      using e(1) equivalent_trans equivalent_sym by blast
    moreover have "\<not> equivalent x y" if "p \<in> set (xs @ ys)" "equivalent y (fst p)" for p
      using unique_split [OF assms(2) e(2) that(1)] that(2) e(1) equivalent_trans equivalent_sym by blast
    ultimately show ?thesis by blast
  qed
qed

lemma val_unique:
  assumes "inv s" "unique s"
  shows "val s x = Some v \<longleftrightarrow> (\<exists>y. (y, v) \<in> set (elems s) \<and> equivalent x y)"
proof -
  have same: "v = v'" if h: "(y, v) \<in> set (elems s)" "equivalent x y" "(y', v') \<in> set (elems s)" "equivalent x y'" for y y' v v'
  proof (rule ccontr)
    assume "v \<noteq> v'"
    obtain xs ys where s: "elems s = xs @ (y, v) # ys" using split_list [OF h(1)] by blast
    then have "(y', v') \<in> set (xs @ ys)" using h(3) \<open>v \<noteq> v'\<close> by auto
    then have "\<not> equivalent y y'" using unique_split [OF assms(2) s] by force
    then show False using h(2,4) equivalent_trans equivalent_sym by blast
  qed
  show ?thesis
    using same index_Some [OF assms(1)] index_None [OF assms(1)] unfolding val_def
    by (cases "index s x") fastforce+
qed

lemma val_add:
  assumes "inv s" "fresh a s" "unique s" "\<not> mem s x"
  shows "val (add a x v s) y = (if equivalent y x then Some v else val s y)"
proof -
  note inv' = add_inv [OF assms(1,2)] and u' = unique_add [OF assms]
  show ?thesis
  proof (cases "equivalent y x")
    case True
    then show ?thesis using val_unique [OF inv' u'] assms(1,2) by (auto simp: add_elems)
  next
    case False
    have "val (add a x v s) y = Some w \<longleftrightarrow> val s y = Some w" for w
      using val_unique [OF inv' u'] val_unique [OF assms(1,3)] assms(1,2) False by (auto simp: add_elems)
    then show ?thesis using False by (metis option.exhaust)
  qed
qed

end

lemma bst_inv_nonempty: "bst_inv cmp s \<Longrightarrow> tree_size s \<noteq> 0 \<longleftrightarrow> contents s \<noteq> []"
  by (simp add: bst_inv_def)

sublocale strict_weak_order \<subseteq> bst: sorted_container cmp "bst_inv cmp" contents
  "\<lambda>a s. a \<notin># addrs (tree_root s)" "bst_add cmp" "bst_remove cmp" "bst_destroy cmp" bst_remove_any
  "bst_index cmp"
proof unfold_locales
  fix s :: "('d, 'b) bst" and x a v e s'
  show "bst_inv cmp s \<Longrightarrow> ordered cmp (contents s)" by (simp add: bst_inv_def)
  show "bst_inv cmp s \<Longrightarrow> a \<notin># addrs (tree_root s) \<Longrightarrow> bst_inv cmp (bst_add cmp a x v s)"
    "bst_inv cmp s \<Longrightarrow> a \<notin># addrs (tree_root s) \<Longrightarrow>
      contents (bst_add cmp a x v s) = insert_sorted cmp x v (contents s)"
    by (simp_all add: bst_add_law)
  show "bst_inv cmp s \<Longrightarrow> bst_index cmp s x = None \<longleftrightarrow> (\<forall>p \<in> set (contents s). \<not> equivalent x (fst p))"
    by (rule bst_index_law)
  show "bst_index cmp s x = Some (a, v) \<Longrightarrow> \<exists>y. (y, v) \<in> set (contents s) \<and> equivalent x y"
    using return_reference_value [of "tree_root s" x a v] by (simp add: bst_index_def contents_def)
  show "bst_inv cmp s \<Longrightarrow> bst_index cmp s x \<noteq> None \<Longrightarrow> bst_remove cmp x s = (e, s') \<Longrightarrow> bst_inv cmp s'"
    "bst_inv cmp s \<Longrightarrow> bst_index cmp s x \<noteq> None \<Longrightarrow> bst_remove cmp x s = (e, s') \<Longrightarrow>
      equivalent x (fst e) \<and> (\<exists>xs ys. contents s = xs @ e # ys \<and> contents s' = xs @ ys)"
    by (drule (2) bst_remove_law, blast)+
  show "bst_index cmp s x \<noteq> None \<Longrightarrow> bst_destroy cmp x s = snd (bst_remove cmp x s)"
    by (rule bst_destroy_law)
  show "bst_inv cmp s \<Longrightarrow> contents s \<noteq> [] \<Longrightarrow> bst_remove_any s = (e, s') \<Longrightarrow> bst_inv cmp s'"
    "bst_inv cmp s \<Longrightarrow> contents s \<noteq> [] \<Longrightarrow> bst_remove_any s = (e, s') \<Longrightarrow> contents s = e # contents s'"
    using bst_remove_any_law [of s e s'] bst_inv_nonempty [of cmp s] by blast+
qed

end
