(* ===== verification/Set_Map_Kernel.thy ===== *)
theory Set_Map_Kernel
  imports Sorted_Container
begin

text \<open>
  The containers of \<open>src/dlib-minimal/lib/dlib/set/set_kernel_1.h\<close> and
  \<open>src/dlib-minimal/lib/dlib/map/map_kernel_1.h\<close>, both a binary search tree with another
  interface: a set is a tree whose range is a character that is never looked at, a map a tree
  with at most one element per key.  The laws come from the interface \<open>sorted_container\<close>.
\<close>

subsection \<open>set\_kernel\_1\<close>

record 'd set_kernel =
  set_bst :: "('d, u8) bst"
  junk :: u8

definition set_new :: "'d set_kernel" where
  "set_new = \<lparr> set_bst = bst_new, junk = 0 \<rparr>"

definition set_clear :: "'d set_kernel \<Rightarrow> 'd set_kernel" where
  "set_clear s = s \<lparr> set_bst := snd (bst_clear (set_bst s)) \<rparr>"

text \<open>\<open>bst.add\<close> swaps \<open>junk\<close> into the node; the new node's initial value comes back.\<close>

definition set_add :: "('d \<Rightarrow> 'd \<Rightarrow> bool) \<Rightarrow> nat \<Rightarrow> 'd \<Rightarrow> 'd set_kernel \<Rightarrow> 'd set_kernel" where
  "set_add cmp a item s = \<lparr> set_bst = bst_add cmp a item (junk s) (set_bst s), junk = 0 \<rparr>"

definition set_is_member :: "('d \<Rightarrow> 'd \<Rightarrow> bool) \<Rightarrow> 'd \<Rightarrow> 'd set_kernel \<Rightarrow> bool" where
  "set_is_member cmp item s \<longleftrightarrow> bst_index cmp (set_bst s) item \<noteq> None"

definition set_remove_any :: "'d set_kernel \<Rightarrow> 'd \<times> 'd set_kernel" where
  "set_remove_any s = (case bst_remove_any (set_bst s) of (e, b) \<Rightarrow> (fst e, \<lparr> set_bst = b, junk = snd e \<rparr>))"

definition set_remove :: "('d \<Rightarrow> 'd \<Rightarrow> bool) \<Rightarrow> 'd \<Rightarrow> 'd set_kernel \<Rightarrow> 'd \<times> 'd set_kernel" where
  "set_remove cmp item s =
    (case bst_remove cmp item (set_bst s) of (e, b) \<Rightarrow> (fst e, \<lparr> set_bst = b, junk = snd e \<rparr>))"

definition set_destroy :: "('d \<Rightarrow> 'd \<Rightarrow> bool) \<Rightarrow> 'd \<Rightarrow> 'd set_kernel \<Rightarrow> 'd set_kernel" where
  "set_destroy cmp item s = s \<lparr> set_bst := bst_destroy cmp item (set_bst s) \<rparr>"

definition set_size :: "'d set_kernel \<Rightarrow> nat" where
  "set_size s = bst_size (set_bst s)"

definition set_swap :: "'d set_kernel \<Rightarrow> 'd set_kernel \<Rightarrow> 'd set_kernel \<times> 'd set_kernel" where
  "set_swap s item = (case bst_swap (set_bst s) (set_bst item) of (b, c) \<Rightarrow>
     (s \<lparr> set_bst := b \<rparr>, item \<lparr> set_bst := c \<rparr>))"

definition set_at_start :: "'d set_kernel \<Rightarrow> bool" where
  "set_at_start s = bst_at_start (set_bst s)"

definition set_reset :: "'d set_kernel \<Rightarrow> 'd set_kernel" where
  "set_reset s = s \<lparr> set_bst := bst_reset (set_bst s) \<rparr>"

definition set_current_element_valid :: "'d set_kernel \<Rightarrow> bool" where
  "set_current_element_valid s = bst_current_element_valid (set_bst s)"

definition set_element :: "'d set_kernel \<Rightarrow> 'd c" where
  "set_element s = c_bind (bst_element (set_bst s)) (\<lambda>e. Inr (fst e))"

definition set_move_next :: "'d set_kernel \<Rightarrow> (bool \<times> 'd set_kernel) c" where
  "set_move_next s = c_bind (bst_move_next (set_bst s)) (\<lambda>(more, b). Inr (more, s \<lparr> set_bst := b \<rparr>))"

text \<open>
  \<open>deserialize\<close>: \<open>input\<close> holds the items that can still be read from the stream, each with the
  address of the node that will hold it; a stream that ends early clears the set and throws.
\<close>

fun set_add_all ::
  "('d \<Rightarrow> 'd \<Rightarrow> bool) \<Rightarrow> nat \<Rightarrow> (nat \<times> 'd) list \<Rightarrow> 'd set_kernel \<Rightarrow> 'd set_kernel outcome" where
  "set_add_all cmp 0 input s = Returned s"
| "set_add_all cmp (Suc n) [] s = Thrown (set_clear s)"
| "set_add_all cmp (Suc n) ((a, x) # input) s = set_add_all cmp n input (set_add cmp a x s)"

definition set_deserialize ::
  "('d \<Rightarrow> 'd \<Rightarrow> bool) \<Rightarrow> nat option \<Rightarrow> (nat \<times> 'd) list \<Rightarrow> 'd set_kernel \<Rightarrow> 'd set_kernel outcome" where
  "set_deserialize cmp n input s =
    (case n of None \<Rightarrow> Thrown (set_clear (set_clear s)) | Some n \<Rightarrow> set_add_all cmp n input (set_clear s))"

subsection \<open>map\_kernel\_1\<close>

type_synonym ('d, 'r) map_kernel = "('d, 'r) bst"

definition map_clear :: "('d, 'r) map_kernel \<Rightarrow> ('d, 'r) map_kernel" where
  "map_clear m = snd (bst_clear m)"

definition map_add :: "('d \<Rightarrow> 'd \<Rightarrow> bool) \<Rightarrow> nat \<Rightarrow> 'd \<Rightarrow> 'r \<Rightarrow> ('d, 'r) map_kernel \<Rightarrow> ('d, 'r) map_kernel" where
  "map_add cmp a x v m = bst_add cmp a x v m"

definition map_is_in_domain :: "('d \<Rightarrow> 'd \<Rightarrow> bool) \<Rightarrow> 'd \<Rightarrow> ('d, 'r) map_kernel \<Rightarrow> bool" where
  "map_is_in_domain cmp x m \<longleftrightarrow> bst_index cmp m x \<noteq> None"

definition map_remove_any :: "('d, 'r) map_kernel \<Rightarrow> ('d \<times> 'r) \<times> ('d, 'r) map_kernel" where
  "map_remove_any m = bst_remove_any m"

definition map_remove ::
  "('d \<Rightarrow> 'd \<Rightarrow> bool) \<Rightarrow> 'd \<Rightarrow> ('d, 'r) map_kernel \<Rightarrow> ('d \<times> 'r) \<times> ('d, 'r) map_kernel" where
  "map_remove cmp x m = bst_remove cmp x m"

definition map_destroy :: "('d \<Rightarrow> 'd \<Rightarrow> bool) \<Rightarrow> 'd \<Rightarrow> ('d, 'r) map_kernel \<Rightarrow> ('d, 'r) map_kernel" where
  "map_destroy cmp x m = bst_destroy cmp x m"

text \<open>\<open>operator[]\<close> dereferences the pointer without a test.\<close>

definition map_index :: "('d \<Rightarrow> 'd \<Rightarrow> bool) \<Rightarrow> ('d, 'r) map_kernel \<Rightarrow> 'd \<Rightarrow> 'r c" where
  "map_index cmp m x = (case bst_index cmp m x of None \<Rightarrow> Inl Null_Deref | Some (a, v) \<Rightarrow> Inr v)"

definition map_size :: "('d, 'r) map_kernel \<Rightarrow> nat" where
  "map_size m = bst_size m"

definition map_swap ::
  "('d, 'r) map_kernel \<Rightarrow> ('d, 'r) map_kernel \<Rightarrow> ('d, 'r) map_kernel \<times> ('d, 'r) map_kernel" where
  "map_swap m item = bst_swap m item"

definition map_at_start :: "('d, 'r) map_kernel \<Rightarrow> bool" where "map_at_start m = bst_at_start m"

definition map_reset :: "('d, 'r) map_kernel \<Rightarrow> ('d, 'r) map_kernel" where "map_reset m = bst_reset m"

definition map_current_element_valid :: "('d, 'r) map_kernel \<Rightarrow> bool" where
  "map_current_element_valid m = bst_current_element_valid m"

definition map_element :: "('d, 'r) map_kernel \<Rightarrow> ('d \<times> 'r) c" where "map_element m = bst_element m"

definition map_move_next :: "('d, 'r) map_kernel \<Rightarrow> (bool \<times> ('d, 'r) map_kernel) c" where
  "map_move_next m = bst_move_next m"

fun map_add_all ::
  "('d \<Rightarrow> 'd \<Rightarrow> bool) \<Rightarrow> nat \<Rightarrow> (nat \<times> 'd \<times> 'r) list \<Rightarrow> ('d, 'r) map_kernel \<Rightarrow> ('d, 'r) map_kernel outcome" where
  "map_add_all cmp 0 input m = Returned m"
| "map_add_all cmp (Suc n) [] m = Thrown (map_clear m)"
| "map_add_all cmp (Suc n) ((a, x, v) # input) m = map_add_all cmp n input (map_add cmp a x v m)"

definition map_deserialize ::
  "('d \<Rightarrow> 'd \<Rightarrow> bool) \<Rightarrow> nat option \<Rightarrow> (nat \<times> 'd \<times> 'r) list \<Rightarrow> ('d, 'r) map_kernel \<Rightarrow> ('d, 'r) map_kernel outcome" where
  "map_deserialize cmp n input m =
    (case n of None \<Rightarrow> Thrown (map_clear (map_clear m)) | Some n \<Rightarrow> map_add_all cmp n input (map_clear m))"

subsection \<open>Sets behave as sets, maps as maps\<close>

text \<open>The class invariants: the tree's, and no two equivalent keys.\<close>

definition set_inv :: "('d \<Rightarrow> 'd \<Rightarrow> bool) \<Rightarrow> 'd set_kernel \<Rightarrow> bool" where
  "set_inv cmp s \<longleftrightarrow> bst_inv cmp (set_bst s) \<and> sorted_wrt (\<lambda>p q. cmp (fst p) (fst q)) (contents (set_bst s))"

definition map_inv :: "('d \<Rightarrow> 'd \<Rightarrow> bool) \<Rightarrow> ('d, 'r) map_kernel \<Rightarrow> bool" where
  "map_inv cmp m \<longleftrightarrow> bst_inv cmp m \<and> sorted_wrt (\<lambda>p q. cmp (fst p) (fst q)) (contents m)"

lemma empty_inv: "set_inv cmp set_new" "map_inv cmp bst_new"
  by (simp_all add: set_inv_def map_inv_def set_new_def bst_new_inv) (simp_all add: bst_new_def contents_def)

context strict_weak_order
begin

lemma set_as_container:
  "set_inv cmp s \<longleftrightarrow> bst_inv cmp (set_bst s) \<and> bst.unique (set_bst s)"
  "set_is_member cmp x s \<longleftrightarrow> bst.mem (set_bst s) x"
  by (simp_all add: set_inv_def bst.unique_def set_is_member_def bst.mem_def)

lemma map_as_container:
  "map_inv cmp m \<longleftrightarrow> bst_inv cmp m \<and> bst.unique m"
  "map_is_in_domain cmp x m \<longleftrightarrow> bst.mem m x"
  "bst.mem m x \<Longrightarrow> map_index cmp m x = Inr v \<longleftrightarrow> bst.val m x = Some v"
  by (auto simp: map_inv_def bst.unique_def map_is_in_domain_def bst.mem_def map_index_def bst.val_def)

end

lemma bst_add_size [simp]: "tree_size (bst_add cmp a x v s) = tree_size s + 1"
  by (simp add: bst_add_def split: prod.splits)

context strict_weak_order
begin

lemma set_add_law:
  assumes "set_inv cmp s" "a \<notin># addrs (tree_root (set_bst s))" "\<not> set_is_member cmp x s"
  shows "set_inv cmp (set_add cmp a x s)" "set_size (set_add cmp a x s) = set_size s + 1"
    "set_is_member cmp y (set_add cmp a x s) \<longleftrightarrow> equivalent y x \<or> set_is_member cmp y s"
  using assms
  by (simp_all add: set_as_container set_add_def set_size_def bst_size_def bst.add_inv bst.unique_add bst.mem_add)

lemma set_remove_law:
  assumes "set_inv cmp s" "set_is_member cmp x s"
  shows "set_inv cmp (snd (set_remove cmp x s))"
    "set_bst (set_destroy cmp x s) = set_bst (snd (set_remove cmp x s))"
    "set_is_member cmp y (snd (set_remove cmp x s)) \<longleftrightarrow> set_is_member cmp y s \<and> \<not> equivalent x y"
proof -
  obtain e b where r: "bst_remove cmp x (set_bst s) = (e, b)" by (metis surj_pair)
  have s': "snd (set_remove cmp x s) = \<lparr> set_bst = b, junk = snd e \<rparr>" using r by (simp add: set_remove_def)
  have pre: "bst_inv cmp (set_bst s)" "bst.unique (set_bst s)" "bst.mem (set_bst s) x"
    using assms by (simp_all add: set_as_container)
  have "bst_inv cmp b" using bst.remove_inv [OF pre(1) _ r] pre(3) by (simp add: bst.mem_def)
  then show "set_inv cmp (snd (set_remove cmp x s))"
    using bst.unique_remove(1) [OF pre r] s' by (simp add: set_as_container)
  show "set_is_member cmp y (snd (set_remove cmp x s)) \<longleftrightarrow> set_is_member cmp y s \<and> \<not> equivalent x y"
    using bst.unique_remove(2) [OF pre r] s' by (simp add: set_as_container)
  show "set_bst (set_destroy cmp x s) = set_bst (snd (set_remove cmp x s))"
    using bst.destroy_eq [OF pre(1)] pre(3) r s' by (simp add: set_destroy_def bst.mem_def)
qed

lemma set_kernel_law:
  assumes "set_inv cmp s"
  shows "(\<forall>a x. a \<notin># addrs (tree_root (set_bst s)) \<and> \<not> set_is_member cmp x s \<longrightarrow>
      set_inv cmp (set_add cmp a x s) \<and> set_size (set_add cmp a x s) = set_size s + 1 \<and>
      (\<forall>y. set_is_member cmp y (set_add cmp a x s) \<longleftrightarrow> \<not> cmp x y \<and> \<not> cmp y x \<or> set_is_member cmp y s)) \<and>
    (\<forall>x. set_is_member cmp x s \<longrightarrow>
      set_inv cmp (snd (set_remove cmp x s)) \<and>
      set_bst (set_destroy cmp x s) = set_bst (snd (set_remove cmp x s)) \<and>
      (\<forall>y. set_is_member cmp y (snd (set_remove cmp x s)) \<longleftrightarrow>
        set_is_member cmp y s \<and> (cmp x y \<or> cmp y x)))"
  using set_add_law [OF assms] set_remove_law [OF assms] by (auto simp: equivalent_def)

lemma map_kernel_law:
  assumes "map_inv cmp m" "a \<notin># addrs (tree_root m)" "\<not> map_is_in_domain cmp x m"
  shows "map_inv cmp (map_add cmp a x v m) \<and>
    (\<forall>y. \<not> cmp x y \<and> \<not> cmp y x \<longrightarrow> map_index cmp (map_add cmp a x v m) y = Inr v) \<and>
    (\<forall>y. (cmp x y \<or> cmp y x) \<longrightarrow> map_index cmp (map_add cmp a x v m) y = map_index cmp m y)"
proof -
  have pre: "bst_inv cmp m" "bst.unique m" "\<not> bst.mem m x" using assms by (simp_all add: map_as_container)
  have val: "bst.val (bst_add cmp a x v m) y = (if equivalent y x then Some v else bst.val m y)" for y
    using bst.val_add [OF pre(1) assms(2) pre(2,3)] .
  have idx: "map_index cmp m' y = (case bst.val m' y of None \<Rightarrow> Inl Null_Deref | Some w \<Rightarrow> Inr w)"
    for m' :: "('d, 'b) bst" and y
    by (auto simp: map_index_def bst.val_def split: option.splits)
  have "map_inv cmp (map_add cmp a x v m)"
    using bst.add_inv [OF pre(1) assms(2)] bst.unique_add [OF pre(1) assms(2) pre(2,3)]
    by (simp add: map_as_container map_add_def)
  then show ?thesis using val by (auto simp: idx map_add_def equivalent_def)
qed

end

text \<open>
  C27. Adding an item that is not in the set makes exactly the items equivalent to it members;
  removing or destroying a member takes exactly those away; the set's invariant is kept, and the
  two ways to remove leave the same tree.
\<close>

theorem set_kernel_correct:
  assumes "strict_weak_order cmp" "set_inv cmp s"
  shows "(\<forall>a x. a \<notin># addrs (tree_root (set_bst s)) \<and> \<not> set_is_member cmp x s \<longrightarrow>
      set_inv cmp (set_add cmp a x s) \<and> set_size (set_add cmp a x s) = set_size s + 1 \<and>
      (\<forall>y. set_is_member cmp y (set_add cmp a x s) \<longleftrightarrow> \<not> cmp x y \<and> \<not> cmp y x \<or> set_is_member cmp y s)) \<and>
    (\<forall>x. set_is_member cmp x s \<longrightarrow>
      set_inv cmp (snd (set_remove cmp x s)) \<and>
      set_bst (set_destroy cmp x s) = set_bst (snd (set_remove cmp x s)) \<and>
      (\<forall>y. set_is_member cmp y (snd (set_remove cmp x s)) \<longleftrightarrow>
        set_is_member cmp y s \<and> (cmp x y \<or> cmp y x)))"
  by (rule strict_weak_order.set_kernel_law [OF assms])

text \<open>Two items, one after the other.\<close>

definition sample_set :: "nat set_kernel" where
  "sample_set = set_add std_less 1 5 set_new"

lemma sample_set_inv: "set_inv std_less sample_set"
  unfolding sample_set_def
  by (rule std_less.set_add_law(1))
    (simp_all add: empty_inv, simp_all add: set_new_def bst_new_def set_is_member_def bst_index_def)

theorem set_kernel_correct_witness:
  "set_inv std_less (set_add std_less 2 7 sample_set) \<and> set_is_member std_less 7 (set_add std_less 2 7 sample_set) \<and>
   \<not> set_is_member std_less 5 (snd (set_remove std_less 5 sample_set))"
proof -
  have "2 \<notin># addrs (tree_root (set_bst sample_set))" "\<not> set_is_member std_less 7 sample_set"
    "set_is_member std_less 5 sample_set"
    by (simp_all add: sample_set_def set_add_def set_new_def bst_new_def bst_add_def bst_reset_def
        set_is_member_def bst_index_def std_less_def)
  then show ?thesis using set_kernel_correct [OF std_less_strict_weak_order sample_set_inv]
    by (auto simp: std_less_def)
qed

text \<open>
  C28. A map gives back, under every key equivalent to the added one, the added value, and under
  every other key what it gave before; its invariant is kept.
\<close>

theorem map_kernel_correct:
  assumes "strict_weak_order cmp" "map_inv cmp m" "a \<notin># addrs (tree_root m)" "\<not> map_is_in_domain cmp x m"
  shows "map_inv cmp (map_add cmp a x v m) \<and>
    (\<forall>y. \<not> cmp x y \<and> \<not> cmp y x \<longrightarrow> map_index cmp (map_add cmp a x v m) y = Inr v) \<and>
    (\<forall>y. (cmp x y \<or> cmp y x) \<longrightarrow> map_index cmp (map_add cmp a x v m) y = map_index cmp m y)"
  by (rule strict_weak_order.map_kernel_law [OF assms])

theorem map_kernel_correct_witness:
  "map_index std_less (map_add std_less 1 (5 :: nat) ''five'' bst_new) 5 = Inr ''five'' \<and>
   map_index std_less (map_add std_less 1 (5 :: nat) ''five'' bst_new) 6 = Inl Null_Deref"
proof -
  have "1 \<notin># addrs (tree_root bst_new)" "\<not> map_is_in_domain std_less (5 :: nat) bst_new"
    "map_index std_less bst_new (6 :: nat) = Inl Null_Deref"
    by (simp_all add: bst_new_def map_is_in_domain_def bst_index_def map_index_def)
  then show ?thesis
    using map_kernel_correct [OF std_less_strict_weak_order empty_inv(2), of 1 5 "''five''"]
    by (auto simp: std_less_def)
qed

end
