(* ===== verification/Sliding_Buffer.thy ===== *)
theory Sliding_Buffer
  imports Prelude
begin

text \<open>
  The model of \<open>src/dlib-minimal/lib/dlib/sliding_buffer/sliding_buffer_kernel_1.h\<close>, a ring
  buffer whose size is a power of two.  The members of type \<open>unsigned long\<close> are 64-bit words, so
  that indices are reduced by wrap-around and by the mask exactly as in the code.  \<open>None\<close> is the
  null pointer; elements of a new array have the value \<open>init\<close>, and \<open>alloc\_ok\<close> says whether the
  allocation succeeds.
\<close>

record 'a sbuf =
  buffer_start :: u64
  buffer_size :: u64
  buffer :: "'a list option"
  mask_of :: u64
  current :: u64
  sb_start :: bool

definition sb_new :: "'a sbuf" where
  "sb_new = \<lparr> buffer_start = 0, buffer_size = 0, buffer = None, mask_of = 0, current = 0, sb_start = True \<rparr>"

definition sb_clear :: "'a sbuf \<Rightarrow> 'a sbuf" where
  "sb_clear s = s \<lparr> buffer_size := 0, buffer := None, sb_start := True, current := 0 \<rparr>"

text \<open>The loop that doubles the size \<open>exp\_size\<close> times.\<close>

fun double_size :: "nat \<Rightarrow> u64 \<Rightarrow> u64" where
  "double_size 0 n = n"
| "double_size (Suc e) n = double_size e (push_bit 1 n)"

text \<open>The flag of the result says whether the call threw.\<close>

definition sb_set_size :: "bool \<Rightarrow> 'a \<Rightarrow> u64 \<Rightarrow> 'a sbuf \<Rightarrow> bool \<times> 'a sbuf" where
  "sb_set_size alloc_ok init exp_size s =
    (let n = double_size (unat exp_size) 1;
         s = s \<lparr> sb_start := True, buffer_size := n, mask_of := n - 1 \<rparr>
     in if alloc_ok then (False, s \<lparr> buffer := Some (replicate (unat n) init) \<rparr>)
        else (True, s \<lparr> buffer := None, buffer_size := 0 \<rparr>))"

definition sb_size :: "'a sbuf \<Rightarrow> u64" where "sb_size s = buffer_size s"

definition sb_rotate_left :: "u64 \<Rightarrow> 'a sbuf \<Rightarrow> 'a sbuf" where
  "sb_rotate_left amount s =
    s \<lparr> buffer_start := (buffer_start s - amount) AND mask_of s, sb_start := True \<rparr>"

definition sb_rotate_right :: "u64 \<Rightarrow> 'a sbuf \<Rightarrow> 'a sbuf" where
  "sb_rotate_right amount s =
    s \<lparr> buffer_start := (buffer_start s + amount) AND mask_of s, sb_start := True \<rparr>"

definition sb_get_element_id :: "'a sbuf \<Rightarrow> u64 \<Rightarrow> u64" where
  "sb_get_element_id s index = (buffer_start s + index) AND mask_of s"

definition sb_get_element_index :: "'a sbuf \<Rightarrow> u64 \<Rightarrow> u64" where
  "sb_get_element_index s element_id = (element_id - buffer_start s) AND mask_of s"

definition sb_get :: "'a sbuf \<Rightarrow> u64 \<Rightarrow> 'a c" where
  "sb_get s index =
    (case buffer s of
       None \<Rightarrow> Inl Null_Deref
     | Some b \<Rightarrow>
         (let i = unat ((buffer_start s + index) AND mask_of s)
          in if i < length b then Inr (b ! i) else Inl Out_Of_Bounds))"

definition sb_put :: "u64 \<Rightarrow> 'a \<Rightarrow> 'a sbuf \<Rightarrow> 'a sbuf c" where
  "sb_put index x s =
    (case buffer s of
       None \<Rightarrow> Inl Null_Deref
     | Some b \<Rightarrow>
         (let i = unat ((buffer_start s + index) AND mask_of s)
          in if i < length b then Inr (s \<lparr> buffer := Some (b[i := x]) \<rparr>) else Inl Out_Of_Bounds))"

definition sb_swap :: "'a sbuf \<Rightarrow> 'a sbuf \<Rightarrow> 'a sbuf \<times> 'a sbuf" where
  "sb_swap s item = (item, s)"

definition sb_at_start :: "'a sbuf \<Rightarrow> bool" where "sb_at_start s = sb_start s"

definition sb_reset :: "'a sbuf \<Rightarrow> 'a sbuf" where "sb_reset s = s \<lparr> sb_start := True \<rparr>"

definition sb_current_element_valid :: "'a sbuf \<Rightarrow> bool" where
  "sb_current_element_valid s \<longleftrightarrow> current s < buffer_size s \<and> \<not> sb_start s"

definition sb_element :: "'a sbuf \<Rightarrow> 'a c" where "sb_element s = sb_get s (current s)"

definition sb_move_next :: "'a sbuf \<Rightarrow> bool \<times> 'a sbuf" where
  "sb_move_next s =
    (if \<not> sb_start s then
       if current s + 1 < buffer_size s then (True, s \<lparr> current := current s + 1 \<rparr>)
       else (False, s \<lparr> current := buffer_size s \<rparr>)
     else (buffer_size s \<noteq> 0, s \<lparr> sb_start := False, current := 0 \<rparr>))"

subsection \<open>The contents\<close>

text \<open>The convention of the class, for a buffer of \<open>2 ^ e\<close> elements.\<close>

definition sb_inv :: "nat \<Rightarrow> 'a sbuf \<Rightarrow> bool" where
  "sb_inv e s \<longleftrightarrow> e < 64 \<and> buffer_size s = 2 ^ e \<and> mask_of s = 2 ^ e - 1 \<and>
    (\<exists>b. buffer s = Some b \<and> length b = 2 ^ e)"

text \<open>The elements in the order of their indices.\<close>

definition cells :: "nat \<Rightarrow> 'a sbuf \<Rightarrow> 'a list" where
  "cells e s = map (\<lambda>i. the (buffer s) ! ((unat (buffer_start s) + i) mod 2 ^ e)) [0..<2 ^ e]"

lemma length_cells [simp]: "length (cells e s) = 2 ^ e"
  by (simp add: cells_def)

lemma and_mask_word: "e < 64 \<Longrightarrow> (w :: u64) AND (2 ^ e - 1) = take_bit e w"
  by (simp add: take_bit_eq_mask mask_eq_exp_minus_1)

lemma unat_take_bit: "unat (take_bit e (w :: u64)) = unat w mod 2 ^ e"
  using unsigned_take_bit_eq [of e w, where 'a = nat] by (simp only: take_bit_eq_mod [of e "unat w"])

lemma shift_mod_eq:
  fixes a i j n :: nat
  assumes "j < n"
  shows "(a + j) mod n = (a + i) mod n \<longleftrightarrow> j = i mod n"
proof
  assume "(a + j) mod n = (a + i) mod n"
  then have "int (a + j) mod int n = int (a + i) mod int n" by (metis zmod_int)
  then have "(int (a + j) - int a) mod int n = (int (a + i) - int a) mod int n" by (rule mod_diff_cong) simp
  then have "int (j mod n) = int (i mod n)" by (simp add: zmod_int)
  then show "j = i mod n" using assms by simp
qed (simp add: mod_simps)

lemma mod_2_power_64: "e < 64 \<Longrightarrow> n mod 2 ^ 64 mod 2 ^ e = n mod (2 :: nat) ^ e"
  by (simp add: mod_mod_cancel le_imp_power_dvd del: power_numeral)

lemma unat_index:
  assumes "sb_inv e s"
  shows "unat ((buffer_start s + i) AND mask_of s) = (unat (buffer_start s) + unat i) mod 2 ^ e"
proof -
  have "unat (buffer_start s + i) = (unat (buffer_start s) + unat i) mod 2 ^ 64"
    by (simp add: unat_word_ariths)
  then show ?thesis using assms mod_2_power_64 [of e]
    by (simp add: sb_inv_def and_mask_word unat_take_bit del: power_numeral)
qed

lemma sb_get_cells:
  assumes "sb_inv e s"
  shows "sb_get s i = Inr (cells e s ! (unat i mod 2 ^ e))"
  using assms unat_index [OF assms, of i]
  by (auto simp: sb_inv_def sb_get_def cells_def Let_def mod_simps)

lemma sb_put_cells:
  assumes "sb_inv e s"
  obtains s' where "sb_put i x s = Inr s'" "sb_inv e s'" "cells e s' = (cells e s)[unat i mod 2 ^ e := x]"
    "buffer_start s' = buffer_start s"
proof -
  obtain b where b: "buffer s = Some b" "length b = 2 ^ e" using assms by (auto simp: sb_inv_def)
  let ?k = "(unat (buffer_start s) + unat i) mod 2 ^ e"
  let ?s = "s \<lparr> buffer := Some (b[?k := x]) \<rparr>"
  have "sb_put i x s = Inr ?s" using b unat_index [OF assms, of i] by (simp add: sb_put_def Let_def)
  moreover have "sb_inv e ?s" using assms b by (simp add: sb_inv_def)
  moreover have "cells e ?s = (cells e s)[unat i mod 2 ^ e := x]"
  proof (rule nth_equalityI)
    fix j assume "j < length (cells e ?s)"
    then have j: "j < 2 ^ e" by simp
    have "(unat (buffer_start s) + j) mod 2 ^ e = ?k \<longleftrightarrow> j = unat i mod 2 ^ e"
      by (rule shift_mod_eq [OF j])
    then show "cells e ?s ! j = (cells e s)[unat i mod 2 ^ e := x] ! j"
      using j b by (auto simp: cells_def nth_list_update)
  qed simp
  ultimately show thesis using that by simp
qed

subsection \<open>Rotation\<close>

lemma sb_rotate_inv: "sb_inv e s \<Longrightarrow> sb_inv e (sb_rotate_left a s)" "sb_inv e s \<Longrightarrow> sb_inv e (sb_rotate_right a s)"
  by (simp_all add: sb_inv_def sb_rotate_left_def sb_rotate_right_def)

lemma mod_64_cancel: "e < 64 \<Longrightarrow> n mod 18446744073709551616 mod 2 ^ e = n mod (2 :: int) ^ e"
  using mod_mod_cancel [OF le_imp_power_dvd [of e 64 2], of n] by simp

lemma uint_take_bit: "uint (take_bit e (w :: u64)) = uint w mod 2 ^ e"
  using unsigned_take_bit_eq [of e w, where 'a = int] by (simp only: take_bit_eq_mod [of e "uint w"])

lemma take_bit_collect:
  assumes "e < 64"
  shows "take_bit e (take_bit e (w :: u64) + x) = take_bit e (w + x)"
    "take_bit e (x - take_bit e (w :: u64)) = take_bit e (x - w)"
  by (rule word_uint_eqI, simp add: uint_take_bit uint_word_ariths mod_64_cancel [OF assms] mod_simps)+

text \<open>Rotating left moves the element with the index \<open>i\<close> to the index \<open>i + a\<close>.\<close>

lemma sb_rotate_left_get:
  assumes "sb_inv e s"
  shows "sb_get (sb_rotate_left a s) i = sb_get s (i - a)"
proof -
  have e: "e < 64" using assms by (simp add: sb_inv_def)
  have "take_bit e (take_bit e (buffer_start s - a) + i) = take_bit e (buffer_start s + (i - a))"
    unfolding take_bit_collect [OF e] by (simp add: algebra_simps)
  then show ?thesis using assms by (auto simp: sb_get_def sb_rotate_left_def sb_inv_def and_mask_word)
qed

lemma sb_rotate_right_get:
  assumes "sb_inv e s"
  shows "sb_get (sb_rotate_right a s) i = sb_get s (i + a)"
proof -
  have e: "e < 64" using assms by (simp add: sb_inv_def)
  have "take_bit e (take_bit e (buffer_start s + a) + i) = take_bit e (buffer_start s + (i + a))"
    unfolding take_bit_collect [OF e] by (simp add: algebra_simps)
  then show ?thesis using assms by (auto simp: sb_get_def sb_rotate_right_def sb_inv_def and_mask_word)
qed

lemma id_of_index:
  assumes "sb_inv e s"
  shows "sb_get_element_index s (sb_get_element_id s i) = take_bit e i"
proof -
  have e: "e < 64" using assms by (simp add: sb_inv_def)
  have "take_bit e (take_bit e (buffer_start s + i) - buffer_start s) = take_bit e i"
    using take_bit_collect(1) [OF e, of "buffer_start s + i" "- buffer_start s"] by (simp add: algebra_simps)
  then show ?thesis using assms
    by (simp add: sb_get_element_index_def sb_get_element_id_def sb_inv_def and_mask_word)
qed

text \<open>An element keeps its id under rotation; its index moves with it.\<close>

lemma index_after_rotation:
  assumes "sb_inv e s"
  shows "sb_get_element_index (sb_rotate_left a s) n = take_bit e (sb_get_element_index s n + a)"
    "sb_get_element_index (sb_rotate_right a s) n = take_bit e (sb_get_element_index s n - a)"
proof -
  have e: "e < 64" using assms by (simp add: sb_inv_def)
  have "take_bit e (n - take_bit e (buffer_start s - a)) = take_bit e (take_bit e (n - buffer_start s) + a)"
    unfolding take_bit_collect [OF e] by (simp add: algebra_simps)
  then show "sb_get_element_index (sb_rotate_left a s) n = take_bit e (sb_get_element_index s n + a)"
    using assms by (simp add: sb_get_element_index_def sb_rotate_left_def sb_inv_def and_mask_word)
  have "take_bit e (n - take_bit e (buffer_start s + a)) = take_bit e (take_bit e (n - buffer_start s) + (- a))"
    unfolding take_bit_collect [OF e] by (simp add: algebra_simps)
  then show "sb_get_element_index (sb_rotate_right a s) n = take_bit e (sb_get_element_index s n - a)"
    using assms by (simp add: sb_get_element_index_def sb_rotate_right_def sb_inv_def and_mask_word)
qed

lemma sb_get_take_bit:
  assumes "sb_inv e s"
  shows "sb_get s (take_bit e i) = sb_get s i"
  using sb_get_cells [OF assms] by (simp add: unat_take_bit)

lemma double_size_eq: "double_size e n = push_bit e n"
  by (induction e arbitrary: n) simp_all

lemma unat_power_of_2:
  assumes "k < 64"
  shows "unat (2 ^ k :: u64) = 2 ^ k"
proof -
  have "(2 :: nat) ^ k < 2 ^ 64" using assms by (intro power_strict_increasing) simp_all
  then have "unat (of_nat (2 ^ k) :: u64) = 2 ^ k" unfolding unat_of_nat by simp
  then show ?thesis by simp
qed

lemma sb_set_size_inv:
  assumes "unat exp_size < 64"
  shows "fst (sb_set_size True init exp_size s) = False"
    "sb_inv (unat exp_size) (snd (sb_set_size True init exp_size s))"
proof -
  have "double_size (unat exp_size) 1 = 2 ^ unat exp_size" by (simp add: double_size_eq push_bit_eq_mult)
  moreover have "unat (2 ^ unat exp_size :: u64) = 2 ^ unat exp_size" by (rule unat_power_of_2 [OF assms])
  ultimately show "sb_inv (unat exp_size) (snd (sb_set_size True init exp_size s))"
    using assms by (simp add: sb_set_size_def sb_inv_def Let_def)
qed (simp add: sb_set_size_def Let_def)

subsection \<open>The interface of ring buffers\<close>

text \<open>
  The compression buffers are templates over any implementation of
  \<open>sliding_buffer/sliding_buffer_kernel_abstract.h\<close>.  The locale states what they use of it.
\<close>

locale ring_buffer =
  fixes inv :: "nat \<Rightarrow> 's \<Rightarrow> bool"
    and get :: "'s \<Rightarrow> u64 \<Rightarrow> 'a c"
    and put :: "u64 \<Rightarrow> 'a \<Rightarrow> 's \<Rightarrow> 's c"
    and rot :: "u64 \<Rightarrow> 's \<Rightarrow> 's"
    and id_of :: "'s \<Rightarrow> u64 \<Rightarrow> u64"
    and index_of :: "'s \<Rightarrow> u64 \<Rightarrow> u64"
  assumes inv_exp: "inv e s \<Longrightarrow> e < 64"
    and get_ok: "inv e s \<Longrightarrow> \<exists>x. get s i = Inr x"
    and rot_inv: "inv e s \<Longrightarrow> inv e (rot a s)"
    and rot_get: "inv e s \<Longrightarrow> get (rot a s) i = get s (i - a)"
    and put_ok: "inv e s \<Longrightarrow> \<exists>s'. put i x s = Inr s' \<and> inv e s' \<and>
      (\<forall>j. get s' j = (if take_bit e j = take_bit e i then Inr x else get s j)) \<and>
      (\<forall>n. index_of s' n = index_of s n)"
    and index_id: "inv e s \<Longrightarrow> index_of s (id_of s i) = take_bit e i"
    and index_rot: "inv e s \<Longrightarrow> index_of (rot a s) n = take_bit e (index_of s n + a)"
begin

text \<open>Shifting one element in at index 0, as both compression buffers do.\<close>

definition shift_in :: "'a \<Rightarrow> 's \<Rightarrow> 's c" where
  "shift_in x s = put 0 x (rot 1 s)"

lemma shift_in_ok:
  assumes "inv e s"
  shows "\<exists>s'. shift_in x s = Inr s' \<and> inv e s' \<and> get s' 0 = Inr x \<and>
    (\<forall>i. take_bit e (i + 1) \<noteq> 0 \<longrightarrow> get s' (i + 1) = get s i) \<and>
    (\<forall>n. index_of s' n = take_bit e (index_of s n + 1))"
  using put_ok [OF rot_inv [OF assms], of 0 x] rot_get [OF assms, of 1] index_rot [OF assms, of 1]
  unfolding shift_in_def by fastforce

fun shift_all :: "'a list \<Rightarrow> 's \<Rightarrow> 's c" where
  "shift_all [] s = Inr s"
| "shift_all (x # xs) s = c_bind (shift_in x s) (\<lambda>s. shift_all xs s)"

lemma take_bit_Suc_word:
  assumes "e < 64" "Suc k < 2 ^ e"
  shows "take_bit e (of_nat k + 1 :: u64) = of_nat (Suc k)" "of_nat (Suc k) \<noteq> (0 :: u64)"
proof -
  have "(2 :: nat) ^ e < 2 ^ 64" using assms(1) by (intro power_strict_increasing) simp_all
  then have k: "unat (of_nat (Suc k) :: u64) = Suc k" using assms(2) unfolding unat_of_nat by simp
  have "unat (take_bit e (of_nat (Suc k) :: u64)) = unat (of_nat (Suc k) :: u64)"
    unfolding unat_take_bit k using assms(2) by simp
  then show "take_bit e (of_nat k + 1 :: u64) = of_nat (Suc k)"
    by (simp add: add.commute flip: word_unat_eq_iff)
  show "of_nat (Suc k) \<noteq> (0 :: u64)" using k by (metis nat.distinct(1) unsigned_0)
qed

text \<open>
  The element at index \<open>k\<close>, and every id that denotes it, move up one index per shift until they
  fall out of the buffer.
\<close>

lemma shift_all_moves:
  assumes "inv e s" "get s (of_nat k) = Inr y" "index_of s n = of_nat k" "k + length xs < 2 ^ e"
  shows "\<exists>s'. shift_all xs s = Inr s' \<and> inv e s' \<and> get s' (of_nat (k + length xs)) = Inr y \<and>
    index_of s' n = of_nat (k + length xs)"
  using assms
proof (induction xs arbitrary: s k)
  case (Cons x xs)
  have "Suc k < 2 ^ e" using Cons.prems(4) by simp
  note w = take_bit_Suc_word [OF inv_exp [OF Cons.prems(1)] this]
  obtain s' where s': "shift_in x s = Inr s'" "inv e s'" "get s' 0 = Inr x"
    "\<forall>i. take_bit e (i + 1) \<noteq> 0 \<longrightarrow> get s' (i + 1) = get s i"
    "\<forall>n. index_of s' n = take_bit e (index_of s n + 1)"
    using shift_in_ok [OF Cons.prems(1), of x] by blast
  have "get s' (of_nat (Suc k)) = Inr y" using s'(4) w Cons.prems(2) by (metis add.commute of_nat_Suc)
  moreover have "index_of s' n = of_nat (Suc k)" using s'(5) w(1) Cons.prems(3) by simp
  moreover have "Suc k + length xs < 2 ^ e" using Cons.prems(4) by simp
  moreover have "k + length (x # xs) = Suc k + length xs" by simp
  ultimately show ?case using Cons.IH [OF s'(2), of "Suc k"] s'(1)
    by (simp only: shift_all.simps c_bind_simps)
qed simp

end

interpretation sb: ring_buffer sb_inv sb_get sb_put sb_rotate_left sb_get_element_id sb_get_element_index
proof unfold_locales
  fix e :: nat and s :: "'a sbuf" and i a n x
  show "sb_inv e s \<Longrightarrow> e < 64" by (simp add: sb_inv_def)
  show "sb_inv e s \<Longrightarrow> \<exists>x. sb_get s i = Inr x" using sb_get_cells by blast
  show "sb_inv e s \<Longrightarrow> sb_inv e (sb_rotate_left a s)" by (rule sb_rotate_inv)
  show "sb_inv e s \<Longrightarrow> sb_get (sb_rotate_left a s) i = sb_get s (i - a)" by (rule sb_rotate_left_get)
  show "sb_inv e s \<Longrightarrow> sb_get_element_index s (sb_get_element_id s i) = take_bit e i" by (rule id_of_index)
  show "sb_inv e s \<Longrightarrow> sb_get_element_index (sb_rotate_left a s) n = take_bit e (sb_get_element_index s n + a)"
    by (rule index_after_rotation)
  assume inv: "sb_inv e s"
  obtain s' where s': "sb_put i x s = Inr s'" "sb_inv e s'"
    "cells e s' = (cells e s)[unat i mod 2 ^ e := x]" "buffer_start s' = buffer_start s"
    using sb_put_cells [OF inv] .
  have "sb_get s' j = (if take_bit e j = take_bit e i then Inr x else sb_get s j)" for j
    unfolding sb_get_cells [OF inv] sb_get_cells [OF s'(2)] s'(3)
    by (auto simp: word_unat_eq_iff unat_take_bit nth_list_update)
  moreover have "sb_get_element_index s' m = sb_get_element_index s m" for m
    using s'(2,4) inv by (simp add: sb_get_element_index_def sb_inv_def)
  ultimately show "\<exists>s'. sb_put i x s = Inr s' \<and> sb_inv e s' \<and>
      (\<forall>j. sb_get s' j = (if take_bit e j = take_bit e i then Inr x else sb_get s j)) \<and>
      (\<forall>n. sb_get_element_index s' n = sb_get_element_index s n)" using s'(1,2) by blast
qed

subsection \<open>Reading a buffer back\<close>

text \<open>
  \<open>deserialize\<close>: the exponent is found by halving the size; \<open>input\<close> holds the elements that can be
  read from the stream, and the flag says whether the call threw.
\<close>

function halvings :: "nat \<Rightarrow> nat" where
  "halvings n = (if n \<le> 1 then 0 else Suc (halvings (n div 2)))"
  by pat_completeness auto
termination by (relation "measure id") auto

declare halvings.simps [simp del]

fun sb_read_all :: "u64 \<Rightarrow> nat \<Rightarrow> 'a list \<Rightarrow> 'a sbuf \<Rightarrow> (bool \<times> 'a sbuf) c" where
  "sb_read_all i 0 input s = Inr (False, s)"
| "sb_read_all i (Suc n) [] s = Inr (True, sb_clear s)"
| "sb_read_all i (Suc n) (x # input) s = c_bind (sb_put i x s) (\<lambda>s. sb_read_all (i + 1) n input s)"

definition sb_deserialize :: "'a \<Rightarrow> u64 option \<Rightarrow> 'a list \<Rightarrow> 'a sbuf \<Rightarrow> (bool \<times> 'a sbuf) c" where
  "sb_deserialize init n input s =
    (let s = sb_clear s in
     case n of
       None \<Rightarrow> Inr (True, sb_clear s)
     | Some n \<Rightarrow>
         if n = 0 then Inr (False, s)
         else let s = snd (sb_set_size True init (of_nat (halvings (unat n))) s)
              in sb_read_all 0 (unat (sb_size s)) input s)"

lemma halvings_power: "halvings (2 ^ e) = e"
proof (induction e)
  case 0
  show ?case by (simp add: halvings.simps)
next
  case (Suc e)
  have "(1 :: nat) < 2 ^ Suc e" by (rule one_less_power) simp_all
  then have "\<not> (2 :: nat) ^ Suc e \<le> 1" by linarith
  then show ?case using Suc by (subst halvings.simps) simp
qed

subsection \<open>The buffer keeps its promises\<close>

text \<open>
  In a buffer of \<open>2 ^ e\<close> elements every index is in range, \<open>rotate_left\<close> and \<open>rotate_right\<close>
  move the elements as documented, with the wrap-around of the 64-bit arithmetic, and an element
  id denotes the same element before and after a rotation.
\<close>

theorem sliding_buffer_rotation:
  assumes "sb_inv e s"
  shows "(\<exists>x. sb_get s i = Inr x) \<and>
    sb_inv e (sb_rotate_left a s) \<and> sb_get (sb_rotate_left a s) i = sb_get s ((i - a) AND (sb_size s - 1)) \<and>
    sb_inv e (sb_rotate_right a s) \<and> sb_get (sb_rotate_right a s) i = sb_get s ((i + a) AND (sb_size s - 1)) \<and>
    sb_get (sb_rotate_left a s) (sb_get_element_index (sb_rotate_left a s) (sb_get_element_id s i)) = sb_get s i"
proof -
  have m: "(w :: u64) AND (sb_size s - 1) = take_bit e w" for w
    using assms by (simp add: sb_inv_def sb_size_def and_mask_word)
  have "sb_get (sb_rotate_left a s) (sb_get_element_index (sb_rotate_left a s) (sb_get_element_id s i)) =
      sb_get (sb_rotate_left a s) (take_bit e (take_bit e i + a))"
    using index_after_rotation(1) [OF assms, of a "sb_get_element_id s i"] id_of_index [OF assms, of i] by simp
  also have "\<dots> = sb_get (sb_rotate_left a s) (i + a)"
    using take_bit_collect(1) [of e i a] assms sb_get_take_bit [OF sb_rotate_inv(1) [OF assms]]
    by (simp add: sb_inv_def)
  also have "\<dots> = sb_get s i" using sb_rotate_left_get [OF assms, of a "i + a"] by simp
  finally show ?thesis
    using sb_get_cells [OF assms] sb_rotate_inv [OF assms] sb_rotate_left_get [OF assms]
      sb_rotate_right_get [OF assms] sb_get_take_bit [OF assms] by (simp add: m)
qed

definition sample_sbuf :: "u8 sbuf" where
  "sample_sbuf = snd (sb_set_size True 7 2 sb_new)"

lemma sample_sbuf_inv: "sb_inv 2 sample_sbuf"
  using sb_set_size_inv(2) [of 2 "7 :: u8" sb_new] by (simp add: sample_sbuf_def)

theorem sliding_buffer_rotation_witness:
  "sb_inv 2 (sb_rotate_left 5 sample_sbuf) \<and>
   sb_get (sb_rotate_left 5 sample_sbuf) 1 = sb_get sample_sbuf ((1 - 5) AND (sb_size sample_sbuf - 1))"
  using sliding_buffer_rotation [OF sample_sbuf_inv, of 1 5] by blast

end
