(* ===== verification/Lz_Buffers.thy ===== *)
theory Lz_Buffers
  imports Sliding_Buffer
begin

text \<open>
  The two compression buffers over a sliding buffer:
  \<open>src/dlib-minimal/lib/dlib/lzp_buffer/lzp_buffer_kernel_1.h\<close>, which predicts where a match is,
  and \<open>src/dlib-minimal/lib/dlib/lz77_buffer/lz77_buffer_kernel_1.h\<close>, which searches for one.
  The members of type \<open>unsigned long\<close> are 64-bit words; the loop counters of the search, which
  stay below the history size, are natural numbers.
\<close>

subsection \<open>lzp\_buffer\_kernel\_1\<close>

record lzp =
  lzp_buffer :: "u8 sbuf"
  table :: "u64 list"
  last_element :: u64

definition table_size :: nat where "table_size = 65536"

text \<open>The loop that writes zeros from index \<open>i\<close> on, \<open>n\<close> times.\<close>

fun zero_fill :: "u64 \<Rightarrow> nat \<Rightarrow> u8 sbuf \<Rightarrow> u8 sbuf c" where
  "zero_fill i 0 s = Inr s"
| "zero_fill i (Suc n) s = c_bind (sb_put i 0 s) (\<lambda>s. zero_fill (i + 1) n s)"

definition lzp_new :: "u64 \<Rightarrow> lzp c" where
  "lzp_new n =
    (let b = snd (sb_set_size True 0 n sb_new) in
     c_bind (zero_fill 0 (unat (sb_size b)) b) (\<lambda>b.
     Inr \<lparr> lzp_buffer = b, table = replicate table_size (sb_size b), last_element = sb_size b - 1 \<rparr>))"

definition lzp_clear :: "lzp \<Rightarrow> lzp c" where
  "lzp_clear s =
    c_bind (zero_fill 0 (unat (sb_size (lzp_buffer s))) (lzp_buffer s)) (\<lambda>b.
    Inr (s \<lparr> lzp_buffer := b, table := replicate table_size (sb_size b) \<rparr>))"

definition lzp_add :: "u8 \<Rightarrow> lzp \<Rightarrow> lzp c" where
  "lzp_add symbol s =
    c_bind (sb_put 0 symbol (sb_rotate_left 1 (lzp_buffer s))) (\<lambda>b. Inr (s \<lparr> lzp_buffer := b \<rparr>))"

definition lzp_hash :: "lzp \<Rightarrow> u64 c" where
  "lzp_hash s =
    c_bind (sb_get (lzp_buffer s) 0) (\<lambda>b0.
    c_bind (sb_get (lzp_buffer s) 1) (\<lambda>b1.
    c_bind (sb_get (lzp_buffer s) 2) (\<lambda>b2.
    let temp = push_bit 16 (ucast b0) OR push_bit 8 (ucast b1) OR ucast b2
    in Inr ((drop_bit 11 temp XOR temp) AND 0xFFFF))))"

text \<open>
  The order of the prediction, the index that is set by it, and the new state.  An access beyond
  \<open>table\<close> would be out of bounds.
\<close>

definition lzp_predict_match :: "lzp \<Rightarrow> (u64 \<times> u64 option \<times> lzp) c" where
  "lzp_predict_match s =
    c_bind (lzp_hash s) (\<lambda>i.
    if unat i < length (table s) then
      (let t = table s ! unat i; fresh = sb_get_element_id (lzp_buffer s) (last_element s);
           updated = s \<lparr> table := (table s)[unat i := fresh] \<rparr>
       in if t \<noteq> sb_size (lzp_buffer s) then
            (let index = sb_get_element_index (lzp_buffer s) t
             in Inr (3, Some index, if index > 20 then updated else s))
          else Inr (0, None, updated))
    else Inl Out_Of_Bounds)"

definition lzp_size :: "lzp \<Rightarrow> u64" where "lzp_size s = sb_size (lzp_buffer s)"

definition lzp_get :: "lzp \<Rightarrow> u64 \<Rightarrow> u8 c" where "lzp_get s index = sb_get (lzp_buffer s) index"

fun lzp_add_all :: "u8 list \<Rightarrow> lzp \<Rightarrow> lzp c" where
  "lzp_add_all [] s = Inr s"
| "lzp_add_all (x # xs) s = c_bind (lzp_add x s) (\<lambda>s. lzp_add_all xs s)"

subsection \<open>Predictions\<close>

definition lzp_inv :: "nat \<Rightarrow> lzp \<Rightarrow> bool" where
  "lzp_inv e s \<longleftrightarrow> sb_inv e (lzp_buffer s) \<and> length (table s) = table_size \<and> last_element s = 2 ^ e - 1"

lemma lzp_hash_bound:
  assumes "lzp_hash s = Inr h"
  shows "unat h < table_size"
proof -
  obtain w :: u64 where "h = w AND 0xFFFF" using assms by (auto simp: lzp_hash_def Let_def c_simps)
  then have "h \<le> 0xFFFF" using word_and_le1 [of w "0xFFFF"] by simp
  then show ?thesis by (simp add: table_size_def word_le_nat_alt)
qed

lemma lzp_hash_ok: "lzp_inv e s \<Longrightarrow> \<exists>h. lzp_hash s = Inr h"
  using sb_get_cells by (fastforce simp: lzp_inv_def lzp_hash_def Let_def)

lemma lzp_add_all_buffer:
  "lzp_add_all xs s = c_bind (sb.shift_all xs (lzp_buffer s)) (\<lambda>b. Inr (s \<lparr> lzp_buffer := b \<rparr>))"
proof (induction xs arbitrary: s)
  case (Cons x xs)
  show ?case
    by (cases "sb_put 0 x (sb_rotate_left 1 (lzp_buffer s))")
      (simp_all add: lzp_add_def Cons.IH sb.shift_in_def)
qed simp

lemma sb_size_id_differ:
  assumes "sb_inv e s"
  shows "sb_get_element_id s i \<noteq> sb_size s"
proof -
  have "unat (sb_get_element_id s i) < 2 ^ e" using unat_index [OF assms, of i] by (simp add: sb_get_element_id_def)
  moreover have "unat (sb_size s) = 2 ^ e" using assms unat_power_of_2 [of e] by (simp add: sb_size_def sb_inv_def)
  ultimately show ?thesis by auto
qed

lemma take_bit_of_power: "take_bit e (2 ^ e :: u64) = 0"
  by (rule bit_word_eqI) (auto simp: bit_take_bit_iff bit_exp_iff)

lemma last_index_plus_1:
  assumes "e < 64"
  shows "take_bit e (take_bit e (2 ^ e - 1) + 1 :: u64) = 0"
  using take_bit_collect(1) [OF assms, of "2 ^ e - 1" 1] take_bit_of_power [of e] by simp

text \<open>
  When \<open>predict_match\<close> records the current context, the prediction it will make the next time
  the context recurs points at the symbol that followed the context: after the symbols
  \<open>x # xs\<close> it predicts the index \<open>length xs\<close>, where \<open>x\<close> stands.
\<close>

theorem lzp_prediction_correct:
  assumes "lzp_inv e s" "lzp_predict_match s = Inr (order, index, s1)"
    "case index of None \<Rightarrow> True | Some i \<Rightarrow> 20 < i"
    "lzp_add_all (x # xs) s1 = Inr s2" "length xs < 2 ^ e" "lzp_hash s2 = lzp_hash s"
  shows "\<exists>s3. lzp_predict_match s2 = Inr (3, Some (of_nat (length xs)), s3) \<and>
    lzp_get s2 (of_nat (length xs)) = Inr x"
proof -
  obtain h where h: "lzp_hash s = Inr h" using lzp_hash_ok [OF assms(1)] by blast
  have hb: "unat h < length (table s)" using lzp_hash_bound [OF h] assms(1) by (simp add: lzp_inv_def)
  have inv: "sb_inv e (lzp_buffer s)" "last_element s = 2 ^ e - 1" using assms(1) by (simp_all add: lzp_inv_def)
  let ?id = "sb_get_element_id (lzp_buffer s) (last_element s)"
  have s1: "s1 = s \<lparr> table := (table s)[unat h := ?id] \<rparr>"
    using assms(2,3) h hb by (auto simp: lzp_predict_match_def Let_def split: if_splits)
  obtain b1 where b1: "sb.shift_in x (lzp_buffer s) = Inr b1" "sb_inv e b1" "sb_get b1 0 = Inr x"
    "\<forall>n. sb_get_element_index b1 n = take_bit e (sb_get_element_index (lzp_buffer s) n + 1)"
    using sb.shift_in_ok [OF inv(1), of x] by blast
  have "sb_get_element_index b1 ?id = 0"
    using b1(4) id_of_index [OF inv(1)] inv(2) last_index_plus_1 [OF sb.inv_exp [OF inv(1)]] by simp
  then obtain b2 where b2: "sb.shift_all xs b1 = Inr b2" "sb_inv e b2" "sb_get b2 (of_nat (length xs)) = Inr x"
    "sb_get_element_index b2 ?id = of_nat (length xs)"
    using sb.shift_all_moves [OF b1(2), of 0 x ?id xs] b1(3) assms(5) by auto
  have s2: "s2 = s1 \<lparr> lzp_buffer := b2 \<rparr>"
    using assms(4) b1(1) b2(1) s1 by (simp add: lzp_add_all_buffer del: lzp_add_all.simps)
  have "?id \<noteq> sb_size b2"
    using sb_size_id_differ [OF inv(1)] inv(1) b2(2) by (simp add: sb_inv_def sb_size_def)
  then show ?thesis using s2 s1 b2(3,4) h hb assms(6)
    by (auto simp: lzp_predict_match_def Let_def lzp_get_def)
qed

text \<open>
  The prediction at work on a small buffer: the context of three zeros is recorded, the symbols
  5, 0, 0, 0 follow, and the context recurs.
\<close>

definition sample_lzp :: lzp where
  "sample_lzp = \<lparr> lzp_buffer = snd (sb_set_size True 0 3 sb_new), table = replicate table_size 8, last_element = 7 \<rparr>"

lemma sample_lzp_inv: "lzp_inv 3 sample_lzp"
  using sb_set_size_inv(2) [of 3 "0 :: u8" sb_new] by (simp add: sample_lzp_def lzp_inv_def)

lemma sample_lzp_run:
  defines "s1 \<equiv> sample_lzp \<lparr> table := (table sample_lzp)[0 := 7] \<rparr>"
  defines "s2 \<equiv> s1 \<lparr> lzp_buffer := (lzp_buffer s1) \<lparr> buffer_start := 4, buffer := Some [0, 0, 0, 0, 0, 0, 0, 5] \<rparr> \<rparr>"
  shows "lzp_predict_match sample_lzp = Inr (0, None, s1)" "lzp_add_all [5, 0, 0, 0] s1 = Inr s2"
    "lzp_hash s2 = lzp_hash sample_lzp"
proof -
  have b: "lzp_buffer sample_lzp = \<lparr> buffer_start = 0, buffer_size = 8,
      buffer = Some [0, 0, 0, 0, 0, 0, 0, 0], mask_of = 7, current = 0, sb_start = True \<rparr>"
    by (simp add: sample_lzp_def sb_set_size_def Let_def double_size_eq push_bit_eq_mult sb_new_def
        replicate_rec)
  have t: "length (table sample_lzp) = 65536" "table sample_lzp ! 0 = 8" "last_element sample_lzp = 7"
    by (simp_all add: sample_lzp_def table_size_def)
  have h: "lzp_hash sample_lzp = Inr 0" by (simp add: lzp_hash_def b sb_get_def Let_def)
  then show "lzp_predict_match sample_lzp = Inr (0, None, s1)"
    by (simp add: lzp_predict_match_def t b sb_size_def sb_get_element_id_def s1_def Let_def)
  show "lzp_add_all [5, 0, 0, 0] s1 = Inr s2"
    by (simp add: s1_def s2_def lzp_add_def b sb_rotate_left_def sb_put_def Let_def)
  show "lzp_hash s2 = lzp_hash sample_lzp"
    using h by (simp add: lzp_hash_def s1_def s2_def b sb_get_def Let_def)
qed

theorem lzp_prediction_correct_witness:
  "\<exists>s1 s2 s3. lzp_predict_match sample_lzp = Inr (0, None, s1) \<and> lzp_add_all [5, 0, 0, 0] s1 = Inr s2 \<and>
    lzp_predict_match s2 = Inr (3, Some 3, s3) \<and> lzp_get s2 3 = Inr 5"
  using lzp_prediction_correct [OF sample_lzp_inv sample_lzp_run(1) _ sample_lzp_run(2) _ sample_lzp_run(3)]
    sample_lzp_run(1,2) by auto

subsection \<open>lz77\_buffer\_kernel\_1\<close>

record lz77 =
  lz_buffer :: "u8 sbuf"
  lookahead_limit :: u64
  history_limit :: u64
  lookahead_size :: u64
  history_size :: u64

definition lz77_new :: "u64 \<Rightarrow> u64 \<Rightarrow> lz77" where
  "lz77_new total_limit limit =
    (let b = snd (sb_set_size True 0 total_limit sb_new)
     in \<lparr> lz_buffer = b, lookahead_limit = limit, history_limit = sb_size b - limit,
          lookahead_size = 0, history_size = 0 \<rparr>)"

definition lz77_clear :: "lz77 \<Rightarrow> lz77" where
  "lz77_clear s = s \<lparr> lookahead_size := 0, history_size := 0 \<rparr>"

definition lookahead_buffer :: "lz77 \<Rightarrow> u64 \<Rightarrow> u8 c" where
  "lookahead_buffer s index = sb_get (lz_buffer s) (lookahead_limit s - 1 - index)"

definition history_buffer :: "lz77 \<Rightarrow> u64 \<Rightarrow> u8 c" where
  "history_buffer s index = sb_get (lz_buffer s) (lookahead_limit s + index)"

definition shift_buffer :: "u64 \<Rightarrow> lz77 \<Rightarrow> lz77" where
  "shift_buffer n s =
    (let temp = history_size s + n in
     s \<lparr> lz_buffer := sb_rotate_left n (lz_buffer s), lookahead_size := lookahead_size s - n,
         history_size := (if temp < history_limit s then temp else history_limit s) \<rparr>)"

definition lz77_shift_buffers :: "u64 \<Rightarrow> lz77 \<Rightarrow> lz77" where
  "lz77_shift_buffers n s = shift_buffer n s"

definition lz77_add :: "u8 \<Rightarrow> lz77 \<Rightarrow> lz77 c" where
  "lz77_add symbol s =
    (let s = (if lookahead_size s = lookahead_limit s then shift_buffer 1 s else s) in
     c_bind (sb_put (lookahead_limit s - 1 - lookahead_size s) symbol (lz_buffer s)) (\<lambda>b.
     Inr (s \<lparr> lz_buffer := b, lookahead_size := lookahead_size s + 1 \<rparr>)))"

text \<open>
  The search loop, from \<open>hpos\<close> downwards: it returns the final values of \<open>hpos\<close>, \<open>lpos\<close>,
  \<open>match_length\<close> and \<open>match_index\<close>.
\<close>

fun match_loop :: "lz77 \<Rightarrow> nat \<Rightarrow> nat \<Rightarrow> nat \<Rightarrow> nat \<Rightarrow> (nat \<times> nat \<times> nat \<times> nat) c" where
  "match_loop s 0 lpos match_length match_index = Inr (0, lpos, match_length, match_index)"
| "match_loop s (Suc hpos) lpos match_length match_index =
    c_bind (history_buffer s (of_nat hpos)) (\<lambda>a.
    c_bind (lookahead_buffer s (of_nat lpos)) (\<lambda>b.
    if a = b then
      if Suc lpos = unat (lookahead_size s) then Inr (hpos, Suc lpos, match_length, match_index)
      else match_loop s hpos (Suc lpos) match_length match_index
    else if lpos > 0 then
      if lpos > match_length then match_loop s hpos 0 lpos (hpos + lpos)
      else match_loop s hpos 0 match_length match_index
    else match_loop s hpos lpos match_length match_index))"

text \<open>The length of the match, its index, and the new state.\<close>

definition find_match :: "nat \<Rightarrow> lz77 \<Rightarrow> (nat \<times> nat option \<times> lz77) c" where
  "find_match min_match_length s =
    c_bind (match_loop s (unat (history_size s)) 0 0 0) (\<lambda>(hpos, lpos, ml, mi).
    let (match_length, match_index) = (if lpos > ml then (lpos, hpos + lpos - 1) else (ml, mi)) in
    if match_length \<ge> min_match_length
    then Inr (match_length, Some match_index, shift_buffer (of_nat match_length) s)
    else Inr (0, None, s))"

subsection \<open>Shifting and matching\<close>

definition lz77_inv :: "nat \<Rightarrow> lz77 \<Rightarrow> bool" where
  "lz77_inv e s \<longleftrightarrow> sb_inv e (lz_buffer s) \<and> lookahead_size s \<le> lookahead_limit s \<and>
    history_size s \<le> history_limit s \<and> 0 < unat (lookahead_limit s) \<and>
    unat (history_limit s) + unat (lookahead_limit s) = 2 ^ e"

text \<open>The part of the lookahead that matches the history downwards from \<open>i\<close>.\<close>

definition matches :: "lz77 \<Rightarrow> nat \<Rightarrow> nat \<Rightarrow> bool" where
  "matches s i n \<longleftrightarrow> n \<le> Suc i \<and>
    (\<forall>j < n. history_buffer s (of_nat (i - j)) = lookahead_buffer s (of_nat j))"

lemma match_loop_correct:
  assumes "lz77_inv e s" "lpos < unat (lookahead_size s)" "hpos + lpos \<le> unat (history_size s)"
    "lpos > 0 \<Longrightarrow> matches s (hpos + lpos - 1) lpos"
    "ml > 0 \<Longrightarrow> matches s mi ml \<and> mi < unat (history_size s)" "ml \<le> unat (lookahead_size s)"
  shows "\<exists>hpos' lpos' ml' mi'. match_loop s hpos lpos ml mi = Inr (hpos', lpos', ml', mi') \<and>
    lpos' \<le> unat (lookahead_size s) \<and> hpos' + lpos' \<le> unat (history_size s) \<and>
    (lpos' > 0 \<longrightarrow> matches s (hpos' + lpos' - 1) lpos') \<and>
    (ml' > 0 \<longrightarrow> matches s mi' ml' \<and> mi' < unat (history_size s)) \<and> ml' \<le> unat (lookahead_size s)"
  using assms
proof (induction hpos arbitrary: lpos ml mi)
  case 0
  then show ?case by simp
next
  case (Suc hpos)
  have inv: "sb_inv e (lz_buffer s)" using Suc.prems(1) by (simp add: lz77_inv_def)
  obtain a b where ab: "history_buffer s (of_nat hpos) = Inr a" "lookahead_buffer s (of_nat lpos) = Inr b"
    using sb.get_ok [OF inv] unfolding history_buffer_def lookahead_buffer_def by blast
  show ?case
  proof (cases "a = b")
    case True
    have m: "matches s (hpos + lpos) (Suc lpos)"
    proof (cases "lpos = 0")
      case False
      then have "matches s (hpos + lpos) lpos" using Suc.prems(4) by simp
      then show ?thesis using ab True by (auto simp: matches_def less_Suc_eq)
    qed (use ab True in \<open>simp add: matches_def\<close>)
    show ?thesis
    proof (cases "Suc lpos = unat (lookahead_size s)")
      case True
      then have "hpos + unat (lookahead_size s) - 1 = hpos + lpos" by simp
      then show ?thesis using True ab \<open>a = b\<close> m Suc.prems by simp
    next
      case False
      then show ?thesis using ab \<open>a = b\<close> m Suc.prems Suc.IH [of "Suc lpos" ml mi] by simp
    qed
  next
    case False
    have z: "0 < unat (lookahead_size s)" using Suc.prems(2) by simp
    show ?thesis
    proof (cases "lpos > 0 \<and> lpos > ml")
      case True
      then have "matches s (hpos + lpos) lpos" using Suc.prems(4) by simp
      then show ?thesis using ab False True Suc.prems z Suc.IH [of 0 lpos "hpos + lpos"] by simp
    next
      case no: False
      then show ?thesis using ab False Suc.prems z Suc.IH [of 0 ml mi] by auto
    qed
  qed
qed

text \<open>
  C30. With something to look for, \<open>find_match\<close> never reads out of bounds, and what it reports is a
  match: it has the asked length, lies in the history, is no longer than the lookahead, and every
  one of its symbols is the one in the history; the buffers are then shifted by its length.  When
  nothing is reported the buffers are as before.
\<close>

theorem find_match_sound:
  assumes "lz77_inv e s" "lookahead_size s \<noteq> 0"
  shows "\<exists>n index s'. find_match min_length s = Inr (n, index, s') \<and>
    (if n = 0 then index = None \<and> s' = s \<or> min_length = 0 \<and> s' = shift_buffer 0 s
     else \<exists>i. index = Some i \<and> min_length \<le> n \<and> n \<le> unat (lookahead_size s) \<and> i < unat (history_size s) \<and>
       n \<le> Suc i \<and> (\<forall>j < n. history_buffer s (of_nat (i - j)) = lookahead_buffer s (of_nat j)) \<and>
       s' = shift_buffer (of_nat n) s)"
proof -
  have "0 < unat (lookahead_size s)" using assms(2) by (simp add: unat_gt_0)
  then obtain hpos lpos ml mi where m: "match_loop s (unat (history_size s)) 0 0 0 = Inr (hpos, lpos, ml, mi)"
    "lpos \<le> unat (lookahead_size s)" "hpos + lpos \<le> unat (history_size s)"
    "lpos > 0 \<longrightarrow> matches s (hpos + lpos - 1) lpos"
    "ml > 0 \<longrightarrow> matches s mi ml \<and> mi < unat (history_size s)" "ml \<le> unat (lookahead_size s)"
    using match_loop_correct [OF assms(1), of 0 "unat (history_size s)" 0 0] by auto
  show ?thesis
  proof (cases "lpos > ml")
    case True
    then show ?thesis using m by (auto simp: find_match_def matches_def)
  next
    case False
    then show ?thesis using m by (auto simp: find_match_def matches_def)
  qed
qed

definition sample_lz77 :: lz77 where
  "sample_lz77 = (lz77_new 2 2) \<lparr> lookahead_size := 1, history_size := 1 \<rparr>"

lemma sample_lz77_inv: "lz77_inv 2 sample_lz77"
  using sb_set_size_inv(2) [of 2 "0 :: u8" sb_new]
  by (simp add: sample_lz77_def lz77_inv_def lz77_new_def Let_def)
    (simp add: sb_set_size_def Let_def sb_size_def double_size_eq push_bit_eq_mult)

theorem find_match_sound_witness:
  "\<exists>n index s'. find_match 1 sample_lz77 = Inr (n, index, s') \<and> n \<le> unat (lookahead_size sample_lz77)"
proof -
  have "lookahead_size sample_lz77 \<noteq> 0" by (simp add: sample_lz77_def)
  from find_match_sound [OF sample_lz77_inv this, of 1] show ?thesis by (auto split: if_splits)
qed

text \<open>
  With an empty lookahead buffer, which the specification of \<open>find_match\<close> allows, the search
  compares the history with a stale symbol, reports a match longer than the lookahead, and the
  size of the lookahead buffer wraps around to \<open>2 ^ 64 - 1\<close>.
\<close>

theorem find_match_empty_lookahead:
  assumes "lz77_inv e s" "lookahead_size s = 0" "history_size s = 1"
    "history_buffer s 0 = lookahead_buffer s 0"
  shows "\<exists>s'. find_match 1 s = Inr (1, Some 0, s') \<and> lookahead_size s' = 2 ^ 64 - 1"
proof -
  obtain a where "history_buffer s 0 = Inr a"
    using sb.get_ok assms(1) unfolding history_buffer_def lz77_inv_def by blast
  then show ?thesis using assms(2-4) by (simp add: find_match_def shift_buffer_def Let_def)
qed

theorem find_match_empty_lookahead_witness:
  "\<exists>s'. find_match 1 (sample_lz77 \<lparr> lookahead_size := 0 \<rparr>) = Inr (1, Some 0, s') \<and>
    lookahead_size s' = 2 ^ 64 - 1"
proof (rule find_match_empty_lookahead)
  show "lz77_inv 2 (sample_lz77 \<lparr> lookahead_size := 0 \<rparr>)" using sample_lz77_inv by (simp add: lz77_inv_def)
qed (simp_all add: sample_lz77_def lz77_new_def history_buffer_def lookahead_buffer_def sb_set_size_def
    Let_def sb_get_def sb_new_def double_size_eq push_bit_eq_mult)

subsection \<open>The window on the stream\<close>

text \<open>
  The two buffers side by side, the oldest symbol of the history first: a window on the stream of
  the symbols added.
\<close>

definition window :: "lz77 \<Rightarrow> u8 c list" where
  "window s = map (\<lambda>i. history_buffer s (of_nat i)) (rev [0..<unat (history_size s)]) @
    map (\<lambda>i. lookahead_buffer s (of_nat i)) [0..<unat (lookahead_size s)]"

definition window_at :: "lz77 \<Rightarrow> nat \<Rightarrow> u8 c" where
  "window_at s p = sb_get (lz_buffer s) (lookahead_limit s + history_size s - 1 - of_nat p)"

lemma window_eq: "window s = map (window_at s) [0..<unat (history_size s) + unat (lookahead_size s)]"
proof (rule nth_equalityI)
  fix p assume p: "p < length (window s)"
  let ?h = "unat (history_size s)"
  have h: "of_nat ?h = history_size s" by simp
  show "window s ! p = map (window_at s) [0..<?h + unat (lookahead_size s)] ! p"
  proof (cases "p < ?h")
    case True
    then have "(of_nat (?h - Suc p) :: u64) = history_size s - 1 - of_nat p" by (simp add: of_nat_diff)
    then show ?thesis using True
      by (simp add: window_def window_at_def history_buffer_def nth_append rev_nth algebra_simps)
  next
    case False
    then have "(of_nat (p - ?h) :: u64) = of_nat p - history_size s" by (simp add: of_nat_diff)
    then show ?thesis using False p
      by (simp add: window_def window_at_def lookahead_buffer_def nth_append algebra_simps)
  qed
qed (simp add: window_def)

lemma lz77_limits:
  assumes "lz77_inv e s"
  shows "unat (lookahead_size s) \<le> unat (lookahead_limit s)" "unat (history_size s) \<le> unat (history_limit s)"
    "unat (history_limit s) + unat (lookahead_limit s) = 2 ^ e" "(2 :: nat) ^ e < 2 ^ 64" "0 < unat (lookahead_limit s)"
proof -
  have "e < 64" using assms by (simp add: lz77_inv_def sb_inv_def)
  then show "(2 :: nat) ^ e < 2 ^ 64" by (intro power_strict_increasing) simp_all
qed (use assms in \<open>simp_all add: lz77_inv_def word_le_nat_alt\<close>)

lemma shift_buffer_sizes:
  assumes "lz77_inv e s" "n \<le> lookahead_size s"
  shows "unat (lookahead_size (shift_buffer n s)) = unat (lookahead_size s) - unat n"
    "unat (history_size (shift_buffer n s)) = min (unat (history_size s) + unat n) (unat (history_limit s))"
    "lz77_inv e (shift_buffer n s)"
proof -
  note l = lz77_limits [OF assms(1)]
  have n: "unat n \<le> unat (lookahead_size s)" using assms(2) by (simp add: word_le_nat_alt)
  show a: "unat (lookahead_size (shift_buffer n s)) = unat (lookahead_size s) - unat n"
    using assms(2) by (simp add: shift_buffer_def Let_def unat_sub)
  have "unat (history_size s + n) = unat (history_size s) + unat n"
    using l n by (subst unat_add_lem [symmetric]) simp
  then show b: "unat (history_size (shift_buffer n s)) = min (unat (history_size s) + unat n) (unat (history_limit s))"
    by (auto simp: shift_buffer_def Let_def word_less_nat_alt)
  show "lz77_inv e (shift_buffer n s)"
    using assms(1) l n a b sb.rot_inv
    by (auto simp: lz77_inv_def word_le_nat_alt shift_buffer_def Let_def)
qed

text \<open>The number of old symbols a shift by \<open>n\<close> pushes out of the history.\<close>

definition forgotten :: "u64 \<Rightarrow> lz77 \<Rightarrow> nat" where
  "forgotten n s = unat (history_size s) + unat n - unat (history_limit s)"

lemma shift_buffer_window_at:
  assumes "lz77_inv e s" "n \<le> lookahead_size s"
  shows "window_at (shift_buffer n s) p = window_at s (forgotten n s + p)"
proof -
  let ?s = "shift_buffer n s"
  have "unat (history_size ?s) + forgotten n s = unat (history_size s) + unat n"
    using shift_buffer_sizes(2) [OF assms] by (simp add: forgotten_def)
  then have "(of_nat (unat (history_size ?s)) :: u64) + of_nat (forgotten n s) = of_nat (unat (history_size s)) + of_nat (unat n)"
    by (metis of_nat_add)
  then have "history_size ?s + of_nat (forgotten n s) = history_size s + n" by simp
  then have h: "history_size ?s = history_size s + n - of_nat (forgotten n s)" by (simp add: algebra_simps)
  have b: "lz_buffer ?s = sb_rotate_left n (lz_buffer s)" "lookahead_limit ?s = lookahead_limit s"
    by (simp_all add: shift_buffer_def Let_def)
  have "sb_get (lz_buffer ?s) i = sb_get (lz_buffer s) (i - n)" for i
    using assms(1) sb_rotate_left_get [of e "lz_buffer s" n] by (simp add: b lz77_inv_def)
  then show ?thesis by (simp add: window_at_def h b algebra_simps)
qed

lemma shift_buffer_window:
  assumes "lz77_inv e s" "n \<le> lookahead_size s"
  shows "window (shift_buffer n s) = drop (forgotten n s) (window s)"
proof -
  have n: "unat n \<le> unat (lookahead_size s)" using assms(2) by (simp add: word_le_nat_alt)
  then have "unat (history_size (shift_buffer n s)) + unat (lookahead_size (shift_buffer n s)) =
    unat (history_size s) + unat (lookahead_size s) - forgotten n s"
    using shift_buffer_sizes [OF assms] by (simp add: forgotten_def)
  then show ?thesis using shift_buffer_window_at [OF assms]
    by (intro nth_equalityI) (simp_all add: window_eq)
qed

lemma take_bit_differ:
  assumes "e < 64" "0 < unat d" "unat d < 2 ^ e"
  shows "take_bit e (x + d) \<noteq> take_bit e (x :: u64)"
proof
  assume "take_bit e (x + d) = take_bit e x"
  then have "take_bit e (x + d - take_bit e x) = take_bit e (x + d - take_bit e (x + d))" by simp
  then have "take_bit e d = 0" unfolding take_bit_collect(2) [OF assms(1)] by simp
  then have "unat d mod 2 ^ e = 0" by (metis unat_take_bit unsigned_0)
  then show False using assms by simp
qed

lemma lz77_add_room:
  assumes "lz77_inv e s" "unat (lookahead_size s) < unat (lookahead_limit s)"
  shows "\<exists>b. sb_put (lookahead_limit s - 1 - lookahead_size s) x (lz_buffer s) = Inr b \<and>
    (let s' = s \<lparr> lz_buffer := b, lookahead_size := lookahead_size s + 1 \<rparr>
     in lz77_inv e s' \<and> window s' = window s @ [Inr x])"
proof -
  note l = lz77_limits [OF assms(1)]
  let ?i = "lookahead_limit s - 1 - lookahead_size s"
  have inv: "sb_inv e (lz_buffer s)" and e: "e < 64" using assms(1) by (auto simp: lz77_inv_def sb_inv_def)
  obtain b where b: "sb_put ?i x (lz_buffer s) = Inr b" "sb_inv e b"
    "\<forall>j. sb_get b j = (if take_bit e j = take_bit e ?i then Inr x else sb_get (lz_buffer s) j)"
    using sb.put_ok [OF inv, of ?i x] by blast
  let ?s = "s \<lparr> lz_buffer := b, lookahead_size := lookahead_size s + 1 \<rparr>"
  let ?n = "unat (history_size s) + unat (lookahead_size s)"
  have sz: "unat (lookahead_size s + 1) = Suc (unat (lookahead_size s))"
    using l assms(2) by (subst unat_add_lem [THEN iffD1]) auto
  have pos: "lookahead_limit s + history_size s - 1 - of_nat p = ?i + of_nat (?n - p)" if "p \<le> ?n" for p
    using that by (simp add: of_nat_diff)
  have "window_at ?s p = window_at s p" if "p < ?n" for p
  proof -
    have "?n - p < 2 ^ e" using l assms(2) by linarith
    then have "unat (of_nat (?n - p) :: u64) = ?n - p" using l(4) by (simp add: unat_of_nat)
    then have "take_bit e (?i + of_nat (?n - p)) \<noteq> take_bit e ?i"
      using that \<open>?n - p < 2 ^ e\<close> by (intro take_bit_differ [OF e]) simp_all
    then have "take_bit e (lookahead_limit s + history_size s - 1 - of_nat p) \<noteq> take_bit e ?i"
      unfolding pos [OF less_imp_le [OF that]] .
    then show ?thesis using b(3) by (simp add: window_at_def)
  qed
  moreover have "window_at ?s ?n = Inr x"
  proof -
    have "lookahead_limit s + history_size s - 1 - of_nat ?n = ?i" unfolding pos [OF order.refl] by simp
    moreover have "window_at ?s ?n = sb_get b (lookahead_limit s + history_size s - 1 - of_nat ?n)"
      by (simp add: window_at_def)
    moreover have "sb_get b ?i = Inr x" using b(3) by simp
    ultimately show ?thesis by metis
  qed
  ultimately have "window ?s = window s @ [Inr x]" by (simp add: window_eq sz)
  moreover have "lz77_inv e ?s" using assms b(2) sz by (simp add: lz77_inv_def word_le_nat_alt)
  ultimately show ?thesis using b(1) by (auto simp: Let_def)
qed

text \<open>
  The two buffers are one window on the stream of symbols: \<open>add\<close> puts its symbol at the end,
  and a full lookahead buffer first gives its oldest symbol to the history; \<open>shift_buffers\<close> only
  moves the boundary between the two.  Nothing is forgotten but the oldest symbols of a full
  history, the sizes are those of the specification, and the invariant is kept.
\<close>

theorem lz77_window_correct:
  assumes "lz77_inv e s"
  shows "(\<exists>s'. lz77_add x s = Inr s' \<and> lz77_inv e s' \<and>
      (if lookahead_size s = lookahead_limit s
       then window s' = drop (forgotten 1 s) (window s) @ [Inr x] \<and> lookahead_size s' = lookahead_size s
       else window s' = window s @ [Inr x] \<and> lookahead_size s' = lookahead_size s + 1)) \<and>
    (\<forall>n \<le> lookahead_size s. lz77_inv e (lz77_shift_buffers n s) \<and>
      window (lz77_shift_buffers n s) = drop (forgotten n s) (window s) \<and>
      unat (lookahead_size (lz77_shift_buffers n s)) = unat (lookahead_size s) - unat n \<and>
      unat (history_size (lz77_shift_buffers n s)) = min (unat (history_size s) + unat n) (unat (history_limit s)))"
proof (intro conjI allI impI)
  note l = lz77_limits [OF assms]
  show "\<exists>s'. lz77_add x s = Inr s' \<and> lz77_inv e s' \<and>
      (if lookahead_size s = lookahead_limit s
       then window s' = drop (forgotten 1 s) (window s) @ [Inr x] \<and> lookahead_size s' = lookahead_size s
       else window s' = window s @ [Inr x] \<and> lookahead_size s' = lookahead_size s + 1)"
  proof (cases "lookahead_size s = lookahead_limit s")
    case True
    then have n: "1 \<le> lookahead_size s" using l(5) by (simp add: word_le_nat_alt)
    let ?t = "shift_buffer 1 s"
    note sh = shift_buffer_sizes [OF assms n] shift_buffer_window [OF assms n]
    have lim: "lookahead_limit ?t = lookahead_limit s" "lookahead_size ?t = lookahead_size s - 1"
      by (simp_all add: shift_buffer_def Let_def)
    then have "unat (lookahead_size ?t) < unat (lookahead_limit ?t)" using sh(1) True l(5) by simp
    then show ?thesis using lz77_add_room [OF sh(3), of x] True lim sh(4)
      by (auto simp: lz77_add_def Let_def)
  next
    case False
    then have "unat (lookahead_size s) < unat (lookahead_limit s)"
      using l(1) by (simp add: word_unat_eq_iff)
    then show ?thesis using lz77_add_room [OF assms, of x] False by (auto simp: lz77_add_def Let_def)
  qed
next
  fix n assume "n \<le> lookahead_size s"
  then show "lz77_inv e (lz77_shift_buffers n s)"
    "window (lz77_shift_buffers n s) = drop (forgotten n s) (window s)"
    "unat (lookahead_size (lz77_shift_buffers n s)) = unat (lookahead_size s) - unat n"
    "unat (history_size (lz77_shift_buffers n s)) = min (unat (history_size s) + unat n) (unat (history_limit s))"
    using shift_buffer_sizes [OF assms] shift_buffer_window [OF assms] by (simp_all add: lz77_shift_buffers_def)
qed

theorem lz77_window_correct_witness:
  "\<exists>s'. lz77_add 65 sample_lz77 = Inr s' \<and> window s' = window sample_lz77 @ [Inr 65]"
proof -
  have "lookahead_size sample_lz77 \<noteq> lookahead_limit sample_lz77" by (simp add: sample_lz77_def lz77_new_def Let_def)
  then show ?thesis using lz77_window_correct [OF sample_lz77_inv, of 65] by auto
qed

end
