(* ===== verification/Queue_Kernel.thy ===== *)
theory Queue_Kernel
  imports Prelude
begin

text \<open>
  The model of \<open>src/dlib-minimal/lib/dlib/queue/queue_kernel_2.h\<close>, a queue in a chain of blocks of
  \<open>block_size\<close> items (the argument \<open>bs\<close>).  The chain from \<open>out\<close> to \<open>in\<close> is the list of its nodes,
  each with its address and its items; the enumerator's pointer is an address.  The items of a
  new node have the value \<open>init\<close>, and the memory manager's new addresses are arguments.
\<close>

record 'a queue =
  nodes :: "(nat \<times> 'a list) list"
  queue_size :: nat
  in_pos :: nat
  out_pos :: nat
  q_current :: "nat option"
  q_current_pos :: nat
  q_start :: bool

definition q_new :: "'a queue" where
  "q_new = \<lparr> nodes = [], queue_size = 0, in_pos = 0, out_pos = 0, q_current = None, q_current_pos = 0,
     q_start = True \<rparr>"

definition q_reset :: "'a queue \<Rightarrow> 'a queue" where
  "q_reset s = s \<lparr> q_start := True, q_current := None \<rparr>"

text \<open>The addresses given back, from \<open>start\<close> to \<open>end\<close>.\<close>

definition q_delete_nodes :: "'a queue \<Rightarrow> nat list" where
  "q_delete_nodes s = map fst (nodes s)"

definition q_delete :: "'a queue \<Rightarrow> nat list" where
  "q_delete s = (if queue_size s > 0 then q_delete_nodes s else [])"

definition q_clear :: "'a queue \<Rightarrow> nat list \<times> 'a queue" where
  "q_clear s =
    (if queue_size s > 0 then (q_delete_nodes s, q_reset (s \<lparr> queue_size := 0, nodes := [] \<rparr>))
     else ([], q_reset s))"

text \<open>Where the next item goes: a first node, a further node, or the last node as it is.\<close>

definition q_make_room :: "nat \<Rightarrow> nat \<Rightarrow> 'a \<Rightarrow> 'a queue \<Rightarrow> 'a queue" where
  "q_make_room bs a init s =
    (if queue_size s = 0 then s \<lparr> nodes := [(a, replicate bs init)], in_pos := 0, out_pos := 0 \<rparr>
     else if in_pos s \<ge> bs then s \<lparr> nodes := nodes s @ [(a, replicate bs init)], in_pos := 0 \<rparr>
     else s)"

definition q_enqueue :: "nat \<Rightarrow> nat \<Rightarrow> 'a \<Rightarrow> 'a \<Rightarrow> 'a queue \<Rightarrow> 'a queue c" where
  "q_enqueue bs a init item s =
    (let s = q_make_room bs a init s in
     if nodes s = [] then Inl Null_Deref
     else case last (nodes s) of (n, items) \<Rightarrow>
       if in_pos s < length items then
         Inr (q_reset (s \<lparr> nodes := butlast (nodes s) @ [(n, items[in_pos s := item])],
           in_pos := in_pos s + 1, queue_size := queue_size s + 1 \<rparr>))
       else Inl Out_Of_Bounds)"

text \<open>\<open>old\<close> is the value of the caller's variable, which is exchanged with the item.\<close>

definition q_dequeue :: "nat \<Rightarrow> 'a \<Rightarrow> 'a queue \<Rightarrow> ('a \<times> 'a queue) c" where
  "q_dequeue bs old s =
    (case nodes s of
       [] \<Rightarrow> Inl Null_Deref
     | (n, items) # rest \<Rightarrow>
         if out_pos s < length items then
           (let s' = s \<lparr> nodes := (n, items[out_pos s := old]) # rest, out_pos := out_pos s + 1,
                  queue_size := queue_size s - 1 \<rparr>;
                s'' = (if out_pos s' = bs then s' \<lparr> out_pos := 0, nodes := rest \<rparr>
                       else if queue_size s' = 0 then s' \<lparr> nodes := [] \<rparr>
                       else s')
            in Inr (items ! out_pos s, q_reset s''))
         else Inl Out_Of_Bounds)"

definition q_remove_any :: "nat \<Rightarrow> 'a \<Rightarrow> 'a queue \<Rightarrow> ('a \<times> 'a queue) c" where
  "q_remove_any bs old s = q_dequeue bs old s"

text \<open>\<open>alloc k\<close> is the address of a node allocated while \<open>k\<close> items are left to move.\<close>

function q_move_all :: "nat \<Rightarrow> (nat \<Rightarrow> nat) \<Rightarrow> 'a \<Rightarrow> 'a \<Rightarrow> 'a queue \<Rightarrow> 'a queue \<Rightarrow> ('a queue \<times> 'a queue) c" where
  "q_move_all bs alloc init temp s item =
    (if queue_size item > 0 then
       (case q_dequeue bs temp item of
          Inl e \<Rightarrow> Inl e
        | Inr (x, item') \<Rightarrow>
            (case q_enqueue bs (alloc (queue_size item)) init x s of
               Inl e \<Rightarrow> Inl e
             | Inr s' \<Rightarrow> q_move_all bs alloc init init s' item'))
     else Inr (s, item))"
  by pat_completeness auto
termination
  by (relation "measure (\<lambda>(bs, alloc, init, temp, s, item). queue_size item)")
    (auto simp: q_dequeue_def q_reset_def Let_def split: list.splits if_splits)

declare q_move_all.simps [simp del]

definition q_cat :: "nat \<Rightarrow> (nat \<Rightarrow> nat) \<Rightarrow> 'a \<Rightarrow> 'a queue \<Rightarrow> 'a queue \<Rightarrow> ('a queue \<times> 'a queue) c" where
  "q_cat bs alloc init s item =
    (if queue_size s > 0 then q_move_all bs alloc init init s item
     else Inr (q_reset (s \<lparr> nodes := nodes item, out_pos := out_pos item, in_pos := in_pos item,
            queue_size := queue_size item \<rparr>),
          item \<lparr> queue_size := 0 \<rparr>))"

definition q_front :: "'a queue \<Rightarrow> 'a c" where
  "q_front s =
    (case nodes s of
       [] \<Rightarrow> Inl Null_Deref
     | (n, items) # rest \<Rightarrow> if out_pos s < length items then Inr (items ! out_pos s) else Inl Out_Of_Bounds)"

definition q_swap :: "'a queue \<Rightarrow> 'a queue \<Rightarrow> 'a queue \<times> 'a queue" where
  "q_swap s item = (item, s)"

definition q_size :: "'a queue \<Rightarrow> nat" where "q_size s = queue_size s"

definition q_at_start :: "'a queue \<Rightarrow> bool" where "q_at_start s = q_start s"

definition q_current_element_valid :: "'a queue \<Rightarrow> bool" where
  "q_current_element_valid s \<longleftrightarrow> q_current s \<noteq> None"

text \<open>Following a pointer to a node, and the node's \<open>next\<close>.\<close>

fun node_at :: "(nat \<times> 'a list) list \<Rightarrow> nat \<Rightarrow> 'a list option" where
  "node_at [] a = None"
| "node_at ((n, items) # rest) a = (if n = a then Some items else node_at rest a)"

fun next_node :: "(nat \<times> 'a list) list \<Rightarrow> nat \<Rightarrow> nat option" where
  "next_node ((n, items) # (m, items') # rest) a =
    (if n = a then Some m else next_node ((m, items') # rest) a)"
| "next_node _ a = None"

definition q_element :: "'a queue \<Rightarrow> 'a c" where
  "q_element s =
    (case q_current s of
       None \<Rightarrow> Inl Null_Deref
     | Some a \<Rightarrow> (case node_at (nodes s) a of
         None \<Rightarrow> Inl Stale_Pointer
       | Some items \<Rightarrow> if q_current_pos s < length items then Inr (items ! q_current_pos s) else Inl Out_Of_Bounds))"

definition q_move_next :: "nat \<Rightarrow> 'a queue \<Rightarrow> bool \<times> 'a queue" where
  "q_move_next bs s =
    (if q_start s then
       let s = s \<lparr> q_start := False \<rparr> in
       if queue_size s = 0 then (False, s)
       else (True, s \<lparr> q_current := map_option fst (find (\<lambda>_. True) (nodes s)), q_current_pos := out_pos s \<rparr>)
     else case q_current s of
       None \<Rightarrow> (False, s)
     | Some a \<Rightarrow>
         let s = s \<lparr> q_current_pos := q_current_pos s + 1 \<rparr> in
         if nodes s \<noteq> [] \<and> a = fst (last (nodes s)) \<and> q_current_pos s = in_pos s
         then (False, s \<lparr> q_current := None \<rparr>)
         else if q_current_pos s = bs
         then (True, s \<lparr> q_current_pos := 0, q_current := next_node (nodes s) a \<rparr>)
         else (True, s))"

text \<open>
  \<open>deserialize\<close>, as for the other containers: \<open>input\<close> holds the items that can be read, each with
  the address of the node that may be allocated for it.
\<close>

fun q_enqueue_all :: "nat \<Rightarrow> 'a \<Rightarrow> nat \<Rightarrow> (nat \<times> 'a) list \<Rightarrow> 'a queue \<Rightarrow> (bool \<times> 'a queue) c" where
  "q_enqueue_all bs init 0 input s = Inr (False, s)"
| "q_enqueue_all bs init (Suc n) [] s = Inr (True, snd (q_clear s))"
| "q_enqueue_all bs init (Suc n) ((a, x) # input) s =
    c_bind (q_enqueue bs a init x s) (\<lambda>s. q_enqueue_all bs init n input s)"

definition q_deserialize :: "nat \<Rightarrow> 'a \<Rightarrow> nat option \<Rightarrow> (nat \<times> 'a) list \<Rightarrow> 'a queue \<Rightarrow> (bool \<times> 'a queue) c" where
  "q_deserialize bs init n input s =
    (let s = snd (q_clear s) in
     case n of None \<Rightarrow> Inr (True, snd (q_clear s)) | Some n \<Rightarrow> q_enqueue_all bs init n input s)"

subsection \<open>The contents\<close>

definition q_contents :: "'a queue \<Rightarrow> 'a list" where
  "q_contents s = take (queue_size s) (drop (out_pos s) (concat (map snd (nodes s))))"

definition q_inv :: "nat \<Rightarrow> 'a queue \<Rightarrow> bool" where
  "q_inv bs s \<longleftrightarrow> 0 < bs \<and> (queue_size s > 0 \<longrightarrow>
    (\<forall>p \<in> set (nodes s). length (snd p) = bs) \<and> distinct (map fst (nodes s)) \<and> nodes s \<noteq> [] \<and>
    out_pos s < bs \<and> 0 < in_pos s \<and> in_pos s \<le> bs \<and>
    out_pos s + queue_size s = bs * (length (nodes s) - 1) + in_pos s)"

lemma length_concat_blocks:
  "\<forall>p \<in> set ns. length (snd p) = bs \<Longrightarrow> length (concat (map snd ns)) = bs * length ns"
  by (induction ns) auto

lemma q_contents_length: "q_inv bs s \<Longrightarrow> length (q_contents s) = queue_size s"
proof (cases "queue_size s = 0")
  case False
  assume "q_inv bs s"
  then have "bs * (length (nodes s) - 1) + in_pos s \<le> bs * length (nodes s)"
    "length (concat (map snd (nodes s))) = bs * length (nodes s)"
    "out_pos s + queue_size s = bs * (length (nodes s) - 1) + in_pos s"
    using False length_concat_blocks [of "nodes s" bs] by (auto simp: q_inv_def neq_Nil_conv)
  then show ?thesis by (simp add: q_contents_def)
qed (simp add: q_contents_def)

subsection \<open>First in, first out\<close>

lemma take_drop_concat_snoc:
  assumes "length (concat xss) + k = o' + n" "k < length xs" "o' \<le> length (concat xss) + k"
  shows "take (Suc n) (drop o' (concat xss @ xs[k := x])) = take n (drop o' (concat xss @ xs)) @ [x]"
proof -
  have n: "n = length (drop o' (concat xss @ take k xs))" using assms by auto
  have split: "concat xss @ xs[k := x] = (concat xss @ take k xs) @ x # drop (Suc k) xs"
    "concat xss @ xs = (concat xss @ take k xs) @ drop k xs"
    using assms(2) by (simp_all add: upd_conv_take_nth_drop)
  have le: "o' \<le> length (concat xss @ take k xs)" using assms by simp
  show ?thesis unfolding split n using le assms(2) by (simp add: drop_take)
qed

lemma q_enqueue_room:
  fixes init :: 'a
  assumes "q_inv bs s" "a \<notin> fst ` set (nodes s)"
  defines "r \<equiv> q_make_room bs a init s"
  shows "nodes r \<noteq> []" "\<forall>p \<in> set (nodes r). length (snd p) = bs" "distinct (map fst (nodes r))"
    "in_pos r < bs" "out_pos r < bs" "queue_size r = queue_size s"
    "out_pos r + queue_size s = bs * (length (nodes r) - 1) + in_pos r"
    "take (queue_size s) (drop (out_pos r) (concat (map snd (nodes r)))) = q_contents s"
proof -
  have bs: "0 < bs" using assms(1) by (simp add: q_inv_def)
  consider "queue_size s = 0" | "queue_size s > 0" "in_pos s = bs" | "queue_size s > 0" "in_pos s < bs"
    using assms(1) by (force simp: q_inv_def)
  then have "nodes r \<noteq> [] \<and> (\<forall>p \<in> set (nodes r). length (snd p) = bs) \<and> distinct (map fst (nodes r)) \<and>
    in_pos r < bs \<and> out_pos r < bs \<and> queue_size r = queue_size s \<and>
    out_pos r + queue_size s = bs * (length (nodes r) - 1) + in_pos r \<and>
    take (queue_size s) (drop (out_pos r) (concat (map snd (nodes r)))) = q_contents s"
  proof cases
    case 1
    then show ?thesis using bs by (simp add: r_def q_make_room_def q_contents_def)
  next
    case 2
    have len: "length (concat (map snd (nodes s))) = bs * length (nodes s)"
      "out_pos s + queue_size s = bs * length (nodes s)"
      using 2 assms(1) length_concat_blocks [of "nodes s" bs] by (auto simp: q_inv_def neq_Nil_conv)
    then show ?thesis using 2 bs assms(1,2) by (auto simp: r_def q_make_room_def q_contents_def q_inv_def)
  next
    case 3
    then show ?thesis using assms(1) by (auto simp: r_def q_make_room_def q_contents_def q_inv_def)
  qed
  then show "nodes r \<noteq> []" "\<forall>p \<in> set (nodes r). length (snd p) = bs" "distinct (map fst (nodes r))"
    "in_pos r < bs" "out_pos r < bs" "queue_size r = queue_size s"
    "out_pos r + queue_size s = bs * (length (nodes r) - 1) + in_pos r"
    "take (queue_size s) (drop (out_pos r) (concat (map snd (nodes r)))) = q_contents s"
    by blast+
qed

lemma q_enqueue_law:
  assumes "q_inv bs s" "a \<notin> fst ` set (nodes s)"
  shows "\<exists>s'. q_enqueue bs a init x s = Inr s' \<and> q_inv bs s' \<and> q_contents s' = q_contents s @ [x] \<and>
    queue_size s' = queue_size s + 1 \<and> fst ` set (nodes s') \<subseteq> insert a (fst ` set (nodes s)) \<and> q_start s'"
proof -
  let ?r = "q_make_room bs a init s"
  note room = q_enqueue_room [OF assms, of init]
  obtain ns n items where ns: "nodes ?r = ns @ [(n, items)]"
    using room(1) by (metis append_butlast_last_id surj_pair)
  have len: "length items = bs" "\<forall>p \<in> set ns. length (snd p) = bs" using room(2) ns by auto
  have c: "length (concat (map snd ns)) = bs * length ns" using length_concat_blocks [OF len(2)] .
  let ?s = "q_reset (?r \<lparr> nodes := ns @ [(n, items[in_pos ?r := x])], in_pos := in_pos ?r + 1,
     queue_size := queue_size s + 1 \<rparr>)"
  have "q_enqueue bs a init x s = Inr ?s" using room(1,4,6) ns len(1) by (simp add: q_enqueue_def Let_def)
  moreover have "q_inv bs ?s" using room ns len assms(1) by (auto simp: q_inv_def q_reset_def)
  moreover have "q_contents ?s = q_contents s @ [x]"
    using take_drop_concat_snoc [of "map snd ns" "in_pos ?r" "out_pos ?r" "queue_size s" items x]
      room(4,7,8) ns len(1) c by (simp add: q_contents_def q_reset_def)
  moreover have "fst ` set (nodes ?s) \<subseteq> insert a (fst ` set (nodes s))"
  proof -
    have "fst ` set (nodes ?s) = fst ` set (nodes ?r)" using ns by (simp add: q_reset_def)
    then show ?thesis by (auto simp: q_make_room_def split: if_splits)
  qed
  ultimately show ?thesis by (auto simp: q_reset_def)
qed

lemma q_dequeue_law:
  assumes "q_inv bs s" "queue_size s > 0"
  shows "\<exists>x s'. q_dequeue bs old s = Inr (x, s') \<and> q_inv bs s' \<and> q_contents s = x # q_contents s' \<and>
    queue_size s' = queue_size s - 1 \<and> fst ` set (nodes s') \<subseteq> fst ` set (nodes s) \<and> q_start s'"
proof -
  have inv: "\<forall>p \<in> set (nodes s). length (snd p) = bs" "distinct (map fst (nodes s))" "out_pos s < bs"
    "0 < in_pos s" "in_pos s \<le> bs" "out_pos s + queue_size s = bs * (length (nodes s) - 1) + in_pos s" "0 < bs"
    using assms by (auto simp: q_inv_def)
  obtain n items rest where ns: "nodes s = (n, items) # rest"
    using assms by (cases "nodes s") (auto simp: q_inv_def)
  let ?x = "items ! out_pos s" and ?items = "items[out_pos s := old]"
  have len: "length items = bs" using inv(1) ns by simp
  have dr: "drop (out_pos s) (items @ ys) = ?x # drop (Suc (out_pos s)) (?items @ ys)" for ys
    using len inv(3) by (simp add: Cons_nth_drop_Suc)
  have cont: "q_contents s = ?x # take (queue_size s - 1) (drop (Suc (out_pos s)) (?items @ concat (map snd rest)))"
    using ns dr assms(2) by (cases "queue_size s") (simp_all add: q_contents_def)
  consider "Suc (out_pos s) = bs" | "Suc (out_pos s) < bs" "queue_size s = 1" | "Suc (out_pos s) < bs" "queue_size s > 1"
    using inv(3) assms(2) by linarith
  then show ?thesis
  proof cases
    case 1
    let ?s = "q_reset (s \<lparr> nodes := rest, out_pos := 0, queue_size := queue_size s - 1 \<rparr>)"
    have "q_dequeue bs old s = Inr (?x, ?s)" using ns len inv(3) 1
      by (cases s) (simp add: q_dequeue_def q_reset_def Let_def)
    moreover have "rest \<noteq> []" if "queue_size s > 1" using inv(4-6) ns 1 that by auto
    then have "q_inv bs ?s" using inv ns 1 by (cases rest) (auto simp: q_inv_def q_reset_def)
    moreover have "q_contents ?s = take (queue_size s - 1) (drop (Suc (out_pos s)) (?items @ concat (map snd rest)))"
      using 1 len by (simp add: q_contents_def q_reset_def)
    ultimately show ?thesis using cont ns by (auto simp: q_reset_def)
  next
    case 2
    let ?s = "q_reset (s \<lparr> nodes := [], out_pos := Suc (out_pos s), queue_size := 0 \<rparr>)"
    have "q_dequeue bs old s = Inr (?x, ?s)" using ns len inv(3) 2
      by (cases s) (simp add: q_dequeue_def q_reset_def Let_def)
    then show ?thesis using 2 inv(7) cont by (auto simp: q_reset_def q_inv_def q_contents_def)
  next
    case 3
    let ?s = "q_reset (s \<lparr> nodes := (n, ?items) # rest, out_pos := Suc (out_pos s), queue_size := queue_size s - 1 \<rparr>)"
    have "q_dequeue bs old s = Inr (?x, ?s)" using ns len inv(3) 3
      by (cases s) (simp add: q_dequeue_def q_reset_def Let_def)
    moreover have "q_inv bs ?s" using inv ns 3 len by (auto simp: q_inv_def q_reset_def)
    moreover have "q_contents ?s = take (queue_size s - 1) (drop (Suc (out_pos s)) (?items @ concat (map snd rest)))"
      by (simp add: q_contents_def q_reset_def)
    ultimately show ?thesis using cont ns by (auto simp: q_reset_def)
  qed
qed

lemma q_move_all_law:
  assumes "q_inv bs s" "q_inv bs item" "inj alloc" "\<forall>k \<le> queue_size item. alloc k \<notin> fst ` set (nodes s)"
  shows "\<exists>s' item'. q_move_all bs alloc init temp s item = Inr (s', item') \<and> q_inv bs s' \<and>
    q_contents s' = q_contents s @ q_contents item \<and> queue_size item' = 0"
  using assms
proof (induction "queue_size item" arbitrary: s item temp rule: less_induct)
  case less
  show ?case
  proof (cases "queue_size item = 0")
    case True
    then show ?thesis using less.prems by (subst q_move_all.simps) (simp add: q_contents_def)
  next
    case False
    then obtain x item1 where d: "q_dequeue bs temp item = Inr (x, item1)" "q_inv bs item1"
      "q_contents item = x # q_contents item1" "queue_size item1 = queue_size item - 1"
      using q_dequeue_law [OF less.prems(2), of temp] by auto
    obtain s1 where e: "q_enqueue bs (alloc (queue_size item)) init x s = Inr s1" "q_inv bs s1"
      "q_contents s1 = q_contents s @ [x]"
      "fst ` set (nodes s1) \<subseteq> insert (alloc (queue_size item)) (fst ` set (nodes s))"
      using q_enqueue_law [OF less.prems(1), of "alloc (queue_size item)" init x] less.prems(4) by auto
    have "\<forall>k \<le> queue_size item1. alloc k \<notin> fst ` set (nodes s1)"
    proof (intro allI impI)
      fix k assume k: "k \<le> queue_size item1"
      then have "k \<noteq> queue_size item" "k \<le> queue_size item" using d(4) False by auto
      then have "alloc k \<noteq> alloc (queue_size item)" "alloc k \<notin> fst ` set (nodes s)"
        using less.prems(3,4) by (simp_all add: inj_eq)
      then show "alloc k \<notin> fst ` set (nodes s1)" using e(4) by blast
    qed
    then obtain s' item' where "q_move_all bs alloc init init s1 item1 = Inr (s', item')" "q_inv bs s'"
      "q_contents s' = q_contents s1 @ q_contents item1" "queue_size item' = 0"
      using less.hyps [of item1 s1 init] d e less.prems(3) False by auto
    then show ?thesis using d e False by (subst q_move_all.simps) simp
  qed
qed

lemma q_cat_law:
  assumes "q_inv bs s" "q_inv bs item" "inj alloc" "\<forall>k \<le> queue_size item. alloc k \<notin> fst ` set (nodes s)"
  shows "\<exists>s' item'. q_cat bs alloc init s item = Inr (s', item') \<and> q_inv bs s' \<and>
    q_contents s' = q_contents s @ q_contents item \<and> queue_size item' = 0"
proof (cases "queue_size s > 0")
  case True
  then show ?thesis using q_move_all_law [OF assms] by (simp add: q_cat_def)
next
  case False
  then show ?thesis using assms(2) by (simp add: q_cat_def q_inv_def q_contents_def q_reset_def)
qed

subsection \<open>Enumerating\<close>

lemma node_at_nth:
  "distinct (map fst ns) \<Longrightarrow> i < length ns \<Longrightarrow> node_at ns (fst (ns ! i)) = Some (snd (ns ! i))"
proof (induction ns arbitrary: i)
  case (Cons p ns)
  then show ?case by (cases i; cases p) force+
qed simp

lemma next_node_nth:
  "distinct (map fst ns) \<Longrightarrow> Suc i < length ns \<Longrightarrow> next_node ns (fst (ns ! i)) = Some (fst (ns ! Suc i))"
proof (induction ns arbitrary: i)
  case (Cons p ns)
  then obtain m items' rest where ns: "ns = (m, items') # rest" by (cases ns) auto
  obtain n items where p: "p = (n, items)" by (cases p)
  show ?case
  proof (cases i)
    case 0
    then show ?thesis using p ns by simp
  next
    case (Suc j)
    then have "j < length ns" using Cons.prems(2) by simp
    then have "fst (ns ! j) \<in> set (map fst ns)" by (metis length_map nth_map nth_mem)
    then have "n \<noteq> fst (ns ! j)" using Cons.prems(1) p by (metis distinct.simps(2) fst_conv list.simps(9))
    then show ?thesis using Cons.IH [of j] Cons.prems Suc p ns by simp
  qed
qed simp

lemma concat_blocks_nth:
  assumes "\<forall>p \<in> set ns. length (snd p) = bs" "i < length ns" "q < bs"
  shows "concat (map snd ns) ! (bs * i + q) = snd (ns ! i) ! q"
  using assms
proof (induction ns arbitrary: i)
  case (Cons p ns)
  then show ?case by (cases i) (auto simp: nth_append add.assoc)
qed simp

lemma block_position_unique:
  fixes i j a b bs :: nat
  assumes "bs * i + a = bs * j + b" "0 < a" "a \<le> bs" "0 < b" "b \<le> bs"
  shows "i = j \<and> a = b"
proof -
  have "bs * i + (a - 1) = bs * j + (b - 1)" using assms by linarith
  moreover have d: "(bs * k + c) div bs = k" if "c < bs" for k c using that by simp
  have "a - 1 < bs" "b - 1 < bs" using assms(2-5) by linarith+
  then have "(bs * i + (a - 1)) div bs = i" "(bs * j + (b - 1)) div bs = j" using d by blast+
  ultimately have "i = j" by metis
  then show ?thesis using assms(1) by simp
qed

text \<open>The enumerator stands on the item with index \<open>k\<close>.\<close>

definition q_at :: "nat \<Rightarrow> 'a queue \<Rightarrow> nat \<Rightarrow> bool" where
  "q_at bs s k \<longleftrightarrow> (\<exists>i. i < length (nodes s) \<and> q_current s = Some (fst (nodes s ! i)) \<and> q_current_pos s < bs \<and>
    out_pos s + k = bs * i + q_current_pos s \<and> k < queue_size s \<and> \<not> q_start s)"

lemma q_element_at:
  assumes "q_inv bs s" "q_at bs s k"
  shows "q_element s = Inr (q_contents s ! k)"
proof -
  obtain i where i: "i < length (nodes s)" "q_current s = Some (fst (nodes s ! i))" "q_current_pos s < bs"
    "out_pos s + k = bs * i + q_current_pos s" "k < queue_size s" using assms(2) by (auto simp: q_at_def)
  have inv: "\<forall>p \<in> set (nodes s). length (snd p) = bs" "distinct (map fst (nodes s))"
    using assms(1) i(5) by (auto simp: q_inv_def)
  have len: "length (q_contents s) = queue_size s" using q_contents_length [OF assms(1)] .
  have "q_contents s ! k = concat (map snd (nodes s)) ! (out_pos s + k)"
    using i(5) len by (simp add: q_contents_def)
  also have "\<dots> = snd (nodes s ! i) ! q_current_pos s"
    unfolding i(4) using concat_blocks_nth [OF inv(1) i(1,3)] .
  finally show ?thesis using i inv node_at_nth [OF inv(2) i(1)] by (simp add: q_element_def)
qed

lemma q_move_next_step:
  assumes "q_inv bs s" "q_at bs s k"
  shows "if Suc k < queue_size s
    then \<exists>s'. q_move_next bs s = (True, s') \<and> q_inv bs s' \<and> q_contents s' = q_contents s \<and>
      queue_size s' = queue_size s \<and> q_at bs s' (Suc k)
    else \<exists>s'. q_move_next bs s = (False, s')"
proof -
  obtain i where i: "i < length (nodes s)" "q_current s = Some (fst (nodes s ! i))" "q_current_pos s < bs"
    "out_pos s + k = bs * i + q_current_pos s" "k < queue_size s" "\<not> q_start s"
    using assms(2) by (auto simp: q_at_def)
  have inv: "distinct (map fst (nodes s))" "0 < in_pos s" "in_pos s \<le> bs" "nodes s \<noteq> []"
    "out_pos s + queue_size s = bs * (length (nodes s) - 1) + in_pos s" "0 < bs"
    using assms(1) i(5) by (auto simp: q_inv_def)
  let ?p = "q_current_pos s + 1"
  have at_end: "fst (nodes s ! i) = fst (last (nodes s)) \<and> ?p = in_pos s \<longleftrightarrow> Suc k = queue_size s"
  proof
    assume a: "fst (nodes s ! i) = fst (last (nodes s)) \<and> ?p = in_pos s"
    then have "i = length (nodes s) - 1"
      using nth_eq_iff_index_eq [OF inv(1), of i "length (nodes s) - 1"] inv(4) i(1) by (simp add: last_conv_nth)
    then show "Suc k = queue_size s" using a i(4) inv(5) by simp
  next
    assume "Suc k = queue_size s"
    then have "bs * i + ?p = bs * (length (nodes s) - 1) + in_pos s" using i(4) inv(5) by simp
    then have "i = length (nodes s) - 1 \<and> ?p = in_pos s"
      using block_position_unique [of bs i ?p "length (nodes s) - 1" "in_pos s"] inv(2,3) i(3) by simp
    then show "fst (nodes s ! i) = fst (last (nodes s)) \<and> ?p = in_pos s" using inv(4) by (simp add: last_conv_nth)
  qed
  have eqs: "q_inv bs (q_current_update f (q_current_pos_update g s)) = q_inv bs s"
    "q_contents (q_current_update f (q_current_pos_update g s)) = q_contents s" for f g
    by (simp_all add: q_inv_def q_contents_def)
  show ?thesis
  proof (cases "Suc k < queue_size s")
    case False
    then show ?thesis using at_end i inv(4) by (auto simp: q_move_next_def Let_def)
  next
    case more: True
    then have not_end: "\<not> (fst (nodes s ! i) = fst (last (nodes s)) \<and> ?p = in_pos s)" using at_end by simp
    show ?thesis
    proof (cases "?p = bs")
      case True
      have "Suc i < length (nodes s)"
      proof (rule ccontr)
        assume "\<not> Suc i < length (nodes s)"
        then have "i = length (nodes s) - 1" using i(1) by simp
        then show False using more i(4) inv(3,5) True by simp
      qed
      note nx = next_node_nth [OF inv(1) this] this
      let ?s = "s \<lparr> q_current_pos := 0, q_current := Some (fst (nodes s ! Suc i)) \<rparr>"
      have "q_move_next bs s = (True, ?s)"
        using i not_end nx True inv(4) by (cases s) (auto simp: q_move_next_def Let_def)
      moreover have "q_at bs ?s (Suc k)"
        using nx(2) i(4,6) more inv(6) True by (auto simp: q_at_def intro!: exI [of _ "Suc i"])
      ultimately show ?thesis using more assms(1) eqs by (simp add: q_inv_def q_contents_def)
    next
      case False
      let ?s = "s \<lparr> q_current_pos := ?p \<rparr>"
      have "q_move_next bs s = (True, ?s)" using i not_end False inv(4) by (auto simp: q_move_next_def Let_def)
      moreover have "q_at bs ?s (Suc k)" using i more False by (auto simp: q_at_def intro!: exI [of _ i])
      ultimately show ?thesis using more assms(1) by (simp add: q_inv_def q_contents_def)
    qed
  qed
qed

lemma q_move_next_first:
  assumes "q_inv bs s"
  shows "if 0 < queue_size s
    then \<exists>s'. q_move_next bs (q_reset s) = (True, s') \<and> q_inv bs s' \<and> q_contents s' = q_contents s \<and>
      queue_size s' = queue_size s \<and> q_at bs s' 0
    else \<exists>s'. q_move_next bs (q_reset s) = (False, s')"
proof (cases "queue_size s = 0")
  case True
  then show ?thesis by (simp add: q_move_next_def q_reset_def)
next
  case False
  then have inv: "nodes s \<noteq> []" "out_pos s < bs" using assms by (auto simp: q_inv_def)
  then obtain n items rest where ns: "nodes s = (n, items) # rest" by (cases "nodes s") auto
  let ?s = "s \<lparr> q_start := False, q_current := Some n, q_current_pos := out_pos s \<rparr>"
  have "q_move_next bs (q_reset s) = (True, ?s)"
    using False ns by (cases s) (simp add: q_move_next_def q_reset_def Let_def)
  moreover have "q_at bs ?s 0" using ns inv(2) False by (auto simp: q_at_def intro!: exI [of _ 0])
  ultimately show ?thesis using False assms by (simp add: q_inv_def q_contents_def)
qed

fun q_enumerate :: "nat \<Rightarrow> nat \<Rightarrow> 'a queue \<Rightarrow> 'a list c" where
  "q_enumerate bs 0 s = Inr []"
| "q_enumerate bs (Suc n) s =
    (case q_move_next bs s of (ok, s) \<Rightarrow>
       if ok then c_bind (q_element s) (\<lambda>x. c_bind (q_enumerate bs n s) (\<lambda>xs. Inr (x # xs)))
       else Inr [])"

lemma q_enumerate_from:
  assumes "q_inv bs s" "q_at bs s k" "queue_size s \<le> n + Suc k"
  shows "q_enumerate bs n s = Inr (drop (Suc k) (q_contents s))"
  using assms
proof (induction n arbitrary: s k)
  case 0
  then show ?case using q_contents_length [OF 0(1)] by simp
next
  case (Suc n)
  have len: "length (q_contents s) = queue_size s" using q_contents_length [OF Suc.prems(1)] .
  show ?case
  proof (cases "Suc k < queue_size s")
    case True
    then obtain s' where s': "q_move_next bs s = (True, s')" "q_inv bs s'" "q_contents s' = q_contents s"
      "queue_size s' = queue_size s" "q_at bs s' (Suc k)"
      using q_move_next_step [OF Suc.prems(1,2)] by auto
    have "q_enumerate bs n s' = Inr (drop (Suc (Suc k)) (q_contents s))"
      using Suc.IH [OF s'(2,5)] s'(3,4) Suc.prems(3) by simp
    moreover have "q_contents s ! Suc k # drop (Suc (Suc k)) (q_contents s) = drop (Suc k) (q_contents s)"
      using True len by (intro Cons_nth_drop_Suc) simp
    ultimately show ?thesis using s'(1) q_element_at [OF s'(2,5)] s'(3) by simp
  next
    case False
    then show ?thesis using q_move_next_step [OF Suc.prems(1,2)] len by auto
  qed
qed

subsection \<open>The queue keeps its promises\<close>

text \<open>
  C29. The chain of blocks is a first-in first-out queue: \<open>enqueue\<close> appends, \<open>dequeue\<close> takes the
  oldest item, neither leaves a block or follows a null pointer, and both keep the invariant,
  whatever the block size.
\<close>

theorem queue_fifo:
  assumes "q_inv bs s"
  shows "(a \<notin> fst ` set (nodes s) \<longrightarrow>
      (\<exists>s'. q_enqueue bs a init x s = Inr s' \<and> q_inv bs s' \<and> q_contents s' = q_contents s @ [x])) \<and>
    (q_size s > 0 \<longrightarrow>
      (\<exists>y s'. q_dequeue bs old s = Inr (y, s') \<and> q_inv bs s' \<and> q_contents s = y # q_contents s' \<and>
        q_front s = Inr y))"
proof (intro conjI impI)
  assume "a \<notin> fst ` set (nodes s)"
  then show "\<exists>s'. q_enqueue bs a init x s = Inr s' \<and> q_inv bs s' \<and> q_contents s' = q_contents s @ [x]"
    using q_enqueue_law [OF assms] by blast
next
  assume "q_size s > 0"
  then obtain y s' where d: "q_dequeue bs old s = Inr (y, s')" "q_inv bs s'" "q_contents s = y # q_contents s'"
    using q_dequeue_law [OF assms, of old] by (auto simp: q_size_def)
  then have "q_front s = Inr y"
    by (auto simp: q_dequeue_def q_front_def Let_def split: list.splits if_splits)
  then show "\<exists>y s'. q_dequeue bs old s = Inr (y, s') \<and> q_inv bs s' \<and> q_contents s = y # q_contents s' \<and> q_front s = Inr y"
    using d by blast
qed

lemma q_new_inv: "0 < bs \<Longrightarrow> q_inv bs q_new"
  by (simp add: q_inv_def q_new_def)

definition sample_queue :: "nat queue" where
  "sample_queue = \<lparr> nodes = [(1, [10, 20]), (2, [30, 0])], queue_size = 2, in_pos = 1, out_pos = 1, q_current = None,
     q_current_pos = 0, q_start = True \<rparr>"

lemma sample_queue_inv: "q_inv 2 sample_queue" "q_contents sample_queue = [20, 30]"
  by (simp_all add: q_inv_def q_contents_def sample_queue_def numeral_2_eq_2)

theorem queue_fifo_witness:
  "(\<exists>s'. q_enqueue 2 3 0 40 sample_queue = Inr s' \<and> q_contents s' = [20, 30, 40]) \<and> q_front sample_queue = Inr 20"
  using queue_fifo [OF sample_queue_inv(1), of 3 0 40 0] sample_queue_inv(2)
  by (auto simp: sample_queue_def q_size_def)

text \<open>
  \<open>cat\<close> appends all items of the other queue, in order, and leaves that queue empty.
\<close>

theorem queue_cat_correct:
  assumes "q_inv bs s" "q_inv bs item" "inj alloc" "\<forall>k \<le> q_size item. alloc k \<notin> fst ` set (nodes s)"
  shows "\<exists>s' item'. q_cat bs alloc init s item = Inr (s', item') \<and> q_inv bs s' \<and>
    q_contents s' = q_contents s @ q_contents item \<and> q_size item' = 0"
  using q_cat_law [OF assms(1-3)] assms(4) by (simp add: q_size_def)

theorem queue_cat_correct_witness:
  "\<exists>s' item'. q_cat 2 (\<lambda>k. k + 7) 0 sample_queue sample_queue = Inr (s', item') \<and>
    q_contents s' = [20, 30, 20, 30]"
  using queue_cat_correct [OF sample_queue_inv(1) sample_queue_inv(1), of "\<lambda>k. k + 7" 0] sample_queue_inv(2)
  by (auto simp: sample_queue_def inj_def)

text \<open>
  \<open>cat\<close> into an empty queue does not reset the enumerator of the other queue, although that
  queue is to have its initial value: the other queue is then empty, yet its enumerator still
  stands on an item.
\<close>

theorem queue_cat_stale_enumerator:
  assumes "q_inv bs s" "q_size s = 0" "q_inv bs item" "q_at bs item k"
  shows "\<exists>s' item'. q_cat bs alloc init s item = Inr (s', item') \<and> q_size item' = 0 \<and>
    \<not> q_at_start item' \<and> q_current_element_valid item'"
  using assms by (auto simp: q_cat_def q_size_def q_at_start_def q_at_def q_current_element_valid_def)

theorem queue_cat_stale_enumerator_witness:
  "\<exists>s' item'. q_cat 2 id 0 q_new (sample_queue \<lparr> q_start := False, q_current := Some 1, q_current_pos := 1 \<rparr>)
     = Inr (s', item') \<and> q_size item' = 0 \<and> \<not> q_at_start item' \<and> q_current_element_valid item'"
proof (rule queue_cat_stale_enumerator)
  let ?s = "sample_queue \<lparr> q_start := False, q_current := Some 1, q_current_pos := 1 \<rparr>"
  show "q_inv 2 q_new" by (rule q_new_inv) simp
  show "q_inv 2 ?s" using sample_queue_inv(1) by (simp add: q_inv_def)
  show "q_at 2 ?s 0" by (auto simp: q_at_def sample_queue_def intro!: exI [of _ 0])
qed (simp add: q_new_def q_size_def)

text \<open>
  After \<open>reset\<close>, \<open>move_next\<close> and \<open>element\<close> visit the items of the queue in order, across the
  blocks, and then stop.
\<close>

theorem queue_enumeration_correct:
  assumes "q_inv bs s" "q_size s \<le> n"
  shows "q_enumerate bs n (q_reset s) = Inr (q_contents s)"
proof (cases n)
  case 0
  then show ?thesis using assms q_contents_length [OF assms(1)] by (simp add: q_size_def)
next
  case (Suc m)
  have len: "length (q_contents s) = queue_size s" using q_contents_length [OF assms(1)] .
  show ?thesis
  proof (cases "0 < queue_size s")
    case True
    then obtain s' where s': "q_move_next bs (q_reset s) = (True, s')" "q_inv bs s'" "q_contents s' = q_contents s"
      "queue_size s' = queue_size s" "q_at bs s' 0"
      using q_move_next_first [OF assms(1)] by auto
    have "q_enumerate bs m s' = Inr (drop (Suc 0) (q_contents s))"
      using q_enumerate_from [OF s'(2,5), of m] s'(3,4) assms(2) Suc by (simp add: q_size_def)
    moreover have "q_contents s ! 0 # drop (Suc 0) (q_contents s) = drop 0 (q_contents s)"
      using True len by (intro Cons_nth_drop_Suc) simp
    ultimately show ?thesis using Suc s'(1) q_element_at [OF s'(2,5)] s'(3) by simp
  next
    case False
    then show ?thesis using q_move_next_first [OF assms(1)] Suc len by auto
  qed
qed

theorem queue_enumeration_correct_witness: "q_enumerate 2 9 (q_reset sample_queue) = Inr [20, 30]"
  using queue_enumeration_correct [OF sample_queue_inv(1), of 9] sample_queue_inv(2)
  by (simp add: sample_queue_def q_size_def)

end
