(* ===== verification/Byte_Stream.thy ===== *)
theory Byte_Stream
  imports Prelude
begin

text \<open>
  The streams that the coders of dlib read and write, one byte at a time through their
  \<open>streambuf\<close>.  An input stream is the list of the bytes that can still be read.  An output stream
  is the list of the bytes it has taken, with the number it can take in all (\<open>None\<close> when there is
  no limit): \<open>sputn\<close> of one byte returns 0 when the stream is full.  \<open>exn\<close> has the exceptions of
  the compression code, and \<open>Ub\<close> the undefined outcomes.  The second part reads the first four
  bytes of a stream as a number, which is what a decoder keeps in its \<open>target\<close>.
\<close>

datatype exn = Ub c_ub | Write_Failure | Decompression_Error | Decode_Error nat | Bad_Alloc

type_synonym 'a io = "(exn + 'a) option"

record ostream =
  written :: "u8 list"
  room :: "nat option"

definition sputc :: "u8 \<Rightarrow> ostream \<Rightarrow> ostream option" where
  "sputc b out =
    (if room out = None \<or> length (written out) < the (room out)
     then Some (out \<lparr> written := written out @ [b] \<rparr>) else None)"

fun sgetc :: "u8 list \<Rightarrow> u8 option \<times> u8 list" where
  "sgetc [] = (None, [])"
| "sgetc (b # bs) = (Some b, bs)"

definition io_bind :: "'a io \<Rightarrow> ('a \<Rightarrow> 'b io) \<Rightarrow> 'b io" where
  "io_bind m f = Option.bind m (\<lambda>x. case x of Inl e \<Rightarrow> Some (Inl e) | Inr a \<Rightarrow> f a)"

definition io_c :: "'a c \<Rightarrow> 'a io" where
  "io_c m = Some (case m of Inl e \<Rightarrow> Inl (Ub e) | Inr a \<Rightarrow> Inr a)"

lemma io_bind_simps [simp, c_simps]:
  "io_bind None f = None"
  "io_bind (Some (Inl e)) f = Some (Inl e)"
  "io_bind (Some (Inr a)) f = f a"
  by (simp_all add: io_bind_def)

lemma io_cases: obtains "m = None" | e where "m = Some (Inl e)" | a where "m = Some (Inr a)"
  by (metis option.exhaust sum.exhaust)

lemma io_bind_cong [fundef_cong]:
  "m = m' \<Longrightarrow> (\<And>a. m' = Some (Inr a) \<Longrightarrow> f a = g a) \<Longrightarrow> io_bind m f = io_bind m' g"
  by (cases m' rule: io_cases) auto

text \<open>\<open>sputn\<close> of several bytes, followed by the test of its result that the callers make.\<close>

fun sputn :: "u8 list \<Rightarrow> ostream \<Rightarrow> ostream io" where
  "sputn [] out = Some (Inr out)"
| "sputn (b # bs) out = (case sputc b out of None \<Rightarrow> Some (Inl Write_Failure) | Some out' \<Rightarrow> sputn bs out')"

lemma io_c_simps [simp, c_simps]: "io_c (Inl e) = Some (Inl (Ub e))" "io_c (Inr a) = Some (Inr a)"
  by (simp_all add: io_c_def)

text \<open>A sequence that returns, split into its steps.\<close>

lemma io_bind_eq_Inr: "io_bind m f = Some (Inr b) \<longleftrightarrow> (\<exists>a. m = Some (Inr a) \<and> f a = Some (Inr b))"
  by (cases m rule: io_cases) auto

lemma io_c_eq_Inr: "io_c m = Some (Inr a) \<longleftrightarrow> m = Inr a"
  by (auto simp: io_c_def split: sum.splits)

lemmas io_returns = io_bind_eq_Inr io_c_eq_Inr

lemma sputc_unlimited [simp]:
  "room out = None \<Longrightarrow> sputc b out = Some (out \<lparr> written := written out @ [b] \<rparr>)"
  by (simp add: sputc_def)

text \<open>The stream takes \<open>k\<close> more bytes.\<close>

definition has_room :: "ostream \<Rightarrow> nat \<Rightarrow> bool" where
  "has_room out k \<longleftrightarrow> (case room out of None \<Rightarrow> True | Some r \<Rightarrow> length (written out) + k \<le> r)"

lemma sputc_room:
  assumes "has_room out (Suc k)"
  shows "sputc b out = Some (out \<lparr> written := written out @ [b] \<rparr>)" "has_room (out \<lparr> written := written out @ [b] \<rparr>) k"
  using assms by (auto simp: has_room_def sputc_def split: option.splits)

lemma sputn_room:
  assumes "has_room out (length bs + k)"
  shows "sputn bs out = Some (Inr (out \<lparr> written := written out @ bs \<rparr>)) \<and> has_room (out \<lparr> written := written out @ bs \<rparr>) k"
  using assms
proof (induction bs arbitrary: out)
  case (Cons b bs)
  then show ?case
    using sputc_room [of out "length bs + k" b] Cons.IH [of "out \<lparr> written := written out @ [b] \<rparr>"] by simp
qed simp

subsection \<open>The first four bytes as a number\<close>

text \<open>Bytes beyond the end of the stream read as zero.\<close>

definition byte_at :: "u8 list \<Rightarrow> nat \<Rightarrow> nat" where
  "byte_at bs i = (if i < length bs then unat (bs ! i) else 0)"

definition code :: "u8 list \<Rightarrow> nat" where
  "code bs = byte_at bs 0 * 2 ^ 24 + byte_at bs 1 * 2 ^ 16 + byte_at bs 2 * 2 ^ 8 + byte_at bs 3"

lemma byte_at_less: "byte_at bs i < 256"
  using unsigned_less [of "bs ! i", where 'a = nat] by (simp add: byte_at_def)

lemma byte_at_Cons [simp]: "byte_at (b # bs) 0 = unat b" "byte_at (b # bs) (Suc i) = byte_at bs i"
  by (simp_all add: byte_at_def)

lemma code_less: "code bs < 2 ^ 32"
  using byte_at_less [of bs 0] byte_at_less [of bs 1] byte_at_less [of bs 2] byte_at_less [of bs 3]
  by (simp add: code_def)

lemma code_split:
  "code bs div 256 = byte_at bs 0 * 2 ^ 16 + byte_at bs 1 * 2 ^ 8 + byte_at bs 2"
  "code bs mod 256 = byte_at bs 3"
proof -
  have dm: "(256 * q + x) div 256 = q" "(256 * q + x) mod 256 = x" if "x < 256" for q x :: nat
    using that by simp_all
  have "code bs = 256 * (byte_at bs 0 * 2 ^ 16 + byte_at bs 1 * 2 ^ 8 + byte_at bs 2) + byte_at bs 3"
    by (simp add: code_def)
  then show "code bs div 256 = byte_at bs 0 * 2 ^ 16 + byte_at bs 1 * 2 ^ 8 + byte_at bs 2"
    "code bs mod 256 = byte_at bs 3"
    by (simp_all only: dm [OF byte_at_less])
qed

lemma code_Cons: "code (b # bs) = unat b * 2 ^ 24 + code bs div 256"
  unfolding code_split by (simp add: code_def numeral_2_eq_2 numeral_3_eq_3)

lemma sgetc_drop:
  "sgetc (drop n bs) = (if n < length bs then Some (bs ! n) else None, drop (Suc n) bs)"
proof (cases "n < length bs")
  case True
  then show ?thesis by (simp flip: Cons_nth_drop_Suc)
qed simp

lemma byte_of_sgetc: "unat (case fst (sgetc (drop n bs)) of None \<Rightarrow> 0 | Some b \<Rightarrow> b) = byte_at bs n"
  by (simp add: sgetc_drop byte_at_def)

end
