(* ===== verification/Entropy_Coder.thy ===== *)
theory Entropy_Coder
  imports Byte_Stream
begin

text \<open>
  The interface of the entropy coders, \<open>entropy_encoder_kernel_abstract.h\<close> and
  \<open>entropy_decoder_kernel_abstract.h\<close>, which the models and the compressor take as template
  arguments.  \<open>enc\<close> and \<open>dec\<close> are the two members that move on by one symbol, \<open>target\<close> is
  \<open>get_target\<close> and \<open>finish\<close> the destructor of the encoder.  The contract is stated with the stream
  of bytes that is still to come: \<open>admits e rest\<close> says that \<open>rest\<close> can follow what the encoder in
  the state \<open>e\<close> has sent, and \<open>in_step e rest d\<close> that the decoder \<open>d\<close>, with \<open>rest\<close> before it, is
  where the encoder was.  \<open>sound d\<close> holds of a decoder on any input, encoded or not, and \<open>unread d\<close>
  is what it leaves in its stream.
\<close>

text \<open>Symbols as the coder sees them: \<open>(low_count, high_count, total)\<close>.\<close>

type_synonym interval = "u32 \<times> u32 \<times> u32"

fun interval_ok :: "interval \<Rightarrow> bool" where
  "interval_ok (lc, hc, tot) \<longleftrightarrow> lc < hc \<and> hc \<le> tot \<and> tot < 65536"

fun encode_all :: "(u32 \<Rightarrow> u32 \<Rightarrow> u32 \<Rightarrow> 'e \<Rightarrow> 'e io) \<Rightarrow> interval list \<Rightarrow> 'e \<Rightarrow> 'e io" where
  "encode_all enc [] e = Some (Inr e)"
| "encode_all enc ((lc, hc, tot) # is) e = io_bind (enc lc hc tot e) (\<lambda>e. encode_all enc is e)"

fun decode_all ::
  "(u32 \<Rightarrow> 'd \<Rightarrow> (u32 \<times> 'd) c) \<Rightarrow> (u32 \<Rightarrow> u32 \<Rightarrow> 'd \<Rightarrow> 'd io) \<Rightarrow> interval list \<Rightarrow> 'd \<Rightarrow> (u32 list \<times> 'd) io" where
  "decode_all target dec [] d = Some (Inr ([], d))"
| "decode_all target dec ((lc, hc, tot) # is) d =
    io_bind (io_c (target tot d)) (\<lambda>(t, d). io_bind (dec lc hc d) (\<lambda>d.
    io_bind (decode_all target dec is d) (\<lambda>(ts, d). Some (Inr (t # ts, d)))))"

locale entropy_coder =
  fixes enc :: "u32 \<Rightarrow> u32 \<Rightarrow> u32 \<Rightarrow> 'e \<Rightarrow> 'e io"
    and finish :: "'e \<Rightarrow> ostream option"
    and target :: "u32 \<Rightarrow> 'd \<Rightarrow> (u32 \<times> 'd) c"
    and dec :: "u32 \<Rightarrow> u32 \<Rightarrow> 'd \<Rightarrow> 'd io"
    and ready :: "'e \<Rightarrow> bool"
    and sent :: "'e \<Rightarrow> u8 list"
    and admits :: "'e \<Rightarrow> u8 list \<Rightarrow> bool"
    and in_step :: "'e \<Rightarrow> u8 list \<Rightarrow> 'd \<Rightarrow> bool"
    and sound :: "'d \<Rightarrow> bool"
    and unread :: "'d \<Rightarrow> u8 list option"
  assumes enc_ok: "ready e \<Longrightarrow> interval_ok (lc, hc, tot) \<Longrightarrow>
      \<exists>e' bs. enc lc hc tot e = Some (Inr e') \<and> ready e' \<and> sent e' = sent e @ bs \<and>
        (\<forall>rest. admits e' rest \<longrightarrow> admits e (bs @ rest)) \<and>
        (\<forall>rest d. admits e' rest \<longrightarrow> in_step e (bs @ rest) d \<longrightarrow>
          (\<exists>t d1 d2. target tot d = Inr (t, d1) \<and> lc \<le> t \<and> t < hc \<and>
            dec lc hc d1 = Some (Inr d2) \<and> in_step e' rest d2))"
    and finish_ok: "ready e \<Longrightarrow>
      \<exists>out bs. finish e = Some out \<and> written out = sent e @ bs \<and> bs \<noteq> [] \<and> (\<forall>extra. admits e (bs @ extra)) \<and>
        (\<forall>extra d. in_step e (bs @ extra) d \<longrightarrow> unread d = Some extra)"
    and target_ok: "sound d \<Longrightarrow> 0 < tot \<Longrightarrow> tot < 65536 \<Longrightarrow>
      \<exists>t d1. target tot d = Inr (t, d1) \<and> t < tot \<and>
        (\<forall>lc hc. lc < hc \<longrightarrow> hc \<le> tot \<longrightarrow> (\<exists>d2. dec lc hc d1 = Some (Inr d2) \<and> sound d2))"
begin

text \<open>
  From \<open>e\<close> to \<open>e'\<close> the encoder has sent \<open>bs\<close>, and a decoder in step with \<open>e\<close> that finds them does
  what \<open>P\<close> says and is in step with \<open>e'\<close> then.
\<close>

definition delivers :: "'e \<Rightarrow> u8 list \<Rightarrow> 'e \<Rightarrow> ('d \<Rightarrow> 'd \<Rightarrow> bool) \<Rightarrow> bool" where
  "delivers e bs e' P \<longleftrightarrow> ready e' \<and> sent e' = sent e @ bs \<and> (\<forall>rest. admits e' rest \<longrightarrow> admits e (bs @ rest)) \<and>
    (\<forall>rest d. admits e' rest \<longrightarrow> in_step e (bs @ rest) d \<longrightarrow> (\<exists>d'. P d d' \<and> in_step e' rest d'))"

lemma delivers_refl: "ready e \<Longrightarrow> delivers e [] e (\<lambda>d d'. d' = d)"
  by (simp add: delivers_def)

lemma delivers_trans [trans]:
  assumes "delivers e bs e1 P" "delivers e1 cs e2 Q"
  shows "delivers e (bs @ cs) e2 (P OO Q)"
  unfolding delivers_def
proof (intro conjI allI impI)
  fix rest d assume a: "admits e2 rest" "in_step e ((bs @ cs) @ rest) d"
  have "admits e1 (cs @ rest)" using assms(2) a(1) by (simp add: delivers_def)
  then obtain k where k: "P d k" "in_step e1 (cs @ rest) k" using a(2) assms(1) unfolding delivers_def append_assoc by blast
  then obtain d' where "Q k d'" "in_step e2 rest d'" using assms(2) a(1) unfolding delivers_def by blast
  then show "\<exists>d'. (P OO Q) d d' \<and> in_step e2 rest d'" using k(1) by blast
qed (use assms in \<open>simp_all add: delivers_def\<close>)

lemma delivers_mono: "delivers e bs e' P \<Longrightarrow> P \<le> Q \<Longrightarrow> delivers e bs e' Q"
  by (fastforce simp: delivers_def)

lemma delivers_ready: "delivers e bs e' P \<Longrightarrow> ready e'"
  by (simp add: delivers_def)

lemma deliversD: "delivers e bs e' P \<Longrightarrow> admits e' rest \<Longrightarrow> in_step e (bs @ rest) d \<Longrightarrow> \<exists>d'. P d d' \<and> in_step e' rest d'"
  by (simp add: delivers_def)

text \<open>One symbol of the coder: the decoder finds a target inside the interval.\<close>

definition finds :: "interval \<Rightarrow> u32 \<Rightarrow> 'd \<Rightarrow> 'd \<Rightarrow> bool" where
  "finds i t d d' = (case i of (lc, hc, tot) \<Rightarrow> \<exists>d1. target tot d = Inr (t, d1) \<and> lc \<le> t \<and> t < hc \<and> dec lc hc d1 = Some (Inr d'))"

lemma enc_delivers:
  assumes "ready e" "interval_ok (lc, hc, tot)"
  shows "\<exists>e' bs. enc lc hc tot e = Some (Inr e') \<and> delivers e bs e' (\<lambda>d d'. \<exists>t. finds (lc, hc, tot) t d d')"
proof -
  obtain e' bs where "enc lc hc tot e = Some (Inr e')" "ready e'" "sent e' = sent e @ bs"
    "\<forall>rest. admits e' rest \<longrightarrow> admits e (bs @ rest)"
    and d: "\<forall>rest d. admits e' rest \<longrightarrow> in_step e (bs @ rest) d \<longrightarrow>
      (\<exists>t d1 d2. target tot d = Inr (t, d1) \<and> lc \<le> t \<and> t < hc \<and> dec lc hc d1 = Some (Inr d2) \<and> in_step e' rest d2)"
    using enc_ok [OF assms] by blast
  moreover have "\<exists>d'. (\<exists>t. finds (lc, hc, tot) t d d') \<and> in_step e' rest d'"
    if "admits e' rest" "in_step e (bs @ rest) d" for rest d
    using d that unfolding finds_def prod.case by meson
  ultimately show ?thesis unfolding delivers_def by blast
qed

text \<open>A whole sequence of symbols comes back.\<close>

definition finds_all :: "interval list \<Rightarrow> 'd \<Rightarrow> 'd \<Rightarrow> bool" where
  "finds_all is d d' \<longleftrightarrow> (\<exists>ts. decode_all target dec is d = Some (Inr (ts, d')) \<and>
    list_all2 (\<lambda>(lc, hc, tot) t. lc \<le> t \<and> t < hc) is ts)"

lemma finds_all_Cons: "finds i t d d1 \<Longrightarrow> finds_all is d1 d' \<Longrightarrow> finds_all (i # is) d d'"
  by (cases i) (auto simp: finds_def finds_all_def)

lemma encode_all_delivers:
  assumes "ready e" "list_all interval_ok is"
  shows "\<exists>e' bs. encode_all enc is e = Some (Inr e') \<and> delivers e bs e' (finds_all is)"
  using assms
proof (induction "is" arbitrary: e)
  case Nil
  have "delivers e [] e (finds_all [])" by (rule delivers_mono [OF delivers_refl [OF Nil(1)]]) (auto simp: finds_all_def)
  then show ?case by auto
next
  case (Cons i "is")
  obtain lc hc tot where i: "i = (lc, hc, tot)" by (cases i)
  obtain e1 bs where e1: "enc lc hc tot e = Some (Inr e1)" "delivers e bs e1 (\<lambda>d d'. \<exists>t. finds (lc, hc, tot) t d d')"
    using enc_delivers [OF Cons.prems(1), of lc hc tot] Cons.prems(2) i by auto
  obtain e2 cs where e2: "encode_all enc is e1 = Some (Inr e2)" "delivers e1 cs e2 (finds_all is)"
    using Cons.IH [OF delivers_ready [OF e1(2)]] Cons.prems(2) by auto
  have "delivers e (bs @ cs) e2 (finds_all (i # is))"
    by (rule delivers_mono [OF delivers_trans [OF e1(2) e2(2)]]) (auto intro: finds_all_Cons simp: i)
  then show ?case using e1(1) e2(1) i by auto
qed

text \<open>With the bytes of the destructor the stream is complete.\<close>

lemma delivers_finish:
  assumes "delivers e bs e' P"
  shows "\<exists>out fl. finish e' = Some out \<and> written out = sent e @ bs @ fl \<and> fl \<noteq> [] \<and>
    (\<forall>extra d. in_step e ((bs @ fl) @ extra) d \<longrightarrow> (\<exists>d'. P d d' \<and> unread d' = Some extra))"
proof -
  obtain out fl where f: "finish e' = Some out" "written out = sent e' @ fl" "fl \<noteq> []" "\<forall>extra. admits e' (fl @ extra)"
    "\<forall>extra d. in_step e' (fl @ extra) d \<longrightarrow> unread d = Some extra" using finish_ok [OF delivers_ready [OF assms]] by blast
  have "\<exists>d'. P d d' \<and> unread d' = Some extra" if "in_step e ((bs @ fl) @ extra) d" for extra d
    using assms f(4,5) that unfolding delivers_def append_assoc by blast
  then show ?thesis using f(1-3) assms by (auto simp: delivers_def)
qed

end

end
