(* ===== verification/Conditioning_Class.thy ===== *)
theory Conditioning_Class
  imports Prelude
begin

text \<open>
  The model of \<open>src/dlib-minimal/lib/dlib/conditioning_class/conditioning_class_kernel_1.h\<close>, the
  table of symbol counts behind the entropy models.  Counts and total are 16-bit words, as in the
  code, and the parameters of type \<open>unsigned long\<close> are 64-bit words; the alphabet size is the length
  of the table.  The second part states the contract of
  \<open>conditioning_class_kernel_abstract.h\<close>, as far as the models use it, as a locale.
\<close>

record cc =
  cc_total :: u16
  counts :: "u16 list"

definition initial_counts :: "nat \<Rightarrow> u16 list" where
  "initial_counts n = replicate (n - 1) 0 @ [1]"

text \<open>\<open>size_of\<close> is the size of the object, and the second component the shared memory usage.\<close>

definition cc_new :: "nat \<Rightarrow> u64 \<Rightarrow> u64 \<Rightarrow> cc \<times> u64" where
  "cc_new n size_of usage =
    (\<lparr> cc_total = 1, counts = initial_counts n \<rparr>, usage + (2 * of_nat n + size_of))"

definition cc_delete :: "cc \<Rightarrow> u64 \<Rightarrow> u64 \<Rightarrow> u64" where
  "cc_delete s size_of usage = usage - (2 * of_nat (length (counts s)) + size_of)"

definition cc_clear :: "cc \<Rightarrow> cc" where
  "cc_clear s = \<lparr> cc_total = 1, counts = initial_counts (length (counts s)) \<rparr>"

text \<open>The loop that halves the counts and sums them up again.\<close>

fun halve_loop :: "u16 list \<Rightarrow> u16 \<Rightarrow> u16 list \<times> u16" where
  "halve_loop [] tot = ([], tot)"
| "halve_loop (c # cs) tot =
    (let c = drop_bit 1 c in case halve_loop cs (tot + c) of (cs, tot) \<Rightarrow> (c # cs, tot))"

definition scale_down :: "cc \<Rightarrow> cc" where
  "scale_down s =
    (case halve_loop (counts s) 0 of (cs, tot) \<Rightarrow>
       let e = length cs - 1 in
       if cs ! e = 0 then \<lparr> cc_total = tot + 1, counts = cs[e := 1] \<rparr> else \<lparr> cc_total = tot, counts = cs \<rparr>)"

definition increment_count :: "u64 \<Rightarrow> u16 \<Rightarrow> cc \<Rightarrow> (bool \<times> cc) c" where
  "increment_count symbol amount s =
    (let s = (if (ucast (cc_total s) :: u64) + ucast amount \<ge> 65536 then scale_down s else s);
         i = unat symbol
     in if i < length (counts s)
        then Inr (True, \<lparr> cc_total = cc_total s + amount, counts = (counts s)[i := counts s ! i + amount] \<rparr>)
        else Inl Out_Of_Bounds)"

definition cc_get_count :: "u64 \<Rightarrow> cc \<Rightarrow> u64 c" where
  "cc_get_count symbol s =
    (if unat symbol < length (counts s) then Inr (ucast (counts s ! unat symbol)) else Inl Out_Of_Bounds)"

definition get_alphabet_size :: "cc \<Rightarrow> u64" where
  "get_alphabet_size s = of_nat (length (counts s))"

definition get_total :: "cc \<Rightarrow> u64" where
  "get_total s = ucast (cc_total s)"

text \<open>The sum of the counts up to and including the \<open>k\<close>-th.\<close>

fun range_loop :: "u16 list \<Rightarrow> nat \<Rightarrow> u16 \<Rightarrow> u16" where
  "range_loop (c # cs) (Suc k) acc = range_loop cs k (acc + c)"
| "range_loop (c # cs) 0 acc = acc + c"
| "range_loop [] k acc = acc"

text \<open>The returned count, and the output parameters when they are written.\<close>

definition get_range :: "u64 \<Rightarrow> cc \<Rightarrow> (u64 \<times> (u64 \<times> u64 \<times> u64) option) c" where
  "get_range symbol s =
    (let i = unat symbol in
     if i < length (counts s) then
       if counts s ! i = 0 then Inr (0, None)
       else let high = range_loop (counts s) i 0
            in Inr (ucast (counts s ! i),
                 Some (ucast high - ucast (counts s ! i), ucast high, ucast (cc_total s)))
     else Inl Out_Of_Bounds)"

fun symbol_loop :: "u16 list \<Rightarrow> u64 \<Rightarrow> u64 \<Rightarrow> u64 \<Rightarrow> (u64 \<times> u64 \<times> u64) c" where
  "symbol_loop [] symbol acc target = Inl Out_Of_Bounds"
| "symbol_loop (c # cs) symbol acc target =
    (let high = acc + ucast c in
     if target \<ge> high then symbol_loop cs (symbol + 1) high target
     else Inr (symbol, high - ucast c, high))"

definition get_symbol :: "u64 \<Rightarrow> cc \<Rightarrow> (u64 \<times> u64 \<times> u64) c" where
  "get_symbol target s = symbol_loop (counts s) 0 0 target"

subsection \<open>The contract\<close>

text \<open>A sequence of calls of \<open>increment_count\<close>.\<close>

fun increment_all :: "(u64 \<Rightarrow> u16 \<Rightarrow> 's \<Rightarrow> (bool \<times> 's) c) \<Rightarrow> (u64 \<times> u16) list \<Rightarrow> 's \<Rightarrow> 's c" where
  "increment_all incr [] s = Inr s"
| "increment_all incr ((symbol, amount) # ops) s =
    c_bind (incr symbol amount s) (\<lambda>(_, s). increment_all incr ops s)"

lemma increment_all_invariant:
  assumes "\<And>s sy a. P s \<Longrightarrow> ok sy a \<Longrightarrow> \<exists>b s'. incr sy a s = Inr (b, s') \<and> P s'"
  shows "P s \<Longrightarrow> \<forall>(sy, a) \<in> set ops. ok sy a \<Longrightarrow> \<exists>s'. increment_all incr ops s = Inr s' \<and> P s'"
proof (induction ops arbitrary: s)
  case (Cons op ops)
  obtain sy a where op: "op = (sy, a)" by (cases op)
  obtain b s1 where "incr sy a s = Inr (b, s1)" "P s1" using assms [of s sy a] Cons.prems op by auto
  then show ?case using Cons.IH [of s1] Cons.prems(2) op by simp
qed simp

locale conditioning_class =
  fixes alphabet :: nat
    and wf :: "'s \<Rightarrow> bool"
    and incr :: "u64 \<Rightarrow> u16 \<Rightarrow> 's \<Rightarrow> (bool \<times> 's) c"
    and range_of :: "u64 \<Rightarrow> 's \<Rightarrow> (u64 \<times> (u64 \<times> u64 \<times> u64) option) c"
    and symbol_of :: "u64 \<Rightarrow> 's \<Rightarrow> (u64 \<times> u64 \<times> u64) c"
    and total_of :: "'s \<Rightarrow> u64"
  assumes alphabet_bounds: "1 < alphabet" "alphabet < 65536"
    and total_bounds: "wf s \<Longrightarrow> 0 < total_of s \<and> total_of s < 65536"
    and incr_ok: "wf s \<Longrightarrow> unat sy < alphabet \<Longrightarrow> amount \<noteq> 0 \<Longrightarrow> unat amount < 32768 \<Longrightarrow> \<exists>ok s'. incr sy amount s = Inr (ok, s') \<and> wf s'"
    and range_ok: "wf s \<Longrightarrow> unat sy < alphabet \<Longrightarrow>
      range_of sy s = Inr (0, None) \<and> unat sy \<noteq> alphabet - 1 \<or>
      (\<exists>c lo hi. range_of sy s = Inr (c, Some (lo, hi, total_of s)) \<and> c \<noteq> 0 \<and> lo < hi \<and> hi \<le> total_of s \<and>
        (\<forall>t. lo \<le> t \<longrightarrow> t < hi \<longrightarrow> symbol_of t s = Inr (sy, lo, hi)))"
    and symbol_ok: "wf s \<Longrightarrow> t < total_of s \<Longrightarrow>
      \<exists>sy c lo hi. symbol_of t s = Inr (sy, lo, hi) \<and> unat sy < alphabet \<and>
        range_of sy s = Inr (c, Some (lo, hi, total_of s)) \<and> lo \<le> t \<and> t < hi"
begin

text \<open>The ranges of the symbols divide up the numbers below the total.\<close>

lemma ranges_partition:
  assumes "wf s" "t < total_of s"
  shows "\<exists>!sy. unat sy < alphabet \<and> (\<exists>c lo hi. range_of sy s = Inr (c, Some (lo, hi, total_of s)) \<and> lo \<le> t \<and> t < hi)"
proof -
  have u: "symbol_of t s = Inr (sy, lo, hi)"
    if "unat sy < alphabet" "range_of sy s = Inr (c, Some (lo, hi, total_of s))" "lo \<le> t" "t < hi" for sy c lo hi
    using range_ok [OF assms(1) that(1)] that(2-4) by auto
  obtain sy c lo hi where sy: "symbol_of t s = Inr (sy, lo, hi)" "unat sy < alphabet"
    "range_of sy s = Inr (c, Some (lo, hi, total_of s))" "lo \<le> t" "t < hi" using symbol_ok [OF assms] by blast
  show ?thesis
  proof (intro ex1I [of _ sy])
    fix sy' assume "unat sy' < alphabet \<and> (\<exists>c lo hi. range_of sy' s = Inr (c, Some (lo, hi, total_of s)) \<and> lo \<le> t \<and> t < hi)"
    then show "sy' = sy" using u sy(1) by fastforce
  qed (use sy in blast)
qed

text \<open>Counting keeps the state well formed.\<close>

lemma increment_all_ok:
  "wf s \<Longrightarrow> \<forall>(sy, a) \<in> set ops. unat sy < alphabet \<and> a \<noteq> 0 \<and> unat a < 32768 \<Longrightarrow> \<exists>s'. increment_all incr ops s = Inr s' \<and> wf s'"
  by (rule increment_all_invariant [of wf "\<lambda>sy a. unat sy < alphabet \<and> a \<noteq> 0 \<and> unat a < 32768"]) (auto intro: incr_ok)

end

subsection \<open>Sums of counts\<close>

definition cc_wf :: "nat \<Rightarrow> cc \<Rightarrow> bool" where
  "cc_wf n s \<longleftrightarrow> 1 < n \<and> n < 65536 \<and> length (counts s) = n \<and> sum_list (map unat (counts s)) = unat (cc_total s) \<and>
    counts s ! (n - 1) \<noteq> 0"

abbreviation count_below :: "cc \<Rightarrow> nat \<Rightarrow> nat" where
  "count_below s i \<equiv> sum_list (map unat (take i (counts s)))"

lemma low_count_mono: "i \<le> j \<Longrightarrow> sum_list (map unat (take i cs)) \<le> sum_list (map unat (take j (cs :: u16 list)))"
proof -
  assume "i \<le> j"
  then have "take j cs = take i cs @ drop i (take j cs)" by (metis append_take_drop_id min.absorb1 take_take)
  then have "sum_list (map unat (take j cs)) = sum_list (map unat (take i cs)) + sum_list (map unat (drop i (take j cs)))"
    by (metis map_append sum_list_append)
  then show ?thesis by simp
qed

lemma low_count_le: "sum_list (map unat (take i cs)) \<le> sum_list (map unat (cs :: u16 list))"
  using low_count_mono [of i "max i (length cs)" cs] by simp

lemma low_count_Suc: "i < length cs \<Longrightarrow> sum_list (map unat (take (Suc i) cs)) = sum_list (map unat (take i cs)) + unat (cs ! i)"
  by (simp add: take_Suc_conv_app_nth)

lemma u16_less: "unat (w :: u16) < 65536"
  using unsigned_less [of w, where 'a = nat] by simp

lemma range_loop_sum:
  "k < length cs \<Longrightarrow> unat acc + sum_list (map unat (take (Suc k) cs)) < 65536 \<Longrightarrow>
    unat (range_loop cs k acc) = unat acc + sum_list (map unat (take (Suc k) cs))"
proof (induction cs k acc rule: range_loop.induct)
  case (1 c cs k acc)
  then show ?case by (simp add: unat_word_ariths)
qed (simp_all add: unat_word_ariths)

lemma unat_u64_u16: "unat (ucast (w :: u16) :: u64) = unat w"
  using u16_less [of w] by (simp add: unsigned_ucast_eq take_bit_eq_mod)

text \<open>The search stops at the symbol whose range holds the target.\<close>

lemma symbol_loop_at:
  assumes "i < length cs" "unat acc + sum_list (map unat cs) < 65536" "unat sy + length cs < 2 ^ 64"
    "unat acc + sum_list (map unat (take i cs)) \<le> unat t" "unat t < unat acc + sum_list (map unat (take (Suc i) cs))"
  shows "\<exists>lo hi. symbol_loop cs sy acc t = Inr (sy + of_nat i, lo, hi) \<and>
    unat lo = unat acc + sum_list (map unat (take i cs)) \<and> unat hi = unat acc + sum_list (map unat (take (Suc i) cs))"
  using assms
proof (induction cs arbitrary: i sy acc)
  case (Cons c cs)
  have h: "unat (acc + ucast c) = unat acc + unat c"
    using Cons.prems(2) by (simp add: unat_word_ariths unat_u64_u16)
  show ?case
  proof (cases i)
    case 0
    then show ?thesis using Cons.prems h by (simp add: Let_def word_le_nat_alt)
  next
    case (Suc j)
    have "unat (sy + 1) = unat sy + 1" using Cons.prems(3) by (simp add: unat_word_ariths)
    then show ?thesis using Cons.IH [of j "acc + ucast c" "sy + 1"] Cons.prems h Suc
      by (simp add: Let_def word_le_nat_alt add.assoc)
  qed
qed simp

lemma symbol_exists:
  assumes "t < sum_list (map unat (cs :: u16 list))"
  shows "\<exists>i < length cs. sum_list (map unat (take i cs)) \<le> t \<and> t < sum_list (map unat (take (Suc i) cs))"
  using assms
proof (induction cs arbitrary: t)
  case (Cons c cs)
  show ?case
  proof (cases "t < unat c")
    case False
    then have "t - unat c < sum_list (map unat cs)" using Cons.prems by simp
    then obtain i where "i < length cs" "sum_list (map unat (take i cs)) \<le> t - unat c"
      "t - unat c < sum_list (map unat (take (Suc i) cs))" using Cons.IH by blast
    then show ?thesis using False by (intro exI [of _ "Suc i"]) auto
  qed (auto intro!: exI [of _ 0])
qed simp

subsection \<open>Counting\<close>

lemma sum_list_update_add:
  assumes "i < length cs"
  shows "sum_list (map unat ((cs :: u16 list)[i := v])) + unat (cs ! i) = sum_list (map unat cs) + unat v"
proof -
  have "sum_list (map unat cs) = sum_list (map unat (take i cs)) + unat (cs ! i) + sum_list (map unat (drop (Suc i) cs))"
    using assms by (subst id_take_nth_drop [OF assms]) simp
  then show ?thesis using assms by (simp add: upd_conv_take_nth_drop)
qed

lemma nth_le_sum: "i < length cs \<Longrightarrow> unat (cs ! i) \<le> sum_list (map unat (cs :: u16 list))"
  using sum_list_update_add [of i cs 0] by simp

lemma halve_loop_spec:
  assumes "unat tot + sum_list (map unat cs) < 65536" "halve_loop cs tot = (cs', tot')"
  shows "cs' = map (drop_bit 1) cs \<and> unat tot' = unat tot + sum_list (map unat cs') \<and>
    2 * sum_list (map unat cs') \<le> sum_list (map unat cs)"
  using assms
proof (induction cs arbitrary: tot cs' tot')
  case (Cons c cs)
  let ?c = "drop_bit 1 c"
  have c: "unat ?c = unat c div 2" unfolding unat_drop_bit_eq drop_bit_eq_div [of 1 "unat c"] by simp
  obtain cs1 where r: "halve_loop cs (tot + ?c) = (cs1, tot')" "cs' = ?c # cs1"
    using Cons.prems(2) by (auto simp: Let_def split: prod.splits)
  have "unat (tot + ?c) = unat tot + unat ?c" using Cons.prems(1) c by (simp add: unat_word_ariths)
  moreover from this have "unat (tot + ?c) + sum_list (map unat cs) < 65536" using Cons.prems(1) c by simp
  note ih = Cons.IH [OF this r(1)]
  ultimately have "unat tot' = unat tot + sum_list (map unat cs')" using r(2) by simp
  moreover have "2 * sum_list (map unat cs') \<le> sum_list (map unat (c # cs))"
    using conjunct2 [OF conjunct2 [OF ih]] c times_div_less_eq_dividend [of 2 "unat c"]
    by (simp only: r(2) list.map sum_list.Cons distrib_left)
  ultimately show ?case using ih r(2) by simp
qed simp

lemma scale_down_wf:
  assumes "cc_wf n s"
  shows "cc_wf n (scale_down s)" "unat (cc_total (scale_down s)) \<le> 32768"
proof -
  have w: "1 < n" "n < 65536" "length (counts s) = n" "sum_list (map unat (counts s)) = unat (cc_total s)"
    using assms by (auto simp: cc_wf_def)
  obtain cs tot where h: "halve_loop (counts s) 0 = (cs, tot)" by (metis surj_pair)
  have "unat (0 :: u16) + sum_list (map unat (counts s)) < 65536" using w(4) u16_less [of "cc_total s"] by simp
  from halve_loop_spec [OF this h] have sp: "length cs = n" "unat tot = sum_list (map unat cs)"
    "2 * sum_list (map unat cs) \<le> unat (cc_total s)" using w by auto
  then have half: "unat tot < 32768" using u16_less [of "cc_total s"] by simp
  show "cc_wf n (scale_down s)"
  proof (cases "cs ! (n - 1) = 0")
    case True
    have "sum_list (map unat (cs[n - 1 := 1])) = unat tot + 1"
      using sum_list_update_add [of "n - 1" cs 1] sp w(1) True by simp
    then show ?thesis using True h sp w half by (simp add: scale_down_def cc_wf_def Let_def unat_word_ariths)
  next
    case False
    then show ?thesis using h sp w by (simp add: scale_down_def cc_wf_def Let_def)
  qed
  show "unat (cc_total (scale_down s)) \<le> 32768"
    using h half by (simp add: scale_down_def Let_def unat_word_ariths)
qed

lemma scale_down_counts:
  assumes "cc_wf n s"
  shows "counts (scale_down s) = (map (drop_bit 1) (counts s))
    [n - 1 := if drop_bit 1 (counts s ! (n - 1)) = 0 then 1 else drop_bit 1 (counts s ! (n - 1))]"
proof -
  have w: "1 < n" "length (counts s) = n" "sum_list (map unat (counts s)) = unat (cc_total s)" using assms by (auto simp: cc_wf_def)
  obtain cs tot where h: "halve_loop (counts s) 0 = (cs, tot)" by (metis surj_pair)
  have "unat (0 :: u16) + sum_list (map unat (counts s)) < 65536" using w(3) u16_less [of "cc_total s"] by simp
  from halve_loop_spec [OF this h] have "cs = map (drop_bit 1) (counts s)" by blast
  moreover have "(map (drop_bit 1) (counts s))[n - 1 := drop_bit 1 (counts s ! (n - 1))] = map (drop_bit 1) (counts s)"
    using w by (simp add: list_update_same_conv)
  ultimately show ?thesis using h w by (simp add: scale_down_def Let_def)
qed

text \<open>After the check of the total there is room for the increment.\<close>

lemma scaled_fits:
  assumes "cc_wf n s" "unat amount < 32768"
    and s1: "s1 = (if (ucast (cc_total s) :: u64) + ucast amount \<ge> 65536 then scale_down s else s)"
  shows "cc_wf n s1" "unat (cc_total s1) + unat amount < 65536"
    "i < n \<Longrightarrow> unat (counts s1 ! i + amount) = unat (counts s1 ! i) + unat amount"
proof -
  have "unat ((ucast (cc_total s) :: u64) + ucast amount) = unat (cc_total s) + unat amount"
    using u16_less [of "cc_total s"] u16_less [of amount] by (simp add: unat_word_ariths unat_u64_u16)
  then show t: "cc_wf n s1" "unat (cc_total s1) + unat amount < 65536"
    using assms(1,2) scale_down_wf [OF assms(1)] unfolding s1 by (auto simp: word_le_nat_alt)
  assume "i < n"
  then have "unat (counts s1 ! i) \<le> unat (cc_total s1)" using nth_le_sum [of i "counts s1"] t(1) by (simp add: cc_wf_def)
  then show "unat (counts s1 ! i + amount) = unat (counts s1 ! i) + unat amount" using t(2) by (simp add: unat_word_ariths)
qed

lemma increment_count_wf:
  assumes "cc_wf n s" "unat sy < n" "unat amount < 32768"
  shows "\<exists>ok s'. increment_count sy amount s = Inr (ok, s') \<and> cc_wf n s'"
proof -
  define s1 where "s1 = (if (ucast (cc_total s) :: u64) + ucast amount \<ge> 65536 then scale_down s else s)"
  note t = scaled_fits [OF assms(1,3) s1_def]
  have w: "1 < n" "n < 65536" "length (counts s1) = n" "sum_list (map unat (counts s1)) = unat (cc_total s1)"
    "counts s1 ! (n - 1) \<noteq> 0" "unat (cc_total s1) + unat amount < 65536"
    using t by (auto simp: cc_wf_def)
  let ?c = "counts s1 ! unat sy" and ?i = "unat sy"
  note c = t(3) [OF assms(2)]
  have "sum_list (map unat ((counts s1)[?i := ?c + amount])) = unat (cc_total s1) + unat amount"
    using sum_list_update_add [of ?i "counts s1" "?c + amount"] w(3,4) assms(2) c by simp
  moreover have "(counts s1)[?i := ?c + amount] ! (n - 1) \<noteq> 0"
  proof (cases "?i = n - 1")
    case True
    then have "unat (?c + amount) \<noteq> 0" using c w(5) by (simp add: unat_eq_0)
    then have "?c + amount \<noteq> 0" by (simp add: unat_eq_0)
    then show ?thesis using True w(1,3) by simp
  qed (use w in simp)
  ultimately have "cc_wf n \<lparr> cc_total = cc_total s1 + amount, counts = (counts s1)[?i := ?c + amount] \<rparr>"
    using w by (simp add: cc_wf_def unat_word_ariths)
  then show ?thesis using w(3) assms(2) by (intro exI [of _ True]) (simp add: increment_count_def Let_def flip: s1_def)
qed

lemma get_range_wf:
  assumes "cc_wf n s" "unat sy < n" "counts s ! unat sy \<noteq> 0"
  shows "\<exists>c lo hi. get_range sy s = Inr (c, Some (lo, hi, get_total s)) \<and> c \<noteq> 0 \<and>
    unat lo = count_below s (unat sy) \<and> unat hi = count_below s (Suc (unat sy)) \<and> lo < hi \<and> hi \<le> get_total s"
proof -
  let ?i = "unat sy" and ?c = "counts s ! unat sy"
  have w: "length (counts s) = n" "sum_list (map unat (counts s)) = unat (cc_total s)"
    using assms(1) by (auto simp: cc_wf_def)
  have le: "count_below s (Suc ?i) \<le> unat (cc_total s)" using low_count_le [of "Suc ?i" "counts s"] w(2) by simp
  then have hi: "unat (range_loop (counts s) ?i 0) = count_below s (Suc ?i)"
    using range_loop_sum [of ?i "counts s" 0] assms(2) w(1) u16_less [of "cc_total s"] by simp
  have sum: "count_below s (Suc ?i) = count_below s ?i + unat ?c" using low_count_Suc [of ?i "counts s"] assms(2) w(1) by simp
  let ?hi = "ucast (range_loop (counts s) ?i 0) :: u64"
  have uh: "unat ?hi = count_below s (Suc ?i)" using hi by (simp add: unat_u64_u16)
  have ul: "unat (?hi - ucast ?c) = count_below s ?i"
    using uh sum by (subst unat_sub) (simp_all add: word_le_nat_alt unat_u64_u16)
  have c: "0 < unat ?c" using assms(3) by (simp add: unat_gt_0)
  have "(ucast ?c :: u64) \<noteq> 0" using c by (metis unat_u64_u16 less_irrefl unsigned_0)
  then show ?thesis using assms(2,3) w(1) uh ul c sum le
    by (simp add: get_range_def Let_def get_total_def word_less_nat_alt word_le_nat_alt unat_u64_u16)
qed

lemma get_symbol_at:
  assumes "cc_wf n s" "i < n" "count_below s i \<le> unat t" "unat t < count_below s (Suc i)"
  shows "\<exists>lo hi. get_symbol t s = Inr (of_nat i, lo, hi) \<and> unat lo = count_below s i \<and> unat hi = count_below s (Suc i)"
  using symbol_loop_at [of i "counts s" 0 0 t] assms u16_less [of "cc_total s"]
  by (simp add: get_symbol_def cc_wf_def)

text \<open>The kernel keeps the contract, for every alphabet size the code admits.\<close>

lemma conditioning_class_kernel_1:
  assumes "1 < n" "n < 65536"
  shows "conditioning_class n (cc_wf n) increment_count get_range get_symbol get_total"
proof unfold_locales
  show "1 < n" "n < 65536" using assms by auto
  fix s assume wf: "cc_wf n s"
  have w: "length (counts s) = n" "sum_list (map unat (counts s)) = unat (cc_total s)" "counts s ! (n - 1) \<noteq> 0"
    using wf by (auto simp: cc_wf_def)
  have tot: "unat (get_total s) = unat (cc_total s)" by (simp add: get_total_def unat_u64_u16)
  have "0 < unat (counts s ! (n - 1))" using w(3) by (simp add: unat_gt_0)
  then have "0 < unat (cc_total s)" using nth_le_sum [of "n - 1" "counts s"] w assms(1) by simp
  then show "0 < get_total s \<and> get_total s < 65536"
    using tot u16_less [of "cc_total s"] by (simp add: word_less_nat_alt)
  fix sy amount
  show "unat sy < n \<Longrightarrow> unat amount < 32768 \<Longrightarrow> \<exists>ok s'. increment_count sy amount s = Inr (ok, s') \<and> cc_wf n s'"
    by (rule increment_count_wf [OF wf])
  assume sy: "unat sy < n"
  show "get_range sy s = Inr (0, None) \<and> unat sy \<noteq> n - 1 \<or>
      (\<exists>c lo hi. get_range sy s = Inr (c, Some (lo, hi, get_total s)) \<and> c \<noteq> 0 \<and> lo < hi \<and> hi \<le> get_total s \<and>
        (\<forall>t. lo \<le> t \<longrightarrow> t < hi \<longrightarrow> get_symbol t s = Inr (sy, lo, hi)))"
  proof (cases "counts s ! unat sy = 0")
    case True
    then show ?thesis using sy w by (auto simp: get_range_def Let_def)
  next
    case False
    then obtain c lo hi where r: "get_range sy s = Inr (c, Some (lo, hi, get_total s))" "c \<noteq> 0"
      "unat lo = count_below s (unat sy)" "unat hi = count_below s (Suc (unat sy))" "lo < hi" "hi \<le> get_total s"
      using get_range_wf [OF wf sy] by blast
    have "get_symbol t s = Inr (sy, lo, hi)" if "lo \<le> t" "t < hi" for t
      using get_symbol_at [OF wf sy, of t] that r(3,4) by (auto simp: word_le_nat_alt word_less_nat_alt word_unat_eq_iff)
    then show ?thesis using r by blast
  qed
next
  fix s t assume wf: "cc_wf n s" and t: "t < get_total s"
  have w: "length (counts s) = n" "sum_list (map unat (counts s)) = unat (cc_total s)" using wf by (auto simp: cc_wf_def)
  have "unat t < sum_list (map unat (counts s))" using t w by (simp add: word_less_nat_alt get_total_def unat_u64_u16)
  from symbol_exists [OF this] obtain i where i: "i < n" "count_below s i \<le> unat t" "unat t < count_below s (Suc i)"
    using w(1) by auto
  obtain lo hi where r: "get_symbol t s = Inr (of_nat i, lo, hi)" "unat lo = count_below s i" "unat hi = count_below s (Suc i)"
    using get_symbol_at [OF wf i] by blast
  have "unat (of_nat i :: u64) = i" using i(1) assms(2) by (simp add: unat_of_nat)
  moreover have "counts s ! i \<noteq> 0" using i w(1) low_count_Suc [of i "counts s"] by auto
  ultimately obtain c lo' hi' where "get_range (of_nat i) s = Inr (c, Some (lo', hi', get_total s))"
    "unat lo' = count_below s i" "unat hi' = count_below s (Suc i)" using get_range_wf [OF wf, of "of_nat i"] i(1) by auto
  moreover from this have "lo' = lo" "hi' = hi" using r by (simp_all add: word_unat_eq_iff)
  ultimately show "\<exists>sy c lo hi. get_symbol t s = Inr (sy, lo, hi) \<and> unat sy < n \<and>
      get_range sy s = Inr (c, Some (lo, hi, get_total s)) \<and> lo \<le> t \<and> t < hi"
    using r i \<open>unat (of_nat i :: u64) = i\<close> by (auto simp: word_less_nat_alt word_le_nat_alt)
qed

lemma cc_new_wf: "1 < n \<Longrightarrow> n < 65536 \<Longrightarrow> cc_wf n (fst (cc_new n size_of usage))"
  by (simp add: cc_wf_def cc_new_def initial_counts_def sum_list_replicate nth_append)

text \<open>The alphabet of the models that the compressors use: 256 bytes, the end marker and the escape.\<close>

interpretation cc258: conditioning_class 258 "cc_wf 258" increment_count get_range get_symbol get_total
  by (rule conditioning_class_kernel_1) simp_all

text \<open>
  C25. The type invariant of \<open>conditioning_class_kernel_1\<close>, for every alphabet size it admits: after
  any calls of \<open>increment_count\<close> on symbols of the alphabet, scaling down included, no array access
  was out of bounds, the total is the sum of the counts and has not wrapped around, and the escape
  symbol still has a count.
\<close>

theorem conditioning_class_type:
  assumes "1 < n" "n < 65536" "\<forall>(sy, a) \<in> set ops. unat sy < n \<and> unat a < 32768"
  shows "\<exists>s. increment_all increment_count ops (fst (cc_new n size_of usage)) = Inr s \<and> length (counts s) = n \<and>
    unat (cc_total s) = sum_list (map unat (counts s)) \<and> counts s ! (n - 1) \<noteq> 0"
  using increment_all_invariant [of "cc_wf n" "\<lambda>sy a. unat sy < n \<and> unat a < 32768" increment_count, OF _ cc_new_wf [OF assms(1,2)] assms(3),
      of size_of usage] increment_count_wf [of n]
  by (auto simp: cc_wf_def)

theorem conditioning_class_type_witness:
  "\<exists>s. increment_all increment_count [(0, 32767), (2, 32767), (1, 2)] (fst (cc_new 3 8 0)) = Inr s \<and> length (counts s) = 3 \<and>
    unat (cc_total s) = sum_list (map unat (counts s)) \<and> counts s ! (3 - 1) \<noteq> 0"
  by (rule conditioning_class_type) simp_all

end
