(* ===== verification/Entropy_Model.thy ===== *)
theory Entropy_Model
  imports Entropy_Coder Conditioning_Class
begin

text \<open>
  The order-0 models of \<open>entropy_encoder_model_kernel_1.h\<close> and \<open>entropy_decoder_model_kernel_1.h\<close>
  (both under \<open>src/dlib-minimal/lib/dlib/\<close>).  They are templates over the coder and the conditioning
  class, so the operations of these are arguments of the definitions.  A model holds a reference to
  its coder, which its client also uses directly; here the coder is a field of the model, and
  \<open>raw_encode\<close>, \<open>raw_target\<close> and \<open>raw_decode\<close> are the client's calls on it.
\<close>

record ('s, 'c) entropy_model =
  order_0 :: 's
  coder :: 'c

text \<open>The output parameters of \<open>get_range\<close> keep their values when it does not write them.\<close>

definition counts_or :: "u64 \<times> u64 \<times> u64 \<Rightarrow> (u64 \<times> u64 \<times> u64) option \<Rightarrow> u64 \<times> u64 \<times> u64" where
  "counts_or old new = (case new of None \<Rightarrow> old | Some n \<Rightarrow> n)"

definition model_encode ::
  "(u64 \<Rightarrow> 's \<Rightarrow> (u64 \<times> (u64 \<times> u64 \<times> u64) option) c) \<Rightarrow> (u64 \<Rightarrow> u16 \<Rightarrow> 's \<Rightarrow> (bool \<times> 's) c) \<Rightarrow>
    (u32 \<Rightarrow> u32 \<Rightarrow> u32 \<Rightarrow> 'e \<Rightarrow> 'e io) \<Rightarrow> u64 \<Rightarrow> u64 \<Rightarrow> ('s, 'e) entropy_model \<Rightarrow> ('s, 'e) entropy_model io" where
  "model_encode range_of incr enc alphabet_size symbol m =
    io_bind (io_c (range_of symbol (order_0 m))) (\<lambda>(found, out).
    case counts_or (0, 0, 0) out of (low_count, high_count, total_count) \<Rightarrow>
    if found \<noteq> 0 then
      io_bind (io_c (incr symbol 2 (order_0 m))) (\<lambda>(_, cc).
      io_bind (enc (ucast low_count) (ucast high_count) (ucast total_count) (coder m)) (\<lambda>co.
      Some (Inr (m \<lparr> order_0 := cc, coder := co \<rparr>))))
    else
      io_bind (io_c (range_of alphabet_size (order_0 m))) (\<lambda>(_, out).
      case counts_or (low_count, high_count, total_count) out of (low_count, high_count, total_count) \<Rightarrow>
      io_bind (enc (ucast low_count) (ucast high_count) (ucast total_count) (coder m)) (\<lambda>co.
      io_bind (io_c (incr alphabet_size 1 (order_0 m))) (\<lambda>(_, cc).
      io_bind (io_c (incr symbol 2 cc)) (\<lambda>(_, cc).
      io_bind (enc (ucast symbol) (ucast (symbol + 1)) (ucast alphabet_size) co) (\<lambda>co.
      Some (Inr (m \<lparr> order_0 := cc, coder := co \<rparr>))))))))"

definition model_decode ::
  "('s \<Rightarrow> u64) \<Rightarrow> (u64 \<Rightarrow> 's \<Rightarrow> (u64 \<times> u64 \<times> u64) c) \<Rightarrow> (u64 \<Rightarrow> u16 \<Rightarrow> 's \<Rightarrow> (bool \<times> 's) c) \<Rightarrow>
    (u32 \<Rightarrow> 'd \<Rightarrow> (u32 \<times> 'd) c) \<Rightarrow> (u32 \<Rightarrow> u32 \<Rightarrow> 'd \<Rightarrow> 'd io) \<Rightarrow> u64 \<Rightarrow>
    ('s, 'd) entropy_model \<Rightarrow> (u64 \<times> ('s, 'd) entropy_model) io" where
  "model_decode total_of symbol_of incr target dec alphabet_size m =
    io_bind (io_c (target (ucast (total_of (order_0 m))) (coder m))) (\<lambda>(t, co).
    io_bind (io_c (symbol_of (ucast t) (order_0 m))) (\<lambda>(current_symbol, low_count, high_count).
    io_bind (dec (ucast low_count) (ucast high_count) co) (\<lambda>co.
    if current_symbol \<noteq> alphabet_size then
      io_bind (io_c (incr current_symbol 2 (order_0 m))) (\<lambda>(_, cc).
      Some (Inr (current_symbol, m \<lparr> order_0 := cc, coder := co \<rparr>)))
    else
      io_bind (io_c (incr alphabet_size 1 (order_0 m))) (\<lambda>(_, cc).
      io_bind (io_c (target (ucast alphabet_size) co)) (\<lambda>(t, co).
      io_bind (dec t (t + 1) co) (\<lambda>co.
      io_bind (io_c (incr (ucast t) 2 cc)) (\<lambda>(_, cc).
      Some (Inr (ucast t, m \<lparr> order_0 := cc, coder := co \<rparr>)))))))))"

definition model_clear :: "('s \<Rightarrow> 's) \<Rightarrow> ('s, 'c) entropy_model \<Rightarrow> ('s, 'c) entropy_model" where
  "model_clear clear m = m \<lparr> order_0 := clear (order_0 m) \<rparr>"

definition raw_encode ::
  "(u32 \<Rightarrow> u32 \<Rightarrow> u32 \<Rightarrow> 'e \<Rightarrow> 'e io) \<Rightarrow> u32 \<Rightarrow> u32 \<Rightarrow> u32 \<Rightarrow>
    ('s, 'e, 'z) entropy_model_scheme \<Rightarrow> ('s, 'e, 'z) entropy_model_scheme io" where
  "raw_encode enc lc hc tot m = io_bind (enc lc hc tot (coder m)) (\<lambda>co. Some (Inr (m \<lparr> coder := co \<rparr>)))"

definition raw_target ::
  "(u32 \<Rightarrow> 'd \<Rightarrow> (u32 \<times> 'd) c) \<Rightarrow> u32 \<Rightarrow>
    ('s, 'd, 'z) entropy_model_scheme \<Rightarrow> (u32 \<times> ('s, 'd, 'z) entropy_model_scheme) c" where
  "raw_target target tot m = (case target tot (coder m) of Inl e \<Rightarrow> Inl e | Inr (t, co) \<Rightarrow> Inr (t, m \<lparr> coder := co \<rparr>))"

definition raw_decode ::
  "(u32 \<Rightarrow> u32 \<Rightarrow> 'd \<Rightarrow> 'd io) \<Rightarrow> u32 \<Rightarrow> u32 \<Rightarrow>
    ('s, 'd, 'z) entropy_model_scheme \<Rightarrow> ('s, 'd, 'z) entropy_model_scheme io" where
  "raw_decode dec lc hc m = io_bind (dec lc hc (coder m)) (\<lambda>co. Some (Inr (m \<lparr> coder := co \<rparr>)))"

subsection \<open>The contract of a pair of models\<close>

text \<open>
  The client's calls on the coder leave the model alone, so a model with its coder is a coder again,
  whatever is known of the model.
\<close>

definition same_model ::
  "('e \<Rightarrow> u8 list \<Rightarrow> 'd \<Rightarrow> bool) \<Rightarrow> ('s, 'e, 'z) entropy_model_scheme \<Rightarrow> u8 list \<Rightarrow> ('s, 'd, 'z) entropy_model_scheme \<Rightarrow> bool" where
  "same_model in_step m rest n \<longleftrightarrow>
    order_0 n = order_0 m \<and> entropy_model.more n = entropy_model.more m \<and> in_step (coder m) rest (coder n)"

context entropy_coder
begin

lemma raw_encode_ok:
  fixes m :: "('s, 'e, 'z) entropy_model_scheme"
  assumes W: "\<And>co. W (m \<lparr> coder := co \<rparr>) = W m" and m: "W m" "ready (coder m)" and i: "interval_ok (lc, hc, tot)"
  shows "\<exists>(m' :: ('s, 'e, 'z) entropy_model_scheme) bs. raw_encode enc lc hc tot m = Some (Inr m') \<and>
    (W m' \<and> ready (coder m')) \<and> sent (coder m') = sent (coder m) @ bs \<and>
    (\<forall>rest. admits (coder m') rest \<longrightarrow> admits (coder m) (bs @ rest)) \<and>
    (\<forall>rest (n :: ('s, 'd, 'z) entropy_model_scheme). admits (coder m') rest \<longrightarrow> same_model in_step m (bs @ rest) n \<longrightarrow>
      (\<exists>t n1 n2. raw_target target tot n = Inr (t, n1) \<and> lc \<le> t \<and> t < hc \<and> raw_decode dec lc hc n1 = Some (Inr n2) \<and>
        same_model in_step m' rest n2))"
proof -
  obtain e' bs where e: "enc lc hc tot (coder m) = Some (Inr e')" "delivers (coder m) bs e' (\<lambda>d d'. \<exists>t. finds (lc, hc, tot) t d d')"
    using enc_delivers [OF m(2) i] by blast
  show ?thesis
  proof (intro exI [of _ "m \<lparr> coder := e' \<rparr>"] exI [of _ bs] conjI allI impI)
    show "raw_encode enc lc hc tot m = Some (Inr (m \<lparr> coder := e' \<rparr>))" using e(1) by (simp add: raw_encode_def)
    fix rest and n :: "('s, 'd, 'z) entropy_model_scheme"
    assume a: "admits (coder (m \<lparr> coder := e' \<rparr>)) rest" "same_model in_step m (bs @ rest) n"
    then obtain t d' where "finds (lc, hc, tot) t (coder n) d'" "in_step e' rest d'"
      using deliversD [OF e(2), of rest "coder n"] by (auto simp: same_model_def)
    moreover have "order_0 n = order_0 m" "entropy_model.more n = entropy_model.more m" using a(2) by (simp_all add: same_model_def)
    ultimately show "\<exists>t n1 n2. raw_target target tot n = Inr (t, n1) \<and> lc \<le> t \<and> t < hc \<and> raw_decode dec lc hc n1 = Some (Inr n2) \<and>
        same_model in_step (m \<lparr> coder := e' \<rparr>) rest n2"
      by (auto simp: finds_def raw_target_def raw_decode_def same_model_def)
  qed (use W m e in \<open>simp_all add: delivers_def\<close>)
qed

lemma raw_target_ok:
  fixes n :: "('s, 'd, 'z) entropy_model_scheme"
  assumes W: "\<And>co. W (n \<lparr> coder := co \<rparr>) = W n" and n: "W n" "sound (coder n)" and tot: "0 < tot" "tot < 65536"
  shows "\<exists>t n1. raw_target target tot n = Inr (t, n1) \<and> t < tot \<and> (\<forall>lc hc. lc < hc \<longrightarrow> hc \<le> tot \<longrightarrow>
      (\<exists>n2. raw_decode dec lc hc n1 = Some (Inr n2) \<and> W n2 \<and> sound (coder n2)))"
proof -
  obtain t d1 where t: "target tot (coder n) = Inr (t, d1)" "t < tot"
    "\<And>lc hc. lc < hc \<Longrightarrow> hc \<le> tot \<Longrightarrow> \<exists>d2. dec lc hc d1 = Some (Inr d2) \<and> sound d2" using target_ok [OF n(2) tot] by blast
  have "\<exists>n2. raw_decode dec lc hc (n \<lparr> coder := d1 \<rparr>) = Some (Inr n2) \<and> W n2 \<and> sound (coder n2)"
    if "lc < hc" "hc \<le> tot" for lc hc using t(3) [OF that] n(1) W by (auto simp: raw_decode_def)
  then show ?thesis using t(1,2) by (simp add: raw_target_def)
qed

lemma raw_coder:
  fixes V :: "('s, 'e, 'z) entropy_model_scheme \<Rightarrow> bool" and W :: "('s, 'd, 'z) entropy_model_scheme \<Rightarrow> bool"
  assumes "\<And>m co. V (m \<lparr> coder := co \<rparr>) = V m" "\<And>n co. W (n \<lparr> coder := co \<rparr>) = W n"
  shows "entropy_coder (raw_encode enc) (\<lambda>m. finish (coder m)) (raw_target target) (raw_decode dec)
    (\<lambda>m. V m \<and> ready (coder m)) (\<lambda>m. sent (coder m)) (\<lambda>m. admits (coder m)) (same_model in_step)
    (\<lambda>n. W n \<and> sound (coder n)) (\<lambda>n. unread (coder n))"
proof (unfold_locales, goal_cases)
  case (1 m lc hc tot)
  then show ?case using raw_encode_ok [of V m lc hc tot] assms(1) by blast
next
  case (2 m)
  then show ?case using finish_ok by (fastforce simp: same_model_def)
next
  case (3 n tot)
  then show ?case using raw_target_ok [of W n tot] assms(2) by blast
qed

end

text \<open>
  A pair of models codes the symbols below \<open>alphabet\<close> and lets its client use the coder beneath.
\<close>

locale model_pair = entropy_coder enc finish target dec ready sent admits in_step sound unread
  for enc :: "u32 \<Rightarrow> u32 \<Rightarrow> u32 \<Rightarrow> 'm \<Rightarrow> 'm io" and finish target
    and dec :: "u32 \<Rightarrow> u32 \<Rightarrow> 'n \<Rightarrow> 'n io" and ready sent admits in_step sound unread +
  fixes alphabet :: nat
    and menc :: "u64 \<Rightarrow> 'm \<Rightarrow> 'm io"
    and mdec :: "'n \<Rightarrow> (u64 \<times> 'n) io"
  assumes menc_ok: "ready m \<Longrightarrow> unat sy < alphabet \<Longrightarrow>
      \<exists>m' bs. menc sy m = Some (Inr m') \<and> ready m' \<and> sent m' = sent m @ bs \<and>
        (\<forall>rest. admits m' rest \<longrightarrow> admits m (bs @ rest)) \<and>
        (\<forall>rest n. admits m' rest \<longrightarrow> in_step m (bs @ rest) n \<longrightarrow>
          (\<exists>n'. mdec n = Some (Inr (sy, n')) \<and> in_step m' rest n'))"
    and mdec_ok: "sound n \<Longrightarrow> \<exists>sy n'. mdec n = Some (Inr (sy, n')) \<and> unat sy < alphabet \<and> sound n'"

text \<open>The order-0 models over any coder and any conditioning class.\<close>

locale order_0_model =
  entropy_coder enc finish target dec ready sent admits in_step sound unread +
  conditioning_class "Suc alphabet" wf incr range_of symbol_of total_of
  for enc :: "u32 \<Rightarrow> u32 \<Rightarrow> u32 \<Rightarrow> 'e \<Rightarrow> 'e io" and finish target
    and dec :: "u32 \<Rightarrow> u32 \<Rightarrow> 'd \<Rightarrow> 'd io" and ready sent admits in_step sound unread
    and alphabet and wf :: "'s \<Rightarrow> bool" and incr range_of symbol_of total_of +
  assumes two_symbols: "1 < alphabet"

context order_0_model
begin

text \<open>The escape symbol is the last one of the conditioning class; it is the alphabet size of the model.\<close>

abbreviation escape :: u64 where
  "escape \<equiv> of_nat alphabet"

lemma escape_unat: "unat escape = alphabet"
  using alphabet_bounds by (simp add: unat_of_nat)

lemma escape_u32: "unat (ucast escape :: u32) = alphabet"
  using alphabet_bounds by (simp add: unsigned_ucast_eq take_bit_eq_mod unat_of_nat escape_unat)

lemma narrow: "x < 65536 \<Longrightarrow> unat (ucast (x :: u64) :: u32) = unat x"
  by (simp add: unsigned_ucast_eq take_bit_eq_mod word_less_nat_alt)

lemma widen: "unat (ucast (x :: u32) :: u64) = unat x"
  using unsigned_less [of x, where 'a = nat] by (simp add: unsigned_ucast_eq take_bit_eq_mod)

lemma range_interval:
  assumes "wf s" "lo < hi" "hi \<le> total_of s"
  shows "interval_ok (ucast lo, ucast hi, ucast (total_of s))"
    "\<And>t. ucast lo \<le> t \<Longrightarrow> t < ucast hi \<Longrightarrow> lo \<le> ucast (t :: u32) \<and> ucast t < hi"
proof -
  have b: "total_of s < 65536" "hi < 65536" "lo < 65536" using total_bounds [OF assms(1)] assms(2,3) by auto
  show "interval_ok (ucast lo, ucast hi, ucast (total_of s))"
    using b assms(2,3) by (simp add: word_less_nat_alt word_le_nat_alt narrow)
  show "\<And>t. ucast lo \<le> t \<Longrightarrow> t < ucast hi \<Longrightarrow> lo \<le> ucast (t :: u32) \<and> ucast t < hi"
    using b by (simp add: word_less_nat_alt word_le_nat_alt narrow widen)
qed

text \<open>Coding one range of the conditioning class: the decoder finds the symbol again.\<close>

definition looks_up :: "'s \<Rightarrow> u64 \<Rightarrow> 'd \<Rightarrow> 'd \<Rightarrow> bool" where
  "looks_up s sy d d' \<longleftrightarrow> (\<exists>t d1 lo hi. target (ucast (total_of s)) d = Inr (t, d1) \<and>
    symbol_of (ucast t) s = Inr (sy, lo, hi) \<and> dec (ucast lo) (ucast hi) d1 = Some (Inr d'))"

lemma range_coded:
  assumes "ready e" "wf s" "unat sy < Suc alphabet" "range_of sy s = Inr (c, Some (lo, hi, tot))"
  shows "\<exists>e' bs. enc (ucast lo) (ucast hi) (ucast tot) e = Some (Inr e') \<and> delivers e bs e' (looks_up s sy)"
proof -
  have r: "c \<noteq> 0" "tot = total_of s" "lo < hi" "hi \<le> total_of s"
    "\<forall>t. lo \<le> t \<longrightarrow> t < hi \<longrightarrow> symbol_of t s = Inr (sy, lo, hi)"
    using range_ok [OF assms(2,3)] assms(4) by auto
  note i = range_interval [OF assms(2) r(3,4)]
  have "(\<lambda>d d'. \<exists>t. finds (ucast lo, ucast hi, ucast (total_of s)) t d d') \<le> looks_up s sy"
    using i(2) r(5) by (fastforce simp: finds_def looks_up_def)
  then show ?thesis using enc_delivers [OF assms(1) i(1)] delivers_mono r(2) by blast
qed

lemma escape_range: "wf s \<Longrightarrow> \<exists>c lo hi. range_of escape s = Inr (c, Some (lo, hi, total_of s))"
  using range_ok [of s escape] alphabet_bounds by (auto simp: escape_unat)

lemma symbol_interval:
  assumes "unat (sy :: u64) < alphabet"
  shows "interval_ok (ucast sy, ucast (sy + 1), ucast escape)"
    "\<And>t :: u32. ucast sy \<le> t \<Longrightarrow> t < ucast (sy + 1) \<Longrightarrow> t = ucast sy \<and> t + 1 = ucast (sy + 1) \<and> ucast t = sy"
proof -
  have s: "unat (sy + 1) = unat sy + 1" using assms alphabet_bounds by (simp add: unat_word_ariths)
  have b: "sy < 65536" "sy + 1 < 65536" using s assms alphabet_bounds by (simp_all add: word_less_nat_alt)
  show "interval_ok (ucast sy, ucast (sy + 1), ucast escape)"
    using b s assms alphabet_bounds escape_u32 by (simp add: word_less_nat_alt word_le_nat_alt narrow)
  fix t :: u32 assume t: "ucast sy \<le> t" "t < ucast (sy + 1)"
  then have "unat t = unat sy" using b s by (simp add: word_less_nat_alt word_le_nat_alt narrow)
  moreover from this have "unat (t + 1) = unat t + 1" using assms alphabet_bounds by (simp add: unat_word_ariths)
  ultimately show "t = ucast sy \<and> t + 1 = ucast (sy + 1) \<and> ucast t = sy"
    using b s by (simp add: word_unat_eq_iff narrow widen)
qed

text \<open>\<open>m'\<close> has sent \<open>bs\<close> more than \<open>m\<close>, and a decoder in step with \<open>m\<close> finds \<open>sy\<close> in them.\<close>

definition decodes :: "u64 \<Rightarrow> 's \<Rightarrow> 's \<Rightarrow> 'd \<Rightarrow> 'd \<Rightarrow> bool" where
  "decodes sy s s' d d' \<longleftrightarrow> model_decode total_of symbol_of incr target dec escape \<lparr> order_0 = s, coder = d \<rparr> =
    Some (Inr (sy, \<lparr> order_0 = s', coder = d' \<rparr>))"

definition carries :: "u64 \<Rightarrow> ('s, 'e) entropy_model \<Rightarrow> u8 list \<Rightarrow> ('s, 'e) entropy_model \<Rightarrow> bool" where
  "carries sy m bs m' \<longleftrightarrow> wf (order_0 m') \<and> delivers (coder m) bs (coder m') (decodes sy (order_0 m) (order_0 m'))"

lemma decodes_seen:
  assumes "looks_up s sy d d'" "incr sy 2 s = Inr (ok, s')" "sy \<noteq> escape"
  shows "decodes sy s s' d d'"
  using assms by (auto simp: decodes_def looks_up_def model_decode_def)

lemma seen_symbol:
  assumes m: "wf (order_0 m)" "ready (coder m)" and sy: "unat sy < alphabet"
    and r: "range_of sy (order_0 m) = Inr (c, Some (lo, hi, tot))" "c \<noteq> 0"
  shows "\<exists>m' bs. model_encode range_of incr enc escape sy m = Some (Inr m') \<and> carries sy m bs m'"
proof -
  obtain e1 bs where e1: "enc (ucast lo) (ucast hi) (ucast tot) (coder m) = Some (Inr e1)"
    "delivers (coder m) bs e1 (looks_up (order_0 m) sy)" using range_coded [OF m(2,1) _ r(1)] sy by auto
  obtain ok cc where cc: "incr sy 2 (order_0 m) = Inr (ok, cc)" "wf cc" using incr_ok [OF m(1), of sy 2] sy by auto
  have "sy \<noteq> escape" using sy escape_unat by auto
  then have "delivers (coder m) bs e1 (decodes sy (order_0 m) cc)"
    using delivers_mono [OF e1(2)] decodes_seen [OF _ cc(1)] by blast
  then show ?thesis using r e1(1) cc
    by (intro exI [of _ "m \<lparr> order_0 := cc, coder := e1 \<rparr>"] exI [of _ bs]) (simp add: model_encode_def counts_or_def carries_def)
qed

text \<open>The symbol itself in the context of order minus one.\<close>

lemma plain_coded:
  assumes "ready e" "unat (sy :: u64) < alphabet"
  shows "\<exists>e' bs. enc (ucast sy) (ucast (sy + 1)) (ucast escape) e = Some (Inr e') \<and>
    delivers e bs e' (\<lambda>d d'. \<exists>t d1. target (ucast escape) d = Inr (t, d1) \<and> ucast t = sy \<and> dec t (t + 1) d1 = Some (Inr d'))"
proof -
  have "(\<lambda>d d'. \<exists>t. finds (ucast sy, ucast (sy + 1), ucast escape) t d d') \<le>
      (\<lambda>d d'. \<exists>t d1. target (ucast escape) d = Inr (t, d1) \<and> ucast t = sy \<and> dec t (t + 1) d1 = Some (Inr d'))"
    using symbol_interval(2) [OF assms(2)] by (fastforce simp: finds_def)
  then show ?thesis using enc_delivers [OF assms(1) symbol_interval(1) [OF assms(2)]] delivers_mono by blast
qed

lemma unseen_symbol:
  assumes m: "wf (order_0 m)" "ready (coder m)" and sy: "unat sy < alphabet"
    and z: "range_of sy (order_0 m) = Inr (0, None)"
  shows "\<exists>m' bs. model_encode range_of incr enc escape sy m = Some (Inr m') \<and> carries sy m bs m'"
proof -
  obtain c lo hi where r: "range_of escape (order_0 m) = Inr (c, Some (lo, hi, total_of (order_0 m)))"
    using escape_range [OF m(1)] by blast
  obtain e1 bs1 where e1: "enc (ucast lo) (ucast hi) (ucast (total_of (order_0 m))) (coder m) = Some (Inr e1)"
    "delivers (coder m) bs1 e1 (looks_up (order_0 m) escape)" using range_coded [OF m(2,1) _ r] by (auto simp: escape_unat)
  obtain ok1 cc1 where c1: "incr escape 1 (order_0 m) = Inr (ok1, cc1)" "wf cc1"
    using incr_ok [OF m(1), of escape 1] by (auto simp: escape_unat)
  obtain ok2 cc2 where c2: "incr sy 2 cc1 = Inr (ok2, cc2)" "wf cc2" using incr_ok [OF c1(2), of sy 2] sy by auto
  obtain e2 bs2 where e2: "enc (ucast sy) (ucast (sy + 1)) (ucast escape) e1 = Some (Inr e2)"
    "delivers e1 bs2 e2 (\<lambda>d d'. \<exists>t d1. target (ucast escape) d = Inr (t, d1) \<and> ucast t = sy \<and> dec t (t + 1) d1 = Some (Inr d'))"
    using plain_coded [OF delivers_ready [OF e1(2)] sy] by blast
  have "delivers (coder m) (bs1 @ bs2) e2 (decodes sy (order_0 m) cc2)"
    by (rule delivers_mono [OF delivers_trans [OF e1(2) e2(2)]])
      (use c1(1) c2(1) in \<open>auto simp: decodes_def looks_up_def model_decode_def\<close>)
  then show ?thesis using z r e1(1) e2(1) c1 c2
    by (intro exI [of _ "m \<lparr> order_0 := cc2, coder := e2 \<rparr>"] exI [of _ "bs1 @ bs2"])
      (simp add: model_encode_def counts_or_def carries_def)
qed

lemma model_roundtrip:
  assumes "wf (order_0 m)" "ready (coder m)" "unat sy < alphabet"
  shows "\<exists>m' bs. model_encode range_of incr enc escape sy m = Some (Inr m') \<and> carries sy m bs m'"
  using range_ok [OF assms(1), of sy] seen_symbol [OF assms] unseen_symbol [OF assms] assms(3) by auto

text \<open>Decoding finds a symbol of the alphabet in any input.\<close>

lemma looks_up_sound:
  assumes "wf s" "sound d"
  shows "\<exists>sy d'. looks_up s sy d d' \<and> unat sy < Suc alphabet \<and> sound d'"
proof -
  have tot: "0 < total_of s" "total_of s < 65536" using total_bounds [OF assms(1)] by auto
  then have "0 < (ucast (total_of s) :: u32)" "(ucast (total_of s) :: u32) < 65536"
    by (simp_all add: word_less_nat_alt narrow)
  from target_ok [OF assms(2) this] obtain t f where t: "target (ucast (total_of s)) d = Inr (t, f)" "t < ucast (total_of s)"
    "\<forall>lc hc. lc < hc \<longrightarrow> hc \<le> ucast (total_of s) \<longrightarrow> (\<exists>d2. dec lc hc f = Some (Inr d2) \<and> sound d2)"
    by blast
  have "(ucast t :: u64) < total_of s" using t(2) tot(2) by (simp add: word_less_nat_alt narrow widen)
  from symbol_ok [OF assms(1) this] obtain sy c lo hi where sy: "symbol_of (ucast t) s = Inr (sy, lo, hi)"
    "unat sy < Suc alphabet" and rg: "range_of sy s = Inr (c, Some (lo, hi, total_of s))" by blast
  have "lo < hi" "hi \<le> total_of s" using range_ok [OF assms(1) sy(2)] rg by auto
  from t(3) range_interval(1) [OF assms(1) this] obtain g where "dec (ucast lo) (ucast hi) f = Some (Inr g)" "sound g" by auto
  then show ?thesis using t(1) sy unfolding looks_up_def by blast
qed

lemma plain_sound:
  assumes "sound d"
  shows "\<exists>t d1 d'. target (ucast escape) d = Inr (t, d1) \<and> unat t < alphabet \<and> dec t (t + 1) d1 = Some (Inr d') \<and> sound d'"
proof -
  have "0 < (ucast escape :: u32)" "(ucast escape :: u32) < 65536"
    using escape_u32 two_symbols alphabet_bounds by (simp_all add: word_less_nat_alt)
  from target_ok [OF assms this] obtain u h where u: "target (ucast escape) d = Inr (u, h)" "u < ucast escape"
    "\<forall>lc hc. lc < hc \<longrightarrow> hc \<le> ucast escape \<longrightarrow> (\<exists>d2. dec lc hc h = Some (Inr d2) \<and> sound d2)" by blast
  have lt: "unat u < alphabet" using u(2) escape_u32 by (simp add: word_less_nat_alt)
  have "unat (u + 1) = unat u + 1" using lt alphabet_bounds by (simp add: unat_word_ariths)
  then have "u < u + 1" "u + 1 \<le> ucast escape" using lt escape_u32 by (simp_all add: word_less_nat_alt word_le_nat_alt)
  then show ?thesis using u lt by blast
qed

lemma not_escape: "unat sy < Suc alphabet \<Longrightarrow> sy \<noteq> escape \<Longrightarrow> unat sy < alphabet"
  using escape_unat by (metis less_Suc_eq word_unat_eq_iff)

lemma decodes_sound:
  assumes s: "wf s" and d: "sound d"
  shows "\<exists>sy s' d'. decodes sy s s' d d' \<and> unat sy < alphabet \<and> wf s' \<and> sound d'"
proof -
  obtain sy g where l: "looks_up s sy d g" "unat sy < Suc alphabet" "sound g" using looks_up_sound [OF s d] by blast
  show ?thesis
  proof (cases "sy = escape")
    case False
    then have sy: "unat sy < alphabet" using not_escape [OF l(2)] by blast
    then obtain ok s' where "incr sy 2 s = Inr (ok, s')" "wf s'" using incr_ok [OF s, of sy 2] by auto
    then show ?thesis using decodes_seen [OF l(1)] False sy l(3) by blast
  next
    case True
    obtain ok1 cc1 where c1: "incr escape 1 s = Inr (ok1, cc1)" "wf cc1"
      using incr_ok [OF s, of escape 1] by (auto simp: escape_unat)
    obtain u h k where u: "target (ucast escape) g = Inr (u, h)" "unat u < alphabet" "dec u (u + 1) h = Some (Inr k)" "sound k"
      using plain_sound [OF l(3)] by blast
    obtain ok2 cc2 where "incr (ucast u) 2 cc1 = Inr (ok2, cc2)" "wf cc2"
      using incr_ok [OF c1(2), of "ucast u" 2] u(2) by (auto simp: widen)
    moreover from this have "decodes (ucast u) s cc2 d k"
      using True l(1) c1(1) u(1,3) by (auto simp: decodes_def looks_up_def model_decode_def)
    ultimately show ?thesis using u(2,4) by (intro exI [of _ "ucast u"] exI [of _ cc2] exI [of _ k]) (simp add: widen)
  qed
qed

lemma model_decode_sound:
  assumes "wf (order_0 n)" "sound (coder n)"
  shows "\<exists>sy n'. model_decode total_of symbol_of incr target dec escape n = Some (Inr (sy, n')) \<and>
    unat sy < alphabet \<and> wf (order_0 n') \<and> sound (coder n')"
  using decodes_sound [OF assms] by (cases n) (fastforce simp: decodes_def)

end

text \<open>So the order-0 models are a pair of models, for every coder and conditioning class with the contract.\<close>

sublocale order_0_model < models: model_pair "raw_encode enc" "\<lambda>m. finish (coder m)" "raw_target target" "raw_decode dec"
  "\<lambda>m. wf (order_0 m) \<and> ready (coder m)" "\<lambda>m. sent (coder m)" "\<lambda>m. admits (coder m)" "same_model in_step"
  "\<lambda>n. wf (order_0 n) \<and> sound (coder n)" "\<lambda>n. unread (coder n)"
  alphabet "model_encode range_of incr enc escape" "model_decode total_of symbol_of incr target dec escape"
proof (intro model_pair.intro model_pair_axioms.intro raw_coder, goal_cases)
  case (3 m sy)
  then obtain m' bs where m': "model_encode range_of incr enc escape sy m = Some (Inr m')" "carries sy m bs m'"
    using model_roundtrip [of m sy] by blast
  have "\<exists>n'. model_decode total_of symbol_of incr target dec escape n = Some (Inr (sy, n')) \<and> same_model in_step m' rest n'"
    if a: "admits (coder m') rest" "same_model in_step m (bs @ rest) n" for rest n
  proof -
    obtain d' where "decodes sy (order_0 m) (order_0 m') (coder n) d'" "in_step (coder m') rest d'"
      using m'(2) a deliversD [of "coder m" bs "coder m'" _ rest "coder n"] unfolding carries_def same_model_def by blast
    moreover have "n = \<lparr> order_0 = order_0 m, coder = coder n \<rparr>" using a(2) by (simp add: same_model_def)
    ultimately show ?thesis unfolding decodes_def same_model_def by fastforce
  qed
  then show ?case using m' by (auto simp: carries_def delivers_def)
next
  case (4 n)
  then show ?case using model_decode_sound [of n] by blast
qed simp_all

end
