(* ===== verification/Order_1_Model.thy ===== *)
theory Order_1_Model
  imports Entropy_Model
begin

text \<open>
  The order-1-0 models of \<open>entropy_encoder_model_kernel_2.h\<close> and \<open>entropy_decoder_model_kernel_2.h\<close>
  (both under \<open>src/dlib-minimal/lib/dlib/\<close>): one conditioning class for each previous symbol, and the
  order-0 class behind them.  The array \<open>order_1\<close> of pointers to distinct objects is a list of their
  values.  The operations of the two conditioning classes and of the coder are arguments, those of
  the class \<open>ccbig\<close> with the ending \<open>_big\<close>.
\<close>

record ('s, 'c, 'b) entropy_model_2 = "('s, 'c) entropy_model" +
  order_1 :: "'b list"
  previous_symbol :: u64

text \<open>The constructor, and \<open>clear\<close>; \<open>fresh\<close> and \<open>fresh_big\<close> are the new conditioning classes.\<close>

definition model_2_new :: "'s \<Rightarrow> 'b \<Rightarrow> nat \<Rightarrow> 'c \<Rightarrow> ('s, 'c, 'b) entropy_model_2" where
  "model_2_new fresh fresh_big alphabet_size co =
    \<lparr> order_0 = fresh, coder = co, order_1 = replicate alphabet_size fresh_big, previous_symbol = 0 \<rparr>"

definition model_2_clear :: "('s \<Rightarrow> 's) \<Rightarrow> ('b \<Rightarrow> 'b) \<Rightarrow> ('s, 'c, 'b) entropy_model_2 \<Rightarrow> ('s, 'c, 'b) entropy_model_2" where
  "model_2_clear clear clear_big m =
    m \<lparr> previous_symbol := 0, order_0 := clear (order_0 m), order_1 := map clear_big (order_1 m) \<rparr>"

text \<open>\<open>*order_1[previous_symbol]\<close>, read and written.\<close>

definition get_context :: "('s, 'c, 'b) entropy_model_2 \<Rightarrow> 'b c" where
  "get_context m =
    (if unat (previous_symbol m) < length (order_1 m) then Inr (order_1 m ! unat (previous_symbol m)) else Inl Out_Of_Bounds)"

definition put_context :: "'b \<Rightarrow> ('s, 'c, 'b) entropy_model_2 \<Rightarrow> ('s, 'c, 'b) entropy_model_2" where
  "put_context ctx m = m \<lparr> order_1 := (order_1 m)[unat (previous_symbol m) := ctx] \<rparr>"

text \<open>The part of \<open>encode\<close> after the escape from the order-1 ctx.\<close>

definition encode_order_0 ::
  "(u64 \<Rightarrow> 's \<Rightarrow> (u64 \<times> (u64 \<times> u64 \<times> u64) option) c) \<Rightarrow> (u64 \<Rightarrow> u16 \<Rightarrow> 's \<Rightarrow> (bool \<times> 's) c) \<Rightarrow>
    (u32 \<Rightarrow> u32 \<Rightarrow> u32 \<Rightarrow> 'e \<Rightarrow> 'e io) \<Rightarrow> u64 \<Rightarrow> u64 \<Rightarrow> u64 \<times> u64 \<times> u64 \<Rightarrow>
    ('s, 'e, 'b) entropy_model_2 \<Rightarrow> ('s, 'e, 'b) entropy_model_2 io" where
  "encode_order_0 range_of incr enc alphabet_size symbol before m =
    io_bind (io_c (range_of symbol (order_0 m))) (\<lambda>(found, out).
    case counts_or before out of (low_count, high_count, total_count) \<Rightarrow>
    if found \<noteq> 0 then
      io_bind (io_c (incr symbol 2 (order_0 m))) (\<lambda>(_, cc).
      io_bind (enc (ucast low_count) (ucast high_count) (ucast total_count) (coder m)) (\<lambda>co.
      Some (Inr (m \<lparr> order_0 := cc, coder := co \<rparr>))))
    else
      io_bind (io_c (range_of alphabet_size (order_0 m))) (\<lambda>(_, out).
      case counts_or (low_count, high_count, total_count) out of (low_count, high_count, total_count) \<Rightarrow>
      io_bind (enc (ucast low_count) (ucast high_count) (ucast total_count) (coder m)) (\<lambda>co.
      io_bind (io_c (incr alphabet_size 1 (order_0 m))) (\<lambda>(_, cc).
      io_bind (io_c (incr symbol 2 cc)) (\<lambda>(_, cc).
      io_bind (enc (ucast symbol) (ucast (symbol + 1)) (ucast alphabet_size) co) (\<lambda>co.
      Some (Inr (m \<lparr> order_0 := cc, coder := co \<rparr>))))))))"

definition model_2_encode ::
  "(u64 \<Rightarrow> 's \<Rightarrow> (u64 \<times> (u64 \<times> u64 \<times> u64) option) c) \<Rightarrow> (u64 \<Rightarrow> u16 \<Rightarrow> 's \<Rightarrow> (bool \<times> 's) c) \<Rightarrow>
    (u64 \<Rightarrow> 'b \<Rightarrow> (u64 \<times> (u64 \<times> u64 \<times> u64) option) c) \<Rightarrow> (u64 \<Rightarrow> u16 \<Rightarrow> 'b \<Rightarrow> (bool \<times> 'b) c) \<Rightarrow>
    (u32 \<Rightarrow> u32 \<Rightarrow> u32 \<Rightarrow> 'e \<Rightarrow> 'e io) \<Rightarrow> u64 \<Rightarrow> u64 \<Rightarrow>
    ('s, 'e, 'b) entropy_model_2 \<Rightarrow> ('s, 'e, 'b) entropy_model_2 io" where
  "model_2_encode range_of incr range_big incr_big enc alphabet_size symbol m =
    io_bind (io_c (get_context m)) (\<lambda>ctx.
    io_bind (io_c (range_big symbol ctx)) (\<lambda>(found, out).
    case counts_or (0, 0, 0) out of (low_count, high_count, total_count) \<Rightarrow>
    if found \<noteq> 0 then
      io_bind (io_c (incr_big symbol 2 ctx)) (\<lambda>(_, ctx).
      io_bind (enc (ucast low_count) (ucast high_count) (ucast total_count) (coder m)) (\<lambda>co.
      Some (Inr (put_context ctx m \<lparr> coder := co, previous_symbol := symbol \<rparr>))))
    else
      io_bind (io_c (range_big alphabet_size ctx)) (\<lambda>(_, out).
      case counts_or (low_count, high_count, total_count) out of (low_count, high_count, total_count) \<Rightarrow>
      io_bind (enc (ucast low_count) (ucast high_count) (ucast total_count) (coder m)) (\<lambda>co.
      io_bind (io_c (incr_big alphabet_size 1 ctx)) (\<lambda>(_, ctx).
      io_bind (io_c (incr_big symbol 2 ctx)) (\<lambda>(_, ctx).
      encode_order_0 range_of incr enc alphabet_size symbol (low_count, high_count, total_count)
        (put_context ctx m \<lparr> coder := co, previous_symbol := symbol \<rparr>)))))))"

text \<open>The part of \<open>decode\<close> after the escape from the order-1 ctx.\<close>

definition decode_order_0 ::
  "('s \<Rightarrow> u64) \<Rightarrow> (u64 \<Rightarrow> 's \<Rightarrow> (u64 \<times> u64 \<times> u64) c) \<Rightarrow> (u64 \<Rightarrow> u16 \<Rightarrow> 's \<Rightarrow> (bool \<times> 's) c) \<Rightarrow>
    (u64 \<Rightarrow> u16 \<Rightarrow> 'b \<Rightarrow> (bool \<times> 'b) c) \<Rightarrow>
    (u32 \<Rightarrow> 'd \<Rightarrow> (u32 \<times> 'd) c) \<Rightarrow> (u32 \<Rightarrow> u32 \<Rightarrow> 'd \<Rightarrow> 'd io) \<Rightarrow> u64 \<Rightarrow>
    ('s, 'd, 'b) entropy_model_2 \<Rightarrow> (u64 \<times> ('s, 'd, 'b) entropy_model_2) io" where
  "decode_order_0 total_of symbol_of incr incr_big target dec alphabet_size m =
    io_bind (io_c (target (ucast (total_of (order_0 m))) (coder m))) (\<lambda>(t, co).
    io_bind (io_c (symbol_of (ucast t) (order_0 m))) (\<lambda>(current_symbol, low_count, high_count).
    io_bind (dec (ucast low_count) (ucast high_count) co) (\<lambda>co.
    io_bind (io_c (get_context m)) (\<lambda>ctx.
    if current_symbol \<noteq> alphabet_size then
      io_bind (io_c (incr_big current_symbol 2 ctx)) (\<lambda>(_, ctx).
      io_bind (io_c (incr current_symbol 2 (order_0 m))) (\<lambda>(_, cc).
      Some (Inr (current_symbol, put_context ctx m \<lparr> order_0 := cc, coder := co, previous_symbol := current_symbol \<rparr>))))
    else
      io_bind (io_c (incr current_symbol 1 (order_0 m))) (\<lambda>(_, cc).
      io_bind (io_c (target (ucast alphabet_size) co)) (\<lambda>(t, co).
      io_bind (dec t (t + 1) co) (\<lambda>co.
      io_bind (io_c (incr_big (ucast t) 2 ctx)) (\<lambda>(_, ctx).
      io_bind (io_c (incr (ucast t) 2 cc)) (\<lambda>(_, cc).
      Some (Inr (ucast t, put_context ctx m \<lparr> order_0 := cc, coder := co, previous_symbol := ucast t \<rparr>))))))))))) "

definition model_2_decode ::
  "('s \<Rightarrow> u64) \<Rightarrow> (u64 \<Rightarrow> 's \<Rightarrow> (u64 \<times> u64 \<times> u64) c) \<Rightarrow> (u64 \<Rightarrow> u16 \<Rightarrow> 's \<Rightarrow> (bool \<times> 's) c) \<Rightarrow>
    ('b \<Rightarrow> u64) \<Rightarrow> (u64 \<Rightarrow> 'b \<Rightarrow> (u64 \<times> u64 \<times> u64) c) \<Rightarrow> (u64 \<Rightarrow> u16 \<Rightarrow> 'b \<Rightarrow> (bool \<times> 'b) c) \<Rightarrow>
    (u32 \<Rightarrow> 'd \<Rightarrow> (u32 \<times> 'd) c) \<Rightarrow> (u32 \<Rightarrow> u32 \<Rightarrow> 'd \<Rightarrow> 'd io) \<Rightarrow> u64 \<Rightarrow>
    ('s, 'd, 'b) entropy_model_2 \<Rightarrow> (u64 \<times> ('s, 'd, 'b) entropy_model_2) io" where
  "model_2_decode total_of symbol_of incr total_big symbol_big incr_big target dec alphabet_size m =
    io_bind (io_c (get_context m)) (\<lambda>ctx.
    io_bind (io_c (target (ucast (total_big ctx)) (coder m))) (\<lambda>(t, co).
    io_bind (io_c (symbol_big (ucast t) ctx)) (\<lambda>(current_symbol, low_count, high_count).
    io_bind (dec (ucast low_count) (ucast high_count) co) (\<lambda>co.
    if current_symbol \<noteq> alphabet_size then
      io_bind (io_c (incr_big current_symbol 2 ctx)) (\<lambda>(_, ctx).
      Some (Inr (current_symbol, put_context ctx m \<lparr> coder := co, previous_symbol := current_symbol \<rparr>)))
    else
      io_bind (io_c (incr_big alphabet_size 1 ctx)) (\<lambda>(_, ctx).
      decode_order_0 total_of symbol_of incr incr_big target dec alphabet_size (put_context ctx m \<lparr> coder := co \<rparr>))))))"

subsection \<open>The contract of a pair of models holds\<close>

locale order_1_model =
  order_0_model enc finish target dec ready sent admits in_step sound unread alphabet wf incr range_of symbol_of total_of +
  big: order_0_model enc finish target dec ready sent admits in_step sound unread alphabet wf_big incr_big range_big symbol_big total_big
  for enc :: "u32 \<Rightarrow> u32 \<Rightarrow> u32 \<Rightarrow> 'e \<Rightarrow> 'e io" and finish target
    and dec :: "u32 \<Rightarrow> u32 \<Rightarrow> 'd \<Rightarrow> 'd io" and ready sent admits in_step sound unread alphabet
    and wf :: "'s \<Rightarrow> bool" and incr range_of symbol_of total_of
    and wf_big :: "'b \<Rightarrow> bool" and incr_big range_big symbol_big total_big


text \<open>The same model on another coder: the model of the decoder that is in step.\<close>

definition with_coder :: "('s, 'c, 'b) entropy_model_2 \<Rightarrow> 'd \<Rightarrow> ('s, 'd, 'b) entropy_model_2" where
  "with_coder m d = \<lparr> order_0 = order_0 m, coder = d, order_1 = order_1 m, previous_symbol = previous_symbol m \<rparr>"

lemma with_coder_simps [simp]:
  "order_0 (with_coder m d) = order_0 m" "coder (with_coder m d) = d" "order_1 (with_coder m d) = order_1 m"
  "previous_symbol (with_coder m d) = previous_symbol m" "get_context (with_coder m d) = get_context m"
  "put_context ctx (with_coder m d) = with_coder (put_context ctx m) d"
  by (simp_all add: with_coder_def get_context_def put_context_def)

lemma with_coder_updates [simp]:
  "with_coder m d \<lparr> coder := d' \<rparr> = with_coder m d'"
  "with_coder m d \<lparr> order_0 := s \<rparr> = with_coder (m \<lparr> order_0 := s \<rparr>) d"
  "with_coder m d \<lparr> previous_symbol := sy \<rparr> = with_coder (m \<lparr> previous_symbol := sy \<rparr>) d"
  "with_coder (m \<lparr> coder := e \<rparr>) d = with_coder m d"
  by (simp_all add: with_coder_def)

lemma same_model_with_coder:
  "same_model in_step m rest n \<longleftrightarrow> n = with_coder m (coder n) \<and> in_step (coder m) rest (coder n)"
  by (cases m; cases n) (auto simp: same_model_def with_coder_def)

lemma put_context_simps [simp]:
  "order_0 (put_context ctx m) = order_0 m" "coder (put_context ctx m) = coder m"
  "previous_symbol (put_context ctx m) = previous_symbol m"
  by (simp_all add: put_context_def)

lemma get_put_context [simp]: "get_context m = Inr c \<Longrightarrow> get_context (put_context ctx m) = Inr ctx"
  by (auto simp: get_context_def put_context_def split: if_splits)

lemma put_put_context [simp]: "put_context c2 (put_context c1 m) = put_context c2 m"
  by (simp add: put_context_def)

lemma put_context_coder [simp]: "put_context ctx (m \<lparr> coder := co \<rparr>) = put_context ctx m \<lparr> coder := co \<rparr>"
  by (simp add: put_context_def)

lemma get_context_updates [simp]:
  "get_context (m \<lparr> coder := co \<rparr>) = get_context m" "get_context (m \<lparr> order_0 := s \<rparr>) = get_context m"
  by (simp_all add: get_context_def)

context order_1_model
begin

definition wf_2 :: "('s, 'c, 'b) entropy_model_2 \<Rightarrow> bool" where
  "wf_2 m \<longleftrightarrow> wf (order_0 m) \<and> length (order_1 m) = alphabet \<and> list_all wf_big (order_1 m) \<and> unat (previous_symbol m) < alphabet"

lemma wf_2_coder [simp]: "wf_2 (m \<lparr> coder := co \<rparr>) = wf_2 m" "wf_2 (with_coder m d) = wf_2 m"
  by (simp_all add: wf_2_def)

lemma wf_2_context: "wf_2 m \<Longrightarrow> \<exists>ctx. get_context m = Inr ctx \<and> wf_big ctx"
  by (auto simp: wf_2_def get_context_def list_all_length)

lemma wf_2_put: "wf_2 m \<Longrightarrow> wf_big ctx \<Longrightarrow> wf_2 (put_context ctx m)"
  by (auto simp: wf_2_def put_context_def list_all_length nth_list_update)

abbreviation encode_2 :: "u64 \<Rightarrow> ('s, 'e, 'b) entropy_model_2 \<Rightarrow> ('s, 'e, 'b) entropy_model_2 io" where
  "encode_2 \<equiv> model_2_encode range_of incr range_big incr_big enc escape"

abbreviation decode_2 :: "('s, 'd, 'b) entropy_model_2 \<Rightarrow> (u64 \<times> ('s, 'd, 'b) entropy_model_2) io" where
  "decode_2 \<equiv> model_2_decode total_of symbol_of incr total_big symbol_big incr_big target dec escape"

text \<open>After the escape the order-0 models are at work, on the coder as it is then.\<close>

lemma lower_encode:
  assumes "model_encode range_of incr enc escape sy \<lparr> order_0 = order_0 m, coder = coder m \<rparr> = Some (Inr k)"
    and "wf (order_0 m)" "unat sy < alphabet"
  shows "encode_order_0 range_of incr enc escape sy before m = Some (Inr (m \<lparr> order_0 := order_0 k, coder := coder k \<rparr>))"
  using range_ok [OF assms(2), of sy] escape_range [OF assms(2)] assms(1,3)
  by (auto simp: model_encode_def encode_order_0_def counts_or_def io_returns)

lemma lower_decode:
  assumes "decodes sy (order_0 n) s (coder n) d" "get_context n = Inr c" "incr_big sy 2 c = Inr (ok, c')"
  shows "decode_order_0 total_of symbol_of incr incr_big target dec escape n =
    Some (Inr (sy, put_context c' n \<lparr> order_0 := s, coder := d, previous_symbol := sy \<rparr>))"
  using assms by (auto simp: decodes_def model_decode_def decode_order_0_def io_returns split: if_splits prod.splits)

definition decodes_2 :: "u64 \<Rightarrow> ('s, 'e, 'b) entropy_model_2 \<Rightarrow> ('s, 'e, 'b) entropy_model_2 \<Rightarrow> 'd \<Rightarrow> 'd \<Rightarrow> bool" where
  "decodes_2 sy m m' d d' \<longleftrightarrow> decode_2 (with_coder m d) = Some (Inr (sy, with_coder m' d'))"

lemma seen_in_context:
  assumes m: "wf_2 m" "ready (coder m)" and sy: "unat sy < alphabet" and c: "get_context m = Inr ctx" "wf_big ctx"
    and r: "range_big sy ctx = Inr (found, Some (lo, hi, tot))" "found \<noteq> 0"
  shows "\<exists>m' bs. encode_2 sy m = Some (Inr m') \<and> wf_2 m' \<and> delivers (coder m) bs (coder m') (decodes_2 sy m m')"
proof -
  obtain e1 bs where e1: "enc (ucast lo) (ucast hi) (ucast tot) (coder m) = Some (Inr e1)"
    "delivers (coder m) bs e1 (big.looks_up ctx sy)" using big.range_coded [OF m(2) c(2) _ r(1)] sy by auto
  obtain ok c' where c': "incr_big sy 2 ctx = Inr (ok, c')" "wf_big c'" using big.incr_ok [OF c(2), of sy 2] sy by auto
  let ?m = "put_context c' m \<lparr> coder := e1, previous_symbol := sy \<rparr>"
  have "sy \<noteq> escape" using sy escape_unat by auto
  then have "delivers (coder m) bs e1 (decodes_2 sy m ?m)"
    by (intro delivers_mono [OF e1(2)]) (use c(1) c'(1) in \<open>auto simp: decodes_2_def big.looks_up_def model_2_decode_def\<close>)
  moreover have "wf_2 ?m" using wf_2_put [OF m(1) c'(2)] sy by (simp add: wf_2_def)
  moreover have "encode_2 sy m = Some (Inr ?m)" using c(1) c'(1) r e1(1) by (simp add: model_2_encode_def counts_or_def)
  ultimately show ?thesis by (intro exI [of _ ?m] exI [of _ bs]) simp
qed

lemma unseen_in_context:
  assumes m: "wf_2 m" "ready (coder m)" and sy: "unat sy < alphabet" and c: "get_context m = Inr ctx" "wf_big ctx"
    and z: "range_big sy ctx = Inr (0, None)"
  shows "\<exists>m' bs. encode_2 sy m = Some (Inr m') \<and> wf_2 m' \<and> delivers (coder m) bs (coder m') (decodes_2 sy m m')"
proof -
  obtain found lo hi where r: "range_big escape ctx = Inr (found, Some (lo, hi, total_big ctx))"
    using big.escape_range [OF c(2)] by blast
  obtain e1 bs1 where e1: "enc (ucast lo) (ucast hi) (ucast (total_big ctx)) (coder m) = Some (Inr e1)"
    "delivers (coder m) bs1 e1 (big.looks_up ctx escape)" using big.range_coded [OF m(2) c(2) _ r] by (auto simp: escape_unat)
  obtain ok1 c1 where c1: "incr_big escape 1 ctx = Inr (ok1, c1)" "wf_big c1"
    using big.incr_ok [OF c(2), of escape 1] by (auto simp: escape_unat)
  obtain ok2 c2 where c2: "incr_big sy 2 c1 = Inr (ok2, c2)" "wf_big c2" using big.incr_ok [OF c1(2), of sy 2] sy by auto
  have w: "wf (order_0 m)" using m(1) by (simp add: wf_2_def)
  obtain k bs2 where k: "model_encode range_of incr enc escape sy \<lparr> order_0 = order_0 m, coder = e1 \<rparr> = Some (Inr k)"
    "wf (order_0 k)" "delivers e1 bs2 (coder k) (decodes sy (order_0 m) (order_0 k))"
    using model_roundtrip [of "\<lparr> order_0 = order_0 m, coder = e1 \<rparr>" sy] w delivers_ready [OF e1(2)] sy by (auto simp: carries_def)
  let ?m = "put_context c2 m \<lparr> order_0 := order_0 k, coder := coder k, previous_symbol := sy \<rparr>"
  have "decodes_2 sy m ?m d d'" if l: "big.looks_up ctx escape d d1" "decodes sy (order_0 m) (order_0 k) d1 d'" for d d1 d'
  proof -
    have "decode_order_0 total_of symbol_of incr incr_big target dec escape (with_coder (put_context c1 m) d1) =
        Some (Inr (sy, with_coder ?m d'))"
      using lower_decode [of sy "with_coder (put_context c1 m) d1" "order_0 k" d' c1 ok2 c2] l(2) c(1) c2(1) by simp
    then show ?thesis using l(1) c(1) c1(1) by (auto simp: decodes_2_def big.looks_up_def model_2_decode_def)
  qed
  then have "delivers (coder m) (bs1 @ bs2) (coder k) (decodes_2 sy m ?m)"
    by (intro delivers_mono [OF delivers_trans [OF e1(2) k(3)]]) auto
  moreover have "wf_2 ?m" using wf_2_put [OF m(1) c2(2)] sy k(2) by (simp add: wf_2_def)
  moreover have "encode_2 sy m = Some (Inr ?m)"
    using c(1) z r e1(1) c1(1) c2(1) lower_encode [of sy "put_context c2 m \<lparr> coder := e1, previous_symbol := sy \<rparr>" k] k(1) w sy
    by (simp add: model_2_encode_def counts_or_def)
  ultimately show ?thesis by (intro exI [of _ ?m] exI [of _ "bs1 @ bs2"]) simp
qed

lemma model_2_roundtrip:
  assumes "wf_2 m" "ready (coder m)" "unat sy < alphabet"
  shows "\<exists>m' bs. encode_2 sy m = Some (Inr m') \<and> wf_2 m' \<and> delivers (coder m) bs (coder m') (decodes_2 sy m m')"
proof -
  obtain ctx where c: "get_context m = Inr ctx" "wf_big ctx" using wf_2_context [OF assms(1)] by blast
  show ?thesis using big.range_ok [OF c(2), of sy] seen_in_context [OF assms c] unseen_in_context [OF assms c] assms(3) by auto
qed

text \<open>Decoding finds a symbol of the alphabet in any input.\<close>

lemma model_2_decode_sound:
  assumes n: "wf_2 n" "sound (coder n)"
  shows "\<exists>sy n'. decode_2 n = Some (Inr (sy, n')) \<and> unat sy < alphabet \<and> wf_2 n' \<and> sound (coder n')"
proof -
  obtain ctx where c: "get_context n = Inr ctx" "wf_big ctx" using wf_2_context [OF n(1)] by blast
  obtain sy d where l: "big.looks_up ctx sy (coder n) d" "unat sy < Suc alphabet" "sound d"
    using big.looks_up_sound [OF c(2) n(2)] by blast
  show ?thesis
  proof (cases "sy = escape")
    case False
    then have sy: "unat sy < alphabet" using l(2) not_escape by blast
    then obtain ok c' where c': "incr_big sy 2 ctx = Inr (ok, c')" "wf_big c'" using big.incr_ok [OF c(2), of sy 2] by auto
    let ?n = "put_context c' n \<lparr> coder := d, previous_symbol := sy \<rparr>"
    have "decode_2 n = Some (Inr (sy, ?n))" using l(1) c(1) c'(1) False by (auto simp: model_2_decode_def big.looks_up_def)
    moreover have "wf_2 ?n" using wf_2_put [OF n(1) c'(2)] sy by (simp add: wf_2_def)
    ultimately show ?thesis using l(3) sy by auto
  next
    case True
    obtain ok1 c1 where c1: "incr_big escape 1 ctx = Inr (ok1, c1)" "wf_big c1"
      using big.incr_ok [OF c(2), of escape 1] by (auto simp: escape_unat)
    obtain sy' s d' where o: "decodes sy' (order_0 n) s d d'" "unat sy' < alphabet" "wf s" "sound d'"
      using decodes_sound [OF _ l(3), of "order_0 n"] n(1) by (auto simp: wf_2_def)
    obtain ok2 c2 where c2: "incr_big sy' 2 c1 = Inr (ok2, c2)" "wf_big c2" using big.incr_ok [OF c1(2), of sy' 2] o(2) by auto
    let ?n = "put_context c2 n \<lparr> order_0 := s, coder := d', previous_symbol := sy' \<rparr>"
    have "decode_2 n = decode_order_0 total_of symbol_of incr incr_big target dec escape (put_context c1 n \<lparr> coder := d \<rparr>)"
      using l(1) c(1) c1(1) True by (auto simp: model_2_decode_def big.looks_up_def)
    also have "\<dots> = Some (Inr (sy', ?n))"
      using lower_decode [of sy' "put_context c1 n \<lparr> coder := d \<rparr>" s d' c1 ok2 c2] o(1) c(1) c2(1) by simp
    finally have "decode_2 n = Some (Inr (sy', ?n))" .
    moreover have "wf_2 ?n" using wf_2_put [OF n(1) c2(2)] o(2,3) by (simp add: wf_2_def)
    ultimately show ?thesis using o(2,4) by auto
  qed
qed

end

sublocale order_1_model < models_2: model_pair "raw_encode enc" "\<lambda>m. finish (coder m)" "raw_target target" "raw_decode dec"
  "\<lambda>m. wf_2 m \<and> ready (coder m)" "\<lambda>m. sent (coder m)" "\<lambda>m. admits (coder m)" "same_model in_step"
  "\<lambda>n. wf_2 n \<and> sound (coder n)" "\<lambda>n. unread (coder n)" alphabet encode_2 decode_2
proof (intro model_pair.intro model_pair_axioms.intro raw_coder, goal_cases)
  case (3 m sy)
  then obtain m' bs where m': "encode_2 sy m = Some (Inr m')" "wf_2 m'" "delivers (coder m) bs (coder m') (decodes_2 sy m m')"
    using model_2_roundtrip [of m sy] by blast
  have "\<exists>n'. decode_2 n = Some (Inr (sy, n')) \<and> same_model in_step m' rest n'"
    if "admits (coder m') rest" "same_model in_step m (bs @ rest) n" for rest n
    using deliversD [OF m'(3) that(1), of "coder n"] that(2) by (auto simp: same_model_with_coder decodes_2_def)
  then show ?case using m' by (auto simp: delivers_def)
next
  case (4 n)
  then show ?case using model_2_decode_sound [of n] by blast
qed simp_all

end
