(* ===== verification/Conditioning_Class_2.thy ===== *)
theory Conditioning_Class_2
  imports Conditioning_Class
begin

text \<open>
  The model of \<open>src/dlib-minimal/lib/dlib/conditioning_class/conditioning_class_kernel_2.h\<close>, the
  conditioning class that the compressors use.  The counts are the nodes of a heap-shaped tree, and
  each node also has the sum of the counts in its left subtree, so that a range or a symbol is found
  on one path of the tree.  It is shown to do to the counts what the first kernel does, and to keep
  the contract of the conditioning classes.
\<close>

record data =
  symbol_count :: u16
  left_count :: u16

record cc2 =
  c2_total :: u16
  symbols :: "data list"

text \<open>The loop that adds to the left counts of the nodes above \<open>symbol\<close>.\<close>

fun bubble :: "nat \<Rightarrow> u16 \<Rightarrow> data list \<Rightarrow> data list" where
  "bubble 0 amount xs = xs"
| "bubble (Suc i) amount xs =
    (let parent = i div 2
     in bubble parent amount
          (if odd (Suc i) then xs[parent := (xs ! parent) \<lparr> left_count := left_count (xs ! parent) + amount \<rparr>] else xs))"

definition cc2_initial :: "nat \<Rightarrow> cc2" where
  "cc2_initial n = \<lparr> c2_total = 1,
     symbols = bubble (n - 1) 1
       (replicate (n - 1) \<lparr> symbol_count = 0, left_count = 0 \<rparr> @ [\<lparr> symbol_count = 1, left_count = 0 \<rparr>]) \<rparr>"

definition cc2_new :: "nat \<Rightarrow> u64 \<Rightarrow> u64 \<Rightarrow> cc2 \<times> u64" where
  "cc2_new n size_of usage = (cc2_initial n, usage + (4 * of_nat n + size_of))"

definition cc2_delete :: "cc2 \<Rightarrow> u64 \<Rightarrow> u64 \<Rightarrow> u64" where
  "cc2_delete s size_of usage = usage - (4 * of_nat (length (symbols s)) + size_of)"

definition cc2_clear :: "cc2 \<Rightarrow> cc2" where
  "cc2_clear s = cc2_initial (length (symbols s))"

definition renorm_symbol :: "nat \<Rightarrow> data list \<Rightarrow> data list" where
  "renorm_symbol i xs =
    (let c = drop_bit 1 (symbol_count (xs ! i))
     in bubble i c (xs[i := \<lparr> symbol_count = c, left_count = 0 \<rparr>]))"

definition renorm_last :: "data list \<Rightarrow> data list" where
  "renorm_last xs =
    (let e = length xs - 1;
         c = (if symbol_count (xs ! e) > 1 then drop_bit 1 (symbol_count (xs ! e)) else symbol_count (xs ! e))
     in bubble e c (xs[e := (xs ! e) \<lparr> symbol_count := c \<rparr>]))"

text \<open>The sum along the right border of the tree.\<close>

function total_loop :: "data list \<Rightarrow> nat \<Rightarrow> u16 \<Rightarrow> u16" where
  "total_loop xs m tot =
    (if m < length xs
     then total_loop xs (2 * m + 2) (tot + (symbol_count (xs ! m) + left_count (xs ! m))) else tot)"
  by pat_completeness auto
termination by (relation "measure (\<lambda>(xs, m, tot). length xs - m)") auto

definition cc2_renorm :: "cc2 \<Rightarrow> cc2" where
  "cc2_renorm s =
    (let xs = renorm_last (fold renorm_symbol [0..<length (symbols s) - 1] (symbols s))
     in \<lparr> c2_total = total_loop xs 0 0, symbols = xs \<rparr>)"

definition cc2_increment_count :: "u64 \<Rightarrow> u16 \<Rightarrow> cc2 \<Rightarrow> (bool \<times> cc2) c" where
  "cc2_increment_count symbol amount s =
    (let s = (if (ucast (c2_total s) :: u64) + ucast amount \<ge> 65536 then cc2_renorm s else s);
         i = unat symbol; xs = symbols s
     in if i < length xs
        then Inr (True, \<lparr> c2_total = c2_total s + amount,
          symbols = bubble i amount (xs[i := (xs ! i) \<lparr> symbol_count := symbol_count (xs ! i) + amount \<rparr>]) \<rparr>)
        else Inl Out_Of_Bounds)"

definition cc2_get_count :: "u64 \<Rightarrow> cc2 \<Rightarrow> u64 c" where
  "cc2_get_count symbol s =
    (if unat symbol < length (symbols s) then Inr (ucast (symbol_count (symbols s ! unat symbol))) else Inl Out_Of_Bounds)"

definition cc2_get_alphabet_size :: "cc2 \<Rightarrow> u64" where
  "cc2_get_alphabet_size s = of_nat (length (symbols s))"

definition cc2_get_total :: "cc2 \<Rightarrow> u64" where
  "cc2_get_total s = ucast (c2_total s)"

fun cc2_range_loop :: "data list \<Rightarrow> nat \<Rightarrow> bool \<Rightarrow> u64 \<Rightarrow> u64" where
  "cc2_range_loop xs 0 came_from_right acc =
    (if came_from_right then acc + (ucast (symbol_count (xs ! 0)) + ucast (left_count (xs ! 0))) else acc)"
| "cc2_range_loop xs (Suc i) came_from_right acc =
    cc2_range_loop xs (i div 2) (even (Suc i))
      (if came_from_right then acc + (ucast (symbol_count (xs ! Suc i)) + ucast (left_count (xs ! Suc i))) else acc)"

definition cc2_get_range :: "u64 \<Rightarrow> cc2 \<Rightarrow> (u64 \<times> (u64 \<times> u64 \<times> u64) option) c" where
  "cc2_get_range symbol s =
    (let i = unat symbol; xs = symbols s in
     if i < length xs then
       if symbol_count (xs ! i) = 0 then Inr (0, None)
       else let high = cc2_range_loop xs i True 0; c = ucast (symbol_count (xs ! i))
            in Inr (c, Some (high - c, high, ucast (c2_total s)))
     else Inl Out_Of_Bounds)"

function cc2_symbol_loop :: "data list \<Rightarrow> nat \<Rightarrow> u64 \<Rightarrow> u64 \<Rightarrow> (u64 \<times> u64 \<times> u64) c" where
  "cc2_symbol_loop xs current target low =
    (if current < length xs then
       let c = symbol_count (xs ! current); l = left_count (xs ! current) in
       if (ucast target :: u16) < l then cc2_symbol_loop xs (2 * current + 1) target low
       else let target = target - ucast l; low = low + ucast l in
         if (ucast target :: u16) < c then Inr (of_nat current, low, low + ucast c)
         else cc2_symbol_loop xs (2 * current + 2) (target - ucast c) (low + ucast c)
     else Inl Out_Of_Bounds)"
  by pat_completeness auto
termination by (relation "measure (\<lambda>(xs, current, target, low). length xs - current)") auto

definition cc2_get_symbol :: "u64 \<Rightarrow> cc2 \<Rightarrow> (u64 \<times> u64 \<times> u64) c" where
  "cc2_get_symbol target s = cc2_symbol_loop (symbols s) 0 target 0"

declare total_loop.simps [simp del] cc2_symbol_loop.simps [simp del]

subsection \<open>The tree\<close>

text \<open>\<open>below a i\<close>: \<open>i\<close> is in the subtree of \<open>a\<close>.\<close>

fun below :: "nat \<Rightarrow> nat \<Rightarrow> bool" where
  "below a 0 \<longleftrightarrow> a = 0"
| "below a (Suc i) \<longleftrightarrow> a = Suc i \<or> below a (i div 2)"

lemma below_le: "below a i \<Longrightarrow> a \<le> i"
  by (induction a i rule: below.induct) (auto dest: order.trans [OF _ div_le_dividend])

lemma below_0 [simp]: "below 0 i"
  by (induction "0 :: nat" i rule: below.induct) auto

lemma below_self [simp]: "below i i"
  by (cases i) auto

lemma below_step: "below a i \<longleftrightarrow> a = i \<or> below (2 * a + 1) i \<or> below (2 * a + 2) i"
proof (induction a i rule: below.induct)
  case (2 a i)
  have "a = i div 2 \<longleftrightarrow> 2 * a + 1 = Suc i \<or> 2 * a + 2 = Suc i" by presburger
  then show ?case using 2 by auto
qed simp

lemma below_exclusive:
  "\<not> below (2 * a + 1) a" "\<not> below (2 * a + 2) a" "\<not> (below (2 * a + 1) i \<and> below (2 * a + 2) i)"
proof -
  show n: "\<not> below (2 * a + 1) a" "\<not> below (2 * a + 2) a" for a using below_le [of _ a] by fastforce+
  show "\<not> (below (2 * a + 1) i \<and> below (2 * a + 2) i)"
  proof (induction a i rule: below.induct)
    case (2 a i)
    have "2 * a + 1 = Suc i \<Longrightarrow> i div 2 = a" "2 * a + 2 = Suc i \<Longrightarrow> i div 2 = a" by presburger+
    then show ?case using 2 n by auto
  qed simp
qed

function tree_sum :: "nat list \<Rightarrow> nat \<Rightarrow> nat" where
  "tree_sum cs i = (if i < length cs then tree_sum cs (2 * i + 1) + cs ! i + tree_sum cs (2 * i + 2) else 0)"
  by pat_completeness auto
termination by (relation "measure (\<lambda>(cs, i). length cs - i)") auto

declare tree_sum.simps [simp del]

lemma tree_sum_out [simp]: "length cs \<le> i \<Longrightarrow> tree_sum cs i = 0"
  by (simp add: tree_sum.simps)

lemma tree_sum_update:
  "i < length cs \<Longrightarrow> tree_sum (cs[i := cs ! i + a]) k = tree_sum cs k + (if below k i then a else 0)"
proof (induction cs k rule: tree_sum.induct)
  case (1 cs k)
  show ?case
  proof (cases "k < length cs")
    case True
    then show ?thesis using 1 below_step [of k i] below_exclusive(3) [of k i] below_exclusive(1,2) [of k]
      by (subst (1 2) tree_sum.simps) (auto simp: nth_list_update)
  next
    case False
    then show ?thesis using 1(3) below_le [of k i] by auto
  qed
qed

lemma tree_sum_zero: "(\<And>i. k \<le> i \<Longrightarrow> i < length cs \<Longrightarrow> cs ! i = 0) \<Longrightarrow> tree_sum cs k = 0"
proof (induction cs k rule: tree_sum.induct)
  case (1 cs k)
  then show ?case by (subst tree_sum.simps) auto
qed

lemma tree_sum_sum_list: "tree_sum cs 0 = sum_list cs"
proof -
  have "k \<le> length cs \<Longrightarrow> tree_sum (take k cs @ replicate (length cs - k) 0) 0 = sum_list (take k cs)" for k
  proof (induction k)
    case 0
    then show ?case by (auto intro: tree_sum_zero)
  next
    case (Suc k)
    let ?xs = "take k cs @ replicate (length cs - k) 0"
    have "take (Suc k) cs @ replicate (length cs - Suc k) 0 = ?xs[k := ?xs ! k + cs ! k]"
      using Suc.prems by (intro nth_equalityI) (auto simp: nth_append nth_list_update less_Suc_eq min_def)
    then show ?case using tree_sum_update [of k ?xs "cs ! k" 0] Suc by (simp add: take_Suc_conv_app_nth)
  qed
  from this [of "length cs"] show ?thesis by simp
qed

lemma tree_sum_le: "tree_sum cs k \<le> sum_list cs"
proof -
  have "tree_sum cs (2 * k + 1) \<le> tree_sum cs k" "tree_sum cs (2 * k + 2) \<le> tree_sum cs k" for k
    by (subst (2) tree_sum.simps, simp)+
  moreover have "k = 0 \<or> (\<exists>p < k. k = 2 * p + 1) \<or> (\<exists>p < k. k = 2 * p + 2)" for k :: nat by presburger
  ultimately have "tree_sum cs k \<le> tree_sum cs 0"
    by (induction k rule: less_induct) (metis order_refl order_trans)
  then show ?thesis by (simp add: tree_sum_sum_list)
qed

subsection \<open>Adding to a count\<close>

abbreviation cnts :: "data list \<Rightarrow> nat list" where
  "cnts xs \<equiv> map (\<lambda>d. unat (symbol_count d)) xs"

text \<open>\<open>left_count\<close> is the sum of the left subtree, for the first \<open>m\<close> nodes and the counts \<open>cs\<close>.\<close>

definition lefts :: "nat \<Rightarrow> nat list \<Rightarrow> data list \<Rightarrow> bool" where
  "lefts m cs xs \<longleftrightarrow> (\<forall>k < m. left_count (xs ! k) = of_nat (tree_sum cs (2 * k + 1)))"

lemma bubble_length [simp]: "length (bubble i a xs) = length xs"
  by (induction i a xs rule: bubble.induct) (simp_all add: Let_def)

lemma bubble_count [simp]: "k < length xs \<Longrightarrow> symbol_count (bubble i a xs ! k) = symbol_count (xs ! k)"
proof (induction i a xs rule: bubble.induct)
  case (2 i a xs)
  then show ?case by (cases "k = i div 2") (simp_all add: Let_def)
qed simp

lemma bubble_counts [simp]: "map symbol_count (bubble i a xs) = map symbol_count xs" "cnts (bubble i a xs) = cnts xs"
  by (simp_all add: list_eq_iff_nth_eq)

lemma bubble_left:
  "i < length xs \<Longrightarrow> k < length xs \<Longrightarrow>
    left_count (bubble i a xs ! k) = left_count (xs ! k) + (if below (2 * k + 1) i then a else 0)"
proof (induction i a xs rule: bubble.induct)
  case (2 i a xs)
  have p: "i div 2 < length xs" using 2(2) by simp
  show ?case
  proof (cases "odd (Suc i) \<and> k = i div 2")
    case True
    then have "2 * k + 1 = Suc i" by presburger
    then show ?thesis using 2 p True below_exclusive(1) [of k] by (simp add: Let_def)
  next
    case False
    then have "2 * k + 1 \<noteq> Suc i" by presburger
    then show ?thesis using 2 p False by (auto simp: Let_def nth_list_update)
  qed
qed simp

lemma lefts_add:
  assumes "lefts m cs xs" "i < length xs" "m \<le> length xs" "length cs = length xs"
  shows "lefts m (cs[i := cs ! i + unat a]) (bubble i a xs)"
  using assms bubble_left [OF assms(2), of _ a] tree_sum_update [of i cs "unat a"] by (auto simp: lefts_def)

lemma lefts_count: "lefts m cs (xs[i := d]) \<longleftrightarrow> lefts m cs xs" if "left_count d = left_count (xs ! i)"
  using that by (cases "i < length xs") (auto simp: lefts_def nth_list_update list_update_beyond not_less)

lemma lefts_less: "lefts m cs xs \<Longrightarrow> k < m \<Longrightarrow> sum_list cs < 65536 \<Longrightarrow> unat (left_count (xs ! k)) = tree_sum cs (2 * k + 1)"
  using tree_sum_le [of cs "2 * k + 1"] by (simp add: lefts_def unat_of_nat)

text \<open>The state of the first kernel that a state stands for.\<close>

definition cc2_abs :: "cc2 \<Rightarrow> cc" where
  "cc2_abs s = \<lparr> cc_total = c2_total s, counts = map symbol_count (symbols s) \<rparr>"

definition cc2_wf :: "nat \<Rightarrow> cc2 \<Rightarrow> bool" where
  "cc2_wf n s \<longleftrightarrow> cc_wf n (cc2_abs s) \<and> lefts n (cnts (symbols s)) (symbols s)"

lemma cc2_wf_simps:
  assumes "cc2_wf n s"
  shows "1 < n" "n < 65536" "length (symbols s) = n" "sum_list (cnts (symbols s)) = unat (c2_total s)"
    "symbol_count (symbols s ! (n - 1)) \<noteq> 0" "lefts n (cnts (symbols s)) (symbols s)"
  using assms by (auto simp: cc2_wf_def cc_wf_def cc2_abs_def o_def)

subsection \<open>Halving the counts\<close>

lemma bubble_above: "i \<le> k \<Longrightarrow> bubble i a xs ! k = xs ! k"
proof (induction i a xs rule: bubble.induct)
  case (2 i a xs)
  have "i div 2 < k" using 2(2) by simp
  then show ?case using 2(1) by (simp add: Let_def)
qed simp

text \<open>After \<open>k\<close> turns of the loop the first \<open>k\<close> counts are halved, and only they are in the left counts.\<close>

definition halved :: "nat \<Rightarrow> data list \<Rightarrow> nat list" where
  "halved k xs = map (\<lambda>i. if i < k then unat (symbol_count (xs ! i)) div 2 else 0) [0..<length xs]"

definition renorm_inv :: "data list \<Rightarrow> nat \<Rightarrow> data list \<Rightarrow> bool" where
  "renorm_inv ys k xs \<longleftrightarrow> length xs = length ys \<and> (\<forall>i < k. symbol_count (xs ! i) = drop_bit 1 (symbol_count (ys ! i))) \<and>
    (\<forall>i. k \<le> i \<longrightarrow> xs ! i = ys ! i) \<and> lefts k (halved k ys) xs"

lemma unat_half: "unat (drop_bit 1 (c :: u16)) = unat c div 2"
  unfolding unat_drop_bit_eq drop_bit_eq_div [of 1 "unat c"] by simp

lemma halved_Suc: "k < length ys \<Longrightarrow> (halved k ys)[k := halved k ys ! k + unat (symbol_count (ys ! k)) div 2] = halved (Suc k) ys"
  by (intro nth_equalityI) (auto simp: halved_def nth_list_update less_Suc_eq)

lemma renorm_symbol_inv:
  assumes "renorm_inv ys k xs" "k < length ys"
  shows "renorm_inv ys (Suc k) (renorm_symbol k xs)"
proof -
  let ?c = "drop_bit 1 (symbol_count (ys ! k))"
  let ?xs = "xs[k := \<lparr> symbol_count = ?c, left_count = 0 \<rparr>]"
  have x: "length xs = length ys" "xs ! k = ys ! k" "\<forall>i < k. symbol_count (xs ! i) = drop_bit 1 (symbol_count (ys ! i))"
    "\<forall>i. k \<le> i \<longrightarrow> xs ! i = ys ! i" "lefts k (halved k ys) xs" using assms by (auto simp: renorm_inv_def)
  have "tree_sum (halved k ys) (2 * k + 1) = 0" by (rule tree_sum_zero) (simp add: halved_def)
  then have "lefts (Suc k) (halved k ys) ?xs" using x(1,5) assms(2) by (auto simp: lefts_def less_Suc_eq)
  from lefts_add [OF this, of k ?c] have "lefts (Suc k) (halved (Suc k) ys) (bubble k ?c ?xs)"
    using x(1) assms(2) halved_Suc [OF assms(2)] unfolding unat_half by (simp add: halved_def)
  moreover have "renorm_symbol k xs = bubble k ?c ?xs" by (simp add: renorm_symbol_def Let_def x(2))
  ultimately show ?thesis using x assms(2) by (auto simp: renorm_inv_def bubble_above less_Suc_eq)
qed

lemma renorm_symbols_inv:
  assumes "lefts n cs ys" "k \<le> length ys"
  shows "renorm_inv ys k (fold renorm_symbol [0..<k] ys)"
  using assms(2)
proof (induction k)
  case 0
  then show ?case by (simp add: renorm_inv_def lefts_def)
qed (simp add: renorm_symbol_inv)

definition last_count :: "data list \<Rightarrow> u16" where
  "last_count ys = (let c = symbol_count (ys ! (length ys - 1)) in if c > 1 then drop_bit 1 c else c)"

lemma renorm_last_spec:
  assumes "renorm_inv ys (length ys - 1) xs" "lefts (length ys) cs ys" "ys \<noteq> []" "length cs = length ys"
  shows "map symbol_count (renorm_last xs) = (map (drop_bit 1 \<circ> symbol_count) ys)[length ys - 1 := last_count ys]"
    "lefts (length ys) (cnts (renorm_last xs)) (renorm_last xs)"
proof -
  let ?e = "length ys - 1"
  let ?c = "last_count ys"
  let ?xs = "xs[?e := (ys ! ?e) \<lparr> symbol_count := ?c \<rparr>]"
  have e: "?e < length ys" using assms(3) by simp
  have x: "length xs = length ys" "\<forall>i < ?e. symbol_count (xs ! i) = drop_bit 1 (symbol_count (ys ! i))"
    "xs ! ?e = ys ! ?e" "lefts ?e (halved ?e ys) xs" using assms(1) by (auto simp: renorm_inv_def)
  have r: "renorm_last xs = bubble ?e ?c ?xs" by (simp only: renorm_last_def last_count_def Let_def x(1,3))
  show m: "map symbol_count (renorm_last xs) = (map (drop_bit 1 \<circ> symbol_count) ys)[?e := ?c]"
    unfolding r bubble_counts using x(1,2) e
    by (intro nth_equalityI) (auto simp: nth_list_update less_Suc_eq_le order.order_iff_strict)
  have l: "left_count (xs ! ?e) = 0" using assms(2,4) e unfolding x(3) by (simp add: lefts_def)
  have "lefts (length ys) (halved ?e ys) xs"
    unfolding lefts_def
  proof (intro allI impI)
    fix k assume "k < length ys"
    then have "k < ?e \<or> k = ?e" by linarith
    then show "left_count (xs ! k) = of_nat (tree_sum (halved ?e ys) (2 * k + 1))"
    proof
      assume "k < ?e"
      then show ?thesis using x(4) unfolding lefts_def by blast
    next
      assume k: "k = ?e"
      have "length (halved ?e ys) \<le> 2 * ?e + 1" using e unfolding halved_def length_map length_upt by linarith
      then show ?thesis unfolding k l by (simp only: tree_sum_out) simp
    qed
  qed
  then have "lefts (length ys) (halved ?e ys) ?xs" using lefts_count x(3) by simp
  from lefts_add [OF this, of ?e ?c]
  have "lefts (length ys) ((halved ?e ys)[?e := unat ?c]) (renorm_last xs)"
    using x(1) e unfolding r by (simp add: halved_def)
  moreover have "(halved ?e ys)[?e := unat ?c] = cnts (renorm_last xs)"
  proof -
    have "cnts (renorm_last xs) = map unat (map symbol_count (renorm_last xs))" by simp
    also have "\<dots> = (halved ?e ys)[?e := unat ?c]" unfolding m map_update
      using e by (intro nth_equalityI) (auto simp: halved_def nth_list_update unat_half [unfolded One_nat_def])
    finally show ?thesis ..
  qed
  ultimately show "lefts (length ys) (cnts (renorm_last xs)) (renorm_last xs)" by simp
qed

lemma total_loop_sum:
  "lefts (length xs) (cnts xs) xs \<Longrightarrow> total_loop xs m tot = tot + of_nat (tree_sum (cnts xs) m)"
proof (induction xs m tot rule: total_loop.induct)
  case (1 xs m tot)
  then show ?case
    by (subst total_loop.simps, subst tree_sum.simps) (auto simp: lefts_def algebra_simps)
qed

lemma last_count_kernel_1:
  assumes "symbol_count (ys ! (length ys - 1)) \<noteq> 0"
  shows "last_count ys = (let c = drop_bit 1 (symbol_count (ys ! (length ys - 1))) in if c = 0 then 1 else c)"
proof -
  let ?c = "symbol_count (ys ! (length ys - 1))"
  have "0 < unat ?c" using assms by (simp add: unat_gt_0)
  then have "1 < ?c \<longleftrightarrow> drop_bit 1 ?c \<noteq> 0" "\<not> 1 < ?c \<Longrightarrow> ?c = 1"
    unfolding word_unat_eq_iff [of "drop_bit 1 ?c"] unat_half by (auto simp: word_less_nat_alt word_unat_eq_iff)
  then show ?thesis unfolding last_count_def Let_def by simp
qed

lemma cc2_renorm_refines:
  assumes "cc2_wf n s"
  shows "cc2_abs (cc2_renorm s) = scale_down (cc2_abs s)" "cc2_wf n (cc2_renorm s)"
proof -
  note w = cc2_wf_simps [OF assms]
  have wf: "cc_wf n (cc2_abs s)" using assms by (simp add: cc2_wf_def)
  let ?xs = "renorm_last (fold renorm_symbol [0..<length (symbols s) - 1] (symbols s))"
  have inv: "renorm_inv (symbols s) (length (symbols s) - 1) (fold renorm_symbol [0..<length (symbols s) - 1] (symbols s))"
    by (rule renorm_symbols_inv [OF w(6)]) simp
  have "lefts (length (symbols s)) (cnts (symbols s)) (symbols s)" "symbols s \<noteq> []" using w by auto
  note r = renorm_last_spec [OF inv this length_map]
  have c: "map symbol_count ?xs = counts (scale_down (cc2_abs s))"
    unfolding r(1) scale_down_counts [OF wf] using w(1,3,5) last_count_kernel_1 [of "symbols s"]
    by (simp add: cc2_abs_def Let_def)
  have len: "length ?xs = n" using arg_cong [OF r(1), of length] w(3) by simp
  have "c2_total (cc2_renorm s) = of_nat (sum_list (map unat (map symbol_count ?xs)))"
    using total_loop_sum [of ?xs 0 0] r(2) len w(3) by (simp add: cc2_renorm_def Let_def tree_sum_sum_list o_def)
  also have "\<dots> = cc_total (scale_down (cc2_abs s))"
    unfolding c using scale_down_wf(1) [OF wf] by (simp add: cc_wf_def)
  finally show a: "cc2_abs (cc2_renorm s) = scale_down (cc2_abs s)"
    using c unfolding cc2_abs_def cc2_renorm_def Let_def by (cases "scale_down (cc2_abs s)") (simp add: cc2_abs_def)
  show "cc2_wf n (cc2_renorm s)"
    using scale_down_wf(1) [OF wf] a r(2) w(3) by (simp add: cc2_wf_def) (simp add: cc2_renorm_def Let_def)
qed

lemma cc2_increment_refines:
  assumes "cc2_wf n s" "unat sy < n" "unat amount < 32768"
  shows "\<exists>s'. cc2_increment_count sy amount s = Inr (True, s') \<and>
    increment_count sy amount (cc2_abs s) = Inr (True, cc2_abs s') \<and> cc2_wf n s'"
proof -
  let ?over = "(ucast (c2_total s) :: u64) + ucast amount \<ge> 65536"
  define s1 where "s1 = (if ?over then cc2_renorm s else s)"
  define a1 where "a1 = (if (ucast (cc_total (cc2_abs s)) :: u64) + ucast amount \<ge> 65536 then scale_down (cc2_abs s) else cc2_abs s)"
  have s1: "cc2_abs s1 = a1" "cc2_wf n s1" using cc2_renorm_refines [OF assms(1)] assms(1)
    by (auto simp: s1_def a1_def cc2_abs_def)
  note w = cc2_wf_simps [OF s1(2)]
  let ?i = "unat sy" and ?xs = "symbols s1"
  let ?ys = "?xs[?i := (?xs ! ?i) \<lparr> symbol_count := symbol_count (?xs ! ?i) + amount \<rparr>]"
  define s2 where "s2 = \<lparr> c2_total = c2_total s1 + amount, symbols = bubble ?i amount ?ys \<rparr>"
  have c2: "cc2_increment_count sy amount s = Inr (True, s2)"
    using assms(2) w(3) by (simp add: cc2_increment_count_def Let_def s2_def flip: s1_def)
  have c1: "increment_count sy amount (cc2_abs s) = Inr (True, cc2_abs s2)"
    using assms(2) w(3) s1(1) unfolding increment_count_def Let_def a1_def [symmetric]
    by (simp add: s2_def map_update) (auto simp: cc2_abs_def map_update)
  obtain ok a' where "increment_count sy amount (cc2_abs s) = Inr (ok, a')" "cc_wf n a'"
    using increment_count_wf [OF _ assms(2,3)] assms(1) unfolding cc2_wf_def by blast
  then have wf2: "cc_wf n (cc2_abs s2)" using c1 by simp
  have cs: "cnts ?ys = (cnts ?xs)[?i := cnts ?xs ! ?i + unat amount]"
    using scaled_fits(3) [OF _ assms(3) a1_def assms(2)] assms(1,2) w(3) s1(1)
    by (auto simp: map_update cc2_wf_def cc2_abs_def)
  have "lefts n (cnts ?ys) (bubble ?i amount ?ys)"
    using lefts_add [of n "cnts ?xs" ?ys ?i amount] w(3,6) assms(2) unfolding cs by (simp add: lefts_count)
  then show ?thesis using c1 c2 wf2 by (simp add: cc2_wf_def) (simp add: s2_def)
qed

subsection \<open>Ranges\<close>

text \<open>The counts in front of a subtree, and in front of a node, in the order of the tree.\<close>

fun base :: "nat list \<Rightarrow> nat \<Rightarrow> nat" where
  "base cs 0 = 0"
| "base cs (Suc i) = base cs (i div 2) + (if odd i then tree_sum cs (2 * (i div 2) + 1) + cs ! (i div 2) else 0)"

definition tree_before :: "nat list \<Rightarrow> nat \<Rightarrow> nat" where
  "tree_before cs i = base cs i + tree_sum cs (2 * i + 1)"

lemma base_children: "base cs (2 * i + 1) = base cs i" "base cs (2 * i + 2) = tree_before cs i + cs ! i"
proof -
  show "base cs (2 * i + 1) = base cs i" by simp
  have "base cs (2 * i + 2) = base cs (Suc (2 * i + 1))" by simp
  also have "\<dots> = tree_before cs i + cs ! i" unfolding base.simps by (simp add: tree_before_def)
  finally show "base cs (2 * i + 2) = tree_before cs i + cs ! i" .
qed

lemma node_sum: "k < length cs \<Longrightarrow> base cs k + tree_sum cs k = tree_before cs k + cs ! k + tree_sum cs (2 * k + 2)"
  by (simp add: tree_before_def tree_sum.simps [of cs k])

lemma tree_before_bounds:
  "below k i \<Longrightarrow> i < length cs \<Longrightarrow> base cs k \<le> tree_before cs i \<and> tree_before cs i + cs ! i \<le> base cs k + tree_sum cs k"
proof (induction cs k rule: tree_sum.induct)
  case (1 cs k)
  have k: "k < length cs" using 1(3,4) below_le [of k i] by linarith
  note n = node_sum [OF k] base_children [of cs k]
  consider "k = i" | "below (2 * k + 1) i" | "below (2 * k + 2) i" using below_step [of k i] 1(3) by blast
  then show ?case
  proof cases
    case 2
    then show ?thesis using 1(1) [OF k 2 1(4)] n by (simp add: tree_before_def)
  next
    case 3
    then show ?thesis using 1(2) [OF k 3 1(4)] n by (simp add: tree_before_def)
  qed (use n in \<open>simp add: tree_before_def\<close>)
qed

lemma tree_before_total: "i < length cs \<Longrightarrow> tree_before cs i + cs ! i \<le> sum_list cs"
  using tree_before_bounds [of 0 i cs] by (simp add: tree_sum_sum_list)

lemma tree_before_exists:
  "t < tree_sum cs k \<Longrightarrow> \<exists>i < length cs. tree_before cs i \<le> base cs k + t \<and> base cs k + t < tree_before cs i + cs ! i"
proof (induction cs k arbitrary: t rule: tree_sum.induct)
  case (1 cs k)
  have k: "k < length cs" using 1(3) by (cases "k < length cs") simp_all
  note n = node_sum [OF k] base_children [of cs k] tree_before_def [of cs k]
  consider "t < tree_sum cs (2 * k + 1)" | "tree_sum cs (2 * k + 1) \<le> t" "t < tree_sum cs (2 * k + 1) + cs ! k"
    | "tree_sum cs (2 * k + 1) + cs ! k \<le> t" by linarith
  then show ?case
  proof cases
    case 1
    then show ?thesis using "1.IH"(1) [OF k, of t] n by simp
  next
    case 2
    then show ?thesis using k n(4) by auto
  next
    case 3
    then have "t - (tree_sum cs (2 * k + 1) + cs ! k) < tree_sum cs (2 * k + 2)"
      using 1(3) n(1,4) by linarith
    from "1.IH"(2) [OF k this] show ?thesis using 3 n(3,4) by simp
  qed
qed

lemma left_u64:
  assumes "lefts (length xs) (cnts xs) xs" "sum_list (cnts xs) < 65536" "k < length xs"
  shows "(ucast (left_count (xs ! k)) :: u64) = of_nat (tree_sum (cnts xs) (2 * k + 1))"
  using lefts_less [OF assms(1,3,2)] by (metis of_nat_unat)

lemma cc2_range_loop_sum:
  "lefts (length xs) (cnts xs) xs \<Longrightarrow> sum_list (cnts xs) < 65536 \<Longrightarrow> i < length xs \<Longrightarrow>
    cc2_range_loop xs i from_right acc =
      acc + of_nat ((if from_right then tree_sum (cnts xs) (2 * i + 1) + cnts xs ! i else 0) + base (cnts xs) i)"
proof (induction xs i from_right acc rule: cc2_range_loop.induct)
  case (1 xs from_right acc)
  then show ?case using left_u64 [OF 1] by simp
next
  case (2 xs i from_right acc)
  have "i div 2 < length xs" using 2(4) by simp
  from 2(1) [OF 2(2,3) this] show ?case using left_u64 [OF 2(2-4)] 2(4) by (auto simp: algebra_simps)
qed

text \<open>The search goes down to the node whose range holds the target.\<close>

lemma u16_of_u64: "unat (t :: u64) < 65536 \<Longrightarrow> unat (ucast t :: u16) = unat t"
  by (simp add: unsigned_ucast_eq take_bit_eq_mod)

lemma cc2_symbol_loop_finds:
  assumes "lefts (length xs) (cnts xs) xs" "sum_list (cnts xs) < 65536" "i < length xs" "below cur i"
    "unat low = base (cnts xs) cur" "tree_before (cnts xs) i \<le> unat low + unat t" "unat low + unat t < tree_before (cnts xs) i + cnts xs ! i"
  shows "\<exists>lo hi. cc2_symbol_loop xs cur t low = Inr (of_nat i, lo, hi) \<and> unat lo = tree_before (cnts xs) i \<and>
    unat hi = tree_before (cnts xs) i + cnts xs ! i"
  using assms
proof (induction xs cur t low rule: cc2_symbol_loop.induct)
  case (1 xs cur t low)
  note p = 1(3-)
  let ?cs = "cnts xs" and ?l = "left_count (xs ! cur)" and ?c = "symbol_count (xs ! cur)"
  have k: "cur < length xs" using p(3,4) below_le [of cur i] by linarith
  have l: "unat ?l = tree_sum ?cs (2 * cur + 1)" using lefts_less [OF p(1) k p(2)] .
  have c: "?cs ! cur = unat ?c" using k by simp
  have b: "tree_before ?cs cur = unat low + unat ?l" using p(5) l by (simp add: tree_before_def)
  have fit: "tree_before ?cs i + ?cs ! i < 65536" "tree_before ?cs cur + unat ?c < 65536"
    using tree_before_total [of i ?cs] tree_before_total [of cur ?cs] p(2,3) k c by simp_all
  note t = u16_of_u64 [of t]
  consider "below (2 * cur + 1) i" | "cur = i" | "below (2 * cur + 2) i" using below_step [of cur i] p(4) by blast
  then show ?case
  proof cases
    case 1
    have "tree_before ?cs i + ?cs ! i \<le> unat low + unat ?l"
      using tree_before_bounds [OF 1, of ?cs] p(3,5) l base_children(1) [of ?cs cur] by simp
    then have "(ucast t :: u16) < ?l" using p(7) fit t by (simp add: word_less_nat_alt)
    then show ?thesis using "1.IH"(1) [OF k refl refl _ p(1-3) 1] p(5-7) k base_children(1) [of ?cs cur]
      by (subst cc2_symbol_loop.simps) simp
  next
    case 2
    have ge: "unat ?l \<le> unat t" "unat t < unat ?l + unat ?c" "unat t < 65536" using p(6,7) b c 2 fit by simp_all
    have t1: "unat (t - ucast ?l) = unat t - unat ?l" using ge by (simp add: unat_sub word_le_nat_alt unat_u64_u16)
    have low: "unat (low + ucast ?l) = unat low + unat ?l" "unat (low + ucast ?l + ucast ?c) = unat low + unat ?l + unat ?c"
      using fit(2) b by (simp_all add: unat_word_ariths unat_u64_u16)
    have "\<not> (ucast t :: u16) < ?l" using ge u16_of_u64 [of t] by (simp add: word_less_nat_alt)
    moreover have "unat t - unat ?l < unat ?c" "unat t - unat ?l < 65536" using ge by linarith+
    then have "(ucast (t - ucast ?l) :: u16) < ?c" using t1 u16_of_u64 [of "t - ucast ?l"] by (simp add: word_less_nat_alt)
    ultimately show ?thesis using k 2 b c low by (subst cc2_symbol_loop.simps) (simp add: Let_def)
  next
    case 3
    have "unat low + unat ?l + unat ?c \<le> tree_before ?cs i"
      using tree_before_bounds [OF 3, of ?cs] p(3) b c base_children(2) [of ?cs cur] by simp
    then have ge: "unat ?l + unat ?c \<le> unat t" "unat t < 65536" using p(6,7) fit by simp_all
    have t1: "unat (t - ucast ?l) = unat t - unat ?l" using ge by (simp add: unat_sub word_le_nat_alt unat_u64_u16)
    have t2: "unat (t - ucast ?l - ucast ?c) = unat t - unat ?l - unat ?c"
      using ge t1 by (simp add: unat_sub word_le_nat_alt unat_u64_u16)
    have low: "unat (low + ucast ?l) = unat low + unat ?l" "unat (low + ucast ?l + ucast ?c) = unat low + unat ?l + unat ?c"
      using fit(2) b by (simp_all add: unat_word_ariths unat_u64_u16)
    have n: "\<not> (ucast t :: u16) < ?l" "\<not> (ucast (t - ucast ?l) :: u16) < ?c"
      using ge t1 u16_of_u64 [of t] u16_of_u64 [of "t - ucast ?l"] by (simp_all add: word_less_nat_alt)
    have "\<exists>lo hi. cc2_symbol_loop xs (2 * cur + 2) (t - ucast ?l - ucast ?c) (low + ucast ?l + ucast ?c) = Inr (of_nat i, lo, hi) \<and>
        unat lo = tree_before ?cs i \<and> unat hi = tree_before ?cs i + ?cs ! i"
      using "1.IH"(2) [OF k refl refl n(1) refl refl n(2) p(1-3) 3] p(6,7) ge t2 low b c base_children(2) [of ?cs cur] by simp
    then show ?thesis using k n by (subst cc2_symbol_loop.simps) (simp add: Let_def)
  qed
qed

lemma cc2_get_symbol_at:
  assumes "cc2_wf n s" "i < n" "tree_before (cnts (symbols s)) i \<le> unat t" "unat t < tree_before (cnts (symbols s)) i + cnts (symbols s) ! i"
  shows "\<exists>lo hi. cc2_get_symbol t s = Inr (of_nat i, lo, hi) \<and> unat lo = tree_before (cnts (symbols s)) i \<and>
    unat hi = tree_before (cnts (symbols s)) i + cnts (symbols s) ! i"
  using cc2_symbol_loop_finds [of "symbols s" i 0 0 t] cc2_wf_simps [OF assms(1)] assms(2-) u16_less [of "c2_total s"]
  by (simp add: cc2_get_symbol_def)

lemma cc2_get_range_wf:
  assumes "cc2_wf n s" "unat sy < n" "symbol_count (symbols s ! unat sy) \<noteq> 0"
  shows "\<exists>c lo hi. cc2_get_range sy s = Inr (c, Some (lo, hi, cc2_get_total s)) \<and> c \<noteq> 0 \<and>
    unat lo = tree_before (cnts (symbols s)) (unat sy) \<and> unat hi = tree_before (cnts (symbols s)) (unat sy) + cnts (symbols s) ! unat sy \<and>
    lo < hi \<and> hi \<le> cc2_get_total s"
proof -
  note w = cc2_wf_simps [OF assms(1)]
  let ?i = "unat sy" and ?cs = "cnts (symbols s)" and ?c = "symbol_count (symbols s ! unat sy)"
  let ?hi = "cc2_range_loop (symbols s) ?i True 0"
  have le: "tree_before ?cs ?i + ?cs ! ?i \<le> unat (c2_total s)" using tree_before_total [of ?i ?cs] w(3,4) assms(2) by simp
  have c: "?cs ! ?i = unat ?c" "0 < unat ?c" using assms(2,3) w(3) by (simp_all add: unat_gt_0)
  have "?hi = of_nat (tree_before ?cs ?i + ?cs ! ?i)"
    using cc2_range_loop_sum [of "symbols s" ?i True 0] w assms(2) u16_less [of "c2_total s"] by (simp add: tree_before_def algebra_simps)
  then have hi: "unat ?hi = tree_before ?cs ?i + ?cs ! ?i"
    using le u16_less [of "c2_total s"] by (simp del: of_nat_add add: unat_of_nat)
  then have lo: "unat (?hi - ucast ?c) = tree_before ?cs ?i"
    using c by (subst unat_sub) (simp_all add: word_le_nat_alt unat_u64_u16)
  have "(ucast ?c :: u64) \<noteq> 0" using c(2) by (metis unat_u64_u16 less_irrefl unsigned_0)
  then show ?thesis using assms(2,3) w(3) hi lo c le
    by (simp add: cc2_get_range_def Let_def cc2_get_total_def word_less_nat_alt word_le_nat_alt unat_u64_u16)
qed

text \<open>The kernel keeps the contract, like the first one.\<close>

lemma conditioning_class_kernel_2:
  assumes "1 < n" "n < 65536"
  shows "conditioning_class n (cc2_wf n) cc2_increment_count cc2_get_range cc2_get_symbol cc2_get_total"
proof unfold_locales
  show "1 < n" "n < 65536" using assms by auto
  fix s assume wf: "cc2_wf n s"
  note w = cc2_wf_simps [OF wf]
  have "0 < get_total (cc2_abs s) \<and> get_total (cc2_abs s) < 65536"
    using conditioning_class.total_bounds [OF conditioning_class_kernel_1 [OF assms]] wf by (simp add: cc2_wf_def)
  then show "0 < cc2_get_total s \<and> cc2_get_total s < 65536" by (simp add: cc2_get_total_def get_total_def cc2_abs_def)
  fix sy amount
  show "unat sy < n \<Longrightarrow> unat amount < 32768 \<Longrightarrow> \<exists>ok s'. cc2_increment_count sy amount s = Inr (ok, s') \<and> cc2_wf n s'"
    using cc2_increment_refines [OF wf] by blast
  assume sy: "unat sy < n"
  show "cc2_get_range sy s = Inr (0, None) \<and> unat sy \<noteq> n - 1 \<or>
      (\<exists>c lo hi. cc2_get_range sy s = Inr (c, Some (lo, hi, cc2_get_total s)) \<and> c \<noteq> 0 \<and> lo < hi \<and> hi \<le> cc2_get_total s \<and>
        (\<forall>t. lo \<le> t \<longrightarrow> t < hi \<longrightarrow> cc2_get_symbol t s = Inr (sy, lo, hi)))"
  proof (cases "symbol_count (symbols s ! unat sy) = 0")
    case True
    then show ?thesis using sy w(3,5) by (auto simp: cc2_get_range_def Let_def)
  next
    case False
    then obtain c lo hi where r: "cc2_get_range sy s = Inr (c, Some (lo, hi, cc2_get_total s))" "c \<noteq> 0"
      "unat lo = tree_before (cnts (symbols s)) (unat sy)" "unat hi = tree_before (cnts (symbols s)) (unat sy) + cnts (symbols s) ! unat sy"
      "lo < hi" "hi \<le> cc2_get_total s" using cc2_get_range_wf [OF wf sy] by blast
    have "cc2_get_symbol t s = Inr (sy, lo, hi)" if "lo \<le> t" "t < hi" for t
      using cc2_get_symbol_at [OF wf sy, of t] that r(3,4) by (auto simp: word_le_nat_alt word_less_nat_alt word_unat_eq_iff)
    then show ?thesis using r by blast
  qed
next
  fix s t assume wf: "cc2_wf n s" and t: "t < cc2_get_total s"
  note w = cc2_wf_simps [OF wf]
  let ?cs = "cnts (symbols s)"
  have "unat t < tree_sum ?cs 0"
    using t w(4) unfolding tree_sum_sum_list by (simp add: word_less_nat_alt cc2_get_total_def unat_u64_u16)
  from tree_before_exists [OF this] obtain i where i: "i < n" "tree_before ?cs i \<le> unat t" "unat t < tree_before ?cs i + ?cs ! i"
    using w(3) by auto
  obtain lo hi where r: "cc2_get_symbol t s = Inr (of_nat i, lo, hi)" "unat lo = tree_before ?cs i" "unat hi = tree_before ?cs i + ?cs ! i"
    using cc2_get_symbol_at [OF wf i] by blast
  have "unat (of_nat i :: u64) = i" using i(1) assms(2) by (simp add: unat_of_nat)
  moreover have "symbol_count (symbols s ! i) \<noteq> 0" using i w(3) by auto
  ultimately obtain c lo' hi' where "cc2_get_range (of_nat i) s = Inr (c, Some (lo', hi', cc2_get_total s))"
    "unat lo' = tree_before ?cs i" "unat hi' = tree_before ?cs i + ?cs ! i" using cc2_get_range_wf [OF wf, of "of_nat i"] i(1) by auto
  moreover from this have "lo' = lo" "hi' = hi" using r by (simp_all add: word_unat_eq_iff)
  ultimately show "\<exists>sy c lo hi. cc2_get_symbol t s = Inr (sy, lo, hi) \<and> unat sy < n \<and>
      cc2_get_range sy s = Inr (c, Some (lo, hi, cc2_get_total s)) \<and> lo \<le> t \<and> t < hi"
    using r i \<open>unat (of_nat i :: u64) = i\<close> by (auto simp: word_less_nat_alt word_le_nat_alt)
qed

lemma cc2_initial_wf:
  assumes "1 < n" "n < 65536"
  shows "cc2_wf n (cc2_initial n)" "cc2_abs (cc2_initial n) = fst (cc_new n size_of usage)"
proof -
  let ?z = "\<lparr> symbol_count = 0, left_count = 0 \<rparr>" and ?e = "\<lparr> symbol_count = 1, left_count = 0 \<rparr>"
  let ?xs = "replicate (n - 1) ?z @ [?e]"
  show a: "cc2_abs (cc2_initial n) = fst (cc_new n size_of usage)" for size_of usage
    by (simp add: cc2_abs_def cc2_initial_def cc_new_def initial_counts_def)
  let ?cs = "replicate n (0 :: nat)"
  have "lefts n ?cs ?xs" using tree_sum_zero [of _ ?cs] by (auto simp: lefts_def nth_append)
  from lefts_add [OF this, of "n - 1" 1] have "lefts n (?cs[n - 1 := 1]) (bubble (n - 1) 1 ?xs)" using assms by simp
  moreover have "?cs[n - 1 := 1] = cnts (bubble (n - 1) 1 ?xs)"
    unfolding bubble_counts using assms by (intro nth_equalityI) (auto simp: nth_append nth_list_update)
  ultimately show "cc2_wf n (cc2_initial n)"
    using cc_new_wf [OF assms] a by (simp add: cc2_wf_def) (simp add: cc2_initial_def)
qed

interpretation cc2_258: conditioning_class 258 "cc2_wf 258" cc2_increment_count cc2_get_range cc2_get_symbol cc2_get_total
  by (rule conditioning_class_kernel_2) simp_all

lemma increment_all_refines:
  "cc2_wf n s \<Longrightarrow> \<forall>(sy, a) \<in> set ops. unat sy < n \<and> unat a < 32768 \<Longrightarrow>
    \<exists>s'. increment_all cc2_increment_count ops s = Inr s' \<and> increment_all increment_count ops (cc2_abs s) = Inr (cc2_abs s') \<and>
      cc2_wf n s'"
proof (induction ops arbitrary: s)
  case (Cons op ops)
  obtain sy a where op: "op = (sy, a)" by (cases op)
  obtain s1 where "cc2_increment_count sy a s = Inr (True, s1)" "increment_count sy a (cc2_abs s) = Inr (True, cc2_abs s1)" "cc2_wf n s1"
    using cc2_increment_refines [of n s sy a] Cons.prems op by auto
  then show ?case using Cons.IH [of s1] Cons.prems(2) op by simp
qed simp

text \<open>
  C10. \<open>conditioning_class_kernel_2\<close>, with its tree of partial sums, is equivalent to the plain
  table of \<open>conditioning_class_kernel_1\<close>: after the same calls of \<open>increment_count\<close>, scaling down
  included, both have the same counts and the same total, and in the tree every \<open>left_count\<close> is the
  sum of the counts in the left subtree, as the class's convention demands.
\<close>

theorem conditioning_class_kernels_equivalent:
  assumes "1 < n" "n < 65536" "\<forall>(sy, a) \<in> set ops. unat sy < n \<and> unat a < 32768"
  shows "\<exists>s2. increment_all cc2_increment_count ops (fst (cc2_new n size2 usage2)) = Inr s2 \<and>
    increment_all increment_count ops (fst (cc_new n size1 usage1)) =
      Inr \<lparr> cc_total = c2_total s2, counts = map symbol_count (symbols s2) \<rparr> \<and>
    (\<forall>k < n. unat (left_count (symbols s2 ! k)) = tree_sum (map (\<lambda>d. unat (symbol_count d)) (symbols s2)) (2 * k + 1))"
proof -
  obtain s2 where s2: "increment_all cc2_increment_count ops (cc2_initial n) = Inr s2"
    "increment_all increment_count ops (cc2_abs (cc2_initial n)) = Inr (cc2_abs s2)" "cc2_wf n s2"
    using increment_all_refines [OF cc2_initial_wf(1) [OF assms(1,2)] assms(3)] by blast
  note w = cc2_wf_simps [OF s2(3)]
  have "unat (left_count (symbols s2 ! k)) = tree_sum (cnts (symbols s2)) (2 * k + 1)" if "k < n" for k
    using lefts_less [OF w(6) that] w(4) u16_less [of "c2_total s2"] by simp
  then show ?thesis using s2(1,2) cc2_initial_wf(2) [OF assms(1,2), of size1 usage1] by (simp add: cc2_new_def cc2_abs_def)
qed

theorem conditioning_class_kernels_equivalent_witness:
  "\<exists>s2. increment_all cc2_increment_count [(0, 32767), (2, 32767), (1, 2)] (fst (cc2_new 3 8 0)) = Inr s2 \<and>
    increment_all increment_count [(0, 32767), (2, 32767), (1, 2)] (fst (cc_new 3 8 0)) =
      Inr \<lparr> cc_total = c2_total s2, counts = map symbol_count (symbols s2) \<rparr> \<and>
    (\<forall>k < 3. unat (left_count (symbols s2 ! k)) = tree_sum (map (\<lambda>d. unat (symbol_count d)) (symbols s2)) (2 * k + 1))"
  by (rule conditioning_class_kernels_equivalent) simp_all

text \<open>
  \<open>get_range\<close> and \<open>get_symbol\<close> of \<open>conditioning_class_kernel_2\<close> fit together: in a well-formed
  state every number below the total lies in the range of exactly one symbol, and \<open>get_symbol\<close>
  returns that symbol and its range.
\<close>

theorem conditioning_class_2_ranges:
  assumes "cc2_wf n s" "t < cc2_get_total s"
  shows "\<exists>!sy. unat sy < n \<and> (\<exists>c lo hi. cc2_get_range sy s = Inr (c, Some (lo, hi, cc2_get_total s)) \<and> lo \<le> t \<and> t < hi \<and>
    cc2_get_symbol t s = Inr (sy, lo, hi))"
proof -
  have n: "1 < n" "n < 65536" using cc2_wf_simps [OF assms(1)] by auto
  note k2 = conditioning_class_kernel_2 [OF n]
  show ?thesis using conditioning_class.ranges_partition [OF k2 assms] conditioning_class.symbol_ok [OF k2 assms]
    by (metis (no_types, lifting))
qed

theorem conditioning_class_2_ranges_witness:
  "\<exists>!sy. unat sy < 3 \<and> (\<exists>c lo hi. cc2_get_range sy (cc2_initial 3) = Inr (c, Some (lo, hi, cc2_get_total (cc2_initial 3))) \<and>
    lo \<le> 0 \<and> 0 < hi \<and> cc2_get_symbol 0 (cc2_initial 3) = Inr (sy, lo, hi))"
proof (rule conditioning_class_2_ranges)
  show "cc2_wf 3 (cc2_initial 3)" by (rule cc2_initial_wf(1)) simp_all
  show "0 < cc2_get_total (cc2_initial 3)" by (simp add: cc2_get_total_def cc2_initial_def)
qed

end
