(* ===== verification/Range_Coder.thy ===== *)
theory Range_Coder
  imports Entropy_Coder
begin

text \<open>
  The range coder of dlib: \<open>entropy_encoder_kernel_2\<close> and \<open>entropy_decoder_kernel_2\<close> (the \<open>.h\<close> and
  \<open>.cpp\<close> files in \<open>src/dlib-minimal/lib/dlib/entropy_encoder\<close> and \<open>entropy_decoder\<close>).  The interval
  \<open>[low, high]\<close> is a pair of 32-bit words, as in the code.  The loops that roll bytes off run until
  the interval is wide enough; they are partial functions, and that they end is proved below.
\<close>

subsection \<open>The encoder\<close>

record encoder =
  e_low :: u32
  e_high :: u32
  e_out :: "ostream option"

definition initial_low :: u32 where "initial_low = 0x00000001"

definition initial_high :: u32 where "initial_high = 0xffffffff"

definition enc_new :: encoder where
  "enc_new = \<lparr> e_low = initial_low, e_high = initial_high, e_out = None \<rparr>"

definition flush_bytes :: "u32 \<Rightarrow> u8 list" where
  "flush_bytes low = [ucast (drop_bit 24 low AND 0xFF), ucast (drop_bit 16 low AND 0xFF),
     ucast (drop_bit 8 low AND 0xFF), ucast (low AND 0xFF)]"

text \<open>Bytes written one after the other; the flag says whether a write failed.\<close>

fun put_all :: "u8 list \<Rightarrow> ostream \<Rightarrow> bool \<times> ostream" where
  "put_all [] out = (False, out)"
| "put_all (b # bs) out = (case sputc b out of None \<Rightarrow> (True, out) | Some out' \<Rightarrow> put_all bs out')"

text \<open>\<open>flush\<close> to the stream \<open>out\<close>; the flag says whether it threw.\<close>

definition enc_flush :: "ostream \<Rightarrow> encoder \<Rightarrow> bool \<times> encoder" where
  "enc_flush out s =
    (case put_all (flush_bytes (e_low s)) out of (threw, out') \<Rightarrow>
       if threw then (True, s \<lparr> e_out := Some out' \<rparr>)
       else (False, \<lparr> e_low = initial_low, e_high = initial_high, e_out = Some out' \<rparr>))"

text \<open>The destructor swallows the exception; what is left is the stream.\<close>

definition enc_delete :: "encoder \<Rightarrow> ostream option" where
  "enc_delete s = (case e_out s of None \<Rightarrow> None | Some out \<Rightarrow> e_out (snd (enc_flush out s)))"

text \<open>The stream that is given up comes with the new state.\<close>

definition enc_clear :: "encoder \<Rightarrow> bool \<times> ostream option \<times> encoder" where
  "enc_clear s =
    (case e_out s of
       None \<Rightarrow> (False, None, s)
     | Some out \<Rightarrow> (case enc_flush out s of (threw, s') \<Rightarrow>
         if threw then (True, e_out s', s') else (False, e_out s', s' \<lparr> e_out := None \<rparr>)))"

definition enc_set_stream :: "ostream \<Rightarrow> encoder \<Rightarrow> bool \<times> ostream option \<times> encoder" where
  "enc_set_stream out s =
    (case (case e_out s of None \<Rightarrow> (False, s) | Some old \<Rightarrow> enc_flush old s) of (threw, s') \<Rightarrow>
       if threw then (True, e_out s', s')
       else (False, e_out s', \<lparr> e_low = initial_low, e_high = initial_high, e_out = Some out \<rparr>))"

definition enc_stream_is_set :: "encoder \<Rightarrow> bool" where
  "enc_stream_is_set s \<longleftrightarrow> e_out s \<noteq> None"

definition enc_get_stream :: "encoder \<Rightarrow> ostream c" where
  "enc_get_stream s = (case e_out s of None \<Rightarrow> Inl Null_Deref | Some out \<Rightarrow> Inr out)"

partial_function (option) encode_loop :: "encoder \<Rightarrow> encoder io" where
  "encode_loop s =
    (if e_high s AND 0xFF000000 \<noteq> e_low s AND 0xFF000000 then
       if e_high s - e_low s < 0x10000 then
         let mid = drop_bit 1 (e_high s) + drop_bit 1 (e_low s) in
         if e_high s - e_low s > 0x1000
         then encode_loop (s \<lparr> e_low := mid - 0xFF, e_high := mid + 0xFF \<rparr>)
         else encode_loop (s \<lparr> e_low := mid, e_high := mid \<rparr>)
       else Some (Inr s)
     else case e_out s of
       None \<Rightarrow> Some (Inl (Ub Uninitialised))
     | Some out \<Rightarrow> (case sputc (ucast (drop_bit 24 (e_low s))) out of
         None \<Rightarrow> Some (Inl Write_Failure)
       | Some out' \<Rightarrow>
           let low = push_bit 8 (e_low s) in
           encode_loop \<lparr> e_low = (if low = 0 then 1 else low), e_high = push_bit 8 (e_high s) OR 0xFF,
             e_out = Some out' \<rparr>))"

definition encode :: "u32 \<Rightarrow> u32 \<Rightarrow> u32 \<Rightarrow> encoder \<Rightarrow> encoder io" where
  "encode low_count high_count tot s =
    (if tot = 0 then Some (Inl (Ub Div_By_Zero))
     else let r = (e_high s - e_low s + 1) div tot in
       encode_loop (s \<lparr> e_high := e_low s + r * high_count - 1, e_low := e_low s + r * low_count \<rparr>))"

subsection \<open>The decoder\<close>

record decoder =
  d_low :: u32
  d_high :: u32
  d_target :: u32
  d_r :: u32
  d_in :: "u8 list option"

definition dec_new :: decoder where
  "dec_new = \<lparr> d_low = initial_low, d_high = initial_high, d_target = 0, d_r = 0, d_in = None \<rparr>"

definition dec_clear :: "decoder \<Rightarrow> decoder" where
  "dec_clear s = \<lparr> d_low = initial_low, d_high = initial_high, d_target = 0, d_r = 0, d_in = None \<rparr>"

text \<open>One more byte of \<open>target\<close>, when there is one.\<close>

definition shift_target :: "u32 \<times> u8 list \<Rightarrow> u32 \<times> u8 list" where
  "shift_target = (\<lambda>(target, input).
    case sgetc input of
      (None, rest) \<Rightarrow> (push_bit 8 target, rest)
    | (Some ch, rest) \<Rightarrow> (push_bit 8 target + ucast ch, rest))"

text \<open>\<open>ch0\<close> is the value of the uninitialised \<open>ch\<close>, which the first read may leave as it is.\<close>

definition dec_set_stream :: "u8 \<Rightarrow> u8 list \<Rightarrow> decoder \<Rightarrow> decoder" where
  "dec_set_stream ch0 input s =
    (case sgetc input of (ch, rest) \<Rightarrow>
     case shift_target (shift_target (shift_target (ucast (case ch of None \<Rightarrow> ch0 | Some b \<Rightarrow> b), rest))) of (target, rest) \<Rightarrow>
       \<lparr> d_low = initial_low, d_high = initial_high, d_target = target, d_r = 0, d_in = Some rest \<rparr>)"

definition dec_stream_is_set :: "decoder \<Rightarrow> bool" where
  "dec_stream_is_set s \<longleftrightarrow> d_in s \<noteq> None"

definition dec_get_stream :: "decoder \<Rightarrow> u8 list c" where
  "dec_get_stream s = (case d_in s of None \<Rightarrow> Inl Null_Deref | Some input \<Rightarrow> Inr input)"

partial_function (option) decode_loop :: "decoder \<Rightarrow> decoder io" where
  "decode_loop s =
    (if d_high s AND 0xFF000000 \<noteq> d_low s AND 0xFF000000 then
       if d_high s - d_low s < 0x10000 then
         let mid = drop_bit 1 (d_high s) + drop_bit 1 (d_low s) in
         if d_high s - d_low s > 0x1000
         then decode_loop (s \<lparr> d_low := mid - 0xFF, d_high := mid + 0xFF \<rparr>)
         else decode_loop (s \<lparr> d_low := mid, d_high := mid \<rparr>)
       else Some (Inr s)
     else case d_in s of
       None \<Rightarrow> Some (Inl (Ub Uninitialised))
     | Some input \<Rightarrow> (case sgetc input of (ch, rest) \<Rightarrow>
         let buf = (case ch of None \<Rightarrow> 0 | Some b \<Rightarrow> b); low = push_bit 8 (d_low s) in
         decode_loop (s \<lparr> d_low := (if low = 0 then 1 else low), d_high := push_bit 8 (d_high s) OR 0xFF,
           d_target := push_bit 8 (d_target s) OR ucast buf, d_in := Some rest \<rparr>)))"

definition decode :: "u32 \<Rightarrow> u32 \<Rightarrow> decoder \<Rightarrow> decoder io" where
  "decode low_count high_count s =
    decode_loop (s \<lparr> d_high := d_low s + d_r s * high_count - 1, d_low := d_low s + d_r s * low_count, d_r := 0 \<rparr>)"

definition get_target_called :: "decoder \<Rightarrow> bool" where
  "get_target_called s \<longleftrightarrow> d_r s \<noteq> 0"

definition get_target :: "u32 \<Rightarrow> decoder \<Rightarrow> (u32 \<times> decoder) c" where
  "get_target tot s =
    (if tot = 0 then Inl Div_By_Zero
     else let r = (d_high s - d_low s + 1) div tot in
       if r = 0 then Inl Div_By_Zero
       else let temp = (d_target s - d_low s) div r in
         Inr (if temp < tot then temp else tot - 1, s \<lparr> d_r := r \<rparr>))"

subsection \<open>The interval as natural numbers\<close>

lemma top_byte_eq:
  fixes h l :: u32
  shows "h AND 0xFF000000 = l AND 0xFF000000 \<longleftrightarrow> unat h div 2 ^ 24 = unat l div 2 ^ 24"
proof -
  have m: "(0xFF000000 :: u32) = NOT (mask 24)" by (simp add: mask_eq_exp_minus_1)
  have "h AND NOT (mask 24) = l AND NOT (mask 24) \<longleftrightarrow> drop_bit 24 h = drop_bit 24 l"
  proof
    assume "h AND NOT (mask 24) = l AND NOT (mask 24)"
    then have "drop_bit 24 (h AND NOT (mask 24)) = drop_bit 24 (l AND NOT (mask 24))" by simp
    then have "bit (drop_bit 24 (h AND NOT (mask 24))) n = bit (drop_bit 24 (l AND NOT (mask 24))) n" for n
      by simp
    then have "(bit h (24 + n) \<and> n < 8) = (bit l (24 + n) \<and> n < 8)" for n by (simp add: bit_simps)
    note b = this
    show "drop_bit 24 h = drop_bit 24 l"
    proof (rule bit_eqI)
      fix n show "bit (drop_bit 24 h) n = bit (drop_bit 24 l) n"
        using b [of n] by (cases "n < 8") (auto simp: bit_drop_bit_eq)
    qed
  next
    assume a: "drop_bit 24 h = drop_bit 24 l"
    have "bit h n = bit l n" if "24 \<le> n" for n
    proof -
      have "bit (drop_bit 24 h) (n - 24) = bit (drop_bit 24 l) (n - 24)" using a by simp
      then show ?thesis using that by (simp add: bit_drop_bit_eq)
    qed
    then show "h AND NOT (mask 24) = l AND NOT (mask 24)" by (intro bit_eqI) (auto simp: bit_simps)
  qed
  also have "\<dots> \<longleftrightarrow> unat h div 2 ^ 24 = unat l div 2 ^ 24"
    unfolding word_unat_eq_iff [of "drop_bit 24 h"] unat_drop_bit_eq by (simp add: drop_bit_eq_div)
  finally show ?thesis unfolding m .
qed

lemma unat_shift_8: "unat (push_bit 8 (w :: u32)) = (unat w mod 2 ^ 24) * 256"
proof -
  have "unat (push_bit 8 w) = (unat w * 2 ^ 8) mod 2 ^ 32"
    unfolding unsigned_push_bit_eq push_bit_eq_mult [of 8 "unat w"] take_bit_eq_mod [of _ "unat w * 2 ^ 8"] by simp
  then show ?thesis using mult_mod_right [of "2 ^ 8" "unat w" "2 ^ 24"] by (simp add: mult.commute)
qed

lemma unat_shift_8_or:
  fixes b :: u32
  assumes "unat b < 256"
  shows "unat (push_bit 8 w OR b) = (unat w mod 2 ^ 24) * 256 + unat b"
proof -
  have b: "take_bit 8 b = b"
    unfolding word_unat_eq_iff unsigned_take_bit_eq take_bit_eq_mod [of 8 "unat b"] using assms by simp
  have "push_bit 8 w AND b = push_bit 8 w AND take_bit 8 b" by (simp add: b)
  also have "\<dots> = 0" by (rule bit_eqI) (auto simp: bit_simps)
  finally have "push_bit 8 w + b = push_bit 8 w OR b" by (rule disjunctive_add_eq_or)
  moreover have "unat (push_bit 8 w) + unat b < 2 ^ 32" using assms unfolding unat_shift_8 by simp
  then have "unat (push_bit 8 w + b) = unat (push_bit 8 w) + unat b" by (simp add: unat_word_ariths)
  ultimately show ?thesis by (simp add: unat_shift_8)
qed

lemma unat_top_byte: "unat (ucast (drop_bit 24 (w :: u32)) :: u8) = unat w div 2 ^ 24"
proof -
  have "unat w < 2 ^ 32" using unsigned_less [of w, where 'a = nat] by simp
  then have "unat w div 2 ^ 24 < 256" by simp
  then show ?thesis
    unfolding unsigned_ucast_eq unat_drop_bit_eq drop_bit_eq_div [of 24 "unat w"] take_bit_eq_mod by simp
qed

subsection \<open>Renormalisation\<close>

text \<open>
  What both loops do to the interval, with the bytes rolled off: they stop when the interval is
  wide, squeeze it when it is narrow and straddles a boundary, and roll a byte off otherwise.
\<close>

definition wide :: "u32 \<Rightarrow> u32 \<Rightarrow> bool" where
  "wide low high \<longleftrightarrow> high AND 0xFF000000 \<noteq> low AND 0xFF000000 \<and> \<not> high - low < 0x10000"

definition squeezed :: "u32 \<Rightarrow> u32 \<Rightarrow> u32 \<times> u32" where
  "squeezed low high =
    (let mid = drop_bit 1 high + drop_bit 1 low
     in if high - low > 0x1000 then (mid - 0xFF, mid + 0xFF) else (mid, mid))"

definition rolled :: "u32 \<Rightarrow> u32 \<Rightarrow> u32 \<times> u32" where
  "rolled low high =
    (let low' = push_bit 8 low in (if low' = 0 then 1 else low', push_bit 8 high OR 0xFF))"

inductive renorm :: "u32 \<Rightarrow> u32 \<Rightarrow> u8 list \<Rightarrow> u32 \<Rightarrow> u32 \<Rightarrow> bool" where
  stop: "wide low high \<Longrightarrow> renorm low high [] low high"
| squeeze: "high AND 0xFF000000 \<noteq> low AND 0xFF000000 \<Longrightarrow> high - low < 0x10000 \<Longrightarrow>
    squeezed low high = (low1, high1) \<Longrightarrow> renorm low1 high1 bs low' high' \<Longrightarrow> renorm low high bs low' high'"
| roll: "high AND 0xFF000000 = low AND 0xFF000000 \<Longrightarrow> rolled low high = (low1, high1) \<Longrightarrow>
    renorm low1 high1 bs low' high' \<Longrightarrow>
    renorm low high (ucast (drop_bit 24 low) # bs) low' high'"

lemma encode_loop_renorm:
  assumes "renorm low high bs low' high'" "room out = None"
  shows "encode_loop \<lparr> e_low = low, e_high = high, e_out = Some out \<rparr> =
    Some (Inr \<lparr> e_low = low', e_high = high', e_out = Some (out \<lparr> written := written out @ bs \<rparr>) \<rparr>)"
  using assms
proof (induction arbitrary: out rule: renorm.induct)
  case (stop low high)
  then show ?case by (subst encode_loop.simps) (auto simp: wide_def)
next
  case (squeeze high low low1 high1 bs low' high')
  then show ?case by (subst encode_loop.simps) (auto simp: squeezed_def Let_def split: if_splits)
next
  case (roll high low low1 high1 bs low' high')
  then show ?case by (subst encode_loop.simps) (auto simp: rolled_def Let_def)
qed

text \<open>The streams that may follow: their first four bytes lie in the interval.\<close>

definition admits :: "u32 \<Rightarrow> u32 \<Rightarrow> u8 list \<Rightarrow> bool" where
  "admits low high rest \<longleftrightarrow> unat low \<le> code rest \<and> code rest \<le> unat high"

lemma u32_less: "unat (w :: u32) < 2 ^ 32"
  using unsigned_less [of w, where 'a = nat] by simp

lemma rolled_unat:
  assumes "rolled low high = (low1, high1)"
  shows "unat low1 = max 1 ((unat low mod 2 ^ 24) * 256)" "unat high1 = (unat high mod 2 ^ 24) * 256 + 255"
proof -
  have l: "low1 = (if push_bit 8 low = 0 then 1 else push_bit 8 low)" "high1 = push_bit 8 high OR 0xFF"
    using assms by (auto simp: rolled_def Let_def)
  have "unat (push_bit 8 low) = 0 \<longleftrightarrow> push_bit 8 low = 0" by (simp add: unat_eq_0)
  then show "unat low1 = max 1 ((unat low mod 2 ^ 24) * 256)" using l(1) unat_shift_8 [of low] by auto
  show "unat high1 = (unat high mod 2 ^ 24) * 256 + 255" using unat_shift_8_or [of "0xFF" high] l(2) by simp
qed

lemma admits_rolled:
  assumes "rolled low high = (low1, high1)" "unat high div 2 ^ 24 = unat low div 2 ^ 24" "admits low1 high1 rest"
  shows "admits low high (ucast (drop_bit 24 low) # rest)"
proof -
  let ?t = "unat low div 2 ^ 24"
  have w: "(unat low mod 2 ^ 24) * 256 \<le> code rest" "code rest \<le> (unat high mod 2 ^ 24) * 256 + 255"
    using assms(3) rolled_unat [OF assms(1)] by (simp_all add: admits_def)
  then have "unat low mod 2 ^ 24 \<le> code rest div 256" "code rest div 256 \<le> unat high mod 2 ^ 24" by simp_all
  moreover have "unat low = ?t * 2 ^ 24 + unat low mod 2 ^ 24" "unat high = ?t * 2 ^ 24 + unat high mod 2 ^ 24"
    using assms(2) div_mult_mod_eq [of "unat low" "2 ^ 24"] div_mult_mod_eq [of "unat high" "2 ^ 24"] by simp_all
  moreover have "code (ucast (drop_bit 24 low) # rest) = ?t * 2 ^ 24 + code rest div 256"
    unfolding code_Cons unat_top_byte ..
  ultimately show ?thesis unfolding admits_def by linarith
qed

lemma unat_diff: "low \<le> high \<Longrightarrow> unat (high - low :: u32) = unat high - unat low"
  by (simp add: unat_sub)

text \<open>A squeezed interval lies inside the old one.\<close>

lemma unat_mid:
  assumes "unat low < unat (high :: u32)"
  shows "unat (drop_bit 1 high + drop_bit 1 low) = unat high div 2 + unat low div 2"
proof -
  have "unat (drop_bit 1 w) = unat w div 2" for w :: u32
    unfolding unat_drop_bit_eq drop_bit_eq_div [of 1 "unat w"] by simp
  moreover have "unat high div 2 + unat low div 2 < 2 ^ 32" using assms u32_less [of high] by linarith
  ultimately show ?thesis by (simp add: unat_word_ariths)
qed

lemma squeezed_unat:
  assumes "unat low < unat high" "squeezed low high = (low1, high1)"
  defines "m \<equiv> unat high div 2 + unat low div 2"
  shows "if unat high - unat low > 0x1000 then unat low1 = m - 0xFF \<and> unat high1 = m + 0xFF
    else unat low1 = m \<and> unat high1 = m"
proof -
  let ?m = "drop_bit 1 high + drop_bit 1 low"
  have m: "unat ?m = m" using unat_mid [OF assms(1)] by (simp add: m_def)
  have d: "unat (high - low) = unat high - unat low" using assms(1) by (intro unat_diff) (simp add: word_le_nat_alt)
  have gt: "high - low > 0x1000 \<longleftrightarrow> unat high - unat low > 0x1000" by (simp add: word_less_nat_alt d)
  show ?thesis
  proof (cases "unat high - unat low > 0x1000")
    case True
    then have b: "0xFF \<le> m" "m + 0xFF < 2 ^ 32" using u32_less [of high] unfolding m_def by linarith+
    have "unat (?m - 0xFF) = m - 0xFF" using b(1) m by (subst unat_sub) (simp_all add: word_le_nat_alt)
    moreover have "unat (?m + 0xFF) = m + 0xFF" using b(2) m by (simp add: unat_word_ariths)
    ultimately show ?thesis using True gt assms(2) by (auto simp: squeezed_def Let_def)
  next
    case False
    then show ?thesis using gt assms(2) m by (auto simp: squeezed_def Let_def)
  qed
qed

lemma squeezed_inside:
  assumes "unat low < unat high" "squeezed low high = (low1, high1)"
  shows "unat low \<le> unat low1 \<and> unat low1 \<le> unat high1 \<and> unat high1 \<le> unat high"
proof (cases "unat high - unat low > 0x1000")
  case True
  then show ?thesis using squeezed_unat [OF assms] by (simp only: if_True) linarith
next
  case False
  then show ?thesis using squeezed_unat [OF assms] assms(1) by (simp only: if_False) linarith
qed

lemma rolled_inside:
  assumes "unat low \<le> unat high" "unat high div 2 ^ 24 = unat low div 2 ^ 24" "rolled low high = (low1, high1)"
  shows "unat low1 \<le> unat high1" "1 \<le> unat low1"
    "256 * (unat high - unat low) + 254 \<le> unat high1 - unat low1"
proof -
  have "unat low div 2 ^ 24 * 2 ^ 24 + unat high mod 2 ^ 24 = unat high"
    using div_mult_mod_eq [of "unat high" "2 ^ 24"] unfolding assms(2) .
  then have "unat low mod 2 ^ 24 \<le> unat high mod 2 ^ 24" "unat high - unat low = unat high mod 2 ^ 24 - unat low mod 2 ^ 24"
    using assms(1) div_mult_mod_eq [of "unat low" "2 ^ 24"] by linarith+
  moreover have "max 1 (a * 256) \<le> b * 256 + 255 \<and> 256 * (b - a) + 254 \<le> b * 256 + 255 - max 1 (a * 256)"
    if "a \<le> b" for a b :: nat using that by (cases a) auto
  ultimately show "unat low1 \<le> unat high1" "1 \<le> unat low1"
    "256 * (unat high - unat low) + 254 \<le> unat high1 - unat low1"
    unfolding rolled_unat [OF assms(3)] by (simp_all only: max.cobounded1)
qed

lemma renorm_laws:
  assumes "renorm low high bs low' high'" "unat low \<le> unat high" "1 \<le> unat low"
  shows "1 \<le> unat low' \<and> unat low' + 0x10000 \<le> unat high' \<and>
    (\<forall>rest. admits low' high' rest \<longrightarrow> admits low high (bs @ rest))"
  using assms
proof (induction rule: renorm.induct)
  case (stop low high)
  then have "unat (high - low) = unat high - unat low" by (intro unat_diff) (simp add: word_le_nat_alt)
  then have "\<not> unat high - unat low < 0x10000" using stop.hyps by (simp add: wide_def word_less_nat_alt)
  then show ?case using stop.prems by simp
next
  case (squeeze high low low1 high1 bs low' high')
  have "unat low < unat high" using squeeze.prems(1) squeeze.hyps(1) by (cases "low = high") (auto simp: word_unat_eq_iff)
  from squeezed_inside [OF this squeeze.hyps(3)] show ?case
    using squeeze.IH squeeze.prems(2) by (auto simp: admits_def)
next
  case (roll high low low1 high1 bs low' high')
  have t: "unat high div 2 ^ 24 = unat low div 2 ^ 24" using roll.hyps(1) by (simp only: top_byte_eq)
  note r = rolled_inside [OF roll.prems(1) t roll.hyps(2)]
  show ?case using roll.IH [OF r(1,2)] admits_rolled [OF roll.hyps(2) t] by simp
qed

text \<open>The decoder rolls the same bytes off; its \<open>target\<close> is the head of what is left of the stream.\<close>

lemma decode_loop_renorm:
  assumes "renorm low high bs low' high'"
  shows "decode_loop \<lparr> d_low = low, d_high = high, d_target = of_nat (code (bs @ rest)), d_r = r, d_in = Some (drop 4 (bs @ rest)) \<rparr> =
    Some (Inr \<lparr> d_low = low', d_high = high', d_target = of_nat (code rest), d_r = r, d_in = Some (drop 4 rest) \<rparr>)"
  using assms
proof (induction rule: renorm.induct)
  case (stop low high)
  then show ?case by (subst decode_loop.simps) (auto simp: wide_def)
next
  case (squeeze high low low1 high1 bs low' high')
  then show ?case by (subst decode_loop.simps) (auto simp: squeezed_def Let_def split: if_splits)
next
  case (roll high low low1 high1 bs low' high')
  define R where "R = bs @ rest"
  let ?b = "ucast (drop_bit 24 low) :: u8"
  let ?buf = "case fst (sgetc (drop 3 R)) of None \<Rightarrow> 0 | Some b \<Rightarrow> b"
  have u: "unat (of_nat (code xs) :: u32) = code xs" for xs using code_less [of xs] by (simp add: unat_of_nat)
  have buf: "unat ?buf = byte_at R 3" by (rule byte_of_sgetc)
  have "unat (push_bit 8 (of_nat (code (?b # R)) :: u32) OR ucast ?buf) = unat (of_nat (code R) :: u32)"
  proof -
    have c: "unat (ucast ?buf :: u32) = byte_at R 3"
      using byte_at_less [of R 3] by (simp add: buf unsigned_ucast_eq take_bit_eq_mod)
    have "code R div 256 < 2 ^ 24" using code_less [of R] by simp
    then have m: "code (?b # R) mod 2 ^ 24 = code R div 256" unfolding code_Cons by simp
    have "unat (push_bit 8 (of_nat (code (?b # R)) :: u32) OR ucast ?buf) =
        (code (?b # R) mod 2 ^ 24) * 256 + byte_at R 3"
      using unat_shift_8_or [of "ucast ?buf" "of_nat (code (?b # R))"] byte_at_less [of R 3]
      unfolding c u by simp
    also have "\<dots> = code R" unfolding m code_split(2) [symmetric] by simp
    finally show ?thesis unfolding u .
  qed
  then have tg: "push_bit 8 (of_nat (code (?b # R)) :: u32) OR ucast ?buf = of_nat (code R)"
    by (simp only: word_unat_eq_iff)
  have dr: "drop 4 (?b # R) = drop 3 R" by (simp add: numeral_eq_Suc)
  obtain ch where g: "sgetc (drop 3 R) = (ch, drop 4 R)" by (simp add: sgetc_drop numeral_eq_Suc)
  show ?case using roll.hyps(1,2) roll.IH tg g dr unfolding R_def [symmetric] append_Cons
    by (subst decode_loop.simps) (simp add: rolled_def Let_def)
qed

subsection \<open>The loops end\<close>

abbreviation renorms :: "u32 \<Rightarrow> u32 \<Rightarrow> bool" where
  "renorms low high \<equiv> \<exists>bs low' high'. renorm low high bs low' high'"

lemma renorms_roll:
  assumes "unat high div 2 ^ 24 = unat low div 2 ^ 24"
    "\<And>low1 high1. rolled low high = (low1, high1) \<Longrightarrow> renorms low1 high1"
  shows "renorms low high"
  using assms(2) renorm.roll assms(1) unfolding top_byte_eq [symmetric] by (metis surj_pair)

lemma renorms_squeeze:
  assumes "unat high div 2 ^ 24 \<noteq> unat low div 2 ^ 24" "unat low \<le> unat high" "unat high - unat low < 0x10000"
    "\<And>low1 high1. squeezed low high = (low1, high1) \<Longrightarrow> renorms low1 high1"
  shows "renorms low high"
proof -
  have "high - low < 0x10000" using assms(2,3) unat_diff [of low high] by (simp add: word_le_nat_alt word_less_nat_alt)
  then show ?thesis using assms(1,4) renorm.squeeze unfolding top_byte_eq [symmetric] by (metis surj_pair)
qed

lemma renorms_wide:
  assumes "unat low + 0x10000 \<le> unat high"
  shows "renorms low high"
  using assms
proof (induction "2 ^ 32 - (unat high - unat low)" arbitrary: low high rule: less_induct)
  case less
  show ?case
  proof (cases "unat high div 2 ^ 24 = unat low div 2 ^ 24")
    case True
    show ?thesis
    proof (rule renorms_roll [OF True])
      fix low1 high1 assume r: "rolled low high = (low1, high1)"
      have "unat low \<le> unat high" using less.prems by simp
      note i = rolled_inside [OF this True r]
      have "unat high1 < 2 ^ 32" by (rule u32_less)
      then have "2 ^ 32 - (unat high1 - unat low1) < 2 ^ 32 - (unat high - unat low)" "unat low1 + 0x10000 \<le> unat high1"
        using i(1,3) less.prems by linarith+
      then show "renorms low1 high1" by (rule less.hyps)
    qed
  next
    case False
    have "unat (high - low) = unat high - unat low" using less.prems by (intro unat_diff) (simp add: word_le_nat_alt)
    then have "wide low high" using False less.prems
      unfolding wide_def top_byte_eq by (simp add: word_less_nat_alt)
    then show ?thesis using renorm.stop by blast
  qed
qed

text \<open>An interval that is one point grows to all numbers with the same head, three times.\<close>

definition aligned :: "nat \<Rightarrow> u32 \<Rightarrow> u32 \<Rightarrow> bool" where
  "aligned j low high \<longleftrightarrow> (\<exists>x c. unat low = x * 2 ^ j + c \<and> c * 256 \<le> 2 ^ j \<and> unat high = x * 2 ^ j + (2 ^ j - 1))"

lemma aligned_split:
  assumes "aligned j low high" "j \<le> 24"
  obtains q y c where "unat low = q * 2 ^ 24 + (y * 2 ^ j + c)" "unat high = q * 2 ^ 24 + (y * 2 ^ j + (2 ^ j - 1))"
    "y * 2 ^ j + (2 ^ j - 1) < 2 ^ 24" "c * 256 \<le> 2 ^ j"
proof -
  obtain x c where x: "unat low = x * 2 ^ j + c" "c * 256 \<le> 2 ^ j" "unat high = x * 2 ^ j + (2 ^ j - 1)"
    using assms(1) by (auto simp: aligned_def)
  let ?q = "x div 2 ^ (24 - j)" and ?y = "x mod 2 ^ (24 - j)"
  have p: "(2 :: nat) ^ (24 - j) * 2 ^ j = 2 ^ 24" using assms(2) by (simp flip: power_add)
  have "x * 2 ^ j = (?q * 2 ^ (24 - j) + ?y) * 2 ^ j" unfolding div_mult_mod_eq ..
  also have "\<dots> = ?q * 2 ^ 24 + ?y * 2 ^ j" unfolding add_mult_distrib mult.assoc p ..
  finally have xj: "x * 2 ^ j = ?q * 2 ^ 24 + ?y * 2 ^ j" .
  have "?y + 1 \<le> 2 ^ (24 - j)" by (simp add: Suc_leI)
  then have "(?y + 1) * 2 ^ j \<le> 2 ^ (24 - j) * 2 ^ j" by (rule mult_le_mono1)
  then have "?y * 2 ^ j + 2 ^ j \<le> 2 ^ 24" unfolding p by simp
  moreover have "(0 :: nat) < 2 ^ j" by simp
  ultimately have "?y * 2 ^ j + (2 ^ j - 1) < 2 ^ 24" by linarith
  then show thesis using that [of ?q ?y c] x xj by linarith
qed

lemma aligned_roll:
  assumes "aligned j low high" "j \<le> 24"
  shows "unat high div 2 ^ 24 = unat low div 2 ^ 24"
    "rolled low high = (low1, high1) \<Longrightarrow> aligned (j + 8) low1 high1"
proof -
  obtain q y c where s: "unat low = q * 2 ^ 24 + (y * 2 ^ j + c)" "unat high = q * 2 ^ 24 + (y * 2 ^ j + (2 ^ j - 1))"
    "y * 2 ^ j + (2 ^ j - 1) < 2 ^ 24" "c * 256 \<le> 2 ^ j" using aligned_split [OF assms] .
  have one: "(1 :: nat) \<le> 2 ^ j" by simp
  have lt: "y * 2 ^ j + c < 2 ^ 24" using s(3,4) one by linarith
  have dm: "(q * 2 ^ 24 + z) div 2 ^ 24 = q" "(q * 2 ^ 24 + z) mod 2 ^ 24 = z" if "z < 2 ^ 24" for z :: nat
    using that by simp_all
  show t: "unat high div 2 ^ 24 = unat low div 2 ^ 24" unfolding s(1,2) dm(1) [OF s(3)] dm(1) [OF lt] ..
  assume r: "rolled low high = (low1, high1)"
  have l: "unat low1 = max 1 ((y * 2 ^ j + c) * 256)" and h: "unat high1 = (y * 2 ^ j + (2 ^ j - 1)) * 256 + 255"
    using rolled_unat [OF r] unfolding s(1,2) dm(2) [OF s(3)] dm(2) [OF lt] by simp_all
  have p: "(2 :: nat) ^ (j + 8) = 2 ^ j * 256" by (simp add: power_add)
  have "unat high1 = y * 2 ^ (j + 8) + (2 ^ (j + 8) - 1)" unfolding h p add_mult_distrib mult.assoc using one by linarith
  moreover have "\<exists>c'. unat low1 = y * 2 ^ (j + 8) + c' \<and> c' * 256 \<le> 2 ^ (j + 8)"
  proof (cases "y * 2 ^ j + c = 0")
    case True
    then show ?thesis using l by (intro exI [of _ 1]) (simp add: p)
  next
    case False
    then have "1 \<le> y * 2 ^ j + c" by (simp only: One_nat_def Suc_le_eq neq0_conv)
    then have "1 * 1 \<le> (y * 2 ^ j + c) * 256" by (intro mult_le_mono) simp_all
    then have "1 \<le> (y * 2 ^ j + c) * 256" by (simp only: mult_1)
    then have "unat low1 = y * 2 ^ (j + 8) + c * 256" unfolding l p by (simp add: max_absorb2 algebra_simps)
    then show ?thesis using s(4) by (intro exI [of _ "c * 256"]) (simp add: p)
  qed
  ultimately show "aligned (j + 8) low1 high1" unfolding aligned_def by blast
qed

lemma renorms_aligned:
  assumes "aligned 24 low high"
  shows "renorms low high"
proof -
  obtain x c where "unat low = x * 2 ^ 24 + c" "c * 256 \<le> 2 ^ 24" "unat high = x * 2 ^ 24 + (2 ^ 24 - 1)"
    using assms by (auto simp: aligned_def)
  then show ?thesis by (intro renorms_wide) simp
qed

lemma renorms_point: "renorms low low"
proof -
  have up: "renorms l h" if "aligned j l h" "j \<le> 24" "\<And>l1 h1. aligned (j + 8) l1 h1 \<Longrightarrow> renorms l1 h1" for j l h
    using renorms_roll [OF aligned_roll(1) [OF that(1,2)]] aligned_roll(2) [OF that(1,2)] that(3) by blast
  have a16: "renorms l h" if "aligned 16 l h" for l h using up [OF that] renorms_aligned by simp
  have a8: "renorms l h" if "aligned 8 l h" for l h using up [OF that] a16 by simp
  have "aligned 0 low low" by (simp add: aligned_def)
  then show ?thesis using up [of 0 low low] a8 by simp
qed

lemma renorms_narrow:
  assumes "unat low \<le> unat high" "unat high div 2 ^ 24 \<noteq> unat low div 2 ^ 24" "unat high - unat low < 0x10000"
  shows "renorms low high"
proof (rule renorms_squeeze [OF assms(2,1,3)])
  fix low1 high1 assume sq: "squeezed low high = (low1, high1)"
  have lt: "unat l < unat h" if "unat l \<le> unat h" "unat h div 2 ^ 24 \<noteq> unat l div 2 ^ 24" for l h :: u32
    using that by (metis le_neq_implies_less)
  have pt: "(low2 :: u32) = high2" if "unat l < unat h" "\<not> unat h - unat l > 0x1000" "squeezed l h = (low2, high2)" for l h low2 high2
    using squeezed_unat [OF that(1,3)] that(2) by (simp add: word_unat_eq_iff)
  show "renorms low1 high1"
  proof (cases "unat high - unat low > 0x1000")
    case False
    then show ?thesis using pt [OF lt [OF assms(1,2)] _ sq] renorms_point by simp
  next
    case True
    then have d: "unat low1 \<le> unat high1" "unat high1 - unat low1 = 0x1FE"
      using squeezed_unat [OF lt [OF assms(1,2)] sq] by (simp_all only: if_True)
    show ?thesis
    proof (cases "unat high1 div 2 ^ 24 = unat low1 div 2 ^ 24")
      case True
      show ?thesis
      proof (rule renorms_roll [OF True])
        fix low2 high2 assume "rolled low1 high1 = (low2, high2)"
        from rolled_inside [OF d(1) True this] d(2) show "renorms low2 high2" by (intro renorms_wide) linarith
      qed
    next
      case False
      show ?thesis
      proof (rule renorms_squeeze [OF False d(1)])
        show "unat high1 - unat low1 < 0x10000" using d(2) by simp
        fix low2 high2 assume "squeezed low1 high1 = (low2, high2)"
        then show "renorms low2 high2" using pt [OF lt [OF d(1) False]] d(2) renorms_point by simp
      qed
    qed
  qed
qed

lemma renorm_total:
  assumes "unat low \<le> unat high"
  shows "renorms low high"
  using assms
proof (induction "2 ^ 32 - (unat high - unat low)" arbitrary: low high rule: less_induct)
  case less
  show ?case
  proof (cases "unat high div 2 ^ 24 = unat low div 2 ^ 24")
    case True
    show ?thesis
    proof (rule renorms_roll [OF True])
      fix low1 high1 assume r: "rolled low high = (low1, high1)"
      note i = rolled_inside [OF less.prems True r]
      have "unat high1 < 2 ^ 32" by (rule u32_less)
      then have "2 ^ 32 - (unat high1 - unat low1) < 2 ^ 32 - (unat high - unat low)"
        using i(1,3) less.prems by linarith
      then show "renorms low1 high1" using i(1) by (rule less.hyps)
    qed
  next
    case False
    show ?thesis
    proof (cases "unat high - unat low < 0x10000")
      case True
      then show ?thesis using renorms_narrow [OF less.prems False] by blast
    next
      case wide: False
      then show ?thesis by (intro renorms_wide) linarith
    qed
  qed
qed

subsection \<open>One symbol\<close>

text \<open>The interval that \<open>encode\<close> and \<open>decode\<close> hand to their loops.\<close>

lemma narrowed:
  fixes low high lc hc tot :: u32
  assumes "1 \<le> unat low" "unat low + 0x10000 \<le> unat high" "lc < hc" "hc \<le> tot" "tot < 65536"
  defines "r \<equiv> (high - low + 1) div tot"
  shows "unat r = (unat high - unat low + 1) div unat tot" "1 \<le> unat r"
    "unat (low + r * lc) = unat low + unat r * unat lc"
    "unat (low + r * hc - 1) = unat low + unat r * unat hc - 1"
    "unat r * unat lc + unat r \<le> unat r * unat hc" "unat low + unat r * unat hc - 1 \<le> unat high"
proof -
  have le: "unat (high - low) = unat high - unat low" using assms(2) by (intro unat_diff) (simp add: word_le_nat_alt)
  have t: "0 < unat tot" "unat tot < 65536" "unat lc < unat hc" "unat hc \<le> unat tot"
    using assms(3-5) by (simp_all add: word_less_nat_alt word_le_nat_alt)
  have w: "unat (high - low + 1) = unat high - unat low + 1"
    using le u32_less [of high] assms(1) by (simp add: unat_word_ariths)
  then show r: "unat r = (unat high - unat low + 1) div unat tot" by (simp add: r_def unat_div)
  have "unat tot * 1 \<le> unat high - unat low + 1" using t(2) assms(2) by linarith
  then show one: "1 \<le> unat r" unfolding r using t(1) by (simp add: less_eq_div_iff_mult_less_eq)
  have rt: "unat r * unat tot \<le> unat high - unat low + 1" unfolding r by (rule div_times_less_eq_dividend)
  have rh: "unat r * unat hc \<le> unat r * unat tot" using t(4) by simp
  have "unat r * (unat lc + 1) \<le> unat r * unat hc" using t(3) by (intro mult_le_mono2) simp
  then show rl: "unat r * unat lc + unat r \<le> unat r * unat hc" by (simp add: algebra_simps)
  show top: "unat low + unat r * unat hc - 1 \<le> unat high" using rt rh assms(2) by linarith
  have b: "unat low + unat r * unat hc < 2 ^ 32 + 1" "unat r * unat hc < 2 ^ 32" "unat r * unat lc < 2 ^ 32"
    using top u32_less [of high] one rl assms(1) by linarith+
  have mul: "unat (r * hc) = unat r * unat hc" "unat (r * lc) = unat r * unat lc"
    using b(2,3) by (simp_all add: unat_word_ariths)
  show "unat (low + r * lc) = unat low + unat r * unat lc"
    using mul rl top one u32_less [of high] by (simp add: unat_word_ariths)
  have "unat (low - 1) = unat low - 1" using assms(1) by (subst unat_sub) (simp_all add: word_le_nat_alt)
  then have "unat (low - 1 + r * hc) = unat low - 1 + unat r * unat hc"
    using mul(1) b(1) assms(1) by (simp add: unat_word_ariths)
  then show "unat (low + r * hc - 1) = unat low + unat r * unat hc - 1" using assms(1) by (simp add: algebra_simps)
qed

lemma narrowed_inside:
  fixes low high lc hc tot :: u32
  assumes "1 \<le> unat low" "unat low + 0x10000 \<le> unat high" "lc < hc" "hc \<le> tot" "tot < 65536"
  defines "r \<equiv> (high - low + 1) div tot"
  shows "unat (low + r * lc) \<le> unat (low + r * hc - 1)" "1 \<le> unat (low + r * lc)"
    "admits (low + r * lc) (low + r * hc - 1) rest \<Longrightarrow> admits low high rest"
proof -
  note n = narrowed [OF assms(1-5), folded r_def]
  show "unat (low + r * lc) \<le> unat (low + r * hc - 1)" "1 \<le> unat (low + r * lc)"
    unfolding n(3,4) using n(2,5) assms(1) by linarith+
  show "admits (low + r * lc) (low + r * hc - 1) rest \<Longrightarrow> admits low high rest"
    unfolding admits_def n(3,4) using n(6) by linarith
qed

definition enc_ready :: "encoder \<Rightarrow> bool" where
  "enc_ready e \<longleftrightarrow> 1 \<le> unat (e_low e) \<and> unat (e_low e) + 0x10000 \<le> unat (e_high e) \<and>
    (\<exists>out. e_out e = Some out \<and> room out = None)"

definition enc_sent :: "encoder \<Rightarrow> u8 list" where
  "enc_sent e = (case e_out e of None \<Rightarrow> [] | Some out \<Rightarrow> written out)"

definition enc_admits :: "encoder \<Rightarrow> u8 list \<Rightarrow> bool" where
  "enc_admits e = admits (e_low e) (e_high e)"

definition in_step :: "encoder \<Rightarrow> u8 list \<Rightarrow> decoder \<Rightarrow> bool" where
  "in_step e rest d \<longleftrightarrow> d_low d = e_low e \<and> d_high d = e_high e \<and> d_target d = of_nat (code rest) \<and>
    d_in d = Some (drop 4 rest)"

definition dec_sound :: "decoder \<Rightarrow> bool" where
  "dec_sound d \<longleftrightarrow> 1 \<le> unat (d_low d) \<and> unat (d_low d) + 0x10000 \<le> unat (d_high d) \<and> d_in d \<noteq> None"

lemma encode_law:
  assumes "enc_ready e" "interval_ok (lc, hc, tot)"
  defines "r \<equiv> (e_high e - e_low e + 1) div tot"
  shows "\<exists>e' bs. encode lc hc tot e = Some (Inr e') \<and> enc_ready e' \<and> enc_sent e' = enc_sent e @ bs \<and>
    renorm (e_low e + r * lc) (e_low e + r * hc - 1) bs (e_low e') (e_high e')"
proof -
  obtain low high out where e: "e = \<lparr> e_low = low, e_high = high, e_out = Some out \<rparr>"
    "1 \<le> unat low" "unat low + 0x10000 \<le> unat high" "room out = None"
    using assms(1) by (cases e) (auto simp: enc_ready_def)
  have i: "lc < hc" "hc \<le> tot" "tot < 65536" "tot \<noteq> 0" using assms(2) by (auto simp: word_less_nat_alt word_le_nat_alt)
  let ?l = "low + r * lc" and ?h = "low + r * hc - 1"
  have le: "unat ?l \<le> unat ?h" "1 \<le> unat ?l" using narrowed_inside [OF e(2,3) i(1-3)] e(1) by (simp_all add: r_def)
  obtain bs low' high' where rn: "renorm ?l ?h bs low' high'" using renorm_total [OF le(1)] by blast
  let ?e = "\<lparr> e_low = low', e_high = high', e_out = Some (out \<lparr> written := written out @ bs \<rparr>) \<rparr>"
  have "encode lc hc tot e = Some (Inr ?e)"
    using encode_loop_renorm [OF rn e(4)] i(4) by (simp add: encode_def r_def e(1) Let_def)
  moreover have "enc_ready ?e" using renorm_laws [OF rn le] e(4) by (simp add: enc_ready_def)
  ultimately show ?thesis using rn by (intro exI [of _ ?e] exI [of _ bs]) (simp add: enc_sent_def e(1))
qed

text \<open>A code inside the narrowed interval has its target between the counts.\<close>

lemma target_between:
  fixes low high lc hc tot :: u32
  assumes "1 \<le> unat low" "unat low + 0x10000 \<le> unat high" "lc < hc" "hc \<le> tot" "tot < 65536"
  defines "r \<equiv> (high - low + 1) div tot"
  assumes "unat (low + r * lc) \<le> T" "T \<le> unat (low + r * hc - 1)"
  shows "lc \<le> (of_nat T - low) div r" "(of_nat T - low) div r < hc" "r \<noteq> 0"
proof -
  note n = narrowed [OF assms(1-5), folded r_def]
  let ?L = "unat low"
  have "T < 2 ^ 32" using assms(8) u32_less [of "low + r * hc - 1"] by linarith
  then have T: "unat (of_nat T :: u32) = T" by (simp add: unat_of_nat)
  have b: "?L + unat r * unat lc \<le> T" "T \<le> ?L + unat r * unat hc - 1" using assms(7,8) n(3,4) by simp_all
  have "unat (of_nat T - low :: u32) = T - ?L" using b(1) T by (subst unat_sub) (simp_all add: word_le_nat_alt)
  then have t: "unat ((of_nat T - low) div r) = (T - ?L) div unat r" by (simp add: unat_div)
  have "unat lc \<le> (T - ?L) div unat r" using b(1) n(2) by (simp add: less_eq_div_iff_mult_less_eq mult.commute)
  moreover have "(T - ?L) div unat r < unat hc"
    using b(2) n(2,5) assms(1) by (simp add: div_less_iff_less_mult mult.commute)
  ultimately show "lc \<le> (of_nat T - low) div r" "(of_nat T - low) div r < hc"
    by (simp_all add: word_less_nat_alt word_le_nat_alt t)
  show "r \<noteq> 0" using n(2) by auto
qed

lemma get_target_law:
  assumes "in_step e (bs @ rest) d" "enc_ready e" "interval_ok (lc, hc, tot)"
  defines "r \<equiv> (e_high e - e_low e + 1) div tot"
  assumes "admits (e_low e + r * lc) (e_low e + r * hc - 1) (bs @ rest)"
  shows "\<exists>t. get_target tot d = Inr (t, d \<lparr> d_r := r \<rparr>) \<and> lc \<le> t \<and> t < hc"
proof -
  have i: "lc < hc" "hc \<le> tot" "tot < 65536" "tot \<noteq> 0" using assms(3) by (auto simp: word_less_nat_alt word_le_nat_alt)
  have e: "1 \<le> unat (e_low e)" "unat (e_low e) + 0x10000 \<le> unat (e_high e)" using assms(2) by (simp_all add: enc_ready_def)
  note t = target_between [OF e i(1-3), folded r_def, of "code (bs @ rest)"]
  show ?thesis using t assms(5) i(2,4) assms(1) by (auto simp: get_target_def Let_def in_step_def r_def admits_def)
qed

lemma decode_law:
  assumes "in_step e (bs @ rest) d"
    "renorm (e_low e + r * lc) (e_low e + r * hc - 1) bs (e_low e') (e_high e')"
  shows "\<exists>d'. decode lc hc (d \<lparr> d_r := r \<rparr>) = Some (Inr d') \<and> in_step e' rest d'"
  using decode_loop_renorm [OF assms(2), of rest 0] assms(1)
  by (cases d) (auto simp: decode_def in_step_def)

lemma bytes_of_nat:
  assumes "n < (2 :: nat) ^ 32"
  shows "n = (n div 2 ^ 24 mod 256) * 2 ^ 24 + (n div 2 ^ 16 mod 256) * 2 ^ 16 + (n div 2 ^ 8 mod 256) * 2 ^ 8 + n mod 256"
proof -
  let ?a = "n div 256" and ?b = "n div 256 div 256" and ?c = "n div 256 div 256 div 256"
  have horner: "((c * 256 + b) * 256 + a) * 256 + d = c * 2 ^ 24 + b * 2 ^ 16 + a * 2 ^ 8 + d" for a b c d :: nat
    by simp
  have d: "n div 2 ^ 8 = ?a" "n div 2 ^ 16 = ?b" "n div 2 ^ 24 = ?c" by (simp_all add: div_mult2_eq [symmetric])
  have "?c < 256" using assms by (simp add: div_mult2_eq [symmetric])
  then have c: "?c mod 256 = ?c" by simp
  have "n = ((?c * 256 + ?b mod 256) * 256 + ?a mod 256) * 256 + n mod 256" unfolding div_mult_mod_eq ..
  then show ?thesis unfolding d c horner [symmetric] .
qed

lemma code_flush: "code (flush_bytes low @ extra) = unat low"
proof -
  have u: "unat (ucast (w AND 0xFF :: u32) :: u8) = unat w mod 256" for w :: u32
  proof -
    have "w AND 0xFF = take_bit 8 w" by (simp add: take_bit_eq_mask mask_eq_exp_minus_1)
    then have "unat (w AND 0xFF) = unat w mod 256"
      by (simp only: unsigned_take_bit_eq take_bit_eq_mod [of 8 "unat w"]) simp
    then show ?thesis by (simp add: unsigned_ucast_eq take_bit_eq_mod)
  qed
  have d: "unat (drop_bit n low) = unat low div 2 ^ n" for n
    unfolding unat_drop_bit_eq drop_bit_eq_div [of n "unat low"] ..
  have "unat low = (unat low div 2 ^ 24 mod 256) * 2 ^ 24 + (unat low div 2 ^ 16 mod 256) * 2 ^ 16 +
      (unat low div 2 ^ 8 mod 256) * 2 ^ 8 + unat low mod 256"
    using bytes_of_nat [OF u32_less [of low]] .
  then show ?thesis
    by (simp add: code_def flush_bytes_def byte_at_def u d numeral_2_eq_2 numeral_3_eq_3)
qed

lemma put_all_unlimited:
  "room out = None \<Longrightarrow> put_all bs out = (False, out \<lparr> written := written out @ bs \<rparr>)"
  by (induction bs arbitrary: out) simp_all

lemma length_flush_bytes: "length (flush_bytes low) = 4"
  by (simp add: flush_bytes_def)

lemma enc_delete_law:
  assumes "enc_ready e"
  shows "\<exists>out. enc_delete e = Some out \<and> written out = enc_sent e @ flush_bytes (e_low e)"
  using assms by (auto simp: enc_ready_def enc_delete_def enc_flush_def enc_sent_def put_all_unlimited)

lemma decode_loop_total:
  assumes "renorm low high bs low' high'" "d_low d = low" "d_high d = high" "d_in d \<noteq> None"
  shows "\<exists>d'. decode_loop d = Some (Inr d') \<and> d_low d' = low' \<and> d_high d' = high' \<and> d_in d' \<noteq> None"
  using assms
proof (induction arbitrary: d rule: renorm.induct)
  case (stop low high)
  then show ?case by (subst decode_loop.simps) (auto simp: wide_def)
next
  case (squeeze high low low1 high1 bs low' high')
  then show ?case
    by (subst decode_loop.simps) (auto simp: squeezed_def Let_def split: if_splits)
next
  case (roll high low low1 high1 bs low' high')
  obtain input where "d_in d = Some input" using roll.prems by auto
  then show ?case using roll
    by (subst decode_loop.simps) (auto simp: rolled_def Let_def split: prod.splits)
qed

lemma dec_sound_law:
  assumes "dec_sound d" "0 < tot" "tot < 65536"
  shows "\<exists>t d1. get_target tot d = Inr (t, d1) \<and> t < tot \<and>
    (\<forall>lc hc. lc < hc \<longrightarrow> hc \<le> tot \<longrightarrow> (\<exists>d2. decode lc hc d1 = Some (Inr d2) \<and> dec_sound d2))"
proof -
  let ?r = "(d_high d - d_low d + 1) div tot" and ?t = "(d_target d - d_low d) div ((d_high d - d_low d + 1) div tot)"
  have s: "1 \<le> unat (d_low d)" "unat (d_low d) + 0x10000 \<le> unat (d_high d)" "d_in d \<noteq> None"
    using assms(1) by (auto simp: dec_sound_def)
  have "1 \<le> unat ?r" using narrowed(2) [OF s(1,2), of 0 tot tot] assms(2,3) by simp
  then have "?r \<noteq> 0" by auto
  moreover have "tot \<noteq> 0" "tot - 1 < tot" using assms(2) by (auto simp: word_less_nat_alt unat_sub word_le_nat_alt)
  ultimately have t: "get_target tot d = Inr (if ?t < tot then ?t else tot - 1, d \<lparr> d_r := ?r \<rparr>)"
    "(if ?t < tot then ?t else tot - 1) < tot" by (simp_all add: get_target_def Let_def)
  have "\<exists>d2. decode lc hc (d \<lparr> d_r := ?r \<rparr>) = Some (Inr d2) \<and> dec_sound d2" if i: "lc < hc" "hc \<le> tot" for lc hc
  proof -
    let ?l = "d_low d + ?r * lc" and ?h = "d_low d + ?r * hc - 1"
    have le: "unat ?l \<le> unat ?h" "1 \<le> unat ?l" using narrowed_inside [OF s(1,2) i assms(3)] by simp_all
    obtain bs low' high' where rn: "renorm ?l ?h bs low' high'" using renorm_total [OF le(1)] by blast
    show ?thesis
      using decode_loop_total [OF rn, of "d \<lparr> d_high := ?h, d_low := ?l, d_r := 0 \<rparr>"] renorm_laws [OF rn le] s(3)
      by (auto simp: decode_def dec_sound_def)
  qed
  then show ?thesis using t by blast
qed

interpretation range_coder: entropy_coder encode enc_delete get_target decode enc_ready enc_sent enc_admits in_step dec_sound d_in
proof unfold_locales
  fix e lc hc tot assume p: "enc_ready e" "interval_ok (lc, hc, tot)"
  let ?r = "(e_high e - e_low e + 1) div tot"
  obtain e' bs where e': "encode lc hc tot e = Some (Inr e')" "enc_ready e'" "enc_sent e' = enc_sent e @ bs"
    "renorm (e_low e + ?r * lc) (e_low e + ?r * hc - 1) bs (e_low e') (e_high e')"
    using encode_law [OF p] by blast
  have i: "1 \<le> unat (e_low e)" "unat (e_low e) + 0x10000 \<le> unat (e_high e)" "lc < hc" "hc \<le> tot" "tot < 65536"
    using p by (auto simp: enc_ready_def)
  note n = narrowed_inside [OF i]
  have a: "admits (e_low e + ?r * lc) (e_low e + ?r * hc - 1) (bs @ rest)" "enc_admits e (bs @ rest)"
    if "enc_admits e' rest" for rest
  proof -
    show "admits (e_low e + ?r * lc) (e_low e + ?r * hc - 1) (bs @ rest)"
      using renorm_laws [OF e'(4) n(1,2)] that by (simp add: enc_admits_def)
    then show "enc_admits e (bs @ rest)" unfolding enc_admits_def by (rule n(3))
  qed
  show "\<exists>e' bs. encode lc hc tot e = Some (Inr e') \<and> enc_ready e' \<and> enc_sent e' = enc_sent e @ bs \<and>
      (\<forall>rest. enc_admits e' rest \<longrightarrow> enc_admits e (bs @ rest)) \<and>
      (\<forall>rest d. enc_admits e' rest \<longrightarrow> in_step e (bs @ rest) d \<longrightarrow>
        (\<exists>t d1 d2. get_target tot d = Inr (t, d1) \<and> lc \<le> t \<and> t < hc \<and>
          decode lc hc d1 = Some (Inr d2) \<and> in_step e' rest d2))"
    using e'(1-3) a get_target_law [OF _ p] decode_law [OF _ e'(4)] by (intro exI [of _ e'] exI [of _ bs]) blast
next
  fix e assume e: "enc_ready e"
  then show "\<exists>out bs. enc_delete e = Some out \<and> written out = enc_sent e @ bs \<and> bs \<noteq> [] \<and>
      (\<forall>extra. enc_admits e (bs @ extra)) \<and> (\<forall>extra d. in_step e (bs @ extra) d \<longrightarrow> d_in d = Some extra)"
    using enc_delete_law [OF e]
    by (auto simp: enc_admits_def admits_def code_flush enc_ready_def in_step_def length_flush_bytes simp flip: length_greater_0_conv)
next
  fix d tot assume "dec_sound d" "0 < tot" "tot < (65536 :: u32)"
  then show "\<exists>t d1. get_target tot d = Inr (t, d1) \<and> t < tot \<and>
      (\<forall>lc hc. lc < hc \<longrightarrow> hc \<le> tot \<longrightarrow> (\<exists>d2. decode lc hc d1 = Some (Inr d2) \<and> dec_sound d2))"
    by (rule dec_sound_law)
qed

subsection \<open>From the first symbol to the last\<close>

abbreviation enc_start :: "ostream \<Rightarrow> encoder" where
  "enc_start out \<equiv> snd (snd (enc_set_stream out enc_new))"

lemma enc_start_ready:
  assumes "room out = None"
  shows "enc_ready (enc_start out)" "enc_sent (enc_start out) = written out"
  using assms by (simp_all add: enc_ready_def enc_sent_def enc_set_stream_def enc_new_def initial_low_def initial_high_def)

lemma shift_in_of_nat:
  "shift_target (of_nat n, drop k bs) = (of_nat (n * 256 + byte_at bs k), drop (Suc k) bs)"
proof -
  have "push_bit 8 (of_nat n :: u32) = of_nat (n * 256)" by (simp add: push_bit_eq_mult)
  then show ?thesis by (simp add: shift_target_def sgetc_drop byte_at_def unsigned_ucast_eq)
qed

lemma dec_start_in_step:
  assumes "input \<noteq> []"
  shows "in_step (enc_start out) input (dec_set_stream ch0 input s)"
proof -
  obtain b bs where i: "input = b # bs" using assms by (cases input) auto
  have "(ucast b :: u32, bs) = (of_nat (unat b), drop 0 bs)" by simp
  moreover have "drop (Suc (Suc (Suc 0))) bs = drop 3 bs" "byte_at bs (Suc 0) = byte_at bs 1" "byte_at bs (Suc (Suc 0)) = byte_at bs 2"
    by (simp_all add: numeral_2_eq_2 numeral_3_eq_3)
  ultimately have "shift_target (shift_target (shift_target (ucast b, bs))) =
      (of_nat (((unat b * 256 + byte_at bs 0) * 256 + byte_at bs 1) * 256 + byte_at bs 2), drop 3 bs)"
    by (simp only: shift_in_of_nat)
  moreover have "((unat b * 256 + byte_at bs 0) * 256 + byte_at bs 1) * 256 + byte_at bs 2 = code input"
    unfolding i code_Cons code_split by simp
  ultimately have "shift_target (shift_target (shift_target (ucast b, bs))) = (of_nat (code input), drop 3 bs)" by (simp only:)
  then show ?thesis
    by (simp add: in_step_def dec_set_stream_def enc_set_stream_def enc_new_def i)
qed

text \<open>
  C3. Range coding is lossless: whatever the intervals are, the bytes that the encoder has
  written when it is destroyed make the decoder return, for every symbol in turn, a target inside
  the interval that was encoded.  No loop runs for ever, no division is by zero, and the decoder
  has then read exactly the encoder's bytes: what follows them in the stream is untouched.
\<close>

theorem range_coder_roundtrip:
  assumes "list_all interval_ok is" "room out = None" "written out = []"
  shows "\<exists>e out'. encode_all encode is (enc_start out) = Some (Inr e) \<and> enc_delete e = Some out' \<and>
    (\<forall>extra. \<exists>ts d. decode_all get_target decode is (dec_set_stream ch0 (written out' @ extra) dec_new) = Some (Inr (ts, d)) \<and>
      list_all2 (\<lambda>(lc, hc, tot) t. lc \<le> t \<and> t < hc) is ts \<and> d_in d = Some extra)"
proof -
  note start = enc_start_ready [OF assms(2)]
  obtain e bs where e: "encode_all encode is (enc_start out) = Some (Inr e)"
    "range_coder.delivers (enc_start out) bs e (range_coder.finds_all is)"
    using range_coder.encode_all_delivers [OF start(1) assms(1)] by blast
  obtain out' fl where out': "enc_delete e = Some out'" "written out' = bs @ fl" "fl \<noteq> []"
    "\<forall>extra d. in_step (enc_start out) ((bs @ fl) @ extra) d \<longrightarrow> (\<exists>d'. range_coder.finds_all is d d' \<and> d_in d' = Some extra)"
    using range_coder.delivers_finish [OF e(2)] start(2) assms(3) by auto
  have "in_step (enc_start out) ((bs @ fl) @ extra) (dec_set_stream ch0 ((bs @ fl) @ extra) dec_new)" for extra
    using out'(3) by (intro dec_start_in_step) simp
  then show ?thesis using e(1) out' unfolding range_coder.finds_all_def by (metis (no_types, lifting))
qed

definition sample_intervals :: "interval list" where
  "sample_intervals = [(1, 2, 4), (0, 1, 65535)]"

theorem range_coder_roundtrip_witness:
  "\<exists>e out'. encode_all encode sample_intervals (enc_start \<lparr> written = [], room = None \<rparr>) = Some (Inr e) \<and>
    enc_delete e = Some out' \<and>
    (\<forall>extra. \<exists>ts d. decode_all get_target decode sample_intervals (dec_set_stream 0 (written out' @ extra) dec_new) =
      Some (Inr (ts, d)) \<and> list_all2 (\<lambda>(lc, hc, tot) t. lc \<le> t \<and> t < hc) sample_intervals ts \<and> d_in d = Some extra)"
  by (rule range_coder_roundtrip) (simp_all add: sample_intervals_def)

end
