(* ===== verification/Crc32.thy ===== *)
theory Crc32
  imports Prelude
begin

text \<open>
  The model of \<open>src/dlib-minimal/lib/dlib/crc32/crc32_kernel_1.h\<close>.  \<open>unsigned long\<close> is a 64-bit
  word.  The table-driven update is compared with a register that takes one bit at a time, and that with
  the definition of CRC-32, the remainder of a division of polynomials.
\<close>

record crc32 =
  checksum :: u64
  table :: "u64 list"

text \<open>The inner loop of the constructor: one bit of a table entry.\<close>

definition crc_bit :: "u64 \<Rightarrow> u64" where
  "crc_bit temp = (if temp AND 1 \<noteq> 0 then drop_bit 1 temp XOR 0xedb88320 else drop_bit 1 temp)"

definition crc_entry :: "u64 \<Rightarrow> u64" where
  "crc_entry i = (crc_bit ^^ 8) i"

definition crc_new :: crc32 where
  "crc_new = \<lparr> checksum = 0xFFFFFFFF, table = map (\<lambda>i. crc_entry (of_nat i)) [0..<256] \<rparr>"

definition crc_clear :: "crc32 \<Rightarrow> crc32" where
  "crc_clear s = s \<lparr> checksum := 0xFFFFFFFF \<rparr>"

definition crc_add :: "u8 \<Rightarrow> crc32 \<Rightarrow> crc32" where
  "crc_add item s = s \<lparr> checksum :=
     drop_bit 8 (checksum s) XOR table s ! unat ((checksum s XOR ucast item) AND 0xFF) \<rparr>"

text \<open>The characters of a string are signed: they are extended to \<open>unsigned long\<close> with their sign.\<close>

definition crc_add_string :: "u8 list \<Rightarrow> crc32 \<Rightarrow> crc32" where
  "crc_add_string item s = fold (\<lambda>c s. s \<lparr> checksum :=
     drop_bit 8 (checksum s) XOR table s ! unat ((checksum s XOR scast c) AND 0xFF) \<rparr>) item s"

definition crc_get_checksum :: "crc32 \<Rightarrow> u64" where
  "crc_get_checksum s = checksum s XOR 0xFFFFFFFF"

text \<open>\<open>swap\<close> exchanges the checksums; the tables are the same.\<close>

definition crc_swap :: "crc32 \<Rightarrow> crc32 \<Rightarrow> crc32 \<times> crc32" where
  "crc_swap s item = (s \<lparr> checksum := checksum item \<rparr>, item \<lparr> checksum := checksum s \<rparr>)"

subsection \<open>The shift register\<close>

lemma and_1_bit: "(w :: u64) AND 1 \<noteq> 0 \<longleftrightarrow> bit w 0"
  by (simp add: and_one_eq bit_0 odd_iff_mod_2_eq_one)

lemma bit_crc_bit: "bit (crc_bit x) n \<longleftrightarrow> bit x (Suc n) \<noteq> (bit x 0 \<and> bit (0xedb88320 :: u64) n)"
  by (simp only: crc_bit_def and_1_bit) (simp add: bit_xor_iff bit_drop_bit_eq)

lemma crc_bit_xor: "crc_bit (x XOR y) = crc_bit x XOR crc_bit y"
  by (rule bit_eqI) (simp only: bit_crc_bit bit_xor_iff, blast)

lemma crc_bits_xor: "(crc_bit ^^ n) (x XOR y) = (crc_bit ^^ n) x XOR (crc_bit ^^ n) y"
  by (induction n) (simp_all add: crc_bit_xor)

lemma crc_bits_high:
  assumes "\<And>i. i < n \<Longrightarrow> \<not> bit x i"
  shows "(crc_bit ^^ n) x = drop_bit n x"
  using assms
proof (induction n)
  case (Suc n)
  have "(crc_bit ^^ n) x = drop_bit n x" using Suc by simp
  moreover have "crc_bit (drop_bit n x) = drop_bit (Suc n) x"
    using Suc.prems [of n] by (intro bit_eqI) (simp add: bit_crc_bit bit_drop_bit_eq)
  ultimately show ?case by simp
qed simp

text \<open>Eight steps of the register shift its upper part and look the lower byte up.\<close>

lemma bit_u64_drop_8: "bit (x :: u64) (8 + n) \<Longrightarrow> n < 56"
  using bit_imp_le_length [of x "8 + n"] by simp

lemma crc_byte: "(crc_bit ^^ 8) x = drop_bit 8 x XOR crc_entry (x AND 0xFF)"
proof -
  let ?h = "x AND NOT (mask 8)"
  have m: "(0xFF :: u64) = mask 8" by (simp add: mask_eq_exp_minus_1)
  have "x = ?h XOR (x AND mask 8)" by (rule bit_eqI) (auto simp: bit_simps)
  then have "(crc_bit ^^ 8) x = (crc_bit ^^ 8) ?h XOR (crc_bit ^^ 8) (x AND mask 8)" by (metis crc_bits_xor)
  also have "(crc_bit ^^ 8) ?h = drop_bit 8 ?h" by (rule crc_bits_high) (simp add: bit_simps)
  also have "drop_bit 8 ?h = drop_bit 8 x" by (rule bit_eqI) (auto simp: bit_simps dest: bit_u64_drop_8)
  finally show ?thesis by (simp add: crc_entry_def m)
qed

subsection \<open>The object\<close>

text \<open>The convention of the class; the register has 32 bits.\<close>

definition fits32 :: "u64 \<Rightarrow> bool" where
  "fits32 x \<longleftrightarrow> (\<forall>n \<ge> 32. \<not> bit x n)"

definition crc_inv :: "crc32 \<Rightarrow> bool" where
  "crc_inv s \<longleftrightarrow> table s = table crc_new \<and> fits32 (checksum s)"

lemma fits32_numeral: "take_bit 32 x = x \<Longrightarrow> fits32 x"
  by (metis bit_take_bit_iff fits32_def not_less)

lemma crc_table_nth:
  assumes "table s = table crc_new"
  shows "table s ! unat (x AND 0xFF) = crc_entry (x AND 0xFF)"
proof -
  have "x AND 0xFF \<le> 0xFF" using word_and_le1 [of x "0xFF"] by simp
  then have "unat (x AND 0xFF) < 256" by (simp add: word_le_nat_alt)
  then show ?thesis using assms by (simp add: crc_new_def)
qed

lemma bit_u8_ge: "bit (b :: u8) n \<Longrightarrow> n < 8"
  using bit_imp_le_length [of b n] by simp

lemma crc_add_checksum:
  assumes "crc_inv s"
  shows "checksum (crc_add b s) = (crc_bit ^^ 8) (checksum s XOR ucast b)"
proof -
  have "drop_bit 8 (checksum s XOR ucast b) = drop_bit 8 (checksum s)"
    by (rule bit_eqI) (auto simp: bit_simps dest: bit_u8_ge)
  then show ?thesis using assms crc_table_nth [of s] by (simp add: crc_inv_def crc_add_def crc_byte)
qed

lemma crc_bit_32:
  assumes "fits32 x"
  shows "fits32 (crc_bit x)" "bit (crc_bit x) 31 = bit x 0"
proof -
  have p: "fits32 0xedb88320" "bit (0xedb88320 :: u64) 31" by (simp_all add: fits32_numeral)
  then show "fits32 (crc_bit x)" using assms unfolding fits32_def bit_crc_bit by auto
  show "bit (crc_bit x) 31 = bit x 0" using assms p(2) unfolding bit_crc_bit fits32_def by simp
qed

text \<open>Because the top bit of the polynomial is set, a step of the register can be undone.\<close>

lemma crc_bit_inj:
  assumes "fits32 x" "fits32 y" "crc_bit x = crc_bit y"
  shows "x = y"
proof (rule bit_eqI)
  fix n
  have z: "bit x 0 = bit y 0" using crc_bit_32(2) [OF assms(1)] crc_bit_32(2) [OF assms(2)] assms(3) by simp
  show "bit x n = bit y n"
  proof (cases n)
    case 0
    then show ?thesis using z by simp
  next
    case (Suc m)
    have "bit (crc_bit x) m = bit (crc_bit y) m" using assms(3) by simp
    then show ?thesis using z Suc by (auto simp: bit_crc_bit)
  qed
qed

lemma crc_bits_32: "fits32 x \<Longrightarrow> fits32 ((crc_bit ^^ n) x)"
  by (induction n) (simp_all add: crc_bit_32)

lemma crc_bits_inj:
  "fits32 x \<Longrightarrow> fits32 y \<Longrightarrow> (crc_bit ^^ n) x = (crc_bit ^^ n) y \<Longrightarrow> x = y"
proof (induction n)
  case (Suc n)
  have "(crc_bit ^^ n) x = (crc_bit ^^ n) y"
    using crc_bit_inj [OF crc_bits_32 crc_bits_32] Suc.prems by simp
  then show ?case using Suc by blast
qed simp

lemma crc_xor_byte_32: "fits32 x \<Longrightarrow> fits32 (x XOR ucast (b :: u8))"
  unfolding fits32_def by (auto simp: bit_simps dest: bit_u8_ge)

lemma xor_cancel:
  fixes a b c :: u64
  shows "a XOR b = a XOR c \<longleftrightarrow> b = c" "b XOR a = c XOR a \<longleftrightarrow> b = c"
  by (auto simp: bit_eq_iff bit_xor_iff)

lemma crc_add_inv: "crc_inv s \<Longrightarrow> crc_inv (crc_add b s)"
  using crc_add_checksum [of s b] crc_bits_32 [OF crc_xor_byte_32, of "checksum s" 8 b]
  by (simp add: crc_inv_def) (simp add: crc_add_def)

lemma crc_new_inv: "crc_inv crc_new"
  by (simp add: crc_inv_def crc_new_def fits32_numeral)

lemma fold_crc_add_inv: "crc_inv s \<Longrightarrow> crc_inv (fold crc_add bs s)"
  by (induction bs arbitrary: s) (simp_all add: crc_add_inv)

lemma crc_add_inj:
  assumes "crc_inv s" "crc_inv s'" "checksum (crc_add b s) = checksum (crc_add b' s')"
  shows "checksum s XOR ucast b = checksum s' XOR ucast b'"
proof (rule crc_bits_inj)
  show "fits32 (checksum s XOR ucast b)" "fits32 (checksum s' XOR ucast b')"
    using assms(1,2) by (simp_all add: crc_inv_def crc_xor_byte_32)
  show "(crc_bit ^^ 8) (checksum s XOR ucast b) = (crc_bit ^^ 8) (checksum s' XOR ucast b')"
    using assms(3) unfolding crc_add_checksum [OF assms(1)] crc_add_checksum [OF assms(2)] .
qed

lemma fold_crc_add_inj:
  assumes "crc_inv s" "crc_inv s'" "checksum (fold crc_add bs s) = checksum (fold crc_add bs s')"
  shows "checksum s = checksum s'"
  using assms
proof (induction bs arbitrary: s s')
  case (Cons b bs)
  then have "checksum (crc_add b s) = checksum (crc_add b s')" using crc_add_inv by simp
  from crc_add_inj [OF Cons.prems(1,2) this] show ?case by (simp add: xor_cancel)
qed simp

subsection \<open>CRC-32 as a division of polynomials\<close>

text \<open>
  The definition of IEEE 802.3, independent of the code.  Polynomials over the field of two elements are lists
  of coefficients, the highest power first.  The message is the list of its bits, each byte from its lowest bit
  on, followed by 32 zeros, and with its first 32 bits complemented; the checksum is the complement of the
  remainder of the division by the generator, whose first coefficient becomes the lowest bit.
\<close>

definition generator :: "bool list" where
  "generator = map (\<lambda>k. k \<in> {32, 26, 23, 22, 16, 12, 11, 10, 8, 7, 5, 4, 2, 1, 0}) (rev [0..<33 :: nat])"

definition add_poly :: "bool list \<Rightarrow> bool list \<Rightarrow> bool list" where
  "add_poly p q = map2 (\<noteq>) p q"

lemma length_generator: "length generator = 33"
  by (simp add: generator_def)

text \<open>Long division: a leading coefficient 1 is removed with the generator, a leading 0 is dropped.\<close>

function poly_mod :: "bool list \<Rightarrow> bool list" where
  "poly_mod p = (if length p < length generator then p
     else if hd p then poly_mod (tl (add_poly (take (length generator) p) generator @ drop (length generator) p))
     else poly_mod (tl p))"
  by pat_completeness auto
termination
  by (relation "measure length") (auto simp: length_generator add_poly_def)

declare poly_mod.simps [simp del]

definition message_bits :: "u8 list \<Rightarrow> bool list" where
  "message_bits bs = concat (map (\<lambda>b. map (bit b) [0..<8]) bs)"

definition crc32_ieee :: "u8 list \<Rightarrow> u64" where
  "crc32_ieee bs =
    (let m = message_bits bs @ replicate 32 False
     in horner_sum of_bool 2 (map Not (poly_mod (map Not (take 32 m) @ drop 32 m))))"

text \<open>The first 32 coefficients with those of the register \<open>c\<close> added.\<close>

definition register_added :: "u64 \<Rightarrow> bool list \<Rightarrow> bool list" where
  "register_added c m = add_poly (map (bit c) [0..<32]) (take 32 m) @ drop 32 m"

text \<open>The coefficients of the generator below the highest are the bits of the constant in the code.\<close>

lemma generator_constant: "generator = True # map (bit (0xedb88320 :: u64)) [0..<32]"
  by code_simp

lemma nth_register_added:
  assumes "32 \<le> length m" "n < length m"
  shows "register_added c m ! n = (m ! n \<noteq> (n < 32 \<and> bit c n))"
  using assms by (auto simp: register_added_def add_poly_def nth_append)

lemma length_register_added: "32 \<le> length m \<Longrightarrow> length (register_added c m) = length m"
  by (simp add: register_added_def add_poly_def)

lemma divided_once:
  assumes "33 \<le> length p"
  shows "length (tl (add_poly (take 33 p) generator @ drop 33 p)) = length p - 1"
    "n < length p - 1 \<Longrightarrow> tl (add_poly (take 33 p) generator @ drop 33 p) ! n = (p ! Suc n \<noteq> (n < 32 \<and> bit (0xedb88320 :: u64) n))"
  using assms by (auto simp: add_poly_def generator_constant nth_tl nth_append simp del: bit_numeral_word_iff)

lemma poly_mod_step:
  assumes "fits32 c" "32 \<le> length m"
  shows "poly_mod (register_added c (b # m)) = poly_mod (register_added (crc_bit (c XOR of_bool b)) m)"
proof -
  let ?p = "register_added c (b # m)" and ?c = "crc_bit (c XOR of_bool b)"
  let ?q = "tl (add_poly (take 33 ?p) generator @ drop 33 ?p)"
  have l: "length ?p = Suc (length m)" using assms(2) by (simp add: length_register_added)
  have "?p ! 0 = (b \<noteq> bit c 0)" using nth_register_added [of "b # m" 0 c] assms(2) by simp
  then have h: "hd ?p = (b \<noteq> bit c 0)" using l by (metis hd_conv_nth length_0_conv nat.distinct(1))
  have c: "bit ?c n = (bit c (Suc n) \<noteq> ((b \<noteq> bit c 0) \<and> bit (0xedb88320 :: u64) n))" for n
    by (auto simp: bit_crc_bit bit_xor_iff bit_of_bool_iff simp del: bit_numeral_word_iff)
  have n: "?p ! Suc n = (m ! n \<noteq> (n < 31 \<and> bit c (Suc n)))" if "n < length m" for n
    using nth_register_added [of "b # m" "Suc n" c] assms(2) that by simp
  have z: "\<not> bit c 32" using assms(1) by (simp add: fits32_def)
  have r: "register_added ?c m ! n = (?p ! Suc n \<noteq> (n < 32 \<and> (b \<noteq> bit c 0) \<and> bit (0xedb88320 :: u64) n))"
    if "n < length m" for n
    using nth_register_added [OF assms(2) that, of ?c] z c [of n] n [OF that] by (cases "n = 31") (auto simp del: bit_numeral_word_iff)
  have "poly_mod ?p = poly_mod (if hd ?p then ?q else tl ?p)" using l assms(2) by (subst poly_mod.simps) (simp add: length_generator)
  also have "(if hd ?p then ?q else tl ?p) = register_added ?c m"
  proof (rule nth_equalityI)
    show "length (if hd ?p then ?q else tl ?p) = length (register_added ?c m)"
      using l assms(2) divided_once(1) [of ?p] by (simp add: length_register_added)
  next
    fix n assume "n < length (if hd ?p then ?q else tl ?p)"
    then have k: "n < length m" using l divided_once(1) [of ?p] assms(2) by (simp split: if_splits)
    have t: "tl ?p ! n = ?p ! Suc n" using k l by (intro nth_tl) simp
    have "n < length ?p - 1" "33 \<le> length ?p" using k l assms(2) by simp_all
    from divided_once(2) [OF this(2,1)] t r [OF k] h show "(if hd ?p then ?q else tl ?p) ! n = register_added ?c m ! n"
      by (cases "hd ?p") (simp_all only: if_True if_False, blast+)
  qed
  finally show ?thesis .
qed

text \<open>The bits of a byte enter the register one after the other, or all at once.\<close>

lemma push_byte_bit: "n < 8 \<Longrightarrow> drop_bit n (push_bit n (of_bool b)) = (of_bool b :: u64)"
  by (intro bit_eqI) (auto simp: bit_simps)

lemma crc_bits_list:
  assumes "n \<le> 8"
  shows "fold (\<lambda>b c. crc_bit (c XOR of_bool b)) (map (bit (x :: u8)) [0..<n]) c = (crc_bit ^^ n) (c XOR take_bit n (ucast x))"
  using assms
proof (induction n)
  case (Suc n)
  let ?t = "take_bit n (ucast x) :: u64" and ?s = "push_bit n (of_bool (bit x n)) :: u64"
  have s: "take_bit (Suc n) (ucast x) = ?t XOR ?s"
    using Suc.prems by (intro bit_eqI) (auto simp: bit_simps less_Suc_eq)
  have "(crc_bit ^^ n) ?s = of_bool (bit x n)"
    using crc_bits_high [of n ?s] push_byte_bit [of n "bit x n"] Suc.prems by (simp add: bit_push_bit_iff)
  then show ?case using Suc by (simp add: s crc_bits_xor xor.assoc)
qed simp

lemma crc_byte_list: "fold (\<lambda>b c. crc_bit (c XOR of_bool b)) (map (bit x) [0..<8]) c = (crc_bit ^^ 8) (c XOR ucast (x :: u8))"
proof -
  have "take_bit 8 (ucast x) = (ucast x :: u64)" by (intro bit_eqI) (auto simp: bit_simps dest: bit_u8_ge)
  then show ?thesis using crc_bits_list [of 8 x c] by simp
qed

lemma crc_bit_in_32: "fits32 c \<Longrightarrow> fits32 (crc_bit (c XOR of_bool b))"
  by (intro crc_bit_32) (auto simp: fits32_def bit_simps)

lemma poly_mod_bits:
  assumes "fits32 c" "32 \<le> length m"
  shows "poly_mod (register_added c (xs @ m)) = poly_mod (register_added (fold (\<lambda>b c. crc_bit (c XOR of_bool b)) xs c) m)"
  using assms(1)
proof (induction xs arbitrary: c)
  case (Cons b xs)
  then show ?case using poly_mod_step [of c "xs @ m" b] assms(2) crc_bit_in_32 by simp
qed simp

lemma checksum_bits: "crc_inv s \<Longrightarrow>
    fold (\<lambda>b c. crc_bit (c XOR of_bool b)) (message_bits bs) (checksum s) = checksum (fold crc_add bs s)"
proof (induction bs arbitrary: s)
  case (Cons b bs)
  then show ?case using crc_add_inv [of s b] crc_add_checksum [of s b] crc_byte_list [of b "checksum s"] Cons.IH [of "crc_add b s"]
    by (simp add: message_bits_def del: upt.simps)
qed (simp add: message_bits_def)

lemma bit_all_ones: "bit (0xFFFFFFFF :: u64) n \<longleftrightarrow> n < 32"
proof -
  have "(0xFFFFFFFF :: u64) = mask 32" by (simp add: mask_eq_exp_minus_1)
  then show ?thesis by (simp only: bit_mask_iff) auto
qed

lemma complemented_start: "32 \<le> length m \<Longrightarrow> map Not (take 32 m) @ drop 32 m = register_added 0xFFFFFFFF m"
  by (rule nth_equalityI) (auto simp: nth_register_added length_register_added nth_append bit_all_ones simp del: bit_numeral_word_iff)

lemma complemented_end: "map Not (map (bit c) [0..<32]) = map (bit (c XOR 0xFFFFFFFF :: u64)) [0..<32]"
  by (intro nth_equalityI) (simp_all add: bit_xor_iff bit_all_ones del: upt.simps bit_numeral_word_iff)

lemma value_of_bits: "fits32 c \<Longrightarrow> horner_sum of_bool 2 (map (bit c) [0..<32]) = c"
proof (rule bit_eqI)
  fix n assume c: "fits32 c"
  then have "bit c n \<Longrightarrow> n < 32" unfolding fits32_def by (meson not_less)
  then show "bit (horner_sum of_bool 2 (map (bit c) [0..<32]) :: u64) n = bit c n"
    by (auto simp: bit_horner_sum_bit_word_iff simp del: upt.simps)
qed

lemma register_zeros: "register_added c (replicate 32 False) = map (bit c) [0..<32]"
  by (rule nth_equalityI) (simp_all add: nth_register_added length_register_added del: upt.simps replicate.simps)

lemma remainder_of_message:
  "poly_mod (register_added 0xFFFFFFFF (message_bits bs @ replicate 32 False)) = map (bit (checksum (fold crc_add bs crc_new))) [0..<32]"
proof -
  have i: "checksum crc_new = 0xFFFFFFFF" "fits32 (0xFFFFFFFF :: u64)" by (simp_all add: crc_new_def fits32_numeral)
  show ?thesis using poly_mod_bits [OF i(2), of "replicate 32 False" "message_bits bs"] checksum_bits [OF crc_new_inv, of bs] i(1)
    poly_mod.simps [of "map (bit (checksum (fold crc_add bs crc_new))) [0..<32]"]
    by (simp add: register_zeros length_generator del: upt.simps replicate.simps)
qed

lemma char_signed: "(x XOR scast c) AND 0xFF = (x XOR ucast c) AND (0xFF :: u64)" for c :: u8
proof -
  have "(0xFF :: u64) = mask 8" by (simp add: mask_eq_exp_minus_1)
  then show ?thesis by (auto simp: bit_eq_iff bit_simps)
qed

text \<open>
  C24. The table-driven checksum is the CRC-32 of IEEE 802.3: for every message, what the class computes byte by
  byte from its table is the remainder of the message modulo the generator polynomial, with the complements and
  the order of bits of the standard; and adding a string gives the same as adding its bytes one by one, although
  the characters are signed.
\<close>

theorem crc32_equivalent:
  "crc_get_checksum (fold crc_add bs crc_new) = crc32_ieee bs \<and> crc_add_string bs crc_new = fold crc_add bs crc_new"
proof
  let ?c = "checksum (fold crc_add bs crc_new)"
  have f: "fits32 ?c" "fits32 (0xFFFFFFFF :: u64)" using fold_crc_add_inv [OF crc_new_inv] by (simp_all add: crc_inv_def fits32_numeral)
  then have "fits32 (?c XOR 0xFFFFFFFF)" unfolding fits32_def by (simp only: bit_xor_iff) blast
  then show "crc_get_checksum (fold crc_add bs crc_new) = crc32_ieee bs"
    using remainder_of_message [of bs] complemented_start [of "message_bits bs @ replicate 32 False"]
    by (simp only: crc32_ieee_def Let_def crc_get_checksum_def complemented_end value_of_bits length_append length_replicate le_add2)
  show "crc_add_string bs crc_new = fold crc_add bs crc_new"
    by (simp add: crc_add_string_def crc_add_def [abs_def] char_signed)
qed

text \<open>The check value of the standard: the checksum of the text \<open>123456789\<close>.\<close>

lemma crc32_check_value: "crc_get_checksum (fold crc_add [0x31, 0x32, 0x33, 0x34, 0x35, 0x36, 0x37, 0x38, 0x39] crc_new) = 0xCBF43926"
  using checksum_bits [OF crc_new_inv, of "[0x31, 0x32, 0x33, 0x34, 0x35, 0x36, 0x37, 0x38, 0x39]", symmetric]
  unfolding crc_get_checksum_def by (simp add: message_bits_def crc_new_def crc_bit_def upt_rec bit_simps)

text \<open>
  The checksum detects every change of one byte, whatever comes before and after it.
\<close>

theorem crc32_detects_byte:
  assumes "b \<noteq> b'"
  shows "crc_get_checksum (fold crc_add (xs @ b # ys) crc_new) \<noteq> crc_get_checksum (fold crc_add (xs @ b' # ys) crc_new)"
proof
  let ?s = "fold crc_add xs crc_new"
  have inv: "crc_inv ?s" by (rule fold_crc_add_inv [OF crc_new_inv])
  assume "crc_get_checksum (fold crc_add (xs @ b # ys) crc_new) = crc_get_checksum (fold crc_add (xs @ b' # ys) crc_new)"
  then have "checksum (fold crc_add ys (crc_add b ?s)) = checksum (fold crc_add ys (crc_add b' ?s))"
    by (simp add: crc_get_checksum_def xor_cancel)
  then have "checksum (crc_add b ?s) = checksum (crc_add b' ?s)"
    using fold_crc_add_inj crc_add_inv [OF inv] by blast
  then have "checksum ?s XOR ucast b = checksum ?s XOR ucast b'" using crc_add_inj [OF inv inv] by blast
  then have "(ucast b :: u64) = ucast b'" by (simp only: xor_cancel)
  moreover have "unat (ucast w :: u64) = unat w" for w :: u8
    using unsigned_less [of w, where 'a = nat] by (simp add: unsigned_ucast_eq take_bit_eq_mod)
  ultimately show False using assms by (metis word_unat_eq_iff)
qed

theorem crc32_detects_byte_witness:
  "crc_get_checksum (fold crc_add [1, 2, 3] crc_new) \<noteq> crc_get_checksum (fold crc_add [1, 7, 3] crc_new)"
  using crc32_detects_byte [of 2 7 "[1]" "[3]"] by simp

end
