(* ===== verification/Checksum_Bytes.thy ===== *)
theory Checksum_Bytes
  imports Crc32 Byte_Stream
begin

text \<open>
  The compressors of \<open>src/dlib-minimal/lib/dlib/compress_stream/\<close> end their output with the checksum
  of the input, in four bytes.
\<close>

text \<open>The four bytes of the checksum, the most significant first.\<close>

definition checksum_bytes :: "u64 \<Rightarrow> u8 list" where
  "checksum_bytes cs = [ucast (drop_bit 24 cs AND 0xFF), ucast (drop_bit 16 cs AND 0xFF),
     ucast (drop_bit 8 cs AND 0xFF), ucast (cs AND 0xFF)]"

text \<open>The checksum fits four bytes, and reading them gives it back.\<close>

definition read_bytes :: "u8 list \<Rightarrow> u64 \<Rightarrow> u64" where
  "read_bytes bs cs = fold (\<lambda>b cs. push_bit 8 cs OR ucast b) bs cs"

lemma bit_push_byte: "bit (push_bit 8 (x :: u64) OR ucast (b :: u8)) n \<longleftrightarrow>
    (if n < 8 then bit b n else n < 64 \<and> bit x (n - 8))"
  by (auto simp: bit_or_iff bit_push_bit_iff bit_ucast_iff not_less dest: bit_imp_le_length)

lemma bit_byte_of: "bit (ucast (drop_bit k (x :: u64) AND 0xFF) :: u8) n \<longleftrightarrow> n < 8 \<and> bit x (k + n)"
proof -
  have m: "(0xFF :: u64) = mask 8" by (simp add: mask_eq_exp_minus_1)
  show ?thesis unfolding m by (auto simp: bit_ucast_iff bit_and_iff bit_drop_bit_eq bit_mask_iff dest: bit_imp_le_length)
qed

lemma length_checksum_bytes [simp]: "length (checksum_bytes cs) = 4"
  by (simp add: checksum_bytes_def)

lemma read_checksum_bytes:
  assumes "fits32 cs"
  shows "read_bytes (checksum_bytes cs) 0 = cs"
proof (rule bit_word_eqI)
  fix n assume "n < LENGTH(64)"
  then have n: "n < 64" by simp
  have low: "bit (ucast (cs AND 0xFF) :: u8) n \<longleftrightarrow> n < 8 \<and> bit cs n" for n using bit_byte_of [of 0 cs] by simp
  have "bit (read_bytes (checksum_bytes cs) 0) n \<longleftrightarrow> n < 32 \<and> bit cs n"
    using n by (simp only: read_bytes_def checksum_bytes_def fold_simps bit_push_byte bit_byte_of low bit_0_eq)
      (auto simp: not_less)
  then show "bit (read_bytes (checksum_bytes cs) 0) n \<longleftrightarrow> bit cs n" using assms not_less by (auto simp: fits32_def)
qed

lemma crc_checksum_fits: "crc_inv crc \<Longrightarrow> fits32 (crc_get_checksum crc)"
proof -
  assume "crc_inv crc"
  then have "fits32 (checksum crc)" "fits32 0xFFFFFFFF" by (simp_all add: crc_inv_def fits32_numeral)
  then show ?thesis unfolding crc_get_checksum_def fits32_def by (simp only: bit_xor_iff) blast
qed

end
