(* ===== verification/Compress_Stream.thy ===== *)
theory Compress_Stream
  imports Order_1_Model Conditioning_Class_2 Range_Coder Checksum_Bytes
begin

text \<open>
  The model of \<open>src/dlib-minimal/lib/dlib/compress_stream/compress_stream_kernel_1.h\<close>.  The two
  functions are templates over a pair of entropy models, whose operations are arguments here: \<open>menc\<close>
  and \<open>mdec\<close> code one symbol, \<open>enc\<close>, \<open>target\<close> and \<open>dec\<close> are the direct calls on the coder.  The
  checksum is \<open>crc32_kernel_1\<close>, the only one the code is instantiated with.  \<open>decompress\<close> may run for
  ever on bytes that no compressor wrote, so its loop is a partial function.
\<close>

definition eof_symbol :: u64 where "eof_symbol = 256"

fun encode_bytes :: "(u64 \<Rightarrow> 'm \<Rightarrow> 'm io) \<Rightarrow> u8 list \<Rightarrow> 'm \<Rightarrow> 'm io" where
  "encode_bytes menc [] m = Some (Inr m)"
| "encode_bytes menc (b # bs) m = io_bind (menc (ucast b) m) (\<lambda>m. encode_bytes menc bs m)"

fun compress_loop ::
  "(u64 \<Rightarrow> 'm \<Rightarrow> 'm io) \<Rightarrow> (u32 \<Rightarrow> u32 \<Rightarrow> u32 \<Rightarrow> 'm \<Rightarrow> 'm io) \<Rightarrow> u8 list \<Rightarrow> u64 \<Rightarrow> crc32 \<Rightarrow> 'm \<Rightarrow> 'm io" where
  "compress_loop menc enc [] count crc m =
    io_bind (if count = 20000 then enc 1500 1501 8000 m else Some (Inr m)) (\<lambda>m.
    io_bind (menc eof_symbol m) (\<lambda>m. encode_bytes menc (checksum_bytes (crc_get_checksum crc)) m))"
| "compress_loop menc enc (temp # input) count crc m =
    io_bind (if count = 20000 then enc 1500 1501 8000 m else Some (Inr m)) (\<lambda>m.
    let count = (if count = 20000 then 0 else count) + 1 in
    io_bind (menc (ucast temp) m) (\<lambda>m. compress_loop menc enc input count (crc_add temp crc) m))"

text \<open>
  \<open>m\<close> is the new model with its coder on the output stream.  When the function is left, by an
  exception or not, the coder is destroyed, which sends its last bytes.
\<close>

definition compress ::
  "(u64 \<Rightarrow> 'm \<Rightarrow> 'm io) \<Rightarrow> (u32 \<Rightarrow> u32 \<Rightarrow> u32 \<Rightarrow> 'm \<Rightarrow> 'm io) \<Rightarrow> ('m \<Rightarrow> ostream option) \<Rightarrow> u8 list \<Rightarrow> 'm \<Rightarrow> ostream io" where
  "compress menc enc finish input m =
    io_bind (compress_loop menc enc input 0 crc_new m)
      (\<lambda>m. case finish m of None \<Rightarrow> Some (Inl (Ub Uninitialised)) | Some out \<Rightarrow> Some (Inr out))"

fun decode_bytes :: "('n \<Rightarrow> (u64 \<times> 'n) io) \<Rightarrow> nat \<Rightarrow> u64 \<Rightarrow> 'n \<Rightarrow> (u64 \<times> 'n) io" where
  "decode_bytes mdec 0 cs n = Some (Inr (cs, n))"
| "decode_bytes mdec (Suc k) cs n =
    io_bind (mdec n) (\<lambda>(symbol, n). decode_bytes mdec k (push_bit 8 cs OR ucast (ucast symbol :: u8)) n)"

text \<open>The known value that \<open>compress\<close> writes every 20000 symbols.\<close>

definition check_marker ::
  "(u32 \<Rightarrow> 'n \<Rightarrow> (u32 \<times> 'n) c) \<Rightarrow> (u32 \<Rightarrow> u32 \<Rightarrow> 'n \<Rightarrow> 'n io) \<Rightarrow> 'n \<Rightarrow> 'n io" where
  "check_marker target dec n =
    io_bind (io_c (target 8000 n)) (\<lambda>(t, n).
      if t \<noteq> 1500 then Some (Inl Decompression_Error) else dec 1500 1501 n)"

text \<open>
  One turn of the loop of \<open>decompress\<close>: \<open>Inr\<close> when the end was found and the checksum is right,
  \<open>Inl\<close> with the state for the next turn otherwise.
\<close>

definition decompress_step ::
  "('n \<Rightarrow> (u64 \<times> 'n) io) \<Rightarrow> (u32 \<Rightarrow> 'n \<Rightarrow> (u32 \<times> 'n) c) \<Rightarrow> (u32 \<Rightarrow> u32 \<Rightarrow> 'n \<Rightarrow> 'n io) \<Rightarrow>
    u64 \<times> 'n \<times> crc32 \<times> ostream \<Rightarrow> (u64 \<times> 'n \<times> crc32 \<times> ostream + 'n \<times> ostream) io" where
  "decompress_step mdec target dec = (\<lambda>(count, n, crc, out).
    io_bind (if count = 20000 then check_marker target dec n else Some (Inr n)) (\<lambda>n.
    let count = (if count = 20000 then 0 else count) + 1 in
    io_bind (mdec n) (\<lambda>(symbol, n).
    if symbol \<noteq> eof_symbol then
      let crc = crc_add (ucast symbol) crc in
      case sputc (ucast symbol) out of
        None \<Rightarrow> Some (Inl Write_Failure)
      | Some out \<Rightarrow>
          if (ucast (ucast symbol :: u8) :: u32) \<noteq> ucast symbol then Some (Inl Write_Failure)
          else Some (Inr (Inl (count, n, crc, out)))
    else
      io_bind (decode_bytes mdec 4 0 n) (\<lambda>(cs, n).
      if cs \<noteq> crc_get_checksum crc then Some (Inl Decompression_Error) else Some (Inr (Inr (n, out)))))))"

partial_function (option) decompress_loop ::
  "('n \<Rightarrow> (u64 \<times> 'n) io) \<Rightarrow> (u32 \<Rightarrow> 'n \<Rightarrow> (u32 \<times> 'n) c) \<Rightarrow> (u32 \<Rightarrow> u32 \<Rightarrow> 'n \<Rightarrow> 'n io) \<Rightarrow>
    u64 \<times> 'n \<times> crc32 \<times> ostream \<Rightarrow> ('n \<times> ostream) io" where
  "decompress_loop mdec target dec s =
    Option.bind (decompress_step mdec target dec s) (\<lambda>x. case x of
      Inl e \<Rightarrow> Some (Inl e)
    | Inr y \<Rightarrow> (case y of Inl s' \<Rightarrow> decompress_loop mdec target dec s' | Inr r \<Rightarrow> Some (Inr r)))"

definition decompress ::
  "('n \<Rightarrow> (u64 \<times> 'n) io) \<Rightarrow> (u32 \<Rightarrow> 'n \<Rightarrow> (u32 \<times> 'n) c) \<Rightarrow> (u32 \<Rightarrow> u32 \<Rightarrow> 'n \<Rightarrow> 'n io) \<Rightarrow>
    'n \<Rightarrow> ostream \<Rightarrow> ('n \<times> ostream) io" where
  "decompress mdec target dec n out = decompress_loop mdec target dec (0, n, crc_new, out)"

subsection \<open>Parts of the stream\<close>

lemma check_byte: "unat (ucast (b :: u8) :: u64) < 257"
  using unsigned_less [of b, where 'a = nat] by (simp add: unsigned_ucast_eq take_bit_eq_mod)

lemma byte_not_eof: "(ucast (b :: u8) :: u64) \<noteq> eof_symbol"
proof
  assume "(ucast b :: u64) = eof_symbol"
  then have "unat (ucast b :: u64) = 256" by (simp add: eof_symbol_def)
  then show False using unsigned_less [of b, where 'a = nat] by (simp add: unsigned_ucast_eq take_bit_eq_mod)
qed

lemma byte_back [simp]: "(ucast (ucast (b :: u8) :: u64) :: u8) = b"
  by (simp add: ucast_up_ucast_id is_up)

lemma byte_int: "(ucast (b :: u8) :: u32) = ucast (ucast b :: u64)"
  by (rule bit_eqI) (auto simp: bit_ucast_iff dest: bit_imp_le_length)

subsection \<open>Compressing and decompressing\<close>

context model_pair
begin

lemma symbol_delivered:
  assumes "ready m" "unat sy < alphabet"
  shows "\<exists>m' bs. menc sy m = Some (Inr m') \<and> delivers m bs m' (\<lambda>n n'. mdec n = Some (Inr (sy, n')))"
  using menc_ok [OF assms] by (simp add: delivers_def)

lemma bytes_delivered:
  assumes "ready m" "257 \<le> alphabet"
  shows "\<exists>m' cs. encode_bytes menc bs m = Some (Inr m') \<and>
    delivers m cs m' (\<lambda>n n'. \<forall>x. decode_bytes mdec (length bs) x n = Some (Inr (read_bytes bs x, n')))"
  using assms(1)
proof (induction bs arbitrary: m)
  case Nil
  show ?case by (intro exI [of _ m] exI [of _ "[]"] conjI delivers_mono [OF delivers_refl [OF Nil]]) (auto simp: read_bytes_def)
next
  case (Cons b bs)
  obtain m1 as where m1: "menc (ucast b) m = Some (Inr m1)" "delivers m as m1 (\<lambda>n n'. mdec n = Some (Inr (ucast b, n')))"
    using symbol_delivered [OF Cons.prems, of "ucast b"] check_byte [of b] assms(2) by auto
  obtain m2 cs where m2: "encode_bytes menc bs m1 = Some (Inr m2)"
    "delivers m1 cs m2 (\<lambda>n n'. \<forall>x. decode_bytes mdec (length bs) x n = Some (Inr (read_bytes bs x, n')))"
    using Cons.IH [OF delivers_ready [OF m1(2)]] by blast
  have "delivers m (as @ cs) m2 (\<lambda>n n'. \<forall>x. decode_bytes mdec (length (b # bs)) x n = Some (Inr (read_bytes (b # bs) x, n')))"
    by (rule delivers_mono [OF delivers_trans [OF m1(2) m2(2)]]) (auto simp: read_bytes_def)
  then show ?case using m1(1) m2(1) by auto
qed

lemma marker_delivered:
  assumes "ready m"
  shows "\<exists>m' bs. (if count = (20000 :: u64) then enc 1500 1501 8000 m else Some (Inr m)) = Some (Inr m') \<and>
    delivers m bs m' (\<lambda>n n'. (if count = 20000 then check_marker target dec n else Some (Inr n)) = Some (Inr n'))"
proof (cases "count = 20000")
  case True
  have "interval_ok (1500, 1501, 8000)" by simp
  from enc_delivers [OF assms this] obtain m' bs where m': "enc 1500 1501 8000 m = Some (Inr m')"
    "delivers m bs m' (\<lambda>n n'. \<exists>t. finds (1500, 1501, 8000) t n n')" by blast
  have "t = 1500" if "1500 \<le> t" "t < (1501 :: u32)" for t
    using that by (simp add: word_less_nat_alt word_le_nat_alt word_unat_eq_iff)
  then have "delivers m bs m' (\<lambda>n n'. check_marker target dec n = Some (Inr n'))"
    by (intro delivers_mono [OF m'(2)]) (fastforce simp: finds_def check_marker_def)
  then show ?thesis using True m'(1) by auto
next
  case False
  then show ?thesis using delivers_refl [OF assms] by (fastforce simp: eq_commute)
qed

text \<open>What the loop of \<open>compress\<close> sends, the loop of \<open>decompress\<close> turns into the input again.\<close>

definition restores :: "u64 \<Rightarrow> crc32 \<Rightarrow> u8 list \<Rightarrow> 'n \<Rightarrow> 'n \<Rightarrow> bool" where
  "restores count crc input n n' \<longleftrightarrow> (\<forall>out. has_room out (length input) \<longrightarrow>
    decompress_loop mdec target dec (count, n, crc, out) = Some (Inr (n', out \<lparr> written := written out @ input \<rparr>)))"

lemma restores_end:
  assumes "(if count = 20000 then check_marker target dec n else Some (Inr n)) = Some (Inr n1)"
    "mdec n1 = Some (Inr (eof_symbol, n2))" "crc_inv crc"
    "\<forall>x. decode_bytes mdec 4 x n2 = Some (Inr (read_bytes (checksum_bytes (crc_get_checksum crc)) x, n3))"
  shows "restores count crc [] n n3"
  using assms(1,2) assms(4) [THEN spec, of 0] read_checksum_bytes [OF crc_checksum_fits [OF assms(3)]]
  by (simp add: restores_def decompress_loop.simps decompress_step_def)

lemma restores_Cons:
  assumes "(if count = 20000 then check_marker target dec n else Some (Inr n)) = Some (Inr n1)"
    "mdec n1 = Some (Inr (ucast b, n2))" "restores ((if count = 20000 then 0 else count) + 1) (crc_add b crc) input n2 n3"
  shows "restores count crc (b # input) n n3"
  unfolding restores_def
proof (intro allI impI)
  fix out assume "has_room out (length (b # input))"
  then have r: "sputc b out = Some (out \<lparr> written := written out @ [b] \<rparr>)" "has_room (out \<lparr> written := written out @ [b] \<rparr>) (length input)"
    using sputc_room [of out "length input" b] by simp_all
  show "decompress_loop mdec target dec (count, n, crc, out) = Some (Inr (n3, out \<lparr> written := written out @ b # input \<rparr>))"
    using assms(1,2) r(1) assms(3) [unfolded restores_def, THEN spec, THEN mp, OF r(2)]
    by (subst decompress_loop.simps) (simp add: decompress_step_def byte_not_eof byte_int)
qed

lemma compress_loop_ok:
  assumes "ready m" "257 \<le> alphabet" "crc_inv crc"
  shows "\<exists>m' bs. compress_loop menc enc input count crc m = Some (Inr m') \<and> delivers m bs m' (restores count crc input)"
  using assms(1,3)
proof (induction input arbitrary: count crc m)
  case Nil
  obtain m1 as where m1: "(if count = 20000 then enc 1500 1501 8000 m else Some (Inr m)) = Some (Inr m1)"
    "delivers m as m1 (\<lambda>n n'. (if count = 20000 then check_marker target dec n else Some (Inr n)) = Some (Inr n'))"
    using marker_delivered [OF Nil(1)] by blast
  obtain m2 bs where m2: "menc eof_symbol m1 = Some (Inr m2)" "delivers m1 bs m2 (\<lambda>n n'. mdec n = Some (Inr (eof_symbol, n')))"
    using symbol_delivered [OF delivers_ready [OF m1(2)], of eof_symbol] assms(2) by (auto simp: eof_symbol_def)
  let ?sum = "checksum_bytes (crc_get_checksum crc)"
  obtain m3 cs where m3: "encode_bytes menc ?sum m2 = Some (Inr m3)"
    "delivers m2 cs m3 (\<lambda>n n'. \<forall>x. decode_bytes mdec (length ?sum) x n = Some (Inr (read_bytes ?sum x, n')))"
    using bytes_delivered [OF delivers_ready [OF m2(2)] assms(2)] by blast
  have "delivers m (as @ bs @ cs) m3 (restores count crc [])"
  proof (rule delivers_mono [OF delivers_trans [OF m1(2) delivers_trans [OF m2(2) m3(2)]]], rule predicate2I, elim relcomppE)
    fix n n1 n2 n3
    assume "(if count = 20000 then check_marker target dec n else Some (Inr n)) = Some (Inr n1)"
      "mdec n1 = Some (Inr (eof_symbol, n2))"
      "\<forall>x. decode_bytes mdec (length ?sum) x n2 = Some (Inr (read_bytes ?sum x, n3))"
    then show "restores count crc [] n n3" using restores_end [of count n n1 n2 crc n3] Nil(2) by simp
  qed
  then show ?case using m1(1) m2(1) m3(1) by auto
next
  case (Cons b input)
  let ?count = "(if count = 20000 then 0 else count) + 1"
  obtain m1 as where m1: "(if count = 20000 then enc 1500 1501 8000 m else Some (Inr m)) = Some (Inr m1)"
    "delivers m as m1 (\<lambda>n n'. (if count = 20000 then check_marker target dec n else Some (Inr n)) = Some (Inr n'))"
    using marker_delivered [OF Cons.prems(1)] by blast
  obtain m2 bs where m2: "menc (ucast b) m1 = Some (Inr m2)" "delivers m1 bs m2 (\<lambda>n n'. mdec n = Some (Inr (ucast b, n')))"
    using symbol_delivered [OF delivers_ready [OF m1(2)], of "ucast b"] check_byte [of b] assms(2) by auto
  obtain m3 cs where m3: "compress_loop menc enc input ?count (crc_add b crc) m2 = Some (Inr m3)"
    "delivers m2 cs m3 (restores ?count (crc_add b crc) input)"
    using Cons.IH [OF delivers_ready [OF m2(2)] crc_add_inv [OF Cons.prems(2)]] by blast
  have "delivers m (as @ bs @ cs) m3 (restores count crc (b # input))"
    by (rule delivers_mono [OF delivers_trans [OF m1(2) delivers_trans [OF m2(2) m3(2)]]])
      (auto intro: restores_Cons)
  then show ?case using m1(1) m2(1) m3(1) by (auto simp: Let_def)
qed

text \<open>
  The whole of \<open>compress\<close>: nothing fails, and with the bytes of the destructor the stream is one that
  \<open>decompress\<close> turns into the input again, leaving what follows unread.
\<close>

lemma compress_ok:
  assumes "ready m" "257 \<le> alphabet"
  shows "\<exists>out bs. compress menc enc finish input m = Some (Inr out) \<and> written out = sent m @ bs \<and> bs \<noteq> [] \<and>
    (\<forall>extra n plain. in_step m (bs @ extra) n \<longrightarrow> has_room plain (length input) \<longrightarrow>
      (\<exists>n'. decompress mdec target dec n plain = Some (Inr (n', plain \<lparr> written := written plain @ input \<rparr>)) \<and>
        unread n' = Some extra))"
proof -
  obtain m' bs where m': "compress_loop menc enc input 0 crc_new m = Some (Inr m')" "delivers m bs m' (restores 0 crc_new input)"
    using compress_loop_ok [OF assms crc_new_inv] by blast
  obtain out fl where f: "finish m' = Some out" "written out = sent m @ bs @ fl" "fl \<noteq> []"
    "\<And>extra n. in_step m ((bs @ fl) @ extra) n \<Longrightarrow> \<exists>n'. restores 0 crc_new input n n' \<and> unread n' = Some extra"
    using delivers_finish [OF m'(2)] by blast
  have "compress menc enc finish input m = Some (Inr out)" using m'(1) f(1) by (simp add: compress_def)
  moreover have "\<exists>n'. decompress mdec target dec n plain = Some (Inr (n', plain \<lparr> written := written plain @ input \<rparr>)) \<and>
      unread n' = Some extra" if "in_step m ((bs @ fl) @ extra) n" "has_room plain (length input)" for extra n plain
    using f(4) [OF that(1)] that(2) unfolding restores_def decompress_def by blast
  ultimately show ?thesis using f(2,3) by (intro exI [of _ out] exI [of _ "bs @ fl"]) simp
qed

subsection \<open>Decompressing any bytes\<close>

lemma decode_bytes_sound: "sound n \<Longrightarrow> \<exists>x' n'. decode_bytes mdec k x n = Some (Inr (x', n')) \<and> sound n'"
proof (induction k arbitrary: n x)
  case (Suc k)
  then show ?case using mdec_ok [OF Suc.prems] by fastforce
qed simp

lemma check_marker_sound:
  assumes "sound n"
  shows "check_marker target dec n = Some (Inl Decompression_Error) \<or> (\<exists>n'. check_marker target dec n = Some (Inr n') \<and> sound n')"
proof -
  obtain t n1 where "target 8000 n = Inr (t, n1)" "\<exists>n2. dec 1500 1501 n1 = Some (Inr n2) \<and> sound n2"
    using target_ok [OF assms, of 8000] by auto
  then show ?thesis by (auto simp: check_marker_def)
qed

text \<open>One turn ends the loop without an undefined operation, or writes one byte.\<close>

definition turn :: "(u64 \<times> 'n \<times> crc32 \<times> ostream + 'n \<times> ostream) io \<Rightarrow> ostream \<Rightarrow> bool" where
  "turn x out \<longleftrightarrow> x = Some (Inl Write_Failure) \<or> x = Some (Inl Decompression_Error) \<or> (\<exists>n. x = Some (Inr (Inr (n, out)))) \<or>
    (\<exists>count n crc b. x = Some (Inr (Inl (count, n, crc, out \<lparr> written := written out @ [b] \<rparr>))) \<and> sound n \<and>
      (\<forall>r. room out = Some r \<longrightarrow> length (written out) < r))"

lemma decompress_step_sound:
  assumes "sound n"
  shows "turn (decompress_step mdec target dec (count, n, crc, out)) out"
proof -
  let ?first = "if count = 20000 then check_marker target dec n else Some (Inr n)"
  have "?first = Some (Inl Decompression_Error) \<or> (\<exists>n1. ?first = Some (Inr n1) \<and> sound n1)"
    using check_marker_sound [OF assms] assms by simp
  then show ?thesis
  proof (elim disjE exE conjE)
    fix n1 assume n1: "?first = Some (Inr n1)" "sound n1"
    obtain sy n2 where n2: "mdec n1 = Some (Inr (sy, n2))" "sound n2" using mdec_ok [OF n1(2)] by blast
    obtain x n3 where n3: "decode_bytes mdec 4 0 n2 = Some (Inr (x, n3))" using decode_bytes_sound [OF n2(2)] by blast
    show ?thesis using n1(1) n2 n3
      by (auto simp: turn_def decompress_step_def Let_def sputc_def split: option.splits)
  qed (simp add: turn_def decompress_step_def)
qed

text \<open>Whatever the bytes are, an undefined operation is not the outcome.\<close>

lemma decompress_loop_defined:
  assumes "decompress_loop mdec target dec (count, n, crc, out) = Some x" "sound n"
  shows "x \<noteq> Inl (Ub e)"
proof -
  have "a = mdec \<and> b = target \<and> c = dec \<and> sound (fst (snd s)) \<longrightarrow> x \<noteq> Inl (Ub e)"
    if "decompress_loop a b c s = Some x" for a b c s x
  proof (rule decompress_loop.raw_induct [OF _ that], intro impI, elim conjE)
    fix loop a b c s x
    assume ih: "\<And>a b c s x. loop a b c s = Some x \<Longrightarrow> a = mdec \<and> b = target \<and> c = dec \<and> sound (fst (snd s)) \<longrightarrow> x \<noteq> Inl (Ub e)"
      and x: "Option.bind (decompress_step a b c s) (\<lambda>y. case y of Inl e \<Rightarrow> Some (Inl e)
        | Inr (Inl s') \<Rightarrow> loop a b c s' | Inr (Inr r) \<Rightarrow> Some (Inr r)) = Some x"
      and f: "a = mdec" "b = target" "c = dec" "sound (fst (snd s))"
    obtain count n crc out where s: "s = (count, n, crc, out)" by (cases s)
    have "x \<noteq> Inl (Ub e)" if "loop mdec target dec s = Some x" "sound (fst (snd s))" for s x using ih that by blast
    then show "x \<noteq> Inl (Ub e)"
      using decompress_step_sound [of n count crc out] f x s unfolding turn_def by fastforce
  qed
  then show ?thesis using assms by fastforce
qed

text \<open>An output stream that can take a limited number of bytes makes the loop end.\<close>

lemma decompress_loop_ends:
  assumes "sound n" "room out = Some r"
  shows "decompress_loop mdec target dec (count, n, crc, out) \<noteq> None"
  using assms
proof (induction "r - length (written out)" arbitrary: count n crc out rule: less_induct)
  case less
  show ?case using decompress_step_sound [OF less.prems(1), of count crc out] unfolding turn_def
  proof (elim disjE exE conjE)
    fix count' n' crc' b
    assume s: "decompress_step mdec target dec (count, n, crc, out) =
        Some (Inr (Inl (count', n', crc', out \<lparr> written := written out @ [b] \<rparr>)))"
      "sound n'" "\<forall>r. room out = Some r \<longrightarrow> length (written out) < r"
    then show ?thesis using less.hyps [of "out \<lparr> written := written out @ [b] \<rparr>" n'] less.prems(2)
      by (subst decompress_loop.simps) (simp add: diff_less_mono2)
  qed (subst decompress_loop.simps; simp)+
qed

lemma decompress_defined:
  assumes "sound n"
  shows "decompress mdec target dec n out \<noteq> Some (Inl (Ub e))"
    "room out \<noteq> None \<Longrightarrow> decompress mdec target dec n out \<noteq> None"
  using decompress_loop_defined [OF _ assms, of 0 crc_new out "Inl (Ub e)" e] decompress_loop_ends [OF assms, of out _ 0 crc_new]
  by (auto simp: decompress_def)

end

subsection \<open>The kernels 1a and 1b\<close>

text \<open>
  \<open>compress_stream::kernel_1a\<close>, as \<open>compress_stream.h\<close> puts it together: the range coder, the order-0
  model over \<open>conditioning_class_kernel_2\<close> with 257 symbols and the escape, and \<open>crc32_kernel_1\<close>.
  The count of the memory in use is left out.  \<open>decompress_kernel_1a\<close> also returns what it leaves of
  the input stream; \<open>ch0\<close> is the value of the uninitialised byte that an empty input stream exposes.
\<close>

definition compress_kernel_1a :: "u8 list \<Rightarrow> ostream \<Rightarrow> ostream io" where
  "compress_kernel_1a input out =
    compress (model_encode cc2_get_range cc2_increment_count encode 257) (raw_encode encode) (\<lambda>m. enc_delete (coder m)) input
      \<lparr> order_0 = cc2_initial 258, coder = enc_start out \<rparr>"

definition decompress_kernel_1a :: "u8 \<Rightarrow> u8 list \<Rightarrow> ostream \<Rightarrow> (u8 list option \<times> ostream) io" where
  "decompress_kernel_1a ch0 input out =
    io_bind (decompress (model_decode cc2_get_total cc2_get_symbol cc2_increment_count get_target decode 257)
      (raw_target get_target) (raw_decode decode) \<lparr> order_0 = cc2_initial 258, coder = dec_set_stream ch0 input dec_new \<rparr> out)
      (\<lambda>(n, out). Some (Inr (d_in (coder n), out)))"

text \<open>
  \<open>compress_stream::kernel_1b\<close>: the same with the order-1-0 model, both contexts of which are tables of
  \<open>conditioning_class_kernel_2\<close>.
\<close>

definition compress_kernel_1b :: "u8 list \<Rightarrow> ostream \<Rightarrow> ostream io" where
  "compress_kernel_1b input out =
    compress (model_2_encode cc2_get_range cc2_increment_count cc2_get_range cc2_increment_count encode 257)
      (raw_encode encode) (\<lambda>m. enc_delete (coder m)) input (model_2_new (cc2_initial 258) (cc2_initial 258) 257 (enc_start out))"

definition decompress_kernel_1b :: "u8 \<Rightarrow> u8 list \<Rightarrow> ostream \<Rightarrow> (u8 list option \<times> ostream) io" where
  "decompress_kernel_1b ch0 input out =
    io_bind (decompress (model_2_decode cc2_get_total cc2_get_symbol cc2_increment_count cc2_get_total cc2_get_symbol
        cc2_increment_count get_target decode 257) (raw_target get_target) (raw_decode decode)
      (model_2_new (cc2_initial 258) (cc2_initial 258) 257 (dec_set_stream ch0 input dec_new)) out)
      (\<lambda>(n, out). Some (Inr (d_in (coder n), out)))"

interpretation kernel_1a: order_0_model encode enc_delete get_target decode enc_ready enc_sent enc_admits in_step dec_sound d_in
  257 "cc2_wf 258" cc2_increment_count cc2_get_range cc2_get_symbol cc2_get_total
  by (intro order_0_model.intro order_0_model_axioms.intro range_coder.entropy_coder_axioms)
    (use cc2_258.conditioning_class_axioms in simp_all)

interpretation kernel_1b: order_1_model encode enc_delete get_target decode enc_ready enc_sent enc_admits in_step dec_sound d_in
  257 "cc2_wf 258" cc2_increment_count cc2_get_range cc2_get_symbol cc2_get_total
  "cc2_wf 258" cc2_increment_count cc2_get_range cc2_get_symbol cc2_get_total
  by (intro order_1_model.intro kernel_1a.order_0_model_axioms)

lemma cc2_258_wf: "cc2_wf 258 (cc2_initial 258)"
  by (rule cc2_initial_wf(1)) simp_all


text \<open>
  C2. Compression is lossless: whatever the input is, \<open>compress\<close> writes to a stream without a limit
  and returns, and \<open>decompress\<close> turns the bytes it wrote into the input again, finds the checksum
  right, and leaves what follows in its input stream unread, provided that its output stream takes
  the bytes.
\<close>

theorem compress_roundtrip:
  assumes "room out = None"
  shows "\<exists>out' bs. compress_kernel_1a input out = Some (Inr out') \<and> written out' = written out @ bs \<and>
    (\<forall>extra plain ch0. has_room plain (length input) \<longrightarrow>
      decompress_kernel_1a ch0 (bs @ extra) plain = Some (Inr (Some extra, plain \<lparr> written := written plain @ input \<rparr>)))"
proof -
  let ?m = "\<lparr> order_0 = cc2_initial 258, coder = enc_start out \<rparr>"
  have "cc2_wf 258 (order_0 ?m) \<and> enc_ready (coder ?m)" using cc2_258_wf enc_start_ready [OF assms] by simp
  from kernel_1a.models.compress_ok [OF this, of input] obtain out' bs where
    c: "compress_kernel_1a input out = Some (Inr out')" "written out' = written out @ bs" "bs \<noteq> []"
    and d: "\<And>extra n plain. same_model in_step ?m (bs @ extra) n \<Longrightarrow> has_room plain (length input) \<Longrightarrow>
      \<exists>n'. decompress (model_decode cc2_get_total cc2_get_symbol cc2_increment_count get_target decode 257) (raw_target get_target)
          (raw_decode decode) n plain = Some (Inr (n', plain \<lparr> written := written plain @ input \<rparr>)) \<and> d_in (coder n') = Some extra"
    using enc_start_ready(2) [OF assms] by (auto simp: compress_kernel_1a_def)
  have "decompress_kernel_1a ch0 (bs @ extra) plain = Some (Inr (Some extra, plain \<lparr> written := written plain @ input \<rparr>))"
    if "has_room plain (length input)" for extra plain ch0
    using d [OF _ that, of extra "\<lparr> order_0 = cc2_initial 258, coder = dec_set_stream ch0 (bs @ extra) dec_new \<rparr>"]
      dec_start_in_step [of "bs @ extra" out ch0 dec_new] c(3)
    by (auto simp: same_model_def decompress_kernel_1a_def)
  then show ?thesis using c(1,2) by blast
qed

theorem compress_roundtrip_witness:
  "\<exists>out' bs. compress_kernel_1a [104, 105] \<lparr> written = [1], room = None \<rparr> = Some (Inr out') \<and> written out' = [1] @ bs \<and>
    (\<forall>extra plain ch0. has_room plain (length [104 :: u8, 105]) \<longrightarrow>
      decompress_kernel_1a ch0 (bs @ extra) plain = Some (Inr (Some extra, plain \<lparr> written := written plain @ [104, 105] \<rparr>)))"
  using compress_roundtrip [of "\<lparr> written = [1], room = None \<rparr>" "[104, 105]"] by simp

lemma model_2_start:
  "kernel_1b.wf_2 (model_2_new (cc2_initial 258) (cc2_initial 258) 257 co)"
  "coder (model_2_new fresh fresh_big k co) = co"
  using cc2_258_wf by (simp_all add: kernel_1b.wf_2_def model_2_new_def list_all_length)

text \<open>
  C4. The same for the order-1-0 models: every input comes back from \<open>compress_stream::kernel_1b\<close>,
  although the two sides keep 258 tables of counts each and never exchange them.
\<close>

theorem compress_kernel_1b_roundtrip:
  assumes "room out = None"
  shows "\<exists>out' bs. compress_kernel_1b input out = Some (Inr out') \<and> written out' = written out @ bs \<and>
    (\<forall>extra plain ch0. has_room plain (length input) \<longrightarrow>
      decompress_kernel_1b ch0 (bs @ extra) plain = Some (Inr (Some extra, plain \<lparr> written := written plain @ input \<rparr>)))"
proof -
  let ?new = "model_2_new (cc2_initial 258) (cc2_initial 258) 257"
  have "kernel_1b.wf_2 (?new (enc_start out)) \<and> enc_ready (coder (?new (enc_start out)))"
    by (simp add: model_2_start enc_start_ready [OF assms])
  from kernel_1b.models_2.compress_ok [OF this, of input] obtain out' bs where
    c: "compress_kernel_1b input out = Some (Inr out')" "written out' = written out @ bs" "bs \<noteq> []"
    and d: "\<And>extra n plain. same_model in_step (?new (enc_start out)) (bs @ extra) n \<Longrightarrow> has_room plain (length input) \<Longrightarrow>
      \<exists>n'. decompress (model_2_decode cc2_get_total cc2_get_symbol cc2_increment_count cc2_get_total cc2_get_symbol
          cc2_increment_count get_target decode 257) (raw_target get_target) (raw_decode decode) n plain =
        Some (Inr (n', plain \<lparr> written := written plain @ input \<rparr>)) \<and> d_in (coder n') = Some extra"
    using enc_start_ready(2) [OF assms] by (auto simp: compress_kernel_1b_def model_2_start(2))
  have "decompress_kernel_1b ch0 (bs @ extra) plain = Some (Inr (Some extra, plain \<lparr> written := written plain @ input \<rparr>))"
    if "has_room plain (length input)" for extra plain ch0
    using d [OF _ that, of extra "?new (dec_set_stream ch0 (bs @ extra) dec_new)"]
      dec_start_in_step [of "bs @ extra" out ch0 dec_new] c(3)
    by (auto simp: same_model_with_coder with_coder_def model_2_new_def decompress_kernel_1b_def)
  then show ?thesis using c(1,2) by blast
qed

theorem compress_kernel_1b_roundtrip_witness:
  "\<exists>out' bs. compress_kernel_1b [104, 105] \<lparr> written = [1], room = None \<rparr> = Some (Inr out') \<and> written out' = [1] @ bs \<and>
    (\<forall>extra plain ch0. has_room plain (length [104 :: u8, 105]) \<longrightarrow>
      decompress_kernel_1b ch0 (bs @ extra) plain = Some (Inr (Some extra, plain \<lparr> written := written plain @ [104, 105] \<rparr>)))"
  using compress_kernel_1b_roundtrip [of "\<lparr> written = [1], room = None \<rparr>" "[104, 105]"] by simp



end
