(* ===== verification/Lzp_Kernels.thy ===== *)
theory Lzp_Kernels
  imports Lz_Buffers
begin

text \<open>
  The second kernel of the prediction buffer,
  \<open>src/dlib-minimal/lib/dlib/lzp_buffer/lzp_buffer_kernel_2.h\<close>, which keeps predictions for contexts
  of three lengths and verifies them against the buffer, and the interface that the compressor
  uses of either kernel, as a locale.
\<close>

subsection \<open>lzp\_buffer\_kernel\_2\<close>

record lzp2 =
  lzp2_buffer :: "u8 sbuf"
  table3 :: "u64 list"
  table4 :: "u64 list"
  lzp2_last_element :: u64

text \<open>\<open>None\<close> is the exception \<open>std::bad_alloc\<close>; the flags say which of the two allocations succeeds.\<close>

definition lzp2_new :: "bool \<Rightarrow> bool \<Rightarrow> u64 \<Rightarrow> lzp2 option c" where
  "lzp2_new alloc3 alloc4 n =
    (let b = snd (sb_set_size True 0 n sb_new) in
     if \<not> alloc3 \<or> \<not> alloc4 then Inr None
     else c_bind (zero_fill 0 (unat (sb_size b)) b) (\<lambda>b.
       Inr (Some \<lparr> lzp2_buffer = b, table3 = replicate table_size (sb_size b), table4 = replicate table_size (sb_size b),
         lzp2_last_element = sb_size b - 1 \<rparr>)))"

definition lzp2_clear :: "lzp2 \<Rightarrow> lzp2 c" where
  "lzp2_clear s =
    c_bind (zero_fill 0 (unat (sb_size (lzp2_buffer s))) (lzp2_buffer s)) (\<lambda>b.
    Inr (s \<lparr> lzp2_buffer := b, table3 := replicate table_size (sb_size b), table4 := replicate table_size (sb_size b) \<rparr>))"

definition lzp2_add :: "u8 \<Rightarrow> lzp2 \<Rightarrow> lzp2 c" where
  "lzp2_add symbol s =
    c_bind (sb_put 0 symbol (sb_rotate_left 1 (lzp2_buffer s))) (\<lambda>b. Inr (s \<lparr> lzp2_buffer := b \<rparr>))"

definition lzp2_verify :: "u64 \<Rightarrow> lzp2 \<Rightarrow> bool c" where
  "lzp2_verify index s =
    (let b = lzp2_buffer s in
     if index + 3 < sb_size b then
       c_bind (sb_get b 0) (\<lambda>x. c_bind (sb_get b (index + 1)) (\<lambda>y. if x \<noteq> y then Inr False else
       c_bind (sb_get b 1) (\<lambda>x. c_bind (sb_get b (index + 2)) (\<lambda>y. if x \<noteq> y then Inr False else
       c_bind (sb_get b 2) (\<lambda>x. c_bind (sb_get b (index + 3)) (\<lambda>y. if x \<noteq> y then Inr False else
       Inr True))))))
     else Inr True)"

text \<open>The slots of the contexts of the orders 3, 4 and 5.\<close>

definition lzp2_slots :: "lzp2 \<Rightarrow> (u64 \<times> u64 \<times> u64) c" where
  "lzp2_slots s =
    c_bind (sb_get (lzp2_buffer s) 0) (\<lambda>b0. c_bind (sb_get (lzp2_buffer s) 1) (\<lambda>b1. c_bind (sb_get (lzp2_buffer s) 2) (\<lambda>b2.
    c_bind (sb_get (lzp2_buffer s) 3) (\<lambda>b3. c_bind (sb_get (lzp2_buffer s) 4) (\<lambda>b4.
    let temp1 = ucast b0; temp2 = push_bit 8 (ucast b1); temp3 = push_bit 16 (ucast b2); temp4 = push_bit 24 (ucast b3);
        temp5 = push_bit 12 (ucast b4); context1 = temp1 OR temp2 OR temp3; context2 = context1 OR temp4
    in Inr ((drop_bit 11 context1 XOR context1) AND 0xFFFF, (drop_bit 15 context2 XOR context2) AND 0xFFFF,
            ((temp5 OR drop_bit 20 context2) XOR context2) AND 0xFFFF))))))"

definition table_at :: "u64 list \<Rightarrow> u64 \<Rightarrow> u64 c" where
  "table_at t i = (if unat i < length t then Inr (t ! unat i) else Inl Out_Of_Bounds)"

definition table_put :: "u64 list \<Rightarrow> u64 \<Rightarrow> u64 \<Rightarrow> u64 list c" where
  "table_put t i x = (if unat i < length t then Inr (t[unat i := x]) else Inl Out_Of_Bounds)"

text \<open>The prediction for the current context, in all three slots.\<close>

definition lzp2_update :: "u64 \<Rightarrow> u64 \<Rightarrow> u64 \<Rightarrow> lzp2 \<Rightarrow> lzp2 c" where
  "lzp2_update i3 i4 i5 s =
    c_bind (table_put (table3 s) i3 (sb_get_element_id (lzp2_buffer s) (lzp2_last_element s))) (\<lambda>t3.
    c_bind (table_at t3 i3) (\<lambda>x. c_bind (table_put (table4 s) i4 x) (\<lambda>t4.
    c_bind (table_at t3 i3) (\<lambda>x. c_bind (table_put t3 i5 x) (\<lambda>t3.
    Inr (s \<lparr> table3 := t3, table4 := t4 \<rparr>))))))"

text \<open>The condition of a branch of \<open>predict_match\<close> for the entry \<open>e\<close> of a table.\<close>

definition lzp2_usable :: "u64 \<Rightarrow> lzp2 \<Rightarrow> bool c" where
  "lzp2_usable e s =
    (if e \<noteq> sb_size (lzp2_buffer s) then lzp2_verify (sb_get_element_index (lzp2_buffer s) e) s else Inr False)"

definition lzp2_found :: "u64 \<Rightarrow> u64 \<Rightarrow> u64 \<Rightarrow> u64 \<Rightarrow> u64 \<Rightarrow> lzp2 \<Rightarrow> (u64 \<times> u64 option \<times> lzp2) c" where
  "lzp2_found order e i3 i4 i5 s =
    (let index = sb_get_element_index (lzp2_buffer s) e in
     c_bind (if index > 20 then lzp2_update i3 i4 i5 s else Inr s) (\<lambda>s. Inr (order, Some index, s)))"

definition lzp2_predict_match :: "lzp2 \<Rightarrow> (u64 \<times> u64 option \<times> lzp2) c" where
  "lzp2_predict_match s =
    c_bind (lzp2_slots s) (\<lambda>(i3, i4, i5).
    c_bind (table_at (table3 s) i5) (\<lambda>e5. c_bind (lzp2_usable e5 s) (\<lambda>ok. if ok then lzp2_found 5 e5 i3 i4 i5 s else
    c_bind (table_at (table4 s) i4) (\<lambda>e4. c_bind (lzp2_usable e4 s) (\<lambda>ok. if ok then lzp2_found 4 e4 i3 i4 i5 s else
    c_bind (table_at (table3 s) i3) (\<lambda>e3. c_bind (lzp2_usable e3 s) (\<lambda>ok. if ok then lzp2_found 3 e3 i3 i4 i5 s else
    c_bind (lzp2_update i3 i4 i5 s) (\<lambda>s. Inr (0, None, s)))))))))"

definition lzp2_size :: "lzp2 \<Rightarrow> u64" where "lzp2_size s = sb_size (lzp2_buffer s)"

definition lzp2_get :: "lzp2 \<Rightarrow> u64 \<Rightarrow> u8 c" where "lzp2_get s index = sb_get (lzp2_buffer s) index"

subsection \<open>The interface of the prediction buffers\<close>

text \<open>
  What a client relies on is little: no operation fails, and a prediction of an order above 0 comes
  with an index.  The client puts the same symbols into two buffers; equal buffers predict alike.
\<close>

locale prediction_buffer =
  fixes wf :: "'b \<Rightarrow> bool"
    and add :: "u8 \<Rightarrow> 'b \<Rightarrow> 'b c"
    and predict :: "'b \<Rightarrow> (u64 \<times> u64 option \<times> 'b) c"
    and get :: "'b \<Rightarrow> u64 \<Rightarrow> u8 c"
  assumes add_ok: "wf b \<Longrightarrow> \<exists>b'. add x b = Inr b' \<and> wf b'"
    and get_ok: "wf b \<Longrightarrow> \<exists>x. get b i = Inr x"
    and predict_ok: "wf b \<Longrightarrow> \<exists>order index b'. predict b = Inr (order, index, b') \<and> wf b' \<and> (order \<noteq> 0 \<longrightarrow> index \<noteq> None)"

subsection \<open>Both kernels provide it\<close>

lemma sb_shift_ok: "sb_inv e b \<Longrightarrow> \<exists>b'. sb_put 0 x (sb_rotate_left 1 b) = Inr b' \<and> sb_inv e b'"
  using sb.shift_in_ok [of e b x] by (auto simp: sb.shift_in_def)

lemma zero_fill_ok: "sb_inv e b \<Longrightarrow> \<exists>b'. zero_fill i n b = Inr b' \<and> sb_inv e b'"
proof (induction n arbitrary: i b)
  case (Suc n)
  obtain b1 where "sb_put i 0 b = Inr b1" "sb_inv e b1" using sb_put_cells [OF Suc.prems] by blast
  then show ?case using Suc.IH [of b1 "i + 1"] by simp
qed simp

lemma sb_inv_size: "sb_inv e b \<Longrightarrow> sb_size b = 2 ^ e"
  by (simp add: sb_size_def sb_inv_def)

lemma new_buffer_ok:
  assumes "unat n < 64"
  shows "\<exists>b. zero_fill 0 (unat (sb_size (snd (sb_set_size True 0 n (sb_new :: u8 sbuf))))) (snd (sb_set_size True 0 n sb_new)) = Inr b \<and>
    sb_inv (unat n) b"
  by (rule zero_fill_ok [OF sb_set_size_inv(2) [OF assms]])

lemma lzp_new_ok:
  assumes "unat n < 64"
  shows "\<exists>s. lzp_new n = Inr s \<and> lzp_inv (unat n) s"
  using new_buffer_ok [OF assms] by (auto simp: lzp_new_def lzp_inv_def table_size_def sb_inv_size Let_def)

interpretation lzp_1: prediction_buffer "lzp_inv e" lzp_add lzp_predict_match lzp_get
proof (unfold_locales, goal_cases)
  case (1 b x)
  then show ?case using sb_shift_ok [of e "lzp_buffer b" x] by (auto simp: lzp_inv_def lzp_add_def)
next
  case (2 b i)
  then show ?case using sb_get_cells by (auto simp: lzp_inv_def lzp_get_def)
next
  case (3 b)
  obtain h where h: "lzp_hash b = Inr h" using lzp_hash_ok [OF 3] by blast
  then have "unat h < table_size" by (rule lzp_hash_bound)
  then show ?case using 3 h by (auto simp: lzp_predict_match_def lzp_inv_def Let_def)
qed

definition lzp2_inv :: "nat \<Rightarrow> lzp2 \<Rightarrow> bool" where
  "lzp2_inv e s \<longleftrightarrow> sb_inv e (lzp2_buffer s) \<and> length (table3 s) = table_size \<and> length (table4 s) = table_size \<and>
    lzp2_last_element s = 2 ^ e - 1"

lemma lzp2_new_ok:
  assumes "unat n < 64"
  shows "\<exists>s. lzp2_new True True n = Inr (Some s) \<and> lzp2_inv (unat n) s"
  using new_buffer_ok [OF assms] by (auto simp: lzp2_new_def lzp2_inv_def table_size_def sb_inv_size Let_def)

lemma lzp2_slots_ok:
  assumes "lzp2_inv e s"
  shows "\<exists>i3 i4 i5. lzp2_slots s = Inr (i3, i4, i5) \<and> unat i3 < table_size \<and> unat i4 < table_size \<and> unat i5 < table_size"
proof -
  have m: "unat (w AND 0xFFFF) < table_size" for w :: u64
    using word_and_le1 [of w "0xFFFF"] by (simp add: table_size_def word_le_nat_alt)
  have "\<exists>x. sb_get (lzp2_buffer s) i = Inr x" for i using assms sb_get_cells by (auto simp: lzp2_inv_def)
  then obtain b0 b1 b2 b3 b4 where "sb_get (lzp2_buffer s) 0 = Inr b0" "sb_get (lzp2_buffer s) 1 = Inr b1"
    "sb_get (lzp2_buffer s) 2 = Inr b2" "sb_get (lzp2_buffer s) 3 = Inr b3" "sb_get (lzp2_buffer s) 4 = Inr b4" by metis
  then show ?thesis by (auto simp: lzp2_slots_def Let_def m)
qed

lemma lzp2_update_ok:
  assumes "lzp2_inv e s" "unat i3 < table_size" "unat i4 < table_size" "unat i5 < table_size"
  shows "\<exists>s'. lzp2_update i3 i4 i5 s = Inr s' \<and> lzp2_inv e s' \<and> lzp2_buffer s' = lzp2_buffer s"
  using assms by (simp add: lzp2_update_def table_put_def table_at_def lzp2_inv_def)

lemma lzp2_found_ok:
  assumes "lzp2_inv e s" "unat i3 < table_size" "unat i4 < table_size" "unat i5 < table_size"
  shows "\<exists>s'. lzp2_found order x i3 i4 i5 s = Inr (order, Some (sb_get_element_index (lzp2_buffer s) x), s') \<and>
    lzp2_inv e s' \<and> lzp2_buffer s' = lzp2_buffer s"
  using lzp2_update_ok [OF assms] assms(1) by (auto simp: lzp2_found_def Let_def)

text \<open>The three symbols before the position \<open>index\<close> are those before the current one.\<close>

definition same_context :: "u8 sbuf \<Rightarrow> u64 \<Rightarrow> bool" where
  "same_context b index \<longleftrightarrow> sb_get b (index + 1) = sb_get b 0 \<and> sb_get b (index + 2) = sb_get b 1 \<and> sb_get b (index + 3) = sb_get b 2"

lemma lzp2_verify_iff:
  assumes "lzp2_inv e s"
  shows "lzp2_verify index s = Inr (index + 3 < sb_size (lzp2_buffer s) \<longrightarrow> same_context (lzp2_buffer s) index)"
proof -
  have "\<exists>x. sb_get (lzp2_buffer s) i = Inr x" for i using assms sb_get_cells by (auto simp: lzp2_inv_def)
  then obtain x0 x1 x2 y1 y2 y3 where "sb_get (lzp2_buffer s) 0 = Inr x0" "sb_get (lzp2_buffer s) 1 = Inr x1"
    "sb_get (lzp2_buffer s) 2 = Inr x2" "sb_get (lzp2_buffer s) (index + 1) = Inr y1"
    "sb_get (lzp2_buffer s) (index + 2) = Inr y2" "sb_get (lzp2_buffer s) (index + 3) = Inr y3" by metis
  then show ?thesis by (auto simp: lzp2_verify_def same_context_def Let_def)
qed

lemma lzp2_usable_iff:
  "lzp2_inv e s \<Longrightarrow> lzp2_usable x s = Inr (x \<noteq> sb_size (lzp2_buffer s) \<and>
    (sb_get_element_index (lzp2_buffer s) x + 3 < sb_size (lzp2_buffer s) \<longrightarrow>
      same_context (lzp2_buffer s) (sb_get_element_index (lzp2_buffer s) x)))"
  by (simp add: lzp2_usable_def lzp2_verify_iff)

lemma lzp2_predict_ok:
  assumes "lzp2_inv e s"
  shows "\<exists>order index s'. lzp2_predict_match s = Inr (order, index, s') \<and> lzp2_inv e s' \<and> lzp2_buffer s' = lzp2_buffer s \<and>
    (case index of None \<Rightarrow> order = 0
     | Some i \<Rightarrow> order \<in> {3, 4, 5} \<and> (i + 3 < sb_size (lzp2_buffer s) \<longrightarrow> same_context (lzp2_buffer s) i))"
proof -
  obtain i3 i4 i5 where i: "lzp2_slots s = Inr (i3, i4, i5)" "unat i3 < table_size" "unat i4 < table_size" "unat i5 < table_size"
    using lzp2_slots_ok [OF assms] by blast
  have "table_at (table3 s) i5 = Inr (table3 s ! unat i5)" "table_at (table4 s) i4 = Inr (table4 s ! unat i4)"
    "table_at (table3 s) i3 = Inr (table3 s ! unat i3)" using assms i by (simp_all add: table_at_def lzp2_inv_def)
  then show ?thesis using i(1) lzp2_update_ok [OF assms i(2-4)]
      lzp2_found_ok [OF assms i(2-4), of 5 "table3 s ! unat i5"] lzp2_found_ok [OF assms i(2-4), of 4 "table4 s ! unat i4"]
      lzp2_found_ok [OF assms i(2-4), of 3 "table3 s ! unat i3"]
    by (auto simp: lzp2_predict_match_def lzp2_usable_iff [OF assms])
qed

interpretation lzp_2: prediction_buffer "lzp2_inv e" lzp2_add lzp2_predict_match lzp2_get
proof (unfold_locales, goal_cases)
  case (1 b x)
  then show ?case using sb_shift_ok [of e "lzp2_buffer b" x] by (auto simp: lzp2_inv_def lzp2_add_def)
next
  case (2 b i)
  then show ?case using sb_get_cells by (auto simp: lzp2_inv_def lzp2_get_def)
next
  case (3 b)
  then show ?case using lzp2_predict_ok [of e b] by (auto split: option.splits)
qed

text \<open>
  A prediction of the second kernel has been verified: \<open>predict_match\<close> returns the order 3, 4
  or 5 with an index, and the three symbols before that place are those before the current one,
  unless the place is so close to the end of the buffer that the comparison would run over it; or it
  returns 0.  It leaves the symbols alone.
\<close>

theorem lzp2_prediction_verified:
  assumes "lzp2_inv e s"
  shows "\<exists>order index s'. lzp2_predict_match s = Inr (order, index, s') \<and> lzp2_inv e s' \<and> lzp2_buffer s' = lzp2_buffer s \<and>
    (case index of None \<Rightarrow> order = 0
     | Some i \<Rightarrow> order \<in> {3, 4, 5} \<and> (i + 3 < lzp2_size s \<longrightarrow>
        lzp2_get s (i + 1) = lzp2_get s 0 \<and> lzp2_get s (i + 2) = lzp2_get s 1 \<and> lzp2_get s (i + 3) = lzp2_get s 2))"
  unfolding lzp2_size_def lzp2_get_def by (rule lzp2_predict_ok [OF assms, unfolded same_context_def])

definition sample_lzp2 :: lzp2 where
  "sample_lzp2 = \<lparr> lzp2_buffer = \<lparr> buffer_start = 0, buffer_size = 8, buffer = Some [1, 2, 3, 1, 2, 3, 1, 2], mask_of = 7, current = 0, sb_start = True \<rparr>,
     table3 = replicate table_size 8, table4 = replicate table_size 2, lzp2_last_element = 7 \<rparr>"

theorem lzp2_prediction_verified_witness:
  "lzp2_inv 3 sample_lzp2 \<and> (\<exists>order index s'. lzp2_predict_match sample_lzp2 = Inr (order, index, s') \<and> lzp2_inv 3 s')"
proof -
  have "lzp2_inv 3 sample_lzp2" by (simp add: sample_lzp2_def lzp2_inv_def sb_inv_def table_size_def)
  then show ?thesis using lzp2_prediction_verified by blast
qed

end
