(* ===== verification/Compress_Lzp.thy ===== *)
theory Compress_Lzp
  imports Lzp_Kernels Checksum_Bytes
begin

text \<open>
  The model of \<open>src/dlib-minimal/lib/dlib/compress_stream/compress_stream_kernel_3.h\<close>: the compressor
  that predicts the next symbols with a prediction buffer and writes literals and match lengths in
  groups of eight, with a byte of flags before each group.  The operations of the prediction buffer
  are arguments: \<open>add\<close>, \<open>predict\<close> and \<open>get\<close>, its \<open>operator[]\<close>.  The members \<open>count\<close> and \<open>buffer\<close> of the
  object are the record \<open>pack\<close>; \<open>buffer\<close> has no initial value in the code, so that it is an argument.
\<close>

record pack =
  pack_count :: nat
  pack_buffer :: "u8 list"

definition pack_clear :: "pack \<Rightarrow> pack" where "pack_clear p = p \<lparr> pack_count := 0 \<rparr>"

definition write_byte :: "u8 \<Rightarrow> ostream \<Rightarrow> ostream io" where
  "write_byte symbol out = (case sputc symbol out of None \<Rightarrow> Some (Inl Write_Failure) | Some out \<Rightarrow> Some (Inr out))"

definition pack_encode :: "u8 \<Rightarrow> u8 \<Rightarrow> pack \<times> ostream \<Rightarrow> (pack \<times> ostream) io" where
  "pack_encode symbol flag = (\<lambda>(p, out).
    let count = pack_count p + 1; b = pack_buffer p in
    if count < length b then
      (let b = b[0 := push_bit 1 (b ! 0)]; b = b[count := symbol]; b = b[0 := b ! 0 OR flag] in
       if count = 8 then
         io_bind (sputn b out) (\<lambda>out. Some (Inr (\<lparr> pack_count = 0, pack_buffer = b[0 := 0] \<rparr>, out)))
       else Some (Inr (\<lparr> pack_count = count, pack_buffer = b \<rparr>, out)))
    else Some (Inl (Ub Out_Of_Bounds)))"

definition pack_flush :: "pack \<times> ostream \<Rightarrow> (pack \<times> ostream) io" where
  "pack_flush = (\<lambda>(p, out).
    if pack_count p \<noteq> 0 then
      if pack_buffer p = [] then Some (Inl (Ub Out_Of_Bounds))
      else
        (let b = (pack_buffer p)[0 := push_bit (8 - pack_count p) (pack_buffer p ! 0)] in
         io_bind (sputn b out) (\<lambda>out. Some (Inr (p \<lparr> pack_buffer := b \<rparr>, out))))
    else Some (Inr (p, out)))"

text \<open>\<open>sgetn\<close> of a whole group, with the test of its result.\<close>

definition get_group :: "pack \<times> u8 list \<Rightarrow> (pack \<times> u8 list) io" where
  "get_group = (\<lambda>(p, input).
    if length input < length (pack_buffer p) then Some (Inl Decompression_Error)
    else Some (Inr (\<lparr> pack_count = 8, pack_buffer = take (length (pack_buffer p)) input \<rparr>, drop (length (pack_buffer p)) input)))"

definition pack_decode :: "pack \<times> u8 list \<Rightarrow> ((u8 \<times> u8) \<times> pack \<times> u8 list) io" where
  "pack_decode s =
    io_bind (if pack_count (fst s) = 0 then get_group s else Some (Inr s)) (\<lambda>(p, input).
    let count = pack_count p - 1; b = pack_buffer p in
    if 8 - count < length b then
      Some (Inr ((b ! (8 - count), drop_bit 7 (b ! 0)), \<lparr> pack_count = count, pack_buffer = b[0 := push_bit 1 (b ! 0)] \<rparr>, input))
    else Some (Inl (Ub Out_Of_Bounds)))"

subsection \<open>compress\<close>

text \<open>The loop that finds the length of a match; an empty \<open>input\<close> is \<open>EOF\<close>.\<close>

fun match_run ::
  "(u8 \<Rightarrow> 'b \<Rightarrow> 'b c) \<Rightarrow> ('b \<Rightarrow> u64 \<Rightarrow> u8 c) \<Rightarrow> u64 \<Rightarrow> u8 list \<Rightarrow> u8 \<Rightarrow> 'b \<Rightarrow> crc32 \<Rightarrow> (u8 list \<times> u8 \<times> 'b \<times> crc32) c" where
  "match_run add get index [] len b crc = Inr ([], len, b, crc)"
| "match_run add get index (temp # input) len b crc =
    (if len < 255 \<and> \<not> ucast len \<ge> index then
       c_bind (get b index) (\<lambda>x.
       if temp = x then c_bind (add temp b) (\<lambda>b. match_run add get index input (len + 1) b (crc_add temp crc))
       else Inr (temp # input, len, b, crc))
     else Inr (temp # input, len, b, crc))"

lemma match_run_length: "match_run add get index input len b crc = Inr (input', r) \<Longrightarrow> length input' \<le> length input"
  by (induction input arbitrary: len b crc) (fastforce simp: c_bind_eq_Inr split: if_splits)+

text \<open>\<open>predict_match\<close> sets the index when its result is not 0; otherwise \<open>index\<close> is not read.\<close>

function lzp_compress_loop ::
  "(u8 \<Rightarrow> 'b \<Rightarrow> 'b c) \<Rightarrow> ('b \<Rightarrow> (u64 \<times> u64 option \<times> 'b) c) \<Rightarrow> ('b \<Rightarrow> u64 \<Rightarrow> u8 c) \<Rightarrow>
    u8 list \<Rightarrow> 'b \<Rightarrow> crc32 \<Rightarrow> pack \<times> ostream \<Rightarrow> ('b \<times> crc32 \<times> pack \<times> ostream) io" where
  "lzp_compress_loop add predict get [] b crc k = Some (Inr (b, crc, k))"
| "lzp_compress_loop add predict get (symbol # input) b crc k =
    io_bind (io_c (predict b)) (\<lambda>(order, index, b).
    io_bind (if order \<noteq> 0 then case index of None \<Rightarrow> Some (Inl (Ub Uninitialised))
        | Some i \<Rightarrow> io_bind (io_c (get b i)) (\<lambda>x. Some (Inr (if x = symbol then index else None)))
      else Some (Inr None)) (\<lambda>match. case match of
      Some i \<Rightarrow>
        io_bind (io_c (add symbol b)) (\<lambda>b.
        io_bind (io_c (match_run add get i input 1 b (crc_add symbol crc))) (\<lambda>(input, len, b, crc).
        io_bind (pack_encode len 1 k) (\<lambda>k. lzp_compress_loop add predict get input b crc k)))
    | None \<Rightarrow>
        io_bind (pack_encode symbol 0 k) (\<lambda>k.
        io_bind (io_c (add symbol b)) (\<lambda>b. lzp_compress_loop add predict get input b (crc_add symbol crc) k))))"
  by pat_completeness auto
termination
  by (relation "measure (\<lambda>(add, predict, get, input, b, crc, k). length input)")
    (auto simp: io_c_eq_Inr less_Suc_eq_le dest!: match_run_length)

fun pack_all :: "(u8 \<times> u8) list \<Rightarrow> pack \<times> ostream \<Rightarrow> (pack \<times> ostream) io" where
  "pack_all [] k = Some (Inr k)"
| "pack_all ((symbol, flag) # ts) k = io_bind (pack_encode symbol flag k) (\<lambda>k. pack_all ts k)"

text \<open>\<open>b\<close> is the new prediction buffer and \<open>p\<close> the object on entry.\<close>

definition lzp_compress ::
  "(u8 \<Rightarrow> 'b \<Rightarrow> 'b c) \<Rightarrow> ('b \<Rightarrow> (u64 \<times> u64 option \<times> 'b) c) \<Rightarrow> ('b \<Rightarrow> u64 \<Rightarrow> u8 c) \<Rightarrow>
    'b \<Rightarrow> u8 list \<Rightarrow> pack \<Rightarrow> ostream \<Rightarrow> (pack \<times> ostream) io" where
  "lzp_compress add predict get b input p out =
    io_bind (lzp_compress_loop add predict get input b crc_new (pack_clear p, out)) (\<lambda>(b, crc, k).
    io_bind (pack_encode 0 1 k) (\<lambda>k.
    io_bind (pack_all (map (\<lambda>byte. (byte, 0)) (checksum_bytes (crc_get_checksum crc))) k) (\<lambda>k. pack_flush k)))"

subsection \<open>decompress\<close>

text \<open>The loop that copies a match; it has its test at the end.\<close>

function copy_run ::
  "(u8 \<Rightarrow> 'b \<Rightarrow> 'b c) \<Rightarrow> ('b \<Rightarrow> u64 \<Rightarrow> u8 c) \<Rightarrow> u64 \<Rightarrow> u8 \<Rightarrow> 'b \<Rightarrow> crc32 \<Rightarrow> ostream \<Rightarrow> ('b \<times> crc32 \<times> ostream) io" where
  "copy_run add get index len b crc out =
    (let len = len - 1 in
     io_bind (io_c (get b index)) (\<lambda>symbol.
     io_bind (write_byte symbol out) (\<lambda>out.
     io_bind (io_c (add symbol b)) (\<lambda>b.
     let crc = crc_add symbol crc in
     if len \<noteq> 0 then copy_run add get index len b crc out else Some (Inr (b, crc, out))))))"
  by pat_completeness auto
termination
proof (relation "measure (\<lambda>(add, get, index, len, b, crc, out). if len = 0 then 256 else unat len)", goal_cases)
  case (2 add get index len b crc out)
  then show ?case using unsigned_less [of "len - 1", where 'a = nat] by (auto simp: unat_minus_one unat_gt_0 word_gt_0)
qed simp

declare copy_run.simps [simp del]

text \<open>Every symbol that is decoded uses up a part of the rest of the input.\<close>

definition symbols_left :: "pack \<times> u8 list \<Rightarrow> nat" where
  "symbols_left = (\<lambda>(p, input). pack_count p + 8 * length input)"

lemma pack_decode_left: "pack_decode s = Some (Inr (t, s')) \<Longrightarrow> symbols_left s' < symbols_left s"
  by (cases s) (auto simp: pack_decode_def get_group_def symbols_left_def Let_def io_returns split: if_splits)

text \<open>
  The call of \<open>decode\<close> before the loop and the one at its end are one here, at the beginning of a turn.
  The result is that of the loop: the checksum, what is left of the input and the output.
\<close>

function lzp_decompress_loop ::
  "(u8 \<Rightarrow> 'b \<Rightarrow> 'b c) \<Rightarrow> ('b \<Rightarrow> (u64 \<times> u64 option \<times> 'b) c) \<Rightarrow> ('b \<Rightarrow> u64 \<Rightarrow> u8 c) \<Rightarrow>
    u64 \<Rightarrow> 'b \<Rightarrow> crc32 \<Rightarrow> pack \<times> u8 list \<Rightarrow> ostream \<Rightarrow> (crc32 \<times> (pack \<times> u8 list) \<times> ostream) io" where
  "lzp_decompress_loop add predict get index b crc s out =
    io_bind (pack_decode s) (\<lambda>(t, s). case t of (symbol, flag) \<Rightarrow>
    if flag = 0 \<or> symbol \<noteq> 0 then
      io_bind (io_c (predict b)) (\<lambda>(order, found, b).
      let index = (case found of None \<Rightarrow> index | Some i \<Rightarrow> i) in
      io_bind (if flag = 1 then copy_run add get index symbol b crc out
        else io_bind (write_byte symbol out) (\<lambda>out.
             io_bind (io_c (add symbol b)) (\<lambda>b. Some (Inr (b, crc_add symbol crc, out))))) (\<lambda>(b, crc, out).
      lzp_decompress_loop add predict get index b crc s out))
    else Some (Inr (crc, s, out)))"
  by pat_completeness auto
termination
  by (relation "measure (\<lambda>(add, predict, get, index, b, crc, s, out). symbols_left s)") (auto dest: pack_decode_left)

declare lzp_decompress_loop.simps [simp del]

text \<open>The bytes of the checksum, which must be literals.\<close>

fun unpack_bytes :: "nat \<Rightarrow> pack \<times> u8 list \<Rightarrow> (u8 list \<times> pack \<times> u8 list) io" where
  "unpack_bytes 0 s = Some (Inr ([], s))"
| "unpack_bytes (Suc n) s =
    io_bind (pack_decode s) (\<lambda>((byte, flag), s).
    if flag \<noteq> 0 then Some (Inl Decompression_Error)
    else io_bind (unpack_bytes n s) (\<lambda>(bytes, s). Some (Inr (byte # bytes, s))))"

definition lzp_decompress ::
  "(u8 \<Rightarrow> 'b \<Rightarrow> 'b c) \<Rightarrow> ('b \<Rightarrow> (u64 \<times> u64 option \<times> 'b) c) \<Rightarrow> ('b \<Rightarrow> u64 \<Rightarrow> u8 c) \<Rightarrow>
    'b \<Rightarrow> u8 list \<Rightarrow> pack \<Rightarrow> ostream \<Rightarrow> (u8 list \<times> ostream) io" where
  "lzp_decompress add predict get b input p out =
    io_bind (lzp_decompress_loop add predict get 0 b crc_new (pack_clear p, input) out) (\<lambda>(crc, s, out).
    io_bind (unpack_bytes 4 s) (\<lambda>(bytes, s).
    if read_bytes bytes 0 \<noteq> crc_get_checksum crc then Some (Inl Decompression_Error)
    else Some (Inr (snd s, out))))"

subsection \<open>Groups of symbols and flags\<close>

declare push_bit_Suc [simp del]

definition flag_of :: "bool \<Rightarrow> u8" where "flag_of f = of_bool f"

text \<open>The nine bytes \<open>g\<close> of a group hold the symbols and flags \<open>ts\<close>; a group may have bytes to spare.\<close>

definition group_holds :: "u8 list \<Rightarrow> (u8 \<times> u8) list \<Rightarrow> bool" where
  "group_holds g ts \<longleftrightarrow> length g = 9 \<and> length ts \<le> 8 \<and>
    (\<forall>i < length ts. g ! Suc i = fst (ts ! i) \<and> snd (ts ! i) = flag_of (bit (g ! 0) (7 - i)))"

text \<open>The object holds the symbols and flags of a group that is not full.\<close>

definition group_begun :: "pack \<Rightarrow> (u8 \<times> u8) list \<Rightarrow> bool" where
  "group_begun p ts \<longleftrightarrow> length (pack_buffer p) = 9 \<and> pack_count p = length ts \<and> length ts < 8 \<and>
    (\<forall>i < length ts. pack_buffer p ! Suc i = fst (ts ! i) \<and>
      snd (ts ! i) = flag_of (bit (pack_buffer p ! 0) (length ts - 1 - i)))"

lemma push_flag: "bit (push_bit (Suc 0) (w :: u8) OR flag_of f) n \<longleftrightarrow> (if n = 0 then f else n < 8 \<and> bit w (n - 1))"
  by (cases n) (auto simp: bit_simps flag_of_def)

lemma group_step:
  fixes symbol :: u8 and f :: bool
  assumes "group_begun p ts"
  defines "b \<equiv> (pack_buffer p)[0 := push_bit 1 (pack_buffer p ! 0) OR flag_of f, Suc (length ts) := symbol]"
  shows "length ts = 7 \<Longrightarrow> group_holds b (ts @ [(symbol, flag_of f)])"
    "length ts < 7 \<Longrightarrow> group_begun \<lparr> pack_count = Suc (length ts), pack_buffer = b \<rparr> (ts @ [(symbol, flag_of f)])"
proof -
  have l: "length (pack_buffer p) = 9" "length ts < 8" using assms(1) by (simp_all add: group_begun_def)
  have b: "length b = 9" "b ! 0 = push_bit 1 (pack_buffer p ! 0) OR flag_of f"
    "\<And>i. i < length ts \<Longrightarrow> b ! Suc i = pack_buffer p ! Suc i" "b ! Suc (length ts) = symbol"
    using l by (simp_all add: b_def nth_list_update)
  have s: "b ! Suc i = fst ((ts @ [(symbol, flag_of f)]) ! i) \<and>
      snd ((ts @ [(symbol, flag_of f)]) ! i) = flag_of (bit (b ! 0) (length ts - i))" if "i < Suc (length ts)" for i
  proof (cases "i = length ts")
    case False
    then have i: "i < length ts" "length ts - i \<noteq> 0" "length ts - i < 8" "length ts - i - 1 = length ts - 1 - i" using that l by auto
    then show ?thesis using assms(1) b by (simp add: group_begun_def push_flag nth_append)
  qed (simp add: b push_flag nth_append)
  show "group_holds b (ts @ [(symbol, flag_of f)])" if "length ts = 7" using s b(1) that by (simp add: group_holds_def)
  show "group_begun \<lparr> pack_count = Suc (length ts), pack_buffer = b \<rparr> (ts @ [(symbol, flag_of f)])" if "length ts < 7"
    using s b(1) that by (simp add: group_begun_def)
qed

lemma group_flush:
  assumes "group_begun p ts"
  shows "group_holds ((pack_buffer p)[0 := push_bit (8 - length ts) (pack_buffer p ! 0)]) ts"
proof -
  have l: "length (pack_buffer p) = 9" "length ts < 8" using assms by (simp_all add: group_begun_def)
  have "bit (push_bit (8 - length ts) (pack_buffer p ! 0)) (7 - i) \<longleftrightarrow> bit (pack_buffer p ! 0) (length ts - 1 - i)"
    if "i < length ts" for i
  proof -
    have "7 - i - (8 - length ts) = length ts - 1 - i" "8 - length ts \<le> 7 - i" using that l(2) by auto
    then show ?thesis by (auto simp: bit_push_bit_iff)
  qed
  then show ?thesis using assms l by (auto simp: group_begun_def group_holds_def)
qed

text \<open>Full groups one after the other.\<close>

inductive full_groups :: "u8 list \<Rightarrow> (u8 \<times> u8) list \<Rightarrow> bool" where
  none: "full_groups [] []"
| one_more: "full_groups bs us \<Longrightarrow> group_holds g ts \<Longrightarrow> length ts = 8 \<Longrightarrow> full_groups (bs @ g) (us @ ts)"

text \<open>\<open>w\<close> was in the output before; the symbols and flags \<open>ts\<close> have been encoded since.\<close>

definition packs :: "u8 list \<Rightarrow> (u8 \<times> u8) list \<Rightarrow> pack \<times> ostream \<Rightarrow> bool" where
  "packs w ts = (\<lambda>(p, out). room out = None \<and>
    (\<exists>bs us ps. written out = w @ bs \<and> full_groups bs us \<and> group_begun p ps \<and> ts = us @ ps))"

lemma sputn_unlimited: "room out = None \<Longrightarrow> sputn bs out = Some (Inr (out \<lparr> written := written out @ bs \<rparr>))"
  using sputn_room [of out bs 0] by (simp add: has_room_def)

lemma packs_start: "length (pack_buffer p) = 9 \<Longrightarrow> room out = None \<Longrightarrow> packs (written out) [] (pack_clear p, out)"
  by (auto simp: packs_def group_begun_def pack_clear_def intro: full_groups.none)

lemma pack_encode_ok:
  assumes "packs w ts k"
  shows "\<exists>k'. pack_encode symbol (flag_of f) k = Some (Inr k') \<and> packs w (ts @ [(symbol, flag_of f)]) k'"
proof -
  obtain p out where k: "k = (p, out)" by (cases k)
  obtain bs us ps where s: "room out = None" "written out = w @ bs" "full_groups bs us" "group_begun p ps" "ts = us @ ps"
    using assms by (auto simp: packs_def k)
  have l: "length (pack_buffer p) = 9" "pack_count p = length ps" "length ps < 8" using s(4) by (simp_all add: group_begun_def)
  let ?b = "(pack_buffer p)[0 := push_bit 1 (pack_buffer p ! 0) OR flag_of f, Suc (length ps) := symbol]"
  have b: "(pack_buffer p)[0 := push_bit 1 (pack_buffer p ! 0), Suc (length ps) := symbol,
      0 := (pack_buffer p)[0 := push_bit 1 (pack_buffer p ! 0), Suc (length ps) := symbol] ! 0 OR flag_of f] = ?b"
    using l by (simp add: list_update_swap)
  show ?thesis
  proof (cases "length ps = 7")
    case True
    let ?k = "(\<lparr> pack_count = 0, pack_buffer = (pack_buffer p)[0 := 0, Suc (length ps) := symbol] \<rparr>, out \<lparr> written := written out @ ?b \<rparr>)"
    have z: "(pack_buffer p)[0 := x, 8 := symbol, 0 := 0] = (pack_buffer p)[0 := 0, 8 := symbol]" for x
      by (subst list_update_swap) simp_all
    have "pack_encode symbol (flag_of f) k = Some (Inr ?k)"
      using l True b z sputn_unlimited [OF s(1)] by (simp add: pack_encode_def k Let_def)
    moreover have "full_groups (bs @ ?b) (us @ (ps @ [(symbol, flag_of f)]))"
      using group_step(1) [OF s(4) True, of f symbol] True by (intro full_groups.one_more [OF s(3)]) simp_all
    moreover have "group_begun (fst ?k) []" using l by (simp add: group_begun_def)
    ultimately show ?thesis using s(1,2,5) by (fastforce simp: packs_def)
  next
    case False
    then have "pack_encode symbol (flag_of f) k = Some (Inr (\<lparr> pack_count = Suc (length ps), pack_buffer = ?b \<rparr>, out))"
      using l b by (simp add: pack_encode_def k Let_def)
    moreover have "group_begun \<lparr> pack_count = Suc (length ps), pack_buffer = ?b \<rparr> (ps @ [(symbol, flag_of f)])"
      using group_step(2) [OF s(4)] False l(3) by simp
    ultimately show ?thesis using s by (fastforce simp: packs_def)
  qed
qed

text \<open>Reading from \<open>s\<close> gives \<open>ts\<close>, and then \<open>rest\<close> is what has not been read.\<close>

fun yields :: "pack \<times> u8 list \<Rightarrow> (u8 \<times> u8) list \<Rightarrow> u8 list \<Rightarrow> bool" where
  "yields s [] rest \<longleftrightarrow> snd s = rest"
| "yields s (t # ts) rest \<longleftrightarrow> (\<exists>s'. pack_decode s = Some (Inr (t, s')) \<and> yields s' ts rest)"

text \<open>The object before a new group.\<close>

definition between_groups :: "pack \<Rightarrow> bool" where
  "between_groups p \<longleftrightarrow> pack_count p = 0 \<and> length (pack_buffer p) = 9"

definition inside_group :: "u8 list \<Rightarrow> nat \<Rightarrow> pack" where
  "inside_group g j = \<lparr> pack_count = 8 - j, pack_buffer = g[0 := push_bit j (g ! 0)] \<rparr>"

lemma top_flag: "j < 8 \<Longrightarrow> drop_bit 7 (push_bit j (w :: u8)) = flag_of (bit w (7 - j))"
proof (rule bit_word_eqI)
  fix n assume "j < 8" "n < LENGTH(8)"
  then show "bit (drop_bit 7 (push_bit j w)) n \<longleftrightarrow> bit (flag_of (bit w (7 - j))) n"
    by (cases n) (auto simp: bit_simps flag_of_def)
qed

lemma decode_inside:
  assumes "length g = 9" "j < 8"
  shows "pack_decode (inside_group g j, input) =
    Some (Inr ((g ! Suc j, flag_of (bit (g ! 0) (7 - j))), inside_group g (Suc j), input))"
proof -
  have j: "8 - (8 - j - 1) = Suc j" "8 - j - 1 = 8 - Suc j" "8 - j \<noteq> 0" using assms(2) by auto
  have "g \<noteq> []" "push_bit (Suc 0) (push_bit j (g ! 0)) = push_bit (Suc j) (g ! 0)" using assms(1) by (auto simp: push_bit_push_bit)
  then show ?thesis using assms j by (simp add: pack_decode_def inside_group_def Let_def top_flag)
qed

lemma decode_between:
  assumes "between_groups p" "length g = 9"
  shows "pack_decode (p, g @ input) = pack_decode (inside_group g 0, input)"
  using assms by (simp add: pack_decode_def inside_group_def between_groups_def get_group_def)

lemma inside_yields:
  assumes "group_holds g ts" "us = [] \<or> length ts = 8" "\<And>p. between_groups p \<Longrightarrow> yields (p, input) us rest" "j \<le> length ts"
  shows "yields (inside_group g j, input) (drop j ts @ us) rest"
  using assms(4)
proof (induction "length ts - j" arbitrary: j)
  case 0
  then have j: "j = length ts" by simp
  show ?case
  proof (cases "us = []")
    case True
    have "between_groups \<lparr> pack_count = 0, pack_buffer = replicate 9 0 \<rparr>" by (simp add: between_groups_def)
    then show ?thesis using True j assms(3) by fastforce
  next
    case False
    then have "between_groups (inside_group g j)" using assms(1,2) j by (simp add: between_groups_def inside_group_def group_holds_def)
    then show ?thesis using j assms(3) by simp
  qed
next
  case (Suc k)
  then have j: "j < length ts" "k = length ts - Suc j" "Suc j \<le> length ts" by auto
  have g: "length g = 9" "j < 8" "g ! Suc j = fst (ts ! j)" "snd (ts ! j) = flag_of (bit (g ! 0) (7 - j))"
    using assms(1) j(1) by (auto simp: group_holds_def)
  have "pack_decode (inside_group g j, input) = Some (Inr (ts ! j, inside_group g (Suc j), input))"
    unfolding decode_inside [OF g(1,2)] g(3) by (simp flip: g(4))
  then show ?case using Suc.hyps(1) [OF j(2,3)] j(1) by (simp flip: Cons_nth_drop_Suc)
qed

lemma group_yields:
  assumes "group_holds g ts" "ts \<noteq> []" "us = [] \<or> length ts = 8" "\<And>p. between_groups p \<Longrightarrow> yields (p, input) us rest"
    "between_groups p"
  shows "yields (p, g @ input) (ts @ us) rest"
proof -
  have "length g = 9" using assms(1) by (simp add: group_holds_def)
  then show ?thesis using inside_yields [OF assms(1,3,4), of 0] assms(2) decode_between [OF assms(5)] by (cases ts) auto
qed

lemma full_groups_yield:
  assumes "full_groups bs ts" "\<And>p. between_groups p \<Longrightarrow> yields (p, input) us rest" "between_groups p"
  shows "yields (p, bs @ input) (ts @ us) rest"
  using assms
proof (induction arbitrary: input us p rule: full_groups.induct)
  case (one_more bs vs g ts)
  have "yields (p, g @ input) (ts @ us) rest" if "between_groups p" for p
    using one_more.hyps one_more.prems(1) that by (intro group_yields) auto
  then show ?case using one_more.IH [of "g @ input" "ts @ us" p] one_more.prems(2) by simp
qed simp

text \<open>What \<open>flush\<close> leaves in the output is what the reader needs.\<close>

lemma pack_flush_ok:
  assumes "packs w ts k"
  shows "\<exists>p' out bs. pack_flush k = Some (Inr (p', out)) \<and> written out = w @ bs \<and>
    (\<forall>p extra. between_groups p \<longrightarrow> yields (p, bs @ extra) ts extra)"
proof -
  obtain p out where k: "k = (p, out)" by (cases k)
  obtain bs us ps where s: "room out = None" "written out = w @ bs" "full_groups bs us" "group_begun p ps" "ts = us @ ps"
    using assms by (auto simp: packs_def k)
  have l: "length (pack_buffer p) = 9" "pack_count p = length ps" "length ps < 8" using s(4) by (simp_all add: group_begun_def)
  show ?thesis
  proof (cases "ps = []")
    case True
    then show ?thesis using s l full_groups_yield [OF s(3), of _ "[]"] by (fastforce simp: pack_flush_def k)
  next
    case False
    let ?g = "(pack_buffer p)[0 := push_bit (8 - length ps) (pack_buffer p ! 0)]"
    have "pack_flush k = Some (Inr (p \<lparr> pack_buffer := ?g \<rparr>, out \<lparr> written := written out @ ?g \<rparr>))"
      using l False sputn_unlimited [OF s(1)] by (auto simp: pack_flush_def k Let_def)
    moreover have "yields (q, (bs @ ?g) @ extra) ts extra" if "between_groups q" for q extra
      using full_groups_yield [OF s(3), of "?g @ extra" ps extra q]
        group_yields [OF group_flush [OF s(4)] False, of "[]" extra extra] that s(5) by simp
    ultimately show ?thesis using s(2) by (intro exI conjI allI impI) (assumption | simp)+
  qed
qed

subsection \<open>Literals and matches come back\<close>

lemma has_room_add:
  "has_room out (m + n) \<Longrightarrow> has_room out m"
  "has_room out (length xs + n) \<Longrightarrow> has_room (out \<lparr> written := written out @ xs \<rparr>) n"
  by (auto simp: has_room_def split: option.splits)

lemma write_byte_room: "has_room out (Suc n) \<Longrightarrow> write_byte x out = Some (Inr (out \<lparr> written := written out @ [x] \<rparr>))"
  using sputc_room(1) [of out n x] by (simp add: write_byte_def)

definition pack_ok :: "pack \<Rightarrow> bool" where
  "pack_ok p \<longleftrightarrow> pack_count p \<le> 8 \<and> length (pack_buffer p) = 9"

lemma pack_decode_safe:
  assumes "pack_ok (fst s)"
  shows "pack_decode s = Some (Inl Decompression_Error) \<or> (\<exists>t s'. pack_decode s = Some (Inr (t, s')) \<and> pack_ok (fst s'))"
proof -
  obtain p input where s: "s = (p, input)" by (cases s)
  have "8 - (c - 1) < 9" if "c \<le> 8" for c :: nat by simp
  then show ?thesis using assms by (auto simp: s pack_decode_def get_group_def pack_ok_def Let_def)
qed

lemma pack_all_ok:
  assumes "packs w ts k"
  shows "\<exists>k'. pack_all (map (\<lambda>b. (b, flag_of False)) bs) k = Some (Inr k') \<and> packs w (ts @ map (\<lambda>b. (b, flag_of False)) bs) k'"
  using assms
proof (induction bs arbitrary: ts k)
  case (Cons b bs)
  obtain k1 where "pack_encode b (flag_of False) k = Some (Inr k1)" "packs w (ts @ [(b, flag_of False)]) k1"
    using pack_encode_ok [OF Cons.prems] by blast
  then show ?case using Cons.IH [of "ts @ [(b, flag_of False)]" k1] by auto
qed auto

lemma unpack_bytes_ok:
  "yields s (map (\<lambda>b. (b, flag_of False)) bs) rest \<Longrightarrow> \<exists>s'. unpack_bytes (length bs) s = Some (Inr (bs, s')) \<and> snd s' = rest"
  by (induction bs arbitrary: s) (fastforce simp: flag_of_def)+

context prediction_buffer
begin

text \<open>Copying from the place of the match gives \<open>xs\<close>.\<close>

fun copies :: "u64 \<Rightarrow> u8 list \<Rightarrow> 'b \<Rightarrow> 'b \<Rightarrow> bool" where
  "copies index [] b b' \<longleftrightarrow> b' = b"
| "copies index (x # xs) b b' \<longleftrightarrow> get b index = Inr x \<and> (\<exists>b1. add x b = Inr b1 \<and> copies index xs b1 b')"

lemma match_run_ok:
  assumes "wf b" "unat len \<le> 255"
  shows "\<exists>xs input' b'. match_run add get index input len b crc =
      Inr (input', len + of_nat (length xs), b', fold crc_add xs crc) \<and>
    input = xs @ input' \<and> wf b' \<and> copies index xs b b' \<and> unat len + length xs \<le> 255"
  using assms
proof (induction input arbitrary: len b crc)
  case (Cons x input)
  obtain y where y: "get b index = Inr y" using get_ok [OF Cons.prems(1)] by blast
  obtain b1 where b1: "add x b = Inr b1" "wf b1" using add_ok [OF Cons.prems(1)] by blast
  show ?case
  proof (cases "len < 255 \<and> \<not> ucast len \<ge> index \<and> x = y")
    case True
    then have l: "unat (len + 1) = unat len + 1" "unat (len + 1) \<le> 255"
      using unsigned_less [of "len + 1", where 'a = nat] by (simp_all add: unat_word_ariths word_less_nat_alt)
    obtain xs input' b' where "match_run add get index input (len + 1) b1 (crc_add x crc) =
        Inr (input', len + 1 + of_nat (length xs), b', fold crc_add xs (crc_add x crc))"
      "input = xs @ input'" "wf b'" "copies index xs b1 b'" "unat (len + 1) + length xs \<le> 255"
      using Cons.IH [OF b1(2) l(2)] by blast
    then show ?thesis using True y b1(1) l(1) by (intro exI [of _ "x # xs"] exI [of _ input'] exI [of _ b']) (simp add: ac_simps)
  next
    case False
    then show ?thesis using y Cons.prems by (intro exI [of _ "[]"] exI [of _ "x # input"] exI [of _ b]) auto
  qed
qed simp

lemma copy_run_ok:
  assumes "copies index xs b b'" "xs \<noteq> []" "length xs < 256" "has_room out (length xs)"
  shows "copy_run add get index (of_nat (length xs)) b crc out =
    Some (Inr (b', fold crc_add xs crc, out \<lparr> written := written out @ xs \<rparr>))"
  using assms
proof (induction xs arbitrary: b crc out)
  case (Cons x xs)
  obtain b1 where b1: "get b index = Inr x" "add x b = Inr b1" "copies index xs b1 b'" using Cons.prems(1) by auto
  have l: "of_nat (length (x # xs)) - (1 :: u8) = of_nat (length xs)" by simp
  have z: "of_nat (length xs) = (0 :: u8) \<longleftrightarrow> xs = []"
    using Cons.prems(3) by (auto simp: word_unat_eq_iff unat_of_nat)
  have w: "write_byte x out = Some (Inr (out \<lparr> written := written out @ [x] \<rparr>))"
    using write_byte_room [of out "length xs" x] Cons.prems(4) by simp
  have "has_room (out \<lparr> written := written out @ [x] \<rparr>) (length xs)" using has_room_add(2) [of out "[x]" "length xs"] Cons.prems(4) by simp
  then have "copy_run add get index (of_nat (length xs)) b1 (crc_add x crc) (out \<lparr> written := written out @ [x] \<rparr>) =
      Some (Inr (b', fold crc_add xs (crc_add x crc), out \<lparr> written := written out @ x # xs \<rparr>))" if "xs \<noteq> []"
    using Cons.IH [OF b1(3) that] Cons.prems(3) by simp
  then show ?case using b1 w l z by (subst copy_run.simps) (auto simp: Let_def)
qed simp

text \<open>
  Decoding \<open>ts\<close> from the state \<open>b\<close> writes \<open>xs\<close> and leads to the state \<open>b'\<close>.
\<close>

definition replays :: "'b \<Rightarrow> (u8 \<times> u8) list \<Rightarrow> u8 list \<Rightarrow> 'b \<Rightarrow> bool" where
  "replays b ts xs b' \<longleftrightarrow> (\<forall>crc index s us rest out. yields s (ts @ us) rest \<longrightarrow> has_room out (length xs) \<longrightarrow>
    (\<exists>index' s'. yields s' us rest \<and> lzp_decompress_loop add predict get index b crc s out =
      lzp_decompress_loop add predict get index' b' (fold crc_add xs crc) s' (out \<lparr> written := written out @ xs \<rparr>)))"

lemma replays_Nil: "replays b [] [] b"
  by (auto simp: replays_def)

lemma replays_append:
  assumes "replays b ts xs b1" "replays b1 us ys b2"
  shows "replays b (ts @ us) (xs @ ys) b2"
  unfolding replays_def
proof (intro allI impI)
  fix crc index s vs rest out
  assume y: "yields s ((ts @ us) @ vs) rest" and r: "has_room out (length (xs @ ys))"
  let ?out = "out \<lparr> written := written out @ xs \<rparr>" and ?L = "lzp_decompress_loop add predict get"
  have "has_room out (length xs)" "has_room ?out (length ys)" using r has_room_add by simp_all
  then obtain i1 s1 where 1: "yields s1 (us @ vs) rest" "?L index b crc s out = ?L i1 b1 (fold crc_add xs crc) s1 ?out"
    using assms(1) y unfolding replays_def append_assoc by blast
  obtain i2 s2 where "yields s2 vs rest"
    "?L i1 b1 (fold crc_add xs crc) s1 ?out =
      ?L i2 b2 (fold crc_add ys (fold crc_add xs crc)) s2 (?out \<lparr> written := written ?out @ ys \<rparr>)"
    using assms(2) 1(1) \<open>has_room ?out (length ys)\<close> unfolding replays_def by blast
  then show "\<exists>i' s'. yields s' vs rest \<and> ?L index b crc s out =
      ?L i' b2 (fold crc_add (xs @ ys) crc) s' (out \<lparr> written := written out @ xs @ ys \<rparr>)"
    using 1(2) by (intro exI [of _ i2] exI [of _ s2]) simp
qed

lemma replays_literal:
  assumes "predict b = Inr (order, index, b1)" "add x b1 = Inr b2"
  shows "replays b [(x, flag_of False)] [x] b2"
  unfolding replays_def
proof (intro allI impI)
  fix crc i s us rest out
  assume y: "yields s ([(x, flag_of False)] @ us) rest" and r: "has_room out (length [x])"
  obtain s' where s': "pack_decode s = Some (Inr ((x, flag_of False), s'))" "yields s' us rest" using y by auto
  have "write_byte x out = Some (Inr (out \<lparr> written := written out @ [x] \<rparr>))" using write_byte_room [of out 0 x] r by simp
  then show "\<exists>i' s'. yields s' us rest \<and> lzp_decompress_loop add predict get i b crc s out =
      lzp_decompress_loop add predict get i' b2 (fold crc_add [x] crc) s' (out \<lparr> written := written out @ [x] \<rparr>)"
    using s' assms by (intro exI [of _ "case index of None \<Rightarrow> i | Some j \<Rightarrow> j"] exI [of _ s'], subst lzp_decompress_loop.simps)
      (auto simp: flag_of_def Let_def)
qed

lemma replays_match:
  assumes "predict b = Inr (order, Some index, b1)" "copies index xs b1 b2" "xs \<noteq> []" "length xs < 256"
  shows "replays b [(of_nat (length xs), flag_of True)] xs b2"
  unfolding replays_def
proof (intro allI impI)
  fix crc i s us rest out
  assume y: "yields s ([(of_nat (length xs), flag_of True)] @ us) rest" and r: "has_room out (length xs)"
  obtain s' where s': "pack_decode s = Some (Inr ((of_nat (length xs), flag_of True), s'))" "yields s' us rest" using y by auto
  have "of_nat (length xs) \<noteq> (0 :: u8)" using assms(3,4) by (auto simp: word_unat_eq_iff unat_of_nat)
  then show "\<exists>i' s'. yields s' us rest \<and> lzp_decompress_loop add predict get i b crc s out =
      lzp_decompress_loop add predict get i' b2 (fold crc_add xs crc) s' (out \<lparr> written := written out @ xs \<rparr>)"
    using s' assms(1) copy_run_ok [OF assms(2-4) r]
    by (intro exI [of _ index] exI [of _ s'], subst lzp_decompress_loop.simps) (auto simp: flag_of_def Let_def)
qed

subsection \<open>Compressing and decompressing\<close>

lemma lzp_compress_loop_ok:
  assumes "wf b" "packs w ts k"
  shows "\<exists>b' k' us. lzp_compress_loop add predict get input b crc k = Some (Inr (b', fold crc_add input crc, k')) \<and>
    packs w (ts @ us) k' \<and> replays b us input b'"
  using assms
proof (induction "length input" arbitrary: input b crc k ts rule: less_induct)
  case less
  show ?case
  proof (cases input)
    case Nil
    then show ?thesis using less.prems replays_Nil by (intro exI [of _ b] exI [of _ k] exI [of _ "[]"]) simp
  next
    case (Cons x input1)
    obtain order index b1 where p: "predict b = Inr (order, index, b1)" "wf b1" "order \<noteq> 0 \<longrightarrow> index \<noteq> None"
      using predict_ok [OF less.prems(1)] by blast
    obtain b2 where b2: "add x b1 = Inr b2" "wf b2" using add_ok [OF p(2)] by blast
    show ?thesis
    proof (cases "order \<noteq> 0 \<and> get b1 (the index) = Inr x")
      case True
      then obtain i where i: "index = Some i" "get b1 i = Inr x" "order \<noteq> 0" using p(3) by auto
      obtain xs input2 b3 where m: "match_run add get i input1 1 b2 (crc_add x crc) =
          Inr (input2, 1 + of_nat (length xs), b3, fold crc_add xs (crc_add x crc))"
        "input1 = xs @ input2" "wf b3" "copies i xs b2 b3" "1 + length xs \<le> 255"
        using match_run_ok [OF b2(2), of 1 i input1 "crc_add x crc"] by auto
      have c: "copies i (x # xs) b1 b3" using i(2) b2(1) m(4) by simp
      let ?t = "(of_nat (length (x # xs)), flag_of True)"
      obtain k1 where k1: "pack_encode (of_nat (length (x # xs))) (flag_of True) k = Some (Inr k1)" "packs w (ts @ [?t]) k1"
        using pack_encode_ok [OF less.prems(2)] by blast
      obtain b' k' us where r: "lzp_compress_loop add predict get input2 b3 (fold crc_add (x # xs) crc) k1 =
          Some (Inr (b', fold crc_add input2 (fold crc_add (x # xs) crc), k'))"
        "packs w ((ts @ [?t]) @ us) k'" "replays b3 us input2 b'"
        using less.hyps [OF _ m(3) k1(2), of input2] Cons m(2) by fastforce
      have "replays b ([?t] @ us) ((x # xs) @ input2) b'"
        using replays_append [OF replays_match [OF _ c] r(3)] p(1) i(1) m(5) by simp
      then show ?thesis using Cons p(1) i b2(1) m(1,2) k1(1) r(1,2)
        by (intro exI [of _ b'] exI [of _ k'] exI [of _ "?t # us"]) (simp add: flag_of_def)
    next
      case False
      obtain y where y: "get b1 (the index) = Inr y" using get_ok [OF p(2)] by blast
      let ?t = "(x, flag_of False)"
      obtain k1 where k1: "pack_encode x (flag_of False) k = Some (Inr k1)" "packs w (ts @ [?t]) k1"
        using pack_encode_ok [OF less.prems(2)] by blast
      obtain b' k' us where r: "lzp_compress_loop add predict get input1 b2 (crc_add x crc) k1 =
          Some (Inr (b', fold crc_add input1 (crc_add x crc), k'))" "packs w ((ts @ [?t]) @ us) k'" "replays b2 us input1 b'"
        using less.hyps [OF _ b2(2) k1(2), of input1] Cons by fastforce
      have "replays b ([?t] @ us) ([x] @ input1) b'" using replays_append [OF replays_literal [OF p(1) b2(1)] r(3)] .
      then show ?thesis using Cons p(1,3) y False b2(1) k1(1) r(1,2)
        by (intro exI [of _ b'] exI [of _ k'] exI [of _ "?t # us"]) (auto simp: flag_of_def split: option.splits)
    qed
  qed
qed

text \<open>The whole of \<open>compress\<close>, read back by \<open>decompress\<close> with the same prediction buffer.\<close>

lemma lzp_compress_ok:
  assumes b: "wf b" and p: "length (pack_buffer p) = 9" and out: "room out = None"
  shows "\<exists>p' out' bs. lzp_compress add predict get b input p out = Some (Inr (p', out')) \<and> written out' = written out @ bs \<and>
    (\<forall>extra plain q. length (pack_buffer q) = 9 \<longrightarrow> has_room plain (length input) \<longrightarrow>
      lzp_decompress add predict get b (bs @ extra) q plain = Some (Inr (extra, plain \<lparr> written := written plain @ input \<rparr>)))"
proof -
  let ?crc = "fold crc_add input crc_new" and ?stop = "(0, flag_of True)"
  let ?sum = "checksum_bytes (crc_get_checksum ?crc)"
  obtain b' k1 us where l: "lzp_compress_loop add predict get input b crc_new (pack_clear p, out) = Some (Inr (b', ?crc, k1))"
    "packs (written out) us k1" "replays b us input b'" using lzp_compress_loop_ok [OF b packs_start [OF p out]] unfolding append_Nil by blast
  obtain k2 where k2: "pack_encode 0 (flag_of True) k1 = Some (Inr k2)" "packs (written out) (us @ [?stop]) k2"
    using pack_encode_ok [OF l(2)] by blast
  obtain k3 where k3: "pack_all (map (\<lambda>b. (b, flag_of False)) ?sum) k2 = Some (Inr k3)"
    "packs (written out) ((us @ [?stop]) @ map (\<lambda>b. (b, flag_of False)) ?sum) k3" using pack_all_ok [OF k2(2)] by blast
  obtain p' out' bs where f: "pack_flush k3 = Some (Inr (p', out'))" "written out' = written out @ bs"
    "\<And>q extra. between_groups q \<Longrightarrow> yields (q, bs @ extra) (us @ ?stop # map (\<lambda>b. (b, flag_of False)) ?sum) extra"
    using pack_flush_ok [OF k3(2)] by auto
  have "lzp_decompress add predict get b (bs @ extra) q plain = Some (Inr (extra, plain \<lparr> written := written plain @ input \<rparr>))"
    if q: "length (pack_buffer q) = 9" "has_room plain (length input)" for extra plain q
  proof -
    have "between_groups (pack_clear q)" using q(1) by (simp add: between_groups_def pack_clear_def)
    from f(3) [OF this, of extra] l(3) q(2) obtain i s where s: "yields s (?stop # map (\<lambda>b. (b, flag_of False)) ?sum) extra"
      "lzp_decompress_loop add predict get 0 b crc_new (pack_clear q, bs @ extra) plain =
        lzp_decompress_loop add predict get i b' ?crc s (plain \<lparr> written := written plain @ input \<rparr>)"
      unfolding replays_def by blast
    obtain s1 where s1: "pack_decode s = Some (Inr (?stop, s1))" "yields s1 (map (\<lambda>b. (b, flag_of False)) ?sum) extra" using s(1) by auto
    have "lzp_decompress_loop add predict get i b' ?crc s plain' = Some (Inr (?crc, s1, plain'))" for plain'
      using s1(1) by (subst lzp_decompress_loop.simps) (simp add: flag_of_def)
    moreover obtain s2 where "unpack_bytes 4 s1 = Some (Inr (?sum, s2))" "snd s2 = extra"
      using unpack_bytes_ok [OF s1(2)] by auto
    ultimately show ?thesis using s(2) read_checksum_bytes [OF crc_checksum_fits [OF fold_crc_add_inv [OF crc_new_inv]], of input]
      by (simp add: lzp_decompress_def)
  qed
  then show ?thesis using l(1) k2(1) k3(1) f(1,2) by (intro exI [of _ p'] exI [of _ out'] exI [of _ bs]) (simp add: lzp_compress_def flag_of_def)
qed

subsection \<open>Decompressing any bytes\<close>

lemma copy_run_safe:
  assumes "wf b"
  shows "copy_run add get index len b crc out = Some (Inl Write_Failure) \<or>
    (\<exists>b' crc' out'. copy_run add get index len b crc out = Some (Inr (b', crc', out')) \<and> wf b')"
  using assms
proof (induction "if len = 0 then 256 else unat len" arbitrary: len b crc out rule: less_induct)
  case less
  obtain x where x: "get b index = Inr x" using get_ok [OF less.prems] by blast
  obtain b1 where b1: "add x b = Inr b1" "wf b1" using add_ok [OF less.prems] by blast
  have "(if len - 1 = 0 then 256 else unat (len - 1)) < (if len = 0 then 256 else unat len)" if "len - 1 \<noteq> 0"
    using that unsigned_less [of "len - 1", where 'a = nat] by (auto simp: unat_minus_one unat_gt_0 word_gt_0)
  then have "copy_run add get index (len - 1) b1 (crc_add x crc) out' = Some (Inl Write_Failure) \<or>
      (\<exists>b' crc' out''. copy_run add get index (len - 1) b1 (crc_add x crc) out' = Some (Inr (b', crc', out'')) \<and> wf b')"
    if "len - 1 \<noteq> 0" for out' using less.hyps [OF _ b1(2)] that by blast
  then show ?case using x b1 by (subst (1 2) copy_run.simps) (auto simp: Let_def write_byte_def split: option.splits)
qed

lemma lzp_decompress_loop_safe:
  assumes "wf b" "pack_ok (fst s)"
  shows "lzp_decompress_loop add predict get index b crc s out = Some (Inl Write_Failure) \<or>
    lzp_decompress_loop add predict get index b crc s out = Some (Inl Decompression_Error) \<or>
    (\<exists>crc' s' out'. lzp_decompress_loop add predict get index b crc s out = Some (Inr (crc', s', out')) \<and> pack_ok (fst s'))"
  using assms
proof (induction "symbols_left s" arbitrary: index b crc s out rule: less_induct)
  case less
  from pack_decode_safe [OF less.prems(2)] show ?case
  proof (elim disjE exE conjE)
    fix t s1 assume s1: "pack_decode s = Some (Inr (t, s1))" "pack_ok (fst s1)"
    obtain x f where t: "t = (x, f)" by (cases t)
    obtain order found b1 where p: "predict b = Inr (order, found, b1)" "wf b1" using predict_ok [OF less.prems(1)] by blast
    obtain b2 where b2: "add x b1 = Inr b2" "wf b2" using add_ok [OF p(2)] by blast
    let ?i = "case found of None \<Rightarrow> index | Some i \<Rightarrow> i"
    let ?step = "if f = 1 then copy_run add get ?i x b1 crc out
      else io_bind (write_byte x out) (\<lambda>out. io_bind (io_c (add x b1)) (\<lambda>b. Some (Inr (b, crc_add x crc, out))))"
    have "?step = Some (Inl Write_Failure) \<or> (\<exists>b' crc' out'. ?step = Some (Inr (b', crc', out')) \<and> wf b')"
      using copy_run_safe [OF p(2), of ?i x crc out] b2 by (auto simp: write_byte_def split: option.splits)
    moreover have l: "lzp_decompress_loop add predict get index b crc s out = (if f = 0 \<or> x \<noteq> 0 then
        io_bind ?step (\<lambda>(b, crc, out). lzp_decompress_loop add predict get ?i b crc s1 out) else Some (Inr (crc, s1, out)))"
      using s1(1) p(1) by (subst lzp_decompress_loop.simps) (simp add: t Let_def)
    moreover have "lzp_decompress_loop add predict get index b crc s out = Some (Inr (crc, s1, out))" if "\<not> (f = 0 \<or> x \<noteq> 0)"
      using l that by simp
    moreover have "lzp_decompress_loop add predict get index b crc s out = lzp_decompress_loop add predict get ?i b' crc' s1 out'"
      if "f = 0 \<or> x \<noteq> 0" "?step = Some (Inr (b', crc', out'))" for b' crc' out' using l that by simp
    moreover have "lzp_decompress_loop add predict get index b crc s out = Some (Inl Write_Failure)"
      if "f = 0 \<or> x \<noteq> 0" "?step = Some (Inl Write_Failure)" using l that by simp
    ultimately show ?case using less.hyps [OF pack_decode_left [OF s1(1)] _ s1(2)] s1(2) by metis
  qed (subst lzp_decompress_loop.simps, simp)
qed

lemma unpack_bytes_safe:
  "pack_ok (fst s) \<Longrightarrow> unpack_bytes n s = Some (Inl Decompression_Error) \<or> (\<exists>bs s'. unpack_bytes n s = Some (Inr (bs, s')))"
proof (induction n arbitrary: s)
  case (Suc n)
  from pack_decode_safe [OF Suc.prems] show ?case using Suc.IH by fastforce
qed simp

lemma lzp_decompress_safe:
  assumes "wf b" "length (pack_buffer p) = 9"
  shows "lzp_decompress add predict get b input p out \<in>
    {Some (Inl Write_Failure), Some (Inl Decompression_Error)} \<union> range (Some \<circ> Inr)"
proof -
  have "pack_ok (fst (pack_clear p, input))" using assms(2) by (simp add: pack_ok_def pack_clear_def)
  from lzp_decompress_loop_safe [OF assms(1) this, of 0 crc_new out] show ?thesis
  proof (elim disjE exE conjE)
    fix crc s out'
    assume "lzp_decompress_loop add predict get 0 b crc_new (pack_clear p, input) out = Some (Inr (crc, s, out'))" "pack_ok (fst s)"
    then show ?thesis using unpack_bytes_safe [of s 4] by (auto simp: lzp_decompress_def)
  qed (auto simp: lzp_decompress_def)
qed

end

subsection \<open>The kernels 3a and 3b\<close>

text \<open>
  \<open>compress_stream::kernel_3a\<close> and \<open>kernel_3b\<close>, as \<open>compress_stream.h\<close> puts them together: buffers of
  \<open>2 ^ 16\<close> bytes of the first and the second kernel of the prediction buffer.  \<open>p\<close> is the state of the
  compressor object on entry.  The flags of 3b say whether the two tables can be allocated.
\<close>

definition compress_kernel_3a :: "u8 list \<Rightarrow> pack \<Rightarrow> ostream \<Rightarrow> ostream io" where
  "compress_kernel_3a input p out =
    io_bind (io_c (lzp_new 16)) (\<lambda>b.
    io_bind (lzp_compress lzp_add lzp_predict_match lzp_get b input p out) (\<lambda>(p, out). Some (Inr out)))"

definition decompress_kernel_3a :: "u8 list \<Rightarrow> pack \<Rightarrow> ostream \<Rightarrow> (u8 list \<times> ostream) io" where
  "decompress_kernel_3a input p out =
    io_bind (io_c (lzp_new 16)) (\<lambda>b. lzp_decompress lzp_add lzp_predict_match lzp_get b input p out)"

definition new_lzp2 :: "bool \<Rightarrow> bool \<Rightarrow> lzp2 io" where
  "new_lzp2 alloc3 alloc4 =
    io_bind (io_c (lzp2_new alloc3 alloc4 16)) (\<lambda>b. case b of None \<Rightarrow> Some (Inl Bad_Alloc) | Some b \<Rightarrow> Some (Inr b))"

definition compress_kernel_3b :: "bool \<Rightarrow> bool \<Rightarrow> u8 list \<Rightarrow> pack \<Rightarrow> ostream \<Rightarrow> ostream io" where
  "compress_kernel_3b alloc3 alloc4 input p out =
    io_bind (new_lzp2 alloc3 alloc4) (\<lambda>b.
    io_bind (lzp_compress lzp2_add lzp2_predict_match lzp2_get b input p out) (\<lambda>(p, out). Some (Inr out)))"

definition decompress_kernel_3b :: "bool \<Rightarrow> bool \<Rightarrow> u8 list \<Rightarrow> pack \<Rightarrow> ostream \<Rightarrow> (u8 list \<times> ostream) io" where
  "decompress_kernel_3b alloc3 alloc4 input p out =
    io_bind (new_lzp2 alloc3 alloc4) (\<lambda>b. lzp_decompress lzp2_add lzp2_predict_match lzp2_get b input p out)"

lemma new_lzp_16: "\<exists>b. lzp_new 16 = Inr b \<and> lzp_inv 16 b"
  using lzp_new_ok [of 16] by simp

lemma new_lzp2_16: "\<exists>b. new_lzp2 True True = Some (Inr b) \<and> lzp2_inv 16 b"
  using lzp2_new_ok [of 16] by (auto simp: new_lzp2_def)

lemma new_lzp2_failed: "\<not> (alloc3 \<and> alloc4) \<Longrightarrow> new_lzp2 alloc3 alloc4 = Some (Inl Bad_Alloc)"
  by (auto simp: new_lzp2_def lzp2_new_def)

text \<open>
  C5. The compressors with a prediction buffer are lossless, with either kernel of the buffer: what
  \<open>compress\<close> writes to a stream without a limit, \<open>decompress\<close> turns into the input again, and it leaves
  what follows in its input stream unread.  The bytes that the object has in its buffer before, which
  the code never initialises, do not matter.
\<close>

theorem lzp_compress_roundtrip:
  assumes "length (pack_buffer p) = 9" "room out = None"
  shows "(\<exists>out' bs. compress_kernel_3a input p out = Some (Inr out') \<and> written out' = written out @ bs \<and>
      (\<forall>extra plain q. length (pack_buffer q) = 9 \<longrightarrow> has_room plain (length input) \<longrightarrow>
        decompress_kernel_3a (bs @ extra) q plain = Some (Inr (extra, plain \<lparr> written := written plain @ input \<rparr>)))) \<and>
    (\<exists>out' bs. compress_kernel_3b True True input p out = Some (Inr out') \<and> written out' = written out @ bs \<and>
      (\<forall>extra plain q. length (pack_buffer q) = 9 \<longrightarrow> has_room plain (length input) \<longrightarrow>
        decompress_kernel_3b True True (bs @ extra) q plain = Some (Inr (extra, plain \<lparr> written := written plain @ input \<rparr>))))"
proof
  obtain b where b: "lzp_new 16 = Inr b" "lzp_inv 16 b" using new_lzp_16 by blast
  show "\<exists>out' bs. compress_kernel_3a input p out = Some (Inr out') \<and> written out' = written out @ bs \<and>
      (\<forall>extra plain q. length (pack_buffer q) = 9 \<longrightarrow> has_room plain (length input) \<longrightarrow>
        decompress_kernel_3a (bs @ extra) q plain = Some (Inr (extra, plain \<lparr> written := written plain @ input \<rparr>)))"
    using lzp_1.lzp_compress_ok [OF b(2) assms, of input] b(1) by (auto simp: compress_kernel_3a_def decompress_kernel_3a_def)
  obtain b2 where b2: "new_lzp2 True True = Some (Inr b2)" "lzp2_inv 16 b2" using new_lzp2_16 by blast
  show "\<exists>out' bs. compress_kernel_3b True True input p out = Some (Inr out') \<and> written out' = written out @ bs \<and>
      (\<forall>extra plain q. length (pack_buffer q) = 9 \<longrightarrow> has_room plain (length input) \<longrightarrow>
        decompress_kernel_3b True True (bs @ extra) q plain = Some (Inr (extra, plain \<lparr> written := written plain @ input \<rparr>)))"
    using lzp_2.lzp_compress_ok [OF b2(2) assms, of input] b2(1) by (auto simp: compress_kernel_3b_def decompress_kernel_3b_def)
qed

theorem lzp_compress_roundtrip_witness:
  "(\<exists>out' bs. compress_kernel_3a [7, 7] \<lparr> pack_count = 3, pack_buffer = replicate 9 1 \<rparr> \<lparr> written = [], room = None \<rparr> = Some (Inr out') \<and>
      written out' = bs \<and> (\<forall>extra plain q. length (pack_buffer q) = 9 \<longrightarrow> has_room plain 2 \<longrightarrow>
        decompress_kernel_3a (bs @ extra) q plain = Some (Inr (extra, plain \<lparr> written := written plain @ [7, 7] \<rparr>))))"
  using lzp_compress_roundtrip [of "\<lparr> pack_count = 3, pack_buffer = replicate 9 1 \<rparr>" "\<lparr> written = [], room = None \<rparr>" "[7, 7]"]
  by (simp add: eval_nat_numeral)

text \<open>
  C12. On any bytes these \<open>decompress\<close> functions end: they return, or throw one of their exceptions.
  Nothing undefined happens, although a match in the input may refer to a place that was never
  predicted.
\<close>

theorem lzp_decompress_total:
  assumes "length (pack_buffer p) = 9"
  shows "(decompress_kernel_3a input p out \<in> {Some (Inl Write_Failure), Some (Inl Decompression_Error)} \<or>
      (\<exists>rest out'. decompress_kernel_3a input p out = Some (Inr (rest, out')))) \<and>
    (decompress_kernel_3b alloc3 alloc4 input p out \<in> {Some (Inl Write_Failure), Some (Inl Decompression_Error), Some (Inl Bad_Alloc)} \<or>
      (\<exists>rest out'. decompress_kernel_3b alloc3 alloc4 input p out = Some (Inr (rest, out'))))"
proof
  obtain b where b: "lzp_new 16 = Inr b" "lzp_inv 16 b" using new_lzp_16 by blast
  show "decompress_kernel_3a input p out \<in> {Some (Inl Write_Failure), Some (Inl Decompression_Error)} \<or>
      (\<exists>rest out'. decompress_kernel_3a input p out = Some (Inr (rest, out')))"
    using lzp_1.lzp_decompress_safe [OF b(2) assms, of input out] b(1) by (auto simp: decompress_kernel_3a_def)
  obtain b2 where b2: "new_lzp2 True True = Some (Inr b2)" "lzp2_inv 16 b2" using new_lzp2_16 by blast
  show "decompress_kernel_3b alloc3 alloc4 input p out \<in> {Some (Inl Write_Failure), Some (Inl Decompression_Error), Some (Inl Bad_Alloc)} \<or>
      (\<exists>rest out'. decompress_kernel_3b alloc3 alloc4 input p out = Some (Inr (rest, out')))"
    using lzp_2.lzp_decompress_safe [OF b2(2) assms, of input out] b2(1) new_lzp2_failed [of alloc3 alloc4]
    by (cases "alloc3 \<and> alloc4") (auto simp: decompress_kernel_3b_def)
qed

theorem lzp_decompress_total_witness:
  "decompress_kernel_3a [1, 2, 3] \<lparr> pack_count = 0, pack_buffer = replicate 9 0 \<rparr> \<lparr> written = [], room = None \<rparr> \<noteq> None"
  using lzp_decompress_total [of "\<lparr> pack_count = 0, pack_buffer = replicate 9 0 \<rparr>" "[1, 2, 3]" "\<lparr> written = [], room = None \<rparr>" True True]
  by auto

end
