(* ===== verification/Base64.thy ===== *)
theory Base64
  imports Byte_Stream
begin

text \<open>
  The model of \<open>src/dlib-minimal/lib/dlib/base64/base64_kernel_1.cpp\<close> and \<open>.h\<close>.  The buffer of
  \<open>decode\<close> is not initialised: its first contents are an argument.  The tables are those the
  constructor fills; the decode table has \<open>UCHAR_MAX\<close>, that is 255, entries, so that looking up the
  byte 255 is out of bounds.
\<close>

datatype line_ending_type = CR | LF | CRLF

record base64 =
  encode_table :: "u8 list"
  decode_table :: "u8 list"
  eol_style :: line_ending_type

definition bad_value :: u8 where "bad_value = 100"

definition alphabet64 :: "u8 list" where
  "alphabet64 = map of_char ''ABCDEFGHIJKLMNOPQRSTUVWXYZabcdefghijklmnopqrstuvwxyz0123456789+/''"

definition fill_decode_table :: "u8 list \<Rightarrow> u8 list" where
  "fill_decode_table enc = fold (\<lambda>i t. t[unat (enc ! i) := of_nat i]) [0..<64] (replicate 255 bad_value)"

definition b64_new :: base64 where
  "b64_new = \<lparr> encode_table = alphabet64, decode_table = fill_decode_table alphabet64, eol_style = LF \<rparr>"

definition line_ending :: "base64 \<Rightarrow> line_ending_type" where
  "line_ending s = eol_style s"

definition set_line_ending :: "line_ending_type \<Rightarrow> base64 \<Rightarrow> base64" where
  "set_line_ending e s = s \<lparr> eol_style := e \<rparr>"

text \<open>\<open>'\r'\<close>, \<open>'\n'\<close> and \<open>'='\<close>.\<close>

fun eol_bytes :: "line_ending_type \<Rightarrow> u8 list" where
  "eol_bytes CR = [13]"
| "eol_bytes LF = [10]"
| "eol_bytes CRLF = [13, 10]"

definition pad :: u8 where "pad = 61"

definition lookup64 :: "u8 list \<Rightarrow> u8 \<Rightarrow> u8 c" where
  "lookup64 t i = (if unat i < length t then Inr (t ! unat i) else Inl Out_Of_Bounds)"

fun lookups64 :: "u8 list \<Rightarrow> u8 list \<Rightarrow> u8 list c" where
  "lookups64 t [] = Inr []"
| "lookups64 t (i # is) = c_bind (lookup64 t i) (\<lambda>x. c_bind (lookups64 t is) (\<lambda>xs. Inr (x # xs)))"

text \<open>One turn of the loop of \<open>encode\<close>, on three, two or one bytes, without the line end.\<close>

fun encode_group :: "u8 list \<Rightarrow> u8 list \<Rightarrow> u8 list c" where
  "encode_group t [b0, b1, b2] =
    (let c1 = b0 AND 0xfc; c2 = b0 AND 0x03; c3 = b1 AND 0xf0; c4 = b1 AND 0x0f; c5 = b2 AND 0xc0; c6 = b2 AND 0x3f
     in lookups64 t [drop_bit 2 c1, push_bit 4 c2 OR drop_bit 4 c3, push_bit 2 c4 OR drop_bit 6 c5, c6])"
| "encode_group t [b0, b1] =
    (let c1 = b0 AND 0xfc; c2 = b0 AND 0x03; c3 = b1 AND 0xf0; c4 = b1 AND 0x0f; c5 = 0 :: u8
     in c_bind (lookups64 t [drop_bit 2 c1, push_bit 4 c2 OR drop_bit 4 c3, push_bit 2 c4 OR drop_bit 6 c5])
          (\<lambda>xs. Inr (xs @ [pad])))"
| "encode_group t [b0] =
    (let c1 = b0 AND 0xfc; c2 = b0 AND 0x03; c3 = 0 :: u8
     in c_bind (lookups64 t [drop_bit 2 c1, push_bit 4 c2 OR drop_bit 4 c3]) (\<lambda>xs. Inr (xs @ [pad, pad])))"
| "encode_group t _ = Inr []"

function b64_encode_loop :: "base64 \<Rightarrow> nat \<Rightarrow> u8 list \<Rightarrow> ostream \<Rightarrow> ostream io" where
  "b64_encode_loop s counter input out =
    (if input = [] then Some (Inr out)
     else io_bind (if counter = 0 then sputn (eol_bytes (eol_style s)) out else Some (Inr out)) (\<lambda>out.
       let counter = (if counter = 0 then 19 else counter) - 1; inbuf = take 3 input in
       io_bind (io_c (encode_group (encode_table s) inbuf)) (\<lambda>outbuf.
       io_bind (sputn outbuf out) (\<lambda>out.
       if length inbuf = 3 then b64_encode_loop s counter (drop 3 input) out else Some (Inr out)))))"
  by pat_completeness auto
termination by (relation "measure (\<lambda>(s, counter, input, out). length input)") auto

definition b64_encode :: "base64 \<Rightarrow> u8 list \<Rightarrow> ostream \<Rightarrow> ostream io" where
  "b64_encode s input out = b64_encode_loop s 19 input out"

text \<open>The four characters of the buffer, decoded and packed, with the number of bytes that are meant.\<close>

definition decode_group :: "u8 list \<Rightarrow> u8 list \<Rightarrow> (u8 list \<times> u8 list) c" where
  "decode_group t inbuf =
    (let outsize = (if inbuf ! 3 = pad then if inbuf ! 2 = pad then 1 else 2 else 3)
     in c_bind (lookups64 t inbuf) (\<lambda>v.
        Inr (v, take outsize [push_bit 2 (v ! 0) OR drop_bit 4 (v ! 1), push_bit 4 (v ! 1) OR drop_bit 2 (v ! 2),
          push_bit 6 (v ! 2) OR v ! 3])))"

definition decode_full :: "base64 \<Rightarrow> u8 list \<Rightarrow> nat \<Rightarrow> ostream \<Rightarrow> (u8 list \<times> nat \<times> ostream) io" where
  "decode_full s inbuf pos out =
    (if pos = 4 then
       io_bind (io_c (decode_group (decode_table s) inbuf)) (\<lambda>(inbuf, outbuf).
       io_bind (sputn outbuf out) (\<lambda>out. Some (Inr (inbuf, 0, out))))
     else Some (Inr (inbuf, pos, out)))"

fun b64_decode_loop :: "base64 \<Rightarrow> u8 list \<Rightarrow> nat \<Rightarrow> u8 list \<Rightarrow> ostream \<Rightarrow> ostream io" where
  "b64_decode_loop s inbuf pos input out =
    io_bind (decode_full s inbuf pos out) (\<lambda>(inbuf, pos, out).
    case input of
      [] \<Rightarrow> io_bind (io_c (lookup64 (decode_table s) (inbuf ! pos))) (\<lambda>_.
        if pos \<noteq> 0 then Some (Inl (Decode_Error pos)) else Some (Inr out))
    | ch # input \<Rightarrow>
        let inbuf = inbuf[pos := ch] in
        io_bind (io_c (lookup64 (decode_table s) ch)) (\<lambda>v.
        b64_decode_loop s inbuf (if v \<noteq> bad_value \<or> ch = pad then Suc pos else pos) input out))"

definition b64_decode :: "base64 \<Rightarrow> u8 list \<Rightarrow> u8 list \<Rightarrow> ostream \<Rightarrow> ostream io" where
  "b64_decode s inbuf input out =
    (case input of
       [] \<Rightarrow> Some (Inr out)
     | ch # input \<Rightarrow>
         io_bind (io_c (lookup64 (decode_table s) ch)) (\<lambda>v.
         b64_decode_loop s (inbuf[0 := ch]) (if v \<noteq> bad_value then 1 else 0) input out))"

declare b64_encode_loop.simps [simp del] b64_decode_loop.simps [simp del]

subsection \<open>The tables\<close>

lemma alphabet64_length [simp]: "length alphabet64 = 64"
  by (simp add: alphabet64_def)

lemma alphabet64_distinct: "distinct alphabet64"
  by (simp add: alphabet64_def)

lemma alphabet64_plain: "pad \<notin> set alphabet64" "13 \<notin> set alphabet64" "10 \<notin> set alphabet64" "\<forall>b \<in> set alphabet64. unat b < 255"
  by (simp_all add: alphabet64_def pad_def)

lemma fill_length_prefix [simp]: "length (fold (\<lambda>i t. t[unat (enc ! i) := of_nat i]) is t) = length (t :: u8 list)"
  by (induction "is" arbitrary: t) simp_all

lemma fill_length [simp]: "length (fill_decode_table enc) = 255"
  by (simp add: fill_decode_table_def)

lemma fill_other:
  "n \<le> length enc \<Longrightarrow> b \<notin> set enc \<Longrightarrow> fold (\<lambda>i t. t[unat (enc ! i) := of_nat i]) [0..<n] t ! unat (b :: u8) = t ! unat b"
proof (induction n)
  case (Suc n)
  then have "enc ! n \<noteq> b" by auto
  then show ?case using Suc by (simp add: nth_list_update_neq word_unat_eq_iff)
qed simp

lemma fill_at:
  "n \<le> length enc \<Longrightarrow> distinct enc \<Longrightarrow> \<forall>b \<in> set enc. unat b < length (t :: u8 list) \<Longrightarrow> k < n \<Longrightarrow>
    fold (\<lambda>i t. t[unat (enc ! i) := of_nat i]) [0..<n] t ! unat (enc ! k :: u8) = of_nat k"
proof (induction n)
  case (Suc n)
  show ?case
  proof (cases "k = n")
    case True
    then show ?thesis using Suc.prems nth_mem [of n enc] by simp
  next
    case False
    then have "k < n" "enc ! n \<noteq> enc ! k" using Suc.prems nth_eq_iff_index_eq [of enc n k] by auto
    then show ?thesis using Suc by (simp add: nth_list_update_neq word_unat_eq_iff)
  qed
qed simp

abbreviation dt :: "u8 list" where
  "dt \<equiv> fill_decode_table alphabet64"

lemma lookup_alphabet: "k < 64 \<Longrightarrow> lookup64 dt (alphabet64 ! k) = Inr (of_nat k)"
  using fill_at [OF _ alphabet64_distinct, of 64 "replicate 255 bad_value" k] alphabet64_plain(4)
  by (simp add: lookup64_def fill_decode_table_def)

lemma lookup_other: "b \<notin> set alphabet64 \<Longrightarrow> unat b < 255 \<Longrightarrow> lookup64 dt b = Inr bad_value"
  using fill_other [of 64 alphabet64 b "replicate 255 bad_value"] by (simp add: lookup64_def fill_decode_table_def)

lemma small_not_bad: "unat (v :: u8) < 64 \<Longrightarrow> v \<noteq> bad_value"
  by (auto simp: bad_value_def)

subsection \<open>Groups\<close>

text \<open>The four six-bit values of three bytes.\<close>

definition sextets :: "u8 \<Rightarrow> u8 \<Rightarrow> u8 \<Rightarrow> u8 list" where
  "sextets a b c = [drop_bit 2 (a AND 0xfc), push_bit 4 (a AND 0x03) OR drop_bit 4 (b AND 0xf0),
     push_bit 2 (b AND 0x0f) OR drop_bit 6 (c AND 0xc0), c AND 0x3f]"

lemma u8_eqI:
  assumes "bit a 0 = bit b 0" "bit a 1 = bit b 1" "bit a 2 = bit b 2" "bit a 3 = bit b 3" "bit a 4 = bit b 4"
    "bit a 5 = bit b 5" "bit a 6 = bit b 6" "bit a 7 = bit b 7"
  shows "a = (b :: u8)"
proof (rule bit_word_eqI)
  fix n assume "n < LENGTH(8)"
  then have "n = 0 \<or> n = 1 \<or> n = 2 \<or> n = 3 \<or> n = 4 \<or> n = 5 \<or> n = 6 \<or> n = 7" by auto
  then show "bit a n = bit b n" using assms by (elim disjE) simp_all
qed

lemma sextets_back:
  "push_bit 2 (drop_bit 2 (a AND 0xfc)) OR drop_bit 4 (push_bit 4 (a AND 0x03) OR drop_bit 4 (b AND 0xf0)) = (a :: u8)"
  "push_bit 4 (push_bit 4 (a AND 0x03) OR drop_bit 4 (b AND 0xf0)) OR
    drop_bit 2 (push_bit 2 (b AND 0x0f) OR drop_bit 6 (c AND 0xc0)) = (b :: u8)"
  "push_bit 6 (push_bit 2 (b AND 0x0f) OR drop_bit 6 (c AND 0xc0)) OR (c AND 0x3f) = (c :: u8)"
  by (rule u8_eqI; simp add: bit_or_iff bit_and_iff bit_push_bit_iff bit_drop_bit_eq)+

lemma six_bits: "\<not> bit v 6 \<Longrightarrow> \<not> bit v 7 \<Longrightarrow> unat (v :: u8) < 64"
proof -
  assume "\<not> bit v 6" "\<not> bit v 7"
  then have "take_bit 6 v = v" by (intro u8_eqI) (simp_all add: bit_take_bit_iff)
  then have "unat v = take_bit 6 (unat v)" by (metis unsigned_take_bit_eq)
  then show ?thesis using take_bit_nat_less_exp [of 6 "unat v"] by simp
qed

lemma sextets_less: "v \<in> set (sextets a b c) \<Longrightarrow> unat v < 64"
  unfolding sextets_def
  by (rule six_bits) (auto simp: bit_or_iff bit_and_iff bit_push_bit_iff bit_drop_bit_eq)

lemma lookup_both:
  "unat v < 64 \<Longrightarrow> lookup64 alphabet64 v = Inr (alphabet64 ! unat v)"
  "unat v < 64 \<Longrightarrow> lookup64 dt (alphabet64 ! unat (v :: u8)) = Inr v"
  using lookup_alphabet [of "unat v"] by (simp_all add: lookup64_def)

lemma alphabet_not_pad: "unat v < 64 \<Longrightarrow> alphabet64 ! unat (v :: u8) \<noteq> pad"
  using alphabet64_plain(1) nth_mem [of "unat v" alphabet64] by (metis alphabet64_length)

text \<open>What a character must be to be counted by \<open>decode\<close>.\<close>

definition counted :: "u8 \<Rightarrow> bool" where
  "counted x \<longleftrightarrow> (\<exists>v. lookup64 dt x = Inr v \<and> (v \<noteq> bad_value \<or> x = pad))"

lemma counted_pad: "counted pad"
  using lookup_other [of pad] alphabet64_plain(1) by (simp add: counted_def pad_def)

lemma counted_alphabet: "unat v < 64 \<Longrightarrow> counted (alphabet64 ! unat (v :: u8))"
  using lookup_alphabet [of "unat v"] small_not_bad [of v] by (simp add: counted_def)

text \<open>Decoding undoes the encoding of one group.\<close>

lemma group_roundtrip:
  assumes "bs \<noteq> []" "length bs \<le> 3"
  shows "\<exists>q v. encode_group alphabet64 bs = Inr q \<and> length q = 4 \<and> (\<forall>x \<in> set q. counted x) \<and> q ! 0 \<noteq> pad \<and>
    decode_group dt q = Inr (v, bs) \<and> length v = 4 \<and> unat (v ! 0) < 64"
proof -
  have p: "lookup64 dt pad = Inr bad_value" using lookup_other [of pad] alphabet64_plain(1) by (simp add: pad_def)
  consider a where "bs = [a]" | a b where "bs = [a, b]" | a b c where "bs = [a, b, c]"
    using assms by (cases bs; cases "tl bs"; cases "tl (tl bs)") auto
  then show ?thesis
  proof cases
    case 1
    have "\<forall>v \<in> set (take 2 (sextets a 0 0)). unat v < 64" by (auto dest!: in_set_takeD intro: sextets_less)
    then show ?thesis using 1 p sextets_back(1) [of a 0] counted_alphabet alphabet_not_pad counted_pad
      by (simp add: Let_def sextets_def decode_group_def lookup_both)
  next
    case 2
    have "\<forall>v \<in> set (take 3 (sextets a b 0)). unat v < 64" by (auto dest!: in_set_takeD intro: sextets_less)
    then show ?thesis using 2 p sextets_back(1) [of a b] sextets_back(2) [of a b 0] counted_alphabet alphabet_not_pad counted_pad
      by (simp add: Let_def sextets_def decode_group_def lookup_both)
  next
    case 3
    have "\<forall>v \<in> set (sextets a b c). unat v < 64" using sextets_less by blast
    then show ?thesis using 3 sextets_back(1) [of a b] sextets_back(2) [of a b c] sextets_back(3) [of b c] counted_alphabet alphabet_not_pad
      by (simp add: Let_def sextets_def decode_group_def lookup_both)
  qed
qed

subsection \<open>The loops\<close>

text \<open>Four counted characters fill the buffer, and a full buffer is written out.\<close>

lemma decode_feed:
  assumes "decode_table s = dt" "length q = 4" "\<forall>x \<in> set q. counted x" "length inbuf = 4"
  shows "b64_decode_loop s inbuf 0 (q @ rest) out = b64_decode_loop s q 4 rest out"
proof -
  obtain a b c d where q: "q = [a, b, c, d]" using assms(2) by (auto simp: numeral_eq_Suc length_Suc_conv)
  obtain w x y z where i: "inbuf = [w, x, y, z]" using assms(4) by (auto simp: numeral_eq_Suc length_Suc_conv)
  have "b64_decode_loop s buf pos (x # r) out = b64_decode_loop s (buf[pos := x]) (Suc pos) r out"
    if "counted x" "pos < 4" for buf pos x r
    using that assms(1) by (subst b64_decode_loop.simps) (auto simp: counted_def Let_def decode_full_def)
  then show ?thesis using assms(3) by (simp add: q i numeral_eq_Suc)
qed

lemma decode_flush:
  assumes "decode_group (decode_table s) q = Inr (v, bs)" "has_room out (length bs + k)"
  shows "b64_decode_loop s q 4 rest out = b64_decode_loop s v 0 rest (out \<lparr> written := written out @ bs \<rparr>)"
  using assms(1) sputn_room [OF assms(2)] by (subst (1 2) b64_decode_loop.simps) (simp add: decode_full_def)

lemma decode_skip:
  assumes "decode_table s = dt" "inbuf \<noteq> []" "x \<in> set (eol_bytes e)"
  shows "b64_decode_loop s inbuf 0 (x # rest) out = b64_decode_loop s (inbuf[0 := x]) 0 rest out"
proof -
  have "lookup64 dt x = Inr bad_value" "x \<noteq> pad"
    using assms(3) alphabet64_plain lookup_other [of x] by (cases e; auto simp: pad_def)+
  then show ?thesis using assms(1) by (subst b64_decode_loop.simps) (simp add: Let_def decode_full_def)
qed

lemma decode_skip_eol:
  assumes "decode_table s = dt" "length inbuf = 4"
  shows "\<exists>inbuf'. length inbuf' = 4 \<and>
    b64_decode_loop s inbuf 0 (eol_bytes e @ rest) out = b64_decode_loop s inbuf' 0 rest out"
proof -
  have ne: "inbuf \<noteq> []" using assms(2) by auto
  have "\<exists>inbuf'. length inbuf' = 4 \<and> b64_decode_loop s inbuf 0 (xs @ rest) out = b64_decode_loop s inbuf' 0 rest out"
    if "set xs \<subseteq> set (eol_bytes e)" "length inbuf = 4" for xs inbuf
    using that
  proof (induction xs arbitrary: inbuf)
    case (Cons x xs)
    then have "inbuf \<noteq> []" by auto
    then show ?case using decode_skip [OF assms(1), of inbuf x e "xs @ rest" out] Cons.IH [of "inbuf[0 := x]"] Cons.prems by simp
  qed auto
  then show ?thesis using assms(2) by blast
qed

text \<open>The bytes that \<open>encode\<close> writes.\<close>

function encoded :: "line_ending_type \<Rightarrow> nat \<Rightarrow> u8 list \<Rightarrow> u8 list" where
  "encoded e counter input =
    (if input = [] then []
     else (if counter = 0 then eol_bytes e else []) @
       (case encode_group alphabet64 (take 3 input) of Inl _ \<Rightarrow> [] | Inr q \<Rightarrow> q) @
       encoded e ((if counter = 0 then 19 else counter) - 1) (drop 3 input))"
  by pat_completeness auto
termination by (relation "measure (\<lambda>(e, counter, input). length input)") auto

declare encoded.simps [simp del]

lemma encoded_Nil [simp]: "encoded e counter [] = []"
  by (simp add: encoded.simps)

lemma encode_loop_writes:
  assumes "encode_table s = alphabet64" "has_room out (length (encoded (eol_style s) counter input) + k)"
  shows "b64_encode_loop s counter input out =
    Some (Inr (out \<lparr> written := written out @ encoded (eol_style s) counter input \<rparr>))"
  using assms(2)
proof (induction "eol_style s" counter input arbitrary: out rule: encoded.induct)
  case (1 counter input)
  show ?case
  proof (cases "input = []")
    case True
    then show ?thesis by (simp add: b64_encode_loop.simps)
  next
    case False
    then obtain q where q: "encode_group alphabet64 (take 3 input) = Inr q" using group_roundtrip [of "take 3 input"] by auto
    let ?e = "if counter = 0 then eol_bytes (eol_style s) else []" and ?c = "(if counter = 0 then 19 else counter) - 1"
    let ?rest = "encoded (eol_style s) ?c (drop 3 input)"
    have en: "encoded (eol_style s) counter input = ?e @ q @ ?rest" using False q by (simp add: encoded.simps)
    let ?o1 = "out \<lparr> written := written out @ ?e \<rparr>"
    let ?o2 = "?o1 \<lparr> written := written ?o1 @ q \<rparr>"
    have r1: "has_room out (length ?e + (length q + (length ?rest + k)))" using 1(2) unfolding en by (simp add: add.assoc)
    note s1 = sputn_room [OF r1]
    note s2 = sputn_room [OF conjunct2 [OF s1]]
    have w: "(if counter = 0 then sputn (eol_bytes (eol_style s)) out else Some (Inr out)) = Some (Inr ?o1)" using s1 by auto
    have "b64_encode_loop s counter input out =
        (if length (take 3 input) = 3 then b64_encode_loop s ?c (drop 3 input) ?o2 else Some (Inr ?o2))"
      using False w q s2 assms(1) by (subst b64_encode_loop.simps) (simp add: Let_def)
    also have "\<dots> = b64_encode_loop s ?c (drop 3 input) ?o2" by (auto simp: b64_encode_loop.simps)
    also have "\<dots> = Some (Inr (?o2 \<lparr> written := written ?o2 @ ?rest \<rparr>))"
      using 1(1) [OF False, of ?o2] s2 by simp
    finally show ?thesis by (simp add: en)
  qed
qed

lemma decode_loop_reads:
  assumes "decode_table s = dt" "length inbuf = 4" "unat (inbuf ! 0) < 255 \<or> input \<noteq> []" "has_room out (length input + k)"
  shows "b64_decode_loop s inbuf 0 (encoded e counter input) out = Some (Inr (out \<lparr> written := written out @ input \<rparr>))"
  using assms(2-)
proof (induction e counter input arbitrary: inbuf out rule: encoded.induct)
  case (1 e counter input)
  show ?case
  proof (cases "input = []")
    case True
    then show ?thesis using 1(3) assms(1) by (subst b64_decode_loop.simps) (simp add: lookup64_def decode_full_def)
  next
    case False
    then obtain q v where q: "encode_group alphabet64 (take 3 input) = Inr q" "length q = 4" "\<forall>x \<in> set q. counted x"
      "decode_group dt q = Inr (v, take 3 input)" "length v = 4" "unat (v ! 0) < 64" using group_roundtrip [of "take 3 input"] by auto
    let ?rest = "encoded e ((if counter = 0 then 19 else counter) - 1) (drop 3 input)"
    have en: "encoded e counter input = (if counter = 0 then eol_bytes e else []) @ q @ ?rest"
      using False q(1) by (simp add: encoded.simps)
    have "\<exists>inbuf'. length inbuf' = 4 \<and>
        b64_decode_loop s inbuf 0 (encoded e counter input) out = b64_decode_loop s inbuf' 0 (q @ ?rest) out"
      using decode_skip_eol [OF assms(1) 1(2), of e "q @ ?rest" out] 1(2) unfolding en by (cases "counter = 0") auto
    then obtain inbuf' where i: "length inbuf' = 4"
      "b64_decode_loop s inbuf 0 (encoded e counter input) out = b64_decode_loop s inbuf' 0 (q @ ?rest) out" by blast
    have len: "length input = length (take 3 input) + length (drop 3 input)" by (metis append_take_drop_id length_append)
    then have r: "has_room out (length (take 3 input) + (length (drop 3 input) + k))"
      using 1(4) by (metis add.assoc)
    let ?o = "out \<lparr> written := written out @ take 3 input \<rparr>"
    have "b64_decode_loop s inbuf 0 (encoded e counter input) out = b64_decode_loop s v 0 ?rest ?o"
      using i(2) decode_feed [OF assms(1) q(2,3) i(1)] decode_flush [of s q v "take 3 input" out, OF _ r] assms(1) q(4) by simp
    also have "\<dots> = Some (Inr (?o \<lparr> written := written ?o @ drop 3 input \<rparr>))"
      using 1(1) [OF False q(5), of ?o] sputn_room [OF r] q(6) by simp
    finally show ?thesis by simp
  qed
qed

text \<open>The first character has a test of its own, which differs from the loop's on padding only.\<close>

lemma decode_first:
  assumes "decode_table s = dt" "x \<noteq> pad"
  shows "b64_decode s inbuf (x # rest) out = b64_decode_loop s inbuf 0 (x # rest) out"
  using assms by (subst b64_decode_loop.simps) (auto simp: b64_decode_def Let_def decode_full_def intro!: arg_cong [where f = "io_bind _"])

lemma encoded_first: "input \<noteq> [] \<Longrightarrow> \<exists>x r. encoded e 19 input = x # r \<and> x \<noteq> pad"
proof -
  assume "input \<noteq> []"
  then obtain q where q: "encode_group alphabet64 (take 3 input) = Inr q" "length q = 4" "q ! 0 \<noteq> pad"
    using group_roundtrip [of "take 3 input"] by auto
  then obtain x q' where "q = x # q'" by (cases q) auto
  then show ?thesis using q \<open>input \<noteq> []\<close> by (simp add: encoded.simps [of e 19 input])
qed

text \<open>
  C21. Base64 is lossless: whatever the data and the line ending, \<open>encode\<close> into a stream that takes
  the bytes returns, and \<open>decode\<close> of what it wrote gives the data back, whatever the contents of its
  uninitialised buffer.
\<close>

theorem base64_roundtrip:
  assumes "s = set_line_ending e b64_new" "room out = None" "length inbuf = 4" "has_room plain (length input)"
  shows "\<exists>bs. b64_encode s input out = Some (Inr (out \<lparr> written := written out @ bs \<rparr>)) \<and>
    b64_decode s inbuf bs plain = Some (Inr (plain \<lparr> written := written plain @ input \<rparr>))"
proof -
  have s: "encode_table s = alphabet64" "decode_table s = dt" "eol_style s = e"
    using assms(1) by (simp_all add: set_line_ending_def b64_new_def)
  have "b64_encode s input out = Some (Inr (out \<lparr> written := written out @ encoded e 19 input \<rparr>))"
    using encode_loop_writes [OF s(1), of out 19 input 0] s(3) assms(2) by (simp add: b64_encode_def has_room_def)
  moreover have "b64_decode s inbuf (encoded e 19 input) plain = Some (Inr (plain \<lparr> written := written plain @ input \<rparr>))"
  proof (cases "input = []")
    case True
    then show ?thesis by (simp add: b64_decode_def)
  next
    case False
    then obtain x r where "encoded e 19 input = x # r" "x \<noteq> pad" using encoded_first by blast
    then show ?thesis
      using decode_first [OF s(2)] decode_loop_reads [OF s(2) assms(3), of input plain 0 e 19] False assms(4) by simp
  qed
  ultimately show ?thesis by blast
qed

theorem base64_roundtrip_witness:
  "\<exists>bs. b64_encode (set_line_ending CRLF b64_new) [0, 255, 61, 10] \<lparr> written = [], room = None \<rparr> =
      Some (Inr (\<lparr> written = [], room = None \<rparr> \<lparr> written := [] @ bs \<rparr>)) \<and>
    b64_decode (set_line_ending CRLF b64_new) [255, 255, 255, 255] bs \<lparr> written = [7], room = Some 5 \<rparr> =
      Some (Inr \<lparr> written = [7, 0, 255, 61, 10], room = Some 5 \<rparr>)"
  using base64_roundtrip [of "set_line_ending CRLF b64_new" CRLF "\<lparr> written = [], room = None \<rparr>" "[255, 255, 255, 255]"
      "\<lparr> written = [7], room = Some 5 \<rparr>" "[0, 255, 61, 10]"] by (simp add: has_room_def)

subsection \<open>Decoding any bytes\<close>

lemma dt_bounds: "i < 255 \<Longrightarrow> unat (dt ! i) < 255"
proof -
  assume i: "i < 255"
  have u: "unat (of_nat i :: u8) = i" using i by (simp add: unat_of_nat)
  show ?thesis
  proof (cases "(of_nat i :: u8) \<in> set alphabet64")
    case True
    then obtain k where "k < 64" "alphabet64 ! k = of_nat i" by (auto simp: in_set_conv_nth)
    then show ?thesis using lookup_alphabet [of k] u i by (simp add: lookup64_def unat_of_nat)
  next
    case False
    then show ?thesis using lookup_other [of "of_nat i"] u i by (simp add: lookup64_def bad_value_def)
  qed
qed

lemma lookup64_safe: "unat x < 255 \<Longrightarrow> \<exists>v. lookup64 dt x = Inr v \<and> unat v < 255"
  using dt_bounds by (simp add: lookup64_def)

lemma lookups64_safe: "\<forall>x \<in> set xs. unat x < 255 \<Longrightarrow> \<exists>vs. lookups64 dt xs = Inr vs \<and> length vs = length xs \<and> (\<forall>v \<in> set vs. unat v < 255)"
proof (induction xs)
  case (Cons x xs)
  then show ?case using lookup64_safe [of x] by auto
qed simp

lemma sputn_outcome: "sputn bs out = Some (Inl Write_Failure) \<or> (\<exists>out'. sputn bs out = Some (Inr out'))"
  by (induction bs out rule: sputn.induct) (auto split: option.splits)

text \<open>How a call of \<open>decode\<close> can end when no byte is 255.\<close>

definition decoded_or_thrown :: "ostream io \<Rightarrow> bool" where
  "decoded_or_thrown x \<longleftrightarrow> (\<exists>out. x = Some (Inr out)) \<or> x = Some (Inl Write_Failure) \<or> (\<exists>k. k < 4 \<and> x = Some (Inl (Decode_Error k)))"

definition buffer_ok :: "u8 list \<Rightarrow> bool" where
  "buffer_ok inbuf \<longleftrightarrow> length inbuf = 4 \<and> (\<forall>x \<in> set inbuf. unat x < 255)"

lemma decode_full_safe:
  assumes "decode_table s = dt" "buffer_ok inbuf" "pos \<le> 4"
  shows "decode_full s inbuf pos out = Some (Inl Write_Failure) \<or>
    (\<exists>inbuf' pos' out'. decode_full s inbuf pos out = Some (Inr (inbuf', pos', out')) \<and> buffer_ok inbuf' \<and> pos' < 4)"
proof (cases "pos = 4")
  case True
  obtain v where v: "lookups64 dt inbuf = Inr v" "buffer_ok v"
    using lookups64_safe [of inbuf] assms(2) by (auto simp: buffer_ok_def)
  then obtain w where "decode_group dt inbuf = Inr (v, w)" by (simp add: decode_group_def Let_def)
  then show ?thesis using True assms(1) v(2) sputn_outcome [of w out] by (auto simp: decode_full_def)
qed (use assms in \<open>auto simp: decode_full_def\<close>)

lemma decode_loop_safe:
  assumes "decode_table s = dt" "buffer_ok inbuf" "\<forall>x \<in> set input. unat x < 255" "pos \<le> 4"
  shows "decoded_or_thrown (b64_decode_loop s inbuf pos input out)"
  using assms(2-)
proof (induction input arbitrary: inbuf pos out)
  case Nil
  from decode_full_safe [OF assms(1) Nil(1,3), of out] show ?case
  proof (elim disjE exE conjE)
    fix inbuf' pos' out' assume d: "decode_full s inbuf pos out = Some (Inr (inbuf', pos', out'))" "buffer_ok inbuf'" "pos' < 4"
    then obtain v where "lookup64 dt (inbuf' ! pos') = Inr v"
      using lookup64_safe [of "inbuf' ! pos'"] by (auto simp: buffer_ok_def)
    then show ?thesis using d assms(1) by (subst b64_decode_loop.simps) (simp add: decoded_or_thrown_def)
  qed (subst b64_decode_loop.simps, simp add: decoded_or_thrown_def)
next
  case (Cons x input)
  obtain v where v: "lookup64 dt x = Inr v" using lookup64_safe [of x] Cons.prems(2) by auto
  from decode_full_safe [OF assms(1) Cons.prems(1,3), of out] show ?case
  proof (elim disjE exE conjE)
    fix inbuf' pos' out' assume d: "decode_full s inbuf pos out = Some (Inr (inbuf', pos', out'))" "buffer_ok inbuf'" "pos' < 4"
    then have "buffer_ok (inbuf'[pos' := x])"
      using Cons.prems(2) by (auto simp: buffer_ok_def dest!: set_update_subset_insert [THEN subsetD])
    then show ?thesis using d assms(1) v Cons.IH [of "inbuf'[pos' := x]"] Cons.prems(2)
      by (subst b64_decode_loop.simps) (simp add: Let_def)
  qed (subst b64_decode_loop.simps, simp add: decoded_or_thrown_def)
qed

text \<open>
  C32. \<open>decode\<close> is safe on any characters but one: when no byte of the input is 255, and none of the
  uninitialised buffer, it stays inside its tables, and returns or throws.  When it says that
  characters are left over, they are fewer than a group.
\<close>

theorem base64_decode_safe:
  assumes "s = set_line_ending e b64_new" "length inbuf = 4" "\<forall>x \<in> set (inbuf @ input). unat x < 255"
  shows "(\<exists>out'. b64_decode s inbuf input out = Some (Inr out')) \<or> b64_decode s inbuf input out = Some (Inl Write_Failure) \<or>
    (\<exists>k < 4. b64_decode s inbuf input out = Some (Inl (Decode_Error k)))"
proof (cases input)
  case (Cons x rest)
  have s: "decode_table s = dt" using assms(1) by (simp add: set_line_ending_def b64_new_def)
  obtain v where v: "lookup64 dt x = Inr v" using lookup64_safe [of x] assms(3) Cons by auto
  have "buffer_ok (inbuf[0 := x])"
    using assms(2,3) Cons by (auto simp: buffer_ok_def dest!: set_update_subset_insert [THEN subsetD])
  then have "decoded_or_thrown (b64_decode s inbuf input out)"
    using decode_loop_safe [OF s, of "inbuf[0 := x]" rest] assms(3) s v Cons by (simp add: b64_decode_def)
  then show ?thesis unfolding decoded_or_thrown_def by blast
qed (simp add: b64_decode_def)

theorem base64_decode_safe_witness:
  "(\<exists>out'. b64_decode (set_line_ending LF b64_new) [0, 0, 0, 0] [65, 65, 65] \<lparr> written = [], room = None \<rparr> = Some (Inr out')) \<or>
    b64_decode (set_line_ending LF b64_new) [0, 0, 0, 0] [65, 65, 65] \<lparr> written = [], room = None \<rparr> = Some (Inl Write_Failure) \<or>
    (\<exists>k < 4. b64_decode (set_line_ending LF b64_new) [0, 0, 0, 0] [65, 65, 65] \<lparr> written = [], room = None \<rparr> = Some (Inl (Decode_Error k)))"
  by (rule base64_decode_safe [OF refl]) simp_all

text \<open>
  The byte 255 breaks \<open>decode\<close>: the table has 255 entries, so that a stream that begins with this
  byte makes it read beyond the array.
\<close>

theorem base64_decode_255: "b64_decode (set_line_ending e b64_new) inbuf (255 # input) out = Some (Inl (Ub Out_Of_Bounds))"
  by (simp add: b64_decode_def set_line_ending_def b64_new_def lookup64_def)

end
