(* ===== verification/Sort_Array.thy ===== *)
theory Sort_Array
  imports Prelude Strict_Weak_Order "HOL-Library.Multiset"
begin

text \<open>
  The model of the sorting functions of \<open>src/dlib-minimal/lib/dlib/sort.h\<close>.  The array is a list,
  and every access outside it is the outcome \<open>Out_Of_Bounds\<close>; a failed \<open>DLIB_ASSERT\<close> is the outcome
  \<open>Assert_Failed\<close>.  Indices are natural numbers: an array has fewer than \<open>2 ^ 63\<close> elements, so that
  the arithmetic on them does not wrap around.  The depth counter is kept at its 64 bits.
\<close>

definition elem :: "'a list \<Rightarrow> nat \<Rightarrow> 'a c" where
  "elem xs i = (if i < length xs then Inr (xs ! i) else Inl Out_Of_Bounds)"

definition exchange :: "nat \<Rightarrow> nat \<Rightarrow> 'a list \<Rightarrow> 'a list c" where
  "exchange i j xs = c_bind (elem xs i) (\<lambda>a. c_bind (elem xs j) (\<lambda>b. Inr (xs[i := b, j := a])))"

definition less_at :: "('a \<Rightarrow> 'a \<Rightarrow> bool) \<Rightarrow> 'a list \<Rightarrow> nat \<Rightarrow> nat \<Rightarrow> bool c" where
  "less_at cmp xs i j = c_bind (elem xs i) (\<lambda>a. c_bind (elem xs j) (\<lambda>b. Inr (cmp a b)))"

subsection \<open>Insertion sort\<close>

text \<open>The inner loop.  A step below index 0 would wrap around.\<close>

fun isort_inner :: "('a \<Rightarrow> 'a \<Rightarrow> bool) \<Rightarrow> nat \<Rightarrow> nat \<Rightarrow> nat \<Rightarrow> 'a list \<Rightarrow> 'a list c" where
  "isort_inner cmp left pos j xs =
    c_bind (less_at cmp xs pos j) (\<lambda>less.
    if less then
      c_bind (exchange pos j xs) (\<lambda>xs.
      if j = left then Inr xs
      else case j of 0 \<Rightarrow> Inl Out_Of_Bounds | Suc j' \<Rightarrow> isort_inner cmp left j j' xs)
    else Inr xs)"

function isort_loop :: "('a \<Rightarrow> 'a \<Rightarrow> bool) \<Rightarrow> nat \<Rightarrow> nat \<Rightarrow> nat \<Rightarrow> 'a list \<Rightarrow> 'a list c" where
  "isort_loop cmp left right i xs =
    (if i \<le> right
     then c_bind (isort_inner cmp left i (i - 1) xs) (\<lambda>xs. isort_loop cmp left right (i + 1) xs)
     else Inr xs)"
  by pat_completeness auto
termination by (relation "measure (\<lambda>(cmp, left, right, i, xs). Suc right - i)") auto

definition isort_array :: "('a \<Rightarrow> 'a \<Rightarrow> bool) \<Rightarrow> nat \<Rightarrow> nat \<Rightarrow> 'a list \<Rightarrow> 'a list c" where
  "isort_array cmp left right xs =
    (if left \<le> right then isort_loop cmp left right (left + 1) xs else Inl Assert_Failed)"

subsection \<open>Heap sort\<close>

text \<open>\<open>largest\<close> after the two comparisons of one turn.\<close>

definition largest_child :: "('a \<Rightarrow> 'a \<Rightarrow> bool) \<Rightarrow> nat \<Rightarrow> nat \<Rightarrow> nat \<Rightarrow> 'a list \<Rightarrow> nat c" where
  "largest_child cmp start e i xs =
    (let left = 2 * i + 1 - start; right = left + 1 in
     c_bind (if left \<le> e then less_at cmp xs i left else Inr False) (\<lambda>b.
     let largest = (if b then left else i) in
     c_bind (if right \<le> e then less_at cmp xs largest right else Inr False) (\<lambda>b.
     Inr (if b then right else largest))))"

lemma largest_child_cases:
  "largest_child cmp start e i xs = Inr k \<Longrightarrow>
    k = i \<or> k = 2 * i + 1 - start \<and> k \<le> e \<or> k = Suc (2 * i + 1 - start) \<and> k \<le> e"
  by (auto simp: largest_child_def Let_def c_bind_eq_Inr split: if_splits)

function heapify :: "('a \<Rightarrow> 'a \<Rightarrow> bool) \<Rightarrow> nat \<Rightarrow> nat \<Rightarrow> nat \<Rightarrow> 'a list \<Rightarrow> 'a list c" where
  "heapify cmp start e i xs =
    (if start \<le> i \<and> i \<le> e then
       c_bind (largest_child cmp start e i xs) (\<lambda>largest.
       if largest \<noteq> i then c_bind (exchange i largest xs) (\<lambda>xs. heapify cmp start e largest xs) else Inr xs)
     else Inl Assert_Failed)"
  by pat_completeness auto
termination
proof (relation "measure (\<lambda>(cmp, start, e, i, xs). Suc e - i)")
  fix cmp :: "'a \<Rightarrow> 'a \<Rightarrow> bool" and start e i xs largest
  assume "start \<le> i \<and> i \<le> e" "largest_child cmp start e i xs = Inr largest" "largest \<noteq> i"
  then show "((cmp, start, e, largest, ys), cmp, start, e, i, xs) \<in> measure (\<lambda>(cmp, start, e, i, xs). Suc e - i)" for ys
    using largest_child_cases [of cmp start e i xs largest] by auto
qed simp

declare heapify.simps [simp del]

lemma heapify_start: "heapify cmp start e i xs = Inr ys \<Longrightarrow> start \<le> i"
  by (subst (asm) heapify.simps) (simp split: if_splits)

function build_heap :: "('a \<Rightarrow> 'a \<Rightarrow> bool) \<Rightarrow> nat \<Rightarrow> nat \<Rightarrow> nat \<Rightarrow> 'a list \<Rightarrow> 'a list c" where
  "build_heap cmp left right i xs =
    c_bind (heapify cmp left right i xs) (\<lambda>xs.
    if i = left then Inr xs else build_heap cmp left right (i - 1) xs)"
  by pat_completeness auto
termination by (relation "measure (\<lambda>(cmp, left, right, i, xs). i)") (auto dest: heapify_start)

function sort_heap :: "('a \<Rightarrow> 'a \<Rightarrow> bool) \<Rightarrow> nat \<Rightarrow> nat \<Rightarrow> 'a list \<Rightarrow> 'a list c" where
  "sort_heap cmp left i xs =
    (if i > left
     then c_bind (exchange i left xs) (\<lambda>xs. c_bind (heapify cmp left (i - 1) left xs) (\<lambda>xs. sort_heap cmp left (i - 1) xs))
     else Inr xs)"
  by pat_completeness auto
termination by (relation "measure (\<lambda>(cmp, left, i, xs). i)") auto

definition hsort_array :: "('a \<Rightarrow> 'a \<Rightarrow> bool) \<Rightarrow> nat \<Rightarrow> nat \<Rightarrow> 'a list \<Rightarrow> 'a list c" where
  "hsort_array cmp left right xs =
    (if left \<le> right then
       if right - left < 30 then isort_array cmp left right xs
       else c_bind (build_heap cmp left right (left + (right - left) div 2) xs) (\<lambda>xs. sort_heap cmp left right xs)
     else Inl Assert_Failed)"

subsection \<open>Quick sort\<close>

function partition_loop :: "('a \<Rightarrow> 'a \<Rightarrow> bool) \<Rightarrow> nat \<Rightarrow> nat \<Rightarrow> nat \<Rightarrow> 'a list \<Rightarrow> (nat \<times> 'a list) c" where
  "partition_loop cmp right i j xs =
    (if j < right then
       c_bind (less_at cmp xs j right) (\<lambda>less.
       if less then c_bind (exchange i j xs) (\<lambda>xs. partition_loop cmp right (i + 1) (j + 1) xs)
       else partition_loop cmp right i (j + 1) xs)
     else Inr (i, xs))"
  by pat_completeness auto
termination by (relation "measure (\<lambda>(cmp, right, i, j, xs). right - j)") auto

text \<open>\<open>pivot\<close> is a reference to the element at \<open>right\<close>.\<close>

definition qsort_partition :: "('a \<Rightarrow> 'a \<Rightarrow> bool) \<Rightarrow> nat \<Rightarrow> nat \<Rightarrow> 'a list \<Rightarrow> (nat \<times> 'a list) c" where
  "qsort_partition cmp left right xs =
    (if left < right then
       c_bind (exchange ((right - left) div 2 + left) right xs) (\<lambda>xs.
       c_bind (partition_loop cmp right left left xs) (\<lambda>(i, xs).
       c_bind (exchange i right xs) (\<lambda>xs. Inr (i, xs))))
     else Inl Assert_Failed)"

declare isort_inner.simps [simp del] isort_loop.simps [simp del] build_heap.simps [simp del]
  sort_heap.simps [simp del] partition_loop.simps [simp del]

lemma partition_loop_bounds:
  "partition_loop cmp right i j xs = Inr (p, ys) \<Longrightarrow> i \<le> j \<Longrightarrow> j \<le> right \<Longrightarrow> i \<le> p \<and> p \<le> right"
proof (induction cmp right i j xs rule: partition_loop.induct)
  case (1 cmp right i j xs)
  then show ?case by (subst (asm) partition_loop.simps) (fastforce simp: c_bind_eq_Inr split: if_splits)
qed

lemma qsort_partition_bounds: "qsort_partition cmp left right xs = Inr (p, ys) \<Longrightarrow> left \<le> p \<and> p \<le> right"
  using partition_loop_bounds by (fastforce simp: qsort_partition_def c_bind_eq_Inr split: if_splits)

function qsort_array_main :: "('a \<Rightarrow> 'a \<Rightarrow> bool) \<Rightarrow> nat \<Rightarrow> nat \<Rightarrow> u64 \<Rightarrow> 'a list \<Rightarrow> 'a list c" where
  "qsort_array_main cmp left right depth_check xs =
    (if left < right then
       if right - left < 30 \<or> depth_check = 0 then hsort_array cmp left right xs
       else
         let depth_check = drop_bit 1 depth_check; depth_check = depth_check + drop_bit 4 depth_check in
         c_bind (qsort_partition cmp left right xs) (\<lambda>(partition_element, xs).
         c_bind (if partition_element > 0 then qsort_array_main cmp left (partition_element - 1) depth_check xs
           else Inr xs) (\<lambda>xs.
         qsort_array_main cmp (partition_element + 1) right depth_check xs))
     else Inr xs)"
  by pat_completeness auto
termination
proof (relation "measure (\<lambda>(cmp, left, right, depth_check, xs). right - left)")
qed (auto dest!: qsort_partition_bounds)

declare qsort_array_main.simps [simp del]

definition qsort_array :: "('a \<Rightarrow> 'a \<Rightarrow> bool) \<Rightarrow> nat \<Rightarrow> nat \<Rightarrow> 'a list \<Rightarrow> 'a list c" where
  "qsort_array cmp left right xs =
    (if left \<le> right then qsort_array_main cmp left right (of_nat (right - left)) xs else Inl Assert_Failed)"

text \<open>The variants without a comparison argument take \<open>std::less\<close>.\<close>

definition isort_array_less :: "nat \<Rightarrow> nat \<Rightarrow> 'a::linorder list \<Rightarrow> 'a list c" where
  "isort_array_less left right xs = c_bind (elem xs left) (\<lambda>_. isort_array std_less left right xs)"

definition hsort_array_less :: "nat \<Rightarrow> nat \<Rightarrow> 'a::linorder list \<Rightarrow> 'a list c" where
  "hsort_array_less left right xs = c_bind (elem xs left) (\<lambda>_. hsort_array std_less left right xs)"

definition qsort_array_less :: "nat \<Rightarrow> nat \<Rightarrow> 'a::linorder list \<Rightarrow> 'a list c" where
  "qsort_array_less left right xs = c_bind (elem xs left) (\<lambda>_. qsort_array std_less left right xs)"

subsection \<open>Rearranging a part of the array\<close>

definition rearranged :: "nat \<Rightarrow> nat \<Rightarrow> 'a list \<Rightarrow> 'a list \<Rightarrow> bool" where
  "rearranged l r xs ys \<longleftrightarrow> length ys = length xs \<and> mset ys = mset xs \<and> (\<forall>k. k < l \<or> r < k \<longrightarrow> ys ! k = xs ! k)"

lemma rearranged_refl [simp]: "rearranged l r xs xs"
  by (simp add: rearranged_def)

lemma rearranged_trans: "rearranged l r xs ys \<Longrightarrow> rearranged l r ys zs \<Longrightarrow> rearranged l r xs zs"
  by (simp add: rearranged_def)

lemma rearranged_mono: "rearranged l r xs ys \<Longrightarrow> l' \<le> l \<Longrightarrow> r \<le> r' \<Longrightarrow> rearranged l' r' xs ys"
  by (simp add: rearranged_def)

lemma rearranged_length: "rearranged l r xs ys \<Longrightarrow> length ys = length xs"
  by (simp add: rearranged_def)

lemma rearranged_out: "rearranged l r xs ys \<Longrightarrow> k < l \<or> r < k \<Longrightarrow> ys ! k = xs ! k"
  by (auto simp: rearranged_def)

lemma elem_in [simp]: "i < length xs \<Longrightarrow> elem xs i = Inr (xs ! i)"
  by (simp add: elem_def)

lemma less_at_in [simp]: "i < length xs \<Longrightarrow> j < length xs \<Longrightarrow> less_at cmp xs i j = Inr (cmp (xs ! i) (xs ! j))"
  by (simp add: less_at_def)

lemma exchange_in [simp]: "i < length xs \<Longrightarrow> j < length xs \<Longrightarrow> exchange i j xs = Inr (xs[i := xs ! j, j := xs ! i])"
  by (simp add: exchange_def)

lemma exchange_nth:
  "i < length xs \<Longrightarrow> j < length xs \<Longrightarrow>
    xs[i := xs ! j, j := xs ! i] ! k = (if k = j then xs ! i else if k = i then xs ! j else xs ! k)"
  by (cases "k = j"; cases "k = i") simp_all

lemma rearranged_exchange:
  assumes "l \<le> i" "i \<le> r" "l \<le> j" "j \<le> r" "r < length xs"
  shows "rearranged l r xs (xs[i := xs ! j, j := xs ! i])"
proof -
  have "mset (xs[i := xs ! j, j := xs ! i]) = mset xs" using assms mset_swap [of j xs i] by simp
  then show ?thesis using assms by (auto simp: rearranged_def)
qed

text \<open>What is in the part afterwards was in it before.\<close>

lemma rearranged_in:
  assumes "rearranged l r xs ys" "l \<le> a" "a \<le> r" "r < length xs"
  shows "\<exists>k. l \<le> k \<and> k \<le> r \<and> ys ! a = xs ! k"
proof -
  define seg where "seg zs = take (Suc r - l) (drop l zs)" for zs :: "'a list"
  have split: "zs = take l zs @ seg zs @ drop (Suc r) zs" if "length zs = length xs" for zs
  proof -
    have "drop l zs = seg zs @ drop (Suc r - l) (drop l zs)" by (simp only: seg_def append_take_drop_id)
    moreover have "drop (Suc r - l) (drop l zs) = drop (Suc r) zs" using assms(2,3) by simp
    ultimately show ?thesis by (metis append_take_drop_id)
  qed
  have len: "length ys = length xs" using assms(1) by (rule rearranged_length)
  have "take l ys = take l xs" "drop (Suc r) ys = drop (Suc r) xs"
    using assms(1) len by (auto simp: rearranged_def list_eq_iff_nth_eq)
  moreover have "mset ys = mset (take l ys) + mset (seg ys) + mset (drop (Suc r) ys)"
    "mset xs = mset (take l xs) + mset (seg xs) + mset (drop (Suc r) xs)"
    using split [OF len] split [OF refl] by (metis mset_append union_assoc)+
  ultimately have "mset (seg ys) = mset (seg xs)" using assms(1) by (simp add: rearranged_def)
  then have same: "set (seg ys) = set (seg xs)" by (metis set_mset_mset)
  have "seg ys ! (a - l) = ys ! a" "a - l < length (seg ys)" using assms(2-4) len by (simp_all add: seg_def)
  then have "ys ! a \<in> set (seg xs)" using same nth_mem by metis
  then obtain m where "m < length (seg xs)" "seg xs ! m = ys ! a" by (auto simp: in_set_conv_nth)
  then show ?thesis using assms(2-4) by (intro exI [of _ "l + m"]) (auto simp: seg_def)
qed

context strict_weak_order
begin

definition sorted_between :: "nat \<Rightarrow> nat \<Rightarrow> 'd list \<Rightarrow> bool" where
  "sorted_between l r xs \<longleftrightarrow> (\<forall>i j. l \<le> i \<longrightarrow> i < j \<longrightarrow> j \<le> r \<longrightarrow> \<not> cmp (xs ! j) (xs ! i))"

subsubsection \<open>Insertion sort\<close>

text \<open>Sorted but for the element at \<open>pos\<close>, which is not greater than what comes after it.\<close>

definition inserting :: "nat \<Rightarrow> nat \<Rightarrow> nat \<Rightarrow> 'd list \<Rightarrow> bool" where
  "inserting l i pos xs \<longleftrightarrow>
    (\<forall>a b. l \<le> a \<longrightarrow> a < b \<longrightarrow> b \<le> i \<longrightarrow> a \<noteq> pos \<longrightarrow> b \<noteq> pos \<longrightarrow> \<not> cmp (xs ! b) (xs ! a)) \<and>
    (\<forall>b. pos < b \<longrightarrow> b \<le> i \<longrightarrow> \<not> cmp (xs ! b) (xs ! pos))"

lemma insertingD:
  "inserting l i pos xs \<Longrightarrow> l \<le> a \<Longrightarrow> a < b \<Longrightarrow> b \<le> i \<Longrightarrow> a \<noteq> pos \<Longrightarrow> b \<noteq> pos \<Longrightarrow> \<not> cmp (xs ! b) (xs ! a)"
  "inserting l i pos xs \<Longrightarrow> pos < b \<Longrightarrow> b \<le> i \<Longrightarrow> \<not> cmp (xs ! b) (xs ! pos)"
  by (auto simp: inserting_def)

lemma inserting_done:
  assumes "inserting l i pos xs" "\<And>a. l \<le> a \<Longrightarrow> a < pos \<Longrightarrow> \<not> cmp (xs ! pos) (xs ! a)"
  shows "sorted_between l i xs"
  unfolding sorted_between_def
proof (intro allI impI)
  fix a b assume "l \<le> a" "a < b" "b \<le> i"
  then show "\<not> cmp (xs ! b) (xs ! a)" using assms insertingD [OF assms(1)] by (cases "a = pos"; cases "b = pos") auto
qed

lemma inserting_exchange:
  assumes "inserting l i (Suc j) xs" "l \<le> j" "Suc j \<le> i" "i < length xs" "cmp (xs ! Suc j) (xs ! j)"
  shows "inserting l i j (xs[Suc j := xs ! j, j := xs ! Suc j])"
proof -
  let ?ys = "xs[Suc j := xs ! j, j := xs ! Suc j]"
  have y: "?ys ! k = (if k = j then xs ! Suc j else if k = Suc j then xs ! j else xs ! k)" for k
    using assms(3,4) exchange_nth [of "Suc j" xs j k] by simp
  have "\<not> cmp (?ys ! b) (?ys ! a)" if "l \<le> a" "a < b" "b \<le> i" "a \<noteq> j" "b \<noteq> j" for a b
    using that insertingD(1) [OF assms(1), of a b] insertingD(1) [OF assms(1), of j b] insertingD(1) [OF assms(1), of a j] assms(2,3)
    unfolding y by (cases "a = Suc j"; cases "b = Suc j") auto
  moreover have "\<not> cmp (?ys ! b) (?ys ! j)" if "j < b" "b \<le> i" for b
    using that insertingD(2) [OF assms(1), of b] asym [OF assms(5)] unfolding y by (cases "b = Suc j") auto
  ultimately show ?thesis unfolding inserting_def by blast
qed

lemma isort_inner_ok:
  assumes "inserting l i (Suc j) xs" "l \<le> j" "Suc j \<le> i" "i < length xs"
  shows "\<exists>ys. isort_inner cmp l (Suc j) j xs = Inr ys \<and> rearranged l i xs ys \<and> sorted_between l i ys"
  using assms
proof (induction j arbitrary: xs)
  case 0
  have len: "Suc 0 < length xs" "0 < length xs" using 0(3,4) by linarith+
  show ?case
  proof (cases "cmp (xs ! 1) (xs ! 0)")
    case True
    let ?ys = "xs[1 := xs ! 0, 0 := xs ! 1]"
    have "sorted_between l i ?ys" using inserting_done [OF inserting_exchange [OF 0]] True by simp
    moreover have "rearranged l i xs ?ys" using rearranged_exchange [of l 1 i 0 xs] 0(2-4) by simp
    ultimately show ?thesis using True 0(2-4) len by (subst isort_inner.simps) simp
  next
    case False
    then have "sorted_between l i xs" by (intro inserting_done [OF 0(1)]) auto
    then show ?thesis using False len by (subst isort_inner.simps) simp
  qed
next
  case (Suc j)
  let ?p = "Suc (Suc j)" and ?q = "Suc j"
  have len: "?p < length xs" "?q < length xs" using Suc.prems by simp_all
  show ?case
  proof (cases "cmp (xs ! ?p) (xs ! ?q)")
    case True
    let ?ys = "xs[?p := xs ! ?q, ?q := xs ! ?p]"
    note ins = inserting_exchange [OF Suc.prems True]
    have re: "rearranged l i xs ?ys" using rearranged_exchange [of l ?p i ?q xs] Suc.prems(2-4) by simp
    show ?thesis
    proof (cases "?q = l")
      case True
      then have "sorted_between l i ?ys" by (intro inserting_done [OF ins]) auto
      then show ?thesis using True re len \<open>cmp (xs ! ?p) (xs ! ?q)\<close> by (subst isort_inner.simps) simp
    next
      case False
      then obtain ys where "isort_inner cmp l ?q j ?ys = Inr ys" "rearranged l i ?ys ys" "sorted_between l i ys"
        using Suc.IH [of ?ys] ins Suc.prems(2-4) by auto
      then show ?thesis using False rearranged_trans [OF re] len \<open>cmp (xs ! ?p) (xs ! ?q)\<close> by (subst isort_inner.simps) auto
    qed
  next
    case False
    have "\<not> cmp (xs ! ?p) (xs ! a)" if "l \<le> a" "a < ?p" for a
      using False not_cmp_trans [OF insertingD(1) [OF Suc.prems(1), of a ?q]] that Suc.prems(3) by (cases "a = ?q") auto
    then have "sorted_between l i xs" by (rule inserting_done [OF Suc.prems(1)])
    then show ?thesis using False len by (subst isort_inner.simps) simp
  qed
qed

lemma isort_loop_ok:
  assumes "l < i" "r < length xs" "sorted_between l (i - 1) xs" "i \<le> Suc r"
  shows "\<exists>ys. isort_loop cmp l r i xs = Inr ys \<and> rearranged l r xs ys \<and> sorted_between l r ys"
  using assms
proof (induction "Suc r - i" arbitrary: i xs)
  case 0
  then have "i = Suc r" by simp
  then show ?case using 0 by (subst isort_loop.simps) simp
next
  case (Suc m)
  obtain j where j: "i = Suc j" "l \<le> j" using Suc.prems(1) by (cases i) auto
  have ir: "Suc j \<le> r" using Suc.hyps(2) j(1) by simp
  have "inserting l (Suc j) (Suc j) xs" using Suc.prems(3) j by (auto simp: inserting_def sorted_between_def)
  from isort_inner_ok [OF this j(2)] obtain ys where ys: "isort_inner cmp l (Suc j) j xs = Inr ys"
    "rearranged l (Suc j) xs ys" "sorted_between l (Suc j) ys" using Suc.prems(2) ir by auto
  have re: "rearranged l r xs ys" using rearranged_mono [OF ys(2), of l r] ir by simp
  have next_turn: "m = Suc r - Suc i" using Suc.hyps(2) by simp
  obtain zs where "isort_loop cmp l r (Suc i) ys = Inr zs" "rearranged l r ys zs" "sorted_between l r zs"
    using Suc.hyps(1) [OF next_turn, of ys] Suc.prems ys(3) rearranged_length [OF re] ir j(1) by auto
  then show ?case using ys(1) rearranged_trans [OF re] j(1) ir by (subst isort_loop.simps) auto
qed

lemma isort_array_ok:
  assumes "l \<le> r" "r < length xs"
  shows "\<exists>ys. isort_array cmp l r xs = Inr ys \<and> rearranged l r xs ys \<and> sorted_between l r ys"
  using isort_loop_ok [of l "Suc l" r xs] assms by (simp add: isort_array_def sorted_between_def)

subsubsection \<open>Heap sort\<close>

definition child :: "nat \<Rightarrow> nat \<Rightarrow> nat \<Rightarrow> bool" where
  "child s p c \<longleftrightarrow> c = 2 * p + 1 - s \<or> c = Suc (2 * p + 1 - s)"

lemma child_sum: "s \<le> p \<Longrightarrow> child s p c \<longleftrightarrow> c + s = 2 * p + 1 \<or> c + s = 2 * p + 2"
  by (auto simp: child_def)

lemma child_above: "child s p c \<Longrightarrow> s \<le> p \<Longrightarrow> p < c"
  by (auto simp: child_def)

lemma child_unique: "child s p c \<Longrightarrow> child s q c \<Longrightarrow> s \<le> p \<Longrightarrow> s \<le> q \<Longrightarrow> p = q"
  using child_sum [of s p c] child_sum [of s q c] by arith

lemma parent_exists:
  assumes "s < c"
  shows "\<exists>p. s \<le> p \<and> p < c \<and> child s p c"
proof -
  define d where "d = (c - s - 1) div 2"
  have "(c - s - 1) mod 2 = 0 \<or> (c - s - 1) mod 2 = 1" by auto
  then have "c - s - 1 = 2 * d \<or> c - s - 1 = 2 * d + 1" using div_mult_mod_eq [of "c - s - 1" 2] unfolding d_def by linarith
  then have "c - s = 2 * d + 1 \<or> c - s = 2 * d + 2" using assms by linarith
  then show ?thesis using assms child_sum [of s "s + d" c] by (intro exI [of _ "s + d"]) auto
qed

text \<open>The nodes from \<open>m\<close> on are not less than their children, but for the node \<open>i\<close>.\<close>

definition sifting :: "nat \<Rightarrow> nat \<Rightarrow> nat \<Rightarrow> nat \<Rightarrow> 'd list \<Rightarrow> bool" where
  "sifting s m e i xs \<longleftrightarrow>
    (\<forall>p c. m \<le> p \<longrightarrow> p \<noteq> i \<longrightarrow> c \<le> e \<longrightarrow> child s p c \<longrightarrow> \<not> cmp (xs ! p) (xs ! c)) \<and>
    (\<forall>p c. m \<le> p \<longrightarrow> child s p i \<longrightarrow> child s i c \<longrightarrow> c \<le> e \<longrightarrow> \<not> cmp (xs ! p) (xs ! c))"

definition heap :: "nat \<Rightarrow> nat \<Rightarrow> nat \<Rightarrow> 'd list \<Rightarrow> bool" where
  "heap s m e xs \<longleftrightarrow> (\<forall>p c. m \<le> p \<longrightarrow> c \<le> e \<longrightarrow> child s p c \<longrightarrow> \<not> cmp (xs ! p) (xs ! c))"

lemma largest_child_ok:
  assumes "s \<le> i" "i \<le> e" "e < length xs"
  shows "\<exists>k. largest_child cmp s e i xs = Inr k \<and> \<not> cmp (xs ! k) (xs ! i) \<and>
    (\<forall>c. child s i c \<longrightarrow> c \<le> e \<longrightarrow> \<not> cmp (xs ! k) (xs ! c)) \<and> (k = i \<or> child s i k \<and> k \<le> e \<and> cmp (xs ! i) (xs ! k))"
proof -
  define l where "l = 2 * i + 1 - s"
  define k1 where "k1 = (if l \<le> e \<and> cmp (xs ! i) (xs ! l) then l else i)"
  define k where "k = (if Suc l \<le> e \<and> cmp (xs ! k1) (xs ! Suc l) then Suc l else k1)"
  have "largest_child cmp s e i xs = Inr k"
    using assms unfolding largest_child_def Let_def l_def [symmetric] by (auto simp: k_def k1_def)
  moreover have k1: "\<not> cmp (xs ! k1) (xs ! i)" "l \<le> e \<Longrightarrow> \<not> cmp (xs ! k1) (xs ! l)" using asym by (auto simp: k1_def)
  have kk1: "\<not> cmp (xs ! k) (xs ! k1)" using asym by (auto simp: k_def)
  have "\<not> cmp (xs ! k) (xs ! i)" "l \<le> e \<Longrightarrow> \<not> cmp (xs ! k) (xs ! l)" using k1 not_cmp_trans [OF _ kk1] by blast+
  moreover have "Suc l \<le> e \<Longrightarrow> \<not> cmp (xs ! k) (xs ! Suc l)" by (auto simp: k_def)
  moreover have "k = i \<or> child s i k \<and> k \<le> e \<and> cmp (xs ! i) (xs ! k)"
  proof (cases "k = k1")
    case True
    then show ?thesis by (simp add: child_def k1_def l_def)
  next
    case False
    then have "k = Suc l" "k \<le> e" "cmp (xs ! k1) (xs ! k)" by (auto simp: k_def split: if_splits)
    moreover have "k1 = i \<or> cmp (xs ! i) (xs ! k1)" by (simp add: k1_def)
    ultimately show ?thesis using trans by (auto simp: child_def l_def)
  qed
  ultimately show ?thesis unfolding child_def l_def [symmetric] by blast
qed

lemma sifting_exchange:
  assumes "sifting s m e i xs" "s \<le> m" "m \<le> i" "e < length xs" "child s i k" "k \<le> e"
    "\<not> cmp (xs ! k) (xs ! i)" "\<And>c. child s i c \<Longrightarrow> c \<le> e \<Longrightarrow> \<not> cmp (xs ! k) (xs ! c)"
  shows "sifting s m e k (xs[i := xs ! k, k := xs ! i])"
proof -
  have si: "s \<le> i" using assms(2,3) by simp
  have ik: "i < k" using child_above [OF assms(5) si] .
  let ?ys = "xs[i := xs ! k, k := xs ! i]"
  have y: "?ys ! j = (if j = k then xs ! i else if j = i then xs ! k else xs ! j)" for j
    using ik assms(4,6) exchange_nth [of i xs k j] by simp
  have h: "\<not> cmp (xs ! p) (xs ! c)" if "m \<le> p" "p \<noteq> i" "c \<le> e" "child s p c" for p c
    using assms(1) that by (auto simp: sifting_def)
  have g: "\<not> cmp (xs ! p) (xs ! c)" if "m \<le> p" "child s p i" "child s i c" "c \<le> e" for p c
    using assms(1) that by (auto simp: sifting_def)
  have "\<not> cmp (?ys ! p) (?ys ! c)" if p: "m \<le> p" "p \<noteq> k" "c \<le> e" "child s p c" for p c
  proof (cases "p = i")
    case True
    then show ?thesis using p assms(7,8) child_above [OF p(4)] si unfolding y by auto
  next
    case False
    have "c \<noteq> k" using child_unique [OF p(4), of i] assms(2,5) si p(1) False by auto
    then show ?thesis using False p h [of p c] g [OF p(1) _ assms(5,6)] unfolding y by auto
  qed
  moreover have "\<not> cmp (?ys ! p) (?ys ! c)" if p: "m \<le> p" "child s p k" "child s k c" "c \<le> e" for p c
  proof -
    have "p = i" using child_unique [OF p(2) assms(5)] p(1) assms(2) si by simp
    moreover have "k < c" using child_above [OF p(3)] si ik by simp
    ultimately show ?thesis using h [of k c] p(3,4) ik assms(3) unfolding y by auto
  qed
  ultimately show ?thesis unfolding sifting_def by blast
qed

lemma heapify_ok:
  assumes "sifting s m e i xs" "s \<le> m" "m \<le> i" "i \<le> e" "e < length xs"
  shows "\<exists>ys. heapify cmp s e i xs = Inr ys \<and> rearranged i e xs ys \<and> heap s m e ys"
  using assms
proof (induction "e - i" arbitrary: i xs rule: less_induct)
  case less
  have si: "s \<le> i" using less.prems(2,3) by simp
  obtain k where k: "largest_child cmp s e i xs = Inr k" "\<not> cmp (xs ! k) (xs ! i)"
    "\<And>c. child s i c \<Longrightarrow> c \<le> e \<Longrightarrow> \<not> cmp (xs ! k) (xs ! c)" "k = i \<or> child s i k \<and> k \<le> e \<and> cmp (xs ! i) (xs ! k)"
    using largest_child_ok [OF si less.prems(4,5)] by blast
  show ?case
  proof (cases "k = i")
    case True
    then have "heap s m e xs" using less.prems(1) k(3) unfolding heap_def sifting_def by blast
    then show ?thesis using True k(1) si less.prems(4) by (subst heapify.simps) simp
  next
    case False
    then have c: "child s i k" "k \<le> e" using k(4) by auto
    have ik: "i < k" using child_above [OF c(1) si] .
    let ?ys = "xs[i := xs ! k, k := xs ! i]"
    have re: "rearranged i e xs ?ys" using rearranged_exchange [of i i e k xs] ik c(2) less.prems(4,5) by simp
    have "sifting s m e k ?ys" using sifting_exchange [OF less.prems(1-3,5) c k(2,3)] .
    moreover have "e - k < e - i" using ik c(2) by linarith
    ultimately obtain zs where "heapify cmp s e k ?ys = Inr zs" "rearranged k e ?ys zs" "heap s m e zs"
      using less.hyps [of k ?ys] less.prems(2,3,5) ik c(2) by auto
    then show ?thesis
      using k(1) False si less.prems(4,5) ik c(2) rearranged_trans [OF re rearranged_mono [of k e ?ys zs i e]]
      by (subst heapify.simps) simp
  qed
qed

lemma heap_sifting: "heap s (Suc i) e xs \<Longrightarrow> s \<le> i \<Longrightarrow> sifting s i e i xs"
  unfolding sifting_def
proof (intro conjI allI impI)
  fix p c assume h: "heap s (Suc i) e xs" and p: "i \<le> p" "p \<noteq> i" "c \<le> e" "child s p c"
  then have "Suc i \<le> p" by simp
  then show "\<not> cmp (xs ! p) (xs ! c)" using h p unfolding heap_def by blast
next
  fix p c assume "s \<le> i" "i \<le> p" "child s p i"
  then have False using child_above [of s p i] by simp
  then show "\<not> cmp (xs ! p) (xs ! c)" ..
qed

lemma build_heap_ok:
  assumes "heap s (Suc i) e xs" "s \<le> i" "i \<le> e" "e < length xs"
  shows "\<exists>ys. build_heap cmp s e i xs = Inr ys \<and> rearranged s e xs ys \<and> heap s s e ys"
  using assms
proof (induction i arbitrary: xs rule: less_induct)
  case (less i)
  obtain ys where ys: "heapify cmp s e i xs = Inr ys" "rearranged i e xs ys" "heap s i e ys"
    using heapify_ok [OF heap_sifting [OF less.prems(1,2)] less.prems(2) order_refl less.prems(3,4)] by blast
  have re: "rearranged s e xs ys" using rearranged_mono [OF ys(2), of s e] less.prems(2) by simp
  show ?case
  proof (cases "i = s")
    case True
    then show ?thesis using ys re by (subst build_heap.simps) simp
  next
    case False
    then have i: "i - 1 < i" "s \<le> i - 1" "Suc (i - 1) = i" using less.prems(2) by linarith+
    then obtain zs where "build_heap cmp s e (i - 1) ys = Inr zs" "rearranged s e ys zs" "heap s s e zs"
      using less.IH [OF i(1), of ys] ys(3) less.prems(3,4) rearranged_length [OF re] by auto
    then show ?thesis using False ys(1) rearranged_trans [OF re] by (subst build_heap.simps) auto
  qed
qed

text \<open>The root of a heap is the greatest.\<close>

lemma heap_max: "heap s s e xs \<Longrightarrow> s \<le> k \<Longrightarrow> k \<le> e \<Longrightarrow> \<not> cmp (xs ! s) (xs ! k)"
proof (induction k rule: less_induct)
  case (less k)
  show ?case
  proof (cases "k = s")
    case False
    then obtain p where p: "s \<le> p" "p < k" "child s p k" using parent_exists [of s k] less.prems(2) by auto
    then have "\<not> cmp (xs ! s) (xs ! p)" using less by simp
    moreover have "\<not> cmp (xs ! p) (xs ! k)" using p less.prems unfolding heap_def by blast
    ultimately show ?thesis using not_cmp_trans by blast
  qed simp
qed

text \<open>From \<open>i\<close> on, every element is not less than all those before it.\<close>

definition tail_sorted :: "nat \<Rightarrow> nat \<Rightarrow> nat \<Rightarrow> 'd list \<Rightarrow> bool" where
  "tail_sorted l i r xs \<longleftrightarrow> (\<forall>a b. l \<le> a \<longrightarrow> a < b \<longrightarrow> i \<le> b \<longrightarrow> b \<le> r \<longrightarrow> \<not> cmp (xs ! b) (xs ! a))"

lemma tail_sorted_rearranged:
  assumes "tail_sorted l i r xs" "rearranged l (i - 1) xs ys" "l < i" "i \<le> r" "r < length xs"
  shows "tail_sorted l i r ys"
  unfolding tail_sorted_def
proof (intro allI impI)
  fix a b assume ab: "l \<le> a" "a < b" "i \<le> b" "b \<le> r"
  have b: "ys ! b = xs ! b" using rearranged_out [OF assms(2)] ab(3) assms(3) by simp
  have "\<exists>k. l \<le> k \<and> k < b \<and> ys ! a = xs ! k"
  proof (cases "a < i")
    case True
    then show ?thesis using rearranged_in [OF assms(2) ab(1)] ab(3) assms(3-5) by fastforce
  next
    case False
    then show ?thesis using rearranged_out [OF assms(2), of a] ab assms(3) by (intro exI [of _ a]) auto
  qed
  then show "\<not> cmp (ys ! b) (ys ! a)" using assms(1) ab(3,4) b unfolding tail_sorted_def by auto
qed

lemma heap_exchange:
  assumes "heap l l i xs" "tail_sorted l (Suc i) r xs" "l < i" "i \<le> r" "r < length xs"
  defines "ys \<equiv> xs[i := xs ! l, l := xs ! i]"
  shows "tail_sorted l i r ys" "sifting l l (i - 1) l ys"
proof -
  have y: "ys ! k = (if k = l then xs ! i else if k = i then xs ! l else xs ! k)" for k
    using assms(3-5) exchange_nth [of i xs l k] by (simp add: ys_def)
  show "tail_sorted l i r ys" unfolding tail_sorted_def
  proof (intro allI impI)
    fix a b assume ab: "l \<le> a" "a < b" "i \<le> b" "b \<le> r"
    show "\<not> cmp (ys ! b) (ys ! a)"
    proof (cases "b = i")
      case True
      then show ?thesis using ab heap_max [OF assms(1)] assms(3) unfolding y by auto
    next
      case False
      then show ?thesis using ab assms(2-4) unfolding y tail_sorted_def by auto
    qed
  qed
  have "\<not> child l p l" if "l \<le> p" for p using child_above [OF _ that] that by fastforce
  moreover have "\<not> cmp (ys ! p) (ys ! c)" if p: "l \<le> p" "p \<noteq> l" "c \<le> i - 1" "child l p c" for p c
    using p assms(1,3) child_above [OF p(4,1)] unfolding y heap_def by auto
  ultimately show "sifting l l (i - 1) l ys" unfolding sifting_def by blast
qed

lemma sort_heap_ok:
  assumes "heap l l i xs" "tail_sorted l (Suc i) r xs" "l \<le> i" "i \<le> r" "r < length xs"
  shows "\<exists>ys. sort_heap cmp l i xs = Inr ys \<and> rearranged l r xs ys \<and> sorted_between l r ys"
  using assms
proof (induction i arbitrary: xs rule: less_induct)
  case (less i)
  show ?case
  proof (cases "l < i")
    case False
    then have "i = l" using less.prems(3) by simp
    then have "sorted_between l r xs" using less.prems(2) unfolding sorted_between_def tail_sorted_def by auto
    then show ?thesis using False by (subst sort_heap.simps) simp
  next
    case True
    let ?ys = "xs[i := xs ! l, l := xs ! i]"
    have re: "rearranged l r xs ?ys" using rearranged_exchange [of l i r l xs] True less.prems(4,5) by simp
    note ys = heap_exchange [OF less.prems(1,2) True less.prems(4,5)]
    have i: "i - 1 < i" "Suc (i - 1) = i" "l \<le> i - 1" "i - 1 \<le> r" "i - 1 < length ?ys"
      using True less.prems(4,5) by simp_all
    obtain zs where zs: "heapify cmp l (i - 1) l ?ys = Inr zs" "rearranged l (i - 1) ?ys zs" "heap l l (i - 1) zs"
      using heapify_ok [OF ys(2) order_refl order_refl i(3,5)] by blast
    have re2: "rearranged l r xs zs"
      using rearranged_trans [OF re rearranged_mono [OF zs(2), of l r]] less.prems(4) by simp
    have "tail_sorted l i r zs" using tail_sorted_rearranged [OF ys(1) zs(2) True less.prems(4)] less.prems(5) by simp
    then obtain ws where "sort_heap cmp l (i - 1) zs = Inr ws" "rearranged l r zs ws" "sorted_between l r ws"
      using less.IH [OF i(1) zs(3)] i rearranged_length [OF re2] less.prems(5) by auto
    then show ?thesis using True zs(1) rearranged_trans [OF re2] less.prems(4,5) by (subst sort_heap.simps) auto
  qed
qed

lemma hsort_array_ok:
  assumes "l \<le> r" "r < length xs"
  shows "\<exists>ys. hsort_array cmp l r xs = Inr ys \<and> rearranged l r xs ys \<and> sorted_between l r ys"
proof (cases "r - l < 30")
  case True
  then show ?thesis using isort_array_ok [OF assms] assms(1) by (simp add: hsort_array_def)
next
  case False
  let ?i = "l + (r - l) div 2"
  have i: "?i \<le> r" using div_le_dividend [of "r - l" 2] assms(1) by linarith
  have "heap l (Suc ?i) r xs"
  proof -
    have "\<not> child l p c" if "Suc ?i \<le> p" "c \<le> r" for p c
    proof -
      have "r - l < 2 * Suc ((r - l) div 2)" by simp
      then show ?thesis using that assms(1) by (auto simp: child_def)
    qed
    then show ?thesis unfolding heap_def by blast
  qed
  then obtain ys where ys: "build_heap cmp l r ?i xs = Inr ys" "rearranged l r xs ys" "heap l l r ys"
    using build_heap_ok [of l ?i r xs] assms i by auto
  have "tail_sorted l (Suc r) r ys" by (simp add: tail_sorted_def)
  then obtain zs where "sort_heap cmp l r ys = Inr zs" "rearranged l r ys zs" "sorted_between l r zs"
    using sort_heap_ok [OF ys(3)] assms rearranged_length [OF ys(2)] by auto
  then show ?thesis using False assms(1) ys(1) rearranged_trans [OF ys(2)] by (auto simp: hsort_array_def)
qed

subsubsection \<open>Quick sort\<close>

text \<open>Up to \<open>i\<close> the elements are less than the last one of the part, from there to \<open>j\<close> they are not.\<close>

definition parted :: "nat \<Rightarrow> nat \<Rightarrow> nat \<Rightarrow> nat \<Rightarrow> 'd list \<Rightarrow> bool" where
  "parted l r i j xs \<longleftrightarrow> (\<forall>k. l \<le> k \<longrightarrow> k < i \<longrightarrow> cmp (xs ! k) (xs ! r)) \<and> (\<forall>k. i \<le> k \<longrightarrow> k < j \<longrightarrow> \<not> cmp (xs ! k) (xs ! r))"

lemma parted_exchange:
  assumes "parted l r i j xs" "l \<le> i" "i \<le> j" "j < r" "r < length xs" "cmp (xs ! j) (xs ! r)"
  shows "parted l r (Suc i) (Suc j) (xs[i := xs ! j, j := xs ! i])"
proof -
  have y: "xs[i := xs ! j, j := xs ! i] ! k = (if k = j then xs ! i else if k = i then xs ! j else xs ! k)" for k
    using assms(3-5) exchange_nth [of i xs j k] by simp
  show ?thesis using assms unfolding parted_def y by (auto simp: less_Suc_eq)
qed

lemma partition_loop_ok:
  assumes "parted l r i j xs" "l \<le> i" "i \<le> j" "j \<le> r" "r < length xs"
  shows "\<exists>p ys. partition_loop cmp r i j xs = Inr (p, ys) \<and> rearranged l (r - 1) xs ys \<and> parted l r p r ys \<and> l \<le> p \<and> p \<le> r"
  using assms
proof (induction "r - j" arbitrary: i j xs)
  case 0
  then show ?case by (subst partition_loop.simps) auto
next
  case (Suc m)
  have jr: "j < r" "j < length xs" "i < length xs" "m = r - Suc j" using Suc.hyps(2) Suc.prems by linarith+
  show ?case
  proof (cases "cmp (xs ! j) (xs ! r)")
    case True
    let ?ys = "xs[i := xs ! j, j := xs ! i]"
    have re: "rearranged l (r - 1) xs ?ys" using rearranged_exchange [of l i "r - 1" j xs] Suc.prems jr by simp
    obtain p zs where "partition_loop cmp r (Suc i) (Suc j) ?ys = Inr (p, zs)" "rearranged l (r - 1) ?ys zs" "parted l r p r zs" "l \<le> p" "p \<le> r"
      using Suc.hyps(1) [OF jr(4), of "Suc i" ?ys] parted_exchange [OF Suc.prems(1-3) jr(1) Suc.prems(5) True] Suc.prems jr(1) by auto
    then show ?thesis using True jr Suc.prems(5) rearranged_trans [OF re] by (subst partition_loop.simps) auto
  next
    case False
    then have "parted l r i (Suc j) xs" using Suc.prems(1) unfolding parted_def by (auto simp: less_Suc_eq)
    then obtain p zs where "partition_loop cmp r i (Suc j) xs = Inr (p, zs)" "rearranged l (r - 1) xs zs" "parted l r p r zs" "l \<le> p" "p \<le> r"
      using Suc.hyps(1) [OF jr(4), of i xs] Suc.prems jr(1) by auto
    then show ?thesis using False jr Suc.prems(5) by (subst partition_loop.simps) auto
  qed
qed

lemma qsort_partition_ok:
  assumes "l < r" "r < length xs"
  shows "\<exists>p ys. qsort_partition cmp l r xs = Inr (p, ys) \<and> rearranged l r xs ys \<and> l \<le> p \<and> p \<le> r \<and>
    (\<forall>k. l \<le> k \<longrightarrow> k < p \<longrightarrow> cmp (ys ! k) (ys ! p)) \<and> (\<forall>k. p < k \<longrightarrow> k \<le> r \<longrightarrow> \<not> cmp (ys ! k) (ys ! p))"
proof -
  let ?m = "(r - l) div 2 + l"
  have m: "l \<le> ?m" "?m \<le> r" using div_le_dividend [of "r - l" 2] assms(1) by linarith+
  let ?xs = "xs[?m := xs ! r, r := xs ! ?m]"
  have re1: "rearranged l r xs ?xs" using rearranged_exchange [OF m _ _ assms(2)] assms(1) by simp
  have "parted l r l l ?xs" by (simp add: parted_def)
  then obtain p ys where p: "partition_loop cmp r l l ?xs = Inr (p, ys)" "rearranged l (r - 1) ?xs ys" "parted l r p r ys" "l \<le> p" "p \<le> r"
    using partition_loop_ok [of l r l l ?xs] assms by auto
  have re2: "rearranged l r xs ys" using rearranged_trans [OF re1 rearranged_mono [OF p(2), of l r]] by simp
  have len: "length ys = length xs" using rearranged_length [OF re2] .
  let ?zs = "ys[p := ys ! r, r := ys ! p]"
  have re3: "rearranged l r xs ?zs"
    using rearranged_trans [OF re2 rearranged_exchange [OF p(4,5)]] assms len by simp
  have z: "?zs ! k = (if k = r then ys ! p else if k = p then ys ! r else ys ! k)" for k
    using p(5) assms(2) len exchange_nth [of p ys r k] by simp
  have "cmp (?zs ! k) (?zs ! p)" if "l \<le> k" "k < p" for k using that p(3,5) unfolding z parted_def by auto
  moreover have "\<not> cmp (?zs ! k) (?zs ! p)" if "p < k" "k \<le> r" for k using that p(3,5) unfolding z parted_def by auto
  moreover have "qsort_partition cmp l r xs = Inr (p, ?zs)"
    using assms m p(1,5) len by (simp add: qsort_partition_def)
  ultimately show ?thesis using re3 p(4,5) by blast
qed

lemma sorted_halves:
  assumes "rearranged l (p - 1) xs ys" "rearranged (Suc p) r ys zs" "l \<le> p" "p \<le> r" "r < length xs"
    and "\<And>k. l \<le> k \<Longrightarrow> k < p \<Longrightarrow> cmp (xs ! k) (xs ! p)" "\<And>k. p < k \<Longrightarrow> k \<le> r \<Longrightarrow> \<not> cmp (xs ! k) (xs ! p)"
    and "l < p \<Longrightarrow> sorted_between l (p - 1) ys" "sorted_between (Suc p) r zs" and low: "l = p \<Longrightarrow> ys = xs"
  shows "sorted_between l r zs"
  unfolding sorted_between_def
proof (intro allI impI)
  have ylen: "length ys = length xs" using rearranged_length [OF assms(1)] .
  have pivot: "zs ! p = xs ! p"
    using rearranged_out [OF assms(2), of p] rearranged_out [OF assms(1), of p] low assms(3) by (cases "l = p") auto
  have left: "cmp (zs ! k) (xs ! p)" if "l \<le> k" "k < p" for k
    using that rearranged_in [OF assms(1), of k] rearranged_out [OF assms(2), of k] assms(4-6) by fastforce
  have right: "\<not> cmp (zs ! k) (xs ! p)" if k: "p < k" "k \<le> r" for k
  proof -
    obtain k' where "Suc p \<le> k'" "k' \<le> r" "zs ! k = ys ! k'"
      using rearranged_in [OF assms(2), of k] k assms(5) ylen by auto
    moreover have "p - 1 < k'" using calculation(1) by linarith
    then have "ys ! k' = xs ! k'" using rearranged_out [OF assms(1), of k'] by blast
    ultimately show ?thesis using assms(7) by simp
  qed
  fix i j assume ij: "l \<le> i" "i < j" "j \<le> r"
  consider "j < p" | "i < p" "j = p" | "i < p" "p < j" | "i = p" "p < j" | "p < i" using ij by linarith
  then show "\<not> cmp (zs ! j) (zs ! i)"
  proof cases
    case 1
    then have "zs ! i = ys ! i" "zs ! j = ys ! j" using rearranged_out [OF assms(2)] ij(2) by auto
    then show ?thesis using 1 assms(8) ij unfolding sorted_between_def by auto
  next
    case 2
    then show ?thesis using left [of i] asym ij pivot by auto
  next
    case 3
    then show ?thesis using left [of i] right [of j] ij trans by blast
  next
    case 4
    then show ?thesis using right [of j] ij pivot by simp
  next
    case 5
    then show ?thesis using assms(9) ij unfolding sorted_between_def by auto
  qed
qed

lemma qsort_array_main_ok:
  assumes "r < length xs \<or> r \<le> l"
  shows "\<exists>ys. qsort_array_main cmp l r depth xs = Inr ys \<and> rearranged l r xs ys \<and> sorted_between l r ys"
  using assms
proof (induction "r - l" arbitrary: l r depth xs rule: less_induct)
  case less
  show ?case
  proof (cases "l < r")
    case False
    then have "sorted_between l r xs" by (auto simp: sorted_between_def)
    then show ?thesis using False by (subst qsort_array_main.simps) simp
  next
    case lr: True
    then have len: "r < length xs" using less.prems by simp
    show ?thesis
    proof (cases "r - l < 30 \<or> depth = 0")
      case True
      then show ?thesis using hsort_array_ok [of l r xs] lr len by (subst qsort_array_main.simps) simp
    next
      case False
      define d where "d = drop_bit 1 depth + drop_bit 4 (drop_bit 1 depth)"
      obtain p xs1 where p: "qsort_partition cmp l r xs = Inr (p, xs1)" "rearranged l r xs xs1" "l \<le> p" "p \<le> r"
        "\<And>k. l \<le> k \<Longrightarrow> k < p \<Longrightarrow> cmp (xs1 ! k) (xs1 ! p)" "\<And>k. p < k \<Longrightarrow> k \<le> r \<Longrightarrow> \<not> cmp (xs1 ! k) (xs1 ! p)"
        using qsort_partition_ok [OF lr len] by blast
      have len1: "length xs1 = length xs" using rearranged_length [OF p(2)] .
      have "\<exists>ys. (if p > 0 then qsort_array_main cmp l (p - 1) d xs1 else Inr xs1) = Inr ys \<and> rearranged l (p - 1) xs1 ys \<and>
          (l < p \<longrightarrow> sorted_between l (p - 1) ys) \<and> (l = p \<longrightarrow> ys = xs1)"
      proof (cases "l < p")
        case True
        then have "p - 1 - l < r - l" "p - 1 < length xs1" using p(4) lr len len1 by linarith+
        then show ?thesis using less.hyps [of "p - 1" l xs1 d] True by auto
      next
        case False
        then have "l = p" "\<not> l < p - 1" using p(3) by linarith+
        then show ?thesis by (subst qsort_array_main.simps) simp
      qed
      then obtain ys where ys: "(if p > 0 then qsort_array_main cmp l (p - 1) d xs1 else Inr xs1) = Inr ys" "rearranged l (p - 1) xs1 ys"
        "l < p \<Longrightarrow> sorted_between l (p - 1) ys" "l = p \<Longrightarrow> ys = xs1" by blast
      have len2: "length ys = length xs" using rearranged_length [OF ys(2)] len1 by simp
      have "r - (p + 1) < r - l" using p(3,4) lr by linarith
      then obtain zs where zs: "qsort_array_main cmp (p + 1) r d ys = Inr zs" "rearranged (p + 1) r ys zs" "sorted_between (p + 1) r zs"
        using less.hyps [of r "p + 1" ys d] len len2 by auto
      have "sorted_between l r zs"
        using sorted_halves [OF ys(2) _ p(3,4) _ p(5,6) ys(3) _ ys(4), where zs = zs] zs(2,3) len len1 by simp
      moreover have "rearranged l r xs zs"
        using rearranged_trans [OF p(2) rearranged_trans [OF rearranged_mono [OF ys(2)] rearranged_mono [OF zs(2)]]] p(3,4) by simp
      moreover have "qsort_array_main cmp l r depth xs = Inr zs"
        unfolding qsort_array_main.simps [of cmp l r depth xs] Let_def d_def [symmetric]
        using lr False p(1) ys(1) zs(1) by (simp only: if_True if_False c_bind_simps prod.case)
      ultimately show ?thesis by blast
    qed
  qed
qed

end

text \<open>
  C6. The three sorting functions sort: for a strict weak order and a part of the array inside its
  bounds, each of \<open>isort_array\<close>, \<open>hsort_array\<close> and \<open>qsort_array\<close> returns, without an access out of
  bounds and without a failed assertion; the part is in order afterwards, its elements are the same,
  and nothing outside it has changed.
\<close>

theorem sort_array_correct:
  assumes "strict_weak_order cmp" "left \<le> right" "right < length xs"
    "algorithm \<in> {isort_array, hsort_array, qsort_array}"
  shows "\<exists>ys. algorithm cmp left right xs = Inr ys \<and> mset ys = mset xs \<and>
    (\<forall>k. k < left \<or> right < k \<longrightarrow> ys ! k = xs ! k) \<and>
    (\<forall>i j. left \<le> i \<longrightarrow> i < j \<longrightarrow> j \<le> right \<longrightarrow> \<not> cmp (ys ! j) (ys ! i))"
proof -
  note swo = strict_weak_order.sorted_between_def [OF assms(1)]
  have "\<exists>ys. qsort_array cmp left right xs = Inr ys \<and> rearranged left right xs ys \<and> strict_weak_order.sorted_between cmp left right ys"
    using strict_weak_order.qsort_array_main_ok [OF assms(1), of right xs left] assms(2,3) by (simp add: qsort_array_def)
  then have "\<exists>ys. algorithm cmp left right xs = Inr ys \<and> rearranged left right xs ys \<and> strict_weak_order.sorted_between cmp left right ys"
    using assms(4) strict_weak_order.isort_array_ok [OF assms(1-3)] strict_weak_order.hsort_array_ok [OF assms(1-3)] by blast
  then show ?thesis unfolding swo rearranged_def by blast
qed

theorem sort_array_correct_witness:
  "\<exists>ys. qsort_array std_less 1 3 [9, 5, 7, 6, 0 :: nat] = Inr ys \<and> mset ys = mset [9, 5, 7, 6, 0] \<and>
    (\<forall>k. k < 1 \<or> 3 < k \<longrightarrow> ys ! k = [9, 5, 7, 6, 0] ! k) \<and>
    (\<forall>i j. 1 \<le> i \<longrightarrow> i < j \<longrightarrow> j \<le> 3 \<longrightarrow> \<not> std_less (ys ! j) (ys ! i))"
  by (rule sort_array_correct [OF std_less_strict_weak_order]) simp_all

end
