(* ===== verification/Bigint_Digits.thy ===== *)
theory Bigint_Digits
  imports Prelude
begin

text \<open>
  Numbers as lists of 16-bit digits, the least significant first, and the digit-by-digit steps of the
  loops in \<open>src/dlib-minimal/lib/dlib/bigint/bigint_kernel_1.cpp\<close>: each step takes the 32-bit variable
  \<open>temp\<close>, whose upper part is the carry, and gives the new one; its lower half is the digit of the result.
\<close>

fun digits_val :: "u16 list \<Rightarrow> nat" where
  "digits_val [] = 0"
| "digits_val (x # xs) = unat x + 65536 * digits_val xs"

text \<open>The form in which the code expects numbers: one digit, or a leading digit that is not zero.\<close>

definition canonical :: "u16 list \<Rightarrow> bool" where
  "canonical xs \<longleftrightarrow> xs \<noteq> [] \<and> (length xs = 1 \<or> last xs \<noteq> 0)"

lemma val_append: "digits_val (xs @ ys) = digits_val xs + 65536 ^ length xs * digits_val ys"
  by (induction xs) (simp_all add: algebra_simps)

lemma val_replicate_0 [simp]: "digits_val (replicate n 0) = 0"
  by (induction n) simp_all

lemma unat_digit: "unat (x :: u16) < 65536"
  using unsigned_less [of x, where 'a = nat] by simp

lemma val_less: "digits_val xs < 65536 ^ length xs"
proof (induction xs)
  case (Cons x xs)
  have "unat x + 65536 * digits_val xs < 65536 * (digits_val xs + 1)" using unat_digit [of x] by simp
  also have "\<dots> \<le> 65536 * 65536 ^ length xs" using Cons by (intro mult_left_mono) simp_all
  finally show ?case by simp
qed simp

lemma val_butlast: "xs \<noteq> [] \<Longrightarrow> digits_val xs = digits_val (butlast xs) + 65536 ^ (length xs - 1) * unat (last xs)"
  using val_append [of "butlast xs" "[last xs]"] by simp

lemma val_take_less:
  assumes "xs \<noteq> []" "digits_val xs < 65536 ^ (length xs - 1)"
  shows "digits_val (take (length xs - 1) xs) = digits_val xs"
proof -
  have "last xs = 0"
  proof (rule ccontr)
    assume "last xs \<noteq> 0"
    then have "65536 ^ (length xs - 1) * 1 \<le> 65536 ^ (length xs - 1) * unat (last xs)"
      by (intro mult_left_mono) (simp_all add: unat_gt_0 Suc_leI)
    then show False using val_butlast [OF assms(1)] assms(2) by linarith
  qed
  then show ?thesis using val_butlast [OF assms(1)] by (simp add: butlast_conv_take)
qed

lemma leading_less: "a < 65536 ^ n \<Longrightarrow> i < j \<Longrightarrow> a + 65536 ^ n * i < b + 65536 ^ n * (j :: nat)"
proof -
  assume a: "a < 65536 ^ n" "i < j"
  have "a + 65536 ^ n * i < 65536 ^ n * (i + 1)" using a(1) by simp
  also have "\<dots> \<le> 65536 ^ n * j" using a(2) by (intro mult_left_mono) simp_all
  finally show ?thesis by simp
qed

lemma canonical_low:
  assumes "canonical xs" "1 < length xs"
  shows "65536 ^ (length xs - 1) \<le> digits_val xs"
proof -
  have "xs \<noteq> []" "last xs \<noteq> 0" using assms by (auto simp: canonical_def)
  then have "65536 ^ (length xs - 1) * 1 \<le> 65536 ^ (length xs - 1) * unat (last xs)"
    by (intro mult_left_mono) (simp_all add: unat_gt_0 Suc_leI)
  then show ?thesis unfolding val_butlast [OF \<open>xs \<noteq> []\<close>] by linarith
qed

lemma canonicalI:
  assumes "xs \<noteq> []" "length xs = 1 \<or> 65536 ^ (length xs - 1) \<le> digits_val xs"
  shows "canonical xs"
proof -
  have "last xs \<noteq> 0" if "65536 ^ (length xs - 1) \<le> digits_val xs"
  proof
    assume "last xs = 0"
    then have "digits_val xs = digits_val (butlast xs)" using val_butlast [OF assms(1)] by simp
    then show False using that val_less [of "butlast xs"] by simp
  qed
  then show ?thesis using assms by (auto simp: canonical_def)
qed

lemma canonical_grow:
  assumes "canonical xs" "length ws = length xs" "digits_val xs \<le> digits_val ws"
  shows "canonical ws"
proof (cases "length xs = 1")
  case False
  then have "1 < length xs" using assms(1) by (cases xs) (auto simp: canonical_def)
  then show ?thesis using canonical_low [OF assms(1)] assms(2,3) by (intro canonicalI) auto
qed (use assms in \<open>auto simp: canonical_def\<close>)

text \<open>A number with fewer digits is smaller.\<close>

lemma val_shorter:
  assumes "canonical ys" "xs \<noteq> []" "length xs < length ys"
  shows "digits_val xs < digits_val ys"
proof -
  have "1 < length ys" using assms(2,3) by (cases xs) auto
  have "digits_val xs < 65536 ^ length xs" by (rule val_less)
  also have "\<dots> \<le> 65536 ^ (length ys - 1)" using assms(3) by (intro power_increasing) simp_all
  also have "\<dots> \<le> digits_val ys" using canonical_low [OF assms(1)] \<open>1 < length ys\<close> by simp
  finally show ?thesis .
qed

lemma val_inj: "length xs = length ys \<Longrightarrow> digits_val xs = digits_val ys \<longleftrightarrow> xs = ys"
proof (induction xs ys rule: list_induct2)
  case (Cons x xs y ys)
  have "unat x = unat y \<and> digits_val xs = digits_val ys" if "unat x + 65536 * digits_val xs = unat y + 65536 * digits_val ys"
    using arg_cong [OF that, of "\<lambda>n. n mod 65536"] arg_cong [OF that, of "\<lambda>n. n div 65536"] unat_digit [of x] unat_digit [of y] by simp
  then show ?case using Cons.IH by (auto simp: word_unat_eq_iff)
qed simp

lemma canonical_inj: "canonical xs \<Longrightarrow> canonical ys \<Longrightarrow> digits_val xs = digits_val ys \<longleftrightarrow> xs = ys"
  using val_shorter [of ys xs] val_shorter [of xs ys] val_inj [of xs ys]
  by (metis canonical_def less_irrefl linorder_neqE_nat)

subsection \<open>The steps of the loops\<close>

definition low_word :: "u32 \<Rightarrow> u16" where "low_word temp = ucast (temp AND 0xFFFF)"

definition carry :: "u32 \<Rightarrow> u32" where "carry temp = drop_bit 16 temp"

definition borrow :: "u32 \<Rightarrow> u32" where "borrow temp = drop_bit 31 temp"

definition add_step :: "u32 \<Rightarrow> u16 \<Rightarrow> u16 \<Rightarrow> u32" where
  "add_step temp x y = ucast x + ucast y + carry temp"

definition sub_step :: "u32 \<Rightarrow> u16 \<Rightarrow> u16 \<Rightarrow> u32" where
  "sub_step temp x y = ucast x - ucast y - borrow temp"

definition mul_step :: "u16 \<Rightarrow> u32 \<Rightarrow> u16 \<Rightarrow> u32" where
  "mul_step value temp x = ucast x * ucast value + carry temp"

definition div_step :: "u16 \<Rightarrow> u16 \<Rightarrow> u16 \<Rightarrow> u32" where
  "div_step value remainder x = ucast x + push_bit 16 (ucast remainder)"

lemma unat_ucast_16_32: "unat (ucast (x :: u16) :: u32) = unat x"
  using unat_digit [of x] by (simp add: unsigned_ucast_eq take_bit_eq_mod)

lemma unat_high_word: "unat (push_bit 16 (ucast (v :: u16)) :: u32) = unat v * 65536"
  using unat_digit [of v] by (simp add: push_bit_eq_mult unat_word_ariths unat_ucast_16_32)

lemma unat_low_word: "unat (low_word t) = unat t mod 65536"
proof -
  have "(0xFFFF :: u32) = mask 16" by (simp add: mask_eq_exp_minus_1)
  then have "low_word t = ucast (take_bit 16 t)" by (simp add: low_word_def take_bit_eq_mask)
  moreover have "unat (take_bit 16 t) = unat t mod 65536" unfolding unsigned_take_bit_eq by (simp add: take_bit_eq_mod)
  ultimately show ?thesis by (simp only: unsigned_ucast_eq) (simp add: take_bit_eq_mod)
qed

lemma unat_carry: "unat (carry t) = unat t div 65536"
  by (simp only: carry_def unat_drop_bit_eq) (simp add: drop_bit_eq_div)

lemma unat_borrow: "unat (borrow t) = unat t div 2 ^ 31"
  by (simp only: borrow_def unat_drop_bit_eq) (simp add: drop_bit_eq_div)

lemma carry_split: "unat (low_word t) + 65536 * unat (carry t) = unat t"
  by (simp add: unat_low_word unat_carry)

lemma carry_less: "unat (carry t) < 65536"
  using unsigned_less [of t, where 'a = nat] by (simp add: unat_carry)

lemma unat_add_step:
  assumes "unat (carry t) \<le> 65535"
  shows "unat (add_step t x y) = unat x + unat y + unat (carry t)"
  using assms unat_digit [of x] unat_digit [of y] by (simp add: add_step_def unat_word_ariths unat_ucast_16_32)

lemma add_step_swap: "add_step t x y = add_step t y x"
  by (simp add: add_step_def add.commute)

lemma unat_mul_step: "unat (mul_step v t x) = unat x * unat v + unat (carry t)"
proof -
  have "unat x * unat v \<le> 65535 * 65535" using unat_digit [of x] unat_digit [of v] by (intro mult_mono) simp_all
  then show ?thesis using carry_less [of t] by (simp add: mul_step_def unat_word_ariths unat_ucast_16_32)
qed

text \<open>A borrow is 0 or 1, and the difference of two digits is recorded modulo \<open>2 ^ 32\<close>.\<close>

lemma sub_arith:
  fixes s x y b :: nat
  assumes "int s = (int x - int y - int b) mod 2 ^ 32" "x < 65536" "y < 65536" "b \<le> 1"
  shows "s mod 65536 + y + b = x + 65536 * (s div 2 ^ 31) \<and> s div 2 ^ 31 \<le> 1"
proof (cases "y + b \<le> x")
  case True
  then have "s = x - y - b" using assms by simp
  then show ?thesis using True assms by simp
next
  case False
  have "(int x - int y - int b) mod 2 ^ 32 = (int x - int y - int b + 2 ^ 32) mod 2 ^ 32" by simp
  also have "\<dots> = int x - int y - int b + 2 ^ 32" using False assms by (intro mod_pos_pos_trivial) simp_all
  finally have s: "s = 2 ^ 32 + x - y - b" using assms by simp
  then have "s div 2 ^ 31 = 1" using False assms(2-4) by (intro div_nat_eqI) simp_all
  moreover define r where "r = 65536 + x - y - b"
  have "r < 65536" "s = r + 65535 * 65536" using s False assms(2-4) by (simp_all add: r_def)
  then have "s mod 65536 = r" by (simp only: mod_mult_self1) simp
  ultimately show ?thesis using False assms(2-4) by (simp add: r_def)
qed

lemma sub_step_split:
  assumes "unat (borrow t) \<le> 1"
  shows "unat (low_word (sub_step t x y)) + unat y + unat (borrow t) = unat x + 65536 * unat (borrow (sub_step t x y))"
    "unat (borrow (sub_step t x y)) \<le> 1"
proof -
  have "uint (sub_step t x y) = (uint (ucast x :: u32) - uint (ucast y :: u32) - uint (borrow t)) mod 2 ^ 32"
    by (simp add: sub_step_def uint_word_ariths mod_simps)
  then have "int (unat (sub_step t x y)) = (int (unat x) - int (unat y) - int (unat (borrow t))) mod 2 ^ 32"
    unfolding uint_nat unat_ucast_16_32 .
  from sub_arith [OF this unat_digit unat_digit assms]
  show "unat (low_word (sub_step t x y)) + unat y + unat (borrow t) = unat x + 65536 * unat (borrow (sub_step t x y))"
    "unat (borrow (sub_step t x y)) \<le> 1" by (simp_all only: unat_low_word unat_borrow)
qed

subsection \<open>Whole loops\<close>

fun chain :: "('st \<Rightarrow> 'x \<Rightarrow> 'st \<times> 'y) \<Rightarrow> 'st \<Rightarrow> 'x list \<Rightarrow> 'st \<times> 'y list" where
  "chain f st [] = (st, [])"
| "chain f st (x # xs) = (case f st x of (st, y) \<Rightarrow> case chain f st xs of (st, ys) \<Rightarrow> (st, y # ys))"

lemma length_chain [simp]: "length (snd (chain f st xs)) = length xs"
  by (induction xs arbitrary: st) (simp_all add: case_prod_beta)

definition add_digit :: "u32 \<Rightarrow> u16 \<times> u16 \<Rightarrow> u32 \<times> u16" where
  "add_digit temp = (\<lambda>(x, y). let temp = add_step temp x y in (temp, low_word temp))"

definition sub_digit :: "u32 \<Rightarrow> u16 \<times> u16 \<Rightarrow> u32 \<times> u16" where
  "sub_digit temp = (\<lambda>(x, y). let temp = sub_step temp x y in (temp, low_word temp))"

definition mul_digit :: "u16 \<Rightarrow> u32 \<Rightarrow> u16 \<Rightarrow> u32 \<times> u16" where
  "mul_digit value temp x = (let temp = mul_step value temp x in (temp, low_word temp))"

lemma digit_pairs:
  "add_digit temp (x, y) = (add_step temp x y, low_word (add_step temp x y))"
  "sub_digit temp (x, y) = (sub_step temp x y, low_word (sub_step temp x y))"
  "mul_digit v temp x = (mul_step v temp x, low_word (mul_step v temp x))"
  by (simp_all add: add_digit_def sub_digit_def mul_digit_def Let_def)

lemma add_chain:
  "chain add_digit temp xys = (temp', zs) \<Longrightarrow>
    digits_val zs + 65536 ^ length xys * unat (carry temp') = digits_val (map fst xys) + digits_val (map snd xys) + unat (carry temp)"
proof (induction xys arbitrary: temp zs)
  case (Cons xy xys)
  obtain x y where xy: "xy = (x, y)" by (cases xy)
  let ?t = "add_step temp x y"
  obtain ws where ws: "chain add_digit ?t xys = (temp', ws)" "zs = low_word ?t # ws"
    using Cons.prems by (auto simp: xy digit_pairs split: prod.splits)
  have "unat (low_word ?t) + 65536 * unat (carry ?t) = unat x + unat y + unat (carry temp)"
    using carry_split [of ?t] unat_add_step [of temp x y] carry_less [of temp] by simp
  then show ?case using Cons.IH [OF ws(1)] by (simp add: ws(2) xy algebra_simps)
qed simp

lemma sub_chain:
  assumes "chain sub_digit temp xys = (temp', zs)" "unat (borrow temp) \<le> 1"
  shows "digits_val zs + digits_val (map snd xys) + unat (borrow temp) = digits_val (map fst xys) + 65536 ^ length xys * unat (borrow temp') \<and>
    unat (borrow temp') \<le> 1"
  using assms
proof (induction xys arbitrary: temp zs)
  case (Cons xy xys)
  obtain x y where xy: "xy = (x, y)" by (cases xy)
  let ?t = "sub_step temp x y"
  obtain ws where ws: "chain sub_digit ?t xys = (temp', ws)" "zs = low_word ?t # ws"
    using Cons.prems by (auto simp: xy digit_pairs split: prod.splits)
  note s = sub_step_split [OF Cons.prems(2), of x y]
  show ?case using Cons.IH [OF ws(1) s(2)] s(1) by (simp add: ws(2) xy algebra_simps)
qed simp

lemma mul_chain:
  "chain (mul_digit v) temp xs = (temp', zs) \<Longrightarrow>
    digits_val zs + 65536 ^ length xs * unat (carry temp') = digits_val xs * unat v + unat (carry temp)"
proof (induction xs arbitrary: temp zs)
  case (Cons x xs)
  let ?t = "mul_step v temp x"
  obtain ws where ws: "chain (mul_digit v) ?t xs = (temp', ws)" "zs = low_word ?t # ws"
    using Cons.prems digit_pairs(3) [of v temp x] by (auto split: prod.splits)
  have "unat (low_word ?t) + 65536 * unat (carry ?t) = unat x * unat v + unat (carry temp)"
    using carry_split [of ?t] unat_mul_step by simp
  then show ?case using Cons.IH [OF ws(1)] by (simp add: ws(2) algebra_simps)
qed simp

lemma chain_map: "chain f st (map g xs) = chain (\<lambda>st x. f st (g x)) st xs"
  by (induction xs arbitrary: st) (simp_all split: prod.splits)

lemma chain_append:
  "chain f st (xs @ ys) = (fst (chain f (fst (chain f st xs)) ys), snd (chain f st xs) @ snd (chain f (fst (chain f st xs)) ys))"
  by (induction xs arbitrary: st) (simp_all add: case_prod_beta)

text \<open>A list of pairs of digits, where the shorter number is padded with zeros.\<close>

definition padded :: "u16 list \<Rightarrow> u16 list \<Rightarrow> (u16 \<times> u16) list" where
  "padded xs ys = zip (take (length ys) xs) ys @ map (\<lambda>x. (x, 0)) (drop (length ys) xs)"

lemma padded_vals:
  assumes "length ys \<le> length xs"
  shows "digits_val (map fst (padded xs ys)) = digits_val xs" "digits_val (map snd (padded xs ys)) = digits_val ys" "length (padded xs ys) = length xs"
proof -
  have "map fst (padded xs ys) = xs" using assms by (simp add: padded_def o_def)
  then show "digits_val (map fst (padded xs ys)) = digits_val xs" by simp
  have "map snd (padded xs ys) = ys @ replicate (length xs - length ys) 0"
    using assms by (simp add: padded_def o_def map_replicate_const)
  then show "digits_val (map snd (padded xs ys)) = digits_val ys" by (simp add: val_append)
  show "length (padded xs ys) = length xs" using assms by (simp add: padded_def)
qed

lemma chain_padded:
  "chain f st (padded xs ys) =
    (let c = chain f st (zip (take (length ys) xs) ys); e = chain (\<lambda>st x. f st (x, 0)) (fst c) (drop (length ys) xs)
     in (fst e, snd c @ snd e))"
  by (simp add: padded_def chain_append chain_map Let_def)

lemma step_zero:
  "ucast x + carry temp = add_step temp x 0" "ucast x - borrow temp = sub_step temp x 0"
  "ucast x + ucast y + carry temp = add_step temp x y" "ucast x - ucast y - borrow temp = sub_step temp x y"
  "ucast x * ucast v + carry temp = mul_step v temp x"
  by (simp_all add: add_step_def sub_step_def mul_step_def)

lemma sub_total:
  assumes "length ys \<le> length xs" "digits_val ys \<le> digits_val xs"
  shows "digits_val (snd (chain sub_digit 0 (padded xs ys))) = digits_val xs - digits_val ys" "length (snd (chain sub_digit 0 (padded xs ys))) = length xs"
proof -
  let ?c = "chain sub_digit 0 (padded xs ys)"
  show n: "length (snd ?c) = length xs" using padded_vals(3) [OF assms(1)] by simp
  have s: "digits_val (snd ?c) + digits_val ys = digits_val xs + 65536 ^ length xs * unat (borrow (fst ?c))"
    using sub_chain [of 0 "padded xs ys" "fst ?c" "snd ?c"] padded_vals [OF assms(1)] by (simp add: borrow_def)
  have l: "digits_val (snd ?c) < 65536 ^ length xs" using val_less [of "snd ?c"] n by simp
  have "65536 ^ length xs * 1 \<le> 65536 ^ length xs * unat (borrow (fst ?c))" if "unat (borrow (fst ?c)) \<noteq> 0"
    using that by (intro mult_left_mono) simp_all
  then have "unat (borrow (fst ?c)) = 0" using s l assms(2) by linarith
  then show "digits_val (snd ?c) = digits_val xs - digits_val ys" using s by simp
qed

text \<open>Subtracting less than one digit drops at most one digit.\<close>

lemma canonical_sub:
  assumes "canonical xs" "digits_val ws = digits_val xs - n" "n < 65536" "ws \<noteq> []" "length ws \<le> length xs" "length xs \<le> Suc (length ws)"
    "length ws = length xs \<longrightarrow> length xs = 1 \<or> last ws \<noteq> 0"
  shows "canonical ws"
proof (cases "length ws = length xs \<or> length ws = 1")
  case False
  then have l: "length xs = Suc (length ws)" "1 < length ws" using assms(4,5,6) by (auto simp: neq_Nil_conv)
  have "65536 ^ 1 \<le> (65536 :: nat) ^ (length ws - 1)" using l(2) by (intro power_increasing) simp_all
  moreover have "(65536 :: nat) ^ length ws = 65536 * 65536 ^ (length ws - 1)" using l(2) by (cases "length ws") simp_all
  moreover have "65536 ^ length ws \<le> digits_val xs" using canonical_low [OF assms(1)] l assms(4) by simp
  ultimately have "65536 ^ (length ws - 1) \<le> digits_val ws" unfolding assms(2) using assms(3) by linarith
  then show ?thesis by (intro canonicalI [OF assms(4)]) simp
qed (use assms in \<open>auto simp: canonical_def\<close>)

subsection \<open>Division by a digit\<close>

definition div_digit :: "u16 \<Rightarrow> u16 \<Rightarrow> u16 \<Rightarrow> u16 \<times> u16" where
  "div_digit v remainder x =
    (ucast (div_step v remainder x mod ucast v), ucast (div_step v remainder x div ucast v))"

lemma div_digit_split:
  assumes "unat remainder < unat v" "div_digit v remainder x = (remainder', q)"
  shows "unat remainder * 65536 + unat x = unat q * unat v + unat remainder'" "unat remainder' < unat v"
proof -
  let ?t = "div_step v remainder x"
  have t: "unat ?t = unat remainder * 65536 + unat x"
    using unat_digit [of x] unat_digit [of remainder]
    by (simp add: div_step_def unat_word_ariths unat_ucast_16_32 unat_high_word)
  have "unat remainder * 65536 + unat x < 65536 * unat v" using assms(1) unat_digit [of x] by simp
  then have "unat ?t div unat v < 65536" unfolding t by (simp add: less_mult_imp_div_less)
  moreover have n: "unat (ucast w :: u16) = unat w mod 65536" for w :: u32 by (simp add: unsigned_ucast_eq take_bit_eq_mod)
  ultimately have q: "unat q = unat ?t div unat v"
    using assms(2) unfolding div_digit_def by (metis Pair_inject mod_less unat_div unat_ucast_16_32)
  have "unat ?t mod unat v < unat v" using assms(1) by simp
  then have "unat ?t mod unat v < 65536" using unat_digit [of v] by linarith
  then have r: "unat remainder' = unat ?t mod unat v"
    using assms(2) n unfolding div_digit_def by (metis Pair_inject mod_less unat_mod unat_ucast_16_32)
  show "unat remainder' < unat v" using r assms(1) by simp
  show "unat remainder * 65536 + unat x = unat q * unat v + unat remainder'" unfolding q r t [symmetric] by simp
qed

lemma div_chain:
  assumes "chain (div_digit v) remainder (rev xs) = (remainder', qs)" "unat remainder < unat v"
  shows "unat remainder * 65536 ^ length xs + digits_val xs = digits_val (rev qs) * unat v + unat remainder'" "unat remainder' < unat v"
proof -
  have "unat remainder * 65536 ^ length xs + digits_val xs = digits_val (rev qs) * unat v + unat remainder' \<and> unat remainder' < unat v"
    using assms
  proof (induction xs arbitrary: remainder qs rule: rev_induct)
    case (snoc x xs)
    obtain r1 q where d: "div_digit v remainder x = (r1, q)" by (cases "div_digit v remainder x")
    obtain ps where ps: "chain (div_digit v) r1 (rev xs) = (remainder', ps)" "qs = q # ps"
      using snoc.prems(1) d by (auto split: prod.splits)
    note s = div_digit_split [OF snoc.prems(2) d]
    have l: "length ps = length xs" using length_chain [of "div_digit v" r1 "rev xs"] ps(1) by simp
    have "unat remainder * 65536 ^ length (xs @ [x]) + digits_val (xs @ [x]) =
        65536 ^ length xs * (unat remainder * 65536 + unat x) + digits_val xs" by (simp add: val_append algebra_simps)
    also have "\<dots> = 65536 ^ length xs * (unat q * unat v) + (unat r1 * 65536 ^ length xs + digits_val xs)"
      unfolding s(1) by (simp add: algebra_simps)
    also have "\<dots> = digits_val (rev qs) * unat v + unat remainder'"
      using snoc.IH [OF ps(1) s(2)] by (simp add: ps(2) val_append l algebra_simps)
    finally show ?case using snoc.IH [OF ps(1) s(2)] by simp
  qed simp
  then show "unat remainder * 65536 ^ length xs + digits_val xs = digits_val (rev qs) * unat v + unat remainder'" "unat remainder' < unat v" by blast+
qed

text \<open>The quotient has a digit less when the leading digit is less than the divisor.\<close>

lemma div_leading:
  assumes "xs \<noteq> []" "v \<noteq> 0" "digits_val zs = digits_val xs div unat v" "length zs = length xs"
  defines "k \<equiv> if last xs < v then if length xs = 1 then 1 else length xs - 1 else length xs"
  shows "digits_val (take k zs) = digits_val zs" "canonical xs \<Longrightarrow> canonical (take k zs)"
proof -
  let ?n = "length xs" and ?b = "65536 ^ (length xs - 1) :: nat"
  have v: "0 < unat v" using assms(2) by (simp add: unat_gt_0)
  have "1 < ?n" if "?n \<noteq> 1" using that assms(1) by (cases xs) auto
  then have ne: "zs \<noteq> []" "k \<noteq> 0" "k \<le> length zs" using assms(1,4) by (auto simp: k_def)
  have x: "digits_val xs = digits_val (butlast xs) + ?b * unat (last xs)" by (rule val_butlast [OF assms(1)])
  have "digits_val xs < ?b * unat v" if "last xs < v"
    using leading_less [of "digits_val (butlast xs)" "?n - 1" "unat (last xs)" "unat v" 0] val_less [of "butlast xs"] that
    by (simp add: x word_less_nat_alt)
  then have "digits_val zs < ?b" if "last xs < v" using that v by (simp add: assms(3) less_mult_imp_div_less)
  then show t: "digits_val (take k zs) = digits_val zs" using val_take_less [OF ne(1)] assms(4) by (auto simp: k_def)
  assume c: "canonical xs"
  have "?b \<le> digits_val zs" if "\<not> last xs < v"
  proof -
    have "?b * unat v \<le> ?b * unat (last xs)" using that by (intro mult_left_mono) (simp_all add: word_less_nat_alt)
    also have "\<dots> \<le> digits_val xs" using x by simp
    finally show ?thesis using v by (simp add: assms(3) less_eq_div_iff_mult_less_eq)
  qed
  moreover have "65536 ^ (?n - 2) \<le> digits_val zs" if n1: "?n \<noteq> 1"
  proof -
    obtain m where m: "?n = Suc (Suc m)" using n1 \<open>?n \<noteq> 1 \<Longrightarrow> 1 < ?n\<close> less_imp_Suc_add [of 1 ?n] by auto
    have "65536 ^ m * unat v \<le> 65536 ^ m * 65536" using unat_digit [of v] by (intro mult_left_mono) simp_all
    also have "\<dots> \<le> digits_val xs" using canonical_low [OF c] m by (simp add: mult.commute)
    finally show ?thesis using v m by (simp add: assms(3) less_eq_div_iff_mult_less_eq)
  qed
  ultimately show "canonical (take k zs)" using ne t assms(4)
    by (intro canonicalI) (auto simp: k_def numeral_2_eq_2 split: if_splits)
qed

subsection \<open>Shifts\<close>

fun shl :: "nat \<Rightarrow> u16 \<Rightarrow> u16 list \<Rightarrow> u16 list" where
  "shl a y [] = [drop_bit (16 - a) y]"
| "shl a y (x # xs) = (push_bit a x OR drop_bit (16 - a) y) # shl a x xs"

lemma length_shl [simp]: "length (shl a y xs) = Suc (length xs)"
  by (induction xs arbitrary: y) simp_all

lemma shl_not_Nil [simp]: "shl a y xs \<noteq> []"
  by (cases xs) simp_all

lemma last_shl: "last (shl a y xs) = drop_bit (16 - a) (last (y # xs))"
proof (induction xs arbitrary: y)
  case (Cons x xs)
  then show ?case by simp
qed simp

lemma shl_nth:
  "k \<le> length xs \<Longrightarrow> shl a y xs ! k =
    (let hi = (if k = 0 then y else xs ! (k - 1)) in if k < length xs then push_bit a (xs ! k) OR drop_bit (16 - a) hi else drop_bit (16 - a) hi)"
  by (induction xs arbitrary: k y) (auto simp: Let_def nth_Cons split: nat.splits)

text \<open>What a shift by less than a digit moves into the next digit, and what stays.\<close>

lemma shift_split:
  assumes "a < 16"
  shows "unat (push_bit a (x :: u16) OR drop_bit (16 - a) y) = unat x * 2 ^ a mod 65536 + unat y * 2 ^ a div 65536"
    "unat (drop_bit (16 - a) y) = unat y * 2 ^ a div 65536"
proof -
  have p: "(65536 :: nat) = 2 ^ (16 - a) * 2 ^ a" using assms by (simp flip: power_add)
  have h: "unat (drop_bit (16 - a) y) = unat y div 2 ^ (16 - a)" by (simp only: unat_drop_bit_eq) (simp add: drop_bit_eq_div)
  show d: "unat (drop_bit (16 - a) y) = unat y * 2 ^ a div 65536" unfolding h p by simp
  have o: "push_bit a x OR drop_bit (16 - a) y = push_bit a x + drop_bit (16 - a) y"
    by (rule disjunctive_add [symmetric])
      (use assms in \<open>auto simp: bit_push_bit_iff bit_drop_bit_eq dest!: bit_imp_le_length\<close>)
  have "(2 :: nat) ^ a < 2 ^ 16" using assms by (intro power_strict_increasing) simp_all
  then have "unat (2 ^ a :: u16) = 2 ^ a" using unat_of_nat [of "2 ^ a", where 'a = 16] by simp
  then have u: "unat (push_bit a x) = unat x * 2 ^ a mod 65536" by (simp add: push_bit_eq_mult unat_word_ariths)
  have "unat x * 2 ^ a mod 65536 = (unat x mod 2 ^ (16 - a)) * 2 ^ a" unfolding p by (rule mod_mult_mult2)
  also have "\<dots> \<le> (2 ^ (16 - a) - 1) * 2 ^ a" by (intro mult_right_mono) (simp_all add: less_Suc_eq_le [symmetric])
  also have "\<dots> = 65536 - 2 ^ a" unfolding p by (simp add: diff_mult_distrib)
  finally have m: "unat x * 2 ^ a mod 65536 \<le> 65536 - 2 ^ a" .
  have "unat y < 2 ^ a * 2 ^ (16 - a)" using unat_digit [of y] p by (simp add: mult.commute)
  then have "unat (drop_bit (16 - a) y) < 2 ^ a" unfolding h by (rule less_mult_imp_div_less)
  moreover have "(2 :: nat) ^ a \<le> 2 ^ 16" using assms by (intro power_increasing) simp_all
  ultimately have "unat x * 2 ^ a mod 65536 + unat (drop_bit (16 - a) y) < 65536" using m by simp
  then show "unat (push_bit a x OR drop_bit (16 - a) y) = unat x * 2 ^ a mod 65536 + unat y * 2 ^ a div 65536"
    unfolding o unat_word_ariths u d by simp
qed

lemma val_shl:
  assumes "a < 16"
  shows "digits_val (shl a y xs) = digits_val xs * 2 ^ a + unat y * 2 ^ a div 65536"
proof (induction xs arbitrary: y)
  case (Cons x xs)
  have "unat x * 2 ^ a mod 65536 + 65536 * (unat x * 2 ^ a div 65536) = unat x * 2 ^ a" by simp
  then show ?case by (simp add: shift_split(1) [OF assms] Cons.IH algebra_simps)
qed (simp add: shift_split(2) [OF assms])

text \<open>Halving a number.\<close>

fun shr :: "u16 list \<Rightarrow> u16 list" where
  "shr [] = []"
| "shr [x] = [drop_bit 1 x]"
| "shr (x # y # xs) = (drop_bit 1 x OR push_bit 15 y) # shr (y # xs)"

lemma length_shr [simp]: "length (shr xs) = length xs"
  by (induction xs rule: shr.induct) simp_all

lemma shr_nth:
  "k < length xs \<Longrightarrow> shr xs ! k = (if Suc k < length xs then drop_bit 1 (xs ! k) OR push_bit 15 (xs ! Suc k) else drop_bit 1 (xs ! k))"
  by (induction xs arbitrary: k rule: shr.induct) (auto simp: nth_Cons split: nat.splits)

lemma val_shr: "digits_val (shr xs) = digits_val xs div 2"
proof (induction xs rule: shr.induct)
  case (2 x)
  show ?case by (simp only: shr.simps digits_val.simps unat_drop_bit_eq) (simp add: drop_bit_eq_div)
next
  case (3 x y xs)
  have s: "unat (drop_bit 1 x OR push_bit 15 y) = unat x div 2 + (unat y mod 2) * 32768"
    using shift_split(1) [of 15 y x] mod_mult_mult2 [of "unat y" 32768 2] by (simp add: or.commute)
  let ?w = "digits_val (y # xs)"
  have "?w mod 2 = unat y mod 2" by (simp add: mod_add_right_eq [symmetric] mod_mult_left_eq [symmetric])
  moreover have "(unat x + 65536 * ?w) div 2 = unat x div 2 + 32768 * ?w" using div_mult_self1 [of 2 "unat x" "32768 * ?w"] by simp
  moreover have "?w = ?w mod 2 + 2 * (?w div 2)" by simp
  ultimately have "unat x div 2 + unat y mod 2 * 32768 + 65536 * (?w div 2) = (unat x + 65536 * ?w) div 2" by linarith
  then show ?case using 3 s by simp
qed simp


lemma canonical_low0:
  assumes "canonical xs" "0 < digits_val xs"
  shows "65536 ^ (length xs - 1) \<le> digits_val xs"
  using canonical_low [OF assms(1)] assms by (cases "length xs = 1") (auto simp: canonical_def Suc_lessI)

text \<open>A number that loses a digit when it is halved.\<close>

lemma canonical_halve:
  assumes "canonical xs" "digits_val ws = digits_val xs div 2" "ws \<noteq> []" "length ws \<le> length xs" "length xs \<le> Suc (length ws)"
    "length ws = length xs \<longrightarrow> length xs = 1 \<or> last ws \<noteq> 0"
  shows "canonical ws"
proof (cases "length ws = length xs \<or> length ws = 1")
  case False
  then have l: "length xs = Suc (length ws)" "1 < length ws" using assms(3-5) by (auto simp: neq_Nil_conv)
  have "(65536 :: nat) ^ length ws = 65536 * 65536 ^ (length ws - 1)" using l(2) by (cases "length ws") simp_all
  moreover have "65536 ^ length ws \<le> digits_val xs" using canonical_low [OF assms(1)] l assms(3) by simp
  ultimately have "65536 ^ (length ws - 1) \<le> digits_val ws" unfolding assms(2) by linarith
  then show ?thesis by (intro canonicalI [OF assms(3)]) simp
qed (use assms in \<open>auto simp: canonical_def\<close>)

subsection \<open>Counting\<close>

fun inc :: "u16 list \<Rightarrow> u16 list" where
  "inc [] = [1]"
| "inc (x # xs) = (if x + 1 \<noteq> 0 then (x + 1) # xs else 0 # inc xs)"

fun dec :: "u16 list \<Rightarrow> u16 list" where
  "dec [] = []"
| "dec (x # xs) = (if x - 1 \<noteq> 0xFFFF then (x - 1) # xs else 0xFFFF # dec xs)"

lemma unat_succ: "(x :: u16) + 1 \<noteq> 0 \<Longrightarrow> unat (x + 1) = unat x + 1"
proof -
  assume n: "x + 1 \<noteq> 0"
  have u: "unat (x + 1) = (unat x + 1) mod 65536" by (simp add: unat_word_ariths)
  have "(unat x + 1) mod 65536 \<noteq> 0" using n unfolding u [symmetric] by (simp only: unat_eq_0) simp
  then have "unat x + 1 < 65536" using unat_digit [of x] by (cases "unat x + 1 = 65536") simp_all
  then show ?thesis using u by simp
qed

lemma val_inc: "digits_val (inc xs) = digits_val xs + 1"
proof (induction xs)
  case (Cons x xs)
  show ?case
  proof (cases "x + 1 = 0")
    case True
    then have "x = - 1" by (simp add: eq_neg_iff_add_eq_0)
    then have "unat x = 65535" by (simp add: unsigned_minus_1_eq_mask mask_eq_exp_minus_1)
    then show ?thesis using True Cons by simp
  qed (simp add: unat_succ)
qed simp

lemma length_inc: "length xs \<le> length (inc xs)" "length (inc xs) \<le> Suc (length xs)"
  by (induction xs) simp_all

lemma canonical_inc:
  assumes "canonical xs"
  shows "canonical (inc xs)"
proof (cases "length (inc xs) = length xs")
  case False
  then have "length (inc xs) = Suc (length xs)" using length_inc [of xs] by simp
  moreover have "last (inc ys) = 1" if "length (inc ys) = Suc (length ys)" for ys
    using that by (induction ys) (auto split: if_splits)
  ultimately show ?thesis using assms by (auto simp: canonical_def)
qed (use canonical_grow [OF assms] val_inc in simp)

lemma length_dec [simp]: "length (dec xs) = length xs"
  by (induction xs) simp_all

lemma val_dec: "0 < digits_val xs \<Longrightarrow> digits_val (dec xs) = digits_val xs - 1"
proof (induction xs)
  case (Cons x xs)
  show ?case
  proof (cases "x = 0")
    case True
    then have "0 < digits_val xs" using Cons.prems by simp
    then have "digits_val (dec xs) = digits_val xs - 1" by (rule Cons.IH)
    then show ?thesis using True \<open>0 < digits_val xs\<close> by (simp add: diff_mult_distrib2)
  next
    case False
    then have "x - 1 \<noteq> 0xFFFF" using diff_add_cancel [of x 1] by (auto simp del: diff_add_cancel)
    moreover have "unat (x - 1) = unat x - 1" using False by (simp add: unat_minus_one)
    ultimately show ?thesis using False by (simp add: Suc_leI unat_gt_0)
  qed
qed simp

end
