(* ===== verification/Bigint_Kernel.thy ===== *)
theory Bigint_Kernel
  imports Bigint_Digits
begin

text \<open>
  The private functions of \<open>bigint_kernel_1\<close>, which work on records of digits, in place or from one
  record into another.  The records live in a store, so that the source and the destination of an
  operation may be the same record.  A digit that has not been written yet is \<open>None\<close>; reading it, a
  record that was deleted or beyond the end of an array is undefined.  The counters of a record are 32-bit
  words, as in the code; its size is the length of \<open>number\<close>.  The indices into an array are natural numbers.
\<close>

record data_record =
  number :: "u16 option list"
  references :: u32
  digits_used :: u32

record digit_heap =
  mem :: "nat \<Rightarrow> data_record option"
  next_addr :: nat

definition fetch :: "digit_heap \<Rightarrow> nat \<Rightarrow> data_record c" where
  "fetch h p = (case mem h p of None \<Rightarrow> Inl Stale_Pointer | Some d \<Rightarrow> Inr d)"

definition put_record :: "nat \<Rightarrow> data_record \<Rightarrow> digit_heap \<Rightarrow> digit_heap" where
  "put_record p d h = h \<lparr> mem := (mem h)(p \<mapsto> d) \<rparr>"

definition rd :: "digit_heap \<Rightarrow> nat \<Rightarrow> nat \<Rightarrow> u16 c" where
  "rd h p i = c_bind (fetch h p) (\<lambda>d.
    if i < length (number d) then case number d ! i of None \<Rightarrow> Inl Uninitialised | Some x \<Rightarrow> Inr x else Inl Out_Of_Bounds)"

definition wr :: "nat \<Rightarrow> nat \<Rightarrow> u16 \<Rightarrow> digit_heap \<Rightarrow> digit_heap c" where
  "wr p i x h = c_bind (fetch h p) (\<lambda>d.
    if i < length (number d) then Inr (put_record p (d \<lparr> number := (number d)[i := Some x] \<rparr>) h) else Inl Out_Of_Bounds)"

definition set_used :: "nat \<Rightarrow> nat \<Rightarrow> digit_heap \<Rightarrow> digit_heap c" where
  "set_used p n h = c_bind (fetch h p) (\<lambda>d. Inr (put_record p (d \<lparr> digits_used := of_nat n \<rparr>) h))"

text \<open>The two constructors of \<open>data_record\<close>, and its destructor.\<close>

definition new_record :: "u32 \<Rightarrow> digit_heap \<Rightarrow> (nat \<times> digit_heap) c" where
  "new_record sz h =
    (let p = next_addr h; h = h \<lparr> next_addr := p + 1 \<rparr> in
     if sz = 0 then Inl Out_Of_Bounds
     else Inr (p, put_record p \<lparr> number = (replicate (unat sz) None)[0 := Some 0], references = 1, digits_used = 1 \<rparr> h))"

definition delete_record :: "nat \<Rightarrow> digit_heap \<Rightarrow> digit_heap c" where
  "delete_record p h = c_bind (fetch h p) (\<lambda>_. Inr (h \<lparr> mem := (mem h)(p := None) \<rparr>))"

text \<open>
  The loops of the code that write one digit after the other: \<open>f\<close> computes the new values of the local
  variables and the digit, which is written to \<open>r\<close> at the index \<open>i\<close>; \<open>n\<close> is the number of turns.
\<close>

fun up_loop :: "('st \<Rightarrow> nat \<Rightarrow> digit_heap \<Rightarrow> ('st \<times> u16) c) \<Rightarrow> nat \<Rightarrow> nat \<Rightarrow> nat \<Rightarrow> 'st \<Rightarrow> digit_heap \<Rightarrow> ('st \<times> digit_heap) c" where
  "up_loop f r 0 i st h = Inr (st, h)"
| "up_loop f r (Suc n) i st h =
    c_bind (f st i h) (\<lambda>(st, x). c_bind (wr r i x h) (\<lambda>h. up_loop f r n (Suc i) st h))"

fun down_loop :: "('st \<Rightarrow> nat \<Rightarrow> digit_heap \<Rightarrow> ('st \<times> u16) c) \<Rightarrow> nat \<Rightarrow> nat \<Rightarrow> 'st \<Rightarrow> digit_heap \<Rightarrow> ('st \<times> digit_heap) c" where
  "down_loop f r 0 st h = Inr (st, h)"
| "down_loop f r (Suc i) st h = c_bind (f st i h) (\<lambda>(st, x). c_bind (wr r i x h) (\<lambda>h. down_loop f r i st h))"

subsection \<open>Arithmetic with one digit\<close>

text \<open>The end of the additions and multiplications: a last carry becomes the leading digit.\<close>

definition final_carry :: "nat \<Rightarrow> u32 \<Rightarrow> nat \<Rightarrow> digit_heap \<Rightarrow> digit_heap c" where
  "final_carry n temp r h =
    (if carry temp \<noteq> 0 then c_bind (set_used r (n + 1) h) (\<lambda>h. wr r n (ucast (carry temp)) h) else set_used r n h)"

definition short_add :: "nat \<Rightarrow> u16 \<Rightarrow> nat \<Rightarrow> digit_heap \<Rightarrow> digit_heap c" where
  "short_add data value result h =
    c_bind (fetch h data) (\<lambda>d.
    c_bind (up_loop (\<lambda>temp i h. c_bind (rd h data i) (\<lambda>x. let temp = ucast x + carry temp in Inr (temp, low_word temp)))
      result (unat (digits_used d)) 0 (push_bit 16 (ucast value)) h) (\<lambda>(temp, h).
    final_carry (unat (digits_used d)) temp result h))"

text \<open>The end of the subtractions: one leading zero is dropped.\<close>

definition final_digit :: "nat \<Rightarrow> nat \<Rightarrow> digit_heap \<Rightarrow> digit_heap c" where
  "final_digit n r h =
    c_bind (rd h r (n - 1)) (\<lambda>x. if x = 0 then set_used r (if n = 1 then 1 else n - 1) h else set_used r n h)"

definition short_sub :: "nat \<Rightarrow> u16 \<Rightarrow> nat \<Rightarrow> digit_heap \<Rightarrow> digit_heap c" where
  "short_sub data value result h =
    c_bind (fetch h data) (\<lambda>d.
    c_bind (rd h data 0) (\<lambda>x.
    let temp = ucast x - ucast value in
    c_bind (wr result 0 (low_word temp) h) (\<lambda>h.
    c_bind (up_loop (\<lambda>temp i h. c_bind (rd h data i) (\<lambda>x. let temp = ucast x - borrow temp in Inr (temp, low_word temp)))
      result (unat (digits_used d) - 1) 1 temp h) (\<lambda>(_, h).
    final_digit (unat (digits_used d)) result h))))"

definition short_mul :: "nat \<Rightarrow> u16 \<Rightarrow> nat \<Rightarrow> digit_heap \<Rightarrow> digit_heap c" where
  "short_mul data value result h =
    c_bind (fetch h data) (\<lambda>d.
    c_bind (up_loop (\<lambda>temp i h. c_bind (rd h data i) (\<lambda>x. let temp = ucast x * ucast value + carry temp in Inr (temp, low_word temp)))
      result (unat (digits_used d)) 0 0 h) (\<lambda>(temp, h).
    final_carry (unat (digits_used d)) temp result h))"

text \<open>Division by a digit, from the leading digit down; the result is the remainder.\<close>

definition divided_digit :: "nat \<Rightarrow> u16 \<Rightarrow> u16 \<Rightarrow> nat \<Rightarrow> digit_heap \<Rightarrow> (u16 \<times> u16) c" where
  "divided_digit data value remainder i h =
    c_bind (rd h data i) (\<lambda>x.
    let temp = div_step value remainder x in
    if value = 0 then Inl Div_By_Zero else Inr (ucast (temp mod ucast value), ucast (temp div ucast value)))"

definition short_div :: "nat \<Rightarrow> u16 \<Rightarrow> nat \<Rightarrow> digit_heap \<Rightarrow> (u16 \<times> digit_heap) c" where
  "short_div data value result h =
    c_bind (fetch h data) (\<lambda>d.
    let n = unat (digits_used d) in
    c_bind (rd h data (n - 1)) (\<lambda>x.
    c_bind (if x < value then set_used result (if n = 1 then 1 else n - 1) h else set_used result n h) (\<lambda>h.
    down_loop (divided_digit data value) result n 0 h)))"

subsection \<open>Arithmetic with two numbers\<close>

definition long_add :: "nat \<Rightarrow> nat \<Rightarrow> nat \<Rightarrow> digit_heap \<Rightarrow> digit_heap c" where
  "long_add lhs rhs result h =
    c_bind (fetch h lhs) (\<lambda>dl. c_bind (fetch h rhs) (\<lambda>dr.
    case (if unat (digits_used dl) < unat (digits_used dr) then (lhs, unat (digits_used dl), rhs, unat (digits_used dr))
          else (rhs, unat (digits_used dr), lhs, unat (digits_used dl))) of
      (min_num, min_used, max_num, max_used) \<Rightarrow>
    c_bind (up_loop (\<lambda>temp i h. c_bind (rd h min_num i) (\<lambda>x. c_bind (rd h max_num i) (\<lambda>y.
      let temp = ucast x + ucast y + carry temp in Inr (temp, low_word temp)))) result min_used 0 0 h) (\<lambda>(temp, h).
    c_bind (up_loop (\<lambda>temp i h. c_bind (rd h max_num i) (\<lambda>y. let temp = ucast y + carry temp in Inr (temp, low_word temp)))
      result (max_used - min_used) min_used temp h) (\<lambda>(temp, h).
    final_carry max_used temp result h))))"

text \<open>With a longer right-hand side the second loop would never meet its end.\<close>

definition long_sub :: "nat \<Rightarrow> nat \<Rightarrow> nat \<Rightarrow> digit_heap \<Rightarrow> digit_heap c" where
  "long_sub lhs rhs result h =
    c_bind (fetch h lhs) (\<lambda>dl. c_bind (fetch h rhs) (\<lambda>dr.
    c_bind (up_loop (\<lambda>temp i h. c_bind (rd h lhs i) (\<lambda>x. c_bind (rd h rhs i) (\<lambda>y.
      let temp = ucast x - ucast y - borrow temp in Inr (temp, low_word temp)))) result (unat (digits_used dr)) 0 0 h) (\<lambda>(temp, h).
    if unat (digits_used dl) < unat (digits_used dr) then Inl Out_Of_Bounds
    else
      c_bind (up_loop (\<lambda>temp i h. c_bind (rd h lhs i) (\<lambda>x. let temp = ucast x - borrow temp in Inr (temp, low_word temp)))
        result (unat (digits_used dl) - unat (digits_used dr)) (unat (digits_used dr)) temp h) (\<lambda>(_, h).
      final_digit (unat (digits_used dl)) result h))))"

subsection \<open>Shifts\<close>

text \<open>The digit at the index \<open>i\<close> of the result of \<open>shift_left\<close>, below the leading one.\<close>

definition shifted_digit :: "nat \<Rightarrow> nat \<Rightarrow> nat \<Rightarrow> unit \<Rightarrow> nat \<Rightarrow> digit_heap \<Rightarrow> (unit \<times> u16) c" where
  "shifted_digit data offset amount _ i h =
    (if i < offset then Inr ((), 0)
     else c_bind (rd h data (i - offset)) (\<lambda>x.
       if i = offset then Inr ((), push_bit amount x)
       else c_bind (rd h data (i - offset - 1)) (\<lambda>y. Inr ((), push_bit amount x OR drop_bit (16 - amount) y))))"

definition shift_left :: "nat \<Rightarrow> nat \<Rightarrow> nat \<Rightarrow> digit_heap \<Rightarrow> digit_heap c" where
  "shift_left data result shift_amount h =
    (let offset = shift_amount div 16; amount = shift_amount mod 16 in
     c_bind (fetch h data) (\<lambda>d.
     let n = unat (digits_used d) in
     c_bind (rd h data (n - 1)) (\<lambda>x.
     let top = drop_bit (16 - amount) x in
     c_bind (wr result (n + offset) top h) (\<lambda>h.
     c_bind (set_used result (if top = 0 then n + offset else n + offset + 1) h) (\<lambda>h.
     c_bind (down_loop (shifted_digit data offset amount) result (n + offset) () h) (\<lambda>(_, h). Inr h))))))"

definition shift_right :: "nat \<Rightarrow> nat \<Rightarrow> digit_heap \<Rightarrow> digit_heap c" where
  "shift_right data result h =
    c_bind (fetch h data) (\<lambda>d.
    let n = unat (digits_used d) in
    c_bind (up_loop (\<lambda>_ i h. c_bind (rd h data i) (\<lambda>x. c_bind (rd h data (i + 1)) (\<lambda>y.
      Inr ((), drop_bit 1 x OR push_bit 15 y)))) result (n - 1) 0 () h) (\<lambda>(_, h).
    c_bind (rd h data (n - 1)) (\<lambda>x.
    c_bind (wr result (n - 1) (drop_bit 1 x) h) (\<lambda>h. final_digit n result h))))"

subsection \<open>Comparisons\<close>

fun less_loop :: "nat \<Rightarrow> nat \<Rightarrow> nat \<Rightarrow> digit_heap \<Rightarrow> bool c" where
  "less_loop lhs rhs 0 h = Inr False"
| "less_loop lhs rhs (Suc i) h =
    c_bind (rd h lhs i) (\<lambda>x. c_bind (rd h rhs i) (\<lambda>y.
    if x < y then Inr True else if x > y then Inr False else less_loop lhs rhs i h))"

definition is_less_than :: "nat \<Rightarrow> nat \<Rightarrow> digit_heap \<Rightarrow> bool c" where
  "is_less_than lhs rhs h =
    c_bind (fetch h lhs) (\<lambda>dl. c_bind (fetch h rhs) (\<lambda>dr.
    if unat (digits_used dl) < unat (digits_used dr) then Inr True
    else if unat (digits_used dl) > unat (digits_used dr) then Inr False
    else less_loop lhs rhs (unat (digits_used dl)) h))"

text \<open>\<open>n\<close> digits are left, from the index \<open>i\<close> on.\<close>

fun equal_loop :: "nat \<Rightarrow> nat \<Rightarrow> nat \<Rightarrow> nat \<Rightarrow> digit_heap \<Rightarrow> bool c" where
  "equal_loop lhs rhs 0 i h = Inr True"
| "equal_loop lhs rhs (Suc n) i h =
    c_bind (rd h lhs i) (\<lambda>x. c_bind (rd h rhs i) (\<lambda>y.
    if x \<noteq> y then Inr False else equal_loop lhs rhs n (Suc i) h))"

definition is_equal_to :: "nat \<Rightarrow> nat \<Rightarrow> digit_heap \<Rightarrow> bool c" where
  "is_equal_to lhs rhs h =
    c_bind (fetch h lhs) (\<lambda>dl. c_bind (fetch h rhs) (\<lambda>dr.
    if unat (digits_used dl) \<noteq> unat (digits_used dr) then Inr False else equal_loop lhs rhs (unat (digits_used dl)) 0 h))"

subsection \<open>Counting up and down\<close>

definition copy_digit :: "nat \<Rightarrow> unit \<Rightarrow> nat \<Rightarrow> digit_heap \<Rightarrow> (unit \<times> u16) c" where
  "copy_digit s _ i h = c_bind (rd h s i) (\<lambda>x. Inr ((), x))"

text \<open>\<open>n\<close> digits are left, from the index \<open>i\<close> on; with none left there is a carry into a new digit.\<close>

fun increment_loop :: "nat \<Rightarrow> nat \<Rightarrow> nat \<Rightarrow> nat \<Rightarrow> nat \<Rightarrow> digit_heap \<Rightarrow> digit_heap c" where
  "increment_loop source dest used 0 i h = c_bind (set_used dest (used + 1) h) (\<lambda>h. wr dest i 1 h)"
| "increment_loop source dest used (Suc n) i h =
    c_bind (rd h source i) (\<lambda>x. c_bind (wr dest i (x + 1) h) (\<lambda>h.
    if x + 1 \<noteq> 0 then
      c_bind (set_used dest used h) (\<lambda>h.
      c_bind (up_loop (copy_digit source) dest n (Suc i) () h) (\<lambda>(_, h). Inr h))
    else increment_loop source dest used n (Suc i) h))"

definition increment :: "nat \<Rightarrow> nat \<Rightarrow> digit_heap \<Rightarrow> digit_heap c" where
  "increment source dest h =
    c_bind (fetch h source) (\<lambda>d. increment_loop source dest (unat (digits_used d)) (unat (digits_used d)) 0 h)"

text \<open>
  With no digit left the number was 0: the loop goes on beyond the digits in use, and the copying after it
  never meets its end, so that the code runs out of the array.
\<close>

fun decrement_loop :: "nat \<Rightarrow> nat \<Rightarrow> nat \<Rightarrow> nat \<Rightarrow> nat \<Rightarrow> digit_heap \<Rightarrow> digit_heap c" where
  "decrement_loop source dest used 0 i h = Inl Out_Of_Bounds"
| "decrement_loop source dest used (Suc n) i h =
    c_bind (rd h source i) (\<lambda>x. c_bind (wr dest i (x - 1) h) (\<lambda>h.
    if x - 1 \<noteq> 0xFFFF then
      c_bind (set_used dest (if x - 1 = 0 \<and> n = 0 then if used = 1 then 1 else used - 1 else used) h) (\<lambda>h.
      c_bind (up_loop (copy_digit source) dest n (Suc i) () h) (\<lambda>(_, h). Inr h))
    else decrement_loop source dest used n (Suc i) h))"

definition decrement :: "nat \<Rightarrow> nat \<Rightarrow> digit_heap \<Rightarrow> digit_heap c" where
  "decrement source dest h =
    c_bind (fetch h source) (\<lambda>d. decrement_loop source dest (unat (digits_used d)) (unat (digits_used d)) 0 h)"

subsection \<open>Digits in the stored\<close>

text \<open>The record \<open>p\<close> holds the digits \<open>xs\<close>.\<close>

definition holds :: "digit_heap \<Rightarrow> nat \<Rightarrow> u16 list \<Rightarrow> bool" where
  "holds h p xs \<longleftrightarrow> xs \<noteq> [] \<and> (\<exists>d. mem h p = Some d \<and> unat (digits_used d) = length xs \<and>
    length xs \<le> length (number d) \<and> take (length xs) (number d) = map Some xs)"

text \<open>The digits from index \<open>i\<close> on replaced by \<open>xs\<close>.\<close>

definition over :: "nat \<Rightarrow> u16 list \<Rightarrow> data_record \<Rightarrow> data_record" where
  "over i xs d = d \<lparr> number := take i (number d) @ map Some xs @ drop (i + length xs) (number d) \<rparr>"

lemma fetch_put [simp]: "fetch (put_record p d h) q = (if q = p then Inr d else fetch h q)"
  by (simp add: fetch_def put_record_def)

lemma mem_put [simp]: "mem (put_record p d h) q = (if q = p then Some d else mem h q)" "next_addr (put_record p d h) = next_addr h"
  by (simp_all add: put_record_def)

lemma put_put [simp]: "put_record p d (put_record p d' h) = put_record p d h"
  by (simp add: put_record_def)

lemma put_same: "mem h p = Some d \<Longrightarrow> put_record p d h = h"
  by (simp add: put_record_def fun_upd_idem)

lemma over_Nil [simp]: "i \<le> length (number d) \<Longrightarrow> over i [] d = d"
  by (simp add: over_def)

lemma over_fields [simp]:
  "references (over i xs d) = references d" "digits_used (over i xs d) = digits_used d"
  "i + length xs \<le> length (number d) \<Longrightarrow> length (number (over i xs d)) = length (number d)"
  by (simp_all add: over_def)

lemma over_used: "over i xs (d \<lparr> digits_used := k \<rparr>) = over i xs d \<lparr> digits_used := k \<rparr>"
  by (cases d) (simp add: over_def)

lemma over_nth:
  assumes "i + length xs \<le> length (number d)" "j < length (number d)"
  shows "number (over i xs d) ! j = (if i \<le> j \<and> j < i + length xs then Some (xs ! (j - i)) else number d ! j)"
  using assms by (auto simp: over_def nth_append)

lemma holds_fetch:
  assumes "holds h p xs"
  obtains d where "fetch h p = Inr d" "mem h p = Some d" "unat (digits_used d) = length xs" "length xs \<le> length (number d)"
    "take (length xs) (number d) = map Some xs" "xs \<noteq> []"
  using assms by (auto simp: holds_def fetch_def)

lemma holds_rd: "holds h p xs \<Longrightarrow> i < length xs \<Longrightarrow> rd h p i = Inr (xs ! i)"
proof -
  assume a: "holds h p xs" "i < length xs"
  then obtain d where d: "fetch h p = Inr d" "length xs \<le> length (number d)" "take (length xs) (number d) = map Some xs"
    by (blast elim: holds_fetch)
  have "number d ! i = take (length xs) (number d) ! i" using a(2) by simp
  then show ?thesis using a(2) d by (simp add: rd_def)
qed

text \<open>Reading is not disturbed by what was written elsewhere, or at other indices of the same record.\<close>

lemma rd_over:
  assumes "mem h r = Some d0" "number d = number d0" "i + length xs \<le> length (number d)" "p \<noteq> r \<or> j < i \<or> i + length xs \<le> j"
  shows "rd (put_record r (over i xs d) h) p j = rd h p j"
proof (cases "p = r")
  case True
  then show ?thesis using assms over_nth [OF assms(3), of j] by (auto simp: rd_def fetch_def)
qed (simp add: rd_def)

lemma wr_over:
  assumes "i + length xs < length (number d)"
  shows "wr r (i + length xs) x (put_record r (over i xs d) h) = Inr (put_record r (over i (xs @ [x]) d) h)"
proof -
  have "(number (over i xs d))[i + length xs := Some x] = number (over i (xs @ [x]) d)"
    using assms by (intro nth_equalityI) (auto simp: nth_list_update over_nth nth_append)
  then have "over i (xs @ [x]) d = over i xs d \<lparr> number := (number (over i xs d))[i + length xs := Some x] \<rparr>"
    by (simp add: over_def)
  then show ?thesis using assms by (simp add: wr_def)
qed

lemma up_loop_from:
  assumes "i + length ys + length xs \<le> length (number d)"
    "\<And>k st zs. k < length xs \<Longrightarrow> length zs = length ys + k \<Longrightarrow>
      f st (i + length ys + k) (put_record r (over i zs d) h) = Inr (F st (xs ! k))"
  shows "up_loop f r (length xs) (i + length ys) st (put_record r (over i ys d) h) =
    Inr (fst (chain F st xs), put_record r (over i (ys @ snd (chain F st xs)) d) h)"
  using assms
proof (induction xs arbitrary: ys st)
  case (Cons x xs)
  obtain st' y where y: "F st x = (st', y)" by (cases "F st x")
  have f: "f st (i + length ys) (put_record r (over i ys d) h) = Inr (st', y)" using Cons.prems(2) [of 0 ys st] y by simp
  have w: "wr r (i + length ys) y (put_record r (over i ys d) h) = Inr (put_record r (over i (ys @ [y]) d) h)"
    using Cons.prems(1) by (intro wr_over) simp
  have "up_loop f r (length xs) (i + length (ys @ [y])) st' (put_record r (over i (ys @ [y]) d) h) =
      Inr (fst (chain F st' xs), put_record r (over i ((ys @ [y]) @ snd (chain F st' xs)) d) h)"
    using Cons.prems(1) Cons.prems(2) [of "Suc _"] by (intro Cons.IH) simp_all
  then show ?case using f w y by (auto split: prod.splits)
qed simp

lemma up_loop_at:
  assumes "n = length xs" "i = length ys" "i + n \<le> length (number d)"
    "\<And>k st zs. k < n \<Longrightarrow> length zs = i + k \<Longrightarrow> f st (i + k) (put_record r (over 0 zs d) h) = Inr (F st (xs ! k))"
  shows "up_loop f r n i st (put_record r (over 0 ys d) h) = Inr (fst (chain F st xs), put_record r (over 0 (ys @ snd (chain F st xs)) d) h)"
  using up_loop_from [of 0 ys xs d f r h F st] assms by simp

lemma up_loop_0:
  assumes "n = length xs" "mem h r = Some d" "n \<le> length (number d)"
    "\<And>k st zs. k < n \<Longrightarrow> length zs = k \<Longrightarrow> f st k (put_record r (over 0 zs d) h) = Inr (F st (xs ! k))"
  shows "up_loop f r n 0 st h = Inr (fst (chain F st xs), put_record r (over 0 (snd (chain F st xs)) d) h)"
  using up_loop_at [of n xs 0 "[]" d f r h F st] assms by (simp add: put_same)

text \<open>\<open>r\<close> after an operation that wrote the digits \<open>ws\<close>, of which \<open>k\<close> count.\<close>

definition stored :: "u16 list \<Rightarrow> nat \<Rightarrow> data_record \<Rightarrow> data_record" where
  "stored ws k d = over 0 ws d \<lparr> digits_used := of_nat k \<rparr>"

lemma holds_store:
  assumes "0 < k" "k \<le> length ws" "length ws \<le> length (number d)" "length (number d) < 2 ^ 32"
  shows "holds (put_record r (stored ws k d) h) r (take k ws)"
  using assms by (auto simp: holds_def stored_def over_def take_map unat_of_nat)

lemma holds_other: "p \<noteq> r \<Longrightarrow> holds (put_record r d h) p xs = holds h p xs"
  by (simp add: holds_def)

lemma final_carry_ok:
  assumes "length zs = n" "n + (if carry temp = 0 then 0 else 1) \<le> length (number d)"
  defines "ws \<equiv> zs @ (if carry temp = 0 then [] else [ucast (carry temp)])"
  shows "final_carry n temp r (put_record r (over 0 zs d) h) = Inr (put_record r (stored ws (length ws) d) h)"
    "digits_val ws = digits_val zs + 65536 ^ n * unat (carry temp)"
    "canonical xs \<Longrightarrow> length xs = n \<Longrightarrow> digits_val xs \<le> digits_val ws \<Longrightarrow> canonical ws"
proof -
  have u: "unat (ucast (carry temp) :: u16) = unat (carry temp)"
    using carry_less [of temp] by (simp add: unsigned_ucast_eq take_bit_eq_mod)
  show "digits_val ws = digits_val zs + 65536 ^ n * unat (carry temp)" by (simp add: ws_def val_append assms(1) u)
  have "last ws \<noteq> 0" if "carry temp \<noteq> 0" using that u by (auto simp: ws_def word_unat_eq_iff)
  then show "canonical ws" if "canonical xs" "length xs = n" "digits_val xs \<le> digits_val ws"
    using that canonical_grow [of xs ws] assms(1) by (cases "carry temp = 0") (auto simp: ws_def canonical_def)
  show "final_carry n temp r (put_record r (over 0 zs d) h) = Inr (put_record r (stored ws (length ws) d) h)"
  proof (cases "carry temp = 0")
    case True
    then show ?thesis using assms(1) by (simp add: final_carry_def set_used_def stored_def ws_def)
  next
    case False
    let ?d = "d \<lparr> digits_used := of_nat (n + 1) \<rparr>"
    have e: "over 0 zs d \<lparr> digits_used := of_nat (n + 1) \<rparr> = over 0 zs ?d" "stored ws (length ws) d = over 0 (zs @ [ucast (carry temp)]) ?d"
      using False assms(1) by (simp_all add: over_def stored_def ws_def)
    have "wr r (0 + length zs) (ucast (carry temp)) (put_record r (over 0 zs ?d) h) = Inr (put_record r (over 0 (zs @ [ucast (carry temp)]) ?d) h)"
      using False assms(1,2) by (intro wr_over) simp
    then show ?thesis using False assms(1) e by (simp add: final_carry_def set_used_def)
  qed
qed

lemma final_digit_ok:
  assumes "length zs = n" "0 < n" "n \<le> length (number d)"
  shows "\<exists>k. final_digit n r (put_record r (over 0 zs d) h) = Inr (put_record r (stored zs k d) h) \<and> 0 < k \<and> k \<le> n \<and> n \<le> Suc k \<and>
    digits_val (take k zs) = digits_val zs \<and> (k < n \<longleftrightarrow> last zs = 0 \<and> n \<noteq> 1)"
proof -
  have "number (over 0 zs d) ! (n - 1) = Some (last zs)" using assms over_nth [of 0 zs d "n - 1"] by (auto simp: last_conv_nth)
  then have x: "rd (put_record r (over 0 zs d) h) r (n - 1) = Inr (last zs)" using assms by (simp add: rd_def)
  have z: "digits_val (take (n - 1) zs) = digits_val zs" if "last zs = 0"
    using val_butlast [of zs] assms that by (auto simp: butlast_conv_take)
  let ?k = "if last zs = 0 \<and> n \<noteq> 1 then n - 1 else n"
  have "final_digit n r (put_record r (over 0 zs d) h) = Inr (put_record r (stored zs ?k d) h)"
    using x by (simp add: final_digit_def set_used_def stored_def)
  then show ?thesis using z assms by (intro exI [of _ ?k]) auto
qed

subsection \<open>What the additions and subtractions compute\<close>

text \<open>A loop that reads the digits \<open>xs\<close> of \<open>p\<close> while it writes \<open>r\<close>, which may be the same record.\<close>

lemma rd_while:
  assumes "holds h p xs" "mem h r = Some d" "length zs \<le> length (number d)" "length zs \<le> k" "k < length xs"
  shows "rd (put_record r (over 0 zs d) h) p k = Inr (xs ! k)"
  using rd_over [OF assms(2) refl, of 0 zs p k] holds_rd [OF assms(1,5)] assms(3,4) by simp

lemma short_add_ok:
  assumes p: "holds h p xs" and r: "mem h r = Some d" "length xs < length (number d)"
  shows "\<exists>ws. short_add p v r h = Inr (put_record r (stored ws (length ws) d) h) \<and> digits_val ws = digits_val xs + unat v \<and>
    length xs \<le> length ws \<and> length ws \<le> Suc (length xs) \<and> (canonical xs \<longrightarrow> canonical ws)"
proof -
  obtain dp where dp: "fetch h p = Inr dp" "unat (digits_used dp) = length xs" "xs \<noteq> []" using p by (blast elim: holds_fetch)
  let ?t = "push_bit 16 (ucast v) :: u32"
  let ?c = "chain add_digit ?t (map (\<lambda>x. (x, 0)) xs)"
  have l: "up_loop (\<lambda>temp i h. c_bind (rd h p i) (\<lambda>x. let temp = ucast x + carry temp in Inr (temp, low_word temp)))
      r (length xs) 0 ?t h = Inr (fst ?c, put_record r (over 0 (snd ?c) d) h)"
    unfolding chain_map using r rd_while [OF p r(1)]
    by (intro up_loop_0) (simp_all add: Let_def digit_pairs step_zero)
  have v: "unat (carry ?t) = unat v" unfolding unat_carry unat_high_word by simp
  have s: "digits_val (snd ?c) + 65536 ^ length xs * unat (carry (fst ?c)) = digits_val xs + unat v"
    using add_chain [of ?t "map (\<lambda>x. (x, 0)) xs" "fst ?c" "snd ?c"] v by (simp add: o_def map_replicate_const)
  have "length (snd ?c) = length xs" by simp
  note f = final_carry_ok [OF this, of "fst ?c" d] 
  let ?w = "snd ?c @ (if carry (fst ?c) = 0 then [] else [ucast (carry (fst ?c))])"
  have "short_add p v r h = Inr (put_record r (stored ?w (length ?w) d) h)" "digits_val ?w = digits_val xs + unat v"
    using dp l f s r(2) by (simp_all add: short_add_def)
  moreover have "canonical ?w" if "canonical xs" using f(3) [OF _ that] r(2) calculation(2) by simp
  ultimately show ?thesis by (intro exI [of _ ?w]) simp
qed

lemma short_mul_ok:
  assumes p: "holds h p xs" and r: "mem h r = Some d" "length xs < length (number d)"
  shows "\<exists>ws. short_mul p v r h = Inr (put_record r (stored ws (length ws) d) h) \<and> digits_val ws = digits_val xs * unat v \<and>
    length xs \<le> length ws \<and> length ws \<le> Suc (length xs) \<and> (canonical xs \<longrightarrow> v \<noteq> 0 \<or> length xs = 1 \<longrightarrow> canonical ws)"
proof -
  obtain dp where dp: "fetch h p = Inr dp" "unat (digits_used dp) = length xs" "xs \<noteq> []" using p by (blast elim: holds_fetch)
  let ?c = "chain (mul_digit v) 0 xs"
  have l: "up_loop (\<lambda>temp i h. c_bind (rd h p i) (\<lambda>x. let temp = ucast x * ucast v + carry temp in Inr (temp, low_word temp)))
      r (length xs) 0 0 h = Inr (fst ?c, put_record r (over 0 (snd ?c) d) h)"
    using r rd_while [OF p r(1)] by (intro up_loop_0) (simp_all add: Let_def digit_pairs step_zero)
  have s: "digits_val (snd ?c) + 65536 ^ length xs * unat (carry (fst ?c)) = digits_val xs * unat v"
    using mul_chain [of v 0 xs "fst ?c" "snd ?c"] by (simp add: carry_def)
  have "length (snd ?c) = length xs" by simp
  note f = final_carry_ok [OF this, of "fst ?c" d]
  let ?w = "snd ?c @ (if carry (fst ?c) = 0 then [] else [ucast (carry (fst ?c))])"
  have "short_mul p v r h = Inr (put_record r (stored ?w (length ?w) d) h)" "digits_val ?w = digits_val xs * unat v"
    using dp l f s r(2) by (simp_all add: short_mul_def)
  moreover have "canonical ?w" if c: "canonical xs" "v \<noteq> 0 \<or> length xs = 1"
  proof (cases "v = 0")
    case True
    then have "carry (fst ?c) = 0" using s by (simp add: unat_eq_0)
    then show ?thesis using True c(2) by (simp add: canonical_def length_0_conv [symmetric] del: length_0_conv)
  next
    case False
    have "digits_val xs * 1 \<le> digits_val xs * unat v" using False by (intro mult_left_mono) (simp_all add: Suc_leI unat_gt_0)
    then show ?thesis using f(3) [OF _ c(1)] r(2) calculation(2) by simp
  qed
  ultimately show ?thesis by (intro exI [of _ ?w]) simp
qed

lemma long_add_ok:
  assumes p: "holds h p xs" and q: "holds h q ys" and r: "mem h r = Some d" "max (length xs) (length ys) < length (number d)"
  shows "\<exists>ws. long_add p q r h = Inr (put_record r (stored ws (length ws) d) h) \<and> digits_val ws = digits_val xs + digits_val ys \<and>
    max (length xs) (length ys) \<le> length ws \<and> length ws \<le> Suc (max (length xs) (length ys)) \<and>
    (canonical xs \<longrightarrow> canonical ys \<longrightarrow> canonical ws)"
proof -
  obtain a as b bs where o: "(if length xs < length ys then (p, xs, q, ys) else (q, ys, p, xs)) = (a, as, b, bs)"
    by (metis prod_cases4)
  then have ab: "holds h a as" "holds h b bs" "length as \<le> length bs" "digits_val as + digits_val bs = digits_val xs + digits_val ys"
    "length bs = max (length xs) (length ys)" "canonical xs \<longrightarrow> canonical ys \<longrightarrow> canonical bs"
    using p q by (auto split: if_splits)
  obtain dp dq where dp: "fetch h p = Inr dp" "unat (digits_used dp) = length xs" "fetch h q = Inr dq" "unat (digits_used dq) = length ys" "bs \<noteq> []"
    using p q ab(2) by (metis holds_fetch)
  have n: "length bs < length (number d)" using r(2) ab(5) by simp
  let ?c1 = "chain add_digit 0 (zip (take (length as) bs) as)"
  let ?c2 = "chain (\<lambda>st x. add_digit st (x, 0)) (fst ?c1) (drop (length as) bs)"
  let ?c = "chain add_digit 0 (padded bs as)"
  have l1: "up_loop (\<lambda>temp i h. c_bind (rd h a i) (\<lambda>x. c_bind (rd h b i) (\<lambda>y.
      let temp = ucast x + ucast y + carry temp in Inr (temp, low_word temp)))) r (length as) 0 0 h =
      Inr (fst ?c1, put_record r (over 0 (snd ?c1) d) h)"
    using ab(3) n r(1) rd_while [OF ab(1) r(1)] rd_while [OF ab(2) r(1)]
    by (intro up_loop_0) (simp_all add: Let_def digit_pairs step_zero add_step_swap)
  have l2: "up_loop (\<lambda>temp i h. c_bind (rd h b i) (\<lambda>y. let temp = ucast y + carry temp in Inr (temp, low_word temp)))
      r (length bs - length as) (length as) (fst ?c1) (put_record r (over 0 (snd ?c1) d) h) =
      Inr (fst ?c2, put_record r (over 0 (snd ?c1 @ snd ?c2) d) h)"
    using ab(3) n r(1) rd_while [OF ab(2) r(1)] by (intro up_loop_at) (simp_all add: Let_def digit_pairs step_zero)
  have c: "fst ?c = fst ?c2" "snd ?c = snd ?c1 @ snd ?c2" by (simp_all add: chain_padded Let_def)
  have s: "digits_val (snd ?c) + 65536 ^ length bs * unat (carry (fst ?c)) = digits_val xs + digits_val ys"
    using add_chain [of 0 "padded bs as" "fst ?c" "snd ?c"] padded_vals [OF ab(3)] ab(4) by (simp add: carry_def)
  have "length (snd ?c) = length bs" using padded_vals(3) [OF ab(3)] by simp
  note f = final_carry_ok [OF this, of "fst ?c" d]
  let ?w = "snd ?c @ (if carry (fst ?c) = 0 then [] else [ucast (carry (fst ?c))])"
  have "long_add p q r h = c_bind (up_loop (\<lambda>temp i h. c_bind (rd h b i) (\<lambda>y. let temp = ucast y + carry temp in Inr (temp, low_word temp)))
      r (length bs - length as) (length as) (fst ?c1) (put_record r (over 0 (snd ?c1) d) h)) (\<lambda>(temp, h). final_carry (length bs) temp r h)"
    using dp l1 o by (auto simp: long_add_def split: if_splits)
  then have "long_add p q r h = Inr (put_record r (stored ?w (length ?w) d) h)" "digits_val ?w = digits_val xs + digits_val ys"
    using l2 f n s by (simp_all add: c)
  moreover have "canonical ?w" if "canonical bs" using f(3) [OF _ that] n calculation(2) ab(4) by simp
  ultimately show ?thesis using ab(5,6) padded_vals(3) [OF ab(3)] by (intro exI [of _ ?w]) simp
qed

lemma long_sub_ok:
  assumes p: "holds h p xs" and q: "holds h q ys" and r: "mem h r = Some d" "length xs \<le> length (number d)"
    and le: "length ys \<le> length xs" "digits_val ys \<le> digits_val xs"
  shows "\<exists>zs k. long_sub p q r h = Inr (put_record r (stored zs k d) h) \<and> length zs = length xs \<and> 0 < k \<and> k \<le> length xs \<and>
    length xs \<le> Suc k \<and> digits_val (take k zs) = digits_val xs - digits_val ys \<and> (k < length xs \<longleftrightarrow> last zs = 0 \<and> length xs \<noteq> 1)"
proof -
  obtain dp dq where dp: "fetch h p = Inr dp" "unat (digits_used dp) = length xs" "fetch h q = Inr dq" "unat (digits_used dq) = length ys" "xs \<noteq> []"
    using p q by (metis holds_fetch)
  let ?c1 = "chain sub_digit 0 (zip (take (length ys) xs) ys)"
  let ?c2 = "chain (\<lambda>st x. sub_digit st (x, 0)) (fst ?c1) (drop (length ys) xs)"
  let ?c = "chain sub_digit 0 (padded xs ys)"
  have l1: "up_loop (\<lambda>temp i h. c_bind (rd h p i) (\<lambda>x. c_bind (rd h q i) (\<lambda>y.
      let temp = ucast x - ucast y - borrow temp in Inr (temp, low_word temp)))) r (length ys) 0 0 h =
      Inr (fst ?c1, put_record r (over 0 (snd ?c1) d) h)"
    using le(1) r rd_while [OF p r(1)] rd_while [OF q r(1)]
    by (intro up_loop_0) (simp_all add: Let_def digit_pairs step_zero)
  have l2: "up_loop (\<lambda>temp i h. c_bind (rd h p i) (\<lambda>x. let temp = ucast x - borrow temp in Inr (temp, low_word temp)))
      r (length xs - length ys) (length ys) (fst ?c1) (put_record r (over 0 (snd ?c1) d) h) =
      Inr (fst ?c2, put_record r (over 0 (snd ?c1 @ snd ?c2) d) h)"
    using le(1) r rd_while [OF p r(1)] by (intro up_loop_at) (simp_all add: Let_def digit_pairs step_zero)
  have c: "fst ?c = fst ?c2" "snd ?c = snd ?c1 @ snd ?c2" by (simp_all add: chain_padded Let_def)
  note v = sub_total [OF le]
  have "long_sub p q r h = final_digit (length xs) r (put_record r (over 0 (snd ?c) d) h)"
    using dp l1 l2 le(1) by (simp add: long_sub_def c)
  moreover obtain k where "final_digit (length xs) r (put_record r (over 0 (snd ?c) d) h) = Inr (put_record r (stored (snd ?c) k d) h)"
    "0 < k" "k \<le> length xs" "length xs \<le> Suc k" "digits_val (take k (snd ?c)) = digits_val (snd ?c)"
    "k < length xs \<longleftrightarrow> last (snd ?c) = 0 \<and> length xs \<noteq> 1" using final_digit_ok [OF v(2) _ r(2), of r h] dp(5) by auto
  ultimately show ?thesis using v by (intro exI [of _ "snd ?c"] exI [of _ k]) simp
qed

lemma short_sub_ok:
  assumes p: "holds h p xs" and r: "mem h r = Some d" "length xs \<le> length (number d)" and le: "unat v \<le> digits_val xs"
  shows "\<exists>zs k. short_sub p v r h = Inr (put_record r (stored zs k d) h) \<and> length zs = length xs \<and> 0 < k \<and> k \<le> length xs \<and>
    length xs \<le> Suc k \<and> digits_val (take k zs) = digits_val xs - unat v \<and> (canonical xs \<longrightarrow> canonical (take k zs))"
proof -
  obtain dp where dp: "fetch h p = Inr dp" "unat (digits_used dp) = length xs" "xs \<noteq> []" using p by (blast elim: holds_fetch)
  let ?t = "sub_step 0 (xs ! 0) v"
  let ?c2 = "chain (\<lambda>st x. sub_digit st (x, 0)) ?t (drop 1 xs)"
  let ?c = "chain sub_digit 0 (padded xs [v])"
  have x: "rd h p 0 = Inr (xs ! 0)" using holds_rd [OF p, of 0] dp(3) by simp
  have t: "ucast (xs ! 0) - ucast v = ?t" by (simp add: sub_step_def borrow_def)
  have w: "wr r 0 (low_word ?t) h = Inr (put_record r (over 0 [low_word ?t] d) h)"
    using wr_over [of 0 "[]" d r "low_word ?t" h] r dp(3) by (simp add: put_same length_greater_0_conv [symmetric] del: length_greater_0_conv)
  have l: "up_loop (\<lambda>temp i h. c_bind (rd h p i) (\<lambda>x. let temp = ucast x - borrow temp in Inr (temp, low_word temp)))
      r (length xs - 1) 1 ?t (put_record r (over 0 [low_word ?t] d) h) = Inr (fst ?c2, put_record r (over 0 ([low_word ?t] @ snd ?c2) d) h)"
    using dp(3) r rd_while [OF p r(1)] by (intro up_loop_at) (simp_all add: Let_def digit_pairs step_zero)
  have c: "snd ?c = [low_word ?t] @ snd ?c2"
    using dp(3) by (cases xs) (simp_all add: chain_padded digit_pairs Let_def)
  have le1: "length [v] \<le> length xs" "digits_val [v] \<le> digits_val xs" using dp(3) le by (simp_all add: Suc_leI)
  note v = sub_total [OF le1]
  have "short_sub p v r h = final_digit (length xs) r (put_record r (over 0 (snd ?c) d) h)"
    using dp x t w l by (simp add: short_sub_def c Let_def)
  moreover obtain k where k: "final_digit (length xs) r (put_record r (over 0 (snd ?c) d) h) = Inr (put_record r (stored (snd ?c) k d) h)"
    "0 < k" "k \<le> length xs" "length xs \<le> Suc k" "digits_val (take k (snd ?c)) = digits_val (snd ?c)"
    "k < length xs \<longleftrightarrow> last (snd ?c) = 0 \<and> length xs \<noteq> 1" using final_digit_ok [OF v(2) _ r(2), of r h] dp(3) by auto
  moreover have "canonical (take k (snd ?c))" if "canonical xs"
  proof -
    have "snd ?c \<noteq> []" using v(2) dp(3) by (metis length_0_conv)
    then show ?thesis using k v unat_digit [of v] by (intro canonical_sub [OF that, of _ "unat v"]) auto
  qed
  ultimately show ?thesis using v by (intro exI [of _ "snd ?c"] exI [of _ k]) simp
qed

subsection \<open>Comparing\<close>

lemma less_loop_ok:
  assumes "holds h p xs" "holds h q ys" "length xs = length ys" "n \<le> length xs"
  shows "less_loop p q n h = Inr (digits_val (take n xs) < digits_val (take n ys))"
  using assms(4)
proof (induction n)
  case (Suc n)
  have r: "rd h p n = Inr (xs ! n)" "rd h q n = Inr (ys ! n)" using holds_rd assms(1-3) Suc.prems by simp_all
  have v: "digits_val (take (Suc n) xs) = digits_val (take n xs) + 65536 ^ n * unat (xs ! n)" "digits_val (take (Suc n) ys) = digits_val (take n ys) + 65536 ^ n * unat (ys ! n)"
    using Suc.prems assms(3) by (simp_all add: take_Suc_conv_app_nth val_append)
  have l: "digits_val (take n xs) < 65536 ^ n" "digits_val (take n ys) < 65536 ^ n"
    using val_less [of "take n xs"] val_less [of "take n ys"] Suc.prems assms(3) by simp_all
  show ?case
  proof (cases "unat (xs ! n)" "unat (ys ! n)" rule: linorder_cases)
    case less
    then show ?thesis using r v leading_less [OF l(1) less] by (simp add: word_less_nat_alt)
  next
    case equal
    then show ?thesis using r v Suc by (simp add: word_less_nat_alt)
  next
    case greater
    then show ?thesis using r v leading_less [OF l(2) greater, of "digits_val (take n xs)"] by (simp add: word_less_nat_alt less_not_sym)
  qed
qed simp

lemma is_less_than_ok:
  assumes p: "holds h p xs" and q: "holds h q ys" and c: "canonical xs" "canonical ys"
  shows "is_less_than p q h = Inr (digits_val xs < digits_val ys)"
proof -
  obtain dp dq where dp: "fetch h p = Inr dp" "unat (digits_used dp) = length xs" "fetch h q = Inr dq" "unat (digits_used dq) = length ys"
    using p q by (metis holds_fetch)
  show ?thesis
  proof (cases "length xs" "length ys" rule: linorder_cases)
    case less
    then show ?thesis using dp val_shorter [OF c(2)] c(1) by (simp add: is_less_than_def canonical_def)
  next
    case equal
    then show ?thesis using dp less_loop_ok [OF p q] by (simp add: is_less_than_def)
  next
    case greater
    then have "digits_val ys < digits_val xs" using val_shorter [OF c(1)] c(2) by (simp add: canonical_def)
    then show ?thesis using dp greater by (simp add: is_less_than_def)
  qed
qed

lemma equal_loop_ok:
  assumes "holds h p xs" "holds h q ys" "length xs = length ys" "i + n = length xs"
  shows "equal_loop p q n i h = Inr (drop i xs = drop i ys)"
  using assms(4)
proof (induction n arbitrary: i)
  case (Suc n)
  have "rd h p i = Inr (xs ! i)" "rd h q i = Inr (ys ! i)" using holds_rd assms(1-3) Suc.prems by simp_all
  moreover have "drop i xs = xs ! i # drop (Suc i) xs" "drop i ys = ys ! i # drop (Suc i) ys"
    using Suc.prems assms(3) by (simp_all add: Cons_nth_drop_Suc)
  ultimately show ?case using Suc by simp
qed (use assms(3) in simp)

lemma is_equal_to_ok:
  assumes p: "holds h p xs" and q: "holds h q ys" and c: "canonical xs" "canonical ys"
  shows "is_equal_to p q h = Inr (digits_val xs = digits_val ys)"
proof -
  obtain dp dq where dp: "fetch h p = Inr dp" "unat (digits_used dp) = length xs" "fetch h q = Inr dq" "unat (digits_used dq) = length ys"
    using p q by (metis holds_fetch)
  show ?thesis using dp equal_loop_ok [OF p q, of 0 "length xs"] canonical_inj [OF c] by (auto simp: is_equal_to_def)
qed

subsection \<open>Loops from the top\<close>

lemma wr_over_down:
  assumes "Suc i + length xs \<le> length (number d)"
  shows "wr r i x (put_record r (over (Suc i) xs d) h) = Inr (put_record r (over i (x # xs) d) h)"
proof -
  have "(number (over (Suc i) xs d))[i := Some x] = number (over i (x # xs) d)"
    using assms by (intro nth_equalityI) (auto simp: nth_list_update over_nth nth_Cons')
  then have "over i (x # xs) d = over (Suc i) xs d \<lparr> number := (number (over (Suc i) xs d))[i := Some x] \<rparr>"
    by (simp add: over_def)
  then show ?thesis using assms by (simp add: wr_def)
qed

lemma down_loop_from:
  assumes "n = i + length zs" "n \<le> length (number d)" "i \<le> length xs"
    "\<And>k st ys. k < i \<Longrightarrow> Suc k + length ys = n \<Longrightarrow> f st k (put_record r (over (Suc k) ys d) h) = Inr (F st (xs ! k))"
  shows "down_loop f r i st (put_record r (over i zs d) h) =
    Inr (fst (chain F st (rev (take i xs))), put_record r (over 0 (rev (snd (chain F st (rev (take i xs)))) @ zs) d) h)"
  using assms
proof (induction i arbitrary: zs st)
  case (Suc i)
  obtain st' y where y: "F st (xs ! i) = (st', y)" by (cases "F st (xs ! i)")
  have "f st i (put_record r (over (Suc i) zs d) h) = Inr (st', y)" using Suc.prems(1) Suc.prems(4) [of i zs st] y by simp
  moreover have "wr r i y (put_record r (over (Suc i) zs d) h) = Inr (put_record r (over i (y # zs) d) h)"
    using Suc.prems(1,2) by (intro wr_over_down) simp
  moreover have "down_loop f r i st' (put_record r (over i (y # zs) d) h) =
      Inr (fst (chain F st' (rev (take i xs))), put_record r (over 0 (rev (snd (chain F st' (rev (take i xs)))) @ y # zs) d) h)"
    using Suc.prems by (intro Suc.IH) auto
  moreover have "rev (take (Suc i) xs) = xs ! i # rev (take i xs)" using Suc.prems(3) by (simp add: take_Suc_conv_app_nth)
  ultimately show ?case using y by (auto split: prod.splits)
qed simp

lemma down_loop_0:
  assumes "n = length xs" "n \<le> length (number d)"
    "\<And>k st ys. k < n \<Longrightarrow> Suc k + length ys = n \<Longrightarrow> f st k (put_record r (over (Suc k) ys d) h) = Inr (F st (xs ! k))"
  shows "down_loop f r n st (put_record r d h) = Inr (fst (chain F st (rev xs)), put_record r (over 0 (rev (snd (chain F st (rev xs)))) d) h)"
  using down_loop_from [of n n "[]" d xs f r h F st] assms by simp

lemma chain_id: "chain Pair () xs = ((), xs)"
  by (induction xs) simp_all

lemma short_div_ok:
  assumes p: "holds h p xs" and r: "mem h r = Some d" "length xs \<le> length (number d)" and v: "v \<noteq> 0"
  shows "\<exists>zs k. short_div p v r h = Inr (of_nat (digits_val xs mod unat v), put_record r (stored zs k d) h) \<and> length zs = length xs \<and>
    0 < k \<and> k \<le> length xs \<and> digits_val (take k zs) = digits_val xs div unat v \<and> (canonical xs \<longrightarrow> canonical (take k zs))"
proof -
  obtain dp where dp: "fetch h p = Inr dp" "unat (digits_used dp) = length xs" "xs \<noteq> []" using p by (blast elim: holds_fetch)
  let ?n = "length xs" and ?x = "xs ! (length xs - 1)"
  let ?k = "if ?x < v then if ?n = 1 then 1 else ?n - 1 else ?n"
  let ?d = "d \<lparr> digits_used := of_nat ?k \<rparr>" and ?c = "chain (div_digit v) 0 (rev xs)"
  let ?zs = "rev (snd ?c)"
  have x: "rd h p (?n - 1) = Inr ?x" using holds_rd [OF p] dp(3) by simp
  have u: "(if ?x < v then set_used r (if ?n = 1 then 1 else ?n - 1) h else set_used r ?n h) = Inr (put_record r ?d h)"
    using r(1) by (simp add: set_used_def fetch_def)
  have l: "down_loop (divided_digit p v) r ?n 0 (put_record r ?d h) = Inr (fst ?c, put_record r (over 0 ?zs ?d) h)"
  proof (intro down_loop_0)
    fix k st and ys :: "u16 list" assume k: "k < ?n" "Suc k + length ys = ?n"
    have "rd (put_record r (over (Suc k) ys ?d) h) p k = Inr (xs ! k)"
      using rd_over [OF r(1), of ?d "Suc k" ys p k] holds_rd [OF p k(1)] r(2) k(2) by simp
    then show "divided_digit p v st k (put_record r (over (Suc k) ys ?d) h) = Inr (div_digit v st (xs ! k))"
      using v by (simp add: divided_digit_def div_digit_def Let_def)
  qed (use r(2) in simp_all)
  have v0: "0 < unat v" using v by (simp add: unat_gt_0)
  then have s: "digits_val xs = digits_val ?zs * unat v + unat (fst ?c)" "unat (fst ?c) < unat v"
    using div_chain [of v 0 xs "fst ?c" "snd ?c"] by simp_all
  have q: "digits_val ?zs = digits_val xs div unat v" "unat (fst ?c) = digits_val xs mod unat v" using s v0 by simp_all
  have "short_div p v r h = Inr (fst ?c, put_record r (stored ?zs ?k d) h)"
    using l by (simp only: short_div_def dp c_bind_simps Let_def x u stored_def over_used)
  moreover have "fst ?c = of_nat (digits_val xs mod unat v)" unfolding q(2) [symmetric] by simp
  moreover have k: "0 < ?k" "?k \<le> ?n" using dp(3) by (cases xs; auto)+
  moreover have "last xs = ?x" using dp(3) by (simp add: last_conv_nth)
  then have "digits_val (take ?k ?zs) = digits_val ?zs" "canonical xs \<longrightarrow> canonical (take ?k ?zs)"
    using div_leading [OF dp(3) v q(1)] by simp_all
  ultimately show ?thesis using q(1) by (intro exI [of _ ?zs] exI [of _ ?k]) (simp only: length_rev length_chain simp_thms)
qed

subsection \<open>What the shifts compute\<close>

lemma wr_first:
  assumes "mem h r = Some d" "i < length (number d)"
  shows "wr r i x h = Inr (put_record r (over i [x] d) h)"
  using wr_over [of i "[]" d r x h] assms by (simp add: put_same)

lemma set_used_over: "set_used r k (put_record r (over i xs d) h) = Inr (put_record r (over i xs (d \<lparr> digits_used := of_nat k \<rparr>)) h)"
  by (simp add: set_used_def over_used)

lemma store_over: "over 0 ws (d \<lparr> digits_used := of_nat k \<rparr>) = stored ws k d"
  by (simp add: stored_def over_used)

text \<open>The digit that the loop of \<open>shift_left\<close> writes at the index \<open>j\<close>, in place too: it has not yet overwritten what it reads.\<close>

lemma shifted_digit_ok:
  assumes p: "holds h p xs" and r: "mem h r = Some d" "Suc j + length ys \<le> length (number d)"
    and j: "j < length xs + offset"
  shows "shifted_digit p offset a () j (put_record r (over (Suc j) ys (d \<lparr> digits_used := of_nat k \<rparr>)) h) =
    Inr ((), (replicate offset 0 @ shl a 0 xs) ! j)"
proof -
  have rd: "rd (put_record r (over (Suc j) ys (d \<lparr> digits_used := of_nat k \<rparr>)) h) p i = Inr (xs ! i)" if "i \<le> j" "i < length xs" for i
    using rd_over [OF r(1), of "d \<lparr> digits_used := of_nat k \<rparr>" "Suc j" ys p i] r(2) holds_rd [OF p that(2)] that(1) by simp
  show ?thesis
  proof (cases "j < offset")
    case False
    then show ?thesis using j rd [of "j - offset"] rd [of "j - offset - 1"]
      by (simp add: shifted_digit_def nth_append shl_nth Let_def)
  qed (simp add: shifted_digit_def nth_append)
qed

lemma shift_left_ok:
  assumes p: "holds h p xs" and r: "mem h r = Some d" "length xs + s div 16 < length (number d)"
  shows "\<exists>ws k. shift_left p r s h = Inr (put_record r (stored ws k d) h) \<and> length ws = Suc (length xs + s div 16) \<and>
    0 < k \<and> k \<le> length ws \<and> length ws \<le> Suc k \<and> digits_val (take k ws) = digits_val xs * 2 ^ s \<and>
    (canonical xs \<longrightarrow> 0 < digits_val xs \<or> s < 16 \<longrightarrow> canonical (take k ws))"
proof -
  let ?n = "length xs" and ?o = "s div 16" and ?a = "s mod 16"
  obtain dp where dp: "fetch h p = Inr dp" "unat (digits_used dp) = ?n" "xs \<noteq> []" using p by (blast elim: holds_fetch)
  define ws where "ws = replicate ?o 0 @ shl ?a 0 xs"
  have n: "length ws = Suc (?n + ?o)" by (simp add: ws_def)
  have l: "last ws = drop_bit (16 - ?a) (xs ! (?n - 1))"
    using last_shl [of ?a 0 xs] dp(3) last_conv_nth [OF dp(3)] by (auto simp: ws_def)
  define k where "k = (if last ws = 0 then ?n + ?o else ?n + ?o + 1)"
  let ?d = "d \<lparr> digits_used := of_nat k \<rparr>"
  have t: "take (?n + ?o) ws @ [last ws] = ws" using n append_butlast_last_id [of ws] by (cases "ws = []") (simp_all add: butlast_conv_take)
  have "down_loop (shifted_digit p ?o ?a) r (?n + ?o) () (put_record r (over (?n + ?o) [last ws] ?d) h) =
      Inr (fst (chain Pair () (rev (take (?n + ?o) ws))),
        put_record r (over 0 (rev (snd (chain Pair () (rev (take (?n + ?o) ws)))) @ [last ws]) ?d) h)"
    using r shifted_digit_ok [OF p r(1)] n by (intro down_loop_from [where n = "Suc (?n + ?o)"]) (simp_all add: ws_def)
  then have "down_loop (shifted_digit p ?o ?a) r (?n + ?o) () (put_record r (over (?n + ?o) [last ws] ?d) h) = Inr ((), put_record r (stored ws k d) h)"
    by (simp add: chain_id t store_over)
  moreover have "rd h p (?n - 1) = Inr (xs ! (?n - 1))" using holds_rd [OF p] dp(3) by simp
  moreover have "wr r (?n + ?o) (last ws) h = Inr (put_record r (over (?n + ?o) [last ws] d) h)" using r by (intro wr_first)
  ultimately have e: "shift_left p r s h = Inr (put_record r (stored ws k d) h)"
    by (simp only: shift_left_def Let_def dp c_bind_simps l [symmetric] k_def [symmetric] set_used_over prod.case)
  have "(2 :: nat) ^ (16 * ?o + ?a) = 65536 ^ ?o * 2 ^ ?a" unfolding power_add power_mult by simp
  then have "(65536 :: nat) ^ ?o * (digits_val xs * 2 ^ ?a) = digits_val xs * 2 ^ s" by (simp add: mult.left_commute)
  then have "digits_val ws = digits_val xs * 2 ^ s" by (simp add: ws_def val_append val_shl)
  moreover have "digits_val (take (?n + ?o) ws) = digits_val ws" if "last ws = 0" using that t val_append [of "take (?n + ?o) ws" "[last ws]"] by simp
  ultimately have v: "digits_val (take k ws) = digits_val xs * 2 ^ s" using n by (auto simp: k_def)
  have "canonical (take k ws)" if c: "canonical xs" "0 < digits_val xs \<or> s < 16"
  proof (cases "last ws = 0")
    case False
    then show ?thesis using n by (auto simp: k_def canonical_def)
  next
    case z: True
    show ?thesis
    proof (cases "digits_val xs = 0")
      case True
      then have "?n = 1" using canonical_low [OF c(1)] dp(3) by (metis One_nat_def Suc_lessI length_greater_0_conv not_less zero_less_power zero_less_numeral)
      then show ?thesis using z True c(2) n by (auto simp: k_def canonical_def)
    next
      case False
      have "(2 ^ 16) ^ ?o \<le> (2 :: nat) ^ s" unfolding power_mult [symmetric] by (intro power_increasing) simp_all
      then have "65536 ^ (?n - 1) * (65536 :: nat) ^ ?o \<le> digits_val xs * 2 ^ s"
        using canonical_low0 [OF c(1)] False by (intro mult_mono) simp_all
      moreover have "?n + ?o - 1 = ?n - 1 + ?o" using dp(3) by (simp add: Suc_leI)
      ultimately show ?thesis using z n v dp(3) by (intro canonicalI) (auto simp: k_def power_add)
    qed
  qed
  then show ?thesis using e v n dp(3) by (intro exI [of _ ws] exI [of _ k]) (auto simp: k_def)
qed

lemma shift_right_ok:
  assumes p: "holds h p xs" and r: "mem h r = Some d" "length xs \<le> length (number d)"
  shows "\<exists>zs k. shift_right p r h = Inr (put_record r (stored zs k d) h) \<and> length zs = length xs \<and> 0 < k \<and> k \<le> length xs \<and>
    length xs \<le> Suc k \<and> digits_val (take k zs) = digits_val xs div 2 \<and> (canonical xs \<longrightarrow> canonical (take k zs))"
proof -
  let ?n = "length xs" and ?zs = "shr xs"
  obtain dp where dp: "fetch h p = Inr dp" "unat (digits_used dp) = ?n" "xs \<noteq> []" using p by (blast elim: holds_fetch)
  have "up_loop (\<lambda>_ i h. c_bind (rd h p i) (\<lambda>x. c_bind (rd h p (i + 1)) (\<lambda>y. Inr ((), drop_bit 1 x OR push_bit 15 y))))
      r (?n - 1) 0 () h = Inr (fst (chain Pair () (take (?n - 1) ?zs)),
        put_record r (over 0 (snd (chain Pair () (take (?n - 1) ?zs))) d) h)"
    using r rd_while [OF p r(1)] by (intro up_loop_0) (simp_all add: shr_nth)
  moreover have "rd (put_record r (over 0 (take (?n - 1) ?zs) d) h) p (?n - 1) = Inr (xs ! (?n - 1))"
    using r dp(3) by (intro rd_while [OF p r(1)]) simp_all
  moreover have t: "take (?n - 1) ?zs @ [drop_bit 1 (xs ! (?n - 1))] = ?zs"
    using dp(3) shr_nth [of "?n - 1" xs] take_Suc_conv_app_nth [of "?n - 1" ?zs] by simp
  moreover have "wr r (?n - 1) (drop_bit 1 (xs ! (?n - 1))) (put_record r (over 0 (take (?n - 1) ?zs) d) h) =
      Inr (put_record r (over 0 (take (?n - 1) ?zs @ [drop_bit 1 (xs ! (?n - 1))]) d) h)"
    using wr_over [of 0 "take (?n - 1) ?zs" d r _ h] r(2) dp(3) by (cases xs) simp_all
  ultimately have "shift_right p r h = final_digit ?n r (put_record r (over 0 ?zs d) h)"
    using dp by (simp add: shift_right_def Let_def chain_id)
  moreover obtain k where k: "final_digit ?n r (put_record r (over 0 ?zs d) h) = Inr (put_record r (stored ?zs k d) h)"
    "0 < k" "k \<le> ?n" "?n \<le> Suc k" "digits_val (take k ?zs) = digits_val ?zs" "k < ?n \<longleftrightarrow> last ?zs = 0 \<and> ?n \<noteq> 1"
    using final_digit_ok [of ?zs ?n d r h] r(2) dp(3) by auto
  moreover have "canonical (take k ?zs)" if "canonical xs"
    using k dp(3) val_shr [of xs] length_shr [of xs] by (intro canonical_halve [OF that]) (auto simp del: length_shr)
  ultimately show ?thesis using val_shr [of xs] by (intro exI [of _ ?zs] exI [of _ k]) simp
qed

subsection \<open>What counting computes\<close>

text \<open>The digits that are left are copied.\<close>

lemma copy_rest:
  assumes p: "holds h p xs" and r: "mem h r = Some d" "length xs \<le> length (number d)" and i: "length ys + n = length xs"
  shows "c_bind (set_used r k (put_record r (over 0 ys d) h)) (\<lambda>h. c_bind (up_loop (copy_digit p) r n (length ys) () h) (\<lambda>(_, h). Inr h)) =
    Inr (put_record r (stored (ys @ drop (length ys) xs) k d) h)"
proof -
  let ?d = "d \<lparr> digits_used := of_nat k \<rparr>"
  have "rd (put_record r (over 0 zs ?d) h) p j = Inr (xs ! j)" if "length zs \<le> j" "j < length xs" for zs j
    using rd_over [OF r(1), of ?d 0 zs p j] holds_rd [OF p] that r(2) by simp
  then have "up_loop (copy_digit p) r n (length ys) () (put_record r (over 0 ys ?d) h) =
      Inr (fst (chain Pair () (drop (length ys) xs)), put_record r (over 0 (ys @ snd (chain Pair () (drop (length ys) xs))) ?d) h)"
    using i r(2) by (intro up_loop_at) (auto simp: copy_digit_def)
  then show ?thesis by (simp add: chain_id set_used_over store_over)
qed

lemma increment_loop_ok:
  assumes p: "holds h p xs" and r: "mem h r = Some d" "length xs < length (number d)"
  shows "length ys + n = length xs \<Longrightarrow> increment_loop p r (length xs) n (length ys) (put_record r (over 0 ys d) h) =
    (let ws = ys @ inc (drop (length ys) xs) in Inr (put_record r (stored ws (length ws) d) h))"
proof (induction n arbitrary: ys)
  case 0
  then have "wr r (0 + length ys) 1 (put_record r (over 0 ys (d \<lparr> digits_used := of_nat (length xs + 1) \<rparr>)) h) =
      Inr (put_record r (over 0 (ys @ [1]) (d \<lparr> digits_used := of_nat (length xs + 1) \<rparr>)) h)"
    using r(2) by (intro wr_over) simp
  then show ?case using 0 by (simp add: set_used_over stored_def over_used Let_def)
next
  case (Suc n)
  let ?i = "length ys"
  have x: "rd (put_record r (over 0 ys d) h) p ?i = Inr (xs ! ?i)" using Suc.prems r by (intro rd_while [OF p r(1)]) simp_all
  have w: "wr r ?i y (put_record r (over 0 ys d) h) = Inr (put_record r (over 0 (ys @ [y]) d) h)" for y
    using wr_over [of 0 ys d r y h] Suc.prems r(2) by simp
  have t: "drop ?i xs = xs ! ?i # drop (Suc ?i) xs" using Suc.prems by (simp add: Cons_nth_drop_Suc)
  show ?case
  proof (cases "xs ! ?i + 1 = 0")
    case True
    then show ?thesis using Suc.IH [of "ys @ [0]"] Suc.prems x w t by (simp add: Let_def)
  next
    case False
    have "c_bind (set_used r (length xs) (put_record r (over 0 (ys @ [xs ! ?i + 1]) d) h))
        (\<lambda>h. c_bind (up_loop (copy_digit p) r n (length (ys @ [xs ! ?i + 1])) () h) (\<lambda>(_, h). Inr h)) =
        Inr (put_record r (stored ((ys @ [xs ! ?i + 1]) @ drop (length (ys @ [xs ! ?i + 1])) xs) (length xs) d) h)"
      using Suc.prems r by (intro copy_rest [OF p]) simp_all
    moreover have "Suc (length xs - 1) = length xs" using Suc.prems by simp
    ultimately show ?thesis using False Suc.prems x w t by (simp add: Let_def)
  qed
qed

lemma increment_ok:
  assumes p: "holds h p xs" and r: "mem h r = Some d" "length xs < length (number d)"
  shows "\<exists>ws. increment p r h = Inr (put_record r (stored ws (length ws) d) h) \<and> digits_val ws = digits_val xs + 1 \<and>
    length xs \<le> length ws \<and> length ws \<le> Suc (length xs) \<and> (canonical xs \<longrightarrow> canonical ws)"
proof -
  obtain dp where "fetch h p = Inr dp" "unat (digits_used dp) = length xs" using p by (blast elim: holds_fetch)
  then have "increment p r h = Inr (put_record r (stored (inc xs) (length (inc xs)) d) h)"
    using increment_loop_ok [OF assms, of "[]" "length xs"] r(1) by (simp add: increment_def put_same Let_def)
  then show ?thesis using val_inc length_inc canonical_inc by blast
qed

lemma decrement_loop_ok:
  assumes p: "holds h p xs" and r: "mem h r = Some d" "length xs \<le> length (number d)"
  shows "length ys + n = length xs \<Longrightarrow> 0 < digits_val (drop (length ys) xs) \<Longrightarrow>
    \<exists>k. decrement_loop p r (length xs) n (length ys) (put_record r (over 0 ys d) h) =
      Inr (put_record r (stored (ys @ dec (drop (length ys) xs)) k d) h) \<and>
      (k = length xs \<and> (last (dec (drop (length ys) xs)) = 0 \<longrightarrow> length xs = 1 \<or> last xs = 0) \<or>
       k = length xs - 1 \<and> 1 < length xs \<and> last (dec (drop (length ys) xs)) = 0)"
proof (induction n arbitrary: ys)
  case (Suc n)
  let ?i = "length ys" and ?x = "xs ! length ys - 1"
  have x: "rd (put_record r (over 0 ys d) h) p ?i = Inr (xs ! ?i)" using Suc.prems r by (intro rd_while [OF p r(1)]) simp_all
  have w: "wr r ?i y (put_record r (over 0 ys d) h) = Inr (put_record r (over 0 (ys @ [y]) d) h)" for y
    using wr_over [of 0 ys d r y h] Suc.prems r(2) by simp
  have t: "drop ?i xs = xs ! ?i # drop (Suc ?i) xs" using Suc.prems by (simp add: Cons_nth_drop_Suc)
  show ?case
  proof (cases "?x = 0xFFFF")
    case True
    then have z: "xs ! ?i = 0" using diff_add_cancel [of "xs ! ?i" 1] by (simp del: diff_add_cancel)
    then have v: "0 < digits_val (drop (length (ys @ [0xFFFF])) xs)" using Suc.prems(2) t by simp
    then have "drop (Suc ?i) xs \<noteq> []" by auto
    then have "last (0xFFFF # dec (drop (Suc ?i) xs)) = last (dec (drop (Suc ?i) xs))"
      using length_dec [of "drop (Suc ?i) xs"] by (auto simp del: length_dec)
    then show ?thesis using Suc.IH [OF _ v] Suc.prems(1) x w t True by simp
  next
    case False
    define k where "k = (if ?x = 0 \<and> n = 0 then if length xs = 1 then 1 else length xs - 1 else length xs)"
    have "c_bind (set_used r k (put_record r (over 0 (ys @ [?x]) d) h))
        (\<lambda>h. c_bind (up_loop (copy_digit p) r n (length (ys @ [?x])) () h) (\<lambda>(_, h). Inr h)) =
        Inr (put_record r (stored ((ys @ [?x]) @ drop (length (ys @ [?x])) xs) k d) h)"
      using Suc.prems r by (intro copy_rest [OF p]) simp_all
    then have "decrement_loop p r (length xs) (Suc n) ?i (put_record r (over 0 ys d) h) =
        Inr (put_record r (stored (ys @ dec (drop ?i xs)) k d) h)"
      using False x w t by (simp add: k_def)
    moreover have "last (dec (drop ?i xs)) = (if n = 0 then ?x else last xs)"
      using False t Suc.prems(1) by simp
    moreover have "1 < length xs" if "length xs \<noteq> 1" using that Suc.prems(1) by simp
    ultimately show ?thesis by (intro exI [of _ k]) (auto simp: k_def)
  qed
qed simp

lemma decrement_ok:
  assumes p: "holds h p xs" and r: "mem h r = Some d" "length xs \<le> length (number d)" and le: "0 < digits_val xs"
  shows "\<exists>zs k. decrement p r h = Inr (put_record r (stored zs k d) h) \<and> length zs = length xs \<and> 0 < k \<and> k \<le> length xs \<and>
    length xs \<le> Suc k \<and> digits_val (take k zs) = digits_val xs - 1 \<and> (canonical xs \<longrightarrow> canonical (take k zs))"
proof -
  obtain dp where dp: "fetch h p = Inr dp" "unat (digits_used dp) = length xs" "xs \<noteq> []" using p by (blast elim: holds_fetch)
  obtain k where k: "decrement_loop p r (length xs) (length xs) 0 h = Inr (put_record r (stored (dec xs) k d) h)"
    "k = length xs \<and> (last (dec xs) = 0 \<longrightarrow> length xs = 1 \<or> last xs = 0) \<or> k = length xs - 1 \<and> 1 < length xs \<and> last (dec xs) = 0"
    using decrement_loop_ok [OF p r, of "[]" "length xs"] le r(1) by (auto simp: put_same)
  have n: "dec xs \<noteq> []" using dp(3) by (cases xs) simp_all
  have v: "digits_val (take k (dec xs)) = digits_val xs - 1"
    using k(2) val_dec [OF le] val_butlast [OF n] by (auto simp: butlast_conv_take)
  moreover have "0 < k" "k \<le> length xs" "length xs \<le> Suc k" using k(2) dp(3) by auto
  moreover have "canonical (take k (dec xs))" if "canonical xs"
    using v k(2) dp(3) that n calculation(2-4)
    by (intro canonical_sub [OF that, of _ 1]) (auto simp: canonical_def)
  ultimately show ?thesis using k(1) dp by (intro exI [of _ "dec xs"] exI [of _ k]) (simp add: decrement_def)
qed

end
