(* ===== verification/Bigint_Long.thy ===== *)
theory Bigint_Long
  imports Bigint_Kernel
begin

text \<open>
  Multiplication and division of two numbers in \<open>bigint_kernel_1\<close>: \<open>long_mul\<close> adds shifted copies of one
  operand, \<open>long_div\<close> subtracts them.  Both work on a local record, which the store holds while they run.
  \<open>long_mul\<close> computes the product of any two numbers in canonical form; \<open>long_div\<close> goes wrong where
  \<open>long_sub\<close> loses more than one digit.
\<close>

text \<open>The second constructor of \<open>data_record\<close>: a copy with room for more digits.\<close>

definition copy_record :: "nat \<Rightarrow> u32 \<Rightarrow> digit_heap \<Rightarrow> (nat \<times> digit_heap) c" where
  "copy_record item additional_size h =
    c_bind (fetch h item) (\<lambda>d.
    let p = next_addr h;
        h = put_record p \<lparr> number = replicate (unat (digits_used d + additional_size)) None, references = 1, digits_used = digits_used d \<rparr>
              (h \<lparr> next_addr := p + 1 \<rparr>) in
    c_bind (up_loop (copy_digit item) p (unat (digits_used d)) 0 () h) (\<lambda>(_, h). Inr (p, h)))"

abbreviation slack :: u32 where "slack \<equiv> 25"

subsection \<open>Multiplication\<close>

text \<open>The loop over the bits of a digit; \<open>n\<close> turns are left.\<close>

fun mul_bits :: "nat \<Rightarrow> nat \<Rightarrow> u16 \<Rightarrow> nat \<Rightarrow> u16 \<Rightarrow> u32 \<Rightarrow> digit_heap \<Rightarrow> (u32 \<times> digit_heap) c" where
  "mul_bits b result a 0 bt shift_value h = Inr (shift_value, h)"
| "mul_bits b result a (Suc n) bt shift_value h =
    c_bind (if a AND bt \<noteq> 0
      then c_bind (shift_left b b (unat shift_value) h) (\<lambda>h. c_bind (long_add b result result h) (\<lambda>h. Inr (0, h)))
      else Inr (shift_value, h)) (\<lambda>(shift_value, h).
    mul_bits b result a n (push_bit 1 bt) (shift_value + 1) h)"

text \<open>The loop over the digits of the shorter operand; \<open>n\<close> digits are left, from the index \<open>i\<close> on.\<close>

fun mul_digits :: "nat \<Rightarrow> nat \<Rightarrow> nat \<Rightarrow> nat \<Rightarrow> nat \<Rightarrow> u32 \<Rightarrow> digit_heap \<Rightarrow> digit_heap c" where
  "mul_digits aa b result 0 i shift_value h = Inr h"
| "mul_digits aa b result (Suc n) i shift_value h =
    c_bind (rd h aa i) (\<lambda>a. c_bind (mul_bits b result a 16 1 shift_value h) (\<lambda>(shift_value, h).
    mul_digits aa b result n (Suc i) shift_value h))"

definition long_mul :: "nat \<Rightarrow> nat \<Rightarrow> nat \<Rightarrow> digit_heap \<Rightarrow> digit_heap c" where
  "long_mul lhs rhs result h =
    c_bind (set_used result 1 h) (\<lambda>h. c_bind (wr result 0 0 h) (\<lambda>h.
    c_bind (fetch h lhs) (\<lambda>dl. c_bind (fetch h rhs) (\<lambda>dr.
    case (if digits_used dl < digits_used dr then (lhs, digits_used dl, rhs) else (rhs, digits_used dr, lhs)) of
      (aa, used, bb) \<Rightarrow>
    c_bind (copy_record bb (used + slack) h) (\<lambda>(b, h).
    c_bind (mul_digits aa b result (unat used) 0 0 h) (\<lambda>h.
    delete_record b h))))))"

subsection \<open>Division\<close>

text \<open>
  The shifts to the left until \<open>temp\<close> is not less than \<open>lhs\<close>, and back to the right until it is not greater.
  With a divisor of 0 the first loop has no end.
\<close>

partial_function (option) left_loop :: "nat \<Rightarrow> nat \<Rightarrow> u32 \<Rightarrow> digit_heap \<Rightarrow> (u32 \<times> digit_heap) c option" where
  "left_loop temp lhs shifts h =
    (case is_less_than temp lhs h of Inl e \<Rightarrow> Some (Inl e) | Inr lt \<Rightarrow>
     if lt then (case shift_left temp temp 1 h of Inl e \<Rightarrow> Some (Inl e) | Inr h \<Rightarrow> left_loop temp lhs (shifts + 1) h)
     else Some (Inr (shifts, h)))"

partial_function (option) right_loop :: "nat \<Rightarrow> nat \<Rightarrow> u32 \<Rightarrow> digit_heap \<Rightarrow> (u32 \<times> digit_heap) c option" where
  "right_loop temp lhs shifts h =
    (case is_less_than lhs temp h of Inl e \<Rightarrow> Some (Inl e) | Inr lt \<Rightarrow>
     if lt then (case shift_right temp temp h of Inl e \<Rightarrow> Some (Inl e) | Inr h \<Rightarrow> right_loop temp lhs (shifts - 1) h)
     else Some (Inr (shifts, h)))"

declare left_loop.simps [code] right_loop.simps [code]

text \<open>The increment of \<open>result\<close> inside the loop of \<open>long_div\<close>; \<open>n\<close> digits are left, from the index \<open>i\<close> on.\<close>

fun bump_loop :: "nat \<Rightarrow> nat \<Rightarrow> nat \<Rightarrow> digit_heap \<Rightarrow> digit_heap c" where
  "bump_loop result 0 i h =
    c_bind (wr result i 1 h) (\<lambda>h. c_bind (fetch h result) (\<lambda>d. set_used result (unat (digits_used d) + 1) h))"
| "bump_loop result (Suc n) i h =
    c_bind (rd h result i) (\<lambda>x. c_bind (wr result i (x + 1) h) (\<lambda>h.
    if x + 1 \<noteq> 0 then Inr h else bump_loop result n (Suc i) h))"

text \<open>The loop of the division; \<open>n\<close> is the value of \<open>shifts\<close>.\<close>

fun div_loop :: "nat \<Rightarrow> nat \<Rightarrow> nat \<Rightarrow> nat \<Rightarrow> digit_heap \<Rightarrow> digit_heap c" where
  "div_loop temp result remainder 0 h = Inr h"
| "div_loop temp result remainder (Suc n) h =
    c_bind (shift_left result result 1 h) (\<lambda>h.
    c_bind (is_less_than remainder temp h) (\<lambda>lt.
    c_bind (if \<not> lt then
        c_bind (long_sub remainder temp remainder h) (\<lambda>h.
        c_bind (fetch h result) (\<lambda>d. bump_loop result (unat (digits_used d)) 0 h))
      else Inr h) (\<lambda>h.
    c_bind (shift_right temp temp h) (\<lambda>h.
    div_loop temp result remainder n h))))"

text \<open>The part of \<open>long_div\<close> after the test whether \<open>lhs\<close> is less than \<open>rhs\<close>.\<close>

definition long_div_rest :: "nat \<Rightarrow> nat \<Rightarrow> nat \<Rightarrow> nat \<Rightarrow> digit_heap \<Rightarrow> digit_heap c option" where
  "long_div_rest lhs rhs result remainder h =
    (case (c_bind (fetch h lhs) (\<lambda>dl. c_bind (fetch h rhs) (\<lambda>dr.
       c_bind (new_record (digits_used dl + slack) h) (\<lambda>(temp, h).
       let shifts = (digits_used dl - digits_used dr) * 8 in
       c_bind (shift_left rhs temp (unat shifts) h) (\<lambda>h. Inr (temp, shifts, h)))))) of
      Inl e \<Rightarrow> Some (Inl e)
    | Inr (temp, shifts, h) \<Rightarrow>
      case left_loop temp lhs shifts h of
        None \<Rightarrow> None
      | Some (Inl e) \<Rightarrow> Some (Inl e)
      | Some (Inr (shifts, h)) \<Rightarrow>
        case right_loop temp lhs shifts h of
          None \<Rightarrow> None
        | Some (Inl e) \<Rightarrow> Some (Inl e)
        | Some (Inr (shifts, h)) \<Rightarrow>
          Some (c_bind (div_loop temp result remainder (unat (shifts + 1)) h) (\<lambda>h. delete_record temp h)))"

definition long_div :: "nat \<Rightarrow> nat \<Rightarrow> nat \<Rightarrow> nat \<Rightarrow> digit_heap \<Rightarrow> digit_heap c option" where
  "long_div lhs rhs result remainder h =
    (case c_bind (set_used result 1 h) (\<lambda>h. c_bind (wr result 0 0 h) (\<lambda>h.
       c_bind (fetch h lhs) (\<lambda>d. c_bind (set_used remainder (unat (digits_used d)) h) (\<lambda>h.
       c_bind (up_loop (copy_digit lhs) remainder (unat (digits_used d)) 0 () h) (\<lambda>(_, h).
       c_bind (is_less_than lhs rhs h) (\<lambda>lt. Inr (lt, h))))))) of
      Inl e \<Rightarrow> Some (Inl e)
    | Inr (lt, h) \<Rightarrow> if lt then Some (Inr h) else long_div_rest lhs rhs result remainder h)"

text \<open>What a record holds, for the examples.\<close>

definition digits_of :: "digit_heap \<Rightarrow> nat \<Rightarrow> u16 option list option" where
  "digits_of h p = map_option (\<lambda>d. take (unat (digits_used d)) (number d)) (mem h p)"

definition with_digits :: "u16 list \<Rightarrow> nat \<Rightarrow> data_record" where
  "with_digits xs n = \<lparr> number = map Some xs @ replicate n None, references = 1, digits_used = of_nat (length xs) \<rparr>"

definition store_of :: "data_record list \<Rightarrow> digit_heap" where
  "store_of ds = \<lparr> mem = (\<lambda>p. if p < length ds then Some (ds ! p) else None), next_addr = length ds \<rparr>"

subsection \<open>What an operation may change\<close>

text \<open>Only the records in \<open>S\<close> change, and of them only the digits.\<close>

definition evolves :: "nat set \<Rightarrow> digit_heap \<Rightarrow> digit_heap \<Rightarrow> bool" where
  "evolves S h h' \<longleftrightarrow> next_addr h \<le> next_addr h' \<and> (\<forall>q. q \<notin> S \<longrightarrow> mem h' q = mem h q) \<and>
    (\<forall>q d. mem h q = Some d \<longrightarrow> (\<exists>d'. mem h' q = Some d' \<and> length (number d') = length (number d) \<and> references d' = references d))"

lemma evolves_refl [simp]: "evolves S h h"
  by (auto simp: evolves_def)

lemma evolves_trans: "evolves S h h' \<Longrightarrow> evolves T h' h'' \<Longrightarrow> S \<subseteq> U \<Longrightarrow> T \<subseteq> U \<Longrightarrow> evolves U h h''"
proof -
  assume a: "evolves S h h'" "evolves T h' h''" "S \<subseteq> U" "T \<subseteq> U"
  have "mem h'' q = mem h q" if "q \<notin> U" for q using a that by (metis evolves_def subsetD)
  moreover have "\<exists>d''. mem h'' q = Some d'' \<and> length (number d'') = length (number d) \<and> references d'' = references d"
    if q: "mem h q = Some d" for q d
  proof -
    obtain d' where d: "mem h' q = Some d'" "length (number d') = length (number d)" "references d' = references d"
      using a(1) q unfolding evolves_def by blast
    then obtain d'' where "mem h'' q = Some d''" "length (number d'') = length (number d')" "references d'' = references d'"
      using a(2) unfolding evolves_def by blast
    then show ?thesis using d by simp
  qed
  ultimately show ?thesis using a(1,2) by (simp add: evolves_def)
qed

lemma evolves_holds: "evolves S h h' \<Longrightarrow> q \<notin> S \<Longrightarrow> holds h' q xs = holds h q xs"
  by (simp add: evolves_def holds_def)

lemma evolves_size:
  assumes "evolves S h h'" "mem h q = Some d"
  obtains d' where "mem h' q = Some d'" "length (number d') = length (number d)" "references d' = references d"
  using assms unfolding evolves_def by blast

lemma put_store:
  assumes "mem h r = Some d" "0 < k" "k \<le> length ws" "length ws \<le> length (number d)" "length (number d) < 2 ^ 32"
  shows "evolves {r} h (put_record r (stored ws k d) h)" "holds (put_record r (stored ws k d) h) r (take k ws)"
  using assms holds_store [of k ws d r h] by (auto simp: evolves_def stored_def)

subsection \<open>The product\<close>

lemma copy_record_ok:
  assumes p: "holds h p xs" and fresh: "mem h (next_addr h) = None" and n: "length xs + unat n < 2 ^ 32"
  shows "\<exists>d. copy_record p n h = Inr (next_addr h, put_record (next_addr h) d (h \<lparr> next_addr := next_addr h + 1 \<rparr>)) \<and>
    length (number d) = length xs + unat n \<and> references d = 1 \<and> holds (put_record (next_addr h) d (h \<lparr> next_addr := next_addr h + 1 \<rparr>)) (next_addr h) xs"
proof -
  obtain dp where dp: "fetch h p = Inr dp" "mem h p = Some dp" "unat (digits_used dp) = length xs" "xs \<noteq> []" using p by (blast elim: holds_fetch)
  let ?r = "next_addr h"
  let ?d = "\<lparr> number = replicate (length xs + unat n) None, references = 1, digits_used = digits_used dp \<rparr>"
  have s: "unat (digits_used dp + n) = length xs + unat n" using dp(3) n by (simp add: unat_word_ariths)
  let ?h = "h \<lparr> next_addr := ?r + 1 \<rparr>" and ?k = "put_record ?r ?d (h \<lparr> next_addr := ?r + 1 \<rparr>)"
  have "p \<noteq> ?r" using dp(2) fresh by auto
  then have q: "holds ?k p xs" using p by (simp add: holds_def)
  have "up_loop (copy_digit p) ?r (length xs) 0 () ?k = Inr (fst (chain Pair () xs), put_record ?r (over 0 (snd (chain Pair () xs)) ?d) ?k)"
    using rd_while [OF q, of ?r ?d] by (intro up_loop_0) (simp_all add: copy_digit_def)
  then have "copy_record p n h = Inr (?r, put_record ?r (over 0 xs ?d) ?h)"
    using dp s by (simp add: copy_record_def Let_def chain_id)
  moreover have "holds (put_record ?r (over 0 xs ?d) ?h) ?r xs" using dp(3,4) by (simp add: holds_def over_def)
  moreover have "length (number (over 0 xs ?d)) = length xs + unat n" "references (over 0 xs ?d) = 1" by (simp_all add: over_def)
  ultimately show ?thesis by (intro exI [of _ "over 0 xs ?d"]) simp
qed

text \<open>The number of digits of a number in canonical form is at most \<open>n\<close> when the number is less than \<open>65536 ^ n\<close>.\<close>

lemma canonical_length:
  assumes "canonical xs" "digits_val xs < 65536 ^ n" "0 < n"
  shows "length xs \<le> n"
proof (rule ccontr)
  assume "\<not> length xs \<le> n"
  then have "1 < length xs" "n \<le> length xs - 1" using assms(3) by simp_all
  then have "(65536 :: nat) ^ n \<le> 65536 ^ (length xs - 1)" "65536 ^ (length xs - 1) \<le> digits_val xs"
    using canonical_low [OF assms(1)] by (simp_all add: power_increasing)
  then show False using assms(2) by linarith
qed

text \<open>
  The state of the multiplication after the digits below the index \<open>i\<close> and the low \<open>m\<close> bits of the digit
  \<open>a\<close>: \<open>vb\<close> is the other operand, \<open>va\<close> the value of the digits below, \<open>N\<close> bounds the digits of the product.
\<close>

definition mul_inv :: "nat \<Rightarrow> nat \<Rightarrow> nat \<Rightarrow> nat \<Rightarrow> nat \<Rightarrow> nat \<Rightarrow> nat \<Rightarrow> digit_heap \<Rightarrow> bool" where
  "mul_inv b r N vb ma pw sv h \<longleftrightarrow> (\<exists>B R db dr. holds h b B \<and> holds h r R \<and> canonical B \<and> canonical R \<and>
    digits_val B * 2 ^ sv = vb * pw \<and> digits_val R = vb * ma \<and>
    mem h b = Some db \<and> mem h r = Some dr \<and> N < length (number db) \<and> N < length (number dr) \<and>
    length (number db) < 2 ^ 32 \<and> length (number dr) < 2 ^ 32)"

lemma mul_invI:
  "holds h b B \<Longrightarrow> holds h r R \<Longrightarrow> canonical B \<Longrightarrow> canonical R \<Longrightarrow> digits_val B * 2 ^ sv = vb * pw \<Longrightarrow> digits_val R = vb * ma \<Longrightarrow>
    mem h b = Some db \<Longrightarrow> mem h r = Some dr \<Longrightarrow> N < length (number db) \<Longrightarrow> N < length (number dr) \<Longrightarrow>
    length (number db) < 2 ^ 32 \<Longrightarrow> length (number dr) < 2 ^ 32 \<Longrightarrow> mul_inv b r N vb ma pw sv h"
  unfolding mul_inv_def by (intro exI conjI)

lemma mul_inv_add:
  assumes i: "mul_inv b r N vb ma pw sv h" and bound: "vb * pw < 65536 ^ N" "vb * (ma + pw) < 65536 ^ N" "0 < N" and br: "b \<noteq> r"
    and z: "vb = 0 \<Longrightarrow> sv < 16" and pw: "0 < pw"
  shows "\<exists>h'. c_bind (shift_left b b sv h) (\<lambda>h. long_add b r r h) = Inr h' \<and> mul_inv b r N vb (ma + pw) pw 0 h' \<and> evolves {b, r} h h'"
proof -
  obtain B R db dr where I: "holds h b B" "holds h r R" "canonical B" "canonical R" "digits_val B * 2 ^ sv = vb * pw" "digits_val R = vb * ma"
    "mem h b = Some db" "mem h r = Some dr" "N < length (number db)" "N < length (number dr)"
    "length (number db) < 2 ^ 32" "length (number dr) < 2 ^ 32"
    using i unfolding mul_inv_def by (elim exE conjE) (rule that)
  have "vb = 0" if "digits_val B = 0" using I(5) pw that by simp
  then have zs: "0 < digits_val B \<or> sv < 16" using z by blast
  have fit: "length B + sv div 16 \<le> N"
  proof (cases "digits_val B = 0")
    case True
    then have "length B \<le> 1" using canonical_length [OF I(3), of 1] by simp
    then show ?thesis using True zs bound(3) by simp
  next
    case False
    have "(2 ^ 16) ^ (sv div 16) \<le> (2 :: nat) ^ sv" unfolding power_mult [symmetric] by (intro power_increasing) simp_all
    then have "65536 ^ (length B - 1) * (65536 :: nat) ^ (sv div 16) \<le> digits_val B * 2 ^ sv"
      using canonical_low0 [OF I(3)] False by (intro mult_mono) simp_all
    then have "(65536 :: nat) ^ (length B - 1 + sv div 16) < 65536 ^ N" using I(5) bound(1) by (simp add: power_add)
    then show ?thesis using I(3) by (simp add: canonical_def)
  qed
  obtain ws k where s: "shift_left b b sv h = Inr (put_record b (stored ws k db) h)" "length ws = Suc (length B + sv div 16)"
    "0 < k" "k \<le> length ws" "digits_val (take k ws) = digits_val B * 2 ^ sv" "canonical (take k ws)"
    using shift_left_ok [OF I(1,7), of sv] fit I(3) zs I(9) by auto
  let ?h = "put_record b (stored ws k db) h" and ?B = "take k ws"
  have e1: "evolves {b} h ?h" "holds ?h b ?B" using put_store [OF I(7) s(3,4) _ I(11)] s(2) fit I(9) by simp_all
  have v: "digits_val ?B = vb * pw" using s(5) I(5) by simp
  have R: "holds ?h r R" "mem ?h r = Some dr" using e1(1) I(2,8) br by (simp_all add: evolves_holds)
  have l: "length ?B \<le> N" using canonical_length [OF s(6)] v bound by simp
  have "vb * ma \<le> vb * (ma + pw)" by (intro mult_left_mono) simp_all
  then have "digits_val R < 65536 ^ N" using I(6) bound(2) by linarith
  then have "length R \<le> N" using canonical_length [OF I(4)] bound(3) by simp
  then obtain zs where z: "long_add b r r ?h = Inr (put_record r (stored zs (length zs) dr) ?h)" "digits_val zs = digits_val ?B + digits_val R"
    "length zs \<le> Suc (max (length ?B) (length R))" "canonical zs"
    using long_add_ok [OF e1(2) R(1,2)] l I(10) s(6) I(4) by (auto simp del: length_take)
  let ?k = "put_record r (stored zs (length zs) dr) ?h"
  have n: "0 < length zs" "length zs \<le> length (number dr)" using z(3,4) l \<open>length R \<le> N\<close> I(10) by (auto simp: canonical_def simp del: length_take)
  note e2 = put_store [OF R(2) n(1) order_refl n(2) I(12)]
  have "evolves {b, r} h ?k" using evolves_trans [OF e1(1) e2(1)] by simp
  moreover have "mul_inv b r N vb (ma + pw) pw 0 ?k"
  proof -
    obtain db' where "mem ?k b = Some db'" "length (number db') = length (number db)"
      using evolves_size [OF \<open>evolves {b, r} h ?k\<close> I(7)] by blast
    moreover obtain dr' where "mem ?k r = Some dr'" "length (number dr') = length (number dr)"
      using evolves_size [OF \<open>evolves {b, r} h ?k\<close> I(8)] by blast
    moreover have "holds ?k b ?B" using evolves_holds [OF e2(1)] e1(2) br by simp
    moreover have "holds ?k r zs" using e2(2) by simp
    moreover have "digits_val zs = vb * (ma + pw)" using z(2) v I(6) by (simp add: algebra_simps)
    ultimately show ?thesis using s(6) z(4) v I(9-12) br by (intro mul_invI [of _ b ?B r zs _ _ _ _ db' dr']) simp_all
  qed
  ultimately show ?thesis using s(1) z(1) by auto
qed

lemma bit_of_digit:
  assumes "m < 16"
  shows "a AND (push_bit m 1 :: u16) \<noteq> 0 \<longleftrightarrow> bit a m" "unat a mod 2 ^ Suc m = unat a mod 2 ^ m + (if bit a m then 2 ^ m else 0)"
proof -
  show "a AND (push_bit m 1 :: u16) \<noteq> 0 \<longleftrightarrow> bit a m"
    using and_exp_eq_0_iff_not_bit [of a m] by (simp add: push_bit_eq_mult)
  have "take_bit (Suc m) (unat a) = 2 ^ m * of_bool (bit (unat a) m) + take_bit m (unat a)" by (rule take_bit_Suc_from_most)
  moreover have "bit (unat a) m = bit a m" using assms by (simp add: bit_unsigned_iff)
  ultimately show "unat a mod 2 ^ Suc m = unat a mod 2 ^ m + (if bit a m then 2 ^ m else 0)" by (simp add: take_bit_eq_mod)
qed

lemma mul_bits_ok:
  assumes "mul_inv b r N vb (va + P * (unat a mod 2 ^ m)) (P * 2 ^ m) sv h" "m + n = 16" "b \<noteq> r" "0 < N" "vb * (P * 65536) < 65536 ^ N"
    "vb = 0 \<Longrightarrow> sv \<le> m" "va < P" "sv + n < 2 ^ 32"
  shows "\<exists>sv' h'. mul_bits b r a n (push_bit m 1) (of_nat sv) h = Inr (of_nat sv', h') \<and> evolves {b, r} h h' \<and>
    mul_inv b r N vb (va + P * unat a) (P * 65536) sv' h' \<and> sv' \<le> sv + n"
  using assms(1,2,6,8)
proof (induction n arbitrary: m sv h)
  case 0
  then show ?case using unat_digit [of a] by (intro exI [of _ sv] exI [of _ h]) simp
next
  case (Suc n)
  let ?ma = "va + P * (unat a mod 2 ^ m)" and ?pw = "P * 2 ^ m" and ?ma' = "va + P * (unat a mod 2 ^ Suc m)"
  have m: "m < 16" using Suc.prems(2) by simp
  note bt = bit_of_digit [OF m, of a]
  have u: "unat (of_nat sv :: u32) = sv" using Suc.prems(4) by (simp add: unat_of_nat)
  obtain sv1 h1 where s: "(if a AND push_bit m 1 \<noteq> 0
      then c_bind (shift_left b b (unat (of_nat sv :: u32)) h) (\<lambda>h. c_bind (long_add b r r h) (\<lambda>h. Inr (0, h))) else Inr (of_nat sv, h)) =
      Inr (of_nat sv1 :: u32, h1)"
    "mul_inv b r N vb ?ma' ?pw sv1 h1" "evolves {b, r} h h1" "sv1 \<le> sv"
  proof (cases "bit a m")
    case True
    have e: "?ma + ?pw = ?ma'" using True bt(2) by (simp add: algebra_simps)
    have "unat a mod 2 ^ Suc m < 65536" using unat_digit [of a] mod_less_eq_dividend [of "unat a" "2 ^ Suc m"] by linarith
    then have "P * (unat a mod 2 ^ Suc m + 1) \<le> P * 65536" by (intro mult_left_mono) simp_all
    then have "?ma' \<le> P * 65536" using assms(7) unfolding add_mult_distrib2 by linarith
    then have "?ma + ?pw \<le> P * 65536" "?pw \<le> P * 65536" unfolding e [symmetric] by linarith+
    from this [THEN mult_left_mono, of vb]
    have "vb * (?ma + ?pw) \<le> vb * (P * 65536)" "vb * ?pw \<le> vb * (P * 65536)" by simp_all
    then have bd: "vb * ?pw < 65536 ^ N" "vb * (?ma + ?pw) < 65536 ^ N" using assms(5) by linarith+
    have "vb = 0 \<Longrightarrow> sv < 16" using Suc.prems(3) m by simp
    moreover have "0 < ?pw" using assms(7) by simp
    ultimately obtain h' where "c_bind (shift_left b b sv h) (\<lambda>h. long_add b r r h) = Inr h'"
      "mul_inv b r N vb (?ma + ?pw) ?pw 0 h'" "evolves {b, r} h h'"
      using mul_inv_add [OF Suc.prems(1) bd assms(4,3)] by blast
    then show ?thesis using that [of 0 h'] True bt(1) e u by (auto simp: c_bind_eq_Inr)
  next
    case False
    then show ?thesis using that [of sv h] bt Suc.prems(1) by simp
  qed
  have "mul_inv b r N vb ?ma' (P * 2 ^ Suc m) (sv1 + 1) h1" using s(2) by (auto simp: mul_inv_def algebra_simps)
  then obtain sv' h' where "mul_bits b r a n (push_bit (Suc m) 1) (of_nat (sv1 + 1)) h1 = Inr (of_nat sv', h')" "evolves {b, r} h1 h'"
    "mul_inv b r N vb (va + P * unat a) (P * 65536) sv' h'" "sv' \<le> sv1 + 1 + n"
    using Suc.IH [of "Suc m" "sv1 + 1" h1] Suc.prems(2-4) s(4) by fastforce
  moreover have "push_bit 1 (push_bit m 1 :: u16) = push_bit (Suc m) 1" by (simp add: push_bit_push_bit)
  moreover have "(of_nat sv1 + 1 :: u32) = of_nat (sv1 + 1)" by simp
  ultimately show ?case using s(1,4) evolves_trans [OF s(3)] by (fastforce simp del: push_bit_Suc of_nat_add of_nat_Suc)
qed

lemma mul_digits_ok:
  assumes "holds h p as" "p \<noteq> b" "p \<noteq> r" "b \<noteq> r" "vb * 65536 ^ length as < 65536 ^ N" "vb = 0 \<Longrightarrow> length as = 1" "0 < N" "16 * length as < 2 ^ 32"
  shows "mul_inv b r N vb (digits_val (take i as)) (65536 ^ i) sv h \<Longrightarrow> i + n = length as \<Longrightarrow> (vb = 0 \<Longrightarrow> i = 0 \<Longrightarrow> sv = 0) \<Longrightarrow> sv \<le> 16 * i \<Longrightarrow>
    \<exists>sv' h'. mul_digits p b r n i (of_nat sv) h = Inr h' \<and> evolves {b, r} h h' \<and> mul_inv b r N vb (digits_val as) (65536 ^ length as) sv' h'"
  using assms(1)
proof (induction n arbitrary: i sv h)
  case (Suc n)
  have i: "i < length as" using Suc.prems(2) by simp
  have t: "digits_val (take (Suc i) as) = digits_val (take i as) + 65536 ^ i * unat (as ! i)" "digits_val (take i as) < 65536 ^ i"
    using i val_less [of "take i as"] by (simp_all add: take_Suc_conv_app_nth val_append)
  have "(65536 :: nat) ^ Suc i \<le> 65536 ^ length as" using i by (intro power_increasing) simp_all
  then have "vb * (65536 ^ i * 65536) \<le> vb * 65536 ^ length as" by (intro mult_left_mono) simp_all
  then have bd: "vb * (65536 ^ i * 65536) < 65536 ^ N" using assms(5) by linarith
  have "vb = 0 \<Longrightarrow> sv \<le> 0" using Suc.prems(3) assms(6) i by simp
  then obtain sv1 h1 where m: "mul_bits b r (as ! i) 16 (push_bit 0 1) (of_nat sv) h = Inr (of_nat sv1, h1)" "evolves {b, r} h h1"
    "mul_inv b r N vb (digits_val (take (Suc i) as)) (65536 ^ Suc i) sv1 h1" "sv1 \<le> sv + 16"
    using mul_bits_ok [of b r N vb "digits_val (take i as)" "65536 ^ i" "as ! i" 0 sv h 16] Suc.prems(1,4) assms(4) assms(7,8) bd t i by (auto simp: mult.commute)
  have "holds h1 p as" using evolves_holds [OF m(2)] Suc.prems(5) assms(2,3) by simp
  then obtain sv' h' where "mul_digits p b r n (Suc i) (of_nat sv1) h1 = Inr h'" "evolves {b, r} h1 h'" "mul_inv b r N vb (digits_val as) (65536 ^ length as) sv' h'"
    using Suc.IH [OF m(3)] Suc.prems(2,4) m(4) by auto
  then show ?case using m holds_rd [OF Suc.prems(5) i] evolves_trans [OF m(2)] by auto
qed auto

text \<open>Addresses that were not given out yet have no record, and the size of a record is a 32-bit number.\<close>

definition fresh :: "digit_heap \<Rightarrow> bool" where
  "fresh h \<longleftrightarrow> (\<forall>a. next_addr h \<le> a \<longrightarrow> mem h a = None) \<and> (\<forall>a d. mem h a = Some d \<longrightarrow> length (number d) < 2 ^ 32)"

lemma fresh_size: "fresh h \<Longrightarrow> mem h a = Some d \<Longrightarrow> length (number d) < 2 ^ 32"
  by (simp add: fresh_def)

lemma fresh_holds: "fresh h \<Longrightarrow> holds h p xs \<Longrightarrow> p \<noteq> next_addr h"
  by (auto simp: fresh_def holds_def)

text \<open>A local record is created, and deleted at the end.\<close>

lemma local_frame:
  assumes "evolves S h h1" "fresh h" "next_addr h1 = next_addr h" "\<And>s. s \<in> S \<Longrightarrow> mem h s \<noteq> None"
    "evolves (insert (next_addr h) S) (put_record (next_addr h) d (h1 \<lparr> next_addr := next_addr h + 1 \<rparr>)) h'"
  shows "evolves S h (h' \<lparr> mem := (mem h')(next_addr h := None) \<rparr>)" "fresh (h' \<lparr> mem := (mem h')(next_addr h := None) \<rparr>)"
proof -
  let ?t = "next_addr h" and ?g = "put_record (next_addr h) d (h1 \<lparr> next_addr := next_addr h + 1 \<rparr>)"
  let ?h = "h' \<lparr> mem := (mem h')(?t := None) \<rparr>"
  have t: "mem h ?t = None" "?t \<notin> S" using assms(2) assms(4) [of ?t] by (auto simp: fresh_def)
  have n: "?t + 1 \<le> next_addr h'" using assms(5) by (simp add: evolves_def)
  have o: "mem ?h a = mem h a" if "a \<notin> S" for a
    using assms(1,5) t that by (cases "a = ?t") (simp_all add: evolves_def)
  have k: "\<exists>d'. mem ?h a = Some d' \<and> length (number d') = length (number e) \<and> references d' = references e" if a: "mem h a = Some e" for a e
  proof -
    obtain e1 where 1: "mem h1 a = Some e1" "length (number e1) = length (number e)" "references e1 = references e"
      using evolves_size [OF assms(1) a] .
    have "a \<noteq> ?t" using a t(1) by auto
    then have "mem ?g a = Some e1" using 1(1) by simp
    then obtain e2 where "mem h' a = Some e2" "length (number e2) = length (number e1)" "references e2 = references e1"
      using evolves_size [OF assms(5)] by blast
    then show ?thesis using 1 \<open>a \<noteq> ?t\<close> by simp
  qed
  show "evolves S h ?h" using o k n by (simp add: evolves_def)
  have none: "mem ?h a = None" if "mem h a = None" for a using o [of a] assms(4) [of a] that by (cases "a \<in> S") auto
  show "fresh ?h" unfolding fresh_def
  proof (intro conjI allI impI)
    fix a assume "next_addr ?h \<le> a"
    then have "next_addr h \<le> a" using n by simp
    then show "mem ?h a = None" using assms(2) none by (simp add: fresh_def)
  next
    fix a e assume e: "mem ?h a = Some e"
    then obtain e' where "mem h a = Some e'" using none [of a] by (cases "mem h a") auto
    then show "length (number e) < 2 ^ 32" using k [of a e'] e fresh_size [OF assms(2)] by auto
  qed
qed

lemma zero_record:
  assumes "mem h r = Some d" "n < length (number d)"
  shows "c_bind (set_used r 1 h) (\<lambda>h. wr r 0 0 h) = Inr (put_record r (stored [0] 1 d) h)"
  using assms wr_first [of "put_record r (d \<lparr> digits_used := 1 \<rparr>) h" r "d \<lparr> digits_used := 1 \<rparr>" 0 0]
  by (cases "number d") (auto simp: set_used_def fetch_def stored_def over_used)

lemma long_mul_ok:
  assumes p: "holds h p xs" and q: "holds h q ys" and c: "canonical xs" "canonical ys"
    and r: "mem h r = Some d" "length xs + length ys < length (number d)" "p \<noteq> r" "q \<noteq> r" and f: "fresh h"
    and l: "length xs < 2 ^ 27" "length ys < 2 ^ 27"
  shows "\<exists>h' zs. long_mul p q r h = Inr h' \<and> evolves {r} h h' \<and> fresh h' \<and> holds h' r zs \<and> canonical zs \<and> digits_val zs = digits_val xs * digits_val ys"
proof -
  obtain a as b bs where o: "(if length xs < length ys then (p, xs, q, ys) else (q, ys, p, xs)) = (a, as, b, bs)"
    by (metis prod_cases4)
  then have ab: "holds h a as" "holds h b bs" "length as \<le> length bs" "digits_val as * digits_val bs = digits_val xs * digits_val ys" "a \<noteq> r" "b \<noteq> r"
    "length as + length bs = length xs + length ys" "canonical as" "canonical bs"
    using p q c r(3,4) by (auto simp: mult.commute split: if_splits)
  let ?N = "length as + length bs" and ?t = "next_addr h"
  have lab: "length as < 2 ^ 27" "length bs < 2 ^ 27" using o l by (auto split: if_splits)
  have sz: "length (number d) < 2 ^ 32" using fresh_size [OF f r(1)] .
  have t: "a \<noteq> ?t" "b \<noteq> ?t" "r \<noteq> ?t" using fresh_holds [OF f] ab r(1) f by (auto simp: fresh_def)
  define h1 where "h1 = put_record r (stored [0] 1 d) h"
  have z: "c_bind (set_used r 1 h) (\<lambda>h. wr r 0 0 h) = Inr h1" using zero_record [OF r(1)] r(2) by (simp add: h1_def)
  have e1: "evolves {r} h h1" "holds h1 r [0]"
    using put_store [OF r(1), of 1 "[0]"] r(2) sz unfolding h1_def by (simp_all add: Suc_leI)
  have h1: "holds h1 a as" "holds h1 b bs" "next_addr h1 = ?t" "mem h1 ?t = None"
    using evolves_holds [OF e1(1)] ab t f by (simp_all add: h1_def fresh_def)
  let ?g = "\<lambda>d. put_record ?t d (h1 \<lparr> next_addr := ?t + 1 \<rparr>)"
  have sl: "unat (of_nat (length as) + slack) = length as + 25" using lab by (simp add: unat_word_ariths unat_of_nat)
  obtain db where b: "copy_record b (of_nat (length as) + slack) h1 = Inr (?t, ?g db)" "length (number db) = length bs + (length as + 25)"
    "references db = 1" "holds (?g db) ?t bs" using copy_record_ok [OF h1(2), of "of_nat (length as) + slack"] h1(3,4) sl lab by auto
  obtain dr where dr: "mem h1 r = Some dr" "length (number dr) = length (number d)" using evolves_size [OF e1(1) r(1)] by blast
  have g: "holds (?g db) a as" "holds (?g db) r [0]" "mem (?g db) r = Some dr" "mem (?g db) ?t = Some db"
    using h1(1) e1(2) dr(1) t by (simp_all add: holds_def)
  have I: "mul_inv ?t r ?N (digits_val bs) (digits_val (take 0 as)) (65536 ^ 0) 0 (?g db)"
    using b(2,4) g(2-4) ab dr(2) r(2) sz lab by (intro mul_invI [of _ _ bs _ "[0]" _ _ _ _ db dr]) (simp_all add: canonical_def)
  have bd: "digits_val bs * 65536 ^ length as < 65536 ^ ?N" using val_less [of bs] by (simp add: power_add mult.commute)
  have one: "length as = 1" if "digits_val bs = 0"
  proof -
    have "length bs \<le> 1" using canonical_low [OF ab(9)] that by (cases "1 < length bs") auto
    moreover have "0 < length as" using ab(8) by (simp add: canonical_def)
    ultimately show ?thesis using ab(3) by linarith
  qed
  obtain sv' h' where m: "mul_digits a ?t r (length as) 0 0 (?g db) = Inr h'" "evolves {?t, r} (?g db) h'"
    "mul_inv ?t r ?N (digits_val bs) (digits_val as) (65536 ^ length as) sv' h'"
    using mul_digits_ok [OF g(1) t(1) ab(5) t(3) [symmetric] bd one _ _ I, of "length as"] ab(8) lab by (auto simp: canonical_def)
  obtain R dt where R: "holds h' r R" "canonical R" "digits_val R = digits_val bs * digits_val as" "mem h' ?t = Some dt"
    using m(3) unfolding mul_inv_def by (elim exE conjE) (rule that)
  let ?h = "h' \<lparr> mem := (mem h')(?t := None) \<rparr>"
  have "delete_record ?t h' = Inr ?h" using R(4) by (simp add: delete_record_def fetch_def)
  moreover obtain dl dq where "fetch h1 p = Inr dl" "unat (digits_used dl) = length xs" "fetch h1 q = Inr dq" "unat (digits_used dq) = length ys"
    using evolves_holds [OF e1(1)] p q r(3,4) by (metis holds_fetch singletonD)
  moreover have "x = of_nat (length ws)" if "unat x = length ws" for x :: u32 and ws :: "u16 list" using that [symmetric] by simp
  ultimately have "long_mul p q r h = Inr ?h"
    using z b(1) m(1) o lab by (auto simp: long_mul_def c_bind_eq_Inr unat_of_nat word_less_nat_alt split: if_splits)
  moreover have "holds ?h r R" using R(1) t(3) by (simp add: holds_def)
  moreover have "evolves {r} h ?h" "fresh ?h" using local_frame [OF e1(1) f h1(3) _ m(2)] r(1) by simp_all
  ultimately show ?thesis using R(2,3) ab(4) by (metis mult.commute)
qed

end
