(* ===== verification/Bigint.thy ===== *)
theory Bigint
  imports Bigint_Long
begin

text \<open>
  The operators of \<open>bigint_kernel_1\<close>.  An object is its member \<open>data\<close>, the address of a record that it
  may share with other objects; an operator that changes the object gives its new \<open>data\<close>.  A record is
  copied before it changes when more than one object refers to it.  The theory proves what each operator makes of
  numbers in canonical form with fewer than \<open>2 ^ 27\<close> digits, for which no 32-bit size wraps.
\<close>

subsection \<open>Construction and destruction\<close>

text \<open>The counter of the references goes down and up.\<close>

definition release :: "nat \<Rightarrow> digit_heap \<Rightarrow> digit_heap c" where
  "release data h = c_bind (fetch h data) (\<lambda>d. Inr (put_record data (d \<lparr> references := references d - 1 \<rparr>) h))"

definition acquire :: "nat \<Rightarrow> digit_heap \<Rightarrow> digit_heap c" where
  "acquire data h = c_bind (fetch h data) (\<lambda>d. Inr (put_record data (d \<lparr> references := references d + 1 \<rparr>) h))"

definition bigint_new :: "digit_heap \<Rightarrow> (nat \<times> digit_heap) c" where
  "bigint_new h = new_record slack h"

definition bigint_of_uint32 :: "u32 \<Rightarrow> digit_heap \<Rightarrow> (nat \<times> digit_heap) c" where
  "bigint_of_uint32 value h =
    c_bind (new_record slack h) (\<lambda>(data, h).
    c_bind (wr data 0 (ucast (value AND 0xFFFF)) h) (\<lambda>h.
    c_bind (wr data 1 (ucast (drop_bit 16 value AND 0xFFFF)) h) (\<lambda>h.
    c_bind (rd h data 1) (\<lambda>x.
    if x \<noteq> 0 then c_bind (set_used data 2 h) (\<lambda>h. Inr (data, h)) else Inr (data, h)))))"

definition bigint_copy :: "nat \<Rightarrow> digit_heap \<Rightarrow> (nat \<times> digit_heap) c" where
  "bigint_copy item h = c_bind (acquire item h) (\<lambda>h. Inr (item, h))"

definition bigint_delete :: "nat \<Rightarrow> digit_heap \<Rightarrow> digit_heap c" where
  "bigint_delete data h = c_bind (fetch h data) (\<lambda>d. if references d = 1 then delete_record data h else release data h)"

subsection \<open>The three ways to change an object\<close>

text \<open>The record is shared, it has too little room, or it is changed in place; \<open>kern\<close> does the work.\<close>

definition replace_shared :: "(nat \<Rightarrow> nat \<Rightarrow> digit_heap \<Rightarrow> digit_heap c) \<Rightarrow> nat \<Rightarrow> u32 \<Rightarrow> digit_heap \<Rightarrow> (nat \<times> digit_heap) c" where
  "replace_shared kern data sz h =
    c_bind (new_record sz h) (\<lambda>(temp, h). c_bind (release data h) (\<lambda>h.
    c_bind (kern data temp h) (\<lambda>h. Inr (temp, h))))"

definition replace_small :: "(nat \<Rightarrow> nat \<Rightarrow> digit_heap \<Rightarrow> digit_heap c) \<Rightarrow> nat \<Rightarrow> u32 \<Rightarrow> digit_heap \<Rightarrow> (nat \<times> digit_heap) c" where
  "replace_small kern data sz h =
    c_bind (new_record sz h) (\<lambda>(temp, h). c_bind (kern data temp h) (\<lambda>h.
    c_bind (delete_record data h) (\<lambda>h. Inr (temp, h))))"

definition change_in_place :: "(nat \<Rightarrow> nat \<Rightarrow> digit_heap \<Rightarrow> digit_heap c) \<Rightarrow> nat \<Rightarrow> digit_heap \<Rightarrow> (nat \<times> digit_heap) c" where
  "change_in_place kern data h = c_bind (kern data data h) (\<lambda>h. Inr (data, h))"

text \<open>A result in a new record.\<close>

definition new_result :: "(nat \<Rightarrow> nat \<Rightarrow> digit_heap \<Rightarrow> digit_heap c) \<Rightarrow> nat \<Rightarrow> u32 \<Rightarrow> digit_heap \<Rightarrow> (nat \<times> digit_heap) c" where
  "new_result kern data sz h = c_bind (new_record sz h) (\<lambda>(temp, h). c_bind (kern data temp h) (\<lambda>h. Inr (temp, h)))"

subsection \<open>Operators on two objects\<close>

definition bigint_plus :: "nat \<Rightarrow> nat \<Rightarrow> digit_heap \<Rightarrow> (nat \<times> digit_heap) c" where
  "bigint_plus data rhs h =
    c_bind (fetch h data) (\<lambda>d. c_bind (fetch h rhs) (\<lambda>e.
    new_result (\<lambda>p r. long_add p rhs r) data (max (digits_used e) (digits_used d) + slack) h))"

definition bigint_plus_assign :: "nat \<Rightarrow> nat \<Rightarrow> digit_heap \<Rightarrow> (nat \<times> digit_heap) c" where
  "bigint_plus_assign data rhs h =
    c_bind (fetch h data) (\<lambda>d. c_bind (fetch h rhs) (\<lambda>e.
    let n = max (digits_used d) (digits_used e); kern = (\<lambda>p r. long_add p rhs r) in
    if references d \<noteq> 1 then replace_shared kern data (n + slack) h
    else if length (number d) \<le> unat n then replace_small kern data (n + slack) h
    else change_in_place kern data h))"

definition bigint_minus :: "nat \<Rightarrow> nat \<Rightarrow> digit_heap \<Rightarrow> (nat \<times> digit_heap) c" where
  "bigint_minus data rhs h =
    c_bind (fetch h data) (\<lambda>d. new_result (\<lambda>p r. long_sub p rhs r) data (digits_used d + slack) h)"

definition bigint_minus_assign :: "nat \<Rightarrow> nat \<Rightarrow> digit_heap \<Rightarrow> (nat \<times> digit_heap) c" where
  "bigint_minus_assign data rhs h =
    c_bind (fetch h data) (\<lambda>d. let kern = (\<lambda>p r. long_sub p rhs r) in
    if references d \<noteq> 1 then replace_shared kern data (digits_used d + slack) h else change_in_place kern data h)"

definition bigint_times :: "nat \<Rightarrow> nat \<Rightarrow> digit_heap \<Rightarrow> (nat \<times> digit_heap) c" where
  "bigint_times data rhs h =
    c_bind (fetch h data) (\<lambda>d. c_bind (fetch h rhs) (\<lambda>e.
    new_result (\<lambda>p r. long_mul p rhs r) data (digits_used d + digits_used e + slack) h))"

text \<open>The object lets go of its record: the end of \<open>*=\<close>, \<open>/=\<close> and \<open>%=\<close>.\<close>

definition drop_old :: "nat \<Rightarrow> digit_heap \<Rightarrow> digit_heap c" where
  "drop_old data h = c_bind (fetch h data) (\<lambda>d. if references d \<noteq> 1 then release data h else delete_record data h)"

definition bigint_times_assign :: "nat \<Rightarrow> nat \<Rightarrow> digit_heap \<Rightarrow> (nat \<times> digit_heap) c" where
  "bigint_times_assign data rhs h =
    c_bind (fetch h data) (\<lambda>d. c_bind (fetch h rhs) (\<lambda>e.
    c_bind (new_result (\<lambda>p r. long_mul p rhs r) data (digits_used e + digits_used d + slack) h) (\<lambda>(temp, h).
    c_bind (drop_old data h) (\<lambda>h. Inr (temp, h)))))"

text \<open>The two records for a quotient and a remainder, and the division.\<close>

definition new_division :: "nat \<Rightarrow> nat \<Rightarrow> digit_heap \<Rightarrow> (nat \<times> nat \<times> digit_heap) c option" where
  "new_division data rhs h =
    (case c_bind (fetch h data) (\<lambda>d. c_bind (new_record (digits_used d + slack) h) (\<lambda>(temp, h).
       c_bind (new_record (digits_used d + slack) h) (\<lambda>(remainder, h). Inr (temp, remainder, h)))) of
      Inl e \<Rightarrow> Some (Inl e)
    | Inr (temp, remainder, h) \<Rightarrow>
      map_option (\<lambda>res. c_bind res (\<lambda>h. Inr (temp, remainder, h))) (long_div data rhs temp remainder h))"

definition bigint_divide :: "nat \<Rightarrow> nat \<Rightarrow> digit_heap \<Rightarrow> (nat \<times> digit_heap) c option" where
  "bigint_divide data rhs h = map_option (\<lambda>res. c_bind res (\<lambda>(temp, remainder, h).
    c_bind (delete_record remainder h) (\<lambda>h. Inr (temp, h)))) (new_division data rhs h)"

definition bigint_divide_assign :: "nat \<Rightarrow> nat \<Rightarrow> digit_heap \<Rightarrow> (nat \<times> digit_heap) c option" where
  "bigint_divide_assign data rhs h = map_option (\<lambda>res. c_bind res (\<lambda>(temp, remainder, h).
    c_bind (drop_old data h) (\<lambda>h. c_bind (delete_record remainder h) (\<lambda>h. Inr (temp, h))))) (new_division data rhs h)"

definition bigint_mod :: "nat \<Rightarrow> nat \<Rightarrow> digit_heap \<Rightarrow> (nat \<times> digit_heap) c option" where
  "bigint_mod data rhs h = map_option (\<lambda>res. c_bind res (\<lambda>(temp, remainder, h).
    c_bind (delete_record temp h) (\<lambda>h. Inr (remainder, h)))) (new_division data rhs h)"

definition bigint_mod_assign :: "nat \<Rightarrow> nat \<Rightarrow> digit_heap \<Rightarrow> (nat \<times> digit_heap) c option" where
  "bigint_mod_assign data rhs h = map_option (\<lambda>res. c_bind res (\<lambda>(temp, remainder, h).
    c_bind (drop_old data h) (\<lambda>h. c_bind (delete_record temp h) (\<lambda>h. Inr (remainder, h))))) (new_division data rhs h)"

definition bigint_less :: "nat \<Rightarrow> nat \<Rightarrow> digit_heap \<Rightarrow> bool c" where
  "bigint_less data rhs h = is_less_than data rhs h"

definition bigint_equal :: "nat \<Rightarrow> nat \<Rightarrow> digit_heap \<Rightarrow> bool c" where
  "bigint_equal data rhs h = is_equal_to data rhs h"

text \<open>Assignment; \<open>same\<close> says that the two sides are the same object.\<close>

definition bigint_assign :: "bool \<Rightarrow> nat \<Rightarrow> nat \<Rightarrow> digit_heap \<Rightarrow> (nat \<times> digit_heap) c" where
  "bigint_assign same data rhs h =
    (if same then Inr (data, h)
     else c_bind (fetch h data) (\<lambda>d.
       if references d = 1 then c_bind (delete_record data h) (\<lambda>h. c_bind (acquire rhs h) (\<lambda>h. Inr (rhs, h)))
       else c_bind (release data h) (\<lambda>h. c_bind (acquire rhs h) (\<lambda>h. Inr (rhs, h)))))"

subsection \<open>Operators with a 16-bit number\<close>

text \<open>Both \<open>operator+ (uint16, bigint)\<close> and \<open>operator+ (bigint, uint16)\<close>, and the same for the product.\<close>

definition bigint_plus_uint16 :: "nat \<Rightarrow> u16 \<Rightarrow> digit_heap \<Rightarrow> (nat \<times> digit_heap) c" where
  "bigint_plus_uint16 data v h =
    c_bind (fetch h data) (\<lambda>d. new_result (\<lambda>p r. short_add p v r) data (digits_used d + slack) h)"

definition bigint_plus_assign_uint16 :: "nat \<Rightarrow> u16 \<Rightarrow> digit_heap \<Rightarrow> (nat \<times> digit_heap) c" where
  "bigint_plus_assign_uint16 data v h =
    c_bind (fetch h data) (\<lambda>d. let kern = (\<lambda>p r. short_add p v r) in
    if references d \<noteq> 1 then replace_shared kern data (digits_used d + slack) h
    else if unat (digits_used d) = length (number d) then replace_small kern data (digits_used d + slack) h
    else change_in_place kern data h)"

definition uint16_minus_bigint :: "u16 \<Rightarrow> nat \<Rightarrow> digit_heap \<Rightarrow> (nat \<times> digit_heap) c" where
  "uint16_minus_bigint v rhs h =
    c_bind (new_record slack h) (\<lambda>(temp, h). c_bind (rd h rhs 0) (\<lambda>x. c_bind (wr temp 0 (v - x) h) (\<lambda>h. Inr (temp, h))))"

definition bigint_minus_uint16 :: "nat \<Rightarrow> u16 \<Rightarrow> digit_heap \<Rightarrow> (nat \<times> digit_heap) c" where
  "bigint_minus_uint16 data v h =
    c_bind (fetch h data) (\<lambda>d. new_result (\<lambda>p r. short_sub p v r) data (digits_used d + slack) h)"

definition bigint_minus_assign_uint16 :: "nat \<Rightarrow> u16 \<Rightarrow> digit_heap \<Rightarrow> (nat \<times> digit_heap) c" where
  "bigint_minus_assign_uint16 data v h =
    c_bind (fetch h data) (\<lambda>d. let kern = (\<lambda>p r. short_sub p v r) in
    if references d \<noteq> 1 then replace_shared kern data (digits_used d + slack) h else change_in_place kern data h)"

definition bigint_times_uint16 :: "nat \<Rightarrow> u16 \<Rightarrow> digit_heap \<Rightarrow> (nat \<times> digit_heap) c" where
  "bigint_times_uint16 data v h =
    c_bind (fetch h data) (\<lambda>d. new_result (\<lambda>p r. short_mul p v r) data (digits_used d + slack) h)"

definition bigint_times_assign_uint16 :: "nat \<Rightarrow> u16 \<Rightarrow> digit_heap \<Rightarrow> (nat \<times> digit_heap) c" where
  "bigint_times_assign_uint16 data v h =
    c_bind (fetch h data) (\<lambda>d. let kern = (\<lambda>p r. short_mul p v r) in
    if references d \<noteq> 1 then replace_shared kern data (digits_used d + slack) h
    else if unat (digits_used d) = length (number d) then replace_small kern data (digits_used d + slack) h
    else change_in_place kern data h)"

definition uint16_divide_bigint :: "u16 \<Rightarrow> nat \<Rightarrow> digit_heap \<Rightarrow> (nat \<times> digit_heap) c" where
  "uint16_divide_bigint v rhs h =
    c_bind (new_record slack h) (\<lambda>(temp, h). c_bind (fetch h rhs) (\<lambda>e.
    if unat (digits_used e) = 1 then
      c_bind (rd h rhs 0) (\<lambda>x. if x = 0 then Inl Div_By_Zero else c_bind (wr temp 0 (v div x) h) (\<lambda>h. Inr (temp, h)))
    else Inr (temp, h)))"

text \<open>Division by a 16-bit number without its remainder.\<close>

definition short_quotient :: "u16 \<Rightarrow> nat \<Rightarrow> nat \<Rightarrow> digit_heap \<Rightarrow> digit_heap c" where
  "short_quotient v p r h = c_bind (short_div p v r h) (\<lambda>(_, h). Inr h)"

definition bigint_divide_uint16 :: "nat \<Rightarrow> u16 \<Rightarrow> digit_heap \<Rightarrow> (nat \<times> digit_heap) c" where
  "bigint_divide_uint16 data v h =
    c_bind (fetch h data) (\<lambda>d. new_result (short_quotient v) data (digits_used d + slack) h)"

definition bigint_divide_assign_uint16 :: "nat \<Rightarrow> u16 \<Rightarrow> digit_heap \<Rightarrow> (nat \<times> digit_heap) c" where
  "bigint_divide_assign_uint16 data v h =
    c_bind (fetch h data) (\<lambda>d.
    if references d \<noteq> 1 then replace_shared (short_quotient v) data (digits_used d + slack) h
    else change_in_place (short_quotient v) data h)"

definition uint16_mod_bigint :: "u16 \<Rightarrow> nat \<Rightarrow> digit_heap \<Rightarrow> (nat \<times> digit_heap) c" where
  "uint16_mod_bigint v rhs h =
    c_bind (new_record slack h) (\<lambda>(temp, h). c_bind (fetch h rhs) (\<lambda>e.
    if unat (digits_used e) = 1 then
      c_bind (rd h rhs 0) (\<lambda>x. if x = 0 then Inl Div_By_Zero else c_bind (wr temp 0 (v mod x) h) (\<lambda>h. Inr (temp, h)))
    else c_bind (wr temp 0 v h) (\<lambda>h. Inr (temp, h))))"

text \<open>Division by a 16-bit number whose result is overwritten with the remainder.\<close>

definition short_remainder :: "u16 \<Rightarrow> nat \<Rightarrow> nat \<Rightarrow> digit_heap \<Rightarrow> digit_heap c" where
  "short_remainder v p r h =
    c_bind (short_div p v r h) (\<lambda>(remainder, h). c_bind (set_used r 1 h) (\<lambda>h. wr r 0 remainder h))"

definition bigint_mod_uint16 :: "nat \<Rightarrow> u16 \<Rightarrow> digit_heap \<Rightarrow> (nat \<times> digit_heap) c" where
  "bigint_mod_uint16 data v h =
    c_bind (fetch h data) (\<lambda>d. new_result (short_remainder v) data (digits_used d + slack) h)"

definition bigint_mod_assign_uint16 :: "nat \<Rightarrow> u16 \<Rightarrow> digit_heap \<Rightarrow> (nat \<times> digit_heap) c" where
  "bigint_mod_assign_uint16 data v h =
    c_bind (fetch h data) (\<lambda>d.
    if references d \<noteq> 1 then replace_shared (short_remainder v) data (digits_used d + slack) h
    else change_in_place (short_remainder v) data h)"

definition uint16_less_bigint :: "u16 \<Rightarrow> nat \<Rightarrow> digit_heap \<Rightarrow> bool c" where
  "uint16_less_bigint v rhs h =
    c_bind (fetch h rhs) (\<lambda>e. if unat (digits_used e) > 1 then Inr True else c_bind (rd h rhs 0) (\<lambda>x. Inr (v < x)))"

definition bigint_less_uint16 :: "nat \<Rightarrow> u16 \<Rightarrow> digit_heap \<Rightarrow> bool c" where
  "bigint_less_uint16 data v h =
    c_bind (fetch h data) (\<lambda>d. if unat (digits_used d) = 1 then c_bind (rd h data 0) (\<lambda>x. Inr (x < v)) else Inr False)"

definition bigint_equal_uint16 :: "nat \<Rightarrow> u16 \<Rightarrow> digit_heap \<Rightarrow> bool c" where
  "bigint_equal_uint16 data v h =
    c_bind (fetch h data) (\<lambda>d. if unat (digits_used d) = 1 then c_bind (rd h data 0) (\<lambda>x. Inr (x = v)) else Inr False)"

definition bigint_assign_uint16 :: "nat \<Rightarrow> u16 \<Rightarrow> digit_heap \<Rightarrow> (nat \<times> digit_heap) c" where
  "bigint_assign_uint16 data v h =
    c_bind (fetch h data) (\<lambda>d.
    c_bind (if references d \<noteq> 1 then c_bind (release data h) (\<lambda>h. new_record slack h)
            else c_bind (set_used data 1 h) (\<lambda>h. Inr (data, h))) (\<lambda>(data, h).
    c_bind (wr data 0 v h) (\<lambda>h. Inr (data, h))))"

subsection \<open>Counting\<close>

definition bigint_increment :: "nat \<Rightarrow> digit_heap \<Rightarrow> (nat \<times> digit_heap) c" where
  "bigint_increment data h =
    c_bind (fetch h data) (\<lambda>d.
    if references d \<noteq> 1 then replace_shared increment data (digits_used d + slack) h
    else if unat (digits_used d) = length (number d) then replace_small increment data (digits_used d + slack) h
    else change_in_place increment data h)"

text \<open>The postfix operators give the new \<open>data\<close> of the object and the \<open>data\<close> of the result.\<close>

definition bigint_post_increment :: "nat \<Rightarrow> digit_heap \<Rightarrow> (nat \<times> nat \<times> digit_heap) c" where
  "bigint_post_increment data h =
    c_bind (fetch h data) (\<lambda>d.
    c_bind (new_result increment data (digits_used d + slack) h) (\<lambda>(temp2, h). Inr (temp2, data, h)))"

definition bigint_decrement :: "nat \<Rightarrow> digit_heap \<Rightarrow> (nat \<times> digit_heap) c" where
  "bigint_decrement data h =
    c_bind (fetch h data) (\<lambda>d.
    if references d \<noteq> 1 then replace_shared decrement data (digits_used d + slack) h else change_in_place decrement data h)"

definition bigint_post_decrement :: "nat \<Rightarrow> digit_heap \<Rightarrow> (nat \<times> nat \<times> digit_heap) c" where
  "bigint_post_decrement data h =
    c_bind (fetch h data) (\<lambda>d.
    c_bind (new_result decrement data (digits_used d + slack) h) (\<lambda>(temp2, h). Inr (temp2, data, h)))"

definition bigint_swap :: "nat \<Rightarrow> nat \<Rightarrow> nat \<times> nat" where
  "bigint_swap data item = (item, data)"

subsection \<open>The interface between the operators and the private functions\<close>

text \<open>The result is in a new record; nothing else changed.\<close>

definition made :: "digit_heap \<Rightarrow> nat \<Rightarrow> u16 list \<Rightarrow> digit_heap \<Rightarrow> bool" where
  "made h p zs h' \<longleftrightarrow> p = next_addr h \<and> fresh h' \<and> (\<forall>q. q \<noteq> p \<longrightarrow> mem h' q = mem h q) \<and> holds h' p zs \<and>
    map_option references (mem h' p) = Some 1"

text \<open>An object has moved from the record \<open>p\<close> to \<open>p'\<close>, which holds \<open>zs\<close>; other objects that share \<open>p\<close> keep it.\<close>

definition moved :: "digit_heap \<Rightarrow> nat \<Rightarrow> nat \<Rightarrow> u16 list \<Rightarrow> digit_heap \<Rightarrow> bool" where
  "moved h p p' zs h' \<longleftrightarrow> fresh h' \<and> (\<forall>q. q \<noteq> p \<and> q \<noteq> p' \<longrightarrow> mem h' q = mem h q) \<and> holds h' p' zs \<and>
    map_option references (mem h' p') = Some 1 \<and>
    (\<exists>d. mem h p = Some d \<and>
      (if references d = 1 then p' = p \<or> p' = next_addr h \<and> mem h' p = None
       else p' = next_addr h \<and> mem h' p = Some (d \<lparr> references := references d - 1 \<rparr>)))"

lemma fresh_put: "fresh h \<Longrightarrow> mem h p = Some e \<Longrightarrow> length (number d) = length (number e) \<Longrightarrow> fresh (put_record p d h)"
  by (auto simp: fresh_def)

lemma new_record_ok:
  assumes "fresh h" "sz \<noteq> 0"
  obtains d g where "new_record sz h = Inr (next_addr h, g)" "mem g (next_addr h) = Some d" "length (number d) = unat sz" "references d = 1"
    "\<And>q. q \<noteq> next_addr h \<Longrightarrow> mem g q = mem h q" "next_addr g = next_addr h + 1" "fresh g" "holds g (next_addr h) [0]"
proof -
  have n: "0 < unat sz" "unat sz < 2 ^ 32" using assms(2) unsigned_less [of sz, where 'a = nat] by (simp_all add: unat_gt_0)
  let ?g = "put_record (next_addr h) \<lparr> number = (replicate (unat sz) None)[0 := Some 0], references = 1, digits_used = 1 \<rparr> (h \<lparr> next_addr := next_addr h + 1 \<rparr>)"
  have "take 1 ((replicate (unat sz) None)[0 := Some (0 :: u16)]) = [Some 0]" using n(1) by (cases "unat sz") simp_all
  then show thesis using assms n by (intro that [of ?g]) (auto simp: new_record_def Let_def fresh_def holds_def Suc_leI)
qed

locale digit_operation =
  fixes kern :: "nat \<Rightarrow> nat \<Rightarrow> digit_heap \<Rightarrow> digit_heap c" and src :: "nat set" and arg :: "u16 list \<Rightarrow> bool"
    and room :: "nat \<Rightarrow> nat \<Rightarrow> nat" and ok :: "nat \<Rightarrow> nat \<Rightarrow> bool" and result :: "nat \<Rightarrow> nat \<Rightarrow> nat"
  assumes kern_fresh: "\<lbrakk> holds h p xs; \<And>q. q \<in> src \<Longrightarrow> holds h q ys; arg ys; canonical xs; canonical ys; ok (digits_val xs) (digits_val ys);
      mem h r = Some d; room (length xs) (length ys) \<le> length (number d); r \<noteq> p; r \<notin> src; fresh h \<rbrakk> \<Longrightarrow>
      \<exists>h' zs. kern p r h = Inr h' \<and> evolves {r} h h' \<and> fresh h' \<and> holds h' r zs \<and> canonical zs \<and> digits_val zs = result (digits_val xs) (digits_val ys)"
begin

lemma new_result_made:
  assumes p: "holds h p xs" and q: "\<And>q. q \<in> src \<Longrightarrow> holds h q ys" and a: "arg ys" "canonical xs" "canonical ys" "ok (digits_val xs) (digits_val ys)"
    and f: "fresh h" and sz: "room (length xs) (length ys) \<le> unat sz" "sz \<noteq> 0"
  shows "\<exists>p' h' zs. new_result kern p sz h = Inr (p', h') \<and> made h p' zs h' \<and> canonical zs \<and> digits_val zs = result (digits_val xs) (digits_val ys)"
proof -
  let ?t = "next_addr h"
  obtain d g where g: "new_record sz h = Inr (?t, g)" "mem g ?t = Some d" "length (number d) = unat sz" "references d = 1"
    "\<And>q. q \<noteq> ?t \<Longrightarrow> mem g q = mem h q" "fresh g" using new_record_ok [OF f sz(2)] by metis
  have t: "p \<noteq> ?t" "?t \<notin> src" using fresh_holds [OF f] p q by auto
  have "holds g p xs" "\<And>q. q \<in> src \<Longrightarrow> holds g q ys" using p q t g(5) by (metis holds_def)+
  then obtain h' zs where k: "kern p ?t g = Inr h'" "evolves {?t} g h'" "fresh h'" "holds h' ?t zs" "canonical zs" "digits_val zs = result (digits_val xs) (digits_val ys)"
    using kern_fresh [of g p xs ys ?t d] a g(2,3,6) sz(1) t by metis
  moreover have "made h ?t zs h'"
  proof -
    obtain d' where "mem h' ?t = Some d'" "references d' = references d" using evolves_size [OF k(2) g(2)] by blast
    then show ?thesis using k(2-4) g(4,5) by (simp add: made_def evolves_def)
  qed
  ultimately show ?thesis using g(1) by (auto simp: new_result_def)
qed

lemma replace_shared_moved:
  assumes p: "holds h p xs" and q: "\<And>q. q \<in> src \<Longrightarrow> holds h q ys" and a: "arg ys" "canonical xs" "canonical ys" "ok (digits_val xs) (digits_val ys)"
    and f: "fresh h" and sz: "room (length xs) (length ys) \<le> unat sz" "sz \<noteq> 0" and d: "mem h p = Some e" "references e \<noteq> 1"
  shows "\<exists>p' h' zs. replace_shared kern p sz h = Inr (p', h') \<and> moved h p p' zs h' \<and> canonical zs \<and> digits_val zs = result (digits_val xs) (digits_val ys)"
proof -
  let ?t = "next_addr h" and ?e = "e \<lparr> references := references e - 1 \<rparr>"
  obtain d g where g: "new_record sz h = Inr (?t, g)" "mem g ?t = Some d" "length (number d) = unat sz" "references d = 1"
    "\<And>q. q \<noteq> ?t \<Longrightarrow> mem g q = mem h q" "next_addr g = ?t + 1" "fresh g" using new_record_ok [OF f sz(2)] by metis
  have t: "p \<noteq> ?t" "?t \<notin> src" using fresh_holds [OF f] p q by auto
  let ?g = "put_record p ?e g"
  have r: "release p g = Inr ?g" using g(5) [OF t(1)] d(1) by (simp add: release_def fetch_def)
  have "mem ?g q = (if q = p then Some ?e else mem h q)" if "q \<noteq> ?t" for q using that g(5) by simp
  then have "holds ?g w ws" if "w \<noteq> ?t" "holds h w ws" for w ws using that d(1) by (auto simp: holds_def)
  then have "holds ?g p xs" "\<And>q. q \<in> src \<Longrightarrow> holds ?g q ys" using p q t by metis+
  moreover have "fresh ?g" "mem ?g ?t = Some d" using g(2) g(5) [OF t(1)] fresh_put [OF g(7)] d(1) t(1) by auto
  ultimately obtain h' zs where k: "kern p ?t ?g = Inr h'" "evolves {?t} ?g h'" "fresh h'" "holds h' ?t zs" "canonical zs"
    "digits_val zs = result (digits_val xs) (digits_val ys)" using kern_fresh [of ?g p xs ys ?t d] a g(3) sz(1) t by metis
  moreover have "moved h p ?t zs h'"
  proof -
    obtain d' where "mem h' ?t = Some d'" "references d' = references d" using evolves_size [OF k(2) \<open>mem ?g ?t = Some d\<close>] by blast
    moreover have "mem h' p = Some ?e" "\<And>q. q \<noteq> p \<Longrightarrow> q \<noteq> ?t \<Longrightarrow> mem h' q = mem h q" using k(2) t(1) g(5) by (simp_all add: evolves_def)
    ultimately show ?thesis using k(3,4) g(4) d by (simp add: moved_def)
  qed
  ultimately show ?thesis using g(1) r by (auto simp: replace_shared_def)
qed

lemma replace_small_moved:
  assumes p: "holds h p xs" and q: "\<And>q. q \<in> src \<Longrightarrow> holds h q ys" and a: "arg ys" "canonical xs" "canonical ys" "ok (digits_val xs) (digits_val ys)"
    and f: "fresh h" and sz: "room (length xs) (length ys) \<le> unat sz" "sz \<noteq> 0" and d: "mem h p = Some e" "references e = 1"
  shows "\<exists>p' h' zs. replace_small kern p sz h = Inr (p', h') \<and> moved h p p' zs h' \<and> canonical zs \<and> digits_val zs = result (digits_val xs) (digits_val ys)"
proof -
  obtain p' h' zs where m: "new_result kern p sz h = Inr (p', h')" "made h p' zs h'" "canonical zs" "digits_val zs = result (digits_val xs) (digits_val ys)"
    using new_result_made [OF p q a f sz] by blast
  let ?h = "h' \<lparr> mem := (mem h')(p := None) \<rparr>"
  have p': "p' = next_addr h" "p \<noteq> p'" using m(2) fresh_holds [OF f p] by (auto simp: made_def)
  have "mem h' p = Some e" using m(2) d(1) p'(2) by (simp add: made_def)
  then have del: "delete_record p h' = Inr ?h" by (simp add: delete_record_def fetch_def)
  have "moved h p p' zs ?h" using m(2) p' d unfolding moved_def made_def by (simp add: holds_def fresh_def)
  moreover have "replace_small kern p sz h = c_bind (new_result kern p sz h) (\<lambda>(temp, h). c_bind (delete_record p h) (\<lambda>h. Inr (temp, h)))"
    by (simp add: replace_small_def new_result_def c_bind_def split: sum.splits prod.splits)
  ultimately show ?thesis using m del by auto
qed

end

text \<open>The functions that may also change a record in place.\<close>

locale in_place_operation = digit_operation +
  assumes kern_in_place: "\<lbrakk> holds h p xs; \<And>q. q \<in> src \<Longrightarrow> holds h q ys; arg ys; canonical xs; canonical ys; ok (digits_val xs) (digits_val ys);
      mem h p = Some d; room (length xs) (length ys) \<le> length (number d); fresh h \<rbrakk> \<Longrightarrow>
      \<exists>h' zs. kern p p h = Inr h' \<and> evolves {p} h h' \<and> fresh h' \<and> holds h' p zs \<and> canonical zs \<and> digits_val zs = result (digits_val xs) (digits_val ys)"
begin

lemma copy_on_write:
  assumes p: "holds h p xs" and q: "\<And>q. q \<in> src \<Longrightarrow> holds h q ys" and a: "arg ys" "canonical xs" "canonical ys" "ok (digits_val xs) (digits_val ys)"
    and f: "fresh h" and sz: "room (length xs) (length ys) \<le> unat sz" "sz \<noteq> 0" and d: "mem h p = Some e"
    and small: "\<not> small \<Longrightarrow> room (length xs) (length ys) \<le> length (number e)"
  shows "\<exists>p' h' zs. (if references e \<noteq> 1 then replace_shared kern p sz h else if small then replace_small kern p sz h
      else change_in_place kern p h) = Inr (p', h') \<and> moved h p p' zs h' \<and> canonical zs \<and> digits_val zs = result (digits_val xs) (digits_val ys)"
proof (cases "references e = 1 \<and> \<not> small")
  case True
  then obtain h' zs where k: "kern p p h = Inr h'" "evolves {p} h h'" "fresh h'" "holds h' p zs" "canonical zs" "digits_val zs = result (digits_val xs) (digits_val ys)"
    using kern_in_place [OF p q a d small f] by blast
  obtain e' where "mem h' p = Some e'" "references e' = references e" using evolves_size [OF k(2) d] by blast
  then have "moved h p p zs h'" using k(2-4) d True by (simp add: moved_def evolves_def)
  then show ?thesis using k True by (auto simp: change_in_place_def)
next
  case False
  then show ?thesis using replace_shared_moved [OF p q a f sz d] replace_small_moved [OF p q a f sz d] by auto
qed

end

text \<open>The number of digits of a number.\<close>

fun ndigits :: "nat \<Rightarrow> nat" where
  "ndigits n = (if n < 65536 then 1 else Suc (ndigits (n div 65536)))"

declare ndigits.simps [simp del]

lemma canonical_ndigits: "canonical xs \<Longrightarrow> length xs = ndigits (digits_val xs)"
proof (induction xs)
  case (Cons x xs)
  show ?case
  proof (cases "xs = []")
    case True
    then show ?thesis using unat_digit [of x] by (simp add: ndigits.simps)
  next
    case False
    then have c: "canonical xs" using Cons.prems by (auto simp: canonical_def)
    have "last xs \<noteq> 0" using Cons.prems False by (auto simp: canonical_def)
    then have "0 < digits_val xs" using val_butlast [OF False] by (simp add: unat_gt_0)
    then have "\<not> digits_val (x # xs) < 65536" "digits_val (x # xs) div 65536 = digits_val xs" using unat_digit [of x] by simp_all
    then show ?thesis using Cons.IH [OF c] ndigits.simps [of "digits_val (x # xs)"] by simp
  qed
qed (simp add: canonical_def)

text \<open>A subtraction that loses at most one digit.\<close>

definition loses_one :: "nat \<Rightarrow> nat \<Rightarrow> bool" where
  "loses_one m n \<longleftrightarrow> n \<le> m \<and> ndigits m \<le> Suc (ndigits (m - n))"

subsection \<open>The private functions provide it\<close>

text \<open>What the functions give that write their result into one record.\<close>

lemma op_store:
  assumes "op = Inr (put_record r (stored ws k d) h)" "0 < k" "k \<le> length ws" "length ws \<le> length (number d)" "mem h r = Some d" "fresh h"
    "canonical (take k ws)" "digits_val (take k ws) = n"
  shows "\<exists>h' zs. op = Inr h' \<and> evolves {r} h h' \<and> fresh h' \<and> holds h' r zs \<and> canonical zs \<and> digits_val zs = n"
proof -
  have l: "length (number (stored ws k d)) = length (number d)" using assms(4) by (simp add: stored_def)
  show ?thesis using assms put_store [OF assms(5,2-4) fresh_size [OF assms(6,5)]] fresh_put [OF assms(6,5) l] by blast
qed

lemma op_store_all:
  assumes "op = Inr (put_record r (stored ws (length ws) d) h)" "length ws \<le> length (number d)" "mem h r = Some d" "fresh h"
    "canonical ws" "digits_val ws = n"
  shows "\<exists>h' zs. op = Inr h' \<and> evolves {r} h h' \<and> fresh h' \<and> holds h' r zs \<and> canonical zs \<and> digits_val zs = n"
  using op_store [OF assms(1) _ order_refl assms(2-4)] assms(5,6) by (simp add: canonical_def)

text \<open>A function that satisfies the law whatever the destination is.\<close>

lemma in_place_operationI:
  assumes "\<And>h p xs ys r d. \<lbrakk> holds h p xs; \<And>q. q \<in> src \<Longrightarrow> holds h q ys; arg ys; canonical xs; canonical ys; ok (digits_val xs) (digits_val ys);
      mem h r = Some d; room (length xs) (length ys) \<le> length (number d); fresh h \<rbrakk> \<Longrightarrow>
      \<exists>h' zs. kern p r h = Inr h' \<and> evolves {r} h h' \<and> fresh h' \<and> holds h' r zs \<and> canonical zs \<and> digits_val zs = result (digits_val xs) (digits_val ys)"
  shows "in_place_operation kern src arg room ok result"
proof (unfold_locales, goal_cases)
  case (1 h p xs ys r d)
  show ?case by (rule assms) (use 1 in auto)
next
  case (2 h p xs ys d)
  show ?case by (rule assms) (use 2 in auto)
qed

interpretation short_adding: in_place_operation "\<lambda>p r. short_add p v r" "{}" "\<lambda>ys. ys = [v]" "\<lambda>m n. Suc m" "\<lambda>m n. True" "(+)" for v
proof (rule in_place_operationI, goal_cases)
  case (1 h p xs ys r d)
  then obtain ws where "short_add p v r h = Inr (put_record r (stored ws (length ws) d) h)" "digits_val ws = digits_val xs + unat v" "length ws \<le> Suc (length xs)" "canonical ws"
    using short_add_ok [of h p xs r d v] by auto
  then show ?case using 1 by (intro op_store_all [of _ r ws d h]) auto
qed

interpretation short_subtracting: in_place_operation "\<lambda>p r. short_sub p v r" "{}" "\<lambda>ys. ys = [v]" "\<lambda>m n. m" "\<lambda>m n. n \<le> m" "(-)" for v
proof (rule in_place_operationI, goal_cases)
  case (1 h p xs ys r d)
  then obtain zs k where "short_sub p v r h = Inr (put_record r (stored zs k d) h)" "length zs = length xs" "0 < k" "k \<le> length xs"
    "digits_val (take k zs) = digits_val xs - unat v" "canonical (take k zs)" using short_sub_ok [of h p xs r d v] by auto
  then show ?case using 1 by (intro op_store [of _ r zs k d h]) auto
qed

interpretation short_multiplying: in_place_operation "\<lambda>p r. short_mul p v r" "{}" "\<lambda>ys. ys = [v]" "\<lambda>m n. Suc m" "\<lambda>m n. n \<noteq> 0 \<or> m < 65536" "(*)" for v
proof (rule in_place_operationI, goal_cases)
  case (1 h p xs ys r d)
  then have "v \<noteq> 0 \<or> length xs = 1" using canonical_ndigits [of xs] by (auto simp: ndigits.simps)
  then obtain ws where "short_mul p v r h = Inr (put_record r (stored ws (length ws) d) h)" "digits_val ws = digits_val xs * unat v" "length ws \<le> Suc (length xs)" "canonical ws"
    using short_mul_ok [of h p xs r d v] 1 by auto
  then show ?case using 1 by (intro op_store_all [of _ r ws d h]) auto
qed

interpretation short_dividing: in_place_operation "short_quotient v" "{}" "\<lambda>ys. ys = [v]" "\<lambda>m n. m" "\<lambda>m n. n \<noteq> 0" "(div)" for v
proof (rule in_place_operationI, goal_cases)
  case (1 h p xs ys r d)
  then have "v \<noteq> 0" by auto
  then obtain x zs k where "short_div p v r h = Inr (x, put_record r (stored zs k d) h)" "length zs = length xs" "0 < k" "k \<le> length xs"
    "digits_val (take k zs) = digits_val xs div unat v" "canonical (take k zs)" using short_div_ok [of h p xs r d v] 1 by auto
  then show ?case using 1 by (intro op_store [of _ r zs k d h]) (auto simp: short_quotient_def)
qed

interpretation incrementing: in_place_operation increment "{}" "\<lambda>ys. ys = [1]" "\<lambda>m n. Suc m" "\<lambda>m n. True" "(+)"
proof (rule in_place_operationI, goal_cases)
  case (1 h p xs ys r d)
  then obtain ws where "increment p r h = Inr (put_record r (stored ws (length ws) d) h)" "digits_val ws = digits_val xs + 1" "length ws \<le> Suc (length xs)" "canonical ws"
    using increment_ok [of h p xs r d] by auto
  then show ?case using 1 by (intro op_store_all [of _ r ws d h]) auto
qed

interpretation decrementing: in_place_operation decrement "{}" "\<lambda>ys. ys = [1]" "\<lambda>m n. m" "\<lambda>m n. n \<le> m" "(-)"
proof (rule in_place_operationI, goal_cases)
  case (1 h p xs ys r d)
  then obtain zs k where "decrement p r h = Inr (put_record r (stored zs k d) h)" "length zs = length xs" "0 < k" "k \<le> length xs"
    "digits_val (take k zs) = digits_val xs - 1" "canonical (take k zs)" using decrement_ok [of h p xs r d] by auto
  then show ?case using 1 by (intro op_store [of _ r zs k d h]) auto
qed

interpretation long_adding: in_place_operation "\<lambda>p r. long_add p q r" "{q}" "\<lambda>ys. True" "\<lambda>m n. Suc (max m n)" "\<lambda>m n. True" "(+)" for q
proof (rule in_place_operationI, goal_cases)
  case (1 h p xs ys r d)
  then obtain ws where "long_add p q r h = Inr (put_record r (stored ws (length ws) d) h)" "digits_val ws = digits_val xs + digits_val ys"
    "length ws \<le> Suc (max (length xs) (length ys))" "canonical ws" using long_add_ok [of h p xs q ys r d] by (auto simp: Suc_le_eq)
  then show ?case using 1 by (intro op_store_all [of _ r ws d h]) auto
qed

interpretation long_multiplying: digit_operation "\<lambda>p r. long_mul p q r" "{q}" "\<lambda>ys. True" "\<lambda>m n. Suc (m + n)"
  "\<lambda>m n. ndigits m < 2 ^ 27 \<and> ndigits n < 2 ^ 27" "(*)" for q
proof (unfold_locales, goal_cases)
  case (1 h p xs ys r d)
  then show ?case using long_mul_ok [of h p xs q ys r d] by (auto simp: canonical_ndigits)
qed

lemma ndigits_low: "k \<le> ndigits n \<Longrightarrow> 1 < k \<Longrightarrow> 65536 ^ (k - 1) \<le> n"
proof (induction n arbitrary: k rule: ndigits.induct)
  case (1 n)
  show ?case
  proof (cases "n < 65536")
    case True
    then show ?thesis using "1.prems" by (simp add: ndigits.simps [of n])
  next
    case False
    then have k: "k - 1 \<le> ndigits (n div 65536)" using "1.prems" by (simp add: ndigits.simps [of n])
    have "65536 ^ (k - 2) \<le> n div 65536"
    proof (cases "k = 2")
      case False
      then have "65536 ^ (k - 1 - 1) \<le> n div 65536" using "1.IH" [OF \<open>\<not> n < 65536\<close> k] "1.prems"(2) by simp
      then show ?thesis by (simp add: numeral_2_eq_2)
    qed (use \<open>\<not> n < 65536\<close> in \<open>simp add: Suc_leI div_greater_zero_iff\<close>)
    then have "65536 * 65536 ^ (k - 2) \<le> n" by linarith
    moreover have "k - 1 = Suc (k - 2)" using "1.prems"(2) by simp
    ultimately show ?thesis by (simp only: power_Suc)
  qed
qed

interpretation long_subtracting: in_place_operation "\<lambda>p r. long_sub p q r" "{q}" "\<lambda>ys. True" "\<lambda>m n. m" loses_one "(-)" for q
proof (rule in_place_operationI, goal_cases)
  case (1 h p xs ys r d)
  then have le: "digits_val ys \<le> digits_val xs" "length xs \<le> Suc (ndigits (digits_val xs - digits_val ys))" by (simp_all add: loses_one_def canonical_ndigits)
  have "length ys \<le> length xs" using val_shorter [of ys xs] 1(4,5) le(1) by (auto simp: canonical_def not_le [symmetric])
  then obtain zs k where k: "long_sub p q r h = Inr (put_record r (stored zs k d) h)" "length zs = length xs" "0 < k" "k \<le> length xs" "length xs \<le> Suc k"
    "digits_val (take k zs) = digits_val xs - digits_val ys" "k < length xs \<longleftrightarrow> last zs = 0 \<and> length xs \<noteq> 1" using long_sub_ok [of h p xs q ys r d] 1 le(1) by auto
  have "canonical (take k zs)"
  proof (cases "k = length xs")
    case True
    then show ?thesis using k by (auto simp: canonical_def)
  next
    case False
    then have "k \<le> ndigits (digits_val xs - digits_val ys)" using le(2) k(4) by simp
    then have "k = 1 \<or> 65536 ^ (k - 1) \<le> digits_val xs - digits_val ys" using ndigits_low k(3) by (cases "k = 1") simp_all
    then show ?thesis using k by (intro canonicalI) auto
  qed
  then show ?case using 1 k by (intro op_store [of _ r zs k d h]) auto
qed

text \<open>The remainder takes the place of the quotient.\<close>

interpretation short_reducing: in_place_operation "short_remainder v" "{}" "\<lambda>ys. ys = [v]" "\<lambda>m n. m" "\<lambda>m n. n \<noteq> 0" "(mod)" for v
proof (rule in_place_operationI, goal_cases)
  case (1 h p xs ys r d)
  then have v: "v \<noteq> 0" by auto
  then obtain zs k where k: "short_div p v r h = Inr (of_nat (digits_val xs mod unat v), put_record r (stored zs k d) h)" "length zs = length xs"
    using short_div_ok [of h p xs r d v] 1 by auto
  let ?x = "of_nat (digits_val xs mod unat v) :: u16"
  have "0 < length xs" using 1(4) by (simp add: canonical_def)
  then have "wr r 0 ?x (put_record r (stored zs 1 d) h) = Inr (put_record r (stored (?x # tl zs) 1 d) h)"
    using k(2) 1(8) by (cases zs; cases d) (auto simp: wr_def stored_def over_def)
  then have "short_remainder v p r h = Inr (put_record r (stored (?x # tl zs) 1 d) h)"
    using k(1) by (simp add: short_remainder_def set_used_def stored_def)
  moreover have "unat ?x = digits_val xs mod unat v"
  proof -
    have "digits_val xs mod unat v < 65536" using v unat_digit [of v] mod_less_divisor [of "unat v" "digits_val xs"] by (simp add: unat_gt_0 del: mod_less_divisor)
    then show ?thesis by (simp add: unat_of_nat)
  qed
  ultimately show ?case using 1 k(2) \<open>0 < length xs\<close> by (intro op_store [of _ r "?x # tl zs" 1 d h]) (auto simp: canonical_def Suc_leI)
qed

subsection \<open>What the operators give\<close>

text \<open>An object whose record holds a number in canonical form.\<close>

definition object_at :: "digit_heap \<Rightarrow> nat \<Rightarrow> nat \<Rightarrow> bool" where
  "object_at h p n \<longleftrightarrow> (\<exists>xs. holds h p xs \<and> canonical xs \<and> digits_val xs = n)"

definition makes :: "(digit_heap \<Rightarrow> (nat \<times> digit_heap) c) \<Rightarrow> digit_heap \<Rightarrow> nat \<Rightarrow> bool" where
  "makes op h n \<longleftrightarrow> (\<exists>p h' zs. op h = Inr (p, h') \<and> made h p zs h' \<and> canonical zs \<and> digits_val zs = n)"

definition moves :: "(digit_heap \<Rightarrow> (nat \<times> digit_heap) c) \<Rightarrow> digit_heap \<Rightarrow> nat \<Rightarrow> nat \<Rightarrow> bool" where
  "moves op h p n \<longleftrightarrow> (\<exists>p' h' zs. op h = Inr (p', h') \<and> moved h p p' zs h' \<and> canonical zs \<and> digits_val zs = n)"

lemma object_atE:
  assumes "object_at h p n"
  obtains xs d where "holds h p xs" "canonical xs" "digits_val xs = n" "fetch h p = Inr d" "mem h p = Some d" "unat (digits_used d) = length xs"
    "length xs \<le> length (number d)" "length xs = ndigits n"
  using assms canonical_ndigits unfolding object_at_def by (metis holds_fetch)

lemma single_digit: "canonical [v]" "digits_val [v] = unat v"
  by (simp_all add: canonical_def)

text \<open>The sizes of new records do not wrap around for numbers of fewer than \<open>2 ^ 27\<close> digits.\<close>

definition fits :: "nat \<Rightarrow> bool" where
  "fits n \<longleftrightarrow> ndigits n < 2 ^ 27"

lemma size_slack:
  fixes x y :: u32
  assumes "unat x < 2 ^ 27" "unat y < 2 ^ 27"
  shows "unat (x + slack) = unat x + 25" "x + slack \<noteq> 0" "unat (max x y + slack) = max (unat x) (unat y) + 25" "max x y + slack \<noteq> 0"
    "unat (x + y + slack) = unat x + unat y + 25" "x + y + slack \<noteq> 0"
proof -
  have s: "unat (z + slack) = unat z + 25" if "unat z < 2 ^ 28" for z :: u32 using that by (simp add: unat_word_ariths)
  have m: "unat (max x y) = max (unat x) (unat y)" by (simp add: max_def word_le_nat_alt)
  have a: "unat (x + y) = unat x + unat y" using assms by (simp add: unat_word_ariths)
  show 1: "unat (x + slack) = unat x + 25" "unat (max x y + slack) = max (unat x) (unat y) + 25" "unat (x + y + slack) = unat x + unat y + 25"
    using s [of x] s [of "max x y"] s [of "x + y"] assms m a by simp_all
  show "x + slack \<noteq> 0" "max x y + slack \<noteq> 0" "x + y + slack \<noteq> 0" using 1 by (metis add_is_0 unat_0 zero_neq_numeral)+
qed

lemma makes_uint16:
  assumes o: "object_at h p m" and f: "fresh h" and n: "fits m"
  shows "makes (bigint_plus_uint16 p v) h (m + unat v)"
    "unat v \<le> m \<Longrightarrow> makes (bigint_minus_uint16 p v) h (m - unat v)"
    "v \<noteq> 0 \<or> m < 65536 \<Longrightarrow> makes (bigint_times_uint16 p v) h (m * unat v)"
    "v \<noteq> 0 \<Longrightarrow> makes (bigint_divide_uint16 p v) h (m div unat v)"
    "v \<noteq> 0 \<Longrightarrow> makes (bigint_mod_uint16 p v) h (m mod unat v)"
proof -
  obtain xs d where x: "holds h p xs" "canonical xs" "digits_val xs = m" "fetch h p = Inr d" "unat (digits_used d) = length xs"
    using o by (blast elim: object_atE)
  note s = refl x(2) single_digit(1)
  have u: "unat (digits_used d) < 2 ^ 27" using n x canonical_ndigits [OF x(2)] by (simp add: fits_def)
  note z = size_slack(1,2) [OF u u]
  show "makes (bigint_plus_uint16 p v) h (m + unat v)"
    using short_adding.new_result_made [OF x(1) _ s _ f, of v "digits_used d + slack"] x z by (simp add: makes_def bigint_plus_uint16_def)
  show "makes (bigint_minus_uint16 p v) h (m - unat v)" if "unat v \<le> m"
    using short_subtracting.new_result_made [OF x(1) _ s _ f, of v "digits_used d + slack"] x z that by (simp add: makes_def bigint_minus_uint16_def)
  show "makes (bigint_times_uint16 p v) h (m * unat v)" if "v \<noteq> 0 \<or> m < 65536"
    using short_multiplying.new_result_made [OF x(1) _ s _ f, of v "digits_used d + slack"] x z that by (simp add: makes_def bigint_times_uint16_def unat_gt_0)
  show "makes (bigint_divide_uint16 p v) h (m div unat v)" if "v \<noteq> 0"
    using short_dividing.new_result_made [OF x(1) _ s _ f, of v "digits_used d + slack"] x z that by (simp add: makes_def bigint_divide_uint16_def unat_gt_0)
  show "makes (bigint_mod_uint16 p v) h (m mod unat v)" if "v \<noteq> 0"
    using short_reducing.new_result_made [OF x(1) _ s _ f, of v "digits_used d + slack"] x z that by (simp add: makes_def bigint_mod_uint16_def unat_gt_0)
qed

lemma moves_uint16:
  assumes o: "object_at h p m" and f: "fresh h" and n: "fits m"
  shows "moves (bigint_plus_assign_uint16 p v) h p (m + unat v)"
    "unat v \<le> m \<Longrightarrow> moves (bigint_minus_assign_uint16 p v) h p (m - unat v)"
    "v \<noteq> 0 \<or> m < 65536 \<Longrightarrow> moves (bigint_times_assign_uint16 p v) h p (m * unat v)"
    "v \<noteq> 0 \<Longrightarrow> moves (bigint_divide_assign_uint16 p v) h p (m div unat v)"
    "v \<noteq> 0 \<Longrightarrow> moves (bigint_mod_assign_uint16 p v) h p (m mod unat v)"
    "moves (bigint_increment p) h p (m + 1)"
    "1 \<le> m \<Longrightarrow> moves (bigint_decrement p) h p (m - 1)"
proof -
  obtain xs d where x: "holds h p xs" "canonical xs" "digits_val xs = m" "fetch h p = Inr d" "mem h p = Some d" "unat (digits_used d) = length xs"
    "length xs \<le> length (number d)" using o by (blast elim: object_atE)
  note s = refl x(2) single_digit(1)
  have u: "unat (digits_used d) < 2 ^ 27" using n x canonical_ndigits [OF x(2)] by (simp add: fits_def)
  note z = size_slack(1,2) [OF u u]
  show "moves (bigint_plus_assign_uint16 p v) h p (m + unat v)"
    using short_adding.copy_on_write [OF x(1) _ s _ f _ _ x(5), of v "digits_used d + slack" "length xs = length (number d)"] x z
    by (simp add: moves_def bigint_plus_assign_uint16_def Let_def split del: if_split cong: if_cong)
  show "moves (bigint_minus_assign_uint16 p v) h p (m - unat v)" if "unat v \<le> m"
    using short_subtracting.copy_on_write [OF x(1) _ s _ f _ _ x(5), of v "digits_used d + slack" False] x z that
    by (simp add: moves_def bigint_minus_assign_uint16_def Let_def split del: if_split cong: if_cong)
  show "moves (bigint_times_assign_uint16 p v) h p (m * unat v)" if "v \<noteq> 0 \<or> m < 65536"
    using short_multiplying.copy_on_write [OF x(1) _ s _ f _ _ x(5), of v "digits_used d + slack" "length xs = length (number d)"] x z that
    by (simp add: moves_def bigint_times_assign_uint16_def Let_def unat_gt_0 split del: if_split cong: if_cong)
  show "moves (bigint_divide_assign_uint16 p v) h p (m div unat v)" if "v \<noteq> 0"
    using short_dividing.copy_on_write [OF x(1) _ s _ f _ _ x(5), of v "digits_used d + slack" False] x z that
    by (simp add: moves_def bigint_divide_assign_uint16_def unat_gt_0 split del: if_split cong: if_cong)
  show "moves (bigint_mod_assign_uint16 p v) h p (m mod unat v)" if "v \<noteq> 0"
    using short_reducing.copy_on_write [OF x(1) _ s _ f _ _ x(5), of v "digits_used d + slack" False] x z that
    by (simp add: moves_def bigint_mod_assign_uint16_def unat_gt_0 split del: if_split cong: if_cong)
  show "moves (bigint_increment p) h p (m + 1)"
    using incrementing.copy_on_write [OF x(1) _ s _ f _ _ x(5), of "digits_used d + slack" "length xs = length (number d)"] x z
    by (simp add: moves_def bigint_increment_def split del: if_split cong: if_cong)
  show "moves (bigint_decrement p) h p (m - 1)" if "1 \<le> m"
    using decrementing.copy_on_write [OF x(1) _ s _ f _ _ x(5), of "digits_used d + slack" False] x z that
    by (simp add: moves_def bigint_decrement_def split del: if_split cong: if_cong)
qed

lemma makes_two:
  assumes o: "object_at h p m" "object_at h q n" and f: "fresh h" and l: "fits m" "fits n"
  shows "makes (bigint_plus p q) h (m + n)" "loses_one m n \<Longrightarrow> makes (bigint_minus p q) h (m - n)" "makes (bigint_times p q) h (m * n)"
proof -
  obtain xs d where x: "holds h p xs" "canonical xs" "digits_val xs = m" "fetch h p = Inr d" "unat (digits_used d) = length xs"
    using o(1) by (blast elim: object_atE)
  obtain ys e where y: "holds h q ys" "canonical ys" "digits_val ys = n" "fetch h q = Inr e" "unat (digits_used e) = length ys"
    using o(2) by (blast elim: object_atE)
  note s = TrueI x(2) y(2)
  have u: "unat (digits_used d) < 2 ^ 27" "unat (digits_used e) < 2 ^ 27" using l x y canonical_ndigits [OF x(2)] canonical_ndigits [OF y(2)] by (simp_all add: fits_def)
  note z = size_slack [OF u] size_slack(3,4) [OF u(2,1)]
  have nd: "ndigits m < 2 ^ 27" "ndigits n < 2 ^ 27" using l by (simp_all add: fits_def)
  show "makes (bigint_plus p q) h (m + n)"
    using long_adding.new_result_made [OF x(1) _ s _ f, of q "max (digits_used e) (digits_used d) + slack"] x y z by (simp add: makes_def bigint_plus_def max.commute)
  show "makes (bigint_minus p q) h (m - n)" if "loses_one m n"
    using long_subtracting.new_result_made [OF x(1) _ s _ f, of q "digits_used d + slack"] x y z that by (simp add: makes_def bigint_minus_def)
  show "makes (bigint_times p q) h (m * n)"
    using long_multiplying.new_result_made [OF x(1) _ s _ f, of q "digits_used d + digits_used e + slack"] x y z nd by (simp add: makes_def bigint_times_def)
qed

lemma made_drop_moved:
  assumes "made h p' zs h1" "mem h p = Some d" "fresh h" "references d \<noteq> 0"
  shows "\<exists>h'. drop_old p h1 = Inr h' \<and> moved h p p' zs h'"
proof -
  have n: "p \<noteq> p'" "p' = next_addr h" using assms(1-3) by (auto simp: made_def fresh_def)
  have p: "mem h1 p = Some d" using assms(1,2) n by (simp add: made_def)
  show ?thesis
  proof (cases "references d = 1")
    case True
    let ?h = "h1 \<lparr> mem := (mem h1)(p := None) \<rparr>"
    have "moved h p p' zs ?h" using assms(1,2) n True unfolding moved_def made_def by (simp add: holds_def fresh_def)
    then show ?thesis using p True by (simp add: drop_old_def delete_record_def fetch_def)
  next
    case False
    let ?d = "d \<lparr> references := references d - 1 \<rparr>"
    have "moved h p p' zs (put_record p ?d h1)"
      using assms(1,2) n False fresh_put [OF _ p] unfolding moved_def made_def by (simp add: holds_other)
    then show ?thesis using p False by (simp add: drop_old_def release_def fetch_def)
  qed
qed

lemma moves_two:
  assumes o: "object_at h p m" "object_at h q n" and f: "fresh h" and r: "mem h p = Some d" "references d \<noteq> 0" and l: "fits m" "fits n"
  shows "moves (bigint_plus_assign p q) h p (m + n)" "loses_one m n \<Longrightarrow> moves (bigint_minus_assign p q) h p (m - n)"
    "moves (bigint_times_assign p q) h p (m * n)"
proof -
  obtain xs where x: "holds h p xs" "canonical xs" "digits_val xs = m" "fetch h p = Inr d" "mem h p = Some d" "unat (digits_used d) = length xs"
    "length xs \<le> length (number d)" using o(1) r(1) by (auto elim: object_atE)
  obtain ys e where y: "holds h q ys" "canonical ys" "digits_val ys = n" "fetch h q = Inr e" "unat (digits_used e) = length ys"
    using o(2) by (blast elim: object_atE)
  note s = TrueI x(2) y(2)
  let ?n = "max (digits_used d) (digits_used e)"
  have u: "unat (digits_used d) < 2 ^ 27" "unat (digits_used e) < 2 ^ 27" using l x y canonical_ndigits [OF x(2)] canonical_ndigits [OF y(2)] by (simp_all add: fits_def)
  note z = size_slack [OF u] size_slack(5,6) [OF u(2,1)]
  have nd: "ndigits m < 2 ^ 27" "ndigits n < 2 ^ 27" using l by (simp_all add: fits_def)
  have mx: "unat ?n = max (length xs) (length ys)" using x(6) y(5) by (simp add: max_def word_le_nat_alt)
  show "moves (bigint_plus_assign p q) h p (m + n)"
    using long_adding.copy_on_write [OF x(1) _ s _ f _ _ x(5), of q "?n + slack" "length (number d) \<le> unat ?n"] x y z mx
    by (simp add: moves_def bigint_plus_assign_def Let_def split del: if_split cong: if_cong)
  show "moves (bigint_minus_assign p q) h p (m - n)" if "loses_one m n"
    using long_subtracting.copy_on_write [OF x(1) _ s _ f _ _ x(5), of q "digits_used d + slack" False] x y z that
    by (simp add: moves_def bigint_minus_assign_def Let_def split del: if_split cong: if_cong)
  obtain p' h1 zs where m: "new_result (\<lambda>p r. long_mul p q r) p (digits_used e + digits_used d + slack) h = Inr (p', h1)" "made h p' zs h1"
    "canonical zs" "digits_val zs = m * n"
    using long_multiplying.new_result_made [OF x(1) _ s _ f, of q "digits_used e + digits_used d + slack"] x y z nd by auto
  then show "moves (bigint_times_assign p q) h p (m * n)"
    using made_drop_moved [OF m(2) r(1) f r(2)] x y by (auto simp: moves_def bigint_times_assign_def)
qed

text \<open>The operators that fill a new record themselves.\<close>

lemma made_new:
  assumes "fresh h" "sz \<noteq> 0"
  obtains g where "new_record sz h = Inr (next_addr h, g)" "made h (next_addr h) [0] g"
proof -
  obtain d g where g: "new_record sz h = Inr (next_addr h, g)" "mem g (next_addr h) = Some d" "references d = 1"
    "\<And>q. q \<noteq> next_addr h \<Longrightarrow> mem g q = mem h q" "fresh g" "holds g (next_addr h) [0]" using new_record_ok [OF assms] by metis
  then show thesis by (intro that [of g]) (simp_all add: made_def)
qed

lemma made_write: "made h p [y] g \<Longrightarrow> \<exists>g'. wr p 0 x g = Inr g' \<and> made h p [x] g'"
proof -
  assume m: "made h p [y] g"
  then obtain d where d: "mem g p = Some d" "unat (digits_used d) = 1" "1 \<le> length (number d)" "references d = 1" "fresh g"
    by (auto simp: made_def holds_def)
  then have "wr p 0 x g = Inr (put_record p (over 0 [x] d) g)" by (intro wr_first) linarith+
  moreover have "holds (put_record p (over 0 [x] d) g) p [x]" using d by (simp add: holds_def over_def)
  ultimately show ?thesis using m d fresh_put [OF d(5,1)] by (auto simp: made_def)
qed

lemma made_fetch: "made h t ws g \<Longrightarrow> fresh h \<Longrightarrow> holds h p xs \<Longrightarrow> fetch g p = fetch h p \<and> holds g p xs"
  using fresh_holds [of h p xs] by (auto simp: made_def fetch_def holds_def)

lemma makes_new: "fresh h \<Longrightarrow> makes bigint_new h 0"
proof -
  assume "fresh h"
  then obtain g where "new_record slack h = Inr (next_addr h, g)" "made h (next_addr h) [0] g" using made_new [of h slack] by auto
  then show ?thesis using single_digit [of 0] by (auto simp: makes_def bigint_new_def)
qed

lemma makes_from_uint16:
  assumes o: "object_at h p m" and f: "fresh h"
  shows "m \<le> unat v \<Longrightarrow> makes (uint16_minus_bigint v p) h (unat v - m)"
    "0 < m \<Longrightarrow> makes (uint16_divide_bigint v p) h (unat v div m)"
    "0 < m \<Longrightarrow> makes (uint16_mod_bigint v p) h (unat v mod m)"
proof -
  let ?t = "next_addr h"
  obtain xs d where x: "holds h p xs" "canonical xs" "digits_val xs = m" "fetch h p = Inr d" "unat (digits_used d) = length xs" "length xs = ndigits m"
    using o by (blast elim: object_atE)
  obtain g where g: "new_record slack h = Inr (?t, g)" "made h ?t [0] g" using made_new [OF f, of slack] by auto
  note e = made_fetch [OF g(2) f x(1)]
  have w: "makes (\<lambda>h. c_bind (wr ?t 0 y g) (\<lambda>h. Inr (?t, h))) h (unat y)" for y
    using made_write [OF g(2), of y] single_digit [of y] unfolding makes_def by fastforce
  have z: "makes (\<lambda>h. Inr (?t, g)) h 0" using g(2) single_digit [of 0] unfolding makes_def by fastforce
  have "xs \<noteq> []" using x(2) by (simp add: canonical_def)
  then have r: "rd g p 0 = Inr (xs ! 0)" using holds_rd [of g p xs 0] e by simp
  have one: "m = unat (xs ! 0)" if "length xs = 1" using that x(3) by (cases xs) auto
  have many: "65536 \<le> m" if "length xs \<noteq> 1" using that x(6) by (auto simp: ndigits.simps [of m] split: if_splits)
  show "makes (uint16_minus_bigint v p) h (unat v - m)" if "m \<le> unat v"
  proof -
    have "length xs = 1" using many that unat_digit [of v] by force
    then have "unat (v - xs ! 0) = unat v - m" using one that by (simp add: unat_sub word_le_nat_alt)
    then show ?thesis using w [of "v - xs ! 0"] g(1) r by (simp add: makes_def uint16_minus_bigint_def)
  qed
  show "makes (uint16_divide_bigint v p) h (unat v div m)" if "0 < m"
  proof (cases "length xs = 1")
    case True
    then have "xs ! 0 \<noteq> 0" "unat (v div xs ! 0) = unat v div m" using one that by (auto simp: unat_div)
    then show ?thesis using w [of "v div xs ! 0"] g(1) r e x True by (simp add: makes_def uint16_divide_bigint_def)
  next
    case False
    then have "unat v div m = 0" using many unat_digit [of v] by simp
    then show ?thesis using z g(1) e x False by (simp add: makes_def uint16_divide_bigint_def)
  qed
  show "makes (uint16_mod_bigint v p) h (unat v mod m)" if "0 < m"
  proof (cases "length xs = 1")
    case True
    then have "xs ! 0 \<noteq> 0" "unat (v mod xs ! 0) = unat v mod m" using one that by (auto simp: unat_mod)
    then show ?thesis using w [of "v mod xs ! 0"] g(1) r e x True by (simp add: makes_def uint16_mod_bigint_def)
  next
    case False
    then have "unat v mod m = unat v" using many unat_digit [of v] by simp
    then show ?thesis using w [of v] g(1) e x False by (simp add: makes_def uint16_mod_bigint_def)
  qed
qed

lemma makes_uint32:
  assumes "fresh h"
  shows "makes (bigint_of_uint32 value) h (unat value)"
proof -
  let ?lo = "ucast (value AND 0xFFFF) :: u16" and ?hi = "ucast (drop_bit 16 value AND 0xFFFF) :: u16" and ?t = "next_addr h"
  let ?num = "(replicate 25 None)[0 := Some ?lo, 1 := Some ?hi]"
  have w: "?lo = low_word value" "?hi = low_word (carry value)" by (simp_all add: low_word_def carry_def)
  have v: "unat ?lo + 65536 * unat ?hi = unat value"
    using carry_split [of "value"] carry_less [of "value"] unfolding w by (simp add: unat_low_word [of "carry value"])
  have t: "take (Suc (Suc 0)) ?num = [Some ?lo, Some ?hi]" "take (Suc 0) ?num = [Some ?lo]" "length ?num = 25" by (simp_all add: numeral_eq_Suc)
  let ?g = "\<lambda>k. put_record ?t \<lparr> number = ?num, references = 1, digits_used = k \<rparr> (h \<lparr> next_addr := ?t + 1 \<rparr>)"
  let ?k = "if ?hi \<noteq> 0 then 2 else 1" and ?zs = "if ?hi \<noteq> 0 then [?lo, ?hi] else [?lo]"
  have "bigint_of_uint32 value h = Inr (?t, ?g ?k)"
    by (simp add: bigint_of_uint32_def new_record_def Let_def wr_def rd_def set_used_def)
  moreover have "made h ?t ?zs (?g ?k)"
    using assms t by (auto simp: made_def holds_def fresh_def)
  moreover have "canonical ?zs" "digits_val ?zs = unat value" using v by (auto simp: canonical_def)
  ultimately show ?thesis unfolding makes_def by blast
qed

lemma moves_assign_uint16:
  assumes o: "object_at h p m" and f: "fresh h"
  shows "moves (bigint_assign_uint16 p v) h p (unat v)"
proof -
  obtain xs d where x: "holds h p xs" "canonical xs" "fetch h p = Inr d" "mem h p = Some d" "length xs \<le> length (number d)"
    using o by (blast elim: object_atE)
  show ?thesis
  proof (cases "references d = 1")
    case True
    let ?d = "over 0 [v] (d \<lparr> digits_used := 1 \<rparr>)"
    have "xs \<noteq> []" using x(2) by (simp add: canonical_def)
    then have n: "0 < length (number d)" using x(5) by (cases "number d") auto
    then have "wr p 0 v (put_record p (d \<lparr> digits_used := 1 \<rparr>) h) = Inr (put_record p ?d (put_record p (d \<lparr> digits_used := 1 \<rparr>) h))" by (intro wr_first) simp_all
    then have "bigint_assign_uint16 p v h = Inr (p, put_record p ?d h)" using x True by (simp add: bigint_assign_uint16_def set_used_def)
    moreover have "moved h p p [v] (put_record p ?d h)"
      using x True n fresh_put [OF f x(4)] by (simp add: moved_def holds_def over_def Suc_leI)
    ultimately show ?thesis using single_digit [of v] unfolding moves_def by blast
  next
    case False
    let ?d = "d \<lparr> references := references d - 1 \<rparr>" and ?t = "next_addr h"
    have r: "release p h = Inr (put_record p ?d h)" using x by (simp add: release_def)
    obtain g where g: "new_record slack (put_record p ?d h) = Inr (?t, g)" "made (put_record p ?d h) ?t [0] g"
      using made_new [OF fresh_put [OF f x(4), of ?d], of slack] by auto
    obtain g' where w: "wr ?t 0 v g = Inr g'" "made (put_record p ?d h) ?t [v] g'" using made_write [OF g(2)] by blast
    have "p \<noteq> ?t" using fresh_holds [OF f x(1)] by simp
    then have "moved h p ?t [v] g'" using w(2) x(4) False by (simp add: moved_def made_def)
    then show ?thesis using r g(1) w(1) x(3) False single_digit [of v] unfolding moves_def bigint_assign_uint16_def by fastforce
  qed
qed

end
