(* ===== verification/Bigint_Program.thy ===== *)
theory Bigint_Program
  imports Bigint
begin

text \<open>
  Programs over objects of the class \<open>bigint_kernel_1\<close>, and what they compute.  A program declares,
  changes and destroys objects; objects share records and copy them before they write.  The theory
  shows that a supported program computes what it computes on natural numbers, one per object.  A program is
  supported when it stays within the limits of the 32-bit counters and none of its steps leaves a number with leading
  zeros; the end of the theory shows what happens after the steps that do.
\<close>

subsection \<open>Programs\<close>

record program_state =
  records :: digit_heap
  objects :: "nat \<Rightarrow> nat option"

datatype command =
    New nat | New_Value nat u32 | Copy nat nat | Delete nat | Assign nat nat | Assign_Value nat u16 | Swap nat nat
  | Plus nat nat nat | Plus_Assign nat nat | Minus nat nat nat | Minus_Assign nat nat | Times nat nat nat | Times_Assign nat nat
  | Plus_Value nat nat u16 | Plus_Assign_Value nat u16 | Minus_Value nat nat u16 | Minus_Assign_Value nat u16
  | Value_Minus nat u16 nat | Times_Value nat nat u16 | Times_Assign_Value nat u16
  | Divide_Value nat nat u16 | Divide_Assign_Value nat u16 | Value_Divide nat u16 nat
  | Mod_Value nat nat u16 | Mod_Assign_Value nat u16 | Value_Mod nat u16 nat
  | Increment nat | Post_Increment nat nat | Decrement nat | Post_Decrement nat nat

definition object :: "program_state \<Rightarrow> nat \<Rightarrow> nat c" where
  "object s v = (case objects s v of None \<Rightarrow> Inl Stale_Pointer | Some p \<Rightarrow> Inr p)"

text \<open>A new object \<open>x\<close>, and a change of the object \<open>v\<close>.\<close>

definition define_object :: "nat \<Rightarrow> (digit_heap \<Rightarrow> (nat \<times> digit_heap) c) \<Rightarrow> program_state \<Rightarrow> program_state c" where
  "define_object x f s = (if objects s x \<noteq> None then Inl Stale_Pointer
    else c_bind (f (records s)) (\<lambda>(p, h). Inr \<lparr> records = h, objects = (objects s)(x \<mapsto> p) \<rparr>))"

definition change_object :: "nat \<Rightarrow> (nat \<Rightarrow> digit_heap \<Rightarrow> (nat \<times> digit_heap) c) \<Rightarrow> program_state \<Rightarrow> program_state c" where
  "change_object v f s = c_bind (object s v) (\<lambda>p. c_bind (f p (records s)) (\<lambda>(p, h).
    Inr \<lparr> records = h, objects = (objects s)(v \<mapsto> p) \<rparr>))"

text \<open>A postfix operator: the object \<open>v\<close> changes, and \<open>x\<close> is the result.\<close>

definition post_object :: "nat \<Rightarrow> nat \<Rightarrow> (nat \<Rightarrow> digit_heap \<Rightarrow> (nat \<times> nat \<times> digit_heap) c) \<Rightarrow> program_state \<Rightarrow> program_state c" where
  "post_object x v f s = (if objects s x \<noteq> None then Inl Stale_Pointer
    else c_bind (object s v) (\<lambda>p. c_bind (f p (records s)) (\<lambda>(p, r, h).
      Inr \<lparr> records = h, objects = (objects s)(v \<mapsto> p, x \<mapsto> r) \<rparr>)))"

fun exec :: "command \<Rightarrow> program_state \<Rightarrow> program_state c" where
  "exec (New x) s = define_object x bigint_new s"
| "exec (New_Value x n) s = define_object x (bigint_of_uint32 n) s"
| "exec (Copy x v) s = c_bind (object s v) (\<lambda>q. define_object x (bigint_copy q) s)"
| "exec (Delete v) s = c_bind (object s v) (\<lambda>p. c_bind (bigint_delete p (records s)) (\<lambda>h.
    Inr \<lparr> records = h, objects = (objects s)(v := None) \<rparr>))"
| "exec (Assign v w) s = c_bind (object s w) (\<lambda>q. change_object v (\<lambda>p. bigint_assign (v = w) p q) s)"
| "exec (Assign_Value v n) s = change_object v (\<lambda>p. bigint_assign_uint16 p n) s"
| "exec (Swap v w) s = c_bind (object s v) (\<lambda>p. c_bind (object s w) (\<lambda>q.
    case bigint_swap p q of (p, q) \<Rightarrow> Inr (s \<lparr> objects := (objects s)(v \<mapsto> p, w \<mapsto> q) \<rparr>)))"
| "exec (Plus x v w) s = c_bind (object s v) (\<lambda>p. c_bind (object s w) (\<lambda>q. define_object x (bigint_plus p q) s))"
| "exec (Plus_Assign v w) s = c_bind (object s w) (\<lambda>q. change_object v (\<lambda>p. bigint_plus_assign p q) s)"
| "exec (Minus x v w) s = c_bind (object s v) (\<lambda>p. c_bind (object s w) (\<lambda>q. define_object x (bigint_minus p q) s))"
| "exec (Minus_Assign v w) s = c_bind (object s w) (\<lambda>q. change_object v (\<lambda>p. bigint_minus_assign p q) s)"
| "exec (Times x v w) s = c_bind (object s v) (\<lambda>p. c_bind (object s w) (\<lambda>q. define_object x (bigint_times p q) s))"
| "exec (Times_Assign v w) s = c_bind (object s w) (\<lambda>q. change_object v (\<lambda>p. bigint_times_assign p q) s)"
| "exec (Plus_Value x v n) s = c_bind (object s v) (\<lambda>p. define_object x (bigint_plus_uint16 p n) s)"
| "exec (Plus_Assign_Value v n) s = change_object v (\<lambda>p. bigint_plus_assign_uint16 p n) s"
| "exec (Minus_Value x v n) s = c_bind (object s v) (\<lambda>p. define_object x (bigint_minus_uint16 p n) s)"
| "exec (Minus_Assign_Value v n) s = change_object v (\<lambda>p. bigint_minus_assign_uint16 p n) s"
| "exec (Value_Minus x n v) s = c_bind (object s v) (\<lambda>p. define_object x (uint16_minus_bigint n p) s)"
| "exec (Times_Value x v n) s = c_bind (object s v) (\<lambda>p. define_object x (bigint_times_uint16 p n) s)"
| "exec (Times_Assign_Value v n) s = change_object v (\<lambda>p. bigint_times_assign_uint16 p n) s"
| "exec (Divide_Value x v n) s = c_bind (object s v) (\<lambda>p. define_object x (bigint_divide_uint16 p n) s)"
| "exec (Divide_Assign_Value v n) s = change_object v (\<lambda>p. bigint_divide_assign_uint16 p n) s"
| "exec (Value_Divide x n v) s = c_bind (object s v) (\<lambda>p. define_object x (uint16_divide_bigint n p) s)"
| "exec (Mod_Value x v n) s = c_bind (object s v) (\<lambda>p. define_object x (bigint_mod_uint16 p n) s)"
| "exec (Mod_Assign_Value v n) s = change_object v (\<lambda>p. bigint_mod_assign_uint16 p n) s"
| "exec (Value_Mod x n v) s = c_bind (object s v) (\<lambda>p. define_object x (uint16_mod_bigint n p) s)"
| "exec (Increment v) s = change_object v bigint_increment s"
| "exec (Post_Increment x v) s = post_object x v bigint_post_increment s"
| "exec (Decrement v) s = change_object v bigint_decrement s"
| "exec (Post_Decrement x v) s = post_object x v bigint_post_decrement s"

fun exec_all :: "command list \<Rightarrow> program_state \<Rightarrow> program_state c" where
  "exec_all [] s = Inr s"
| "exec_all (c # cs) s = c_bind (exec c s) (exec_all cs)"

definition no_objects :: program_state where
  "no_objects = \<lparr> records = \<lparr> mem = (\<lambda>_. None), next_addr = 0 \<rparr>, objects = (\<lambda>_. None) \<rparr>"

subsection \<open>The same programs on natural numbers\<close>

text \<open>
  \<open>None\<close> when an object is missing or declared twice, when a difference would be negative or a divisor 0.
\<close>

definition compute :: "nat \<Rightarrow> bool \<Rightarrow> nat \<Rightarrow> (nat \<rightharpoonup> nat) \<Rightarrow> (nat \<rightharpoonup> nat) option" where
  "compute x b n M = (if b then Some (M(x \<mapsto> n)) else None)"

fun meaning :: "command \<Rightarrow> (nat \<rightharpoonup> nat) \<Rightarrow> (nat \<rightharpoonup> nat) option" where
  "meaning (New x) M = compute x (M x = None) 0 M"
| "meaning (New_Value x n) M = compute x (M x = None) (unat n) M"
| "meaning (Copy x v) M = (case M v of Some a \<Rightarrow> compute x (M x = None) a M | None \<Rightarrow> None)"
| "meaning (Delete v) M = (case M v of Some a \<Rightarrow> Some (M(v := None)) | None \<Rightarrow> None)"
| "meaning (Assign v w) M = (case (M v, M w) of (Some a, Some b) \<Rightarrow> compute v True b M | _ \<Rightarrow> None)"
| "meaning (Assign_Value v n) M = (case M v of Some a \<Rightarrow> compute v True (unat n) M | None \<Rightarrow> None)"
| "meaning (Swap v w) M = (case (M v, M w) of (Some a, Some b) \<Rightarrow> Some (M(v \<mapsto> b, w \<mapsto> a)) | _ \<Rightarrow> None)"
| "meaning (Plus x v w) M = (case (M v, M w) of (Some a, Some b) \<Rightarrow> compute x (M x = None) (a + b) M | _ \<Rightarrow> None)"
| "meaning (Plus_Assign v w) M = (case (M v, M w) of (Some a, Some b) \<Rightarrow> compute v True (a + b) M | _ \<Rightarrow> None)"
| "meaning (Minus x v w) M = (case (M v, M w) of (Some a, Some b) \<Rightarrow> compute x (M x = None \<and> b \<le> a) (a - b) M | _ \<Rightarrow> None)"
| "meaning (Minus_Assign v w) M = (case (M v, M w) of (Some a, Some b) \<Rightarrow> compute v (b \<le> a) (a - b) M | _ \<Rightarrow> None)"
| "meaning (Times x v w) M = (case (M v, M w) of (Some a, Some b) \<Rightarrow> compute x (M x = None) (a * b) M | _ \<Rightarrow> None)"
| "meaning (Times_Assign v w) M = (case (M v, M w) of (Some a, Some b) \<Rightarrow> compute v True (a * b) M | _ \<Rightarrow> None)"
| "meaning (Plus_Value x v n) M = (case M v of Some a \<Rightarrow> compute x (M x = None) (a + unat n) M | None \<Rightarrow> None)"
| "meaning (Plus_Assign_Value v n) M = (case M v of Some a \<Rightarrow> compute v True (a + unat n) M | None \<Rightarrow> None)"
| "meaning (Minus_Value x v n) M = (case M v of Some a \<Rightarrow> compute x (M x = None \<and> unat n \<le> a) (a - unat n) M | None \<Rightarrow> None)"
| "meaning (Minus_Assign_Value v n) M = (case M v of Some a \<Rightarrow> compute v (unat n \<le> a) (a - unat n) M | None \<Rightarrow> None)"
| "meaning (Value_Minus x n v) M = (case M v of Some a \<Rightarrow> compute x (M x = None \<and> a \<le> unat n) (unat n - a) M | None \<Rightarrow> None)"
| "meaning (Times_Value x v n) M = (case M v of Some a \<Rightarrow> compute x (M x = None) (a * unat n) M | None \<Rightarrow> None)"
| "meaning (Times_Assign_Value v n) M = (case M v of Some a \<Rightarrow> compute v True (a * unat n) M | None \<Rightarrow> None)"
| "meaning (Divide_Value x v n) M = (case M v of Some a \<Rightarrow> compute x (M x = None \<and> n \<noteq> 0) (a div unat n) M | None \<Rightarrow> None)"
| "meaning (Divide_Assign_Value v n) M = (case M v of Some a \<Rightarrow> compute v (n \<noteq> 0) (a div unat n) M | None \<Rightarrow> None)"
| "meaning (Value_Divide x n v) M = (case M v of Some a \<Rightarrow> compute x (M x = None \<and> 0 < a) (unat n div a) M | None \<Rightarrow> None)"
| "meaning (Mod_Value x v n) M = (case M v of Some a \<Rightarrow> compute x (M x = None \<and> n \<noteq> 0) (a mod unat n) M | None \<Rightarrow> None)"
| "meaning (Mod_Assign_Value v n) M = (case M v of Some a \<Rightarrow> compute v (n \<noteq> 0) (a mod unat n) M | None \<Rightarrow> None)"
| "meaning (Value_Mod x n v) M = (case M v of Some a \<Rightarrow> compute x (M x = None \<and> 0 < a) (unat n mod a) M | None \<Rightarrow> None)"
| "meaning (Increment v) M = (case M v of Some a \<Rightarrow> compute v True (a + 1) M | None \<Rightarrow> None)"
| "meaning (Post_Increment x v) M = (case M v of Some a \<Rightarrow> if M x = None then Some (M(v \<mapsto> a + 1, x \<mapsto> a)) else None | None \<Rightarrow> None)"
| "meaning (Decrement v) M = (case M v of Some a \<Rightarrow> compute v (1 \<le> a) (a - 1) M | None \<Rightarrow> None)"
| "meaning (Post_Decrement x v) M = (case M v of Some a \<Rightarrow> if M x = None \<and> 1 \<le> a then Some (M(v \<mapsto> a - 1, x \<mapsto> a)) else None | None \<Rightarrow> None)"

fun meaning_all :: "command list \<Rightarrow> (nat \<rightharpoonup> nat) \<Rightarrow> (nat \<rightharpoonup> nat) option" where
  "meaning_all [] M = Some M"
| "meaning_all (c # cs) M = (case meaning c M of Some M \<Rightarrow> meaning_all cs M | None \<Rightarrow> None)"

text \<open>
  The commands after which the class is left with a number in canonical form: all but a difference of two
  objects that has two digits fewer than its first operand, and the product of an object of several digits with
  the 16-bit number 0.  There the code keeps leading zeros (see the end of the theory).
\<close>

definition small_loss :: "nat option \<Rightarrow> nat option \<Rightarrow> bool" where
  "small_loss a b = (case (a, b) of (Some a, Some b) \<Rightarrow> ndigits a \<le> Suc (ndigits (a - b)) | _ \<Rightarrow> True)"

definition no_zero_factor :: "nat option \<Rightarrow> u16 \<Rightarrow> bool" where
  "no_zero_factor a n = (case a of Some a \<Rightarrow> n \<noteq> 0 \<or> a < 65536 | None \<Rightarrow> True)"

fun keeps_form :: "command \<Rightarrow> (nat \<rightharpoonup> nat) \<Rightarrow> bool" where
  "keeps_form (Minus x v w) M = small_loss (M v) (M w)"
| "keeps_form (Minus_Assign v w) M = small_loss (M v) (M w)"
| "keeps_form (Times_Value x v n) M = no_zero_factor (M v) n"
| "keeps_form (Times_Assign_Value v n) M = no_zero_factor (M v) n"
| "keeps_form _ M = True"

text \<open>
  The limits of the 32-bit counters of the class: fewer than \<open>2 ^ 32\<close> objects at a time, and numbers of fewer
  than \<open>2 ^ 27\<close> digits.
\<close>

definition within_limits :: "(nat \<rightharpoonup> nat) \<Rightarrow> bool" where
  "within_limits M \<longleftrightarrow> card (dom M) < 2 ^ 32 \<and> (\<forall>a \<in> ran M. fits a)"

text \<open>A program that stays within the limits, and all of whose commands keep the form.\<close>

fun supported :: "command list \<Rightarrow> (nat \<rightharpoonup> nat) \<Rightarrow> bool" where
  "supported [] M = within_limits M"
| "supported (c # cs) M = (within_limits M \<and> keeps_form c M \<and> (case meaning c M of Some M \<Rightarrow> supported cs M | None \<Rightarrow> True))"

lemma supported_limits: "supported cs M \<Longrightarrow> within_limits M"
  by (cases cs) auto

lemma supported_all: "supported cs M \<Longrightarrow> meaning_all cs M = Some N \<Longrightarrow> within_limits N"
  by (induction cs arbitrary: M) (auto split: option.splits)

lemma limits_fit: "within_limits M \<Longrightarrow> M v = Some a \<Longrightarrow> fits a"
  by (auto simp: within_limits_def ran_def)

subsection \<open>The invariant\<close>

text \<open>The number that a record represents.\<close>

definition number_at :: "digit_heap \<Rightarrow> nat \<Rightarrow> nat" where
  "number_at h p = (case mem h p of None \<Rightarrow> 0 | Some d \<Rightarrow> digits_val (map the (take (unat (digits_used d)) (number d))))"

definition numbers :: "program_state \<Rightarrow> nat \<rightharpoonup> nat" where
  "numbers s v = map_option (number_at (records s)) (objects s v)"

definition users :: "(nat \<Rightarrow> nat option) \<Rightarrow> nat \<Rightarrow> nat set" where
  "users E p = {v. E v = Some p}"

text \<open>
  Every object has a record with a number in canonical form, and every record counts the objects that
  refer to it; there is at least one.
\<close>

definition refs_counted :: "digit_heap \<Rightarrow> (nat \<Rightarrow> nat option) \<Rightarrow> bool" where
  "refs_counted h E \<longleftrightarrow> fresh h \<and> finite (dom E) \<and> (\<forall>v p. E v = Some p \<longrightarrow> (\<exists>n. object_at h p n)) \<and>
    (\<forall>p d. mem h p = Some d \<longrightarrow> unat (references d) = card (users E p) \<and> users E p \<noteq> {})"

definition state_ok :: "program_state \<Rightarrow> bool" where
  "state_ok s \<longleftrightarrow> refs_counted (records s) (objects s)"

lemma value_at_holds: "holds h p xs \<Longrightarrow> number_at h p = digits_val xs"
  by (auto simp: holds_def number_at_def o_def)

lemma object_at_value: "object_at h p n \<Longrightarrow> number_at h p = n"
  by (auto simp: object_at_def value_at_holds)

lemma object_at_same: "mem h' p = mem h p \<Longrightarrow> object_at h' p n = object_at h p n" "mem h' p = mem h p \<Longrightarrow> number_at h' p = number_at h p"
  by (simp_all add: object_at_def holds_def number_at_def)

text \<open>Neither depends on the counter of references.\<close>

lemma object_at_refs:
  assumes "mem h p = Some d" "mem h' p = Some (d \<lparr> references := k \<rparr>)"
  shows "object_at h' p n = object_at h p n" "number_at h' p = number_at h p"
  using assms by (simp_all add: object_at_def holds_def number_at_def)

lemma users_upd: "users (E(v \<mapsto> p)) q = (if q = p then insert v (users E q) else users E q - {v})"
  "users (E(v := None)) q = users E q - {v}"
  by (auto simp: users_def)

lemma countedI:
  assumes "fresh h" "finite (dom E)" "\<And>v p. E v = Some p \<Longrightarrow> \<exists>n. object_at h p n"
    "\<And>p d. mem h p = Some d \<Longrightarrow> unat (references d) = card (users E p) \<and> users E p \<noteq> {}"
  shows "refs_counted h E"
  using assms unfolding refs_counted_def by blast

lemma countedD:
  assumes "refs_counted h E"
  shows "fresh h" "finite (dom E)" "E v = Some p \<Longrightarrow> object_at h p (number_at h p)" "E v = Some p \<Longrightarrow> mem h p \<noteq> None"
    "mem h p = Some d \<Longrightarrow> unat (references d) = card (users E p)" "mem h p = Some d \<Longrightarrow> references d \<noteq> 0" "finite (users E p)"
    "mem h p = None \<Longrightarrow> users E p = {}"
proof -
  show f: "fresh h" "finite (dom E)" "mem h p = Some d \<Longrightarrow> unat (references d) = card (users E p)" using assms by (auto simp: refs_counted_def)
  have "users E p \<subseteq> dom E" by (auto simp: users_def)
  then show u: "finite (users E p)" using f(2) by (rule finite_subset)
  show "mem h p = Some d \<Longrightarrow> references d \<noteq> 0" using assms u f(3) by (metis card_0_eq refs_counted_def unat_0)
  show o: "E v = Some p \<Longrightarrow> object_at h p (number_at h p)" for v p using assms object_at_value unfolding refs_counted_def by metis
  then show m: "E v = Some p \<Longrightarrow> mem h p \<noteq> None" for v by (force simp: object_at_def holds_def)
  show "mem h p = None \<Longrightarrow> users E p = {}" using m by (auto simp: users_def)
qed

text \<open>The values of the objects, as a function of the records and the objects.\<close>

definition values_of :: "digit_heap \<Rightarrow> (nat \<Rightarrow> nat option) \<Rightarrow> nat \<rightharpoonup> nat" where
  "values_of h E v = map_option (number_at h) (E v)"

lemma values_other:
  assumes "\<And>w q. w \<noteq> v \<Longrightarrow> E w = Some q \<Longrightarrow> number_at h' q = number_at h q"
  shows "values_of h' (E(v \<mapsto> p)) = (values_of h E)(v \<mapsto> number_at h' p)" "values_of h' (E(v := None)) = (values_of h E)(v := None)"
  using assms by (auto simp: values_of_def fun_eq_iff intro: option.map_cong)

text \<open>A counter of the references that is neither 0 nor 1 goes down without wrapping around.\<close>

lemma one_less: "x \<noteq> 0 \<Longrightarrow> x \<noteq> 1 \<Longrightarrow> unat (x - 1) = unat x - 1 \<and> unat x - 1 \<noteq> 0" for x :: u32
proof -
  assume x: "x \<noteq> 0" "x \<noteq> 1"
  then have "1 \<le> x" by (simp add: word_le_nat_alt unat_gt_0 Suc_leI)
  then have "unat (x - 1) = unat x - 1" by (simp add: unat_sub)
  moreover have "x - 1 \<noteq> 0" using x(2) by simp
  ultimately show ?thesis by (metis unat_eq_0)
qed

lemma made_counted:
  assumes c: "refs_counted h E" and x: "E x = None" and m: "made h p zs h'" "canonical zs"
  shows "refs_counted h' (E(x \<mapsto> p))" "values_of h' (E(x \<mapsto> p)) = (values_of h E)(x \<mapsto> digits_val zs)"
proof -
  have p: "mem h p = None" "users E p = {}" using m(1) countedD(1,8) [OF c] by (auto simp: made_def fresh_def)
  have o: "mem h' q = mem h q" if "q \<noteq> p" for q using m(1) that by (simp add: made_def)
  have e: "q \<noteq> p" if "E w = Some q" for w q using countedD(4) [OF c that] p by auto
  have z: "object_at h' p (digits_val zs)" using m by (auto simp: object_at_def made_def)
  have u: "users E q - {x} = users E q" for q using x by (auto simp: users_def)
  obtain d where d: "mem h' p = Some d" "references d = 1" using m(1) by (auto simp: made_def)
  have "\<exists>n. object_at h' q n" if "(E(x \<mapsto> p)) w = Some q" for w q
    using that z countedD(3) [OF c, of w q] object_at_same(1) [OF o [of q]] e [of w q] by (cases "w = x") auto
  moreover have "unat (references d') = card (users (E(x \<mapsto> p)) q) \<and> users (E(x \<mapsto> p)) q \<noteq> {}" if "mem h' q = Some d'" for q d'
    using that d p o [of q] u c by (cases "q = p") (auto simp: users_upd refs_counted_def)
  ultimately show "refs_counted h' (E(x \<mapsto> p))" using m(1) countedD(2) [OF c] unfolding refs_counted_def made_def by simp
  show "values_of h' (E(x \<mapsto> p)) = (values_of h E)(x \<mapsto> digits_val zs)"
    using values_other(1) [of x E h' h p] object_at_value [OF z] o e object_at_same(2) by metis
qed

lemma moved_counted:
  assumes c: "refs_counted h E" and v: "E v = Some p" and m: "moved h p p' zs h'" "canonical zs"
  shows "refs_counted h' (E(v \<mapsto> p'))" "values_of h' (E(v \<mapsto> p')) = (values_of h E)(v \<mapsto> digits_val zs)"
proof -
  obtain d where d: "mem h p = Some d" "if references d = 1 then p' = p \<or> p' = next_addr h \<and> mem h' p = None
      else p' = next_addr h \<and> mem h' p = Some (d \<lparr> references := references d - 1 \<rparr>)" using m(1) by (auto simp: moved_def)
  have pn: "p \<noteq> next_addr h" using countedD(1) [OF c] d(1) by (auto simp: fresh_def)
  obtain d' where d': "mem h' p' = Some d'" "references d' = 1" using m(1) by (auto simp: moved_def)
  have o: "mem h' q = mem h q" if "q \<noteq> p" "q \<noteq> p'" for q using m(1) that by (simp add: moved_def)
  have z: "object_at h' p' (digits_val zs)" using m by (auto simp: object_at_def moved_def)
  have r: "unat (references d) = card (users E p)" "finite (users E p)" "v \<in> users E p" using countedD(5,7) [OF c] d(1) v by (auto simp: users_def)
  have n: "p' \<noteq> p \<Longrightarrow> mem h p' = None \<and> users E p' = {}"
    using d(2) countedD(1,8) [OF c] by (auto simp: fresh_def split: if_splits)
  have one: "users E p = {v}" if "references d = 1" using that r by (metis card_1_singletonE singletonD unat_1)
  have keep: "mem h' q = mem h q \<and> q \<noteq> p' \<or> q = p \<and> mem h' p = Some (d \<lparr> references := references d - 1 \<rparr>) \<and> references d \<noteq> 1 \<and> p' \<noteq> p"
    if "w \<noteq> v" "E w = Some q" for w q
  proof (cases "q = p")
    case True
    then have "references d \<noteq> 1" using that one by (auto simp: users_def)
    then show ?thesis using True d pn by auto
  next
    case False
    then have "q \<noteq> p'" using countedD(4) [OF c that(2)] n by auto
    then show ?thesis using False o by simp
  qed
  have k: "object_at h' q n = object_at h q n \<and> number_at h' q = number_at h q" if "w \<noteq> v" "E w = Some q" for w q n
    using keep [OF that] object_at_same [of h' q h] object_at_refs [OF d(1), of h'] by auto
  have "\<exists>n. object_at h' q n" if "(E(v \<mapsto> p')) w = Some q" for w q
    using that z countedD(3) [OF c, of w q] k [of w q] by (cases "w = v") auto
  moreover have "unat (references e) = card (users (E(v \<mapsto> p')) q) \<and> users (E(v \<mapsto> p')) q \<noteq> {}" if e: "mem h' q = Some e" for q e
  proof (cases "q = p'")
    case True
    then have "users (E(v \<mapsto> p')) q = {v}" using n one d(2) pn by (auto simp: users_upd split: if_splits)
    then show ?thesis using True e d' by simp
  next
    case False
    show ?thesis
    proof (cases "q = p")
      case True
      then have e: "e = d \<lparr> references := references d - 1 \<rparr>" "references d \<noteq> 1" using e d(2) False by (auto split: if_splits)
      then have "card (users E p - {v}) = unat (references e)" "unat (references e) \<noteq> 0" using r one_less [OF countedD(6) [OF c d(1)] e(2)] by simp_all
      then show ?thesis using True False by (metis card.empty users_upd(1))
    next
      case False
      then have "users (E(v \<mapsto> p')) q = users E q" using \<open>q \<noteq> p'\<close> v by (auto simp: users_def)
      then show ?thesis using e o [of q] False \<open>q \<noteq> p'\<close> c by (simp add: refs_counted_def)
    qed
  qed
  ultimately show "refs_counted h' (E(v \<mapsto> p'))" using m(1) countedD(2) [OF c] unfolding refs_counted_def moved_def by simp
  show "values_of h' (E(v \<mapsto> p')) = (values_of h E)(v \<mapsto> digits_val zs)"
    using values_other(1) [of v E h' h p'] object_at_value [OF z] k by metis
qed

lemma delete_counted:
  assumes c: "refs_counted h E" and v: "E v = Some p"
  shows "\<exists>h'. bigint_delete p h = Inr h' \<and> refs_counted h' (E(v := None)) \<and> values_of h' (E(v := None)) = (values_of h E)(v := None)"
proof -
  obtain d where d: "mem h p = Some d" using countedD(4) [OF c v] by auto
  have r: "unat (references d) = card (users E p)" "finite (users E p)" "v \<in> users E p" using countedD(5,7) [OF c] d v by (auto simp: users_def)
  define h' where "h' = (if references d = 1 then h \<lparr> mem := (mem h)(p := None) \<rparr> else put_record p (d \<lparr> references := references d - 1 \<rparr>) h)"
  have e: "bigint_delete p h = Inr h'" using d by (simp add: bigint_delete_def delete_record_def release_def fetch_def h'_def)
  have one: "users E p = {v}" if "references d = 1" using that r by (metis card_1_singletonE singletonD unat_1)
  have k: "object_at h' q n = object_at h q n \<and> number_at h' q = number_at h q" if "w \<noteq> v" "E w = Some q" for w q n
  proof (cases "q = p")
    case True
    then have "references d \<noteq> 1" using that one by (auto simp: users_def)
    then show ?thesis using True object_at_refs [OF d, of h'] by (simp add: h'_def)
  next
    case False
    then show ?thesis using object_at_same [of h' q h] by (simp add: h'_def)
  qed
  have "\<exists>n. object_at h' q n" if "(E(v := None)) w = Some q" for w q
    using that countedD(3) [OF c, of w q] k [of w q] by (auto split: if_splits)
  moreover have "unat (references e) = card (users (E(v := None)) q) \<and> users (E(v := None)) q \<noteq> {}" if e: "mem h' q = Some e" for q e
  proof (cases "q = p")
    case True
    then have e: "references e = references d - 1" "references d \<noteq> 1" using e by (auto simp: h'_def split: if_splits)
    then have "card (users E p - {v}) = unat (references e)" "unat (references e) \<noteq> 0" using r one_less [OF countedD(6) [OF c d] e(2)] by simp_all
    then show ?thesis using True by (metis card.empty users_upd(2))
  next
    case False
    then have "users (E(v := None)) q = users E q" "mem h q = Some e" using v e by (auto simp: users_def h'_def split: if_splits)
    then show ?thesis using c by (simp add: refs_counted_def)
  qed
  moreover have "fresh h'" using countedD(1) [OF c] d by (auto simp: h'_def fresh_def)
  ultimately have "refs_counted h' (E(v := None))" using countedD(2) [OF c] unfolding refs_counted_def by simp
  then show ?thesis using e k values_other(2) [of v E h' h] by metis
qed

lemma copy_counted:
  assumes c: "refs_counted h E" and x: "E x = None" and w: "E w = Some q" and l: "card (dom (E(x \<mapsto> q))) < 2 ^ 32"
  shows "\<exists>h'. bigint_copy q h = Inr (q, h') \<and> refs_counted h' (E(x \<mapsto> q)) \<and> values_of h' (E(x \<mapsto> q)) = (values_of h E)(x \<mapsto> number_at h q)"
proof -
  obtain d where d: "mem h q = Some d" using countedD(4) [OF c w] by auto
  let ?h = "put_record q (d \<lparr> references := references d + 1 \<rparr>) h"
  have e: "bigint_copy q h = Inr (q, ?h)" using d by (simp add: bigint_copy_def acquire_def fetch_def)
  have k: "object_at ?h r n = object_at h r n \<and> number_at ?h r = number_at h r" for r n
    using object_at_refs [OF d, of ?h] object_at_same [of ?h r h] by (cases "r = q") auto
  have o: "\<exists>n. object_at ?h r n" if "(E(x \<mapsto> q)) v = Some r" for v r
    using that k countedD(3) [OF c] w by (cases "v = x") (auto, blast+)
  have u: "unat (references e) = card (users (E(x \<mapsto> q)) r) \<and> users (E(x \<mapsto> q)) r \<noteq> {}" if "mem ?h r = Some e" for r e
  proof (cases "r = q")
    case True
    have "x \<notin> users E q" using x by (simp add: users_def)
    then have n: "card (users (E(x \<mapsto> q)) q) = Suc (card (users E q))" using countedD(7) [OF c] by (simp add: users_upd)
    have "card (users (E(x \<mapsto> q)) q) \<le> card (dom (E(x \<mapsto> q)))" using countedD(2) [OF c] by (intro card_mono) (auto simp: users_def)
    then have "unat (references d) + 1 < 2 ^ 32" using l n countedD(5) [OF c d] by linarith
    then have "unat (references d + 1) = unat (references d) + 1" by (simp add: unat_word_ariths)
    then show ?thesis using that True n countedD(5) [OF c d] by (auto simp: users_upd)
  next
    case False
    then have "users (E(x \<mapsto> q)) r = users E r" using x by (auto simp: users_def)
    then show ?thesis using that False c by (simp add: refs_counted_def)
  qed
  have "finite (dom (E(x \<mapsto> q)))" using countedD(2) [OF c] by simp
  moreover have "fresh ?h" using fresh_put [OF countedD(1) [OF c] d] by simp
  ultimately have "refs_counted ?h (E(x \<mapsto> q))" using countedI o u by blast
  moreover have "values_of ?h (E(x \<mapsto> q)) = (values_of h E)(x \<mapsto> number_at h q)" using values_other(1) [of x E ?h h q] k by simp
  ultimately show ?thesis using e by blast
qed

lemma swap_counted:
  assumes c: "refs_counted h E" and v: "E v = Some p" "E w = Some q"
  shows "refs_counted h (E(v \<mapsto> q, w \<mapsto> p))" "values_of h (E(v \<mapsto> q, w \<mapsto> p)) = (values_of h E)(v \<mapsto> number_at h q, w \<mapsto> number_at h p)"
proof -
  let ?f = "\<lambda>u. if u = v then w else if u = w then v else u"
  have f: "(E(v \<mapsto> q, w \<mapsto> p)) u = E (?f u)" for u using v by auto
  have img: "users (E(v \<mapsto> q, w \<mapsto> p)) r = ?f ` users E r" for r
  proof (intro equalityI subsetI)
    fix u assume "u \<in> users (E(v \<mapsto> q, w \<mapsto> p)) r"
    then have "?f u \<in> users E r" "u = ?f (?f u)" using f by (auto simp: users_def)
    then show "u \<in> ?f ` users E r" by blast
  qed (use f in \<open>auto simp: users_def\<close>)
  have "inj_on ?f A" for A by (auto simp: inj_on_def)
  then have "card (users (E(v \<mapsto> q, w \<mapsto> p)) r) = card (users E r)" for r unfolding img by (rule card_image)
  moreover have "users (E(v \<mapsto> q, w \<mapsto> p)) r = {} \<longleftrightarrow> users E r = {}" for r unfolding img by (rule image_is_empty)
  ultimately show "refs_counted h (E(v \<mapsto> q, w \<mapsto> p))" using c v unfolding refs_counted_def by auto
  show "values_of h (E(v \<mapsto> q, w \<mapsto> p)) = (values_of h E)(v \<mapsto> number_at h q, w \<mapsto> number_at h p)" by (auto simp: values_of_def)
qed

subsection \<open>Commands\<close>

definition reaches :: "program_state c \<Rightarrow> (nat \<rightharpoonup> nat) \<Rightarrow> bool" where
  "reaches r M \<longleftrightarrow> (\<exists>s'. r = Inr s' \<and> state_ok s' \<and> numbers s' = M)"

lemma numbers_values: "numbers s = values_of (records s) (objects s)"
  by (simp add: numbers_def values_of_def fun_eq_iff)

lemma object_of_number:
  assumes "state_ok s" "numbers s v = Some a"
  obtains p d where "object s v = Inr p" "objects s v = Some p" "object_at (records s) p a" "fresh (records s)"
    "mem (records s) p = Some d" "references d \<noteq> 0" "number_at (records s) p = a"
proof -
  obtain p where p: "objects s v = Some p" "number_at (records s) p = a" using assms(2) by (auto simp: numbers_def)
  then obtain d where "mem (records s) p = Some d" using countedD(4) assms(1) unfolding state_ok_def by blast
  then show thesis using p countedD(1,3,6) assms(1) unfolding state_ok_def by (intro that [of p d]) (auto simp: object_def)
qed

lemma define_reaches:
  assumes "state_ok s" "numbers s x = None" "makes f (records s) n"
  shows "reaches (define_object x f s) ((numbers s)(x \<mapsto> n))"
proof -
  obtain p h' zs where m: "f (records s) = Inr (p, h')" "made (records s) p zs h'" "canonical zs" "digits_val zs = n" using assms(3) by (auto simp: makes_def)
  have x: "objects s x = None" using assms(2) by (simp add: numbers_def)
  show ?thesis using m x made_counted [of "records s" "objects s" x p zs h'] assms(1) by (simp add: reaches_def define_object_def state_ok_def numbers_values)
qed

lemma change_reaches:
  assumes "state_ok s" "objects s v = Some p" "moves (f p) (records s) p n"
  shows "reaches (change_object v f s) ((numbers s)(v \<mapsto> n))"
proof -
  obtain p' h' zs where m: "f p (records s) = Inr (p', h')" "moved (records s) p p' zs h'" "canonical zs" "digits_val zs = n" using assms(3) by (auto simp: moves_def)
  show ?thesis using m moved_counted [of "records s" "objects s" v p p' zs h'] assms(1,2)
    by (simp add: reaches_def change_object_def object_def state_ok_def numbers_values)
qed

lemma makes_post:
  assumes o: "object_at h p m" and f: "fresh h" and n: "fits m"
  shows "makes (\<lambda>h. c_bind (bigint_post_increment p h) (\<lambda>(q, r, h). Inr (q, h))) h (m + 1)"
    "1 \<le> m \<Longrightarrow> makes (\<lambda>h. c_bind (bigint_post_decrement p h) (\<lambda>(q, r, h). Inr (q, h))) h (m - 1)"
proof -
  obtain xs d where x: "holds h p xs" "canonical xs" "digits_val xs = m" "fetch h p = Inr d" "unat (digits_used d) = length xs"
    using o by (blast elim: object_atE)
  note s = refl x(2) single_digit(1)
  have u: "unat (digits_used d) < 2 ^ 27" using n x canonical_ndigits [OF x(2)] by (simp add: fits_def)
  note z = size_slack(1,2) [OF u u]
  show "makes (\<lambda>h. c_bind (bigint_post_increment p h) (\<lambda>(q, r, h). Inr (q, h))) h (m + 1)"
    using incrementing.new_result_made [OF x(1) _ s _ f, of "digits_used d + slack"] x z by (auto simp: makes_def bigint_post_increment_def)
  show "makes (\<lambda>h. c_bind (bigint_post_decrement p h) (\<lambda>(q, r, h). Inr (q, h))) h (m - 1)" if "1 \<le> m"
    using decrementing.new_result_made [OF x(1) _ s _ f, of "digits_used d + slack"] x z that by (auto simp: makes_def bigint_post_decrement_def)
qed

lemma compute_Some: "compute x b n M = Some M' \<longleftrightarrow> b \<and> M' = M(x \<mapsto> n)"
  by (auto simp: compute_def)

text \<open>The operators on one object and a value, and on two objects.\<close>

lemma define_unary:
  assumes "state_ok s" "within_limits (numbers s)" "numbers s v = Some a" "numbers s x = None"
    "\<And>p. object_at (records s) p a \<Longrightarrow> fresh (records s) \<Longrightarrow> fits a \<Longrightarrow> makes (f p) (records s) n"
  shows "reaches (c_bind (object s v) (\<lambda>p. define_object x (f p) s)) ((numbers s)(x \<mapsto> n))"
proof -
  obtain p where "object s v = Inr p" "object_at (records s) p a" "fresh (records s)" using assms(1,3) by (blast elim: object_of_number)
  then show ?thesis using define_reaches [OF assms(1,4)] assms(5) limits_fit [OF assms(2,3)] by simp
qed

lemma change_unary:
  assumes "state_ok s" "within_limits (numbers s)" "numbers s v = Some a"
    "\<And>p. object_at (records s) p a \<Longrightarrow> fresh (records s) \<Longrightarrow> fits a \<Longrightarrow> moves (f p) (records s) p n"
  shows "reaches (change_object v f s) ((numbers s)(v \<mapsto> n))"
proof -
  obtain p where "objects s v = Some p" "object_at (records s) p a" "fresh (records s)" using assms(1,3) by (blast elim: object_of_number)
  then show ?thesis using change_reaches [OF assms(1)] assms(4) limits_fit [OF assms(2,3)] by blast
qed

lemma define_binary:
  assumes "state_ok s" "within_limits (numbers s)" "numbers s v = Some a" "numbers s w = Some b" "numbers s x = None"
    "\<And>p q. object_at (records s) p a \<Longrightarrow> object_at (records s) q b \<Longrightarrow> fresh (records s) \<Longrightarrow> fits a \<Longrightarrow> fits b \<Longrightarrow> makes (f p q) (records s) n"
  shows "reaches (c_bind (object s v) (\<lambda>p. c_bind (object s w) (\<lambda>q. define_object x (f p q) s))) ((numbers s)(x \<mapsto> n))"
proof -
  obtain p where p: "object s v = Inr p" "object_at (records s) p a" "fresh (records s)" using assms(1,3) by (blast elim: object_of_number)
  obtain q where "object s w = Inr q" "object_at (records s) q b" using assms(1,4) by (blast elim: object_of_number)
  then show ?thesis using p define_reaches [OF assms(1,5)] assms(6) limits_fit [OF assms(2,3)] limits_fit [OF assms(2,4)] by simp
qed

lemma change_binary:
  assumes "state_ok s" "within_limits (numbers s)" "numbers s v = Some a" "numbers s w = Some b"
    "\<And>p q d. object_at (records s) p a \<Longrightarrow> object_at (records s) q b \<Longrightarrow> fresh (records s) \<Longrightarrow> mem (records s) p = Some d \<Longrightarrow>
      references d \<noteq> 0 \<Longrightarrow> fits a \<Longrightarrow> fits b \<Longrightarrow> moves (f p q) (records s) p n"
  shows "reaches (c_bind (object s w) (\<lambda>q. change_object v (\<lambda>p. f p q) s)) ((numbers s)(v \<mapsto> n))"
proof -
  obtain p d where p: "objects s v = Some p" "object_at (records s) p a" "fresh (records s)" "mem (records s) p = Some d" "references d \<noteq> 0"
    using assms(1,3) by (blast elim: object_of_number)
  obtain q where "object s w = Inr q" "object_at (records s) q b" using assms(1,4) by (blast elim: object_of_number)
  then show ?thesis using p change_reaches [OF assms(1) p(1), of "\<lambda>p. f p q"] assms(5) limits_fit [OF assms(2,3)] limits_fit [OF assms(2,4)] by simp
qed

lemma delete_reaches:
  assumes "state_ok s" "numbers s v = Some a"
  shows "reaches (exec (Delete v) s) ((numbers s)(v := None))"
proof -
  obtain p where "object s v = Inr p" "objects s v = Some p" using assms by (blast elim: object_of_number)
  then show ?thesis using delete_counted [of "records s" "objects s" v p] assms(1) by (auto simp: reaches_def state_ok_def numbers_values)
qed

lemma copy_reaches:
  assumes "state_ok s" "numbers s w = Some a" "numbers s x = None" "within_limits ((numbers s)(x \<mapsto> a))"
  shows "reaches (exec (Copy x w) s) ((numbers s)(x \<mapsto> a))"
proof -
  obtain q where q: "object s w = Inr q" "objects s w = Some q" "number_at (records s) q = a" using assms(1,2) by (blast elim: object_of_number)
  have "objects s x = None" using assms(3) by (simp add: numbers_def)
  moreover have "dom (numbers s) = dom (objects s)" by (auto simp: numbers_def dom_def)
  then have "card (dom ((objects s)(x \<mapsto> q))) < 2 ^ 32" using assms(4) by (simp add: within_limits_def)
  ultimately show ?thesis using q copy_counted [of "records s" "objects s" x w q] assms(1)
    by (auto simp: reaches_def state_ok_def numbers_values define_object_def)
qed

text \<open>An assignment between two objects is a destruction and a copy.\<close>

lemma assign_two: "v \<noteq> w \<Longrightarrow> object s v = Inr p \<Longrightarrow> object s w = Inr q \<Longrightarrow> exec (Assign v w) s = c_bind (exec (Delete v) s) (exec (Copy v w))"
  by (cases "objects s w")
     (auto simp: object_def change_object_def define_object_def bigint_assign_def bigint_delete_def bigint_copy_def c_bind_def
       split: option.splits sum.splits if_splits)

lemma assign_reaches:
  assumes s: "state_ok s" and v: "numbers s v = Some a" "numbers s w = Some b" and l: "within_limits ((numbers s)(v \<mapsto> b))"
  shows "reaches (exec (Assign v w) s) ((numbers s)(v \<mapsto> b))"
proof (cases "v = w")
  case True
  obtain p where "object s v = Inr p" "objects s v = Some p" using s v(1) by (blast elim: object_of_number)
  then show ?thesis using True s v by (simp add: reaches_def change_object_def bigint_assign_def fun_upd_idem state_ok_def numbers_values)
next
  case False
  obtain p where p: "object s v = Inr p" using s v(1) by (blast elim: object_of_number)
  obtain q where q: "object s w = Inr q" using s v(2) by (blast elim: object_of_number)
  obtain s1 where s1: "exec (Delete v) s = Inr s1" "state_ok s1" "numbers s1 = (numbers s)(v := None)"
    using delete_reaches [OF s v(1)] by (auto simp: reaches_def)
  then have "reaches (exec (Copy v w) s1) ((numbers s1)(v \<mapsto> b))" using False v(2) l by (intro copy_reaches) auto
  then show ?thesis using s1 assign_two [OF False p q] by simp
qed

lemma swap_reaches:
  assumes "state_ok s" "numbers s v = Some a" "numbers s w = Some b"
  shows "reaches (exec (Swap v w) s) ((numbers s)(v \<mapsto> b, w \<mapsto> a))"
proof -
  obtain p where p: "object s v = Inr p" "objects s v = Some p" "number_at (records s) p = a" using assms(1,2) by (blast elim: object_of_number)
  obtain q where "object s w = Inr q" "objects s w = Some q" "number_at (records s) q = b" using assms(1,3) by (blast elim: object_of_number)
  then show ?thesis using p swap_counted [of "records s" "objects s" v p w q] assms(1)
    by (simp add: reaches_def bigint_swap_def state_ok_def numbers_values)
qed

text \<open>A postfix operator is a new object, exchanged with the old one.\<close>

lemma post_reaches:
  assumes s: "state_ok s" and v: "numbers s v = Some a" "numbers s x = None"
    and l: "within_limits (numbers s)"
    and m: "\<And>p. object_at (records s) p a \<Longrightarrow> fresh (records s) \<Longrightarrow> fits a \<Longrightarrow> makes (\<lambda>h. c_bind (f p h) (\<lambda>(q, r, h). Inr (q, h))) (records s) n"
    and r: "\<And>p h q r h'. f p h = Inr (q, r, h') \<Longrightarrow> r = p"
  shows "reaches (post_object x v f s) ((numbers s)(v \<mapsto> n, x \<mapsto> a))"
proof -
  obtain p where p: "object s v = Inr p" "objects s v = Some p" "object_at (records s) p a" "fresh (records s)" using s v(1) by (blast elim: object_of_number)
  obtain q h' zs where f: "f p (records s) = Inr (q, p, h')" "made (records s) q zs h'" "canonical zs" "digits_val zs = n"
    using m [OF p(3,4) limits_fit [OF l v(1)]] r by (fastforce simp: makes_def c_bind_eq_Inr)
  have x: "objects s x = None" "x \<noteq> v" using v by (auto simp: numbers_def)
  note c = made_counted [of "records s" "objects s" x q zs h']
  let ?E = "(objects s)(x \<mapsto> q)"
  have "refs_counted h' ?E" "values_of h' ?E = (numbers s)(x \<mapsto> n)" using c x f s by (simp_all add: state_ok_def numbers_values)
  moreover have "?E v = Some p" "?E x = Some q" using p(2) x(2) by auto
  moreover have "values_of h' ?E x = Some n" "values_of h' ?E v = Some a" unfolding calculation(2) using x v by simp_all
  then have "number_at h' q = n" "number_at h' p = a" using p x by (simp_all add: values_of_def)
  moreover have "?E(v \<mapsto> q, x \<mapsto> p) = (objects s)(v \<mapsto> q, x \<mapsto> p)" using x(2) by (auto simp: fun_upd_def)
  ultimately have "refs_counted h' ((objects s)(v \<mapsto> q, x \<mapsto> p))" "values_of h' ((objects s)(v \<mapsto> q, x \<mapsto> p)) = (numbers s)(v \<mapsto> n, x \<mapsto> a)"
    using swap_counted [of h' ?E v p x q] x(2) by (auto simp: fun_upd_def)
  then show ?thesis using p x f by (simp add: reaches_def post_object_def state_ok_def numbers_values)
qed

lemma post_old:
  "bigint_post_increment p h = Inr (q, r, h') \<Longrightarrow> r = p" "bigint_post_decrement p h = Inr (q, r, h') \<Longrightarrow> r = p"
  by (auto simp: bigint_post_increment_def bigint_post_decrement_def c_bind_eq_Inr)

lemmas unary_commands = define_unary change_unary makes_uint16 moves_uint16 makes_from_uint16 moves_assign_uint16

lemmas binary_commands = define_binary change_binary makes_two moves_two

lemma loses_oneI: "b \<le> a \<Longrightarrow> ndigits a \<le> Suc (ndigits (a - b)) \<Longrightarrow> loses_one a b"
  by (simp add: loses_one_def)

lemma exec_reaches:
  assumes s: "state_ok s" and m: "meaning c (numbers s) = Some M" and k: "keeps_form c (numbers s)"
    and l: "within_limits (numbers s)" "within_limits M"
  shows "reaches (exec c s) M"
proof (cases c)
  case (New x)
  then show ?thesis using s m makes_new countedD(1) by (auto simp: compute_Some state_ok_def intro: define_reaches)
next
  case (New_Value x n)
  then show ?thesis using s m makes_uint32 countedD(1) by (auto simp: compute_Some state_ok_def intro: define_reaches)
next
  case (Copy x v)
  then show ?thesis using m l copy_reaches [OF s] by (auto simp: compute_Some simp del: exec.simps split: option.splits)
next
  case (Delete v)
  then show ?thesis using m delete_reaches [OF s] by (auto simp del: exec.simps split: option.splits)
next
  case (Assign v w)
  then show ?thesis using m l assign_reaches [OF s] by (auto simp: compute_Some simp del: exec.simps split: option.splits)
next
  case (Swap v w)
  then show ?thesis using m swap_reaches [OF s] by (auto simp del: exec.simps split: option.splits)
next
  case (Increment v)
  then show ?thesis using m change_unary [OF s l(1) _ moves_uint16(6)] by (auto simp: compute_Some split: option.splits)
next
  case (Decrement v)
  then show ?thesis using m change_unary [OF s l(1) _ moves_uint16(7)] by (auto simp: compute_Some split: option.splits)
next
  case (Post_Increment x v)
  then show ?thesis using m post_reaches [OF s _ _ l(1) makes_post(1) post_old(1)] by (auto split: option.splits if_splits)
next
  case (Post_Decrement x v)
  then show ?thesis using m post_reaches [OF s _ _ l(1) makes_post(2) post_old(2)] by (auto split: option.splits if_splits)
qed (use assms in \<open>auto simp: compute_Some small_loss_def no_zero_factor_def split: option.splits intro: unary_commands binary_commands loses_oneI\<close>)

lemma exec_all_reaches:
  "state_ok s \<Longrightarrow> meaning_all cs (numbers s) = Some M \<Longrightarrow> supported cs (numbers s) \<Longrightarrow> reaches (exec_all cs s) M"
proof (induction cs arbitrary: s)
  case (Cons c cs)
  then obtain M1 where M1: "meaning c (numbers s) = Some M1" "meaning_all cs M1 = Some M" by (auto split: option.splits)
  then have k: "keeps_form c (numbers s)" "within_limits (numbers s)" "supported cs M1" using Cons.prems(3) by simp_all
  obtain s1 where "exec c s = Inr s1" "state_ok s1" "numbers s1 = M1"
    using exec_reaches [OF Cons.prems(1) M1(1) k(1,2) supported_limits [OF k(3)]] by (auto simp: reaches_def)
  then show ?case using Cons.IH M1(2) k(3) by simp
qed (simp add: reaches_def)

lemma no_objects_ok: "state_ok no_objects" "numbers no_objects = Map.empty"
  by (simp_all add: no_objects_def state_ok_def refs_counted_def fresh_def numbers_def fun_eq_iff)

subsection \<open>Comparisons\<close>

lemma compare_objects:
  assumes "object_at h p a" "object_at h q b"
  shows "bigint_less p q h = Inr (a < b)" "bigint_equal p q h = Inr (a = b)"
  using assms is_less_than_ok is_equal_to_ok unfolding object_at_def bigint_less_def bigint_equal_def by metis+

lemma compare_uint16:
  assumes "object_at h p a"
  shows "uint16_less_bigint n p h = Inr (unat n < a)" "bigint_less_uint16 p n h = Inr (a < unat n)" "bigint_equal_uint16 p n h = Inr (a = unat n)"
proof -
  obtain xs d where x: "holds h p xs" "canonical xs" "digits_val xs = a" "fetch h p = Inr d" "unat (digits_used d) = length xs" "length xs = ndigits a"
    using assms by (blast elim: object_atE)
  have "xs \<noteq> []" using x(2) by (simp add: canonical_def)
  have one: "rd h p 0 = Inr (xs ! 0)" "unat (xs ! 0) = a" if "length xs = 1" using that x(3) holds_rd [OF x(1), of 0] by (cases xs; auto)+
  have many: "65536 \<le> a" "1 < length xs" if "length xs \<noteq> 1"
    using that x(6) \<open>xs \<noteq> []\<close> by (auto simp: ndigits.simps [of a] Suc_lessI split: if_splits)
  show "uint16_less_bigint n p h = Inr (unat n < a)" "bigint_less_uint16 p n h = Inr (a < unat n)" "bigint_equal_uint16 p n h = Inr (a = unat n)"
    using one many x(4,5) unat_digit [of n]
    by (cases "length xs = 1"; auto simp: uint16_less_bigint_def bigint_less_uint16_def bigint_equal_uint16_def word_less_nat_alt word_unat_eq_iff)+
qed

subsection \<open>Properties\<close>


lemmas evaluate_programs = compute_def small_loss_def no_zero_factor_def within_limits_def fits_def ndigits.simps


text \<open>
  The comparison operators of the class compare the numbers: in every state that such a program reaches, \<open><\<close> and
  \<open>==\<close> between two objects, and between an object and a 16-bit number, give the truth.
\<close>
theorem bigint_comparisons_correct:
  assumes "meaning_all cs Map.empty = Some M" "supported cs Map.empty" "exec_all cs no_objects = Inr s"
    "objects s v = Some p" "objects s w = Some q" "M v = Some a" "M w = Some b"
  shows "bigint_less p q (records s) = Inr (a < b) \<and> bigint_equal p q (records s) = Inr (a = b) \<and>
    uint16_less_bigint n p (records s) = Inr (unat n < a) \<and> bigint_less_uint16 p n (records s) = Inr (a < unat n) \<and>
    bigint_equal_uint16 p n (records s) = Inr (a = unat n)"
proof -
  have s: "state_ok s" "numbers s = M" using exec_all_reaches [of no_objects cs M] no_objects_ok assms(1-3) by (auto simp: reaches_def)
  then have "object_at (records s) p a" "object_at (records s) q b" using assms(4-7) by (auto elim: object_of_number)
  then show ?thesis by (simp add: compare_objects compare_uint16)
qed

theorem bigint_comparisons_correct_witness:
  "\<exists>s p q. exec_all [New_Value 0 0xFFFFFFFF, Plus_Value 1 0 2] no_objects = Inr s \<and> objects s 0 = Some p \<and> objects s 1 = Some q \<and>
    bigint_less p q (records s) = Inr True \<and> bigint_equal p q (records s) = Inr False \<and> bigint_less_uint16 p 7 (records s) = Inr False"
proof -
  let ?cs = "[New_Value 0 0xFFFFFFFF, Plus_Value 1 0 2]"
  have m: "meaning_all ?cs Map.empty = Some [0 \<mapsto> 4294967295, 1 \<mapsto> 4294967297]" by (simp add: compute_def)
  have k: "supported ?cs Map.empty" by (simp add: evaluate_programs)
  obtain s where s: "exec_all ?cs no_objects = Inr s" "numbers s = [0 \<mapsto> 4294967295, 1 \<mapsto> 4294967297]"
    using exec_all_reaches [OF no_objects_ok(1), of ?cs] m k no_objects_ok(2) by (auto simp: reaches_def simp del: exec_all.simps meaning_all.simps supported.simps)
  then have "numbers s 0 = Some 4294967295" "numbers s 1 = Some 4294967297" by simp_all
  then obtain p q where "objects s 0 = Some p" "objects s 1 = Some q" by (auto simp: numbers_def)
  then show ?thesis using bigint_comparisons_correct [OF m k s(1), of 0 p 1 q 4294967295 4294967297 7] s(1) by auto
qed

subsection \<open>Where the class goes wrong\<close>

text \<open>
  \<open>long_sub\<close> drops one leading zero only: \<open>2 ^ 32 + 1 - 2 ^ 32\<close> has two digits, so that it does not
  compare equal to 1, and 5 divided by it is 0.
\<close>

lemma difference_not_one:
  "case bigint_minus 0 1 (store_of [with_digits [1, 0, 1] 0, with_digits [0, 0, 1] 0]) of
     Inr (p, h) \<Rightarrow> digits_of h p = Some [Some 1, Some 0] \<and> bigint_equal_uint16 p 1 h = Inr False \<and>
       (case uint16_divide_bigint 5 p h of Inr (q, h) \<Rightarrow> digits_of h q = Some [Some 0] | Inl e \<Rightarrow> False)
   | Inl e \<Rightarrow> False"
  by code_simp

text \<open>The product of \<open>65536\<close> with the 16-bit number 0 has two digits, so that it does not compare equal to 0.\<close>

lemma product_not_zero:
  "case bigint_times_uint16 0 0 (store_of [with_digits [0, 1] 0]) of
     Inr (p, h) \<Rightarrow> digits_of h p = Some [Some 0, Some 0] \<and> bigint_equal_uint16 p 0 h = Inr False
   | Inl e \<Rightarrow> False"
  by code_simp

end
