(* ===== verification/Bigint_Division.thy ===== *)
theory Bigint_Division
  imports Bigint_Program
begin

text \<open>
  Division of two numbers in \<open>bigint_kernel_1\<close>.  The loops of \<open>long_div\<close> are right as long as \<open>long_sub\<close>
  leaves numbers in canonical form, which it does for dividends of at most two digits without a leading zero; for a
  dividend of three digits, or one with a leading zero, the quotient may be wrong.
\<close>

subsection \<open>Records with a number and some room\<close>

definition roomy :: "digit_heap \<Rightarrow> nat \<Rightarrow> nat \<Rightarrow> nat \<Rightarrow> bool" where
  "roomy h p N n \<longleftrightarrow> object_at h p n \<and> (\<exists>d. mem h p = Some d \<and> N \<le> length (number d))"

lemma roomyE:
  assumes "roomy h p N n"
  obtains xs d where "holds h p xs" "canonical xs" "digits_val xs = n" "mem h p = Some d" "N \<le> length (number d)" "length xs = ndigits n"
  using assms canonical_ndigits unfolding roomy_def object_at_def by metis

text \<open>What a step on the record \<open>p\<close> gives.\<close>

definition steps_to :: "digit_heap c \<Rightarrow> digit_heap \<Rightarrow> nat \<Rightarrow> nat \<Rightarrow> nat \<Rightarrow> bool" where
  "steps_to res h p N n \<longleftrightarrow> (\<exists>h'. res = Inr h' \<and> evolves {p} h h' \<and> fresh h' \<and> roomy h' p N n)"

lemma steps_toE:
  assumes "steps_to res h p N n"
  obtains h' where "res = Inr h'" "evolves {p} h h'" "fresh h'" "roomy h' p N n"
  using assms by (auto simp: steps_to_def)

lemma steps_toI:
  assumes "\<exists>h' zs. res = Inr h' \<and> evolves {p} h h' \<and> fresh h' \<and> holds h' p zs \<and> canonical zs \<and> digits_val zs = n"
    "mem h p = Some d" "N \<le> length (number d)"
  shows "steps_to res h p N n"
proof -
  obtain h' zs where h: "res = Inr h'" "evolves {p} h h'" "fresh h'" "holds h' p zs" "canonical zs" "digits_val zs = n" using assms(1) by blast
  obtain d' where "mem h' p = Some d'" "length (number d') = length (number d)" using evolves_size [OF h(2) assms(2)] by blast
  then show ?thesis using h assms(3) unfolding steps_to_def roomy_def object_at_def by (intro exI [of _ h'] conjI) auto
qed

lemma roomy_frame: "evolves S h h' \<Longrightarrow> q \<notin> S \<Longrightarrow> roomy h' q N n = roomy h q N n"
  using object_at_same(1) [of h' q h n] by (auto simp: evolves_def roomy_def)

lemma shift_left_steps:
  assumes p: "roomy h p K n" and r: "mem h r = Some d" "N \<le> length (number d)" "ndigits n + s div 16 < N" and f: "fresh h" and n: "0 < n \<or> s < 16"
  shows "steps_to (shift_left p r s h) h r N (n * 2 ^ s)"
proof -
  obtain xs where x: "holds h p xs" "canonical xs" "digits_val xs = n" "length xs = ndigits n" using p by (blast elim: roomyE)
  obtain ws k where w: "shift_left p r s h = Inr (put_record r (stored ws k d) h)" "length ws = Suc (length xs + s div 16)" "0 < k" "k \<le> length ws"
    "digits_val (take k ws) = n * 2 ^ s" "canonical (take k ws)"
    using shift_left_ok [OF x(1) r(1), of s] x(2-4) r(2,3) n by auto
  show ?thesis using op_store [OF w(1,3,4) _ r(1) f w(6,5)] w(2) x(4) r by (intro steps_toI [OF _ r(1,2)]) simp
qed

lemma shift_right_steps:
  assumes p: "roomy h p N n" and f: "fresh h"
  shows "steps_to (shift_right p p h) h p N (n div 2)"
proof -
  obtain xs d where x: "holds h p xs" "canonical xs" "digits_val xs = n" "mem h p = Some d" "N \<le> length (number d)" using p by (blast elim: roomyE)
  have l: "length xs \<le> length (number d)" using x(1,4) by (auto simp: holds_def)
  obtain zs k where z: "shift_right p p h = Inr (put_record p (stored zs k d) h)" "length zs = length xs" "0 < k" "k \<le> length xs"
    "digits_val (take k zs) = n div 2" "canonical (take k zs)" using shift_right_ok [OF x(1,4) l] x(2,3) by auto
  show ?thesis using op_store [OF z(1,3) _ _ x(4) f z(6,5)] z(2,4) l by (intro steps_toI [OF _ x(4,5)]) simp
qed

lemma long_sub_steps:
  assumes "roomy h p N m" "roomy h q K n" "loses_one m n" "fresh h"
  shows "steps_to (long_sub p q p h) h p N (m - n)"
proof -
  obtain xs d where x: "holds h p xs" "canonical xs" "digits_val xs = m" "mem h p = Some d" "N \<le> length (number d)" using assms(1) by (blast elim: roomyE)
  obtain ys where y: "holds h q ys" "canonical ys" "digits_val ys = n" using assms(2) by (blast elim: roomyE)
  have "length xs \<le> length (number d)" using x(1,4) by (auto simp: holds_def)
  then show ?thesis using long_subtracting.kern_in_place [OF x(1), of q ys d] x y assms(3,4) by (intro steps_toI [OF _ x(4,5)]) auto
qed

lemma is_less_roomy: "roomy h p N m \<Longrightarrow> roomy h q K n \<Longrightarrow> is_less_than p q h = Inr (m < n)"
  using compare_objects(1) [of h p m q n] by (simp add: roomy_def bigint_less_def)

subsection \<open>The increment inside the loop\<close>

lemma over_rest:
  assumes "length xs \<le> length (number d)" "take (length xs) (number d) = map Some xs" "length zs \<le> length xs"
  shows "over 0 (zs @ drop (length zs) xs) d = over 0 zs d"
proof -
  have "drop (length zs) (number d) = drop (length zs) (take (length xs) (number d)) @ drop (length xs) (number d)"
    using assms(3) by (metis append_take_drop_id drop_append drop_drop le_add_diff_inverse2 length_take min.absorb2 assms(1) drop_all drop_0 append_Nil2 diff_is_0_eq)
  then show ?thesis using assms by (simp add: over_def drop_map)
qed

lemma bump_loop_ok:
  assumes p: "holds h r xs" and r: "mem h r = Some d" "length xs < length (number d)"
  shows "length ys + n = length xs \<Longrightarrow> bump_loop r n (length ys) (put_record r (over 0 ys d) h) =
    (let ws = ys @ inc (drop (length ys) xs) in Inr (put_record r (stored ws (length ws) d) h))"
proof (induction n arbitrary: ys)
  case 0
  have u: "unat (digits_used d) = length xs" using p r(1) by (auto simp: holds_def)
  have "wr r (0 + length ys) 1 (put_record r (over 0 ys d) h) = Inr (put_record r (over 0 (ys @ [1]) d) h)" using 0 r(2) by (intro wr_over) simp
  then show ?case using 0 u [symmetric] by (simp add: set_used_def Let_def stored_def)
next
  case (Suc n)
  let ?i = "length ys"
  have d: "unat (digits_used d) = length xs" "take (length xs) (number d) = map Some xs" using p r(1) by (auto simp: holds_def)
  have x: "rd (put_record r (over 0 ys d) h) r ?i = Inr (xs ! ?i)" using Suc.prems r by (intro rd_while [OF p r(1)]) simp_all
  have w: "wr r ?i y (put_record r (over 0 ys d) h) = Inr (put_record r (over 0 (ys @ [y]) d) h)" for y
    using wr_over [of 0 ys d r y h] Suc.prems r(2) by simp
  have t: "drop ?i xs = xs ! ?i # drop (Suc ?i) xs" using Suc.prems by (simp add: Cons_nth_drop_Suc)
  show ?case
  proof (cases "xs ! ?i + 1 = 0")
    case True
    then show ?thesis using Suc.IH [of "ys @ [0]"] Suc.prems x w t by (simp add: Let_def)
  next
    case False
    let ?ws = "(ys @ [xs ! ?i + 1]) @ drop (length (ys @ [xs ! ?i + 1])) xs"
    have "over 0 ?ws d = over 0 (ys @ [xs ! ?i + 1]) d" using Suc.prems r(2) d(2) by (intro over_rest) simp_all
    moreover have "length ?ws = length xs" using Suc.prems by simp
    moreover have "over 0 (ys @ [xs ! ?i + 1]) d \<lparr> digits_used := of_nat (length xs) \<rparr> = over 0 (ys @ [xs ! ?i + 1]) d"
      using d(1) [symmetric] by (cases d) (simp add: over_def)
    ultimately have "stored ?ws (length ?ws) d = over 0 (ys @ [xs ! ?i + 1]) d" by (simp only: stored_def)
    then show ?thesis using False x w t by (simp add: Let_def)
  qed
qed

lemma bump_steps:
  assumes p: "roomy h p N n" and l: "ndigits n < N" and f: "fresh h"
  shows "steps_to (c_bind (fetch h p) (\<lambda>d. bump_loop p (unat (digits_used d)) 0 h)) h p N (n + 1)"
proof -
  obtain xs d where x: "holds h p xs" "canonical xs" "digits_val xs = n" "mem h p = Some d" "N \<le> length (number d)" "length xs = ndigits n"
    using p by (blast elim: roomyE)
  have "fetch h p = Inr d" "unat (digits_used d) = length xs" using x(1,4) by (auto simp: fetch_def holds_def)
  then have b: "c_bind (fetch h p) (\<lambda>d. bump_loop p (unat (digits_used d)) 0 h) = Inr (put_record p (stored (inc xs) (length (inc xs)) d) h)"
    using bump_loop_ok [OF x(1,4), of "[]" "length xs"] x l by (simp add: put_same Let_def)
  have "length (inc xs) \<le> length (number d)" using length_inc [of xs] x(5,6) l by simp
  then show ?thesis using op_store_all [OF b _ x(4) f canonical_inc [OF x(2)]] val_inc [of xs] x(3) by (intro steps_toI [OF _ x(4,5)]) simp
qed

subsection \<open>The loops\<close>

lemma ndigits_small: "n < 4294967296 \<Longrightarrow> ndigits n \<le> 2"
  by (simp add: ndigits.simps [of n] ndigits.simps [of "n div 65536"] div_less_iff_less_mult)

lemma loses_one_small: "n \<le> m \<Longrightarrow> m < 4294967296 \<Longrightarrow> loses_one m n"
  using ndigits_small [of m] ndigits.simps [of "m - n"] by (simp add: loses_one_def split: if_splits)

lemma evolves_fresh:
  assumes "evolves S h h'" "fresh h" "\<And>s. s \<in> S \<Longrightarrow> mem h s \<noteq> None"
  shows "fresh h'"
  unfolding fresh_def
proof (intro conjI allI impI)
  fix a assume a: "next_addr h' \<le> a"
  then have "mem h a = None" using assms(1,2) unfolding fresh_def evolves_def by (meson le_trans)
  then show "mem h' a = None" using assms(1,3) unfolding evolves_def by metis
next
  show "length (number d) < 2 ^ 32" if d: "mem h' a = Some d" for a d
  proof (cases "mem h a")
    case None
    then have "a \<notin> S" using assms(3) [of a] by auto
    then show ?thesis using assms(1) d None by (simp add: evolves_def)
  next
    case (Some e)
    obtain d' where "mem h' a = Some d'" "length (number d') = length (number e)" using evolves_size [OF assms(1) Some] by blast
    then show ?thesis using fresh_size [OF assms(2) Some] d by simp
  qed
qed

lemma evolves_mono: "evolves S h h' \<Longrightarrow> S \<subseteq> U \<Longrightarrow> evolves U h h'"
  by (auto simp: evolves_def)

lemma evolves_chain: "evolves U h h' \<Longrightarrow> evolves U h' h'' \<Longrightarrow> evolves U h h''"
  by (erule (1) evolves_trans) simp_all

lemma div_loop_ok:
  assumes "roomy h r N R" "roomy h m N M" "n \<noteq> 0 \<Longrightarrow> roomy h t N (b * 2 ^ (n - 1))" "M < b * 2 ^ n" "M < 4294967296"
    "R * 2 ^ n + M div b < 4294967296" "2 < N" "fresh h" "r \<noteq> m" "r \<noteq> t" "m \<noteq> t"
  shows "\<exists>h'. div_loop t r m n h = Inr h' \<and> evolves {t, r, m} h h' \<and> fresh h' \<and> roomy h' r N (R * 2 ^ n + M div b) \<and> roomy h' m N (M mod b)"
  using assms
proof (induction n arbitrary: h R M)
  case (Suc n)
  let ?T = "b * 2 ^ n"
  have T: "roomy h t N ?T" using Suc.prems(3) by simp
  have "R * 1 \<le> R * 2 ^ Suc n" by (intro mult_left_mono) simp_all
  then have R: "ndigits R \<le> 2" using Suc.prems(6) by (intro ndigits_small) linarith
  obtain h1 where h1: "shift_left r r 1 h = Inr h1" "evolves {r} h h1" "fresh h1" "roomy h1 r N (R * 2)"
    using shift_left_steps [OF Suc.prems(1), of r _ N 1] Suc.prems(1,7,8) R by (auto elim!: steps_toE simp: roomy_def)
  have k1: "roomy h1 m N M" "roomy h1 t N ?T" using roomy_frame [OF h1(2)] Suc.prems(2,9,10) T by auto
  have less: "is_less_than m t h1 = Inr (M < ?T)" using is_less_roomy [OF k1] .
  define M' where "M' = (if M < ?T then M else M - ?T)"
  define R' where "R' = R * 2 + (if M < ?T then 0 else 1)"
  have M: "M' < b * 2 ^ n" "M' < 4294967296" using Suc.prems(4,5) by (auto simp: M'_def)
  have "0 < b" using Suc.prems(4) by (cases b) auto
  then have q: "M div b = M' div b + (if M < ?T then 0 else 2 ^ n)" "M mod b = M' mod b"
    using div_add_self1 [of b] by (auto simp: M'_def not_less le_div_geq dest!: le_Suc_ex)
  have e: "R' * 2 ^ n + M' div b = R * 2 ^ Suc n + M div b" unfolding q(1) by (simp add: R'_def algebra_simps)
  have e': "R' * 2 ^ n + M' div b < 4294967296" unfolding e by (rule Suc.prems(6))
  obtain h2 where h2: "(if \<not> M < ?T then c_bind (long_sub m t m h1) (\<lambda>h. c_bind (fetch h r) (\<lambda>d. bump_loop r (unat (digits_used d)) 0 h)) else Inr h1) = Inr h2"
    "evolves {r, m} h1 h2" "fresh h2" "roomy h2 r N R'" "roomy h2 m N M'"
  proof (cases "M < ?T")
    case True
    then show ?thesis using that [of h1] h1 k1 by (simp add: R'_def M'_def)
  next
    case False
    have "loses_one M ?T" using False Suc.prems(5) by (intro loses_one_small) simp_all
    then obtain g where g: "long_sub m t m h1 = Inr g" "evolves {m} h1 g" "fresh g" "roomy g m N (M - ?T)"
      using long_sub_steps [OF k1 _ h1(3)] by (blast elim: steps_toE)
    have "R * 2 * 1 \<le> R * 2 * 2 ^ n" by (intro mult_left_mono) simp_all
    moreover have "R * 2 ^ Suc n = R * 2 * 2 ^ n" by simp
    ultimately have "R * 2 < 4294967296" using Suc.prems(6) by linarith
    then have "ndigits (R * 2) < N" using Suc.prems(7) ndigits_small [of "R * 2"] by linarith
    then obtain g' where g': "c_bind (fetch g r) (\<lambda>d. bump_loop r (unat (digits_used d)) 0 g) = Inr g'" "evolves {r} g g'" "fresh g'" "roomy g' r N (R * 2 + 1)"
      using bump_steps [of g r N "R * 2"] roomy_frame [OF g(2)] h1(4) g(3) Suc.prems(9) by (auto elim: steps_toE)
    then show ?thesis using that [of g'] False g evolves_trans [OF g(2) g'(2)] roomy_frame [OF g'(2)] Suc.prems(9) by (simp add: R'_def M'_def)
  qed
  have "roomy h2 t N ?T" using roomy_frame [OF h2(2)] k1(2) Suc.prems(10,11) by simp
  then obtain h3 where h3: "shift_right t t h2 = Inr h3" "evolves {t} h2 h3" "fresh h3" "roomy h3 t N (?T div 2)"
    using shift_right_steps h2(3) by (blast elim: steps_toE)
  have k3: "roomy h3 r N R'" "roomy h3 m N M'" using roomy_frame [OF h3(2)] h2(4,5) Suc.prems(10,11) by auto
  have t3: "roomy h3 t N (b * 2 ^ (n - 1))" if "n \<noteq> 0" using h3(4) that by (cases n) simp_all
  obtain h' where h': "div_loop t r m n h3 = Inr h'" "evolves {t, r, m} h3 h'" "fresh h'" "roomy h' r N (R' * 2 ^ n + M' div b)" "roomy h' m N (M' mod b)"
    using Suc.IH [OF k3 t3 M e' Suc.prems(7) h3(3) Suc.prems(9-11)] by blast
  have "evolves {t, r, m} h h'"
    by (intro evolves_chain [OF evolves_mono [OF h1(2)] evolves_chain [OF evolves_mono [OF h2(2)] evolves_chain [OF evolves_mono [OF h3(2)] h'(2)]]]) auto
  then show ?case using h1(1) less h2(1) h3(1) h' e q(2) by simp
qed simp

lemma left_loop_ok:
  assumes "roomy h t N (b * 2 ^ k)" "roomy h l K a" "0 < b" "a < 4294967296" "2 < N" "fresh h" "l \<noteq> t"
  shows "\<exists>h' k'. left_loop t l (of_nat k) h = Some (Inr (of_nat k', h')) \<and> evolves {t} h h' \<and> fresh h' \<and> roomy h' t N (b * 2 ^ k') \<and>
    a \<le> b * 2 ^ k'"
  using assms
proof (induction "a - b * 2 ^ k" arbitrary: h k rule: less_induct)
  case less
  have c: "is_less_than t l h = Inr (b * 2 ^ k < a)" using is_less_roomy [OF less.prems(1,2)] .
  show ?case
  proof (cases "b * 2 ^ k < a")
    case False
    then show ?thesis using c less.prems by (subst left_loop.simps) auto
  next
    case True
    then have "ndigits (b * 2 ^ k) < N" using ndigits_small [of "b * 2 ^ k"] less.prems(4,5) by simp
    then obtain h1 where h1: "shift_left t t 1 h = Inr h1" "evolves {t} h h1" "fresh h1" "roomy h1 t N (b * 2 ^ Suc k)"
      using shift_left_steps [OF less.prems(1), of t _ N 1] less.prems(1,6) by (auto elim!: steps_toE simp: roomy_def mult_ac)
    have "0 < b * 2 ^ k" using less.prems(3) by simp
    moreover have "b * 2 ^ Suc k = 2 * (b * 2 ^ k)" by simp
    ultimately have "a - b * 2 ^ Suc k < a - b * 2 ^ k" using True by linarith
    moreover have "roomy h1 l K a" using roomy_frame [OF h1(2)] less.prems(2,7) by simp
    ultimately obtain h' k' where h': "left_loop t l (of_nat (Suc k)) h1 = Some (Inr (of_nat k', h'))" "evolves {t} h1 h'" "fresh h'"
      "roomy h' t N (b * 2 ^ k')" "a \<le> b * 2 ^ k'" using less.hyps [of "Suc k" h1] h1(3,4) less.prems(3-5,7) by blast
    then have "left_loop t l (of_nat k) h = Some (Inr (of_nat k', h'))" using c True h1(1) by (subst left_loop.simps) (simp add: add.commute)
    then show ?thesis using h' evolves_trans [OF h1(2) h'(2)] by blast
  qed
qed

lemma right_loop_ok:
  assumes "roomy h t N (b * 2 ^ k)" "roomy h l K a" "b \<le> a" "a < b * 2 ^ Suc k" "fresh h" "l \<noteq> t"
  shows "\<exists>h' k'. right_loop t l (of_nat k) h = Some (Inr (of_nat k', h')) \<and> evolves {t} h h' \<and> fresh h' \<and> roomy h' t N (b * 2 ^ k') \<and>
    b * 2 ^ k' \<le> a \<and> a < b * 2 ^ Suc k'"
  using assms
proof (induction k arbitrary: h)
  case 0
  have "is_less_than l t h = Inr False" using is_less_roomy [OF 0(2,1)] 0(3) by simp
  then show ?case using 0 by (subst right_loop.simps) (auto intro!: exI [of _ "0 :: nat"])
next
  case (Suc k)
  have c: "is_less_than l t h = Inr (a < b * 2 ^ Suc k)" using is_less_roomy [OF Suc.prems(2,1)] .
  show ?case
  proof (cases "a < b * 2 ^ Suc k")
    case False
    then show ?thesis using c Suc.prems by (subst right_loop.simps) (auto simp del: of_nat_Suc intro!: exI [of _ "Suc k"])
  next
    case True
    obtain h1 where h1: "shift_right t t h = Inr h1" "evolves {t} h h1" "fresh h1" "roomy h1 t N (b * 2 ^ k)"
      using shift_right_steps [OF Suc.prems(1,5)] by (auto elim: steps_toE)
    have "roomy h1 l K a" using roomy_frame [OF h1(2)] Suc.prems(2,6) by simp
    then obtain h' k' where h': "right_loop t l (of_nat k) h1 = Some (Inr (of_nat k', h'))" "evolves {t} h1 h'" "fresh h'"
      "roomy h' t N (b * 2 ^ k')" "b * 2 ^ k' \<le> a" "a < b * 2 ^ Suc k'" using Suc.IH [of h1] h1(3,4) Suc.prems(3,6) True by blast
    then have "right_loop t l (of_nat (Suc k)) h = Some (Inr (of_nat k', h'))" using c True h1(1) by (subst right_loop.simps) simp
    then show ?thesis using h' evolves_trans [OF h1(2) h'(2)] by blast
  qed
qed

subsection \<open>The whole division\<close>

lemma ndigits_pos: "Suc 0 \<le> ndigits n"
  by (simp add: ndigits.simps [of n])

lemma ndigits_mono_small: "b \<le> a \<Longrightarrow> a < 4294967296 \<Longrightarrow> 1 \<le> ndigits b \<and> ndigits b \<le> ndigits a \<and> ndigits a \<le> 2"
  using ndigits_small [of a] ndigits_small [of b] ndigits_pos [of "a div 65536"]
  by (auto simp: ndigits.simps [of a] ndigits.simps [of b] split: if_splits)

lemma roomy_mono: "roomy h p N n \<Longrightarrow> K \<le> N \<Longrightarrow> roomy h p K n"
  by (auto simp: roomy_def)

lemma new_record_put:
  "sz \<noteq> 0 \<Longrightarrow> \<exists>e. new_record sz h = Inr (next_addr h, put_record (next_addr h) e (h \<lparr> next_addr := next_addr h + 1 \<rparr>)) \<and>
    length (number e) = unat sz \<and> references e = 1 \<and> digits_used e = 1 \<and> number e ! 0 = Some 0"
  by (intro exI [of _ "\<lparr> number = (replicate (unat sz) None)[0 := Some 0], references = 1, digits_used = 1 \<rparr>"]) (simp add: new_record_def Let_def unat_gt_0)

lemma shifts_start: "1 \<le> j \<Longrightarrow> j \<le> i \<Longrightarrow> i \<le> 2 \<Longrightarrow> (of_nat i - of_nat j) * 8 = (of_nat ((i - j) * 8) :: u32) \<and> unat (of_nat ((i - j) * 8) :: u32) = (i - j) * 8"
proof -
  assume "1 \<le> j" "j \<le> i" "i \<le> 2"
  then have "i = 1 \<and> j = 1 \<or> i = 2 \<and> j = 1 \<or> i = 2 \<and> j = 2" by arith
  then show ?thesis by auto
qed

lemma unat_shifts: "k < 32 \<Longrightarrow> unat (of_nat k + 1 :: u32) = Suc k"
proof -
  assume k: "k < 32"
  have "(of_nat k + 1 :: u32) = of_nat (Suc k)" by simp
  then show ?thesis using k by (simp only: unat_of_nat) simp
qed

lemma unat_word: "unat x = n \<Longrightarrow> x = (of_nat n :: 'a :: len word)"
  by auto

lemma long_div_rest_ok:
  assumes l: "roomy h l K a" and q: "roomy h q K' b" and r: "roomy h r 3 0" and m: "roomy h m 3 a"
    and b: "0 < b" "b \<le> a" "a < 4294967296" and f: "fresh h" and d: "r \<noteq> m" "l \<noteq> r" "l \<noteq> m"
  shows "\<exists>h'. long_div_rest l q r m h = Some (Inr h') \<and> evolves {r, m} h h' \<and> fresh h' \<and> roomy h' r 3 (a div b) \<and> roomy h' m 3 (a mod b)"
proof -
  have u: "\<exists>e. fetch h p = Inr e \<and> unat (digits_used e) = ndigits n" if "roomy h p N n" for p N n
    using that by (auto simp: holds_def fetch_def elim!: roomyE)
  obtain dl dr where u: "fetch h l = Inr dl" "fetch h q = Inr dr" "unat (digits_used dl) = ndigits a" "unat (digits_used dr) = ndigits b" using u [OF l] u [OF q] by auto
  have w: "digits_used dl = of_nat (ndigits a)" "digits_used dr = of_nat (ndigits b)" using u(3,4) by (auto dest: unat_word)
  note n = ndigits_mono_small [OF b(2,3)]
  have ds: "unat (digits_used dl) < 2 ^ 27" using u(3) n by simp
  let ?t = "next_addr h" and ?S = "ndigits a + 25" and ?k = "(ndigits a - ndigits b) * 8"
  obtain e where e: "new_record (digits_used dl + slack) h = Inr (?t, put_record ?t e (h \<lparr> next_addr := ?t + 1 \<rparr>))" "length (number e) = ?S"
    using new_record_put [of "digits_used dl + slack" h] size_slack(1,2) [OF ds ds] u(3) by auto
  define g where "g = put_record ?t e (h \<lparr> next_addr := ?t + 1 \<rparr>)"
  have ne: "p \<noteq> ?t" if "roomy h p N n" for p N n using that f by (auto simp: roomy_def fresh_def)
  have g: "roomy g p N n" if "roomy h p N n" for p N n
    using that ne [OF that] object_at_same(1) [of g p h n] by (simp add: roomy_def g_def)
  have fg: "fresh g" "mem g ?t = Some e" using f e(2) n by (auto simp: fresh_def g_def)
  have "?k \<le> 8" using n by linarith
  then have "?k div 16 = 0" by (intro div_less) linarith
  then obtain g1 where g1: "shift_left q ?t ?k g = Inr g1" "evolves {?t} g g1" "fresh g1" "roomy g1 ?t ?S (b * 2 ^ ?k)"
    using shift_left_steps [OF g [OF q] fg(2), of ?S ?k] e(2) n b(1) fg(1) by (auto elim: steps_toE)
  have lt: "l \<noteq> ?t" "r \<noteq> ?t" "m \<noteq> ?t" using ne l r m by auto
  have "roomy g1 l K a" using roomy_frame [OF g1(2)] g [OF l] lt by simp
  then obtain g2 k2 where g2: "left_loop ?t l (of_nat ?k) g1 = Some (Inr (of_nat k2, g2))" "evolves {?t} g1 g2" "fresh g2" "roomy g2 ?t ?S (b * 2 ^ k2)" "a \<le> b * 2 ^ k2"
    using left_loop_ok [OF g1(4) _ b(1,3) _ g1(3) lt(1), of K] by fastforce
  have "roomy g2 l K a" using roomy_frame [OF g2(2)] \<open>roomy g1 l K a\<close> lt by simp
  moreover have "a < b * 2 ^ Suc k2" using g2(5) b by simp
  ultimately obtain g3 k where g3: "right_loop ?t l (of_nat k2) g2 = Some (Inr (of_nat k, g3))" "evolves {?t} g2 g3" "fresh g3" "roomy g3 ?t ?S (b * 2 ^ k)"
    "b * 2 ^ k \<le> a" "a < b * 2 ^ Suc k" using right_loop_ok [OF g2(4) _ b(2) _ g2(3) lt(1)] by blast
  have "1 * 2 ^ k \<le> b * 2 ^ k" using b(1) by (intro mult_right_mono) simp_all
  then have "(2 :: nat) ^ k < 4294967296" using g3(5) b(3) by linarith
  then have "(2 :: nat) ^ k < 2 ^ 32" by simp
  then have k: "k < 32" by (simp only: power_strict_increasing_iff)
  note s = unat_shifts [OF k]
  have e3: "evolves {?t} g g3" by (rule evolves_chain [OF g1(2) evolves_chain [OF g2(2) g3(2)]])
  have "roomy g3 r 3 0" "roomy g3 m 3 a" "roomy g3 ?t 3 (b * 2 ^ (Suc k - 1))"
    using roomy_frame [OF e3] g [OF r] g [OF m] lt roomy_mono [OF g3(4)] by auto
  then obtain g4 where g4: "div_loop ?t r m (Suc k) g3 = Inr g4" "evolves {?t, r, m} g3 g4" "fresh g4" "roomy g4 r 3 (a div b)" "roomy g4 m 3 (a mod b)"
    using div_loop_ok [of g3 r 3 0 m a "Suc k" ?t b] g3(3,6) b d(1) lt(2,3) div_le_dividend [of a b] by (auto simp del: div_loop.simps)
  let ?h = "g4 \<lparr> mem := (mem g4)(?t := None) \<rparr>"
  have "evolves {?t, r, m} g g4" using evolves_trans [OF e3 g4(2)] by simp
  then have "evolves {r, m} h ?h" "fresh ?h" using local_frame [of "{r, m}" h h e g4] f r m by (auto simp: g_def roomy_def)
  moreover have "roomy ?h r 3 (a div b)" "roomy ?h m 3 (a mod b)"
    using g4(4,5) lt object_at_same(1) [of ?h r g4] object_at_same(1) [of ?h m g4] by (auto simp: roomy_def)
  moreover obtain e4 where "mem g4 ?t = Some e4" using evolves_size [OF \<open>evolves {?t, r, m} g g4\<close> fg(2)] by blast
  then have "delete_record ?t g4 = Inr ?h" by (simp add: delete_record_def fetch_def)
  ultimately show ?thesis using u(1,2) e(1) g1(1) g2(1) g3(1) g4(1) s shifts_start [of "ndigits b" "ndigits a"] n
    unfolding long_div_rest_def g_def [symmetric] by (simp add: Let_def w del: div_loop.simps)
qed

lemma long_div_ok:
  assumes l: "roomy h l K a" and q: "roomy h q K' b" and r: "mem h r = Some dr" "3 \<le> length (number dr)"
    and m: "mem h m = Some dm" "3 \<le> length (number dm)" and b: "0 < b" "a < 4294967296" and f: "fresh h"
    and d: "r \<noteq> m" "l \<noteq> r" "l \<noteq> m" "q \<noteq> r" "q \<noteq> m"
  shows "\<exists>h'. long_div l q r m h = Some (Inr h') \<and> evolves {r, m} h h' \<and> fresh h' \<and> roomy h' r 3 (a div b) \<and> roomy h' m 3 (a mod b)"
proof -
  obtain xs dl where x: "holds h l xs" "canonical xs" "digits_val xs = a" "mem h l = Some dl" "length xs = ndigits a" using l by (blast elim: roomyE)
  have n: "length xs \<le> length (number dm)" "0 < length xs" using ndigits_small [OF b(2)] ndigits_pos [of a] x(5) m(2) by linarith+
  define h1 where "h1 = put_record r (stored [0] 1 dr) h"
  have z: "c_bind (set_used r 1 h) (\<lambda>h. wr r 0 0 h) = Inr h1" using zero_record [OF r(1), of 2] r(2) by (simp add: h1_def)
  have e1: "evolves {r} h h1" "holds h1 r [0]" using put_store [OF r(1), of 1 "[0]"] r(2) fresh_size [OF f r(1)] unfolding h1_def by simp_all
  have k1: "holds h1 l xs" "mem h1 m = Some dm" "mem h1 l = Some dl" using evolves_holds [OF e1(1)] x(1,4) d m(1) by (simp_all add: h1_def)
  define h2 where "h2 = put_record m (stored xs (length xs) dm) h1"
  have c: "c_bind (set_used m (length xs) h1) (\<lambda>h. c_bind (up_loop (copy_digit l) m (length xs) 0 () h) (\<lambda>(_, h). Inr h)) = Inr h2"
    using copy_rest [OF k1(1,2) n(1), of "[]" "length xs" "length xs"] by (simp add: h2_def put_same k1(2))
  have e2: "evolves {m} h1 h2" "holds h2 m xs" using put_store [OF k1(2) n(2) order_refl n(1) fresh_size [OF f m(1)]] by (simp_all add: h2_def)
  have e: "evolves {r, m} h h2" using evolves_trans [OF e1(1) e2(1)] by simp
  have fr: "fresh h2" using evolves_fresh [OF e f] r(1) m(1) by auto
  have k2: "roomy h2 l K a" "roomy h2 q K' b" using roomy_frame [OF e] l q d by auto
  have "object_at h2 r 0" using evolves_holds [OF e2(1)] e1(2) d(1) single_digit [of 0] unfolding object_at_def by fastforce
  then have kr: "roomy h2 r 3 0" using r(2) d(1) by (auto simp: roomy_def h2_def h1_def stored_def over_def)
  have "object_at h2 m a" using e2(2) x(2,3) unfolding object_at_def by blast
  then have km: "roomy h2 m 3 a" using m(2) n(1) by (auto simp: roomy_def h2_def stored_def)
  have less: "is_less_than l q h2 = Inr (a < b)" using is_less_roomy [OF k2] .
  have "fetch h1 l = Inr dl" "unat (digits_used dl) = length xs" using k1(3) x(1,4) by (auto simp: fetch_def holds_def)
  then have s: "long_div l q r m h = (if a < b then Some (Inr h2) else long_div_rest l q r m h2)"
    using z c less by (auto simp: long_div_def c_bind_eq_Inr)
  show ?thesis
  proof (cases "a < b")
    case True
    then show ?thesis using s e fr kr km by auto
  next
    case False
    obtain h' where h': "long_div_rest l q r m h2 = Some (Inr h')" "evolves {r, m} h2 h'" "fresh h'" "roomy h' r 3 (a div b)" "roomy h' m 3 (a mod b)"
      using long_div_rest_ok [OF k2 kr km b(1) _ b(2) fr d(1-3)] False by auto
    then show ?thesis using s False evolves_chain [OF e h'(2)] by auto
  qed
qed

text \<open>A new object, next to the objects that were there.\<close>

definition adds :: "digit_heap \<Rightarrow> nat \<Rightarrow> nat \<Rightarrow> digit_heap \<Rightarrow> bool" where
  "adds h r n h' \<longleftrightarrow> mem h r = None \<and> object_at h' r n \<and> (\<forall>x. x \<noteq> r \<longrightarrow> mem h' x = mem h x)"

lemma new_division_ok:
  assumes p: "object_at h p a" and q: "object_at h q b" and f: "fresh h" and b: "0 < b" "a < 4294967296"
  shows "\<exists>t m h'. new_division p q h = Some (Inr (t, m, h')) \<and> t \<noteq> m \<and> mem h t = None \<and> mem h m = None \<and>
    object_at h' t (a div b) \<and> object_at h' m (a mod b) \<and> (\<forall>x. x \<noteq> t \<and> x \<noteq> m \<longrightarrow> mem h' x = mem h x)"
proof -
  obtain d where d: "fetch h p = Inr d" "mem h p = Some d" "unat (digits_used d) = ndigits a" using p by (auto elim: object_atE)
  obtain e where e: "mem h q = Some e" using q by (auto elim: object_atE)
  have ds: "unat (digits_used d) < 2 ^ 27" using d(3) ndigits_small [OF b(2)] by simp
  let ?S = "digits_used d + slack" and ?t = "next_addr h"
  note S = size_slack(1,2) [OF ds ds]
  obtain d1 g1 where g1: "new_record ?S h = Inr (?t, g1)" "mem g1 ?t = Some d1" "length (number d1) = unat ?S" "\<And>x. x \<noteq> ?t \<Longrightarrow> mem g1 x = mem h x"
    "next_addr g1 = ?t + 1" "fresh g1" using new_record_ok [OF f S(2)] by metis
  let ?m = "?t + 1"
  obtain d2 g2 where g2: "new_record ?S g1 = Inr (?m, g2)" "mem g2 ?m = Some d2" "length (number d2) = unat ?S" "\<And>x. x \<noteq> ?m \<Longrightarrow> mem g2 x = mem g1 x"
    "fresh g2" using new_record_ok [OF g1(6) S(2)] g1(5) by metis
  have ne: "mem h ?t = None" "mem h ?m = None" using f by (auto simp: fresh_def)
  have o: "mem g2 x = mem h x" if "x \<noteq> ?t" "x \<noteq> ?m" for x using that g1(4) g2(4) by simp
  have pq: "p \<noteq> ?t" "p \<noteq> ?m" "q \<noteq> ?t" "q \<noteq> ?m" using d(2) e ne by auto
  have "roomy g2 p 0 a" "roomy g2 q 0 b" using p q d(2) e o pq object_at_same(1) [of g2 p h] object_at_same(1) [of g2 q h] by (auto simp: roomy_def)
  moreover have "mem g2 ?t = Some d1" using g1(2) g2(4) by simp
  ultimately obtain h' where h': "long_div p q ?t ?m g2 = Some (Inr h')" "evolves {?t, ?m} g2 h'" "roomy h' ?t 3 (a div b)" "roomy h' ?m 3 (a mod b)"
    using long_div_ok [of g2 p 0 a q 0 b ?t d1 ?m d2] g2(2,3,5) g1(3) pq b S(1) by auto
  have "mem h' x = mem h x" if "x \<noteq> ?t" "x \<noteq> ?m" for x using h'(2) o that by (simp add: evolves_def)
  moreover have "new_division p q h = Some (Inr (?t, ?m, h'))" using d g1(1) g2(1) h'(1) by (simp add: new_division_def)
  ultimately show ?thesis using ne h'(3,4) by (intro exI [of _ ?t] exI [of _ ?m] exI [of _ h']) (auto simp: roomy_def)
qed

lemma division_adds:
  assumes "object_at h p a" "object_at h q b" "fresh h" "0 < b" "a < 4294967296"
  shows "\<exists>r h'. bigint_divide p q h = Some (Inr (r, h')) \<and> adds h r (a div b) h'"
    "\<exists>r h'. bigint_mod p q h = Some (Inr (r, h')) \<and> adds h r (a mod b) h'"
proof -
  obtain t m h' where d: "new_division p q h = Some (Inr (t, m, h'))" "t \<noteq> m" "mem h t = None" "mem h m = None"
    "object_at h' t (a div b)" "object_at h' m (a mod b)" "\<And>x. x \<noteq> t \<Longrightarrow> x \<noteq> m \<Longrightarrow> mem h' x = mem h x"
    using new_division_ok [OF assms] by blast
  let ?del = "\<lambda>x. h' \<lparr> mem := (mem h')(x := None) \<rparr>"
  have "delete_record x h' = Inr (?del x)" if "object_at h' x n" for x n
    using that by (auto simp: delete_record_def object_at_def holds_def fetch_def)
  then have e: "delete_record m h' = Inr (?del m)" "delete_record t h' = Inr (?del t)" using d(5,6) by blast+
  have "adds h t (a div b) (?del m)" "adds h m (a mod b) (?del t)"
    using d object_at_same(1) [of "?del m" t h'] object_at_same(1) [of "?del t" m h'] by (auto simp: adds_def)
  then show "\<exists>r h'. bigint_divide p q h = Some (Inr (r, h')) \<and> adds h r (a div b) h'"
    "\<exists>r h'. bigint_mod p q h = Some (Inr (r, h')) \<and> adds h r (a mod b) h'"
    using d(1) e by (auto simp: bigint_divide_def bigint_mod_def)
qed

subsection \<open>Where the division goes wrong\<close>

text \<open>
  For a dividend of three digits the remainder may keep leading zeros, and the division compares and
  subtracts numbers of the wrong length: \<open>2 ^ 32 / 2 ^ 15\<close> is not \<open>2 ^ 17\<close>.
\<close>

lemma quotient_wrong:
  "case bigint_divide 0 1 (store_of [with_digits [0, 0, 1] 0, with_digits [0x8000] 0]) of
     Some (Inr (p, h)) \<Rightarrow> digits_of h p = Some [Some 1, Some 2]
   | _ \<Rightarrow> False"
  by code_simp

text \<open>
  So does a small dividend with a leading zero: \<open>2 ^ 32 + 1 - 2 ^ 32\<close> leaves the number 1 as two digits, and
  divided by 2 it gives 32767.
\<close>

lemma quotient_leading_zero:
  "case bigint_minus 0 1 (store_of [with_digits [1, 0, 1] 0, with_digits [0, 0, 1] 0, with_digits [2] 0]) of
     Inr (p, h) \<Rightarrow> digits_of h p = Some [Some 1, Some 0] \<and>
       (case bigint_divide p 2 h of Some (Inr (q, h)) \<Rightarrow> digits_of h q = Some [Some 32767] | _ \<Rightarrow> False)
   | Inl e \<Rightarrow> False"
  by code_simp

subsection \<open>Properties\<close>

text \<open>
  C14. Division of two objects is right for dividends below \<open>2 ^ 32\<close> in canonical form: in every state that a
  supported program reaches (one that makes sense on natural numbers, stays within the limits of the 32-bit counters, and
  has no difference or product after which the class keeps leading zeros), the loops of \<open>long_div\<close> end, \<open>/\<close> gives
  the quotient and \<open>%\<close> the remainder in a new record, in canonical form, and no other record changes or is left
  over.  For a dividend with a leading zero the quotient may be wrong (\<open>quotient_leading_zero\<close>).
\<close>
theorem bigint_division_correct:
  assumes "meaning_all cs Map.empty = Some M" "supported cs Map.empty" "exec_all cs no_objects = Inr s"
    "objects s v = Some p" "objects s w = Some q" "M v = Some a" "M w = Some b" "0 < b" "a < 2 ^ 32"
  shows "(\<exists>r h. bigint_divide p q (records s) = Some (Inr (r, h)) \<and> adds (records s) r (a div b) h) \<and>
    (\<exists>r h. bigint_mod p q (records s) = Some (Inr (r, h)) \<and> adds (records s) r (a mod b) h)"
proof -
  have s: "state_ok s" "numbers s = M" using exec_all_reaches [of no_objects cs M] no_objects_ok assms(1-3) by (auto simp: reaches_def)
  then have "object_at (records s) p a" "object_at (records s) q b" "fresh (records s)" using assms(4-7) by (auto elim: object_of_number)
  then show ?thesis using division_adds [of "records s" p a q b] assms(8,9) by simp
qed

theorem bigint_division_correct_witness:
  "\<exists>s p q r h. exec_all [New_Value 0 4000000000, New_Value 1 77777] no_objects = Inr s \<and> objects s 0 = Some p \<and> objects s 1 = Some q \<and>
    bigint_divide p q (records s) = Some (Inr (r, h)) \<and> adds (records s) r 51429 h"
proof -
  let ?cs = "[New_Value 0 4000000000, New_Value 1 77777]"
  have m: "meaning_all ?cs Map.empty = Some [0 \<mapsto> 4000000000, 1 \<mapsto> 77777]" by (simp add: compute_def)
  have k: "supported ?cs Map.empty" by (simp add: evaluate_programs)
  obtain s where s: "exec_all ?cs no_objects = Inr s" "numbers s = [0 \<mapsto> 4000000000, 1 \<mapsto> 77777]"
    using exec_all_reaches [OF no_objects_ok(1), of ?cs] m k no_objects_ok(2) by (auto simp: reaches_def simp del: exec_all.simps meaning_all.simps supported.simps)
  then have "numbers s 0 = Some 4000000000" "numbers s 1 = Some 77777" by simp_all
  then obtain p q where "objects s 0 = Some p" "objects s 1 = Some q" by (auto simp: numbers_def)
  then show ?thesis using bigint_division_correct [OF m k s(1), of 0 p 1 q 4000000000 77777] s(1) by auto
qed

end
