(* ===== verification/Bigint_Text.thy ===== *)
theory Bigint_Text
  imports Bigint_Program
begin

text \<open>
  The decimal text of a \<open>bigint_kernel_1\<close>: \<open>operator<<\<close>, \<open>operator>>\<close>, \<open>serialize\<close> and \<open>deserialize\<close>.
  The text is built from its end in an array of characters, four digits for each division by 10000, and
  read four digits at a time.  The output stream takes every character; the input is a list of characters.
\<close>

subsection \<open>Writing\<close>

text \<open>The part of the array that is still free, and the text behind it; a character goes to the end of the free part.\<close>

type_synonym text_buffer = "nat \<times> string"

definition put_char :: "char \<Rightarrow> text_buffer \<Rightarrow> text_buffer c" where
  "put_char ch = (\<lambda>(free, str). if free = 0 then Inl Out_Of_Bounds else Inr (free - 1, ch # str))"

definition digit_char :: "u16 \<Rightarrow> char" where
  "digit_char r = char_of (unat (r mod 10) + 48)"

text \<open>The four digits of a remainder, the last one first.\<close>

definition put_remainder :: "u16 \<Rightarrow> text_buffer \<Rightarrow> text_buffer c" where
  "put_remainder remainder buf =
    (let a = digit_char remainder; remainder = remainder div 10;
         b = digit_char remainder; remainder = remainder div 10;
         c = digit_char remainder; remainder = remainder div 10;
         d = digit_char remainder in
     c_bind (put_char a buf) (\<lambda>buf. c_bind (put_char b buf) (\<lambda>buf. c_bind (put_char c buf) (put_char d))))"

text \<open>One turn: a division of \<open>temp\<close> by 10000, in place, and the digits of the remainder.\<close>

definition print_step :: "nat \<Rightarrow> digit_heap \<Rightarrow> text_buffer \<Rightarrow> (digit_heap \<times> text_buffer) c" where
  "print_step temp h buf =
    c_bind (short_div temp 10000 temp h) (\<lambda>(remainder, h). c_bind (put_remainder remainder buf) (\<lambda>buf. Inr (h, buf)))"

definition is_zero :: "nat \<Rightarrow> digit_heap \<Rightarrow> bool c" where
  "is_zero temp h = c_bind (fetch h temp) (\<lambda>d. if digits_used d \<noteq> 1 then Inr False else c_bind (rd h temp 0) (\<lambda>x. Inr (x = 0)))"

partial_function (option) print_bigint_loop :: "nat \<Rightarrow> digit_heap \<Rightarrow> text_buffer \<Rightarrow> (digit_heap \<times> text_buffer) c option" where
  "print_bigint_loop temp h buf =
    (case is_zero temp h of
      Inl e \<Rightarrow> Some (Inl e)
    | Inr zero \<Rightarrow>
      if zero then Some (Inr (h, buf))
      else (case print_step temp h buf of Inl e \<Rightarrow> Some (Inl e) | Inr (h, buf) \<Rightarrow> print_bigint_loop temp h buf))"

declare print_bigint_loop.simps [code]

definition skip_zero :: "string \<Rightarrow> string" where
  "skip_zero str = (case str of ch # rest \<Rightarrow> if ch = CHR ''0'' then rest else str | [] \<Rightarrow> str)"

text \<open>
  The free part of a new array of \<open>digits_used * 5 + 10\<close> characters once the character 0 is at its end; the 32-bit
  numbers wrap.
\<close>

definition new_text :: "u32 \<Rightarrow> text_buffer c" where
  "new_text used = (if used * 5 + 9 < used * 5 + 10 then Inr (unat (used * 5 + 9), []) else Inl Out_Of_Bounds)"

definition print_bigint :: "nat \<Rightarrow> digit_heap \<Rightarrow> (string \<times> digit_heap) c option" where
  "print_bigint data h =
    (case c_bind (fetch h data) (\<lambda>d. c_bind (copy_record data 0 h) (\<lambda>(temp, h).
       c_bind (new_text (digits_used d)) (\<lambda>buf.
       c_bind (print_step temp h buf) (\<lambda>(h, buf). Inr (temp, h, buf))))) of
      Inl e \<Rightarrow> Some (Inl e)
    | Inr (temp, h, buf) \<Rightarrow>
      map_option (\<lambda>res. c_bind res (\<lambda>(h, (_, str)).
        c_bind (delete_record temp h) (\<lambda>h. Inr (skip_zero (skip_zero (skip_zero str)), h)))) (print_bigint_loop temp h buf))"

definition serialize_bigint :: "nat \<Rightarrow> digit_heap \<Rightarrow> (string \<times> digit_heap) c option" where
  "serialize_bigint item h = map_option (\<lambda>res. c_bind res (\<lambda>(str, h). Inr (str @ '' '', h))) (print_bigint item h)"

subsection \<open>Reading\<close>

text \<open>The next character of the input if it is a digit.\<close>

definition is_digit :: "char \<Rightarrow> bool" where
  "is_digit ch \<longleftrightarrow> 48 \<le> (of_char ch :: nat) \<and> (of_char ch :: nat) \<le> 57"

definition get_digit :: "string \<Rightarrow> char option \<times> string" where
  "get_digit inp = (case inp of ch # rest \<Rightarrow> if is_digit ch then (Some ch, rest) else (None, inp) | [] \<Rightarrow> (None, inp))"

text \<open>\<open>num_read\<close> and \<open>num\<close> with one more character.\<close>

definition with_digit :: "char option \<Rightarrow> u16 \<times> u16 \<Rightarrow> u16 \<times> u16" where
  "with_digit ch = (\<lambda>(num_read, num). case ch of None \<Rightarrow> (num_read, num)
     | Some ch \<Rightarrow> (num_read * 10, num * 10 + (of_char ch - 48)))"

definition get_four :: "string \<Rightarrow> u16 \<times> u16 \<times> string" where
  "get_four inp =
    (case get_digit inp of (a, inp) \<Rightarrow> case get_digit inp of (b, inp) \<Rightarrow>
     case get_digit inp of (c, inp) \<Rightarrow> case get_digit inp of (d, inp) \<Rightarrow>
     case with_digit d (with_digit c (with_digit b (with_digit a (1, 0)))) of (num_read, num) \<Rightarrow> (num_read, num, inp))"

text \<open>
  The object \<open>v\<close> is the one that is read, \<open>t\<close> the local object \<open>temp\<close>; the loop goes on as long as four
  digits are read.
\<close>

definition read_step :: "nat \<Rightarrow> u16 \<Rightarrow> u16 \<Rightarrow> program_state \<Rightarrow> program_state c" where
  "read_step t num_read num s =
    (if num_read \<noteq> 1 then c_bind (exec (Times_Assign_Value t num_read) s) (exec (Plus_Assign_Value t num)) else Inr s)"

lemma get_digit_length: "get_digit inp = (d, inp') \<Longrightarrow> length inp' = length inp - (if d = None then 0 else 1) \<and> (d \<noteq> None \<longrightarrow> 0 < length inp)"
  by (auto simp: get_digit_def split: list.splits if_splits)

lemma get_four_shorter: "get_four inp = (num_read, num, inp') \<Longrightarrow> num_read = 10000 \<Longrightarrow> length inp' < length inp"
proof -
  assume g: "get_four inp = (num_read, num, inp')" "num_read = 10000"
  obtain a i1 b i2 c i3 d where e: "get_digit inp = (a, i1)" "get_digit i1 = (b, i2)" "get_digit i2 = (c, i3)" "get_digit i3 = (d, inp')"
    "with_digit d (with_digit c (with_digit b (with_digit a (1, 0)))) = (num_read, num)"
    using g(1) by (auto simp: get_four_def split: prod.splits)
  have "a \<noteq> None \<or> b \<noteq> None \<or> c \<noteq> None \<or> d \<noteq> None" using e(5) g(2) by (auto simp: with_digit_def split: option.splits)
  then show ?thesis using e(1-4) [THEN get_digit_length] by (auto split: if_splits)
qed

function read_loop :: "nat \<Rightarrow> string \<Rightarrow> program_state \<Rightarrow> (string \<times> program_state) c" where
  "read_loop t inp s =
    (case get_four inp of (num_read, num, inp) \<Rightarrow>
     c_bind (read_step t num_read num s) (\<lambda>s.
     if num_read = 10000 then read_loop t inp s else Inr (inp, s)))"
  by pat_completeness auto
termination
  by (relation "measure (\<lambda>(t, inp, s). length inp)") (auto dest: get_four_shorter [OF sym])

declare read_loop.simps [simp del]

text \<open>\<open>operator>>\<close>; the first component of the result says whether the stream fails.\<close>

definition is_space :: "char \<Rightarrow> bool" where
  "is_space ch \<longleftrightarrow> (of_char ch :: nat) \<in> {32, 9, 10}"

definition read_bigint :: "nat \<Rightarrow> nat \<Rightarrow> string \<Rightarrow> program_state \<Rightarrow> (bool \<times> string \<times> program_state) c" where
  "read_bigint v t inp s =
    (let inp = dropWhile is_space inp in
     if \<not> (inp \<noteq> [] \<and> is_digit (hd inp)) then Inr (True, inp, s)
     else
       c_bind (exec (New t) s) (\<lambda>s. c_bind (read_loop t inp s) (\<lambda>(inp, s).
       c_bind (exec (Assign v t) s) (\<lambda>s. c_bind (exec (Delete t) s) (\<lambda>s. Inr (False, inp, s))))))"

text \<open>\<open>deserialize\<close>: the value must be followed by a space; otherwise the object is 0 and an exception is thrown (\<open>Inl\<close>).\<close>

definition deserialize_bigint :: "nat \<Rightarrow> nat \<Rightarrow> string \<Rightarrow> program_state \<Rightarrow> (program_state + string \<times> program_state) c" where
  "deserialize_bigint v t inp s =
    c_bind (read_bigint v t inp s) (\<lambda>(fail, inp, s).
    case inp of
      ch # rest \<Rightarrow>
        if \<not> fail \<and> ch = CHR '' '' then Inr (Inr (rest, s)) else c_bind (exec (Assign_Value v 0) s) (\<lambda>s. Inr (Inl s))
    | [] \<Rightarrow> c_bind (exec (Assign_Value v 0) s) (\<lambda>s. Inr (Inl s)))"

subsection \<open>Decimal texts\<close>

definition dchar :: "nat \<Rightarrow> char" where
  "dchar n = char_of (n + 48)"

fun decimal :: "nat \<Rightarrow> string" where
  "decimal n = (if n < 10 then [dchar n] else decimal (n div 10) @ [dchar (n mod 10)])"

declare decimal.simps [simp del]

text \<open>Four digits, and a number in groups of four digits.\<close>

definition block :: "nat \<Rightarrow> string" where
  "block r = [dchar (r div 1000 mod 10), dchar (r div 100 mod 10), dchar (r div 10 mod 10), dchar (r mod 10)]"

fun blocks :: "nat \<Rightarrow> string" where
  "blocks n = (if n < 10000 then block n else blocks (n div 10000) @ block (n mod 10000))"

declare blocks.simps [simp del]

lemma dchar_0: "n < 10 \<Longrightarrow> dchar n = CHR ''0'' \<longleftrightarrow> n = 0"
proof -
  assume "n < 10"
  then have d: "of_char (dchar n) = n + 48" by (simp add: dchar_def of_char_of)
  have "dchar n = CHR ''0'' \<longleftrightarrow> (of_char (dchar n) :: nat) = of_char CHR ''0''" by (simp only: of_char_eq_iff)
  also have "\<dots> \<longleftrightarrow> n = 0" unfolding d by simp
  finally show ?thesis .
qed

lemma length_block [simp]: "length (block r) = 4"
  by (simp add: block_def)

lemma mod_div_swap: "0 < a \<Longrightarrow> n mod (a * b) div a = n div a mod (b :: nat)"
  by (simp add: mod_mult2_eq)

lemma decimal_split: "10000 \<le> n \<Longrightarrow> decimal n = decimal (n div 10000) @ block (n mod 10000)"
proof -
  assume n: "10000 \<le> n"
  have d: "decimal m = decimal (m div 10) @ [dchar (m mod 10)]" if "10 \<le> m" for m using that by (simp add: decimal.simps [of m])
  have "n div 10 div 10 = n div 100" "n div 100 div 10 = n div 1000" "n div 1000 div 10 = n div 10000"
    "10 \<le> n" "10 \<le> n div 10" "10 \<le> n div 100" "10 \<le> n div 1000" using n by (simp_all add: div_mult2_eq [symmetric])
  then have "decimal n = decimal (n div 10000) @ [dchar (n div 1000 mod 10), dchar (n div 100 mod 10), dchar (n div 10 mod 10), dchar (n mod 10)]"
    using d [of n] d [of "n div 10"] d [of "n div 100"] d [of "n div 1000"] by simp
  moreover have "n mod 10000 div 1000 = n div 1000 mod 10" "n mod 10000 div 100 mod 10 = n div 100 mod 10"
    "n mod 10000 div 10 mod 10 = n div 10 mod 10" "n mod 10000 mod 10 = n mod 10"
    using mod_div_swap [of 1000 n 10] mod_div_swap [of 100 n 100] mod_div_swap [of 10 n 1000] by (simp_all add: mod_mod_cancel)
  ultimately show ?thesis by (simp add: block_def)
qed

lemma skip_zero_Cons: "skip_zero (ch # cs) = (if ch = CHR ''0'' then cs else ch # cs)"
  by (simp add: skip_zero_def)

lemma skip_block:
  assumes "n < 10000"
  shows "skip_zero (skip_zero (skip_zero (block n))) = decimal n"
proof -
  have c: "n div 1000 mod 10 = n div 1000" using assms by (simp add: div_less_iff_less_mult)
  have z: "dchar (n div 1000 mod 10) = CHR ''0'' \<longleftrightarrow> n < 1000" "dchar (n div 100 mod 10) = CHR ''0'' \<longleftrightarrow> n div 100 mod 10 = 0"
    "dchar (n div 10 mod 10) = CHR ''0'' \<longleftrightarrow> n div 10 mod 10 = 0" using assms c by (simp_all add: dchar_0 div_eq_0_iff)
  have d: "decimal m = decimal (m div 10) @ [dchar (m mod 10)]" if "10 \<le> m" for m using that by (simp add: decimal.simps [of m])
  have e: "decimal m = [dchar m]" if "m < 10" for m using that by (simp add: decimal.simps [of m])
  consider "n < 10" | "10 \<le> n" "n < 100" | "100 \<le> n" "n < 1000" | "1000 \<le> n" by linarith
  then show ?thesis
  proof cases
    case 1
    then show ?thesis using z e [of n] by (simp add: block_def skip_zero_Cons)
  next
    case 2
    moreover have "n div 100 mod 10 = 0" "n div 10 mod 10 = n div 10" "n div 10 \<noteq> 0" "n div 10 < 10" using 2 by (simp_all add: div_less_iff_less_mult)
    ultimately show ?thesis using z e [of "n div 10"] d [of n] by (simp add: block_def skip_zero_Cons)
  next
    case 3
    moreover have "n div 100 mod 10 = n div 100" "n div 100 \<noteq> 0" "n div 10 div 10 = n div 100" "10 \<le> n div 10" "n div 100 < 10" using 3 by (simp_all add: div_less_iff_less_mult div_mult2_eq [symmetric] less_eq_div_iff_mult_less_eq)
    ultimately show ?thesis using z e [of "n div 100"] d [of n] d [of "n div 10"] by (simp add: block_def skip_zero_Cons)
  next
    case 4
    moreover have "n div 10 div 10 = n div 100" "n div 100 div 10 = n div 1000" "10 \<le> n div 10" "10 \<le> n div 100" "n div 1000 < 10" using 4 assms by (simp_all add: div_less_iff_less_mult div_mult2_eq [symmetric] less_eq_div_iff_mult_less_eq)
    ultimately show ?thesis using z c e [of "n div 1000"] d [of n] d [of "n div 10"] d [of "n div 100"] by (simp add: block_def skip_zero_Cons)
  qed
qed

lemma skip_append: "xs \<noteq> [] \<Longrightarrow> skip_zero (xs @ ys) = skip_zero xs @ ys" "length xs \<le> Suc (length (skip_zero xs))"
  by (auto simp: skip_zero_def split: list.splits)

lemma skip_blocks: "skip_zero (skip_zero (skip_zero (blocks n))) = decimal n" and blocks_long: "4 \<le> length (blocks n)"
proof (induction n rule: blocks.induct)
  case (1 n)
  case 1
  show ?case
  proof (cases "n < 10000")
    case False
    let ?x = "blocks (n div 10000)"
    have l: "4 \<le> length ?x" using "1.IH"(2) False by simp
    then have "?x \<noteq> []" "skip_zero ?x \<noteq> []" "skip_zero (skip_zero ?x) \<noteq> []"
      using skip_append(2) [of ?x] skip_append(2) [of "skip_zero ?x"] by auto
    then show ?thesis using "1.IH"(1) False decimal_split [of n] by (simp add: blocks.simps [of n] skip_append(1))
  qed (simp add: blocks.simps [of n] skip_block)
  case 2
  show ?case using 1 by (simp add: blocks.simps [of n])
qed

lemma length_blocks: "n < 10000 ^ k \<Longrightarrow> 0 < k \<Longrightarrow> length (blocks n) \<le> 4 * k"
proof (induction k arbitrary: n)
  case (Suc k)
  show ?case
  proof (cases "n < 10000")
    case False
    then have "0 < k" using Suc.prems(1) by (cases k) simp_all
    moreover have "n div 10000 < 10000 ^ k" using Suc.prems(1) by (simp add: less_mult_imp_div_less mult.commute)
    ultimately show ?thesis using Suc.IH False by (simp add: blocks.simps [of n])
  qed (simp add: blocks.simps [of n])
qed simp

text \<open>The array has room for all the characters.\<close>

lemma blocks_fit:
  assumes "n < 65536 ^ u" "0 < u"
  shows "length (blocks n) \<le> u * 5 + 9"
proof -
  let ?k = "(5 * u + 3) div 4"
  have k: "5 * u \<le> 4 * ?k" "4 * ?k \<le> 5 * u + 3" "0 < ?k" using assms(2) by simp_all
  have "n < 65536 ^ u" by (rule assms(1))
  also have "(65536 :: nat) ^ u \<le> (10 ^ 5) ^ u" by (intro power_mono) simp_all
  also have "\<dots> \<le> 10 ^ (4 * ?k)" unfolding power_mult [symmetric] using k(1) by (intro power_increasing) simp_all
  also have "\<dots> = (10000 :: nat) ^ ?k" by (simp add: power_mult)
  finally show ?thesis using length_blocks [of n ?k] k by linarith
qed

subsection \<open>What is written\<close>

lemma digit_char_dchar: "digit_char r = dchar (unat r mod 10)"
  by (simp add: digit_char_def dchar_def unat_mod)

lemma put_remainder_ok:
  assumes "4 \<le> free" "unat r < 10000"
  shows "put_remainder r (free, str) = Inr (free - 4, block (unat r) @ str)"
proof -
  obtain f where f: "free = Suc (Suc (Suc (Suc f)))" using assms(1) by (metis Suc_le_D numeral_eq_Suc pred_numeral_simps(2,3) add_One Suc_le_mono One_nat_def eval_nat_numeral(2,3) semiring_norm)
  have "unat (r div 10) = unat r div 10" "unat (r div 10 div 10) = unat r div 100" "unat (r div 10 div 10 div 10) = unat r div 1000"
    by (simp_all add: unat_div div_mult2_eq [symmetric])
  then show ?thesis unfolding put_remainder_def Let_def digit_char_dchar block_def f by (simp add: put_char_def)
qed

lemma print_step_ok:
  assumes p: "holds h p xs" "canonical xs" and m: "mem h p = Some d" "length (number d) < 2 ^ 32" and free: "4 \<le> free"
  shows "\<exists>h' zs. print_step p h (free, str) = Inr (h', (free - 4, block (digits_val xs mod 10000) @ str)) \<and> evolves {p} h h' \<and>
    holds h' p zs \<and> canonical zs \<and> digits_val zs = digits_val xs div 10000"
proof -
  have n: "length xs \<le> length (number d)" using p(1) m(1) by (auto simp: holds_def)
  obtain zs k where z: "short_div p 10000 p h = Inr (of_nat (digits_val xs mod 10000), put_record p (stored zs k d) h)" "length zs = length xs"
    "0 < k" "k \<le> length xs" "digits_val (take k zs) = digits_val xs div 10000" "canonical (take k zs)"
    using short_div_ok [OF p(1) m(1) n, of 10000] p(2) by auto
  have "unat (of_nat (digits_val xs mod 10000) :: u16) = digits_val xs mod 10000" by (simp add: unat_of_nat)
  then have "put_remainder (of_nat (digits_val xs mod 10000)) (free, str) = Inr (free - 4, block (digits_val xs mod 10000) @ str)"
    using put_remainder_ok [OF free, of "of_nat (digits_val xs mod 10000)" str] by simp
  then show ?thesis using z put_store [OF m(1) z(3), of zs] n m(2) by (auto simp: print_step_def)
qed

lemma is_zero_ok:
  assumes "holds h p xs" "canonical xs"
  shows "is_zero p h = Inr (digits_val xs = 0)"
proof -
  obtain d where d: "fetch h p = Inr d" "unat (digits_used d) = length xs" using assms(1) by (blast elim: holds_fetch)
  have one: "digits_used d = 1 \<longleftrightarrow> length xs = 1" unfolding d(2) [symmetric] by (simp add: word_unat_eq_iff)
  show ?thesis
  proof (cases "length xs = 1")
    case True
    then obtain x where "xs = [x]" by (cases xs) auto
    then show ?thesis using d(1) one holds_rd [OF assms(1), of 0] by (simp add: is_zero_def unat_eq_0)
  next
    case False
    then have "0 < digits_val xs" using canonical_ndigits [OF assms(2)] by (auto simp: ndigits.simps intro: gr0I)
    then show ?thesis using d(1) one False by (simp add: is_zero_def)
  qed
qed

text \<open>The text of what is left of the number.\<close>

definition rest_text :: "nat \<Rightarrow> string" where
  "rest_text n = (if n = 0 then [] else blocks n)"

lemma blocks_rest: "blocks n = rest_text (n div 10000) @ block (n mod 10000)"
  by (simp add: blocks.simps [of n] rest_text_def div_eq_0_iff)

lemma print_loop_ok:
  "holds h p xs \<Longrightarrow> canonical xs \<Longrightarrow> mem h p = Some d \<Longrightarrow> length (number d) < 2 ^ 32 \<Longrightarrow> length (rest_text (digits_val xs)) \<le> free \<Longrightarrow>
    \<exists>h' free'. print_bigint_loop p h (free, str) = Some (Inr (h', (free', rest_text (digits_val xs) @ str))) \<and> evolves {p} h h'"
proof (induction "digits_val xs" arbitrary: h xs d free str rule: less_induct)
  case less
  note z = is_zero_ok [OF less.prems(1,2)]
  show ?case
  proof (cases "digits_val xs = 0")
    case True
    then show ?thesis using z by (subst print_bigint_loop.simps) (auto simp: rest_text_def)
  next
    case False
    then have b: "rest_text (digits_val xs) = rest_text (digits_val xs div 10000) @ block (digits_val xs mod 10000)" by (simp add: rest_text_def [of "digits_val xs"] blocks_rest)
    then have f: "4 \<le> free" using less.prems(5) by simp
    obtain h1 zs where s: "print_step p h (free, str) = Inr (h1, (free - 4, block (digits_val xs mod 10000) @ str))" "evolves {p} h h1"
      "holds h1 p zs" "canonical zs" "digits_val zs = digits_val xs div 10000" using print_step_ok [OF less.prems(1-4) f] by blast
    obtain d1 where d1: "mem h1 p = Some d1" "length (number d1) = length (number d)" using evolves_size [OF s(2) less.prems(3)] by blast
    then have "length (number d1) < 2 ^ 32" using less.prems(4) by simp
    moreover have "digits_val zs < digits_val xs" using s(5) False by simp
    moreover have "length (rest_text (digits_val zs)) \<le> free - 4" using b s(5) less.prems(5) by simp
    ultimately obtain h' free' where l: "print_bigint_loop p h1 (free - 4, block (digits_val xs mod 10000) @ str) =
        Some (Inr (h', (free', rest_text (digits_val zs) @ block (digits_val xs mod 10000) @ str)))" "evolves {p} h1 h'"
      using less.hyps [OF _ s(3,4) d1(1), of "free - 4" "block (digits_val xs mod 10000) @ str"] by blast
    then show ?thesis using z s False b evolves_trans [OF s(2) l(2)] by (subst print_bigint_loop.simps) auto
  qed
qed

lemma new_text_ok: "unat used < 2 ^ 27 \<Longrightarrow> new_text used = Inr (unat used * 5 + 9, [])"
proof -
  assume u: "unat used < 2 ^ 27"
  then have "unat (used * 5 + 9) = unat used * 5 + 9" "unat (used * 5 + 10) = unat used * 5 + 10" by (simp_all add: unat_word_ariths)
  then show ?thesis by (simp add: new_text_def word_less_nat_alt)
qed

lemma print_bigint_ok:
  assumes o: "object_at h p n" and f: "fresh h" and m: "fits n"
  shows "\<exists>h'. print_bigint p h = Some (Inr (decimal n, h')) \<and> evolves {} h h' \<and> fresh h'"
proof -
  obtain xs d where x: "holds h p xs" "canonical xs" "digits_val xs = n" "fetch h p = Inr d" "unat (digits_used d) = length xs"
    using o by (blast elim: object_atE)
  have l: "length xs < 2 ^ 27" using m canonical_ndigits [OF x(2)] x(3) by (simp add: fits_def)
  let ?t = "next_addr h" and ?g = "\<lambda>d. put_record (next_addr h) d (h \<lparr> next_addr := next_addr h + 1 \<rparr>)"
  have "mem h ?t = None" using f by (simp add: fresh_def)
  then obtain e where e: "copy_record p 0 h = Inr (?t, ?g e)" "holds (?g e) ?t xs" "length (number e) < 2 ^ 32"
    using copy_record_ok [OF x(1), of 0] l by auto
  have fit: "length (blocks n) \<le> length xs * 5 + 9" using blocks_fit [of n "length xs"] val_less [of xs] x(2,3) by (simp add: canonical_def)
  let ?f = "length xs * 5 + 9"
  have nt: "new_text (digits_used d) = Inr (?f, [])" using new_text_ok [of "digits_used d"] l x(5) by simp
  have "4 \<le> ?f" "mem (?g e) ?t = Some e" by simp_all
  then obtain h1 zs where s: "print_step ?t (?g e) (?f, []) = Inr (h1, (?f - 4, block (n mod 10000)))" "evolves {?t} (?g e) h1"
    "holds h1 ?t zs" "canonical zs" "digits_val zs = n div 10000" using print_step_ok [OF e(2) x(2), of e ?f "[]"] x(3) e(3) by auto
  obtain e1 where e1: "mem h1 ?t = Some e1" "length (number e1) = length (number e)" using evolves_size [OF s(2), of ?t e] by auto
  obtain h2 free' where p: "print_bigint_loop ?t h1 (?f - 4, block (n mod 10000)) = Some (Inr (h2, (free', blocks n)))" "evolves {?t} h1 h2"
    using print_loop_ok [OF s(3,4) e1(1), of "?f - 4" "block (n mod 10000)"] fit blocks_rest [of n] s(5) e1(2) e(3) by auto
  obtain e2 where e2: "mem h2 ?t = Some e2" using evolves_size [OF p(2) e1(1)] by blast
  let ?h = "h2 \<lparr> mem := (mem h2)(?t := None) \<rparr>"
  have "evolves {?t} (?g e) h2" using evolves_trans [OF s(2) p(2)] by simp
  then have "evolves {} h ?h" "fresh ?h" using local_frame [of "{}" h h e h2] f by simp_all
  moreover have "print_bigint p h = Some (Inr (decimal n, ?h))"
    using x(4) e(1) nt s(1) p(1) e2 skip_blocks [of n] by (simp add: print_bigint_def delete_record_def fetch_def)
  ultimately show ?thesis by blast
qed

subsection \<open>What is read\<close>

definition digit_val :: "char \<Rightarrow> nat" where
  "digit_val ch = of_char ch - 48"

definition text_val :: "string \<Rightarrow> nat" where
  "text_val ds = foldl (\<lambda>n ch. n * 10 + digit_val ch) 0 ds"

lemma text_val_snoc [simp]: "text_val [] = 0" "text_val (ds @ [ch]) = text_val ds * 10 + digit_val ch"
  by (simp_all add: text_val_def)

lemma text_val_append: "text_val (ds @ es) = text_val ds * 10 ^ length es + text_val es"
proof (induction es rule: rev_induct)
  case (snoc x xs)
  have "text_val (ds @ xs @ [x]) = text_val (ds @ xs) * 10 + digit_val x" using text_val_snoc(2) [of "ds @ xs" x] by simp
  then show ?case using snoc by (simp add: algebra_simps)
qed simp

lemma digit_val_less: "is_digit ch \<Longrightarrow> digit_val ch < 10"
  unfolding is_digit_def digit_val_def by linarith

lemma text_val_less: "list_all is_digit ds \<Longrightarrow> text_val ds < 10 ^ length ds"
  by (induction ds rule: rev_induct) (auto dest: digit_val_less)

text \<open>No digit comes first.\<close>

definition no_digit :: "string \<Rightarrow> bool" where
  "no_digit inp \<longleftrightarrow> (inp = [] \<or> \<not> is_digit (hd inp))"

lemma get_digit_simps: "is_digit ch \<Longrightarrow> get_digit (ch # inp) = (Some ch, inp)" "no_digit inp \<Longrightarrow> get_digit inp = (None, inp)"
  by (auto simp: get_digit_def no_digit_def split: list.splits)

lemma with_digit_simps:
  "with_digit None x = x"
  "is_digit ch \<Longrightarrow> with_digit (Some ch) (r, n) = (r * 10, n * 10 + of_nat (digit_val ch))"
  by (simp_all add: with_digit_def is_digit_def digit_val_def of_nat_diff of_nat_of_char split: prod.splits)

text \<open>The four digits, or all that are left.\<close>

lemma get_four_ok:
  assumes "list_all is_digit ds" "no_digit rest"
  shows "get_four (ds @ rest) = (of_nat (10 ^ length (take 4 ds)), of_nat (text_val (take 4 ds)), drop 4 ds @ rest)"
proof -
  consider "ds = []" | a where "ds = [a]" | a b where "ds = [a, b]" | a b c where "ds = [a, b, c]" | a b c d es where "ds = a # b # c # d # es"
    by (metis list.exhaust)
  then show ?thesis
    using assms unfolding get_four_def
    by cases (simp_all add: get_digit_simps with_digit_simps text_val_def algebra_simps)
qed

text \<open>The limits of the 32-bit counters, for the objects while a number is read.\<close>

lemma ndigits_mono: "m \<le> n \<Longrightarrow> ndigits m \<le> ndigits n"
proof (induction n arbitrary: m rule: ndigits.induct)
  case (1 n)
  show ?case
  proof (cases "m < 65536")
    case False
    then have "ndigits (m div 65536) \<le> ndigits (n div 65536)" using 1 by (simp add: div_le_mono)
    then show ?thesis using False "1.prems" by (simp add: ndigits.simps [of m] ndigits.simps [of n])
  qed (simp add: ndigits.simps [of m] ndigits.simps [of n])
qed

lemma limits_upd: "within_limits M \<Longrightarrow> M v \<noteq> None \<Longrightarrow> fits a \<Longrightarrow> within_limits (M(v \<mapsto> a))"
  by (auto simp: within_limits_def ran_def insert_absorb domIff)

lemma limits_del: "within_limits M \<Longrightarrow> within_limits (M(v := None))"
  using card_Diff1_le [of "dom M" v] by (auto simp: within_limits_def ran_def)

lemma limits_le: "within_limits (M(v \<mapsto> b)) \<Longrightarrow> a \<le> b \<Longrightarrow> within_limits (M(v \<mapsto> a))"
  using limits_upd [of "M(v \<mapsto> b)" v a] limits_fit [of "M(v \<mapsto> b)" v b] ndigits_mono [of a b] by (simp add: fits_def)

lemma read_step_reaches:
  assumes "state_ok s" "numbers s t = Some n" "list_all is_digit ds" "length ds \<le> 4"
    and l: "within_limits ((numbers s)(t \<mapsto> n * 10 ^ length ds + text_val ds))"
  shows "reaches (read_step t (of_nat (10 ^ length ds)) (of_nat (text_val ds)) s) ((numbers s)(t \<mapsto> n * 10 ^ length ds + text_val ds))"
proof (cases "ds = []")
  case True
  then show ?thesis using assms(1,2) by (simp add: read_step_def reaches_def fun_upd_idem)
next
  case False
  have "length ds \<noteq> 0" using False by simp
  then have k: "length ds \<in> {1, 2, 3, 4}" using assms(4) unfolding insert_iff by arith
  then have u: "unat (of_nat (10 ^ length ds) :: u16) = 10 ^ length ds" "(of_nat (10 ^ length ds) :: u16) \<noteq> 1" "(of_nat (10 ^ length ds) :: u16) \<noteq> 0" by auto
  have "(10 :: nat) ^ length ds \<le> 10000" using k by auto
  then have v: "unat (of_nat (text_val ds) :: u16) = text_val ds" using text_val_less [OF assms(3)] by (simp add: unat_of_nat)
  have "meaning_all [Times_Assign_Value t (of_nat (10 ^ length ds)), Plus_Assign_Value t (of_nat (text_val ds))] (numbers s) =
      Some ((numbers s)(t \<mapsto> n * 10 ^ length ds + text_val ds))" using assms(2) u v by (simp add: compute_def)
  moreover have "within_limits ((numbers s)(t \<mapsto> n))" using limits_le [OF l, of n] by (simp add: trans_le_add1)
  then have "within_limits (numbers s)" using assms(2) by (simp add: fun_upd_idem)
  then have "supported [Times_Assign_Value t (of_nat (10 ^ length ds)), Plus_Assign_Value t (of_nat (text_val ds))] (numbers s)"
    using assms(2) u v l limits_le [OF l, of "n * 10 ^ length ds"] by (simp add: compute_def no_zero_factor_def)
  ultimately show ?thesis using exec_all_reaches [OF assms(1)] u(2) by (fastforce simp: read_step_def c_bind_def split: sum.splits)
qed

lemma read_loop_reaches:
  assumes "state_ok s" "numbers s t = Some n" "list_all is_digit ds" "within_limits ((numbers s)(t \<mapsto> n * 10 ^ length ds + text_val ds))" "no_digit rest"
  shows "\<exists>s'. read_loop t (ds @ rest) s = Inr (rest, s') \<and> state_ok s' \<and> numbers s' = (numbers s)(t \<mapsto> n * 10 ^ length ds + text_val ds)"
  using assms(1-4)
proof (induction "length ds" arbitrary: ds s n rule: less_induct)
  case less
  let ?d = "take 4 ds" and ?e = "drop 4 ds"
  have l: "list_all is_digit ?d" "list_all is_digit ?e" using less.prems(3) by (auto simp: list_all_iff dest: in_set_takeD in_set_dropD)
  have "length ds = length ?d + length ?e" by (metis append_take_drop_id length_append)
  moreover have "text_val ds = text_val ?d * 10 ^ length ?e + text_val ?e" using text_val_append [of ?d ?e] unfolding append_take_drop_id .
  ultimately have v: "n * 10 ^ length ds + text_val ds = (n * 10 ^ length ?d + text_val ?d) * 10 ^ length ?e + text_val ?e"
    by (simp only: power_add algebra_simps)
  have "n * 10 ^ length ?d + text_val ?d \<le> n * 10 ^ length ds + text_val ds" unfolding v by (simp add: trans_le_add1)
  note w = limits_le [OF less.prems(4) this]
  obtain s1 where s1: "read_step t (of_nat (10 ^ length ?d)) (of_nat (text_val ?d)) s = Inr s1" "state_ok s1"
    "numbers s1 = (numbers s)(t \<mapsto> n * 10 ^ length ?d + text_val ?d)"
    using read_step_reaches [OF less.prems(1,2) l(1) _ w] by (auto simp: reaches_def)
  have e: "read_loop t (ds @ rest) s = (if (of_nat (10 ^ length ?d) :: u16) = 10000 then read_loop t (?e @ rest) s1 else Inr (?e @ rest, s1))"
    using get_four_ok [OF less.prems(3) assms(5)] s1(1) by (subst read_loop.simps) simp
  show ?case
  proof (cases "4 \<le> length ds")
    case True
    then have "length ?e < length ds" "numbers s1 t = Some (n * 10 ^ 4 + text_val ?d)" using s1(3) by auto
    moreover have "within_limits ((numbers s1)(t \<mapsto> (n * 10 ^ 4 + text_val ?d) * 10 ^ length ?e + text_val ?e))"
      using less.prems(4) v True s1(3) by simp
    ultimately
    obtain s' where s': "read_loop t (?e @ rest) s1 = Inr (rest, s')" "state_ok s'"
      "numbers s' = (numbers s1)(t \<mapsto> (n * 10 ^ 4 + text_val ?d) * 10 ^ length ?e + text_val ?e)" using less.hyps [OF _ s1(2) _ l(2)] by blast
    then show ?thesis using e s1(3) True v by simp
  next
    case False
    then have "length ds \<in> {0, 1, 2, 3}" unfolding insert_iff by arith
    then have "(of_nat (10 ^ length ?d) :: u16) \<noteq> 10000" by auto
    then show ?thesis using e s1 False by simp
  qed
qed

lemma dchar_digit: "n < 10 \<Longrightarrow> is_digit (dchar n) \<and> digit_val (dchar n) = n"
  by (simp add: is_digit_def digit_val_def dchar_def of_char_of)

lemma decimal_digits: "list_all is_digit (decimal n) \<and> text_val (decimal n) = n \<and> decimal n \<noteq> []"
proof (induction n rule: decimal.induct)
  case (1 n)
  show ?case
  proof (cases "n < 10")
    case True
    then show ?thesis using dchar_digit [of n] by (simp add: decimal.simps [of n] text_val_def)
  next
    case False
    then show ?thesis using 1 dchar_digit [of "n mod 10"] by (simp add: decimal.simps [of n])
  qed
qed

lemma read_bigint_reaches:
  assumes s: "state_ok s" and v: "numbers s v = Some m" "numbers s t = None" and ds: "list_all is_digit ds" "ds \<noteq> []" "no_digit rest"
    and l: "within_limits ((numbers s)(t \<mapsto> text_val ds))"
  shows "\<exists>s'. read_bigint v t (ds @ rest) s = Inr (False, rest, s') \<and> state_ok s' \<and> numbers s' = (numbers s)(v \<mapsto> text_val ds)"
proof -
  obtain d es where d: "ds = d # es" "is_digit d" using ds by (cases ds) auto
  then have "\<not> is_space d" by (auto simp: is_space_def is_digit_def)
  then have w: "dropWhile is_space (ds @ rest) = ds @ rest" using d(1) by simp
  obtain s1 where s1: "exec (New t) s = Inr s1" "state_ok s1" "numbers s1 = (numbers s)(t \<mapsto> 0)"
    using exec_reaches [OF s, of "New t"] v(2) limits_le [OF l, of 0] limits_del [OF l, of t] by (auto simp: compute_def reaches_def fun_upd_idem)
  obtain s2 where s2: "read_loop t (ds @ rest) s1 = Inr (rest, s2)" "state_ok s2" "numbers s2 = (numbers s)(t \<mapsto> text_val ds)"
    using read_loop_reaches [OF s1(2) _ ds(1) _ ds(3), of t 0] s1(3) l by auto
  have n: "v \<noteq> t" using v by auto
  then have "meaning_all [Assign v t, Delete t] (numbers s2) = Some ((numbers s)(v \<mapsto> text_val ds))"
    using s2(3) v by (auto simp: compute_def fun_upd_twist)
  moreover have "supported [Assign v t, Delete t] (numbers s2)"
    using s2(3) v n l limits_fit [OF l, of t] limits_del [OF l, of t] by (auto simp: compute_def fun_upd_idem intro!: limits_upd limits_del)
  ultimately
  obtain s3 where "exec_all [Assign v t, Delete t] s2 = Inr s3" "state_ok s3" "numbers s3 = (numbers s)(v \<mapsto> text_val ds)"
    using exec_all_reaches [OF s2(2)] unfolding reaches_def by blast
  moreover from this(1) obtain s2' where "exec (Assign v t) s2 = Inr s2'" "exec (Delete t) s2' = Inr s3"
    by (auto simp: c_bind_eq_Inr simp del: exec.simps)
  ultimately show ?thesis using w d s1(1) s2(1) by (simp add: read_bigint_def del: exec.simps)
qed

lemma evolves_state_ok:
  assumes "state_ok s" "evolves {} (records s) h" "fresh h"
  shows "state_ok (s \<lparr> records := h \<rparr>)" "numbers (s \<lparr> records := h \<rparr>) = numbers s"
proof -
  have "mem h = mem (records s)" using assms(2) by (auto simp: evolves_def)
  then have o: "object_at h p n = object_at (records s) p n" "number_at h p = number_at (records s) p" for p n
    using object_at_same [of h p "records s"] by simp_all
  then show "state_ok (s \<lparr> records := h \<rparr>)" using assms(1,3) \<open>mem h = mem (records s)\<close> by (simp add: state_ok_def refs_counted_def)
  show "numbers (s \<lparr> records := h \<rparr>) = numbers s" by (intro ext) (simp add: numbers_def option.map_cong0 [OF o(2)])
qed

subsection \<open>Where the text is wrong\<close>

text \<open>\<open>2 ^ 48 + 1 - 2 ^ 48\<close> leaves the number 1 as three digits, and its text is \<open>00001\<close>.\<close>

lemma serialize_leading_zeros:
  "case bigint_minus 0 1 (store_of [with_digits [1, 0, 0, 1] 0, with_digits [0, 0, 0, 1] 0]) of
     Inr (p, h) \<Rightarrow> digits_of h p = Some [Some 1, Some 0, Some 0] \<and> map_option (map_sum id fst) (serialize_bigint p h) = Some (Inr ''00001 '')
   | Inl e \<Rightarrow> False"
  by code_simp

subsection \<open>Properties\<close>

text \<open>
  C13. What \<open>serialize\<close> writes, \<open>deserialize\<close> reads back, for objects in canonical form: in every state that a
  supported program reaches (one that makes sense on natural numbers, stays within the limits of the 32-bit counters, and
  has no difference or product after which the class keeps leading zeros), when one more object stays within the
  limits, the decimal text of one object, with a space and any other text behind it, gives another object the same
  number, leaves the rest of the input, and changes no other object.  The text of an object with leading zeros may
  begin with zeros (\<open>serialize_leading_zeros\<close>).
\<close>
theorem bigint_serialize_roundtrip:
  assumes "meaning_all cs Map.empty = Some M" "supported cs Map.empty" "exec_all cs no_objects = Inr s" "objects s v = Some p"
    "M v = Some n" "M w = Some m" "M t = None" "card (dom M) + 1 < 2 ^ 32"
  shows "\<exists>h s'. serialize_bigint p (records s) = Some (Inr (decimal n @ '' '', h)) \<and>
    deserialize_bigint w t ((decimal n @ '' '') @ rest) (s \<lparr> records := h \<rparr>) = Inr (Inr (rest, s')) \<and> numbers s' = M(w \<mapsto> n)"
proof -
  have s: "state_ok s" "numbers s = M" using exec_all_reaches [of no_objects cs M] no_objects_ok assms(1-3) by (auto simp: reaches_def)
  have l: "within_limits M" using supported_all [OF assms(2,1)] .
  then have n: "fits n" using assms(5) by (rule limits_fit)
  have "card (dom (M(t \<mapsto> n))) < 2 ^ 32" using assms(8) card_insert_le_m1 [of "Suc (card (dom M))" "dom M" t] by simp
  then have t: "within_limits (M(t \<mapsto> n))" using l n by (auto simp: within_limits_def ran_def)
  have "object_at (records s) p n" "fresh (records s)" using s assms(4,5) by (auto elim: object_of_number)
  then obtain h where h: "print_bigint p (records s) = Some (Inr (decimal n, h))" "evolves {} (records s) h" "fresh h" using print_bigint_ok n by blast
  note k = evolves_state_ok [OF s(1) h(2,3)]
  have "no_digit ('' '' @ rest)" by (simp add: no_digit_def is_digit_def)
  then obtain s' where "read_bigint w t (decimal n @ '' '' @ rest) (s \<lparr> records := h \<rparr>) = Inr (False, '' '' @ rest, s')" "numbers s' = M(w \<mapsto> n)"
    using read_bigint_reaches [OF k(1), of w m t "decimal n" "'' '' @ rest"] decimal_digits [of n] assms(6,7) s(2) k(2) t by auto
  then show ?thesis using h(1) by (simp add: serialize_bigint_def deserialize_bigint_def)
qed

theorem bigint_serialize_roundtrip_witness:
  "\<exists>s p h s'. exec_all [New_Value 0 0xFFFFFFFF, Times 1 0 0, New 2] no_objects = Inr s \<and> objects s 1 = Some p \<and>
    serialize_bigint p (records s) = Some (Inr (''18446744065119617025 '', h)) \<and>
    deserialize_bigint 2 3 (''18446744065119617025 '' @ ''x'') (s \<lparr> records := h \<rparr>) = Inr (Inr (''x'', s')) \<and>
    numbers s' 2 = Some 18446744065119617025"
proof -
  let ?cs = "[New_Value 0 0xFFFFFFFF, Times 1 0 0, New 2]" and ?n = "18446744065119617025 :: nat"
  have m: "meaning_all ?cs Map.empty = Some [0 \<mapsto> 4294967295, 1 \<mapsto> ?n, 2 \<mapsto> 0]" by (simp add: compute_def)
  have k: "supported ?cs Map.empty" by (simp add: evaluate_programs)
  obtain s where s: "exec_all ?cs no_objects = Inr s" "numbers s = [0 \<mapsto> 4294967295, 1 \<mapsto> ?n, 2 \<mapsto> 0]"
    using exec_all_reaches [OF no_objects_ok(1), of ?cs] m k no_objects_ok(2) by (auto simp: reaches_def simp del: exec_all.simps meaning_all.simps supported.simps)
  then have "numbers s 1 = Some ?n" by simp
  then obtain p where p: "objects s 1 = Some p" by (auto simp: numbers_def)
  have d: "decimal ?n = ''18446744065119617025''" by (simp add: decimal.simps dchar_def char_of_def bit_Suc_0_iff)
  show ?thesis using bigint_serialize_roundtrip [OF m k s(1) p, of ?n 2 0 3 "''x''"] s(1) p unfolding d by auto
qed

end
