(* ===== verification/Bit_Coder.thy ===== *)
theory Bit_Coder
  imports Range_Coder
begin

text \<open>
  The arithmetic coder of dlib: \<open>entropy_encoder_kernel_1\<close> and \<open>entropy_decoder_kernel_1\<close> (the \<open>.h\<close> and
  \<open>.cpp\<close> files in \<open>src/dlib-minimal/lib/dlib/entropy_encoder\<close> and \<open>entropy_decoder\<close>).  It rolls single bits
  off its interval and collects them in the byte \<open>buf\<close>, of which \<open>buf_used\<close> bits are taken.  It is shown
  to meet the same contract as the range coder, by another interpretation of \<open>entropy_coder\<close>.
\<close>

lemma io_bind_mono [partial_function_mono]:
  assumes "mono_option m" "\<And>y. mono_option (\<lambda>f. g y f)"
  shows "mono_option (\<lambda>f. io_bind (m f) (\<lambda>y. g y f))"
  unfolding io_bind_def
proof (rule bind_mono [OF assms(1)])
  fix x show "mono_option (\<lambda>f. case x of Inl e \<Rightarrow> Some (Inl e) | Inr a \<Rightarrow> g a f)"
    using assms(2) by (cases x) (auto intro: option.const_mono)
qed

subsection \<open>The encoder\<close>

record bit_encoder =
  be_low :: u32
  be_high :: u32
  be_buf :: u8
  be_used :: nat
  be_out :: "ostream option"

definition benc_new :: bit_encoder where
  "benc_new = \<lparr> be_low = initial_low, be_high = initial_high, be_buf = 0, be_used = 0, be_out = None \<rparr>"

text \<open>Bytes assigned to \<open>buf\<close> and written one after the other; the flag says whether a write failed.\<close>

fun put_each :: "u8 list \<Rightarrow> u8 \<Rightarrow> ostream \<Rightarrow> bool \<times> u8 \<times> ostream" where
  "put_each [] buf out = (False, buf, out)"
| "put_each (b # bs) buf out = (case sputc b out of None \<Rightarrow> (True, b, out) | Some out' \<Rightarrow> put_each bs b out')"

text \<open>The bits of \<open>buf\<close> filled up from \<open>low\<close>.\<close>

definition fill_buf :: "bit_encoder \<Rightarrow> u8 \<times> u32" where
  "fill_buf s =
    (if be_used s \<noteq> 8
     then (push_bit (8 - be_used s) (be_buf s) OR ucast (drop_bit (24 + be_used s) (be_low s)), push_bit (8 - be_used s) (be_low s))
     else (be_buf s, be_low s))"

definition bflush_bytes :: "bit_encoder \<Rightarrow> u8 list" where
  "bflush_bytes s =
    (case fill_buf s of (buf, low) \<Rightarrow>
      [buf, ucast (drop_bit 24 low AND 0xFF), ucast (drop_bit 16 low AND 0xFF), ucast (drop_bit 8 low AND 0xFF)] @
      (if be_used s \<noteq> 0 then [ucast (low AND 0xFF)] else []))"

definition benc_flush :: "ostream \<Rightarrow> bit_encoder \<Rightarrow> bool \<times> bit_encoder" where
  "benc_flush out s =
    (case put_each (bflush_bytes s) (be_buf s) out of (threw, buf, out') \<Rightarrow>
       if threw then (True, s \<lparr> be_buf := buf, be_low := snd (fill_buf s), be_out := Some out' \<rparr>)
       else (False, \<lparr> be_low = initial_low, be_high = initial_high, be_buf = 0, be_used = 0, be_out = Some out' \<rparr>))"

definition benc_delete :: "bit_encoder \<Rightarrow> ostream option" where
  "benc_delete s = (case be_out s of None \<Rightarrow> None | Some out \<Rightarrow> be_out (snd (benc_flush out s)))"

text \<open>The stream that is given up comes with the new state.\<close>

definition benc_clear :: "bit_encoder \<Rightarrow> bool \<times> ostream option \<times> bit_encoder" where
  "benc_clear s =
    (case be_out s of
       None \<Rightarrow> (False, None, s)
     | Some out \<Rightarrow> (case benc_flush out s of (threw, s') \<Rightarrow>
         if threw then (True, be_out s', s') else (False, be_out s', s' \<lparr> be_out := None \<rparr>)))"

definition benc_set_stream :: "ostream \<Rightarrow> bit_encoder \<Rightarrow> bool \<times> ostream option \<times> bit_encoder" where
  "benc_set_stream out s =
    (case (case be_out s of None \<Rightarrow> (False, s) | Some old \<Rightarrow> benc_flush old s) of (threw, s') \<Rightarrow>
       if threw then (True, be_out s', s')
       else (False, be_out s', \<lparr> be_low = initial_low, be_high = initial_high, be_buf = 0, be_used = 0, be_out = Some out \<rparr>))"

definition benc_stream_is_set :: "bit_encoder \<Rightarrow> bool" where
  "benc_stream_is_set s \<longleftrightarrow> be_out s \<noteq> None"

definition benc_get_stream :: "bit_encoder \<Rightarrow> ostream c" where
  "benc_get_stream s = (case be_out s of None \<Rightarrow> Inl Null_Deref | Some out \<Rightarrow> Inr out)"

text \<open>One bit goes into \<open>buf\<close>, which is written first when it is full.\<close>

definition write_full :: "bit_encoder \<Rightarrow> bit_encoder io" where
  "write_full s =
    (if be_used s = 8 then
       case be_out s of
         None \<Rightarrow> Some (Inl (Ub Uninitialised))
       | Some out \<Rightarrow> (case sputc (be_buf s) out of
           None \<Rightarrow> Some (Inl Write_Failure)
         | Some out' \<Rightarrow> Some (Inr (s \<lparr> be_buf := 0, be_used := 0, be_out := Some out' \<rparr>)))
     else Some (Inr s))"

definition put_bit :: "bit_encoder \<Rightarrow> bit_encoder" where
  "put_bit s = s \<lparr> be_buf := (let buf = push_bit 1 (be_buf s) in if be_low s AND 0x80000000 \<noteq> 0 then buf OR 1 else buf),
     be_used := be_used s + 1 \<rparr>"

definition roll_bit :: "u32 \<Rightarrow> u32 \<Rightarrow> u32 \<times> u32" where
  "roll_bit low high = (let low' = push_bit 1 low in (if low' = 0 then 1 else low', push_bit 1 high OR 1))"

partial_function (option) bencode_loop :: "bit_encoder \<Rightarrow> bit_encoder io" where
  "bencode_loop s =
    (if be_low s \<ge> 0x80000000 \<or> be_high s < 0x80000000 then
       io_bind (write_full s) (\<lambda>s.
         case roll_bit (be_low s) (be_high s) of (low, high) \<Rightarrow>
         bencode_loop (put_bit s \<lparr> be_low := low, be_high := high \<rparr>))
     else if be_high s - be_low s < 0x10000 then
       if be_high s = 0x80000000 then bencode_loop (s \<lparr> be_high := 0x7fffffff \<rparr>)
       else bencode_loop (s \<lparr> be_low := 0x80000000 \<rparr>)
     else Some (Inr s))"

definition bencode :: "u32 \<Rightarrow> u32 \<Rightarrow> u32 \<Rightarrow> bit_encoder \<Rightarrow> bit_encoder io" where
  "bencode low_count high_count tot s =
    (if tot = 0 then Some (Inl (Ub Div_By_Zero))
     else let r = (be_high s - be_low s + 1) div tot in
       bencode_loop (s \<lparr> be_high := be_low s + r * high_count - 1, be_low := be_low s + r * low_count \<rparr>))"

subsection \<open>The decoder\<close>

record bit_decoder =
  bd_low :: u32
  bd_high :: u32
  bd_buf :: u8
  bd_used :: nat
  bd_target :: u32
  bd_r :: u32
  bd_in :: "u8 list option"

definition bdec_new :: bit_decoder where
  "bdec_new = \<lparr> bd_low = initial_low, bd_high = initial_high, bd_buf = 0, bd_used = 0, bd_target = 0, bd_r = 0, bd_in = None \<rparr>"

definition bdec_clear :: "bit_decoder \<Rightarrow> bit_decoder" where
  "bdec_clear s = \<lparr> bd_low = initial_low, bd_high = initial_high, bd_buf = 0, bd_used = 0, bd_target = 0, bd_r = 0, bd_in = None \<rparr>"

text \<open>\<open>ch0\<close> is the value of the uninitialised \<open>ch\<close>, which the first read may leave as it is.\<close>

definition bdec_set_stream :: "u8 \<Rightarrow> u8 list \<Rightarrow> bit_decoder \<Rightarrow> bit_decoder" where
  "bdec_set_stream ch0 input s =
    (case sgetc input of (ch, rest) \<Rightarrow>
     case shift_target (shift_target (shift_target (ucast (case ch of None \<Rightarrow> ch0 | Some b \<Rightarrow> b), rest))) of (target, rest) \<Rightarrow>
       \<lparr> bd_low = initial_low, bd_high = initial_high, bd_buf = 0, bd_used = 0, bd_target = target, bd_r = 0, bd_in = Some rest \<rparr>)"

definition bdec_stream_is_set :: "bit_decoder \<Rightarrow> bool" where
  "bdec_stream_is_set s \<longleftrightarrow> bd_in s \<noteq> None"

definition bdec_get_stream :: "bit_decoder \<Rightarrow> u8 list c" where
  "bdec_get_stream s = (case bd_in s of None \<Rightarrow> Inl Null_Deref | Some input \<Rightarrow> Inr input)"

text \<open>The next byte, when \<open>buf\<close> has no more bits.\<close>

definition load_byte :: "bit_decoder \<Rightarrow> bit_decoder io" where
  "load_byte s =
    (if bd_used s = 0 then
       case bd_in s of
         None \<Rightarrow> Some (Inl (Ub Uninitialised))
       | Some input \<Rightarrow> (case sgetc input of (ch, rest) \<Rightarrow>
           Some (Inr (s \<lparr> bd_used := 8, bd_buf := (case ch of None \<Rightarrow> 0 | Some b \<Rightarrow> b), bd_in := Some rest \<rparr>)))
     else Some (Inr s))"

definition take_bit_in :: "bit_decoder \<Rightarrow> bit_decoder" where
  "take_bit_in s =
    (let used = bd_used s - 1
     in s \<lparr> bd_used := used, bd_target := push_bit 1 (bd_target s) + ucast (drop_bit used (bd_buf s) AND 1) \<rparr>)"

partial_function (option) bdecode_loop :: "bit_decoder \<Rightarrow> bit_decoder io" where
  "bdecode_loop s =
    (if bd_low s \<ge> 0x80000000 \<or> bd_high s < 0x80000000 then
       io_bind (load_byte s) (\<lambda>s.
         case roll_bit (bd_low s) (bd_high s) of (low, high) \<Rightarrow>
         bdecode_loop (take_bit_in s \<lparr> bd_low := low, bd_high := high \<rparr>))
     else if bd_high s - bd_low s < 0x10000 then
       if bd_high s = 0x80000000 then bdecode_loop (s \<lparr> bd_high := 0x7fffffff \<rparr>)
       else bdecode_loop (s \<lparr> bd_low := 0x80000000 \<rparr>)
     else Some (Inr s))"

definition bdecode :: "u32 \<Rightarrow> u32 \<Rightarrow> bit_decoder \<Rightarrow> bit_decoder io" where
  "bdecode low_count high_count s =
    bdecode_loop (s \<lparr> bd_high := bd_low s + bd_r s * high_count - 1, bd_low := bd_low s + bd_r s * low_count, bd_r := 0 \<rparr>)"

definition bget_target_called :: "bit_decoder \<Rightarrow> bool" where
  "bget_target_called s \<longleftrightarrow> bd_r s \<noteq> 0"

definition bget_target :: "u32 \<Rightarrow> bit_decoder \<Rightarrow> (u32 \<times> bit_decoder) c" where
  "bget_target tot s =
    (if tot = 0 then Inl Div_By_Zero
     else let r = (bd_high s - bd_low s + 1) div tot in
       if r = 0 then Inl Div_By_Zero
       else let temp = (bd_target s - bd_low s) div r in
         Inr (if temp < tot then temp else tot - 1, s \<lparr> bd_r := r \<rparr>))"

declare bencode_loop.simps [code] bdecode_loop.simps [code]

subsection \<open>Bytes as bits\<close>

definition bits8 :: "u8 \<Rightarrow> bool list" where
  "bits8 b = rev (map (bit b) [0..<8])"

definition bits_of :: "u8 list \<Rightarrow> bool list" where
  "bits_of bs = concat (map bits8 bs)"

text \<open>Bits beyond the end read as zero; \<open>bval n X\<close> is the number that the first \<open>n\<close> bits of \<open>X\<close> denote.\<close>

definition bit_at :: "bool list \<Rightarrow> nat \<Rightarrow> bool" where
  "bit_at X i \<longleftrightarrow> i < length X \<and> X ! i"

fun bval :: "nat \<Rightarrow> bool list \<Rightarrow> nat" where
  "bval 0 X = 0"
| "bval (Suc n) X = of_bool (bit_at X 0) * 2 ^ n + bval n (tl X)"

lemma bit_at_tl: "bit_at (tl X) n = bit_at X (Suc n)"
  by (cases X) (simp_all add: bit_at_def)

lemma bit_at_drop: "bit_at (drop k X) n = bit_at X (k + n)"
  by (auto simp: bit_at_def)

lemma bval_snoc: "bval (Suc n) X = 2 * bval n X + of_bool (bit_at X n)"
proof (induction n arbitrary: X)
  case (Suc n)
  have "bval (Suc (Suc n)) X = of_bool (bit_at X 0) * 2 ^ Suc n + bval (Suc n) (tl X)" by simp
  also have "\<dots> = of_bool (bit_at X 0) * 2 ^ Suc n + (2 * bval n (tl X) + of_bool (bit_at X (Suc n)))" by (simp only: Suc bit_at_tl)
  finally show ?case by simp
qed simp

lemma bval_less: "bval n X < 2 ^ n"
proof (induction n arbitrary: X)
  case (Suc n)
  have "of_bool (bit_at X 0) * 2 ^ n \<le> (2 :: nat) ^ n" by simp
  then show ?case using Suc [of "tl X"] unfolding bval.simps power_Suc by linarith
qed simp

lemma bval_32:
  "bval 32 X = 2 * bval 31 X + of_bool (bit_at X 31)"
  "bval 32 (b # X) = of_bool b * 2 ^ 31 + bval 31 X"
  using bval_snoc [of 31 X] bval.simps(2) [of 31 "b # X"] by (simp_all add: bit_at_def del: bval.simps)

lemma length_bits8 [simp]: "length (bits8 b) = 8"
  by (simp add: bits8_def)

lemma bits_of_simps [simp]: "bits_of [] = []" "bits_of (b # bs) = bits8 b @ bits_of bs" "bits_of (as @ bs) = bits_of as @ bits_of bs"
  by (simp_all add: bits_of_def)

lemma bits_of_tl: "bits_of (tl R) = drop 8 (bits_of R)"
  by (cases R) simp_all

definition nth_byte :: "u8 list \<Rightarrow> nat \<Rightarrow> u8" where
  "nth_byte R i = (if i < length R then R ! i else 0)"

lemma bit_at_bits_of:
  assumes "u < 8"
  shows "bit_at (bits_of R) (8 * i + u) = bit (nth_byte R i) (7 - u)"
proof (induction R arbitrary: i)
  case (Cons b R)
  show ?case
  proof (cases i)
    case 0
    then show ?thesis using assms by (simp add: bit_at_def nth_append bits8_def rev_nth nth_byte_def)
  next
    case (Suc j)
    then show ?thesis using Cons [of j] by (simp add: bit_at_def nth_append nth_byte_def)
  qed
qed (simp add: bit_at_def nth_byte_def)

lemma bval_append: "bval (length xs + n) (xs @ X) = horner_sum of_bool 2 (rev xs) * 2 ^ n + bval n X"
proof (induction xs)
  case (Cons x xs)
  then show ?case by (simp add: bit_at_def horner_sum_append power_add algebra_simps)
qed simp

lemma bval_bits8: "bval (8 + n) (bits8 b @ X) = unat b * 2 ^ n + bval n X"
proof -
  have "horner_sum of_bool 2 (map (bit (unat b)) [0..<8]) = take_bit 8 (unat b)" by (rule horner_sum_bit_eq_take_bit)
  moreover have "map (bit (unat b)) [0..<8] = map (bit b) [0..<8]" by (simp add: bit_unsigned_iff)
  moreover have "take_bit 8 (unat b) = unat b" using unsigned_less [of b, where 'a = nat] by (simp add: take_bit_nat_eq_self)
  ultimately show ?thesis using bval_append [of "bits8 b" n X] by (simp add: bits8_def)
qed

lemma bval_code: "bval 32 (bits_of R) = code R"
proof -
  have step: "bval (8 + n) (bits_of R) = byte_at R 0 * 2 ^ n + bval n (bits_of (tl R))" for n R
  proof (cases R)
    case Nil
    have "bval k [] = 0" for k by (induction k) (simp_all add: bit_at_def)
    then show ?thesis using Nil by (simp add: byte_at_def)
  qed (simp add: bval_bits8)
  have b: "byte_at (tl R) i = byte_at R (Suc i)" for R i by (cases R) (simp_all add: byte_at_def)
  have "bval 32 (bits_of R) = byte_at R 0 * 2 ^ 24 + (byte_at R 1 * 2 ^ 16 + (byte_at R 2 * 2 ^ 8 + byte_at R 3))"
    using step [of 24 R] step [of 16 "tl R"] step [of 8 "tl (tl R)"] step [of 0 "tl (tl (tl R))"]
    by (simp add: b numeral_2_eq_2 numeral_3_eq_3)
  then show ?thesis by (simp add: code_def)
qed

subsection \<open>Renormalisation\<close>

text \<open>
  What both loops do to the interval, with the bits rolled off: they stop when the interval is wide,
  leave one half of it when it is narrow and straddles the middle, and roll a bit off otherwise.
\<close>

definition one_half :: "u32 \<Rightarrow> u32 \<Rightarrow> bool" where
  "one_half low high \<longleftrightarrow> low \<ge> 0x80000000 \<or> high < 0x80000000"

inductive brenorm :: "u32 \<Rightarrow> u32 \<Rightarrow> bool list \<Rightarrow> u32 \<Rightarrow> u32 \<Rightarrow> bool" where
  bstop: "\<not> one_half low high \<Longrightarrow> \<not> high - low < 0x10000 \<Longrightarrow> brenorm low high [] low high"
| bdown: "\<not> one_half low high \<Longrightarrow> high - low < 0x10000 \<Longrightarrow> high = 0x80000000 \<Longrightarrow>
    brenorm low 0x7fffffff bs low' high' \<Longrightarrow> brenorm low high bs low' high'"
| bup: "\<not> one_half low high \<Longrightarrow> high - low < 0x10000 \<Longrightarrow> high \<noteq> 0x80000000 \<Longrightarrow>
    brenorm 0x80000000 high bs low' high' \<Longrightarrow> brenorm low high bs low' high'"
| broll: "one_half low high \<Longrightarrow> roll_bit low high = (low1, high1) \<Longrightarrow> brenorm low1 high1 bs low' high' \<Longrightarrow>
    brenorm low high ((0x80000000 \<le> low) # bs) low' high'"

definition badmits :: "u32 \<Rightarrow> u32 \<Rightarrow> bool list \<Rightarrow> bool" where
  "badmits low high X \<longleftrightarrow> unat low \<le> bval 32 X \<and> bval 32 X \<le> unat high"

lemma unat_shift_1: "unat (push_bit 1 (w :: u32)) = (unat w mod 2 ^ 31) * 2"
proof -
  have "unat (push_bit 1 w) = (unat w * 2 ^ 1) mod 2 ^ 32"
    unfolding unsigned_push_bit_eq push_bit_eq_mult [of 1 "unat w"] take_bit_eq_mod [of _ "unat w * 2 ^ 1"] by simp
  then show ?thesis using mult_mod_right [of 2 "unat w" "2 ^ 31"] by (simp add: mult.commute)
qed

lemma unat_shift_1_or: "unat (push_bit 1 (w :: u32) OR 1) = (unat w mod 2 ^ 31) * 2 + 1"
proof -
  have "push_bit 1 w AND 1 = 0" by (rule bit_eqI) (auto simp only: bit_and_iff bit_push_bit_iff bit_1_iff bit_0_eq)
  then have "push_bit 1 w + 1 = push_bit 1 w OR 1" by (rule disjunctive_add_eq_or)
  moreover have "unat (push_bit 1 w) + 1 < 2 ^ 32" unfolding unat_shift_1 using mod_less_divisor [of "2 ^ 31" "unat w"] by simp
  then have "unat (push_bit 1 w + 1) = unat (push_bit 1 w) + 1" by (simp add: unat_word_ariths)
  ultimately show ?thesis by (metis unat_shift_1)
qed

lemma roll_bit_unat:
  assumes "roll_bit low high = (low1, high1)"
  shows "unat low1 = max 1 ((unat low mod 2 ^ 31) * 2)" "unat high1 = (unat high mod 2 ^ 31) * 2 + 1"
proof -
  have l: "low1 = (if push_bit 1 low = 0 then 1 else push_bit 1 low)" "high1 = push_bit 1 high OR 1"
    using assms by (auto simp: roll_bit_def Let_def)
  have "unat (push_bit 1 low) = 0 \<longleftrightarrow> push_bit 1 low = 0" by (simp add: unat_eq_0)
  then show "unat low1 = max 1 ((unat low mod 2 ^ 31) * 2)" using l(1) unat_shift_1 [of low] by auto
  show "unat high1 = (unat high mod 2 ^ 31) * 2 + 1" using unat_shift_1_or [of high] l(2) by simp
qed

lemma one_half_nat:
  assumes "unat low \<le> unat high"
  shows "one_half low high \<longleftrightarrow> 2 ^ 31 \<le> unat low \<or> unat high < 2 ^ 31"
  by (simp add: one_half_def word_le_nat_alt word_less_nat_alt)

text \<open>An interval inside one half: the bit that is common to its ends, and the rest.\<close>

lemma half_cases:
  assumes "unat low \<le> unat high" "one_half low high"
  obtains b l h where "unat low = of_bool b * 2 ^ 31 + l" "unat high = of_bool b * 2 ^ 31 + h" "l \<le> h" "h < 2 ^ 31" "b \<longleftrightarrow> 0x80000000 \<le> low"
    "unat low mod 2 ^ 31 = l" "unat high mod 2 ^ 31 = h"
proof (cases "2 ^ 31 \<le> unat low")
  case True
  obtain l h where lh: "unat low = 2 ^ 31 + l" "unat high = 2 ^ 31 + h" using True assms(1) by (metis le_Suc_ex le_trans)
  then have "l \<le> h" "h < 2 ^ 31" using assms(1) u32_less [of high] by simp_all
  then show thesis using that [of True l h] lh True by (simp add: word_le_nat_alt)
next
  case False
  then have "unat high < 2 ^ 31" using assms one_half_nat [of low high] by simp
  then show thesis using that [of False "unat low" "unat high"] False assms(1) by (simp add: word_le_nat_alt)
qed

lemma roll_inside:
  assumes "unat low \<le> unat high" "one_half low high" "roll_bit low high = (low1, high1)"
  shows "unat low1 \<le> unat high1" "1 \<le> unat low1" "badmits low1 high1 X \<Longrightarrow> badmits low high ((0x80000000 \<le> low) # X)"
    "unat high - unat low < unat high1 - unat low1 \<or> unat low mod 2 ^ 31 = 0 \<and> unat high1 - unat low1 = 2 * (unat high - unat low) \<and> unat low1 = 1"
proof -
  obtain b l h where b: "unat low = of_bool b * 2 ^ 31 + l" "unat high = of_bool b * 2 ^ 31 + h" "l \<le> h" "h < 2 ^ 31"
    "b \<longleftrightarrow> 0x80000000 \<le> low" "unat low mod 2 ^ 31 = l" "unat high mod 2 ^ 31 = h" using half_cases [OF assms(1,2)] .
  have u: "unat low1 = max 1 (l * 2)" "unat high1 = h * 2 + 1" using roll_bit_unat [OF assms(3)] b(6,7) by simp_all
  show "unat low1 \<le> unat high1" "1 \<le> unat low1" using u b(3) by simp_all
  show "badmits low high ((0x80000000 \<le> low) # X)" if "badmits low1 high1 X"
  proof -
    have "l * 2 \<le> bval 32 X" "bval 32 X \<le> h * 2 + 1" using that u by (simp_all add: badmits_def)
    then have "l \<le> bval 31 X" "bval 31 X \<le> h" unfolding bval_32(1) by (cases "bit_at X 31"; simp)+
    then show ?thesis unfolding badmits_def bval_32(2) b(5) [symmetric] b(1,2) by simp
  qed
  show "unat high - unat low < unat high1 - unat low1 \<or> unat low mod 2 ^ 31 = 0 \<and> unat high1 - unat low1 = 2 * (unat high - unat low) \<and> unat low1 = 1"
    unfolding u b(1,2) b(6) [unfolded b(1)] using b(3) by (cases l) auto
qed

lemma brenorm_laws:
  assumes "brenorm low high bs low' high'" "unat low \<le> unat high" "1 \<le> unat low"
  shows "1 \<le> unat low' \<and> unat low' + 0x10000 \<le> unat high' \<and>
    (\<forall>X. badmits low' high' X \<longrightarrow> badmits low high (bs @ X))"
  using assms
proof (induction rule: brenorm.induct)
  case (bstop low high)
  then have "unat (high - low) = unat high - unat low" by (intro unat_diff) (simp add: word_le_nat_alt)
  then have "\<not> unat high - unat low < 0x10000" using bstop.hyps by (simp add: word_less_nat_alt)
  then show ?case using bstop.prems by simp
next
  case (bdown low high bs low' high')
  have "unat low < 2 ^ 31" using bdown.hyps(1) bdown.prems(1) by (simp add: one_half_nat)
  then show ?case using bdown.IH bdown.prems(2) bdown.hyps(3) by (auto simp: badmits_def)
next
  case (bup low high bs low' high')
  have "2 ^ 31 \<le> unat high" "unat low < 2 ^ 31" using bup.hyps(1) bup.prems(1) by (simp_all add: one_half_nat)
  then show ?case using bup.IH by (auto simp: badmits_def)
next
  case (broll low high low1 high1 bs low' high')
  note r = roll_inside [OF broll.prems(1) broll.hyps(1,2)]
  show ?case using broll.IH [OF r(1,2)] r(3) by simp
qed

subsection \<open>The loops end\<close>

abbreviation brenorms :: "u32 \<Rightarrow> u32 \<Rightarrow> bool" where
  "brenorms low high \<equiv> \<exists>bs low' high'. brenorm low high bs low' high'"

text \<open>Every bit that is rolled off makes the interval wider, or moves its lower end away from 0.\<close>

definition narrowness :: "u32 \<Rightarrow> u32 \<Rightarrow> nat" where
  "narrowness low high = 2 * (2 ^ 32 - (unat high - unat low)) + of_bool (unat low mod 2 ^ 31 = 0)"

lemma roll_narrowness:
  assumes "unat low \<le> unat high" "one_half low high" "roll_bit low high = (low1, high1)"
  shows "narrowness low1 high1 < narrowness low high"
proof -
  let ?w = "unat high - unat low" and ?w1 = "unat high1 - unat low1"
  have w: "?w1 < 2 ^ 32" using u32_less [of high1] by linarith
  from roll_inside(4) [OF assms] show ?thesis
  proof
    assume "?w < ?w1"
    then have "(2 :: nat) ^ 32 - ?w1 < 2 ^ 32 - ?w" using w by (metis diff_less_mono2 less_trans)
    moreover have "2 * a + of_bool P < 2 * b + of_bool Q" if "a < b" for a b :: nat and P Q
      using that by (cases P; cases Q) simp_all
    ultimately show ?thesis unfolding narrowness_def by blast
  next
    assume a: "unat low mod 2 ^ 31 = 0 \<and> ?w1 = 2 * ?w \<and> unat low1 = 1"
    then have "(2 :: nat) ^ 32 - ?w1 \<le> 2 ^ 32 - ?w" by (intro diff_le_mono2) linarith
    then show ?thesis using a unfolding narrowness_def by (simp add: of_bool_def)
  qed
qed

text \<open>After an interval has been cut in the middle, none that follows is narrow across the middle.\<close>

definition cut :: "u32 \<Rightarrow> u32 \<Rightarrow> bool" where
  "cut low high \<longleftrightarrow> unat high mod 2 ^ 31 = 2 ^ 31 - 1 \<or> (\<exists>k < 32. unat low = 2 ^ k)"

lemma cut_roll:
  assumes "cut low high" "roll_bit low high = (low1, high1)"
  shows "cut low1 high1"
  using assms(1) unfolding cut_def
proof
  assume "unat high mod 2 ^ 31 = 2 ^ 31 - 1"
  then show "unat high1 mod 2 ^ 31 = 2 ^ 31 - 1 \<or> (\<exists>k < 32. unat low1 = 2 ^ k)" using roll_bit_unat(2) [OF assms(2)] by simp
next
  assume "\<exists>k < 32. unat low = 2 ^ k"
  then obtain k where k: "k < 32" "unat low = 2 ^ k" by blast
  have "\<exists>k < 32. unat low1 = 2 ^ k"
  proof (cases "k = 31")
    case True
    then show ?thesis using k roll_bit_unat(1) [OF assms(2)] by (intro exI [of _ 0]) simp
  next
    case False
    then have "(2 :: nat) ^ k < 2 ^ 31" using k(1) by (intro power_strict_increasing) simp_all
    then have "unat low1 = 2 ^ Suc k" using k roll_bit_unat(1) [OF assms(2)] by (simp add: max_def)
    then show ?thesis using False k(1) by (intro exI [of _ "Suc k"]) simp
  qed
  then show "unat high1 mod 2 ^ 31 = 2 ^ 31 - 1 \<or> (\<exists>k < 32. unat low1 = 2 ^ k)" ..
qed

lemma cut_wide:
  assumes "cut low high" "\<not> one_half low high" "unat low \<le> unat high"
  shows "\<not> high - low < 0x10000"
proof -
  have s: "unat low < 2 ^ 31" "2 ^ 31 \<le> unat high" using assms(2,3) by (simp_all add: one_half_nat)
  have "unat low + 2 ^ 30 \<le> unat high"
    using assms(1) unfolding cut_def
  proof
    assume m: "unat high mod 2 ^ 31 = 2 ^ 31 - 1"
    have "unat high div 2 ^ 31 = 1" using s(2) u32_less [of high] by simp
    then show ?thesis using div_mult_mod_eq [of "unat high" "2 ^ 31"] m s(1) by simp
  next
    assume "\<exists>k < 32. unat low = 2 ^ k"
    then obtain k where k: "unat low = 2 ^ k" by blast
    then have "k < 31" using s(1) by (metis power_strict_increasing_iff numeral_One one_less_numeral_iff semiring_norm(76))
    then have "(2 :: nat) ^ k \<le> 2 ^ 30" by (intro power_increasing) simp_all
    then show ?thesis using k s(2) by simp
  qed
  moreover have "unat (high - low) = unat high - unat low" using assms(3) by (intro unat_diff) (simp add: word_le_nat_alt)
  ultimately show ?thesis by (simp add: word_less_nat_alt)
qed

lemma cut_brenorms: "unat low \<le> unat high \<Longrightarrow> cut low high \<Longrightarrow> brenorms low high"
proof (induction "narrowness low high" arbitrary: low high rule: less_induct)
  case less
  show ?case
  proof (cases "one_half low high")
    case True
    obtain low1 high1 where r: "roll_bit low high = (low1, high1)" by fastforce
    have "brenorms low1 high1"
      using less.hyps [OF roll_narrowness [OF less.prems(1) True r]] roll_inside(1) [OF less.prems(1) True r] cut_roll [OF less.prems(2) r] by blast
    then show ?thesis using broll [OF True r] by blast
  next
    case False
    then show ?thesis using bstop [OF False cut_wide [OF less.prems(2) False less.prems(1)]] by blast
  qed
qed

lemma brenorm_total: "unat low \<le> unat high \<Longrightarrow> brenorms low high"
proof (induction "narrowness low high" arbitrary: low high rule: less_induct)
  case less
  show ?case
  proof (cases "one_half low high")
    case True
    obtain low1 high1 where r: "roll_bit low high = (low1, high1)" by fastforce
    have "brenorms low1 high1"
      using less.hyps [OF roll_narrowness [OF less.prems True r]] roll_inside(1) [OF less.prems True r] by blast
    then show ?thesis using broll [OF True r] by blast
  next
    case False
    then have s: "unat low < 2 ^ 31" "2 ^ 31 \<le> unat high" using less.prems by (simp_all add: one_half_nat)
    have "brenorms low 0x7fffffff" using s(1) by (intro cut_brenorms) (simp_all add: cut_def)
    moreover have "brenorms 0x80000000 high"
      using s(2) by (intro cut_brenorms) (auto simp: cut_def intro: exI [of _ 31])
    ultimately show ?thesis using bstop [OF False] bdown [OF False] bup [OF False] by blast
  qed
qed

subsection \<open>The encoder writes the bits\<close>

definition pending_bits :: "u8 \<Rightarrow> nat \<Rightarrow> bool list" where
  "pending_bits buf used = rev (map (bit buf) [0..<used])"

lemma pending_bits_simps [simp]: "length (pending_bits buf used) = used" "pending_bits buf 0 = []" "pending_bits buf 8 = bits8 buf"
  by (simp_all add: pending_bits_def bits8_def)

text \<open>Where \<open>n\<close> bits lead from the position \<open>u\<close> in a byte: \<open>k\<close> bytes are complete, and the position is \<open>v\<close>.\<close>

definition moved_on :: "nat \<Rightarrow> nat \<Rightarrow> nat \<Rightarrow> nat \<Rightarrow> bool" where
  "moved_on u n k v \<longleftrightarrow> 8 * k + v = u + n \<and> v \<le> 8 \<and> (v = 0 \<longrightarrow> u = 0 \<and> n = 0)"

lemma top_bit: "(low :: u32) AND 0x80000000 \<noteq> 0 \<longleftrightarrow> 0x80000000 \<le> low"
proof -
  have e: "(0x80000000 :: u32) = push_bit 31 1" by simp
  have "low AND 0x80000000 \<noteq> 0 \<longleftrightarrow> bit low 31" unfolding e by (simp only: bit_iff_and_push_bit_not_eq_0)
  also have "\<dots> \<longleftrightarrow> odd (unat low div 2 ^ 31)" using bit_iff_odd [of "unat low" 31] by (simp add: bit_unsigned_iff)
  also have "\<dots> \<longleftrightarrow> 0x80000000 \<le> low"
  proof -
    have "unat low div 2 ^ 31 < 2" using u32_less [of low] by simp
    then have "odd (unat low div 2 ^ 31) \<longleftrightarrow> 1 \<le> unat low div 2 ^ 31" by (auto simp: less_2_cases_iff)
    then show ?thesis by (simp add: word_le_nat_alt less_eq_div_iff_mult_less_eq)
  qed
  finally show ?thesis .
qed

lemma put_bit_buf:
  assumes "be_used s < 8"
  shows "pending_bits (be_buf (put_bit s)) (be_used (put_bit s)) = pending_bits (be_buf s) (be_used s) @ [0x80000000 \<le> be_low s]"
proof -
  have "(if b then push_bit 1 w OR 1 else push_bit 1 w) = push_bit 1 w OR of_bool b" for b and w :: u8 by simp
  then have "be_buf (put_bit s) = push_bit 1 (be_buf s) OR of_bool (0x80000000 \<le> be_low s)" unfolding put_bit_def top_bit by (simp add: Let_def)
  moreover have "bit (push_bit 1 w OR of_bool b) (Suc i) = bit w i" if "i < 7" for b i and w :: u8
    using that by (simp only: bit_or_iff bit_push_bit_iff bit_of_bool_iff) simp
  moreover have "bit (push_bit 1 w OR of_bool b :: u8) 0 = b" for b w by (simp only: bit_or_iff bit_push_bit_iff bit_of_bool_iff) simp
  ultimately show ?thesis using assms
    by (simp add: pending_bits_def put_bit_def upt_conv_Cons map_Suc_upt [symmetric] comp_def del: upt_Suc)
qed

lemma bencode_loop_bits:
  assumes "brenorm low high bits low' high'" "room out = None" "used \<le> 8"
  shows "\<exists>buf' used' bs. bencode_loop \<lparr> be_low = low, be_high = high, be_buf = buf, be_used = used, be_out = Some out \<rparr> =
      Some (Inr \<lparr> be_low = low', be_high = high', be_buf = buf', be_used = used', be_out = Some (out \<lparr> written := written out @ bs \<rparr>) \<rparr>) \<and>
    moved_on used (length bits) (length bs) used' \<and> bits_of bs @ pending_bits buf' used' = pending_bits buf used @ bits"
  using assms
proof (induction arbitrary: out buf used rule: brenorm.induct)
  case (bstop low high)
  then show ?case by (subst bencode_loop.simps) (auto simp: one_half_def moved_on_def intro!: exI [of _ "[]"])
next
  case (bdown low high bs low' high')
  show ?case using bdown.IH [OF bdown.prems] bdown.hyps(1-3) by (subst bencode_loop.simps) (simp add: one_half_def)
next
  case (bup low high bs low' high')
  show ?case using bup.IH [OF bup.prems] bup.hyps(1-3) by (subst bencode_loop.simps) (simp add: one_half_def)
next
  case (broll low high low1 high1 bits low' high')
  let ?s = "\<lparr> be_low = low, be_high = high, be_buf = buf, be_used = used, be_out = Some out \<rparr>"
  define s0 cs where "s0 = (if used = 8 then ?s \<lparr> be_buf := 0, be_used := 0, be_out := Some (out \<lparr> written := written out @ [buf] \<rparr>) \<rparr> else ?s)"
    "cs = (if used = 8 then [buf] else [])"
  have w: "write_full ?s = Some (Inr s0)" using broll.prems(1) by (simp add: write_full_def s0_cs_def)
  have s0: "be_used s0 < 8" "bits_of cs @ pending_bits (be_buf s0) (be_used s0) = pending_bits buf used" "be_low s0 = low" "be_high s0 = high"
    "be_out s0 = Some (out \<lparr> written := written out @ cs \<rparr>)" "8 * length cs + be_used s0 = used"
    using broll.prems(2) by (auto simp: s0_cs_def)
  let ?b = "0x80000000 \<le> low"
  define s1 where "s1 = put_bit s0 \<lparr> be_low := low1, be_high := high1 \<rparr>"
  have s1: "s1 = \<lparr> be_low = low1, be_high = high1, be_buf = be_buf s1, be_used = Suc (be_used s0), be_out = Some (out \<lparr> written := written out @ cs \<rparr>) \<rparr>"
    "pending_bits (be_buf s1) (Suc (be_used s0)) = pending_bits (be_buf s0) (be_used s0) @ [?b]"
    using put_bit_buf [OF s0(1)] s0(3,5) by (simp_all add: s1_def put_bit_def)
  obtain buf' used' bs where l: "bencode_loop s1 =
      Some (Inr \<lparr> be_low = low', be_high = high', be_buf = buf', be_used = used', be_out = Some (out \<lparr> written := (written out @ cs) @ bs \<rparr>) \<rparr>)"
    "moved_on (Suc (be_used s0)) (length bits) (length bs) used'"
    "bits_of bs @ pending_bits buf' used' = pending_bits (be_buf s1) (Suc (be_used s0)) @ bits"
    using broll.IH [of "out \<lparr> written := written out @ cs \<rparr>" "Suc (be_used s0)" "be_buf s1"] broll.prems(1) s0(1) s1(1) by auto
  have "bencode_loop ?s = bencode_loop s1"
    using broll.hyps(1,2) w s0(3,4) by (subst bencode_loop.simps) (simp add: one_half_def s1_def)
  moreover have "moved_on used (length (?b # bits)) (length (cs @ bs)) used'" using l(2) s0(6) by (auto simp: moved_on_def)
  moreover have "bits_of (cs @ bs) @ pending_bits buf' used' = pending_bits buf used @ ?b # bits" using l(3) s0(2) s1(2) by simp
  ultimately show ?case using l(1) by (intro exI [of _ buf'] exI [of _ used'] exI [of _ "cs @ bs"]) simp
qed

subsection \<open>The decoder reads them\<close>

text \<open>The decoder that has the position \<open>u\<close> of the first byte of \<open>R\<close> and 32 bits after it in its target.\<close>

definition dec_at :: "nat \<Rightarrow> u8 list \<Rightarrow> bit_decoder \<Rightarrow> bool" where
  "dec_at u R d \<longleftrightarrow> u \<le> 8 \<and> bd_target d = of_nat (bval 32 (drop u (bits_of R))) \<and>
    bd_in d = Some (drop (if u = 0 then 4 else 5) R) \<and>
    (if u = 0 then bd_used d = 0 else bd_used d = 8 - u \<and> bd_buf d = nth_byte R 4)"

lemma dec_at_8: "dec_at 8 R d \<Longrightarrow> dec_at 0 (tl R) d"
  using drop_Suc [of 4 R] by (simp add: dec_at_def bits_of_tl)

lemma shift_in_bit: "push_bit 1 (of_nat (bval 32 X) :: u32) + of_bool (bit_at X 32) = of_nat (bval 32 (tl X))"
proof -
  have "2 * bval 32 X + of_bool (bit_at X 32) = bval (Suc 32) X" by (simp only: bval_snoc)
  also have "\<dots> = of_bool (bit_at X 0) * 2 ^ 32 + bval 32 (tl X)" by (simp only: bval.simps)
  finally have "of_nat (2 * bval 32 X + of_bool (bit_at X 32)) = (of_nat (of_bool (bit_at X 0) * 2 ^ 32 + bval 32 (tl X)) :: u32)" by (simp only:)
  moreover have "of_nat (of_bool b * 2 ^ 32) = (0 :: u32)" for b by (cases b) simp_all
  ultimately show ?thesis by (simp add: push_bit_eq_mult mult.commute)
qed

lemma dec_at_bit:
  assumes "dec_at u R d" "u < 8"
  shows "\<exists>d1. load_byte d = Some (Inr d1) \<and> dec_at (Suc u) R (take_bit_in d1 \<lparr> bd_low := l, bd_high := h \<rparr>) \<and>
    bd_low d1 = bd_low d \<and> bd_high d1 = bd_high d \<and> bd_r (take_bit_in d1) = bd_r d"
proof -
  let ?X = "drop u (bits_of R)"
  define d1 where "d1 = (if u = 0 then d \<lparr> bd_used := 8, bd_buf := nth_byte R 4, bd_in := Some (drop 5 R) \<rparr> else d)"
  have g: "sgetc (drop 4 R) = (if 4 < length R then Some (R ! 4) else None, drop 5 R)" by (simp add: sgetc_drop)
  have l: "load_byte d = Some (Inr d1)" using assms by (auto simp: load_byte_def dec_at_def d1_def g nth_byte_def)
  have d1: "bd_used d1 = 8 - u" "bd_buf d1 = nth_byte R 4" "bd_in d1 = Some (drop 5 R)" "bd_target d1 = of_nat (bval 32 ?X)"
    "bd_low d1 = bd_low d" "bd_high d1 = bd_high d" "bd_r d1 = bd_r d"
    using assms(1) by (auto simp: dec_at_def d1_def)
  have "bit_at ?X 32 = bit (nth_byte R 4) (7 - u)" using bit_at_bits_of [OF assms(2), of R 4] by (simp add: bit_at_drop add.commute)
  moreover have "ucast (drop_bit k (b :: u8) AND 1) = (of_bool (bit b k) :: u32)" for k b
    by (simp add: and_one_eq bit_iff_odd_drop_bit odd_iff_mod_2_eq_one)
  ultimately have "bd_target (take_bit_in d1) = of_nat (bval 32 (tl ?X))"
    using shift_in_bit [of ?X] d1 assms(2) by (simp add: take_bit_in_def Let_def)
  then have "dec_at (Suc u) R (take_bit_in d1 \<lparr> bd_low := l, bd_high := h \<rparr>)"
    using d1 assms(2) by (auto simp: dec_at_def take_bit_in_def Let_def drop_Suc tl_drop)
  then show ?thesis using l d1 by (auto simp: take_bit_in_def Let_def)
qed

lemma bdecode_loop_bits:
  assumes "brenorm low high bits low' high'" "dec_at u R d" "bd_low d = low" "bd_high d = high" "moved_on u (length bits) k v"
  shows "\<exists>d'. bdecode_loop d = Some (Inr d') \<and> bd_low d' = low' \<and> bd_high d' = high' \<and> dec_at v (drop k R) d'"
  using assms
proof (induction arbitrary: u k R d rule: brenorm.induct)
  case (bstop low high)
  have "k = 0 \<and> v = u" using bstop.prems(1,4) by (cases k) (auto simp: dec_at_def moved_on_def)
  then show ?case using bstop by (subst bdecode_loop.simps) (auto simp: one_half_def)
next
  case (bdown low high bs low' high')
  have "dec_at u R (d \<lparr> bd_high := 0x7fffffff \<rparr>)" using bdown.prems(1) by (simp add: dec_at_def)
  from bdown.IH [OF this _ _ bdown.prems(4)] show ?case using bdown.prems(2,3) bdown.hyps(1-3) by (subst bdecode_loop.simps) (simp add: one_half_def)
next
  case (bup low high bs low' high')
  have "dec_at u R (d \<lparr> bd_low := 0x80000000 \<rparr>)" using bup.prems(1) by (simp add: dec_at_def)
  from bup.IH [OF this _ _ bup.prems(4)] show ?case using bup.prems(2,3) bup.hyps(1-3) by (subst bdecode_loop.simps) (simp add: one_half_def)
next
  case (broll low high low1 high1 bits low' high')
  define u0 R0 k0 where "u0 = (if u = 8 then 0 else u)" "R0 = (if u = 8 then tl R else R)" "k0 = (if u = 8 then k - 1 else k)"
  have a: "dec_at u0 R0 d" "u0 < 8" using broll.prems(1) dec_at_8 [of R d] by (auto simp: u0_R0_k0_def dec_at_def)
  have m: "moved_on (Suc u0) (length bits) k0 v" "drop k0 R0 = drop k R"
    using broll.prems(4) by (cases k; auto simp: moved_on_def u0_R0_k0_def drop_Suc)+
  obtain d1 where d1: "load_byte d = Some (Inr d1)" "dec_at (Suc u0) R0 (take_bit_in d1 \<lparr> bd_low := low1, bd_high := high1 \<rparr>)"
    "bd_low d1 = low" "bd_high d1 = high" using dec_at_bit [OF a, where l = low1 and h = high1] broll.prems(2,3) by auto
  have "bdecode_loop d = bdecode_loop (take_bit_in d1 \<lparr> bd_low := low1, bd_high := high1 \<rparr>)"
    using broll.hyps(1,2) broll.prems(2,3) d1 by (subst bdecode_loop.simps) (simp add: one_half_def)
  then show ?case using broll.IH [OF d1(2) _ _ m(1)] m(2) by simp
qed

lemma bdecode_loop_total:
  assumes "brenorm low high bits low' high'" "bd_low d = low" "bd_high d = high" "bd_in d \<noteq> None"
  shows "\<exists>d'. bdecode_loop d = Some (Inr d') \<and> bd_low d' = low' \<and> bd_high d' = high' \<and> bd_in d' \<noteq> None"
  using assms
proof (induction arbitrary: d rule: brenorm.induct)
  case (bstop low high)
  then show ?case by (subst bdecode_loop.simps) (auto simp: one_half_def)
next
  case (bdown low high bs low' high')
  then show ?case by (subst bdecode_loop.simps) (simp add: one_half_def)
next
  case (bup low high bs low' high')
  then show ?case by (subst bdecode_loop.simps) (simp add: one_half_def)
next
  case (broll low high low1 high1 bits low' high')
  obtain d1 where d1: "load_byte d = Some (Inr d1)" "bd_low d1 = low" "bd_high d1 = high" "bd_in d1 \<noteq> None"
    using broll.prems by (cases "bd_used d = 0"; cases "sgetc (the (bd_in d))") (auto simp: load_byte_def)
  then have "bdecode_loop d = bdecode_loop (take_bit_in d1 \<lparr> bd_low := low1, bd_high := high1 \<rparr>)"
    using broll.hyps(1,2) broll.prems by (subst bdecode_loop.simps) (simp add: one_half_def)
  then show ?case using broll.IH [of "take_bit_in d1 \<lparr> bd_low := low1, bd_high := high1 \<rparr>"] d1(4) by (simp add: take_bit_in_def Let_def)
qed

subsection \<open>The last bytes\<close>

definition bits32 :: "u32 \<Rightarrow> bool list" where
  "bits32 w = rev (map (bit w) [0..<32])"

lemma bval_bits32: "bval 32 (bits32 w @ X) = unat w"
proof -
  have "horner_sum of_bool 2 (map (bit (unat w)) [0..<32]) = take_bit 32 (unat w)" by (rule horner_sum_bit_eq_take_bit)
  moreover have "map (bit (unat w)) [0..<32] = map (bit w) [0..<32]" by (simp add: bit_unsigned_iff)
  moreover have "take_bit 32 (unat w) = unat w" using u32_less [of w] by (simp add: take_bit_nat_eq_self)
  ultimately show ?thesis using bval_append [of "bits32 w" 0 X] by (simp add: bits32_def)
qed

lemma bit_byte_u32: "bit (ucast (drop_bit k (w :: u32) AND 0xFF) :: u8) n \<longleftrightarrow> n < 8 \<and> bit w (k + n)"
proof -
  have m: "(0xFF :: u32) = mask 8" by (simp add: mask_eq_exp_minus_1)
  show ?thesis unfolding m by (auto simp: bit_ucast_iff bit_and_iff bit_drop_bit_eq bit_mask_iff dest: bit_imp_le_length)
qed

lemma bits8_u32: "bits8 (ucast (drop_bit k w AND 0xFF)) = rev (map (\<lambda>n. bit (w :: u32) (k + n)) [0..<8])"
  by (simp add: bits8_def bit_byte_u32)

lemma upt_32:
  "[0..<32] = [0::nat, 1, 2, 3, 4, 5, 6, 7, 8, 9, 10, 11, 12, 13, 14, 15, 16, 17, 18, 19, 20, 21, 22, 23, 24, 25, 26, 27, 28, 29, 30, 31]"
  "[0..<8] = [0::nat, 1, 2, 3, 4, 5, 6, 7]" "[0..<7] = [0::nat, 1, 2, 3, 4, 5, 6]" "[0..<6] = [0::nat, 1, 2, 3, 4, 5]"
  "[0..<5] = [0::nat, 1, 2, 3, 4]" "[0..<4] = [0::nat, 1, 2, 3]" "[0..<3] = [0::nat, 1, 2]" "[0..<2] = [0::nat, 1]"
  by code_simp+

lemma bit_double: "bit (w * 2 :: 'a :: len word) n \<longleftrightarrow> 0 < n \<and> n < LENGTH('a) \<and> bit w (n - 1)"
proof -
  have "w * 2 = push_bit 1 w" by (simp add: push_bit_eq_mult)
  then show ?thesis by (simp only: bit_push_bit_iff) auto
qed

lemma bflush_bits:
  assumes "be_used s \<le> 8"
  shows "bits_of (bflush_bytes s) = pending_bits (be_buf s) (be_used s) @ bits32 (be_low s) @ replicate (if be_used s = 0 then 0 else 8 - be_used s) False"
proof -
  have low: "bits8 (ucast (w AND 0xFF)) = rev (map (bit (w :: u32)) [0..<8])" for w using bits8_u32 [of 0 w] by simp
  consider "be_used s = 0" | "be_used s = 1" | "be_used s = 2" | "be_used s = 3" | "be_used s = 4" | "be_used s = 5" | "be_used s = 6" | "be_used s = 7" | "be_used s = 8"
    using assms by linarith
  then show ?thesis
    by cases (simp_all add: bflush_bytes_def fill_buf_def bits8_u32 low, simp_all add: pending_bits_def bits32_def bits8_def bit_simps upt_32 replicate_rec bit_double)
qed

subsection \<open>The contract\<close>

definition benc_ready :: "bit_encoder \<Rightarrow> bool" where
  "benc_ready e \<longleftrightarrow> 1 \<le> unat (be_low e) \<and> unat (be_low e) + 0x10000 \<le> unat (be_high e) \<and> be_used e \<le> 8 \<and>
    (\<exists>out. be_out e = Some out \<and> room out = None)"

definition benc_sent :: "bit_encoder \<Rightarrow> u8 list" where
  "benc_sent e = (case be_out e of None \<Rightarrow> [] | Some out \<Rightarrow> written out)"

definition benc_admits :: "bit_encoder \<Rightarrow> u8 list \<Rightarrow> bool" where
  "benc_admits e rest \<longleftrightarrow> (\<exists>X. bits_of rest = pending_bits (be_buf e) (be_used e) @ X \<and> badmits (be_low e) (be_high e) X)"

definition bin_step :: "bit_encoder \<Rightarrow> u8 list \<Rightarrow> bit_decoder \<Rightarrow> bool" where
  "bin_step e rest d \<longleftrightarrow> bd_low d = be_low e \<and> bd_high d = be_high e \<and> dec_at (be_used e) rest d"

definition bdec_sound :: "bit_decoder \<Rightarrow> bool" where
  "bdec_sound d \<longleftrightarrow> 1 \<le> unat (bd_low d) \<and> unat (bd_low d) + 0x10000 \<le> unat (bd_high d) \<and> bd_in d \<noteq> None"

lemma bencode_law:
  assumes "benc_ready e" "interval_ok (lc, hc, tot)"
  defines "r \<equiv> (be_high e - be_low e + 1) div tot"
  shows "\<exists>e' bs bits. bencode lc hc tot e = Some (Inr e') \<and> benc_ready e' \<and> benc_sent e' = benc_sent e @ bs \<and>
    brenorm (be_low e + r * lc) (be_low e + r * hc - 1) bits (be_low e') (be_high e') \<and>
    moved_on (be_used e) (length bits) (length bs) (be_used e') \<and>
    bits_of bs @ pending_bits (be_buf e') (be_used e') = pending_bits (be_buf e) (be_used e) @ bits"
proof -
  obtain low high buf used out where e: "e = \<lparr> be_low = low, be_high = high, be_buf = buf, be_used = used, be_out = Some out \<rparr>"
    "1 \<le> unat low" "unat low + 0x10000 \<le> unat high" "used \<le> 8" "room out = None"
    using assms(1) by (cases e) (auto simp: benc_ready_def)
  have i: "lc < hc" "hc \<le> tot" "tot < 65536" "tot \<noteq> 0" using assms(2) by (auto simp: word_less_nat_alt word_le_nat_alt)
  let ?l = "low + r * lc" and ?h = "low + r * hc - 1"
  have le: "unat ?l \<le> unat ?h" "1 \<le> unat ?l" using narrowed_inside [OF e(2,3) i(1-3)] e(1) by (simp_all add: r_def)
  obtain bits low' high' where rn: "brenorm ?l ?h bits low' high'" using brenorm_total [OF le(1)] by blast
  obtain buf' used' bs where l: "bencode_loop \<lparr> be_low = ?l, be_high = ?h, be_buf = buf, be_used = used, be_out = Some out \<rparr> =
      Some (Inr \<lparr> be_low = low', be_high = high', be_buf = buf', be_used = used', be_out = Some (out \<lparr> written := written out @ bs \<rparr>) \<rparr>)"
    "moved_on used (length bits) (length bs) used'" "bits_of bs @ pending_bits buf' used' = pending_bits buf used @ bits"
    using bencode_loop_bits [OF rn e(5,4), of buf] by blast
  let ?e = "\<lparr> be_low = low', be_high = high', be_buf = buf', be_used = used', be_out = Some (out \<lparr> written := written out @ bs \<rparr>) \<rparr>"
  have "bencode lc hc tot e = Some (Inr ?e)" using l(1) i(4) by (simp add: bencode_def r_def e(1) Let_def)
  moreover have "benc_ready ?e" using brenorm_laws [OF rn le] e(5) l(2) by (simp add: benc_ready_def moved_on_def)
  ultimately show ?thesis using rn l(2,3) by (intro exI [of _ ?e] exI [of _ bs] exI [of _ bits]) (simp add: benc_sent_def e(1))
qed

lemma bget_target_law:
  assumes "bin_step e rest d" "benc_ready e" "interval_ok (lc, hc, tot)" "bits_of rest = pending_bits (be_buf e) (be_used e) @ X"
  defines "r \<equiv> (be_high e - be_low e + 1) div tot"
  assumes "badmits (be_low e + r * lc) (be_low e + r * hc - 1) X"
  shows "\<exists>t. bget_target tot d = Inr (t, d \<lparr> bd_r := r \<rparr>) \<and> lc \<le> t \<and> t < hc"
proof -
  have i: "lc < hc" "hc \<le> tot" "tot < 65536" "tot \<noteq> 0" using assms(3) by (auto simp: word_less_nat_alt word_le_nat_alt)
  have e: "1 \<le> unat (be_low e)" "unat (be_low e) + 0x10000 \<le> unat (be_high e)" using assms(2) by (simp_all add: benc_ready_def)
  note t = target_between [OF e i(1-3), folded r_def, of "bval 32 X"]
  have "bd_target d = of_nat (bval 32 X)" using assms(1,4) by (simp add: bin_step_def dec_at_def)
  then show ?thesis using t assms(6) i(2,4) assms(1) by (auto simp: bget_target_def Let_def bin_step_def r_def badmits_def)
qed

lemma bdecode_law:
  assumes "bin_step e (bs @ rest) d" "brenorm (be_low e + r * lc) (be_low e + r * hc - 1) bits (be_low e') (be_high e')"
    "moved_on (be_used e) (length bits) (length bs) (be_used e')"
  shows "\<exists>d'. bdecode lc hc (d \<lparr> bd_r := r \<rparr>) = Some (Inr d') \<and> bin_step e' rest d'"
proof -
  let ?d = "d \<lparr> bd_high := be_low e + r * hc - 1, bd_low := be_low e + r * lc, bd_r := 0 \<rparr>"
  have "dec_at (be_used e) (bs @ rest) ?d" using assms(1) by (simp add: bin_step_def dec_at_def)
  from bdecode_loop_bits [OF assms(2) this _ _ assms(3)] show ?thesis using assms(1) by (auto simp: bdecode_def bin_step_def)
qed

lemma put_each_unlimited:
  "room out = None \<Longrightarrow> \<exists>b. put_each bs buf out = (False, b, out \<lparr> written := written out @ bs \<rparr>)"
proof (induction bs arbitrary: buf out)
  case (Cons a bs)
  then show ?case using Cons.IH [of "out \<lparr> written := written out @ [a] \<rparr>" a] by simp
qed simp

lemma benc_delete_law:
  assumes "benc_ready e"
  shows "\<exists>out. benc_delete e = Some out \<and> written out = benc_sent e @ bflush_bytes e"
proof -
  obtain out where out: "be_out e = Some out" "room out = None" using assms by (auto simp: benc_ready_def)
  obtain b where "put_each (bflush_bytes e) (be_buf e) out = (False, b, out \<lparr> written := written out @ bflush_bytes e \<rparr>)"
    using put_each_unlimited [OF out(2)] by blast
  then show ?thesis using out(1) by (simp add: benc_delete_def benc_flush_def benc_sent_def)
qed

lemma bdec_sound_law:
  assumes "bdec_sound d" "0 < tot" "tot < 65536"
  shows "\<exists>t d1. bget_target tot d = Inr (t, d1) \<and> t < tot \<and>
    (\<forall>lc hc. lc < hc \<longrightarrow> hc \<le> tot \<longrightarrow> (\<exists>d2. bdecode lc hc d1 = Some (Inr d2) \<and> bdec_sound d2))"
proof -
  let ?r = "(bd_high d - bd_low d + 1) div tot" and ?t = "(bd_target d - bd_low d) div ((bd_high d - bd_low d + 1) div tot)"
  have s: "1 \<le> unat (bd_low d)" "unat (bd_low d) + 0x10000 \<le> unat (bd_high d)" "bd_in d \<noteq> None"
    using assms(1) by (auto simp: bdec_sound_def)
  have "1 \<le> unat ?r" using narrowed(2) [OF s(1,2), of 0 tot tot] assms(2,3) by simp
  then have "?r \<noteq> 0" by auto
  moreover have "tot \<noteq> 0" "tot - 1 < tot" using assms(2) by (auto simp: word_less_nat_alt unat_sub word_le_nat_alt)
  ultimately have t: "bget_target tot d = Inr (if ?t < tot then ?t else tot - 1, d \<lparr> bd_r := ?r \<rparr>)"
    "(if ?t < tot then ?t else tot - 1) < tot" by (simp_all add: bget_target_def Let_def)
  have "\<exists>d2. bdecode lc hc (d \<lparr> bd_r := ?r \<rparr>) = Some (Inr d2) \<and> bdec_sound d2" if i: "lc < hc" "hc \<le> tot" for lc hc
  proof -
    let ?l = "bd_low d + ?r * lc" and ?h = "bd_low d + ?r * hc - 1"
    have le: "unat ?l \<le> unat ?h" "1 \<le> unat ?l" using narrowed_inside [OF s(1,2) i assms(3)] by simp_all
    obtain bits low' high' where rn: "brenorm ?l ?h bits low' high'" using brenorm_total [OF le(1)] by blast
    show ?thesis
      using bdecode_loop_total [OF rn, of "d \<lparr> bd_high := ?h, bd_low := ?l, bd_r := 0 \<rparr>"] brenorm_laws [OF rn le] s(3)
      by (auto simp: bdecode_def bdec_sound_def)
  qed
  then show ?thesis using t by blast
qed

interpretation bit_coder: entropy_coder bencode benc_delete bget_target bdecode benc_ready benc_sent benc_admits bin_step bdec_sound bd_in
proof unfold_locales
  fix e lc hc tot assume p: "benc_ready e" "interval_ok (lc, hc, tot)"
  let ?r = "(be_high e - be_low e + 1) div tot"
  let ?l = "be_low e + ?r * lc" and ?h = "be_low e + ?r * hc - 1"
  obtain e' bs bits where e': "bencode lc hc tot e = Some (Inr e')" "benc_ready e'" "benc_sent e' = benc_sent e @ bs"
    "brenorm ?l ?h bits (be_low e') (be_high e')" "moved_on (be_used e) (length bits) (length bs) (be_used e')"
    "bits_of bs @ pending_bits (be_buf e') (be_used e') = pending_bits (be_buf e) (be_used e) @ bits"
    using bencode_law [OF p] by blast
  have i: "1 \<le> unat (be_low e)" "unat (be_low e) + 0x10000 \<le> unat (be_high e)" "lc < hc" "hc \<le> tot" "tot < 65536"
    using p by (auto simp: benc_ready_def)
  note n = narrowed [OF i] narrowed_inside [OF i]
  have inside: "badmits ?l ?h X \<Longrightarrow> badmits (be_low e) (be_high e) X" for X
    unfolding badmits_def n(3,4) using n(6) by linarith
  have a: "\<exists>X. bits_of (bs @ rest) = pending_bits (be_buf e) (be_used e) @ X \<and> badmits ?l ?h X" if "benc_admits e' rest" for rest
  proof -
    obtain Y where Y: "bits_of rest = pending_bits (be_buf e') (be_used e') @ Y" "badmits (be_low e') (be_high e') Y"
      using \<open>benc_admits e' rest\<close> by (auto simp: benc_admits_def)
    have "bits_of (bs @ rest) = pending_bits (be_buf e) (be_used e) @ bits @ Y" using Y(1) e'(6) by (metis append_assoc bits_of_simps(3))
    moreover have "badmits ?l ?h (bits @ Y)" using brenorm_laws [OF e'(4) n(7,8)] Y(2) by blast
    ultimately show ?thesis by blast
  qed
  have "benc_admits e (bs @ rest)" if "benc_admits e' rest" for rest
    using a [OF that] inside unfolding benc_admits_def by blast
  moreover have "\<exists>t d1 d2. bget_target tot d = Inr (t, d1) \<and> lc \<le> t \<and> t < hc \<and> bdecode lc hc d1 = Some (Inr d2) \<and> bin_step e' rest d2"
    if "benc_admits e' rest" "bin_step e (bs @ rest) d" for rest d
    using a [OF that(1)] bget_target_law [OF that(2) p] bdecode_law [OF that(2) e'(4,5)] by blast
  ultimately show "\<exists>e' bs. bencode lc hc tot e = Some (Inr e') \<and> benc_ready e' \<and> benc_sent e' = benc_sent e @ bs \<and>
      (\<forall>rest. benc_admits e' rest \<longrightarrow> benc_admits e (bs @ rest)) \<and>
      (\<forall>rest d. benc_admits e' rest \<longrightarrow> bin_step e (bs @ rest) d \<longrightarrow>
        (\<exists>t d1 d2. bget_target tot d = Inr (t, d1) \<and> lc \<le> t \<and> t < hc \<and>
          bdecode lc hc d1 = Some (Inr d2) \<and> bin_step e' rest d2))"
    using e'(1-3) by (intro exI [of _ e'] exI [of _ bs]) blast
next
  fix e assume e: "benc_ready e"
  then have u: "be_used e \<le> 8" "unat (be_low e) \<le> unat (be_high e)" by (simp_all add: benc_ready_def)
  have l: "length (bflush_bytes e) = (if be_used e = 0 then 4 else 5)" by (simp add: bflush_bytes_def split: prod.splits)
  have "benc_admits e (bflush_bytes e @ extra)" for extra
    unfolding benc_admits_def using bflush_bits [OF u(1)] u(2) by (auto simp: badmits_def bval_bits32)
  moreover have "bd_in d = Some extra" if "bin_step e (bflush_bytes e @ extra) d" for extra d
    using that l by (auto simp: bin_step_def dec_at_def split: if_splits)
  moreover have "bflush_bytes e \<noteq> []" using l by (auto split: if_splits)
  ultimately show "\<exists>out bs. benc_delete e = Some out \<and> written out = benc_sent e @ bs \<and> bs \<noteq> [] \<and>
      (\<forall>extra. benc_admits e (bs @ extra)) \<and> (\<forall>extra d. bin_step e (bs @ extra) d \<longrightarrow> bd_in d = Some extra)"
    using benc_delete_law [OF e] by blast
next
  fix d tot assume "bdec_sound d" "0 < tot" "tot < (65536 :: u32)"
  then show "\<exists>t d1. bget_target tot d = Inr (t, d1) \<and> t < tot \<and>
      (\<forall>lc hc. lc < hc \<longrightarrow> hc \<le> tot \<longrightarrow> (\<exists>d2. bdecode lc hc d1 = Some (Inr d2) \<and> bdec_sound d2))"
    by (rule bdec_sound_law)
qed

subsection \<open>From the first symbol to the last\<close>

abbreviation benc_start :: "ostream \<Rightarrow> bit_encoder" where
  "benc_start out \<equiv> snd (snd (benc_set_stream out benc_new))"

lemma benc_start_ready:
  assumes "room out = None"
  shows "benc_ready (benc_start out)" "benc_sent (benc_start out) = written out"
  using assms by (simp_all add: benc_ready_def benc_sent_def benc_set_stream_def benc_new_def initial_low_def initial_high_def)

lemma bdec_start_in_step:
  assumes "input \<noteq> []"
  shows "bin_step (benc_start out) input (bdec_set_stream ch0 input s)"
proof -
  have "in_step (enc_start out) input (dec_set_stream ch0 input dec_new)" by (rule dec_start_in_step [OF assms])
  then have "d_target (dec_set_stream ch0 input dec_new) = of_nat (code input)" "d_in (dec_set_stream ch0 input dec_new) = Some (drop 4 input)"
    by (simp_all add: in_step_def)
  then have "bd_target (bdec_set_stream ch0 input s) = of_nat (code input)" "bd_in (bdec_set_stream ch0 input s) = Some (drop 4 input)"
    by (simp_all add: bdec_set_stream_def dec_set_stream_def split: prod.splits)
  moreover have "bd_used (bdec_set_stream ch0 input s) = 0" "bd_low (bdec_set_stream ch0 input s) = initial_low"
    "bd_high (bdec_set_stream ch0 input s) = initial_high" by (simp_all add: bdec_set_stream_def split: prod.splits)
  ultimately show ?thesis by (simp add: bin_step_def dec_at_def bval_code benc_set_stream_def benc_new_def)
qed

text \<open>
  C15. The arithmetic coder is lossless: whatever the intervals are, the bits that the encoder has
  written when it is destroyed make the decoder return, for every symbol in turn, a target inside
  the interval that was encoded.  No loop runs for ever, no division is by zero, and the decoder
  has then read exactly the encoder's bytes, although both work on single bits.
\<close>

theorem bit_coder_roundtrip:
  assumes "list_all interval_ok is" "room out = None" "written out = []"
  shows "\<exists>e out'. encode_all bencode is (benc_start out) = Some (Inr e) \<and> benc_delete e = Some out' \<and>
    (\<forall>extra. \<exists>ts d. decode_all bget_target bdecode is (bdec_set_stream ch0 (written out' @ extra) bdec_new) = Some (Inr (ts, d)) \<and>
      list_all2 (\<lambda>(lc, hc, tot) t. lc \<le> t \<and> t < hc) is ts \<and> bd_in d = Some extra)"
proof -
  note start = benc_start_ready [OF assms(2)]
  obtain e bs where e: "encode_all bencode is (benc_start out) = Some (Inr e)"
    "bit_coder.delivers (benc_start out) bs e (bit_coder.finds_all is)"
    using bit_coder.encode_all_delivers [OF start(1) assms(1)] by blast
  obtain out' fl where out': "benc_delete e = Some out'" "written out' = bs @ fl" "fl \<noteq> []"
    "\<forall>extra d. bin_step (benc_start out) ((bs @ fl) @ extra) d \<longrightarrow> (\<exists>d'. bit_coder.finds_all is d d' \<and> bd_in d' = Some extra)"
    using bit_coder.delivers_finish [OF e(2)] start(2) assms(3) by auto
  have "bin_step (benc_start out) ((bs @ fl) @ extra) (bdec_set_stream ch0 ((bs @ fl) @ extra) bdec_new)" for extra
    using out'(3) by (intro bdec_start_in_step) simp
  then show ?thesis using e(1) out' unfolding bit_coder.finds_all_def by (metis (no_types, lifting))
qed

theorem bit_coder_roundtrip_witness:
  "\<exists>e out'. encode_all bencode sample_intervals (benc_start \<lparr> written = [], room = None \<rparr>) = Some (Inr e) \<and>
    benc_delete e = Some out' \<and>
    (\<forall>extra. \<exists>ts d. decode_all bget_target bdecode sample_intervals (bdec_set_stream 0 (written out' @ extra) bdec_new) =
      Some (Inr (ts, d)) \<and> list_all2 (\<lambda>(lc, hc, tot) t. lc \<le> t \<and> t < hc) sample_intervals ts \<and> bd_in d = Some extra)"
  by (rule bit_coder_roundtrip) (simp_all add: sample_intervals_def)

end
