(* ===== verification/Conditioning_Class_3.thy ===== *)
theory Conditioning_Class_3
  imports Conditioning_Class
begin

text \<open>
  The model of \<open>src/dlib-minimal/lib/dlib/conditioning_class/conditioning_class_kernel_3.h\<close>.  The array
  \<open>counts\<close> has a slot for every symbol of the alphabet, but the slots are in an order of their own: a
  symbol that is is_counted changes places with one of the least counts before it.  The flag \<open>present\<close> in the
  slot with the number of a symbol says whether the symbol has a count.  A slot with the count 0 may still
  name the symbol it held last, or none yet (\<open>None\<close>).  It is shown that this never misleads the searches,
  which stop at the first slot that names the symbol, and that the kernel counts as \<open>kernel_1\<close> does.
\<close>

record slot =
  slot_count :: u16
  slot_symbol :: "u16 option"
  slot_present :: bool

record cc3 =
  cc3_total :: u16
  cc3_counts :: "slot list"

definition cc3_initial :: "nat \<Rightarrow> slot list" where
  "cc3_initial n =
    (let counts = \<lparr> slot_count = 1, slot_symbol = Some (of_nat (n - 1)), slot_present = False \<rparr> #
       replicate (n - 1) \<lparr> slot_count = 0, slot_symbol = None, slot_present = False \<rparr>
     in counts[n - 1 := (counts ! (n - 1)) \<lparr> slot_present := True \<rparr>])"

text \<open>\<open>size_of\<close> is the size of the object, and the second component the shared memory usage.\<close>

definition cc3_new :: "nat \<Rightarrow> u64 \<Rightarrow> u64 \<Rightarrow> cc3 \<times> u64" where
  "cc3_new n size_of usage = (\<lparr> cc3_total = 1, cc3_counts = cc3_initial n \<rparr>, usage + (6 * of_nat n + size_of))"

definition cc3_delete :: "cc3 \<Rightarrow> u64 \<Rightarrow> u64 \<Rightarrow> u64" where
  "cc3_delete s size_of usage = usage - (6 * of_nat (length (cc3_counts s)) + size_of)"

text \<open>\<open>clear\<close> leaves the symbols in the slots but the first.\<close>

definition cc3_clear :: "cc3 \<Rightarrow> cc3" where
  "cc3_clear s =
    (let n = length (cc3_counts s);
         counts = map (\<lambda>e. e \<lparr> slot_count := 0, slot_present := False \<rparr>) (cc3_counts s);
         counts = counts[0 := \<lparr> slot_count = 1, slot_symbol = Some (of_nat (n - 1)), slot_present = False \<rparr>]
     in \<lparr> cc3_total = 1, cc3_counts = counts[n - 1 := (counts ! (n - 1)) \<lparr> slot_present := True \<rparr>] \<rparr>)"

definition symbol_in :: "slot \<Rightarrow> u16 c" where
  "symbol_in e = (case slot_symbol e of None \<Rightarrow> Inl Uninitialised | Some sy \<Rightarrow> Inr sy)"

text \<open>The loop that halves the counts, from the slot \<open>i\<close> on.\<close>

definition scale_slot :: "nat \<Rightarrow> slot list \<times> u16 \<Rightarrow> (slot list \<times> u16) c" where
  "scale_slot i = (\<lambda>(es, tot).
    let e = es ! i in
    if slot_count e = 1 then
      c_bind (symbol_in e) (\<lambda>sy.
        if unat sy = length es - 1 then Inr (es, tot + 1)
        else if unat sy < length es then
          let es = es[i := e \<lparr> slot_count := 0 \<rparr>]
          in Inr (es[unat sy := (es ! unat sy) \<lparr> slot_present := False \<rparr>], tot)
        else Inl Out_Of_Bounds)
    else Inr (es[i := e \<lparr> slot_count := drop_bit 1 (slot_count e) \<rparr>], tot + drop_bit 1 (slot_count e)))"

fun scale_slots :: "nat list \<Rightarrow> slot list \<times> u16 \<Rightarrow> (slot list \<times> u16) c" where
  "scale_slots [] s = Inr s"
| "scale_slots (i # is) s = c_bind (scale_slot i s) (scale_slots is)"

text \<open>The symbol and its count go into the slot \<open>p\<close>, and what was there goes into the slot \<open>q\<close>.\<close>

definition swap_in :: "nat \<Rightarrow> nat \<Rightarrow> u16 \<Rightarrow> u16 \<Rightarrow> slot list \<Rightarrow> slot list" where
  "swap_in q p sy c es =
    (let es = es[q := (es ! q) \<lparr> slot_symbol := slot_symbol (es ! p), slot_count := slot_count (es ! p) \<rparr>]
     in es[p := (es ! p) \<lparr> slot_symbol := Some sy, slot_count := c \<rparr>])"

text \<open>The two loops, for a symbol that has a count and for a new one.\<close>

function bump_old :: "u16 \<Rightarrow> u16 \<Rightarrow> nat \<Rightarrow> nat \<Rightarrow> slot list \<Rightarrow> slot list c" where
  "bump_old symbol amount start swap_spot es =
    (if start < length es then
       c_bind (symbol_in (es ! start)) (\<lambda>sy.
         if sy = symbol \<and> slot_count (es ! start) \<noteq> 0 then
           Inr (swap_in start swap_spot symbol (slot_count (es ! start) + amount) es)
         else bump_old symbol amount (Suc start)
           (if slot_count (es ! start) < slot_count (es ! swap_spot) then start else swap_spot) es)
     else Inl Out_Of_Bounds)"
  by pat_completeness auto
termination
  by (relation "measure (\<lambda>(symbol, amount, start, swap_spot, es). length es - start)") auto

function bump_new :: "u16 \<Rightarrow> u16 \<Rightarrow> nat \<Rightarrow> nat \<Rightarrow> slot list \<Rightarrow> slot list c" where
  "bump_new symbol amount start swap_spot es =
    (if start < length es then
       if slot_count (es ! start) = 0 then Inr (swap_in start swap_spot symbol amount es)
       else bump_new symbol amount (Suc start)
         (if slot_count (es ! start) < slot_count (es ! swap_spot) then start else swap_spot) es
     else Inl Out_Of_Bounds)"
  by pat_completeness auto
termination
  by (relation "measure (\<lambda>(symbol, amount, start, swap_spot, es). length es - start)") auto

declare bump_old.simps [simp del] bump_new.simps [simp del]

definition cc3_scaled :: "u16 \<Rightarrow> cc3 \<Rightarrow> cc3 c" where
  "cc3_scaled amount s =
    (if (ucast (cc3_total s) :: u64) + ucast amount \<ge> 65536
     then c_bind (scale_slots [0..<length (cc3_counts s)] (cc3_counts s, 0)) (\<lambda>(es, tot). Inr \<lparr> cc3_total = tot, cc3_counts = es \<rparr>)
     else Inr s)"

definition cc3_increment_count :: "u64 \<Rightarrow> u16 \<Rightarrow> cc3 \<Rightarrow> (bool \<times> cc3) c" where
  "cc3_increment_count symbol amount s =
    c_bind (cc3_scaled amount s) (\<lambda>s.
    let es = cc3_counts s; i = unat symbol in
    if i < length es then
      c_bind (if slot_present (es ! i) then bump_old (ucast symbol) amount 0 0 es
              else bump_new (ucast symbol) amount 0 0 (es[i := (es ! i) \<lparr> slot_present := True \<rparr>]))
        (\<lambda>es. Inr (True, \<lparr> cc3_total = cc3_total s + amount, cc3_counts = es \<rparr>))
    else Inl Out_Of_Bounds)"

text \<open>The search for a symbol, with the sum of the counts before it.\<close>

fun find_slot :: "u64 \<Rightarrow> slot list \<Rightarrow> u64 \<Rightarrow> (u64 \<times> u16) c" where
  "find_slot symbol [] low = Inl Out_Of_Bounds"
| "find_slot symbol (e # es) low =
    c_bind (symbol_in e) (\<lambda>sy.
      if ucast sy \<noteq> symbol then find_slot symbol es (low + ucast (slot_count e)) else Inr (low, slot_count e))"

definition cc3_get_count :: "u64 \<Rightarrow> cc3 \<Rightarrow> u64 c" where
  "cc3_get_count symbol s =
    (if unat symbol < length (cc3_counts s) then
       if \<not> slot_present (cc3_counts s ! unat symbol) then Inr 0
       else c_bind (find_slot symbol (cc3_counts s) 0) (\<lambda>(_, c). Inr (ucast c))
     else Inl Out_Of_Bounds)"

definition cc3_get_alphabet_size :: "cc3 \<Rightarrow> u64" where
  "cc3_get_alphabet_size s = of_nat (length (cc3_counts s))"

definition cc3_get_total :: "cc3 \<Rightarrow> u64" where
  "cc3_get_total s = ucast (cc3_total s)"

definition cc3_get_range :: "u64 \<Rightarrow> cc3 \<Rightarrow> (u64 \<times> (u64 \<times> u64 \<times> u64) option) c" where
  "cc3_get_range symbol s =
    (if unat symbol < length (cc3_counts s) then
       if \<not> slot_present (cc3_counts s ! unat symbol) then Inr (0, None)
       else c_bind (find_slot symbol (cc3_counts s) 0) (\<lambda>(low, c).
         Inr (ucast c, Some (low, low + ucast c, ucast (cc3_total s))))
     else Inl Out_Of_Bounds)"

fun find_target :: "u64 \<Rightarrow> slot list \<Rightarrow> u64 \<Rightarrow> (u64 \<times> u64 \<times> u64) c" where
  "find_target target [] high = Inl Out_Of_Bounds"
| "find_target target (e # es) high =
    (let high = high + ucast (slot_count e) in
     if target \<ge> high then find_target target es high
     else c_bind (symbol_in e) (\<lambda>sy. Inr (ucast sy, high - ucast (slot_count e), high)))"

definition cc3_get_symbol :: "u64 \<Rightarrow> cc3 \<Rightarrow> (u64 \<times> u64 \<times> u64) c" where
  "cc3_get_symbol target s = find_target target (cc3_counts s) 0"

subsection \<open>Which slots name a symbol\<close>

text \<open>
  The invariant.  The slot that counts a symbol comes before every other slot that names the symbol;
  behind a slot that has never been used no slot counts; the flags are right.
\<close>

definition slots_ok :: "nat \<Rightarrow> slot list \<Rightarrow> bool" where
  "slots_ok n es \<longleftrightarrow> length es = n \<and>
    (\<forall>i < n. \<forall>j < n. i \<noteq> j \<longrightarrow> slot_count (es ! i) \<noteq> 0 \<longrightarrow> slot_symbol (es ! i) = slot_symbol (es ! j) \<longrightarrow> i < j) \<and>
    (\<forall>i < n. \<forall>j < n. i \<le> j \<longrightarrow> slot_symbol (es ! i) = None \<longrightarrow> slot_count (es ! j) = 0) \<and>
    (\<forall>i < n. \<forall>sy. slot_symbol (es ! i) = Some sy \<longrightarrow> unat sy < n)"

definition is_counted :: "slot list \<Rightarrow> u16 \<Rightarrow> bool" where
  "is_counted es sy \<longleftrightarrow> (\<exists>i < length es. slot_count (es ! i) \<noteq> 0 \<and> slot_symbol (es ! i) = Some sy)"

definition flags_ok :: "nat \<Rightarrow> slot list \<Rightarrow> bool" where
  "flags_ok n es \<longleftrightarrow> (\<forall>i < n. slot_present (es ! i) \<longleftrightarrow> is_counted es (of_nat i))"

lemma slots_okD:
  assumes "slots_ok n es"
  shows "length es = n"
    "i < n \<Longrightarrow> j < n \<Longrightarrow> i \<noteq> j \<Longrightarrow> slot_count (es ! i) \<noteq> 0 \<Longrightarrow> slot_symbol (es ! i) = slot_symbol (es ! j) \<Longrightarrow> i < j"
    "i < n \<Longrightarrow> j < n \<Longrightarrow> i \<le> j \<Longrightarrow> slot_symbol (es ! i) = None \<Longrightarrow> slot_count (es ! j) = 0"
    "i < n \<Longrightarrow> slot_symbol (es ! i) = Some sy \<Longrightarrow> unat sy < n"
  using assms unfolding slots_ok_def by blast+

text \<open>What the two loops do to the slots, the flags apart.\<close>

lemma swap_in_nth:
  assumes "p < length es" "q < length es" "i < length es"
  shows "slot_symbol (swap_in q p sy c es ! i) = (if i = p then Some sy else if i = q then slot_symbol (es ! p) else slot_symbol (es ! i))"
    "slot_count (swap_in q p sy c es ! i) = (if i = p then c else if i = q then slot_count (es ! p) else slot_count (es ! i))"
    "slot_present (swap_in q p sy c es ! i) = slot_present (es ! i)"
  using assms by (auto simp: swap_in_def Let_def nth_list_update)

lemma length_swap_in [simp]: "length (swap_in q p sy c es) = length es"
  by (simp add: swap_in_def Let_def)

text \<open>The place that the loops look for: \<open>q\<close> holds the symbol or is the first free slot.\<close>

definition place :: "nat \<Rightarrow> nat \<Rightarrow> u16 \<Rightarrow> slot list \<Rightarrow> bool" where
  "place q p sy es \<longleftrightarrow> q < length es \<and> p \<le> q \<and>
    (slot_count (es ! q) \<noteq> 0 \<and> slot_symbol (es ! q) = Some sy \<and> (\<forall>i < q. slot_count (es ! i) = 0 \<longrightarrow> slot_count (es ! p) = 0) \<or>
     slot_count (es ! q) = 0 \<and> \<not> is_counted es sy \<and> (\<forall>i < q. slot_count (es ! i) \<noteq> 0))"

lemma swap_in_ok:
  assumes ok: "slots_ok n es" and pl: "place q p sy es" and sy: "unat sy < n" and c: "c \<noteq> 0"
  shows "slots_ok n (swap_in q p sy c es)"
proof -
  note [simp] = slots_okD(1) [OF ok]
  have b: "q < n" "p \<le> q" "p < n" using pl by (auto simp: place_def)
  note nth = swap_in_nth
  let ?es = "swap_in q p sy c es"
  have old: "x < y" if "x < n" "y < n" "x \<noteq> y" "slot_count (es ! x) \<noteq> 0" "slot_symbol (es ! x) = slot_symbol (es ! y)" for x y
    using slots_okD(2) [OF ok] that by blast
  have cases: "slot_count (es ! q) \<noteq> 0 \<and> slot_symbol (es ! q) = Some sy \<and> (\<forall>i < q. slot_count (es ! i) = 0 \<longrightarrow> slot_count (es ! p) = 0) \<or>
     slot_count (es ! q) = 0 \<and> (\<forall>i < n. slot_count (es ! i) \<noteq> 0 \<longrightarrow> slot_symbol (es ! i) \<noteq> Some sy) \<and> (\<forall>i < q. slot_count (es ! i) \<noteq> 0)"
    using pl by (auto simp: place_def is_counted_def)
  have h1: "q < j" if "j < n" "j \<noteq> q" "slot_symbol (es ! j) = Some sy" for j
    using cases old [of q j] that b(1) by (metis linorder_neqE_nat)
  have h2: "slot_symbol (es ! p) \<noteq> Some sy" if "p \<noteq> q"
    using cases old [of q p] that b by (metis le_neq_implies_less not_less)
  have h3: "q < j" if "p \<noteq> q" "slot_count (es ! p) \<noteq> 0" "j < n" "j \<noteq> p" "j \<noteq> q" "slot_symbol (es ! p) = slot_symbol (es ! j)" for j
    using cases old [of p j] old [of j p] that b by (metis linorder_neqE_nat not_less_iff_gr_or_eq)
  have h4: "slot_symbol (es ! i) \<noteq> Some sy" if "i < n" "i \<noteq> q" "slot_count (es ! i) \<noteq> 0" for i
    using cases old [of q i] old [of i q] that b(1) by (metis less_asym)
  have order: "i < j" if ij: "i < n" "j < n" "i \<noteq> j" "slot_count (?es ! i) \<noteq> 0" "slot_symbol (?es ! i) = slot_symbol (?es ! j)" for i j
  proof -
    consider "i = p" | "i \<noteq> p" "i = q" | "i \<noteq> p" "i \<noteq> q" by blast
    then show ?thesis
    proof cases
      case 1
      then show ?thesis using ij b h2 h1 [of j] by (auto simp: swap_in_nth split: if_splits)
    next
      case 2
      then show ?thesis using ij b h2 h3 [of j] by (auto simp: swap_in_nth split: if_splits)
    next
      case 3
      then show ?thesis using ij b h4 [of i] old [of i p] old [of i j] by (auto simp: swap_in_nth split: if_splits)
    qed
  qed
  have unused: "slot_count (?es ! j) = 0" if "i < n" "j < n" "i \<le> j" "slot_symbol (?es ! i) = None" for i j
    using that pl b slots_okD(3) [OF ok, of i j] slots_okD(3) [OF ok, of i i] slots_okD(3) [OF ok, of i q] slots_okD(3) [OF ok, of i p]
      slots_okD(3) [OF ok, of p q] slots_okD(3) [OF ok, of p p]
    unfolding place_def by (auto simp: nth split: if_splits)
  have "unat x < n" if "i < n" "slot_symbol (?es ! i) = Some x" for i x
    using that b sy slots_okD(4) [OF ok, of i x] slots_okD(4) [OF ok, of p x] by (auto simp: nth split: if_splits)
  then show ?thesis using order unused unfolding slots_ok_def by simp
qed

lemma swap_in_counted:
  assumes ok: "slots_ok n es" and pl: "place q p sy es" and c: "c \<noteq> 0"
  shows "is_counted (swap_in q p sy c es) x \<longleftrightarrow> x = sy \<or> is_counted es x"
proof -
  note [simp] = slots_okD(1) [OF ok]
  have b: "q < n" "p < n" using pl by (auto simp: place_def)
  note nth = swap_in_nth
  let ?es = "swap_in q p sy c es"
  show ?thesis
  proof
    assume "is_counted ?es x"
    then show "x = sy \<or> is_counted es x" using b by (auto simp: is_counted_def nth split: if_splits)
  next
    assume "x = sy \<or> is_counted es x"
    then show "is_counted ?es x"
    proof
      assume "x = sy"
      then show ?thesis using b c by (auto simp: is_counted_def nth intro!: exI [of _ p])
    next
      assume "is_counted es x"
      then obtain i where i: "i < n" "slot_count (es ! i) \<noteq> 0" "slot_symbol (es ! i) = Some x" by (auto simp: is_counted_def)
      consider "i = p" "p = q" | "i = p" "p \<noteq> q" | "i \<noteq> p" "i = q" | "i \<noteq> p" "i \<noteq> q" by blast
      then show ?thesis
      proof cases
        case 1
        then show ?thesis using i b c pl by (auto simp: is_counted_def nth place_def intro!: exI [of _ p])
      next
        case 2
        then show ?thesis using i b by (auto simp: is_counted_def nth intro!: exI [of _ q])
      next
        case 3
        then show ?thesis using i b c pl by (auto simp: is_counted_def nth place_def intro!: exI [of _ p])
      next
        case 4
        then show ?thesis using i b by (auto simp: is_counted_def nth intro!: exI [of _ i])
      qed
    qed
  qed
qed

subsection \<open>Sums over the slots\<close>

abbreviation slot_sum :: "slot list \<Rightarrow> nat" where
  "slot_sum es \<equiv> sum_list (map unat (map slot_count es))"

definition named :: "u16 \<Rightarrow> slot \<Rightarrow> nat" where
  "named sy e = (if slot_symbol e = Some sy then unat (slot_count e) else 0)"

definition count_of :: "slot list \<Rightarrow> u16 \<Rightarrow> nat" where
  "count_of es sy = sum_list (map (named sy) es)"

lemma sum_update: "i < length xs \<Longrightarrow> sum_list (xs[i := v]) + xs ! i = sum_list xs + (v :: nat)"
  using member_le_sum_list [of "xs ! i" xs] by (simp add: sum_list_update)

text \<open>A value on slots that does not see the flags changes in one place only.\<close>

lemma swap_in_sum:
  fixes f :: "slot \<Rightarrow> nat"
  assumes "p < length es" "q < length es" "p \<le> q"
    and f: "\<And>e e'. slot_symbol e = slot_symbol e' \<Longrightarrow> slot_count e = slot_count e' \<Longrightarrow> f e = f e'"
  shows "sum_list (map f (swap_in q p sy c es)) + f (es ! q) =
    sum_list (map f es) + f \<lparr> slot_count = c, slot_symbol = Some sy, slot_present = True \<rparr>"
proof -
  let ?a = "(es ! q) \<lparr> slot_symbol := slot_symbol (es ! p), slot_count := slot_count (es ! p) \<rparr>"
  define es1 where "es1 = es[q := ?a]"
  have "f ?a = f (es ! p)" by (rule f) simp_all
  then have 1: "sum_list (map f es1) + f (es ! q) = sum_list (map f es) + f (es ! p)"
    using sum_update [of q "map f es" "f ?a"] assms(2) by (simp add: es1_def map_update)
  let ?b = "(es1 ! p) \<lparr> slot_symbol := Some sy, slot_count := c \<rparr>"
  have b: "f ?b = f \<lparr> slot_count = c, slot_symbol = Some sy, slot_present = True \<rparr>" "f (es1 ! p) = f (es ! p)"
    by (rule f; use assms in \<open>simp add: es1_def nth_list_update\<close>)+
  have l: "p < length es1" using assms(1) by (simp add: es1_def)
  have "swap_in q p sy c es = es1[p := ?b]" by (simp add: swap_in_def es1_def Let_def)
  then have "sum_list (map f (swap_in q p sy c es)) + f (es ! p) = sum_list (map f es1) + f ?b"
    using sum_update [of p "map f es1" "f ?b"] l b(2) by (simp add: map_update)
  then show ?thesis using 1 b(1) by simp
qed

lemma slot_sum_eq: "slot_sum es = sum_list (map (\<lambda>e. unat (slot_count e)) es)"
  by (simp add: comp_def)

lemma single_sum:
  fixes f :: "'a \<Rightarrow> nat"
  assumes "i < length xs" "\<And>j. j < length xs \<Longrightarrow> j \<noteq> i \<Longrightarrow> f (xs ! j) = 0"
  shows "sum_list (map f xs) = f (xs ! i)"
proof -
  have "sum_list (map f xs) = (\<Sum>j \<in> {..<length xs}. f (xs ! j))" by (simp add: sum_list_sum_nth atLeast0LessThan)
  also have "\<dots> = f (xs ! i)" using assms by (subst sum.remove [of _ i]) (auto intro: sum.neutral)
  finally show ?thesis .
qed

lemma count_of_counted:
  assumes ok: "slots_ok n es" and i: "i < n" "slot_count (es ! i) \<noteq> 0" "slot_symbol (es ! i) = Some sy"
  shows "count_of es sy = unat (slot_count (es ! i))"
proof -
  have "named sy (es ! j) = 0" if "j < n" "j \<noteq> i" for j
  proof -
    have "slot_count (es ! j) = 0" if "slot_symbol (es ! j) = Some sy"
      using slots_okD(2) [OF ok, of i j] slots_okD(2) [OF ok, of j i] that \<open>j < n\<close> \<open>j \<noteq> i\<close> i by (metis less_asym)
    then show ?thesis by (simp add: named_def)
  qed
  then show ?thesis using single_sum [of i es "named sy"] i slots_okD(1) [OF ok] by (simp add: count_of_def named_def)
qed

lemma count_of_not_counted: "\<not> is_counted es sy \<Longrightarrow> count_of es sy = 0"
  unfolding count_of_def sum_list_eq_0_iff by (auto simp: is_counted_def named_def in_set_conv_nth unat_eq_0)

lemma counted_count_of: "slots_ok n es \<Longrightarrow> is_counted es sy \<longleftrightarrow> count_of es sy \<noteq> 0"
proof
  assume ok: "slots_ok n es" and "is_counted es sy"
  then obtain i where "i < n" "slot_count (es ! i) \<noteq> 0" "slot_symbol (es ! i) = Some sy" using slots_okD(1) [OF ok] by (auto simp: is_counted_def)
  then show "count_of es sy \<noteq> 0" using count_of_counted [OF ok] by (simp add: unat_eq_0)
qed (metis count_of_not_counted)

subsection \<open>The loops find their place\<close>

text \<open>\<open>p\<close> is the first of the least counts among the slots before \<open>k\<close>.\<close>

definition least_before :: "nat \<Rightarrow> nat \<Rightarrow> slot list \<Rightarrow> bool" where
  "least_before k p es \<longleftrightarrow> p \<le> k \<and> (\<forall>i < k. slot_count (es ! p) \<le> slot_count (es ! i))"

lemma least_before_0 [simp]: "least_before 0 0 es"
  by (simp add: least_before_def)

lemma least_before_Suc:
  assumes "least_before k p es"
  shows "least_before (Suc k) (if slot_count (es ! k) < slot_count (es ! p) then k else p) es"
  using assms by (auto simp: least_before_def less_Suc_eq intro: order.trans less_imp_le)

lemma bump_old_place:
  assumes ok: "slots_ok n es" and q: "q < n" "slot_count (es ! q) \<noteq> 0" "slot_symbol (es ! q) = Some sy"
  shows "k \<le> q \<Longrightarrow> least_before k p es \<Longrightarrow>
    \<exists>p'. bump_old sy amount k p es = Inr (swap_in q p' sy (slot_count (es ! q) + amount) es) \<and> place q p' sy es"
proof (induction "q - k" arbitrary: k p)
  case 0
  then have "k = q" by simp
  moreover have "place q p sy es"
    using 0(3) q slots_okD(1) [OF ok] \<open>k = q\<close> by (auto simp: place_def least_before_def)
  ultimately show ?case using q slots_okD(1) [OF ok] by (subst bump_old.simps) (auto simp: symbol_in_def)
next
  case (Suc d)
  then have k: "k < q" by simp
  obtain x where x: "slot_symbol (es ! k) = Some x" using slots_okD(3) [OF ok, of k q] k q by (cases "slot_symbol (es ! k)") auto
  have "\<not> (x = sy \<and> slot_count (es ! k) \<noteq> 0)" using slots_okD(2) [OF ok, of q k] k q x by auto
  moreover have "k < length es" using k q(1) slots_okD(1) [OF ok] by simp
  ultimately have "bump_old sy amount k p es = bump_old sy amount (Suc k) (if slot_count (es ! k) < slot_count (es ! p) then k else p) es"
    using x by (subst bump_old.simps) (auto simp: symbol_in_def)
  then show ?case using Suc.hyps(1) [OF _ _ least_before_Suc [OF Suc.prems(2)]] Suc.hyps(2) k by simp
qed

lemma bump_new_place:
  assumes q: "q < length es" "slot_count (es ! q) = 0" "\<And>i. i < q \<Longrightarrow> slot_count (es ! i) \<noteq> 0" and sy: "\<not> is_counted es sy"
  shows "k \<le> q \<Longrightarrow> p \<le> k \<Longrightarrow> \<exists>p'. bump_new sy amount k p es = Inr (swap_in q p' sy amount es) \<and> place q p' sy es"
proof (induction "q - k" arbitrary: k p)
  case 0
  then have "k = q" by simp
  then show ?case using 0(3) q sy by (subst bump_new.simps) (auto simp: place_def)
next
  case (Suc d)
  then have k: "k < q" by simp
  have "bump_new sy amount k p es = bump_new sy amount (Suc k) (if slot_count (es ! k) < slot_count (es ! p) then k else p) es"
    using q(1) q(3) [OF k] k by (subst bump_new.simps) simp
  then show ?case using Suc.hyps(1) [of "Suc k"] Suc.hyps(2) Suc.prems(2) k by simp
qed

text \<open>A symbol without a count leaves a slot free.\<close>

lemma free_slot:
  assumes ok: "slots_ok n es" and sy: "unat sy < n" "\<not> is_counted es sy"
  obtains q where "q < n" "slot_count (es ! q) = 0" "\<And>i. i < q \<Longrightarrow> slot_count (es ! i) \<noteq> 0"
proof -
  have "\<exists>q < n. slot_count (es ! q) = 0"
  proof (rule ccontr)
    assume "\<not> (\<exists>q < n. slot_count (es ! q) = 0)"
    then have nz: "slot_count (es ! i) \<noteq> 0" if "i < n" for i using that by blast
    let ?f = "\<lambda>i. unat (the (slot_symbol (es ! i)))"
    have some: "\<exists>x. slot_symbol (es ! i) = Some x \<and> unat x < n" if "i < n" for i
      using slots_okD(3) [OF ok that that] slots_okD(4) [OF ok that] nz [OF that] by (cases "slot_symbol (es ! i)") auto
    have "inj_on ?f {..<n}"
    proof (rule inj_onI)
      fix i j assume a: "i \<in> {..<n}" "j \<in> {..<n}" "?f i = ?f j"
      then have "slot_symbol (es ! i) = slot_symbol (es ! j)" using some [of i] some [of j] by (auto simp: word_unat_eq_iff)
      then show "i = j" using slots_okD(2) [OF ok, of i j] slots_okD(2) [OF ok, of j i] nz a by fastforce
    qed
    moreover have "?f ` {..<n} \<subseteq> {..<n}" using some by fastforce
    ultimately have "?f ` {..<n} = {..<n}" by (simp add: endo_inj_surj)
    then obtain i where "i < n" "?f i = unat sy" using sy(1) by (metis (no_types, lifting) imageE lessThan_iff)
    then have "slot_symbol (es ! i) = Some sy" using some [of i] by (auto simp: word_unat_eq_iff)
    then show False using nz \<open>i < n\<close> sy(2) slots_okD(1) [OF ok] by (auto simp: is_counted_def)
  qed
  then have "\<exists>q. (q < n \<and> slot_count (es ! q) = 0) \<and> (\<forall>i < q. \<not> (i < n \<and> slot_count (es ! i) = 0))"
    by (rule exists_least_iff [THEN iffD1])
  then show thesis using that by (metis less_trans)
qed

subsection \<open>Counting\<close>

definition cc3_wf :: "nat \<Rightarrow> cc3 \<Rightarrow> bool" where
  "cc3_wf n s \<longleftrightarrow> 1 < n \<and> n < 65536 \<and> slots_ok n (cc3_counts s) \<and> flags_ok n (cc3_counts s) \<and>
    slot_sum (cc3_counts s) = unat (cc3_total s) \<and> is_counted (cc3_counts s) (of_nat (n - 1))"

text \<open>One symbol more: what holds after the two loops, with the flag of the symbol set.\<close>

lemma bumped:
  assumes ok: "slots_ok n es" "flags_ok n es" "n < 65536" and sy: "unat sy < n"
    and fit: "count_of es sy + unat amount < 65536" "amount \<noteq> 0"
  shows "\<exists>es'. (if slot_present (es ! unat sy) then bump_old sy amount 0 0 es
      else bump_new sy amount 0 0 (es[unat sy := (es ! unat sy) \<lparr> slot_present := True \<rparr>])) = Inr es' \<and>
    slots_ok n es' \<and> flags_ok n es' \<and> slot_sum es' = slot_sum es + unat amount \<and>
    (\<forall>x. count_of es' x = count_of es x + (if x = sy then unat amount else 0))"
proof -
  note l = slots_okD(1) [OF ok(1)]
  have flag: "slot_present (es ! i) \<longleftrightarrow> is_counted es (of_nat i)" if "i < n" for i using ok(2) that by (simp add: flags_ok_def)
  have inj: "(of_nat i :: u16) = sy \<longleftrightarrow> i = unat sy" if "i < n" for i using that ok(3) by (auto simp: unat_of_nat take_bit_eq_mod)
  have f: "named x e = named x e'" "unat (slot_count e) = unat (slot_count e')"
    if "slot_symbol e = slot_symbol e'" "slot_count e = slot_count e'" for x and e e' :: slot using that by (simp_all add: named_def)
  show ?thesis
  proof (cases "is_counted es sy")
    case True
    then obtain q where q: "q < n" "slot_count (es ! q) \<noteq> 0" "slot_symbol (es ! q) = Some sy" using l by (auto simp: is_counted_def)
    let ?c = "slot_count (es ! q) + amount"
    obtain p where p: "bump_old sy amount 0 0 es = Inr (swap_in q p sy ?c es)" "place q p sy es"
      using bump_old_place [OF ok(1) q, of 0 0 amount] by auto
    have c: "unat ?c = unat (slot_count (es ! q)) + unat amount"
      using fit(1) count_of_counted [OF ok(1) q] by (simp add: unat_word_ariths)
    then have "?c \<noteq> 0" using q(2) by (metis add_is_0 unat_eq_zero)
    note s = swap_in_ok [OF ok(1) p(2) sy this] swap_in_counted [OF ok(1) p(2) this]
    have pq: "p < length es" "q < length es" "p \<le> q" using p(2) by (auto simp: place_def)
    have "flags_ok n (swap_in q p sy ?c es)" using flag True pq l by (auto simp: flags_ok_def swap_in_nth s(2))
    moreover have "slot_sum (swap_in q p sy ?c es) = slot_sum es + unat amount"
      using swap_in_sum [OF pq, where f = "\<lambda>e. unat (slot_count e)" and sy = sy and c = ?c, OF f(2)] c unfolding slot_sum_eq by simp
    moreover have "count_of (swap_in q p sy ?c es) x = count_of es x + (if x = sy then unat amount else 0)" for x
      using swap_in_sum [OF pq, where f = "named x" and sy = sy and c = ?c, OF f(1)] c q(3) by (auto simp: count_of_def named_def)
    ultimately show ?thesis using s(1) p(1) flag [OF sy] True by auto
  next
    case False
    let ?es = "es[unat sy := (es ! unat sy) \<lparr> slot_present := True \<rparr>]"
    have nth: "slot_symbol (?es ! i) = slot_symbol (es ! i)" "slot_count (?es ! i) = slot_count (es ! i)"
      "slot_present (?es ! i) \<longleftrightarrow> i = unat sy \<or> slot_present (es ! i)" if "i < n" for i
      using that l sy by (auto simp: nth_list_update)
    have ok': "slots_ok n ?es" using ok(1) l unfolding slots_ok_def by (simp add: nth)
    have cnt: "is_counted ?es x \<longleftrightarrow> is_counted es x" for x using l by (auto simp: is_counted_def nth)
    have sums: "slot_sum ?es = slot_sum es" "count_of ?es x = count_of es x" for x
    proof -
      have "map slot_count ?es = map slot_count es" using l by (intro nth_equalityI) (simp_all add: nth)
      then show "slot_sum ?es = slot_sum es" by (simp only:)
      have "map (named x) ?es = map (named x) es" using l by (intro nth_equalityI) (simp_all add: nth named_def)
      then show "count_of ?es x = count_of es x" by (simp only: count_of_def)
    qed
    obtain q where q: "q < n" "slot_count (?es ! q) = 0" "\<And>i. i < q \<Longrightarrow> slot_count (?es ! i) \<noteq> 0"
      using free_slot [OF ok' sy] cnt False by blast
    obtain p where p: "bump_new sy amount 0 0 ?es = Inr (swap_in q p sy amount ?es)" "place q p sy ?es"
      using bump_new_place [of q ?es sy 0 0 amount] q l cnt False by auto
    note s = swap_in_ok [OF ok' p(2) sy fit(2)] swap_in_counted [OF ok' p(2) fit(2)]
    have pq: "p < length ?es" "q < length ?es" "p \<le> q" using p(2) by (auto simp: place_def)
    have "flags_ok n (swap_in q p sy amount ?es)"
      unfolding flags_ok_def using flag inj pq l by (simp add: swap_in_nth s(2) cnt nth)
    moreover have "slot_sum (swap_in q p sy amount ?es) = slot_sum es + unat amount"
      using swap_in_sum [OF pq, where f = "\<lambda>e. unat (slot_count e)" and sy = sy and c = amount, OF f(2)] q(2) sums(1) unfolding slot_sum_eq by simp
    moreover have "count_of (swap_in q p sy amount ?es) x = count_of es x + (if x = sy then unat amount else 0)" for x
    proof -
      have "named x (?es ! q) = 0" "named x \<lparr> slot_count = amount, slot_symbol = Some sy, slot_present = True \<rparr> = (if x = sy then unat amount else 0)"
        using q(2) by (simp_all add: named_def)
      then show ?thesis using swap_in_sum [OF pq, where f = "named x" and sy = sy and c = amount, OF f(1)] sums(2) [of x]
        by (simp only: count_of_def add_0_right)
    qed
    ultimately show ?thesis using s(1) p(1) flag [OF sy] False by auto
  qed
qed

subsection \<open>Scaling down\<close>

definition scaled :: "nat \<Rightarrow> slot \<Rightarrow> u16" where
  "scaled n e = (if slot_count e = 1 then if slot_symbol e = Some (of_nat (n - 1)) then 1 else 0 else drop_bit 1 (slot_count e))"

text \<open>The state of the loop when \<open>k\<close> slots have been scaled.\<close>

definition scaling :: "nat \<Rightarrow> slot list \<Rightarrow> nat \<Rightarrow> slot list \<Rightarrow> u16 \<Rightarrow> bool" where
  "scaling n es k es' tot \<longleftrightarrow> length es' = n \<and> unat tot = sum_list (map (\<lambda>e. unat (scaled n e)) (take k es)) \<and>
    (\<forall>i < n. slot_symbol (es' ! i) = slot_symbol (es ! i) \<and> slot_count (es' ! i) = (if i < k then scaled n (es ! i) else slot_count (es ! i)) \<and>
      (slot_present (es' ! i) \<longleftrightarrow> slot_present (es ! i) \<and>
        \<not> (\<exists>j < k. slot_count (es ! j) = 1 \<and> slot_symbol (es ! j) = Some (of_nat i) \<and> i \<noteq> n - 1)))"

lemma unat_u16: "k < 65536 \<Longrightarrow> unat (of_nat k :: u16) = k"
  by (simp add: unat_of_nat take_bit_eq_mod)

lemma half_u16: "unat (drop_bit 1 (w :: u16)) = unat w div 2"
  unfolding unat_drop_bit_eq drop_bit_eq_div [of 1 "unat w"] by simp

lemma unat_scaled: "unat (scaled n e) = (if unat (slot_count e) = 1 then if slot_symbol e = Some (of_nat (n - 1)) then 1 else 0 else unat (slot_count e) div 2)"
proof -
  have "slot_count e = 1 \<longleftrightarrow> unat (slot_count e) = 1" by (simp add: word_unat_eq_iff)
  then show ?thesis by (simp add: scaled_def half_u16 [simplified])
qed

lemma scaled_zero: "slot_count e = 0 \<Longrightarrow> scaled n e = 0"
  by (simp add: scaled_def)

lemma sum_scaled_le: "sum_list (map (\<lambda>e. unat (scaled n e)) es) \<le> slot_sum es"
  unfolding slot_sum_eq by (rule sum_list_mono) (simp add: unat_scaled)

lemma scaling_step:
  assumes ok: "slots_ok n es" "1 < n" "n < 65536" "slot_sum es < 65536" and k: "k < n" and s: "scaling n es k es' tot"
  shows "\<exists>es'' tot'. scale_slot k (es', tot) = Inr (es'', tot') \<and> scaling n es (Suc k) es'' tot'"
proof -
  let ?e = "es ! k"
  note l = slots_okD(1) [OF ok(1)]
  have s': "length es' = n" "unat tot = sum_list (map (\<lambda>e. unat (scaled n e)) (take k es))"
    "i < n \<Longrightarrow> slot_symbol (es' ! i) = slot_symbol (es ! i)"
    "i < n \<Longrightarrow> slot_count (es' ! i) = (if i < k then scaled n (es ! i) else slot_count (es ! i))"
    "i < n \<Longrightarrow> slot_present (es' ! i) \<longleftrightarrow> slot_present (es ! i) \<and>
        \<not> (\<exists>j < k. slot_count (es ! j) = 1 \<and> slot_symbol (es ! j) = Some (of_nat i) \<and> i \<noteq> n - 1)" for i
    using s unfolding scaling_def by blast+
  have tk: "take (Suc k) es = take k es @ [?e]" using k l by (simp add: take_Suc_conv_app_nth)
  have "sum_list (map (\<lambda>e. unat (scaled n e)) (take (Suc k) es)) \<le> slot_sum (take (Suc k) es)" by (rule sum_scaled_le)
  also have "\<dots> \<le> slot_sum es" using low_count_le [of "Suc k" "map slot_count es"] by (simp only: take_map)
  finally have "unat tot + unat (scaled n ?e) < 65536" using s'(2) tk ok(4) by simp
  then have sum: "unat (tot + scaled n ?e) = sum_list (map (\<lambda>e. unat (scaled n e)) (take (Suc k) es))"
    using s'(2) tk by (simp add: unat_word_ariths)
  have here: "slot_symbol (es' ! k) = slot_symbol ?e" "slot_count (es' ! k) = slot_count ?e" using s'(3,4) [OF k] by simp_all
  have inj: "(of_nat i :: u16) = of_nat j \<longleftrightarrow> i = j" if "i < n" "j < n" for i j using that ok(3) by (auto simp: word_unat_eq_iff unat_of_nat take_bit_eq_mod)
  consider (one) sy where "slot_count ?e = 1" "slot_symbol ?e = Some sy" "unat sy < n" | (more) "slot_count ?e \<noteq> 1"
    using slots_okD(3) [OF ok(1) k k] slots_okD(4) [OF ok(1) k] by (cases "slot_symbol ?e") auto
  then show ?thesis
  proof cases
    case more
    then have sc: "scaled n ?e = drop_bit 1 (slot_count ?e)" by (simp add: scaled_def)
    let ?es = "es'[k := (es' ! k) \<lparr> slot_count := scaled n ?e \<rparr>]"
    have "scale_slot k (es', tot) = Inr (?es, tot + scaled n ?e)" using more here sc by (simp add: scale_slot_def Let_def)
    moreover have "scaling n es (Suc k) ?es (tot + scaled n ?e)"
      unfolding scaling_def using s' sum k more by (auto simp: nth_list_update less_Suc_eq)
    ultimately show ?thesis by blast
  next
    case one
    have sy: "sy = of_nat (unat sy)" by simp
    show ?thesis
    proof (cases "unat sy = n - 1")
      case True
      then have sc: "scaled n ?e = 1" using one sy by (simp add: scaled_def)
      have "scale_slot k (es', tot) = Inr (es', tot + scaled n ?e)" using True one here s'(1) sc by (simp add: scale_slot_def symbol_in_def)
      moreover have "scaling n es (Suc k) es' (tot + scaled n ?e)"
        unfolding scaling_def using s' sum k one True sc inj [of _ "n - 1"] ok(2) sy by (auto simp: less_Suc_eq)
      ultimately show ?thesis by blast
    next
      case False
      then have "sy \<noteq> of_nat (n - 1)" using unat_u16 [of "n - 1"] ok(3) by (metis less_imp_diff_less)
      then have sc: "scaled n ?e = 0" using one by (simp add: scaled_def)
      let ?es1 = "es'[k := (es' ! k) \<lparr> slot_count := 0 \<rparr>]"
      let ?es = "?es1[unat sy := (?es1 ! unat sy) \<lparr> slot_present := False \<rparr>]"
      have "scale_slot k (es', tot) = Inr (?es, tot)" using False one here s'(1) by (simp add: scale_slot_def symbol_in_def Let_def)
      moreover have nth: "slot_symbol (?es ! i) = slot_symbol (es' ! i)" "slot_count (?es ! i) = (if i = k then 0 else slot_count (es' ! i))"
        "slot_present (?es ! i) \<longleftrightarrow> slot_present (es' ! i) \<and> i \<noteq> unat sy" if "i < n" for i
        using that s'(1) one(3) k by (auto simp: nth_list_update)
      have "scaling n es (Suc k) ?es tot"
        unfolding scaling_def
      proof (intro conjI allI impI)
        fix i assume i: "i < n"
        show "slot_symbol (?es ! i) = slot_symbol (es ! i)" using nth(1) [OF i] s'(3) [OF i] by simp
        show "slot_count (?es ! i) = (if i < Suc k then scaled n (es ! i) else slot_count (es ! i))"
          using nth(2) [OF i] s'(4) [OF i] sc by (simp add: less_Suc_eq)
        have "slot_symbol ?e = Some (of_nat i) \<and> i \<noteq> n - 1 \<longleftrightarrow> i = unat sy" using one False inj [OF i one(3)] sy by auto
        then show "slot_present (?es ! i) \<longleftrightarrow> slot_present (es ! i) \<and>
            \<not> (\<exists>j < Suc k. slot_count (es ! j) = 1 \<and> slot_symbol (es ! j) = Some (of_nat i) \<and> i \<noteq> n - 1)"
          using nth(3) [OF i] s'(5) [OF i] one(1) by (auto simp: less_Suc_eq)
      qed (use s'(1) sum sc in simp_all)
      ultimately show ?thesis by blast
    qed
  qed
qed

lemma scale_slots_ok:
  assumes ok: "slots_ok n es" "1 < n" "n < 65536" "slot_sum es < 65536"
  shows "k \<le> n \<Longrightarrow> scaling n es k es' tot \<Longrightarrow> \<exists>es'' tot'. scale_slots [k..<n] (es', tot) = Inr (es'', tot') \<and> scaling n es n es'' tot'"
proof (induction "n - k" arbitrary: k es' tot)
  case 0
  then show ?case by auto
next
  case (Suc d)
  then have k: "k < n" by simp
  obtain es1 tot1 where 1: "scale_slot k (es', tot) = Inr (es1, tot1)" "scaling n es (Suc k) es1 tot1"
    using scaling_step [OF ok k Suc.prems(2)] by blast
  then show ?case using Suc.hyps(1) [OF _ _ 1(2)] Suc.hyps(2) k by (simp add: upt_conv_Cons)
qed

lemma scaled_once:
  assumes ok: "slots_ok n es"
  shows "2 * sum_list (map (\<lambda>e. unat (scaled n e)) es) \<le> slot_sum es + 1"
proof -
  let ?esc = "Some (of_nat (n - 1)) :: u16 option"
  let ?h = "\<lambda>e. if unat (slot_count e) = 1 \<and> slot_symbol e = ?esc then 1 else 0 :: nat"
  have "sum_list (map ?h es) \<le> 1"
  proof (cases "\<exists>i < n. ?h (es ! i) \<noteq> 0")
    case True
    then obtain i where i: "i < n" "unat (slot_count (es ! i)) = 1" "slot_symbol (es ! i) = ?esc" by (auto split: if_splits)
    have "?h (es ! j) = 0" if "j < n" "j \<noteq> i" for j
    proof -
      have "\<not> (unat (slot_count (es ! j)) = 1 \<and> slot_symbol (es ! j) = ?esc)"
        using slots_okD(2) [OF ok, of i j] slots_okD(2) [OF ok, of j i] that i by (metis less_asym unsigned_0 zero_neq_one)
      then show ?thesis by simp
    qed
    then have "sum_list (map ?h es) = ?h (es ! i)" using i(1) slots_okD(1) [OF ok] by (intro single_sum) simp_all
    then show ?thesis by simp
  next
    case False
    then have "map ?h es = replicate n 0" using slots_okD(1) [OF ok] by (intro nth_equalityI) simp_all
    then show ?thesis by (simp add: sum_list_replicate)
  qed
  moreover have "sum_list (map (\<lambda>e. 2 * unat (scaled n e)) es) \<le> sum_list (map (\<lambda>e. unat (slot_count e) + ?h e) es)"
    by (rule sum_list_mono) (auto simp: unat_scaled)
  moreover have "sum_list (map (\<lambda>e. 2 * unat (scaled n e)) es) = 2 * sum_list (map (\<lambda>e. unat (scaled n e)) es)"
    by (simp add: sum_list_const_mult)
  ultimately show ?thesis unfolding slot_sum_eq by (simp add: sum_list_addf)
qed

lemma scaling_done:
  assumes ok: "slots_ok n es" "flags_ok n es" "is_counted es (of_nat (n - 1))" "1 < n" "n < 65536" and s: "scaling n es n es' tot"
  shows "slots_ok n es'" "flags_ok n es'" "slot_sum es' = unat tot" "2 * unat tot \<le> slot_sum es + 1" "is_counted es' (of_nat (n - 1))"
    "count_of es' x = (if count_of es x = 1 then if x = of_nat (n - 1) then 1 else 0 else count_of es x div 2)"
proof -
  note l = slots_okD(1) [OF ok(1)]
  have s': "length es' = n" "unat tot = sum_list (map (\<lambda>e. unat (scaled n e)) es)"
    "i < n \<Longrightarrow> slot_symbol (es' ! i) = slot_symbol (es ! i)" "i < n \<Longrightarrow> slot_count (es' ! i) = scaled n (es ! i)"
    "i < n \<Longrightarrow> slot_present (es' ! i) \<longleftrightarrow> slot_present (es ! i) \<and>
        \<not> (\<exists>j < n. slot_count (es ! j) = 1 \<and> slot_symbol (es ! j) = Some (of_nat i) \<and> i \<noteq> n - 1)" for i
    using s l unfolding scaling_def by auto
  have less: "slot_count (es' ! i) \<noteq> 0 \<Longrightarrow> slot_count (es ! i) \<noteq> 0" if "i < n" for i using s'(4) [OF that] scaled_zero by metis
  show ok': "slots_ok n es'"
    unfolding slots_ok_def
  proof (intro conjI allI impI)
    fix i j assume ij: "i < n" "j < n"
    show "i < j" if "i \<noteq> j" "slot_count (es' ! i) \<noteq> 0" "slot_symbol (es' ! i) = slot_symbol (es' ! j)"
      using slots_okD(2) [OF ok(1) ij that(1) less [OF ij(1) that(2)]] that(3) s'(3) ij by simp
    show "slot_count (es' ! j) = 0" if "i \<le> j" "slot_symbol (es' ! i) = None"
      using slots_okD(3) [OF ok(1) ij that(1)] that(2) s'(3) [OF ij(1)] less [OF ij(2)] by auto
  next
    fix i sy assume "i < n" "slot_symbol (es' ! i) = Some sy"
    then show "unat sy < n" using slots_okD(4) [OF ok(1)] s'(3) by simp
  qed (rule s'(1))
  have "map (\<lambda>e. unat (slot_count e)) es' = map (\<lambda>e. unat (scaled n e)) es"
    using s'(1,4) l by (intro nth_equalityI) simp_all
  then show "slot_sum es' = unat tot" unfolding slot_sum_eq s'(2) by (simp only:)
  show "2 * unat tot \<le> slot_sum es + 1" unfolding s'(2) by (rule scaled_once [OF ok(1)])
  have cnt: "count_of es' x = (if count_of es x = 1 then if x = of_nat (n - 1) then 1 else 0 else count_of es x div 2)" for x
  proof (cases "is_counted es x")
    case False
    then have "\<not> is_counted es' x" using less s'(1,3) l by (auto simp: is_counted_def)
    then show ?thesis using False count_of_not_counted by simp
  next
    case True
    then obtain i where i: "i < n" "slot_count (es ! i) \<noteq> 0" "slot_symbol (es ! i) = Some x" using l by (auto simp: is_counted_def)
    note c = count_of_counted [OF ok(1) i]
    have "count_of es' x = unat (scaled n (es ! i))"
    proof (cases "scaled n (es ! i) = 0")
      case True
      have "\<not> is_counted es' x"
      proof
        assume "is_counted es' x"
        then obtain j where j: "j < n" "slot_count (es' ! j) \<noteq> 0" "slot_symbol (es ! j) = Some x" using s'(1,3) by (auto simp: is_counted_def)
        then have "j = i" using slots_okD(2) [OF ok(1), of i j] slots_okD(2) [OF ok(1), of j i] less [OF j(1)] i by (metis less_asym)
        then show False using j(2) s'(4) [OF i(1)] True by simp
      qed
      then show ?thesis using True count_of_not_counted by simp
    next
      case False
      then show ?thesis using count_of_counted [OF ok', of i x] i s'(3,4) [OF i(1)] by simp
    qed
    then show ?thesis using c i(3) by (simp add: unat_scaled)
  qed
  then show "count_of es' x = (if count_of es x = 1 then if x = of_nat (n - 1) then 1 else 0 else count_of es x div 2)" .
  have nz: "is_counted es' x \<longleftrightarrow> is_counted es x \<and> (count_of es x = 1 \<longrightarrow> x = of_nat (n - 1))" for x
    unfolding counted_count_of [OF ok'] counted_count_of [OF ok(1)] cnt by auto
  then show "is_counted es' (of_nat (n - 1))" using ok(3) by blast
  show "flags_ok n es'"
    unfolding flags_ok_def
  proof (intro allI impI)
    fix i assume i: "i < n"
    have "(of_nat i :: u16) = of_nat (n - 1) \<longleftrightarrow> i = n - 1" using unat_u16 [of i] unat_u16 [of "n - 1"] i ok(4,5) by (metis less_imp_diff_less less_trans)
    moreover have "(\<exists>j < n. slot_count (es ! j) = 1 \<and> slot_symbol (es ! j) = Some (of_nat i)) \<longleftrightarrow> count_of es (of_nat i) = 1"
      if "is_counted es (of_nat i)"
    proof -
      obtain j where j: "j < n" "slot_count (es ! j) \<noteq> 0" "slot_symbol (es ! j) = Some (of_nat i)" using \<open>is_counted es (of_nat i)\<close> l by (auto simp: is_counted_def)
      have "slot_count (es ! j) = 1 \<longleftrightarrow> count_of es (of_nat i) = 1" using count_of_counted [OF ok(1) j] by (simp add: word_unat_eq_iff)
      then show ?thesis using j count_of_counted [OF ok(1)] by (metis unsigned_1 zero_neq_one)
    qed
    ultimately show "slot_present (es' ! i) \<longleftrightarrow> is_counted es' (of_nat i)"
      using s'(5) [OF i] ok(2) i unfolding flags_ok_def nz by blast
  qed
qed

subsection \<open>The kernel counts as \<open>kernel_1\<close> does\<close>

lemma slot_sum_counts:
  assumes "slots_ok n es" "n < 65536"
  shows "slot_sum es = (\<Sum>i < n. count_of es (of_nat i))"
proof -
  have e: "(\<Sum>i < n. named (of_nat i) e) = unat (slot_count e)" if "e \<in> set es" for e
  proof (cases "slot_count e = 0")
    case True
    then show ?thesis by (simp add: named_def)
  next
    case False
    obtain k where k: "k < n" "e = es ! k" using \<open>e \<in> set es\<close> slots_okD(1) [OF assms(1)] by (auto simp: in_set_conv_nth)
    obtain x where x: "slot_symbol e = Some x" "unat x < n"
      using slots_okD(3) [OF assms(1) k(1) k(1)] slots_okD(4) [OF assms(1) k(1)] False k(2) by (cases "slot_symbol e") auto
    have "Some x = Some (of_nat i) \<longleftrightarrow> i = unat x" if "i < n" for i using that assms(2) unat_u16 [of i] by auto
    then have "(\<Sum>i < n. named (of_nat i) e) = (\<Sum>i < n. if i = unat x then unat (slot_count e) else 0)"
      unfolding named_def x(1) by (intro sum.cong) auto
    then show ?thesis using x(2) by simp
  qed
  have "(\<Sum>i < n. sum_list (map (named (of_nat i)) xs)) = sum_list (map (\<lambda>e. \<Sum>i < n. named (of_nat i) e) xs)" for xs
    by (induction xs) (simp_all add: sum.distrib)
  moreover have "map (\<lambda>e. \<Sum>i < n. named (of_nat i) e) es = map (\<lambda>e. unat (slot_count e)) es" using e by simp
  ultimately show ?thesis unfolding slot_sum_eq count_of_def by (simp only:)
qed

definition counts_as :: "nat \<Rightarrow> cc \<Rightarrow> cc3 \<Rightarrow> bool" where
  "counts_as n s t \<longleftrightarrow> cc_wf n s \<and> cc3_wf n t \<and> (\<forall>i < n. unat (counts s ! i) = count_of (cc3_counts t) (of_nat i))"

lemma counts_as_total:
  assumes "counts_as n s t"
  shows "cc_total s = cc3_total t"
proof -
  have w: "cc_wf n s" "cc3_wf n t" using assms by (auto simp: counts_as_def)
  have "unat (cc_total s) = (\<Sum>i < n. unat (counts s ! i))"
    using w(1) sum_list_sum_nth [of "map unat (counts s)"] by (auto simp: cc_wf_def atLeast0LessThan)
  also have "\<dots> = (\<Sum>i < n. count_of (cc3_counts t) (of_nat i))" using assms by (simp add: counts_as_def)
  also have "\<dots> = unat (cc3_total t)" using slot_sum_counts [of n "cc3_counts t"] w(2) by (simp add: cc3_wf_def)
  finally show ?thesis by (simp add: word_unat_eq_iff)
qed

lemma counts_as_scaled:
  assumes c: "counts_as n s t" and s1: "s1 = (if (ucast (cc_total s) :: u64) + ucast amount \<ge> 65536 then scale_down s else s)"
  shows "\<exists>t1. cc3_scaled amount t = Inr t1 \<and> counts_as n s1 t1"
proof (cases "(ucast (cc_total s) :: u64) + ucast amount \<ge> 65536")
  case False
  then show ?thesis using c counts_as_total [OF c] by (simp add: s1 cc3_scaled_def)
next
  case True
  let ?es = "cc3_counts t"
  have w: "cc_wf n s" "slots_ok n ?es" "flags_ok n ?es" "is_counted ?es (of_nat (n - 1))" "1 < n" "n < 65536" "slot_sum ?es = unat (cc3_total t)"
    and i: "\<And>i. i < n \<Longrightarrow> unat (counts s ! i) = count_of ?es (of_nat i)"
    using c by (auto simp: counts_as_def cc3_wf_def)
  have l: "length (counts s) = n" "counts s ! (n - 1) \<noteq> 0" using w(1) by (auto simp: cc_wf_def)
  have "slot_sum ?es < 65536" using w(7) u16_less [of "cc3_total t"] by simp
  moreover have "scaling n ?es 0 ?es 0" using slots_okD(1) [OF w(2)] by (simp add: scaling_def)
  ultimately obtain es' tot where s: "scale_slots [0..<n] (?es, 0) = Inr (es', tot)" "scaling n ?es n es' tot"
    using scale_slots_ok [OF w(2,5,6), of 0 ?es 0] by auto
  note d = scaling_done [OF w(2-6) s(2)]
  let ?t = "\<lparr> cc3_total = tot, cc3_counts = es' \<rparr>"
  have "cc3_scaled amount t = Inr ?t" using True counts_as_total [OF c] s(1) slots_okD(1) [OF w(2)] by (simp add: cc3_scaled_def)
  moreover have "cc3_wf n ?t" using d(1,2,3,5) w(5,6) by (simp add: cc3_wf_def)
  moreover have "unat (counts s1 ! j) = count_of es' (of_nat j)" if "j < n" for j
  proof -
    have inj: "(of_nat j :: u16) = of_nat (n - 1) \<longleftrightarrow> j = n - 1" using unat_u16 [of j] unat_u16 [of "n - 1"] that w(6) by (metis less_imp_diff_less less_trans)
    have c1: "counts s1 ! j = (if j = n - 1 \<and> drop_bit 1 (counts s ! j) = 0 then 1 else drop_bit 1 (counts s ! j))"
      using True scale_down_counts [OF w(1)] that l(1) by (simp add: s1 nth_list_update)
    have z: "drop_bit 1 (counts s ! j) = 0 \<longleftrightarrow> unat (counts s ! j) div 2 = 0" by (metis unat_eq_0 half_u16)
    have "j = n - 1 \<Longrightarrow> unat (counts s ! j) \<noteq> 0" using l(2) by (simp add: unat_eq_0)
    then show ?thesis unfolding d(6) i [OF that, symmetric] inj c1 z using half_u16 [of "counts s ! j"] by auto
  qed
  ultimately show ?thesis using scale_down_wf(1) [OF w(1)] True by (auto simp: counts_as_def s1)
qed

lemma counts_as_increment:
  assumes c: "counts_as n s t" and sy: "unat sy < n" and a: "amount \<noteq> 0" "unat amount < 32768"
  shows "\<exists>s' t'. increment_count sy amount s = Inr (True, s') \<and> cc3_increment_count sy amount t = Inr (True, t') \<and> counts_as n s' t'"
proof -
  define s1 where "s1 = (if (ucast (cc_total s) :: u64) + ucast amount \<ge> 65536 then scale_down s else s)"
  obtain t1 where t1: "cc3_scaled amount t = Inr t1" "counts_as n s1 t1" using counts_as_scaled [OF c s1_def] by blast
  have w: "cc_wf n s" using c by (simp add: counts_as_def)
  note f = scaled_fits [OF w a(2) s1_def]
  let ?es = "cc3_counts t1" and ?sy = "ucast sy :: u16"
  have e: "slots_ok n ?es" "flags_ok n ?es" "n < 65536" "1 < n" "slot_sum ?es = unat (cc3_total t1)" "is_counted ?es (of_nat (n - 1))"
    and i: "\<And>i. i < n \<Longrightarrow> unat (counts s1 ! i) = count_of ?es (of_nat i)"
    using t1(2) by (auto simp: counts_as_def cc3_wf_def)
  have u: "unat ?sy = unat sy" "?sy = of_nat (unat sy)"
  proof -
    show "unat ?sy = unat sy" using sy e(3) by (simp add: unsigned_ucast_eq take_bit_eq_mod)
    then show "?sy = of_nat (unat sy)" using sy e(3) unat_u16 [of "unat sy"] by (simp add: word_unat_eq_iff)
  qed
  have l: "length (counts s1) = n" "length ?es = n" using f(1) slots_okD(1) [OF e(1)] by (simp_all add: cc_wf_def)
  have "unat (counts s1 ! unat sy) + unat amount < 65536" using f(3) [OF sy] u16_less [of "counts s1 ! unat sy + amount"] by simp
  then have "count_of ?es ?sy + unat amount < 65536" unfolding i [OF sy] u(2) .
  then obtain es' where es': "(if slot_present (?es ! unat sy) then bump_old ?sy amount 0 0 ?es
      else bump_new ?sy amount 0 0 (?es[unat sy := (?es ! unat sy) \<lparr> slot_present := True \<rparr>])) = Inr es'"
    "slots_ok n es'" "flags_ok n es'" "slot_sum es' = slot_sum ?es + unat amount"
    "\<And>x. count_of es' x = count_of ?es x + (if x = ?sy then unat amount else 0)"
    using bumped [OF e(1-3), of ?sy amount] sy a(1) unfolding u(1) by blast
  let ?t = "\<lparr> cc3_total = cc3_total t1 + amount, cc3_counts = es' \<rparr>"
  let ?s = "\<lparr> cc_total = cc_total s1 + amount, counts = (counts s1)[unat sy := counts s1 ! unat sy + amount] \<rparr>"
  have r: "cc3_increment_count sy amount t = Inr (True, ?t)" using t1(1) es'(1) sy l(2) by (simp add: cc3_increment_count_def Let_def)
  have r1: "increment_count sy amount s = Inr (True, ?s)" using sy l(1) by (simp add: increment_count_def Let_def flip: s1_def)
  then have "cc_wf n ?s" using increment_count_wf [OF w sy a(2)] by auto
  moreover have "cc3_wf n ?t"
    using e es'(2-4) counts_as_total [OF t1(2)] f(2) counted_count_of [OF es'(2)] counted_count_of [OF e(1)] es'(5)
    by (simp add: cc3_wf_def unat_word_ariths)
  moreover have "unat (counts ?s ! j) = count_of es' (of_nat j)" if "j < n" for j
  proof -
    have "(of_nat j :: u16) = ?sy \<longleftrightarrow> j = unat sy" using u(1) unat_u16 [of j] that e(3) by (metis less_trans word_unat_eq_iff)
    then show ?thesis using i [OF that] es'(5) that l(1) f(3) [OF sy] by (auto simp: nth_list_update)
  qed
  ultimately have "counts_as n ?s ?t" by (simp add: counts_as_def)
  then show ?thesis using r r1 by blast
qed

subsection \<open>Ranges\<close>

lemma find_slot_at:
  assumes "i < length es" "\<And>j. j < i \<Longrightarrow> \<exists>x. slot_symbol (es ! j) = Some x \<and> (ucast x :: u64) \<noteq> symbol"
    "slot_symbol (es ! i) = Some sy" "ucast sy = symbol" "unat low + slot_sum (take i es) < 2 ^ 64"
  shows "\<exists>lo. find_slot symbol es low = Inr (lo, slot_count (es ! i)) \<and> unat lo = unat low + slot_sum (take i es)"
  using assms
proof (induction es arbitrary: i low)
  case (Cons e es)
  show ?case
  proof (cases i)
    case 0
    then show ?thesis using Cons.prems(3,4) by (simp add: symbol_in_def)
  next
    case (Suc j)
    obtain x where x: "slot_symbol e = Some x" "(ucast x :: u64) \<noteq> symbol" using Cons.prems(2) [of 0] Suc by auto
    have u: "unat (low + ucast (slot_count e)) = unat low + unat (slot_count e)"
      using Cons.prems(5) Suc by (simp add: unat_word_ariths unat_u64_u16)
    have "\<exists>x. slot_symbol (es ! k) = Some x \<and> (ucast x :: u64) \<noteq> symbol" if "k < j" for k using Cons.prems(2) [of "Suc k"] that Suc by simp
    then show ?thesis using Cons.IH [of j "low + ucast (slot_count e)"] Cons.prems x u Suc by (simp add: symbol_in_def add.assoc)
  qed
qed simp

lemma find_target_at:
  assumes "i < length es" "slot_symbol (es ! i) = Some sy" "unat high + slot_sum es < 65536"
    "unat high + slot_sum (take i es) \<le> unat t" "unat t < unat high + slot_sum (take (Suc i) es)"
  shows "\<exists>lo hi. find_target t es high = Inr (ucast sy, lo, hi) \<and>
    unat lo = unat high + slot_sum (take i es) \<and> unat hi = unat high + slot_sum (take (Suc i) es)"
  using assms
proof (induction es arbitrary: i high)
  case (Cons e es)
  have h: "unat (high + ucast (slot_count e)) = unat high + unat (slot_count e)"
    using Cons.prems(3) by (simp add: unat_word_ariths unat_u64_u16)
  show ?case
  proof (cases i)
    case 0
    then show ?thesis using Cons.prems h by (simp add: Let_def word_le_nat_alt symbol_in_def)
  next
    case (Suc j)
    then show ?thesis using Cons.IH [of j "high + ucast (slot_count e)"] Cons.prems h by (simp add: Let_def word_le_nat_alt add.assoc)
  qed
qed simp

text \<open>The range of a symbol that has a count, and the symbol of a target, through the slot that counts it.\<close>

lemma cc3_at:
  assumes wf: "cc3_wf n s" and i: "i < n" "slot_count (cc3_counts s ! i) \<noteq> 0" "slot_symbol (cc3_counts s ! i) = Some sy"
  shows "\<exists>c lo hi. cc3_get_range (ucast sy) s = Inr (c, Some (lo, hi, cc3_get_total s)) \<and> c \<noteq> 0 \<and> unat (ucast sy :: u64) < n \<and>
    unat lo = slot_sum (take i (cc3_counts s)) \<and> unat hi = slot_sum (take (Suc i) (cc3_counts s)) \<and> lo < hi \<and> hi \<le> cc3_get_total s \<and>
    cc3_get_count (ucast sy) s = Inr c \<and> unat c = unat (slot_count (cc3_counts s ! i)) \<and>
    (\<forall>t. lo \<le> t \<longrightarrow> t < hi \<longrightarrow> cc3_get_symbol t s = Inr (ucast sy, lo, hi))"
proof -
  let ?es = "cc3_counts s" and ?sy = "ucast sy :: u64" and ?c = "slot_count (cc3_counts s ! i)"
  have ok: "slots_ok n ?es" "flags_ok n ?es" "slot_sum ?es = unat (cc3_total s)" "n < 65536" using wf by (auto simp: cc3_wf_def)
  note l = slots_okD(1) [OF ok(1)]
  have u: "unat ?sy = unat sy" by (rule unat_u64_u16)
  have n: "unat sy < n" using slots_okD(4) [OF ok(1) i(1,3)] .
  have "is_counted ?es sy" using i l by (auto simp: is_counted_def)
  then have p: "slot_present (?es ! unat sy)" using ok(2) n by (simp add: flags_ok_def)
  have sum: "slot_sum (take (Suc i) ?es) = slot_sum (take i ?es) + unat ?c" using i(1) l by (simp add: take_Suc_conv_app_nth)
  have le: "slot_sum (take (Suc i) ?es) \<le> unat (cc3_total s)"
    using low_count_le [of "Suc i" "map slot_count ?es"] ok(3) by (simp only: take_map)
  have before: "\<exists>x. slot_symbol (?es ! j) = Some x \<and> (ucast x :: u64) \<noteq> ?sy" if "j < i" for j
  proof -
    obtain x where x: "slot_symbol (?es ! j) = Some x" using slots_okD(3) [OF ok(1), of j i] \<open>j < i\<close> i by (cases "slot_symbol (?es ! j)") auto
    have "x \<noteq> sy" using slots_okD(2) [OF ok(1), of i j] that i x by auto
    then have "(ucast x :: u64) \<noteq> ?sy" by (metis unat_u64_u16 word_unat_eq_iff)
    then show ?thesis using x by blast
  qed
  obtain lo where lo: "find_slot ?sy ?es 0 = Inr (lo, ?c)" "unat lo = slot_sum (take i ?es)"
    using find_slot_at [of i ?es ?sy sy 0] i l before le sum u16_less [of "cc3_total s"] by auto
  let ?hi = "lo + ucast ?c"
  have hi: "unat ?hi = slot_sum (take (Suc i) ?es)"
    using lo(2) sum le u16_less [of "cc3_total s"] by (simp add: unat_word_ariths unat_u64_u16)
  have c: "0 < unat ?c" using i(2) by (simp add: unat_gt_0)
  then have "(ucast ?c :: u64) \<noteq> 0" by (metis unat_u64_u16 less_irrefl unsigned_0)
  moreover have "cc3_get_symbol t s = Inr (?sy, lo, ?hi)" if "lo \<le> t" "t < ?hi" for t
    using find_target_at [of i ?es sy 0 t] i l that lo(2) hi ok(3) u16_less [of "cc3_total s"]
    by (auto simp: cc3_get_symbol_def word_le_nat_alt word_less_nat_alt word_unat_eq_iff)
  ultimately show ?thesis
    using lo hi c p n l u le sum
    by (intro exI [of _ "ucast ?c"] exI [of _ lo] exI [of _ ?hi])
      (simp add: cc3_get_range_def cc3_get_count_def cc3_get_total_def word_le_nat_alt word_less_nat_alt unat_u64_u16)
qed

lemma u16_back: "unat (sy :: u64) < 65536 \<Longrightarrow> ucast (ucast sy :: u16) = sy"
proof -
  assume "unat sy < 65536"
  then have "unat (ucast sy :: u16) = unat sy" by (simp add: unsigned_ucast_eq take_bit_eq_mod)
  then show ?thesis by (metis unat_u64_u16 word_unat_eq_iff)
qed

lemma cc3_not_counted:
  assumes wf: "cc3_wf n s" and sy: "unat sy < n" "\<not> is_counted (cc3_counts s) (ucast sy)"
  shows "cc3_get_range sy s = Inr (0, None) \<and> cc3_get_count sy s = Inr 0 \<and> unat sy \<noteq> n - 1"
proof -
  have ok: "slots_ok n (cc3_counts s)" "flags_ok n (cc3_counts s)" "is_counted (cc3_counts s) (of_nat (n - 1))" "n < 65536" using wf by (auto simp: cc3_wf_def)
  have u: "(ucast sy :: u16) = of_nat (unat sy)" by (simp add: unsigned_ucast_eq)
  have "\<not> slot_present (cc3_counts s ! unat sy)" using ok(2) sy unfolding flags_ok_def u by blast
  moreover have "unat sy \<noteq> n - 1" using ok(3) sy(2) unfolding u by metis
  ultimately show ?thesis using sy(1) slots_okD(1) [OF ok(1)] by (simp add: cc3_get_range_def cc3_get_count_def)
qed

text \<open>Every state of the kernel counts as some state of \<open>kernel_1\<close>.\<close>

lemma counts_as_exists:
  assumes "cc3_wf n s"
  shows "counts_as n \<lparr> cc_total = cc3_total s, counts = map (\<lambda>i. of_nat (count_of (cc3_counts s) (of_nat i))) [0..<n] \<rparr> s"
proof -
  let ?es = "cc3_counts s"
  have w: "slots_ok n ?es" "n < 65536" "1 < n" "slot_sum ?es = unat (cc3_total s)" "is_counted ?es (of_nat (n - 1))" using assms by (auto simp: cc3_wf_def)
  have "count_of ?es x \<le> slot_sum ?es" for x unfolding count_of_def slot_sum_eq by (rule sum_list_mono) (simp add: named_def)
  then have u: "unat (of_nat (count_of ?es x) :: u16) = count_of ?es x" for x
    using w(4) u16_less [of "cc3_total s"] by (intro unat_u16) (metis le_less_trans)
  have "sum_list (map (\<lambda>i. count_of ?es (of_nat i)) [0..<n]) = unat (cc3_total s)"
    using slot_sum_counts [OF w(1,2)] w(4) by (simp add: interv_sum_list_conv_sum_set_nat atLeast0LessThan)
  moreover have "(of_nat (count_of ?es (of_nat (n - 1))) :: u16) \<noteq> 0"
    using u [of "of_nat (n - 1)"] counted_count_of [OF w(1)] w(5) by (metis unsigned_0)
  ultimately show ?thesis using assms w(2,3) by (simp add: counts_as_def cc_wf_def comp_def u)
qed

lemma conditioning_class_kernel_3:
  assumes "1 < n" "n < 65536"
  shows "conditioning_class n (cc3_wf n) cc3_increment_count cc3_get_range cc3_get_symbol cc3_get_total"
proof unfold_locales
  show "1 < n" "n < 65536" using assms by auto
  fix s assume wf: "cc3_wf n s"
  let ?es = "cc3_counts s"
  have ok: "slots_ok n ?es" "slot_sum ?es = unat (cc3_total s)" "is_counted ?es (of_nat (n - 1))" using wf by (auto simp: cc3_wf_def)
  note l = slots_okD(1) [OF ok(1)]
  obtain i sy where e: "i < n" "slot_count (?es ! i) \<noteq> 0" "slot_symbol (?es ! i) = Some sy" using ok(3) l by (auto simp: is_counted_def)
  have tot: "unat (cc3_get_total s) = unat (cc3_total s)" by (simp add: cc3_get_total_def unat_u64_u16)
  have "\<exists>lo hi. lo < hi \<and> hi \<le> cc3_get_total s" using cc3_at [OF wf e] by blast
  then have "cc3_get_total s \<noteq> 0" by (auto simp: word_less_nat_alt word_le_nat_alt)
  then show "0 < cc3_get_total s \<and> cc3_get_total s < 65536"
    using tot u16_less [of "cc3_total s"] unat_gt_0 [of "cc3_get_total s"] by (simp add: word_less_nat_alt)
  fix sy :: u64 and amount :: u16 assume sy: "unat sy < n"
  show "\<exists>ok s'. cc3_increment_count sy amount s = Inr (ok, s') \<and> cc3_wf n s'" if "amount \<noteq> 0" "unat amount < 32768"
    using counts_as_increment [OF counts_as_exists [OF wf] sy that] by (auto simp: counts_as_def)
  show "cc3_get_range sy s = Inr (0, None) \<and> unat sy \<noteq> n - 1 \<or>
      (\<exists>c lo hi. cc3_get_range sy s = Inr (c, Some (lo, hi, cc3_get_total s)) \<and> c \<noteq> 0 \<and> lo < hi \<and> hi \<le> cc3_get_total s \<and>
        (\<forall>t. lo \<le> t \<longrightarrow> t < hi \<longrightarrow> cc3_get_symbol t s = Inr (sy, lo, hi)))"
  proof (cases "is_counted ?es (ucast sy)")
    case False
    then show ?thesis using cc3_not_counted [OF wf sy] by blast
  next
    case True
    then obtain j where j: "j < n" "slot_count (?es ! j) \<noteq> 0" "slot_symbol (?es ! j) = Some (ucast sy)" using l by (auto simp: is_counted_def)
    have "ucast (ucast sy :: u16) = sy" using sy assms(2) by (intro u16_back) simp
    then show ?thesis using cc3_at [OF wf j] by metis
  qed
next
  fix s t assume wf: "cc3_wf n s" and t: "t < cc3_get_total s"
  let ?es = "cc3_counts s"
  have ok: "slots_ok n ?es" "slot_sum ?es = unat (cc3_total s)" using wf by (auto simp: cc3_wf_def)
  note l = slots_okD(1) [OF ok(1)]
  have "unat t < slot_sum ?es" using t ok(2) by (simp add: word_less_nat_alt cc3_get_total_def unat_u64_u16)
  from symbol_exists [OF this] obtain i where i: "i < n" "slot_sum (take i ?es) \<le> unat t" "unat t < slot_sum (take (Suc i) ?es)"
    using l by (auto simp: take_map)
  have "slot_count (?es ! i) \<noteq> 0" using i l by (auto simp: take_Suc_conv_app_nth)
  moreover from this obtain sy where "slot_symbol (?es ! i) = Some sy" using slots_okD(3) [OF ok(1) i(1) i(1)] by (cases "slot_symbol (?es ! i)") auto
  ultimately show "\<exists>sy c lo hi. cc3_get_symbol t s = Inr (sy, lo, hi) \<and> unat sy < n \<and>
      cc3_get_range sy s = Inr (c, Some (lo, hi, cc3_get_total s)) \<and> lo \<le> t \<and> t < hi"
    using cc3_at [OF wf i(1)] i(2,3) by (metis word_le_nat_alt word_less_nat_alt)
qed

interpretation cc3_258: conditioning_class 258 "cc3_wf 258" cc3_increment_count cc3_get_range cc3_get_symbol cc3_get_total
  by (rule conditioning_class_kernel_3) simp_all

lemma cc3_initial_nth:
  assumes "i < n"
  shows "slot_count (cc3_initial n ! i) = (if i = 0 then 1 else 0)" "slot_present (cc3_initial n ! i) \<longleftrightarrow> i = n - 1"
    "slot_symbol (cc3_initial n ! i) = (if i = 0 then Some (of_nat (n - 1)) else None)"
proof -
  let ?a = "\<lparr> slot_count = 1, slot_symbol = Some (of_nat (n - 1)), slot_present = False \<rparr>" and ?b = "\<lparr> slot_count = 0, slot_symbol = None, slot_present = False \<rparr>"
  let ?xs = "?a # replicate (n - 1) ?b"
  have x: "?xs ! j = (if j = 0 then ?a else ?b)" if "j < n" for j using that by (cases j) simp_all
  have "cc3_initial n ! i = (if i = n - 1 then (?xs ! i) \<lparr> slot_present := True \<rparr> else ?xs ! i)"
    unfolding cc3_initial_def Let_def by (subst nth_list_update) (use assms in simp_all)
  then show "slot_count (cc3_initial n ! i) = (if i = 0 then 1 else 0)" "slot_present (cc3_initial n ! i) \<longleftrightarrow> i = n - 1"
    "slot_symbol (cc3_initial n ! i) = (if i = 0 then Some (of_nat (n - 1)) else None)"
    unfolding x [OF assms] by simp_all
qed

lemma length_cc3_initial: "1 < n \<Longrightarrow> length (cc3_initial n) = n"
  unfolding cc3_initial_def Let_def length_list_update by simp

lemma cc3_initial_counted:
  assumes "1 < n"
  shows "is_counted (cc3_initial n) x \<longleftrightarrow> x = of_nat (n - 1)"
proof -
  have "is_counted (cc3_initial n) x \<longleftrightarrow> slot_symbol (cc3_initial n ! 0) = Some x"
    using length_cc3_initial [OF assms] assms by (auto simp: is_counted_def cc3_initial_nth(1) split: if_splits intro!: exI [of _ 0])
  also have "\<dots> \<longleftrightarrow> x = of_nat (n - 1)" using cc3_initial_nth(3) [of 0 n] assms by (simp only:) auto
  finally show ?thesis .
qed

lemma cc3_new_wf:
  assumes "1 < n" "n < 65536"
  shows "cc3_wf n (fst (cc3_new n size_of usage))"
proof -
  note l = length_cc3_initial [OF assms(1)]
  note nth = cc3_initial_nth
  have u: "unat (of_nat (n - 1) :: u16) = n - 1" using assms by (intro unat_u16) simp
  have "slots_ok n (cc3_initial n)" unfolding slots_ok_def
  proof (intro conjI allI impI)
    fix i sy assume "i < n" "slot_symbol (cc3_initial n ! i) = Some sy"
    then show "unat sy < n" using u assms(1) by (auto simp: nth split: if_splits)
  qed (use l in \<open>auto simp: nth split: if_splits\<close>)
  moreover note c = cc3_initial_counted [OF assms(1)]
  then have "flags_ok n (cc3_initial n)" unfolding flags_ok_def
  proof (intro allI impI)
    fix i assume i: "i < n"
    have "(of_nat i :: u16) = of_nat (n - 1) \<longleftrightarrow> i = n - 1" using unat_u16 [of i] u i assms by (metis less_trans)
    then show "slot_present (cc3_initial n ! i) \<longleftrightarrow> is_counted (cc3_initial n) (of_nat i)" using nth(2) [OF i] c by simp
  qed
  moreover have "slot_sum (cc3_initial n) = 1"
    using single_sum [of 0 "cc3_initial n" "\<lambda>e. unat (slot_count e)"] l assms(1) nth(1) unfolding slot_sum_eq by simp
  ultimately show ?thesis using assms c by (simp add: cc3_wf_def cc3_new_def)
qed

text \<open>\<open>clear\<close> keeps the invariant, with the old symbols still in the slots.\<close>

lemma cc3_clear_wf:
  assumes "cc3_wf n s"
  shows "cc3_wf n (cc3_clear s)"
proof -
  let ?es = "cc3_counts (cc3_clear s)" and ?old = "cc3_counts s"
  have w: "slots_ok n ?old" "1 < n" "n < 65536" using assms by (auto simp: cc3_wf_def)
  note l = slots_okD(1) [OF w(1)]
  let ?xs = "(map (\<lambda>e. e \<lparr> slot_count := 0, slot_present := False \<rparr>) ?old)[0 := \<lparr> slot_count = 1, slot_symbol = Some (of_nat (n - 1)), slot_present = False \<rparr>]"
  have x: "slot_count (?xs ! i) = (if i = 0 then 1 else 0)" "\<not> slot_present (?xs ! i)"
    "slot_symbol (?xs ! i) = (if i = 0 then Some (of_nat (n - 1)) else slot_symbol (?old ! i))" if "i < n" for i
    using that l w(2) by (simp_all add: nth_list_update)
  have es: "?es = ?xs[n - 1 := (?xs ! (n - 1)) \<lparr> slot_present := True \<rparr>]" using l by (simp add: cc3_clear_def Let_def)
  have le: "length ?es = n" unfolding es length_list_update using l by simp
  have nth: "slot_count (?es ! i) = (if i = 0 then 1 else 0)" "slot_present (?es ! i) \<longleftrightarrow> i = n - 1"
    "slot_symbol (?es ! i) = (if i = 0 then Some (of_nat (n - 1)) else slot_symbol (?old ! i))" if "i < n" for i
    unfolding es by (subst nth_list_update; use that l w(2) x [OF that] in simp)+
  have u: "unat (of_nat (n - 1) :: u16) = n - 1" using w(2,3) by (intro unat_u16) simp
  have c: "is_counted ?es x \<longleftrightarrow> x = of_nat (n - 1)" for x
  proof -
    have "is_counted ?es x \<longleftrightarrow> slot_symbol (?es ! 0) = Some x"
      unfolding is_counted_def le using w(2) by (auto simp: nth(1) split: if_splits intro!: exI [of _ 0])
    also have "\<dots> \<longleftrightarrow> x = of_nat (n - 1)" using nth(3) [of 0] w(2) by (simp only:) auto
    finally show ?thesis .
  qed
  have "slots_ok n ?es" unfolding slots_ok_def
  proof (intro conjI allI impI)
    fix i sy assume i: "i < n" "slot_symbol (?es ! i) = Some sy"
    show "unat sy < n"
    proof (cases "i = 0")
      case True
      then show ?thesis using i nth(3) [of 0] u w(2) by (metis diff_less less_trans option.inject zero_less_one)
    next
      case False
      then show ?thesis using i nth(3) [OF i(1)] slots_okD(4) [OF w(1) i(1)] by simp
    qed
  next
    fix i j assume "i < n" "j < n" "i \<le> j" "slot_symbol (?es ! i) = None"
    then show "slot_count (?es ! j) = 0" using nth(1) [of j] nth(3) [of i] by (cases "j = 0") auto
  next
    fix i j assume "i < n" "j < n" "i \<noteq> j" "slot_count (?es ! i) \<noteq> 0"
    then show "i < j" using nth(1) [of i] by (simp split: if_splits)
  qed (rule le)
  moreover have "flags_ok n ?es" unfolding flags_ok_def
  proof (intro allI impI)
    fix i assume i: "i < n"
    have "(of_nat i :: u16) = of_nat (n - 1) \<longleftrightarrow> i = n - 1" using unat_u16 [of i] u i w(3) by (metis less_trans)
    then show "slot_present (?es ! i) \<longleftrightarrow> is_counted ?es (of_nat i)" using nth(2) [OF i] c by simp
  qed
  moreover have "slot_sum ?es = 1"
    using single_sum [of 0 ?es "\<lambda>e. unat (slot_count e)"] le w(2) nth(1) unfolding slot_sum_eq by simp
  moreover have "cc3_total (cc3_clear s) = 1" by (simp add: cc3_clear_def Let_def)
  ultimately show ?thesis using w(2,3) c by (simp add: cc3_wf_def)
qed

lemma counts_as_all:
  "counts_as n s t \<Longrightarrow> \<forall>(sy, a) \<in> set ops. unat sy < n \<and> 0 < a \<and> unat a < 32768 \<Longrightarrow>
    \<exists>s' t'. increment_all increment_count ops s = Inr s' \<and> increment_all cc3_increment_count ops t = Inr t' \<and> counts_as n s' t'"
proof (induction ops arbitrary: s t)
  case (Cons op ops)
  obtain sy a where op: "op = (sy, a)" by (cases op)
  obtain s1 t1 where "increment_count sy a s = Inr (True, s1)" "cc3_increment_count sy a t = Inr (True, t1)" "counts_as n s1 t1"
    using counts_as_increment [OF Cons.prems(1), of sy a] Cons.prems(2) op by auto
  then show ?case using Cons.IH [of s1 t1] Cons.prems(2) op by simp
qed auto

lemma counts_as_get_count:
  assumes c: "counts_as n s t" and sy: "unat sy < n"
  shows "cc_get_count sy s = cc3_get_count sy t"
proof -
  let ?es = "cc3_counts t"
  have wf: "cc3_wf n t" "slots_ok n ?es" "n < 65536" "length (counts s) = n" using c by (auto simp: counts_as_def cc3_wf_def cc_wf_def)
  have u: "(ucast sy :: u16) = of_nat (unat sy)" by (simp add: unsigned_ucast_eq)
  have i: "unat (counts s ! unat sy) = count_of ?es (ucast sy)" using c sy unfolding u by (simp add: counts_as_def)
  have k: "cc_get_count sy s = Inr (ucast (counts s ! unat sy))" using sy wf(4) by (simp add: cc_get_count_def)
  show ?thesis
  proof (cases "is_counted ?es (ucast sy)")
    case False
    then have "counts s ! unat sy = 0" using i count_of_not_counted by (metis unat_eq_0)
    then show ?thesis using k cc3_not_counted [OF wf(1) sy False] by simp
  next
    case True
    then obtain j where j: "j < n" "slot_count (?es ! j) \<noteq> 0" "slot_symbol (?es ! j) = Some (ucast sy)"
      using slots_okD(1) [OF wf(2)] by (auto simp: is_counted_def)
    have s: "ucast (ucast sy :: u16) = sy" using sy wf(3) by (intro u16_back) simp
    obtain c where c: "cc3_get_count sy t = Inr c" "unat c = unat (slot_count (?es ! j))" using cc3_at [OF wf(1) j] s by auto
    then have "unat c = unat (counts s ! unat sy)" using i count_of_counted [OF wf(2) j] by simp
    then have "c = ucast (counts s ! unat sy)" by (metis unat_u64_u16 word_unat_eq_iff)
    then show ?thesis using k c(1) by simp
  qed
qed

text \<open>
  C18. \<open>conditioning_class_kernel_3\<close> counts as \<open>conditioning_class_kernel_1\<close> does, for every alphabet and any
  calls of \<open>increment_count\<close> that the interface allows, although it keeps the symbols in another order and
  leaves the names of old symbols in its slots: the totals and the counts of all symbols are the same, and
  no search leaves the array or reads a slot that was never written.
\<close>

theorem conditioning_class_3_equivalent:
  assumes "1 < n" "n < 65536" "\<forall>(sy, a) \<in> set ops. unat sy < n \<and> 0 < a \<and> unat a < 32768"
  shows "\<exists>s t. increment_all increment_count ops (fst (cc_new n size_of usage)) = Inr s \<and>
    increment_all cc3_increment_count ops (fst (cc3_new n size_of' usage')) = Inr t \<and> get_total s = cc3_get_total t \<and>
    (\<forall>sy. unat sy < n \<longrightarrow> cc_get_count sy s = cc3_get_count sy t)"
proof -
  have "counts_as n (fst (cc_new n size_of usage)) (fst (cc3_new n size_of' usage'))"
  proof -
    let ?t = "fst (cc3_new n size_of' usage')"
    have "count_of (cc3_counts ?t) (of_nat i) = unat (initial_counts n ! i)" if "i < n" for i
    proof -
      have ok: "slots_ok n (cc3_initial n)" using cc3_new_wf [OF assms(1,2), of size_of' usage'] by (simp add: cc3_wf_def cc3_new_def)
      have "(of_nat i :: u16) = of_nat (n - 1) \<longleftrightarrow> i = n - 1"
        using unat_u16 [of i] unat_u16 [of "n - 1"] that assms(2) by (metis less_imp_diff_less less_trans)
      moreover note cc3_initial_counted [OF assms(1)]
      ultimately have "count_of (cc3_initial n) (of_nat i) = (if i = n - 1 then 1 else 0)"
        using count_of_not_counted [of "cc3_initial n" "of_nat i"] count_of_counted [OF ok, of 0 "of_nat i"] assms(1) cc3_initial_nth [of 0 n] by auto
      then show ?thesis using that by (auto simp: cc3_new_def initial_counts_def nth_append)
    qed
    then show ?thesis using cc_new_wf [OF assms(1,2)] cc3_new_wf [OF assms(1,2)] by (simp add: counts_as_def cc_new_def)
  qed
  then obtain s t where st: "increment_all increment_count ops (fst (cc_new n size_of usage)) = Inr s"
    "increment_all cc3_increment_count ops (fst (cc3_new n size_of' usage')) = Inr t" "counts_as n s t"
    using counts_as_all assms(3) by blast
  moreover have "cc_get_count sy s = cc3_get_count sy t" if "unat sy < n" for sy
    by (rule counts_as_get_count [OF st(3) that])
  ultimately show ?thesis using counts_as_total [OF st(3)] by (auto simp: get_total_def cc3_get_total_def)
qed

theorem conditioning_class_3_equivalent_witness:
  "\<exists>s t. increment_all increment_count [(0, 32767), (2, 32767), (1, 2), (0, 1)] (fst (cc_new 3 8 0)) = Inr s \<and>
    increment_all cc3_increment_count [(0, 32767), (2, 32767), (1, 2), (0, 1)] (fst (cc3_new 3 16 0)) = Inr t \<and> get_total s = cc3_get_total t \<and>
    cc_get_count 0 s = cc3_get_count 0 t"
proof -
  have "\<forall>(sy, a) \<in> set [(0, 32767), (2, 32767), (1, 2), (0, 1)]. unat (sy :: u64) < 3 \<and> 0 < a \<and> unat (a :: u16) < 32768"
    by (simp add: word_less_nat_alt)
  from conditioning_class_3_equivalent [OF _ _ this, of 8 0 16 0] obtain s t where
    "increment_all increment_count [(0, 32767), (2, 32767), (1, 2), (0, 1)] (fst (cc_new 3 8 0)) = Inr s"
    "increment_all cc3_increment_count [(0, 32767), (2, 32767), (1, 2), (0, 1)] (fst (cc3_new 3 16 0)) = Inr t" "get_total s = cc3_get_total t"
    "\<forall>sy. unat sy < 3 \<longrightarrow> cc_get_count sy s = cc3_get_count sy t" by auto
  moreover have "unat (0 :: u64) < 3" by simp
  ultimately show ?thesis by blast
qed

end
