(* ===== verification/Md5.thy ===== *)
theory Md5
  imports Prelude
begin

text \<open>
  The model of \<open>src/dlib-minimal/lib/dlib/md5/md5_kernel_1.cpp\<close>.  \<open>uint32\<close> is a 32-bit word and
  \<open>unsigned long\<close> a 64-bit word.  A buffer is a list of bytes, \<open>None\<close> where nothing has been written
  yet; a pointer into it is an index, and an access outside it is \<open>Out_Of_Bounds\<close>.  The two functions,
  on a buffer and on a stream, are compared with the message digest of RFC 1321.
\<close>

subsection \<open>The functions on words\<close>

definition F_md5 :: "u32 \<Rightarrow> u32 \<Rightarrow> u32 \<Rightarrow> u32" where
  "F_md5 x y z = (x AND y) OR (NOT x AND z)"

definition G_md5 :: "u32 \<Rightarrow> u32 \<Rightarrow> u32 \<Rightarrow> u32" where
  "G_md5 x y z = (x AND z) OR (y AND NOT z)"

definition H_md5 :: "u32 \<Rightarrow> u32 \<Rightarrow> u32 \<Rightarrow> u32" where
  "H_md5 x y z = x XOR y XOR z"

definition I_md5 :: "u32 \<Rightarrow> u32 \<Rightarrow> u32 \<Rightarrow> u32" where
  "I_md5 x y z = y XOR (x OR NOT z)"

definition rotate_left_md5 :: "u32 \<Rightarrow> nat \<Rightarrow> u32" where
  "rotate_left_md5 x n = push_bit n x OR drop_bit (32 - n) x"

text \<open>The reference parameter \<open>a\<close> is the result.\<close>

definition FF :: "u32 \<Rightarrow> u32 \<Rightarrow> u32 \<Rightarrow> u32 \<Rightarrow> u32 \<Rightarrow> nat \<Rightarrow> u32 \<Rightarrow> u32" where
  "FF a b c d x s ac = rotate_left_md5 (a + (F_md5 b c d + x + ac)) s + b"

definition GG :: "u32 \<Rightarrow> u32 \<Rightarrow> u32 \<Rightarrow> u32 \<Rightarrow> u32 \<Rightarrow> nat \<Rightarrow> u32 \<Rightarrow> u32" where
  "GG a b c d x s ac = rotate_left_md5 (a + (G_md5 b c d + x + ac)) s + b"

definition HH :: "u32 \<Rightarrow> u32 \<Rightarrow> u32 \<Rightarrow> u32 \<Rightarrow> u32 \<Rightarrow> nat \<Rightarrow> u32 \<Rightarrow> u32" where
  "HH a b c d x s ac = rotate_left_md5 (a + (H_md5 b c d + x + ac)) s + b"

definition II :: "u32 \<Rightarrow> u32 \<Rightarrow> u32 \<Rightarrow> u32 \<Rightarrow> u32 \<Rightarrow> nat \<Rightarrow> u32 \<Rightarrow> u32" where
  "II a b c d x s ac = rotate_left_md5 (a + (I_md5 b c d + x + ac)) s + b"

text \<open>
  \<open>scramble_block\<close>, round by round, with the constants \<open>S11\<close> to \<open>S44\<close> written out.  A statement such as
  \<open>FF (d, a, b, c, ...)\<close> changes the variable \<open>d\<close>: it is \<open>on_d FF ...\<close> on the state.
\<close>

type_synonym md5_state = "u32 \<times> u32 \<times> u32 \<times> u32"
type_synonym md5_op = "u32 \<Rightarrow> u32 \<Rightarrow> u32 \<Rightarrow> u32 \<Rightarrow> u32 \<Rightarrow> nat \<Rightarrow> u32 \<Rightarrow> u32"

fun on_a :: "md5_op \<Rightarrow> u32 \<Rightarrow> nat \<Rightarrow> u32 \<Rightarrow> md5_state \<Rightarrow> md5_state" where
  "on_a f x s ac (a, b, c, d) = (f a b c d x s ac, b, c, d)"

fun on_d :: "md5_op \<Rightarrow> u32 \<Rightarrow> nat \<Rightarrow> u32 \<Rightarrow> md5_state \<Rightarrow> md5_state" where
  "on_d f x s ac (a, b, c, d) = (a, b, c, f d a b c x s ac)"

fun on_c :: "md5_op \<Rightarrow> u32 \<Rightarrow> nat \<Rightarrow> u32 \<Rightarrow> md5_state \<Rightarrow> md5_state" where
  "on_c f x s ac (a, b, c, d) = (a, b, f c d a b x s ac, d)"

fun on_b :: "md5_op \<Rightarrow> u32 \<Rightarrow> nat \<Rightarrow> u32 \<Rightarrow> md5_state \<Rightarrow> md5_state" where
  "on_b f x s ac (a, b, c, d) = (a, f b c d a x s ac, c, d)"

definition round_1 :: "u32 list \<Rightarrow> md5_state \<Rightarrow> md5_state" where
  "round_1 x = fold (\<lambda>f. f)
    [on_a FF (x ! 0) 7 0xd76aa478, on_d FF (x ! 1) 12 0xe8c7b756,
     on_c FF (x ! 2) 17 0x242070db, on_b FF (x ! 3) 22 0xc1bdceee,
     on_a FF (x ! 4) 7 0xf57c0faf, on_d FF (x ! 5) 12 0x4787c62a,
     on_c FF (x ! 6) 17 0xa8304613, on_b FF (x ! 7) 22 0xfd469501,
     on_a FF (x ! 8) 7 0x698098d8, on_d FF (x ! 9) 12 0x8b44f7af,
     on_c FF (x ! 10) 17 0xffff5bb1, on_b FF (x ! 11) 22 0x895cd7be,
     on_a FF (x ! 12) 7 0x6b901122, on_d FF (x ! 13) 12 0xfd987193,
     on_c FF (x ! 14) 17 0xa679438e, on_b FF (x ! 15) 22 0x49b40821]"

definition round_2 :: "u32 list \<Rightarrow> md5_state \<Rightarrow> md5_state" where
  "round_2 x = fold (\<lambda>f. f)
    [on_a GG (x ! 1) 5 0xf61e2562, on_d GG (x ! 6) 9 0xc040b340,
     on_c GG (x ! 11) 14 0x265e5a51, on_b GG (x ! 0) 20 0xe9b6c7aa,
     on_a GG (x ! 5) 5 0xd62f105d, on_d GG (x ! 10) 9 0x2441453,
     on_c GG (x ! 15) 14 0xd8a1e681, on_b GG (x ! 4) 20 0xe7d3fbc8,
     on_a GG (x ! 9) 5 0x21e1cde6, on_d GG (x ! 14) 9 0xc33707d6,
     on_c GG (x ! 3) 14 0xf4d50d87, on_b GG (x ! 8) 20 0x455a14ed,
     on_a GG (x ! 13) 5 0xa9e3e905, on_d GG (x ! 2) 9 0xfcefa3f8,
     on_c GG (x ! 7) 14 0x676f02d9, on_b GG (x ! 12) 20 0x8d2a4c8a]"

definition round_3 :: "u32 list \<Rightarrow> md5_state \<Rightarrow> md5_state" where
  "round_3 x = fold (\<lambda>f. f)
    [on_a HH (x ! 5) 4 0xfffa3942, on_d HH (x ! 8) 11 0x8771f681,
     on_c HH (x ! 11) 16 0x6d9d6122, on_b HH (x ! 14) 23 0xfde5380c,
     on_a HH (x ! 1) 4 0xa4beea44, on_d HH (x ! 4) 11 0x4bdecfa9,
     on_c HH (x ! 7) 16 0xf6bb4b60, on_b HH (x ! 10) 23 0xbebfbc70,
     on_a HH (x ! 13) 4 0x289b7ec6, on_d HH (x ! 0) 11 0xeaa127fa,
     on_c HH (x ! 3) 16 0xd4ef3085, on_b HH (x ! 6) 23 0x4881d05,
     on_a HH (x ! 9) 4 0xd9d4d039, on_d HH (x ! 12) 11 0xe6db99e5,
     on_c HH (x ! 15) 16 0x1fa27cf8, on_b HH (x ! 2) 23 0xc4ac5665]"

definition round_4 :: "u32 list \<Rightarrow> md5_state \<Rightarrow> md5_state" where
  "round_4 x = fold (\<lambda>f. f)
    [on_a II (x ! 0) 6 0xf4292244, on_d II (x ! 7) 10 0x432aff97,
     on_c II (x ! 14) 15 0xab9423a7, on_b II (x ! 5) 21 0xfc93a039,
     on_a II (x ! 12) 6 0x655b59c3, on_d II (x ! 3) 10 0x8f0ccc92,
     on_c II (x ! 10) 15 0xffeff47d, on_b II (x ! 1) 21 0x85845dd1,
     on_a II (x ! 8) 6 0x6fa87e4f, on_d II (x ! 15) 10 0xfe2ce6e0,
     on_c II (x ! 6) 15 0xa3014314, on_b II (x ! 13) 21 0x4e0811a1,
     on_a II (x ! 4) 6 0xf7537e82, on_d II (x ! 11) 10 0xbd3af235,
     on_c II (x ! 2) 15 0x2ad7d2bb, on_b II (x ! 9) 21 0xeb86d391]"

definition scramble_block :: "u32 list \<Rightarrow> md5_state \<Rightarrow> md5_state" where
  "scramble_block x s = round_4 x (round_3 x (round_2 x (round_1 x s)))"

subsection \<open>Buffers\<close>

type_synonym buffer = "u8 option list"

definition write_at :: "nat \<Rightarrow> u8 \<Rightarrow> buffer \<Rightarrow> buffer c" where
  "write_at i b m = (if i < length m then Inr (m[i := Some b]) else Inl Out_Of_Bounds)"

definition read_at :: "buffer \<Rightarrow> nat \<Rightarrow> u8 c" where
  "read_at m i = (if i < length m then case m ! i of None \<Rightarrow> Inl Uninitialised | Some b \<Rightarrow> Inr b else Inl Out_Of_Bounds)"

lemma write_at_length: "write_at i b m = Inr m' \<Longrightarrow> i < length m \<and> length m' = length m"
  by (auto simp: write_at_def split: if_splits)

text \<open>The loop that copies the input into \<open>temp\<close>; \<open>temp2\<close> and \<open>input2\<close> advance together.\<close>

function copy_input :: "u8 list \<Rightarrow> nat \<Rightarrow> nat \<Rightarrow> buffer \<Rightarrow> buffer c" where
  "copy_input input temp2 stop m =
    (if temp2 = stop then Inr m
     else if \<not> temp2 < length input then Inl Out_Of_Bounds
     else c_bind (write_at temp2 (input ! temp2) m) (\<lambda>m. copy_input input (Suc temp2) stop m))"
  by pat_completeness auto
termination
  by (relation "measure (\<lambda>(input, temp2, stop, m). length m - temp2)") (auto dest: write_at_length)

text \<open>The loop that writes zeros; it ends at \<open>stop\<close> only if it meets it.\<close>

function md5_zero_fill :: "nat \<Rightarrow> nat \<Rightarrow> buffer \<Rightarrow> (nat \<times> buffer) c" where
  "md5_zero_fill temp2 stop m =
    (if temp2 = stop then Inr (temp2, m) else c_bind (write_at temp2 0 m) (\<lambda>m. md5_zero_fill (Suc temp2) stop m))"
  by pat_completeness auto
termination
  by (relation "measure (\<lambda>(temp2, stop, m). length m - temp2)") (auto dest: write_at_length)

declare copy_input.simps [simp del] md5_zero_fill.simps [simp del]

text \<open>The number of bits of the message, multiplied in the base 65536, and its bytes.\<close>

definition bit_length :: "u64 \<Rightarrow> u64 \<times> u64 \<times> u64" where
  "bit_length len =
    (let low = len AND 0xFFFF;
         high = drop_bit 16 len;
         tmp = low * 8;
         low = tmp AND 0xFFFF;
         tmp = high * 8 + drop_bit 16 tmp;
         high = tmp AND 0xFFFF;
         upper = drop_bit 16 tmp
     in (low, high, upper))"

fun write_bytes :: "nat \<Rightarrow> u8 list \<Rightarrow> buffer \<Rightarrow> buffer c" where
  "write_bytes temp2 [] m = Inr m"
| "write_bytes temp2 (b # bs) m = c_bind (write_at temp2 b m) (write_bytes (Suc temp2) bs)"

definition append_length :: "nat \<Rightarrow> u64 \<Rightarrow> buffer \<Rightarrow> buffer c" where
  "append_length temp2 len m =
    (let (low, high, upper) = bit_length len in
     write_bytes temp2
       [ucast (low AND 0xFF), ucast (drop_bit 8 low AND 0xFF), ucast (high AND 0xFF), ucast (drop_bit 8 high AND 0xFF),
        ucast (upper AND 0xFF), ucast (drop_bit 8 upper AND 0xFF), 0, 0] m)"

text \<open>Padding, from \<open>temp2\<close> to \<open>stop\<close>, and the length behind it.\<close>

definition md5_pad :: "nat \<Rightarrow> nat \<Rightarrow> u64 \<Rightarrow> buffer \<Rightarrow> buffer c" where
  "md5_pad temp2 stop len m =
    c_bind (write_at temp2 0x80 m) (\<lambda>m.
    c_bind (md5_zero_fill (Suc temp2) stop m) (\<lambda>(temp2, m).
    append_length temp2 len m))"

definition read_word :: "buffer \<Rightarrow> nat \<Rightarrow> u32 c" where
  "read_word m k =
    c_bind (read_at m (k + 3)) (\<lambda>b3. c_bind (read_at m (k + 2)) (\<lambda>b2.
    c_bind (read_at m (k + 1)) (\<lambda>b1. c_bind (read_at m k) (\<lambda>b0.
    Inr (push_bit 24 (ucast b3) OR push_bit 16 (ucast b2) OR push_bit 8 (ucast b1) OR ucast b0)))))"

fun read_words :: "buffer \<Rightarrow> nat \<Rightarrow> nat list \<Rightarrow> u32 list c" where
  "read_words m i [] = Inr []"
| "read_words m i (j # js) = c_bind (read_word m (4 * (j + 16 * i))) (\<lambda>w. c_bind (read_words m i js) (\<lambda>ws. Inr (w # ws)))"

text \<open>One block of 16 words: the body of the loops.\<close>

fun add_state :: "md5_state \<Rightarrow> md5_state \<Rightarrow> md5_state" where
  "add_state (a, b, c, d) (aa, bb, cc, dd) = (a + aa, b + bb, c + cc, d + dd)"

definition block_step :: "buffer \<Rightarrow> nat \<Rightarrow> md5_state \<Rightarrow> md5_state c" where
  "block_step m i s = c_bind (read_words m i [0..<16]) (\<lambda>x. Inr (add_state (scramble_block x s) s))"

fun block_loop :: "buffer \<Rightarrow> nat list \<Rightarrow> md5_state \<Rightarrow> md5_state c" where
  "block_loop m [] s = Inr s"
| "block_loop m (i # is) s = c_bind (block_step m i s) (block_loop m is)"

definition initial_state :: md5_state where
  "initial_state = (0x67452301, 0xefcdab89, 0x98badcfe, 0x10325476)"

definition word_bytes :: "u32 \<Rightarrow> u8 list" where
  "word_bytes a = [ucast (a AND 0xFF), ucast (drop_bit 8 a AND 0xFF), ucast (drop_bit 16 a AND 0xFF), ucast (drop_bit 24 a AND 0xFF)]"

fun put_output :: "md5_state \<Rightarrow> u8 list" where
  "put_output (a, b, c, d) = word_bytes a @ word_bytes b @ word_bytes c @ word_bytes d"

text \<open>\<open>md5 (input, len, output)\<close>; \<open>input\<close> has the bytes that can be read behind the pointer.\<close>

definition md5_buffer :: "u8 list \<Rightarrow> u64 \<Rightarrow> u8 list c" where
  "md5_buffer input len =
    (let extra_len = 64 - len mod 64;
         extra_len = (if extra_len \<le> 8 then extra_len + 64 else extra_len);
         temp = replicate (unat (extra_len + len)) None;
         N = (extra_len + len) div 64;
         stop = unat len
     in c_bind (copy_input input 0 stop temp) (\<lambda>temp.
        c_bind (md5_pad stop (stop + unat extra_len - 8) len temp) (\<lambda>temp.
        c_bind (block_loop temp [0..<unat N] initial_state) (\<lambda>s. Inr (put_output s)))))"

text \<open>
  \<open>md5 (istream, output)\<close>: \<open>sgetn\<close> writes up to 64 bytes over the start of \<open>temp\<close> and returns their
  number, which is less than 64 only at the end of the stream.
\<close>

function md5_stream_loop :: "u8 list \<Rightarrow> u64 \<Rightarrow> buffer \<Rightarrow> md5_state \<Rightarrow> md5_state c" where
  "md5_stream_loop input len temp s =
    (let num = min 64 (length input);
         temp = map Some (take num input) @ drop num temp;
         len = len + of_nat num
     in if num < 64
        then c_bind (md5_pad num 56 len temp) (\<lambda>temp. block_step temp 0 s)
        else c_bind (block_step temp 0 s) (md5_stream_loop (drop num input) len temp))"
  by pat_completeness auto
termination
  by (relation "measure (\<lambda>(input, len, temp, s). length input)") (auto simp: min_def split: if_splits)

declare md5_stream_loop.simps [simp del]

definition md5_stream :: "u8 list \<Rightarrow> u8 list c" where
  "md5_stream input = c_bind (md5_stream_loop input 0 (replicate 64 None) initial_state) (\<lambda>s. Inr (put_output s))"

text \<open>The two functions that return a string: two hexadecimal digits for a byte.\<close>

definition hex_char :: "nat \<Rightarrow> char" where
  "hex_char n = ''0123456789abcdef'' ! n"

definition hex_byte :: "u8 \<Rightarrow> string" where
  "hex_byte b = [hex_char (unat b div 16), hex_char (unat b mod 16)]"

definition md5_string :: "u8 list \<Rightarrow> string c" where
  "md5_string input = c_bind (md5_buffer input (of_nat (length input))) (\<lambda>out. Inr (concat (map hex_byte out)))"

definition md5_stream_string :: "u8 list \<Rightarrow> string c" where
  "md5_stream_string input = c_bind (md5_stream input) (\<lambda>out. Inr (concat (map hex_byte out)))"

subsection \<open>RFC 1321\<close>

text \<open>The table of the 64 constants of the RFC, its shifts, and one operation of its rounds.\<close>

definition md5_T :: "u32 list" where
  "md5_T = [
     0xd76aa478, 0xe8c7b756, 0x242070db, 0xc1bdceee, 0xf57c0faf, 0x4787c62a, 0xa8304613, 0xfd469501,
     0x698098d8, 0x8b44f7af, 0xffff5bb1, 0x895cd7be, 0x6b901122, 0xfd987193, 0xa679438e, 0x49b40821,
     0xf61e2562, 0xc040b340, 0x265e5a51, 0xe9b6c7aa, 0xd62f105d, 0x2441453, 0xd8a1e681, 0xe7d3fbc8,
     0x21e1cde6, 0xc33707d6, 0xf4d50d87, 0x455a14ed, 0xa9e3e905, 0xfcefa3f8, 0x676f02d9, 0x8d2a4c8a,
     0xfffa3942, 0x8771f681, 0x6d9d6122, 0xfde5380c, 0xa4beea44, 0x4bdecfa9, 0xf6bb4b60, 0xbebfbc70,
     0x289b7ec6, 0xeaa127fa, 0xd4ef3085, 0x4881d05, 0xd9d4d039, 0xe6db99e5, 0x1fa27cf8, 0xc4ac5665,
     0xf4292244, 0x432aff97, 0xab9423a7, 0xfc93a039, 0x655b59c3, 0x8f0ccc92, 0xffeff47d, 0x85845dd1,
     0x6fa87e4f, 0xfe2ce6e0, 0xa3014314, 0x4e0811a1, 0xf7537e82, 0xbd3af235, 0x2ad7d2bb, 0xeb86d391]"

definition md5_shift :: "nat \<Rightarrow> nat" where
  "md5_shift i = [[7, 12, 17, 22], [5, 9, 14, 20], [4, 11, 16, 23], [6, 10, 15, 21]] ! (i div 16) ! (i mod 4)"

definition md5_mix :: "nat \<Rightarrow> u32 \<Rightarrow> u32 \<Rightarrow> u32 \<Rightarrow> u32" where
  "md5_mix i = [F_md5, G_md5, H_md5, I_md5] ! (i div 16)"

definition md5_index :: "nat \<Rightarrow> nat" where
  "md5_index i = [i, 5 * i + 1, 3 * i + 5, 7 * i] ! (i div 16) mod 16"

fun md5_operation :: "u32 list \<Rightarrow> nat \<Rightarrow> md5_state \<Rightarrow> md5_state" where
  "md5_operation x i (a, b, c, d) =
    (d, b + rotate_left_md5 (a + md5_mix i b c d + x ! md5_index i + md5_T ! i) (md5_shift i), b, c)"

definition le_word :: "u8 list \<Rightarrow> u32" where
  "le_word bs = foldr (\<lambda>b w. ucast b + 256 * w) bs 0"

definition le_words :: "u8 list \<Rightarrow> u32 list" where
  "le_words bs = map (\<lambda>j. le_word (take 4 (drop (4 * j) bs))) [0..<16]"

definition rfc_block :: "u8 list \<Rightarrow> md5_state \<Rightarrow> md5_state" where
  "rfc_block bs s = add_state (fold (md5_operation (le_words bs)) [0..<64] s) s"

definition rfc_padded :: "u8 list \<Rightarrow> u8 list" where
  "rfc_padded msg = msg @ [0x80] @ replicate ((119 - length msg mod 64) mod 64) 0 @
     map (\<lambda>i. ucast (drop_bit (8 * i) (of_nat (8 * length msg) :: u64))) [0..<8]"

function rfc_blocks :: "u8 list \<Rightarrow> md5_state \<Rightarrow> md5_state" where
  "rfc_blocks bs s = (if bs = [] then s else rfc_blocks (drop 64 bs) (rfc_block (take 64 bs) s))"
  by pat_completeness auto
termination
  by (relation "measure (\<lambda>(bs, s). length bs)") auto

declare rfc_blocks.simps [simp del]

definition rfc_md5 :: "u8 list \<Rightarrow> u8 list" where
  "rfc_md5 msg = put_output (rfc_blocks (rfc_padded msg) initial_state)"

subsection \<open>The rounds\<close>

text \<open>The operation of a round with the constants of the RFC, as a statement of the code.\<close>

definition mixing :: "(u32 \<Rightarrow> u32 \<Rightarrow> u32 \<Rightarrow> u32) \<Rightarrow> md5_op" where
  "mixing f a b c d x s ac = rotate_left_md5 (a + (f b c d + x + ac)) s + b"

lemma mixing_simps: "FF = mixing F_md5" "GG = mixing G_md5" "HH = mixing H_md5" "II = mixing I_md5"
  by (intro ext; simp add: mixing_def FF_def GG_def HH_def II_def)+

lemma four_operations:
  "md5_operation x l (md5_operation x k (md5_operation x j (md5_operation x i s))) =
    on_b (mixing (md5_mix l)) (x ! md5_index l) (md5_shift l) (md5_T ! l)
     (on_c (mixing (md5_mix k)) (x ! md5_index k) (md5_shift k) (md5_T ! k)
      (on_d (mixing (md5_mix j)) (x ! md5_index j) (md5_shift j) (md5_T ! j)
       (on_a (mixing (md5_mix i)) (x ! md5_index i) (md5_shift i) (md5_T ! i) s)))"
  by (cases s) (simp add: mixing_def ac_simps)

text \<open>A round of the RFC, from its operation \<open>k\<close> on.\<close>

lemma round_upt: "[k..<k + 16] = [k, k + 1, k + 2, k + 3, k + 4, k + 5, k + 6, k + 7, k + 8, k + 9, k + 10, k + 11, k + 12, k + 13, k + 14, k + 15]"
  by (simp add: upt_rec)

lemmas round_simps = round_upt four_operations mixing_simps md5_mix_def md5_index_def md5_shift_def md5_T_def

lemma rounds:
  "fold (md5_operation x) [0..<16] s = round_1 x s" "fold (md5_operation x) [16..<32] s = round_2 x s"
  "fold (md5_operation x) [32..<48] s = round_3 x s" "fold (md5_operation x) [48..<64] s = round_4 x s"
proof -
  have "[0..<16] = [0, 1, 2, 3, 4, 5, 6, 7, 8, 9, 10, 11, 12, 13, 14, 15 :: nat]" by (simp add: upt_rec)
  then show "fold (md5_operation x) [0..<16] s = round_1 x s" by (simp add: round_simps round_1_def del: upt_rec_numeral)
qed (use round_upt [of 16] round_upt [of 32] round_upt [of 48] in \<open>simp_all add: round_simps round_2_def round_3_def round_4_def\<close>)

lemma scramble_block_rfc: "scramble_block x s = fold (md5_operation x) [0..<64] s"
proof -
  have "[0..<64] = [0..<16] @ [16..<32] @ [32..<48] @ [48..<64::nat]"
    using upt_add_eq_append [of 0 16 48] upt_add_eq_append [of 16 32 32] upt_add_eq_append [of 32 48 16] by simp
  then show ?thesis by (simp only: scramble_block_def fold_append o_apply rounds)
qed

subsection \<open>Buffers\<close>

lemma write_at_split: "i < length m \<Longrightarrow> write_at i b m = Inr (take i m @ Some b # drop (Suc i) m)"
  by (simp add: write_at_def upd_conv_take_nth_drop)

lemma written_parts:
  assumes "i < length m"
  shows "take (Suc i) (take i m @ x # drop (Suc i) m) = take i m @ [x]"
    "i < k \<Longrightarrow> drop k (take i m @ x # drop (Suc i) m) = drop k m"
proof -
  show "take (Suc i) (take i m @ x # drop (Suc i) m) = take i m @ [x]" using assms by (simp add: min_def)
  show "drop k (take i m @ x # drop (Suc i) m) = drop k m" if "i < k"
    using that assms drop_update_cancel [of i k m x] by (simp add: upd_conv_take_nth_drop)
qed

lemma md5_zero_fill_ok:
  assumes "t \<le> stop" "stop \<le> length m"
  shows "md5_zero_fill t stop m = Inr (stop, take t m @ replicate (stop - t) (Some 0) @ drop stop m)"
  using assms
proof (induction t stop m rule: md5_zero_fill.induct)
  case (1 t stop m)
  show ?case
  proof (cases "t = stop")
    case False
    let ?m = "take t m @ Some 0 # drop (Suc t) m"
    have w: "write_at t 0 m = Inr ?m" using False 1(2,3) by (simp add: write_at_split)
    have "replicate (stop - t) (Some (0 :: u8)) = Some 0 # replicate (stop - Suc t) (Some 0)" using False 1(2) by (cases "stop - t") auto
    moreover have "take (Suc t) ?m = take t m @ [Some 0]" "drop stop ?m = drop stop m" using False 1(2,3) by (intro written_parts; simp)+
    ultimately show ?thesis using 1(1) [OF False w] w False 1(2,3) by (subst md5_zero_fill.simps) simp
  qed (simp add: md5_zero_fill.simps)
qed

lemma md5_zero_fill_overflow:
  assumes "stop < t" "t \<le> length m"
  shows "md5_zero_fill t stop m = Inl Out_Of_Bounds"
  using assms
proof (induction t stop m rule: md5_zero_fill.induct)
  case (1 t stop m)
  show ?case
  proof (cases "t < length m")
    case True
    then show ?thesis using 1 by (subst md5_zero_fill.simps) (simp add: write_at_split)
  next
    case False
    then show ?thesis using 1(2) by (subst md5_zero_fill.simps) (simp add: write_at_def)
  qed
qed

lemma copy_input_ok:
  assumes "t \<le> stop" "stop \<le> length m" "stop \<le> length input"
  shows "copy_input input t stop m = Inr (take t m @ map Some (take (stop - t) (drop t input)) @ drop stop m)"
  using assms
proof (induction input t stop m rule: copy_input.induct)
  case (1 input t stop m)
  show ?case
  proof (cases "t = stop")
    case False
    let ?m = "take t m @ Some (input ! t) # drop (Suc t) m"
    have t: "t < length input" "\<not> \<not> t < length input" and w: "write_at t (input ! t) m = Inr ?m" using False 1(2-4) by (simp_all add: write_at_split)
    have "take (stop - t) (drop t input) = input ! t # take (stop - Suc t) (drop (Suc t) input)"
      using False 1(2) t(1) Suc_diff_Suc [of t stop] by (simp flip: Cons_nth_drop_Suc Suc_diff_Suc)
    moreover have "take (Suc t) ?m = take t m @ [Some (input ! t)]" "drop stop ?m = drop stop m" using False 1(2,3) by (intro written_parts; simp)+
    ultimately show ?thesis using 1(1) [OF False t(2) w] w False t(1) 1(2-4) by (subst copy_input.simps) simp
  qed (simp add: copy_input.simps)
qed

lemma write_bytes_ok: "t + length bs \<le> length m \<Longrightarrow> write_bytes t bs m = Inr (take t m @ map Some bs @ drop (t + length bs) m)"
proof (induction bs arbitrary: t m)
  case (Cons b bs)
  then show ?case using Cons.IH [of "Suc t" "take t m @ Some b # drop (Suc t) m"] by (simp add: write_at_split written_parts add.commute)
qed simp

subsection \<open>The length\<close>

definition length_bytes :: "nat \<Rightarrow> u8 list" where
  "length_bytes n = map (\<lambda>i. ucast (drop_bit (8 * i) (of_nat (8 * n) :: u64))) [0..<8]"

lemma unat_drop: "unat (drop_bit k (w :: u64)) = unat w div 2 ^ k"
  using unsigned_less [of w, where 'a = nat] by (subst unsigned_drop_bit_eq) (simp add: drop_bit_eq_div take_bit_nat_eq_self)

lemma unat_byte: "unat (ucast (w :: u64) :: u8) = unat w mod 256"
  by (simp add: unsigned_ucast_eq take_bit_eq_mod)

lemma unat_masked: "unat (w AND 0xFFFF :: u64) = unat w mod 65536" "unat (w AND 0xFF) = unat w mod 256"
proof -
  have "(0xFFFF :: u64) = mask 16" "(0xFF :: u64) = mask 8" by (simp_all add: mask_eq_exp_minus_1)
  then show "unat (w AND 0xFFFF :: u64) = unat w mod 65536" "unat (w AND 0xFF) = unat w mod 256"
    by (simp_all only: take_bit_eq_mask [symmetric] unsigned_take_bit_eq) (simp_all add: take_bit_eq_mod)
qed

lemma bit_length_nat:
  assumes "n < 2 ^ 45"
  shows "bit_length (of_nat n) = (of_nat (8 * n mod 65536), of_nat (8 * n div 65536 mod 65536), of_nat (8 * n div 4294967296))"
proof -
  let ?len = "of_nat n :: u64"
  have n: "unat ?len = n" using assms by (simp add: unat_of_nat take_bit_eq_mod)
  have tmp: "unat ((?len AND 0xFFFF) * 8) = 8 * (n mod 65536)"
    by (subst unat_mult_lem [THEN iffD1]) (simp_all add: unat_masked n)
  have split: "8 * n = 65536 * (8 * (n div 65536)) + 8 * (n mod 65536)" using div_mult_mod_eq [of n 65536] by linarith
  have s: "unat (drop_bit 16 ?len * 8 + drop_bit 16 ((?len AND 0xFFFF) * 8)) = 8 * n div 65536"
  proof -
    have a: "unat (drop_bit 16 ?len * 8) = 8 * (n div 65536)"
      using assms by (subst unat_mult_lem [THEN iffD1]) (simp_all add: unat_drop n div_less_iff_less_mult)
    have "8 * n div 65536 = 8 * (n div 65536) + 8 * (n mod 65536) div 65536" by (subst split) simp
    moreover have "8 * n div 65536 < 2 ^ 64" using assms by simp
    ultimately show ?thesis using a tmp
      by (subst unat_add_lem [THEN iffD1]) (simp_all add: unat_drop)
  qed
  have "8 * (n mod 65536) mod 65536 = 8 * n mod 65536" by (simp add: mod_mult_right_eq)
  then show ?thesis using s tmp assms
    by (simp add: bit_length_def Let_def word_unat_eq_iff unat_masked unat_drop unat_of_nat take_bit_eq_mod flip: div_mult2_eq)
qed

lemma unat_u64: "k < 2 ^ 64 \<Longrightarrow> unat (of_nat k :: u64) = k"
  by (simp add: unat_of_nat take_bit_eq_mod)

lemma upt_8: "[0..<8] = [0, 1, 2, 3, 4, 5, 6, 7 :: nat]"
  by (simp add: upt_rec)

lemma u8_of_digit:
  "ucast (of_nat (x mod 65536) AND 0xFF :: u64) = (of_nat x :: u8)"
  "ucast (drop_bit 8 (of_nat (x mod 65536)) AND 0xFF :: u64) = (of_nat (x div 256) :: u8)"
proof -
  have "x mod 65536 < 2 ^ 64" by (rule less_trans [OF mod_less_divisor]) simp_all
  note x = unat_u64 [OF this]
  have "x mod 65536 mod 256 = x mod 256" "x mod 65536 div 256 mod 256 = x div 256 mod 256"
    using mod_mult2_eq [of x 256 256] by simp_all
  then show "ucast (of_nat (x mod 65536) AND 0xFF :: u64) = (of_nat x :: u8)"
    "ucast (drop_bit 8 (of_nat (x mod 65536)) AND 0xFF :: u64) = (of_nat (x div 256) :: u8)"
    by (simp_all add: word_unat_eq_iff unat_byte unat_masked unat_drop x unat_of_nat take_bit_eq_mod)
qed

lemma append_length_ok:
  assumes "n < 2 ^ 45" "t + 8 \<le> length m"
  shows "append_length t (of_nat n) m = Inr (take t m @ map Some (length_bytes n) @ drop (t + 8) m)"
proof -
  define x where "x = 8 * n"
  let ?b = "\<lambda>k. of_nat (x div k) :: u8"
  have lt: "x < 2 ^ 48" using assms(1) by (simp add: x_def)
  have x: "unat (of_nat x :: u64) = x" using lt by (intro unat_u64) simp
  have "ucast (drop_bit k (of_nat x :: u64)) = ?b (2 ^ k)" for k
    by (simp only: word_unat_eq_iff unat_byte unat_drop x) (simp add: unat_of_nat take_bit_eq_mod)
  moreover have "x div 2 ^ 48 = 0" "x div 2 ^ 56 = 0" using lt by simp_all
  ultimately have l: "length_bytes n = [?b 1, ?b (2 ^ 8), ?b (2 ^ 16), ?b (2 ^ 24), ?b (2 ^ 32), ?b (2 ^ 40), 0, 0]"
    unfolding length_bytes_def upt_8 x_def [symmetric] by simp
  have "x div 4294967296 mod 65536 = x div 4294967296" using lt by simp
  then have b: "bit_length (of_nat n) = (of_nat (x mod 65536), of_nat (x div 65536 mod 65536), of_nat (x div 4294967296 mod 65536))"
    using bit_length_nat [OF assms(1)] by (simp add: x_def)
  have "append_length t (of_nat n) m = write_bytes t (length_bytes n) m"
    unfolding append_length_def b l Let_def prod.case u8_of_digit by (simp flip: div_mult2_eq)
  also have "\<dots> = Inr (take t m @ map Some (length_bytes n) @ drop (t + length (length_bytes n)) m)"
    using assms(2) by (intro write_bytes_ok) (simp add: length_bytes_def)
  finally show ?thesis by (simp add: length_bytes_def)
qed

lemma length_length_bytes [simp]: "length (length_bytes n) = 8"
  by (simp add: length_bytes_def)

text \<open>Padding succeeds when the message leaves room for it, and runs out of the buffer otherwise.\<close>

lemma md5_pad_ok:
  assumes "n < 2 ^ 45" "t < stop" "stop + 8 = length m"
  shows "md5_pad t stop (of_nat n) m = Inr (take t m @ map Some (0x80 # replicate (stop - Suc t) 0 @ length_bytes n))"
proof -
  let ?m = "take t m @ Some 0x80 # drop (Suc t) m"
  have "md5_zero_fill (Suc t) stop ?m = Inr (stop, take t m @ Some 0x80 # replicate (stop - Suc t) (Some 0) @ drop stop m)"
  proof -
    have p: "take (Suc t) ?m = take t m @ [Some 0x80]" "drop stop ?m = drop stop m" using assms(2,3) by (intro written_parts; simp)+
    have "Suc t \<le> stop" "stop \<le> length ?m" using assms(2,3) by simp_all
    from md5_zero_fill_ok [OF this] show ?thesis by (simp only: p append_assoc append_Cons append_Nil)
  qed
  moreover have "stop - t = Suc (stop - Suc t)" using assms(2) by simp
  ultimately show ?thesis using assms
    by (simp add: md5_pad_def write_at_split append_length_ok map_replicate_const)
qed

lemma md5_pad_overflow:
  assumes "stop \<le> t" "t < length m"
  shows "md5_pad t stop len m = Inl Out_Of_Bounds"
  using assms by (simp add: md5_pad_def write_at_split md5_zero_fill_overflow)

subsection \<open>Blocks\<close>

lemma word_of_bytes:
  "push_bit 24 (ucast b3) OR push_bit 16 (ucast b2) OR push_bit 8 (ucast b1) OR (ucast (b0 :: u8) :: u32) = le_word [b0, b1, b2, b3]"
proof -
  have step: "push_bit 8 w OR ucast b = (ucast (b :: u8) + 256 * w :: u32)" for b w
  proof -
    have "push_bit 8 w OR ucast b = push_bit 8 w + (ucast b :: u32)"
      by (rule disjunctive_add [symmetric]) (auto simp: bit_simps dest: bit_imp_le_length)
    then show ?thesis by (simp add: push_bit_eq_mult)
  qed
  have "push_bit 24 (ucast b3) OR push_bit 16 (ucast b2) OR push_bit 8 (ucast b1) OR (ucast b0 :: u32) =
    push_bit 8 (push_bit 8 (push_bit 8 (ucast b3) OR ucast b2) OR ucast b1) OR ucast b0"
    by (simp add: push_bit_or or.assoc)
  then show ?thesis by (simp add: step le_word_def)
qed

lemma read_word_ok:
  assumes "k + 4 \<le> length bs"
  shows "read_word (map Some bs) k = Inr (le_word (take 4 (drop k bs)))"
proof -
  have "take 4 (drop k bs) = [bs ! k, bs ! (k + 1), bs ! (k + 2), bs ! (k + 3)]"
    using assms by (intro nth_equalityI) (auto simp: less_Suc_eq numeral_eq_Suc)
  then show ?thesis using assms by (simp add: read_word_def read_at_def word_of_bytes)
qed

lemma read_words_ok:
  assumes "\<forall>j \<in> set js. j < 16" "64 * i + 64 \<le> length bs"
  shows "read_words (map Some bs) i js = Inr (map (\<lambda>j. le_word (take 4 (drop (4 * j) (take 64 (drop (64 * i) bs))))) js)"
  using assms(1)
proof (induction js)
  case (Cons j js)
  have "take 4 (drop (4 * j) (take 64 (drop (64 * i) bs))) = take 4 (drop (4 * (j + 16 * i)) bs)"
  proof -
    have "min 4 (64 - 4 * j) = 4" using Cons.prems by auto
    then show ?thesis by (simp add: drop_take add.commute)
  qed
  then show ?case using Cons assms(2) by (simp add: read_word_ok)
qed simp

lemma block_step_ok:
  assumes "64 * i + 64 \<le> length bs"
  shows "block_step (map Some bs) i s = Inr (rfc_block (take 64 (drop (64 * i) bs)) s)"
  using read_words_ok [of "[0..<16]" i bs] assms by (simp add: block_step_def rfc_block_def le_words_def scramble_block_rfc del: upt_rec_numeral)

lemma block_loop_ok:
  assumes "length bs = 64 * n" "i \<le> n"
  shows "block_loop (map Some bs) [i..<n] s = Inr (rfc_blocks (drop (64 * i) bs) s)"
  using assms(2)
proof (induction "n - i" arbitrary: i s)
  case 0
  then show ?case using assms(1) by (simp add: rfc_blocks.simps)
next
  case (Suc k)
  then have i: "i < n" by simp
  then have "block_loop (map Some bs) [i..<n] s = block_loop (map Some bs) [Suc i..<n] (rfc_block (take 64 (drop (64 * i) bs)) s)"
    using block_step_ok [of i bs] assms(1) by (simp add: upt_conv_Cons)
  also have "\<dots> = Inr (rfc_blocks (drop (64 * Suc i) bs) (rfc_block (take 64 (drop (64 * i) bs)) s))" using Suc i by simp
  also have "\<dots> = Inr (rfc_blocks (drop (64 * i) bs) s)" using i assms(1) by (subst (2) rfc_blocks.simps) (simp add: add.commute)
  finally show ?case .
qed

subsection \<open>The digest\<close>

lemma padding_zeros: "r < 64 \<Longrightarrow> (119 - r) mod 64 = (if r < 56 then 55 - r else 119 - r :: nat)"
proof (cases "r < 56")
  case True
  then have "119 - r = 64 + (55 - r)" by simp
  then show ?thesis using True by (simp only: mod_add_self1) simp
qed simp

lemma length_rfc_padded: "length (rfc_padded msg) mod 64 = 0"
proof -
  define q r where "q = length msg div 64" "r = length msg mod 64"
  then have "length msg = 64 * q + r" "r < 64" by simp_all
  then have "length (rfc_padded msg) = 64 * (if r < 56 then q + 1 else q + 2)"
    by (simp add: rfc_padded_def padding_zeros)
  then show ?thesis by simp
qed

lemma rfc_padded_bytes: "rfc_padded msg = msg @ 0x80 # replicate ((119 - length msg mod 64) mod 64) 0 @ length_bytes (length msg)"
  by (simp add: rfc_padded_def length_bytes_def)

text \<open>The last block of the stream and the blocks before it.\<close>

lemma rfc_blocks_step: "64 \<le> length bs \<Longrightarrow> rfc_blocks (bs @ cs) s = rfc_blocks (drop 64 bs @ cs) (rfc_block (take 64 bs) s)"
  by (subst rfc_blocks.simps) auto

lemma rfc_blocks_last: "length bs = 64 \<Longrightarrow> rfc_blocks bs s = rfc_block bs s"
  by (subst rfc_blocks.simps) (auto simp: rfc_blocks.simps)

lemma md5_stream_loop_ok:
  assumes "n = k + length input" "64 dvd k" "n < 2 ^ 45" "length temp = 64"
  shows "md5_stream_loop input (of_nat k) temp s =
    (if n mod 64 < 56 then Inr (rfc_blocks (input @ 0x80 # replicate ((119 - n mod 64) mod 64) 0 @ length_bytes n) s) else Inl Out_Of_Bounds)"
  using assms(1,2,4)
proof (induction "length input" arbitrary: input k temp s rule: less_induct)
  case less
  let ?temp = "\<lambda>j. map Some (take j input) @ drop j temp"
  have k: "n mod 64 = length input mod 64" using less.prems(1,2) by (auto simp: dvd_def)
  have len: "(of_nat k :: u64) + of_nat j = of_nat (k + j)" for j by simp
  show ?case
  proof (cases "length input < 64")
    case True
    let ?n = "length input"
    have n: "n mod 64 = ?n" "(119 - ?n) mod 64 = 55 - ?n" if "?n < 56"
      using k True that by (simp_all add: padding_zeros)
    show ?thesis
    proof (cases "?n < 56")
      case True
      have "md5_pad ?n 56 (of_nat n) (?temp ?n) = Inr (map Some (input @ 0x80 # replicate (55 - ?n) 0 @ length_bytes n))"
        using True assms(3) less.prems(3) by (subst md5_pad_ok) simp_all
      then show ?thesis using n True block_step_ok [of 0 "input @ 0x80 # replicate (55 - ?n) 0 @ length_bytes n" s] less.prems(1)
        by (subst md5_stream_loop.simps) (simp add: len rfc_blocks_last Let_def del: of_nat_add)
    next
      case False
      then show ?thesis using k \<open>length input < 64\<close> less.prems(3) md5_pad_overflow [of 56 ?n "?temp ?n"]
        by (subst md5_stream_loop.simps) (simp add: Let_def)
    qed
  next
    case False
    have "md5_stream_loop input (of_nat k) temp s = md5_stream_loop (drop 64 input) (of_nat (k + 64)) (map Some (take 64 input)) (rfc_block (take 64 input) s)"
      using False less.prems(3) block_step_ok [of 0 "take 64 input" s] by (subst md5_stream_loop.simps) (simp add: Let_def min_def)
    also have "\<dots> = (if n mod 64 < 56 then Inr (rfc_blocks (drop 64 input @ 0x80 # replicate ((119 - n mod 64) mod 64) 0 @ length_bytes n)
        (rfc_block (take 64 input) s)) else Inl Out_Of_Bounds)"
      using False less.prems by (intro less.hyps) (simp_all add: min_def)
    finally show ?thesis using False by (simp add: rfc_blocks_step)
  qed
qed

text \<open>The buffer that the function on a buffer makes is the padded message.\<close>

lemma md5_buffer_ok:
  assumes "length input < 2 ^ 45"
  shows "md5_buffer input (of_nat (length input)) = Inr (rfc_md5 input)"
proof -
  let ?n = "length input" and ?len = "of_nat (length input) :: u64"
  define r where "r = ?n mod 64"
  define extra where "extra = (if r < 56 then 64 - r else 128 - r)"
  have r: "r < 64" and e: "9 \<le> extra" "extra \<le> 72" unfolding r_def extra_def by (auto split: if_splits)
  have len: "unat ?len = ?n" using assms by (intro unat_u64) simp
  have "unat (?len mod 64) = r" by (simp add: unat_mod len r_def)
  then have m: "unat (64 - ?len mod 64) = 64 - r" using r by (simp add: unat_sub word_le_nat_alt)
  have x: "(if 64 - ?len mod 64 \<le> 8 then 64 - ?len mod 64 + 64 else 64 - ?len mod 64) = of_nat extra"
  proof -
    have "(if w \<le> 8 then w + 64 else w) = of_nat extra" if "unat w = 64 - r" for w :: u64
    proof -
      have "extra = (if unat w \<le> 8 then unat w + 64 else unat w)" using that r by (auto simp: extra_def)
      then show ?thesis by (simp add: word_le_nat_alt)
    qed
    then show ?thesis using m .
  qed
  have sum: "unat (of_nat extra + ?len) = extra + ?n" using unat_u64 [of "extra + ?n"] assms e by simp
  let ?bs = "rfc_padded input"
  have l: "length ?bs = extra + ?n" using r by (simp add: rfc_padded_def padding_zeros extra_def flip: r_def)
  have "copy_input input 0 ?n (replicate (extra + ?n) None) = Inr (map Some input @ replicate extra None)"
    using copy_input_ok [of 0 ?n "replicate (extra + ?n) None" input] by simp
  moreover have "md5_pad ?n (?n + extra - 8) ?len (map Some input @ replicate extra None) = Inr (map Some ?bs)"
    using assms e r by (subst md5_pad_ok) (auto simp: rfc_padded_bytes padding_zeros extra_def simp flip: r_def)
  moreover have "block_loop (map Some ?bs) [0..<(extra + ?n) div 64] initial_state = Inr (rfc_blocks ?bs initial_state)"
    using block_loop_ok [of ?bs "(extra + ?n) div 64" 0 initial_state] length_rfc_padded [of input] l by (simp add: dvd_eq_mod_eq_0)
  ultimately show ?thesis using e
    by (simp add: md5_buffer_def Let_def x len sum unat_div unat_u64 rfc_md5_def)
qed

text \<open>A test value of the RFC, the digest of \<open>abc\<close>.\<close>

lemmas md5_words = round_1_def round_2_def round_3_def round_4_def FF_def GG_def HH_def II_def
  F_md5_def G_md5_def H_md5_def I_md5_def rotate_left_md5_def

lemma scramble_abc: "scramble_block [0x80636261, 0, 0, 0, 0, 0, 0, 0, 0, 0, 0, 0, 0, 0, 24, 0] initial_state =
    (0x310ade8f, 0xc08226b3, 0xe484b9d8, 0x624d8cb2)"
  by (simp add: scramble_block_def initial_state_def md5_words)

lemma md5_abc: "md5_string [97, 98, 99] = Inr ''900150983cd24fb0d6963f7d28e17f72''"
proof -
  have "length_bytes 3 = [24, 0, 0, 0, 0, 0, 0, 0]" unfolding length_bytes_def upt_8 by simp
  then have p: "rfc_padded [97, 98, 99] = [97, 98, 99, 0x80] @ replicate 52 0 @ [24, 0, 0, 0, 0, 0, 0, 0]"
    by (simp add: rfc_padded_bytes flip: numeral_3_eq_3)
  have "length (rfc_padded [97, 98, 99]) = 64" unfolding p by simp
  note b = rfc_blocks_last [OF this]
  have "le_words (rfc_padded [97, 98, 99]) = [0x80636261, 0, 0, 0, 0, 0, 0, 0, 0, 0, 0, 0, 0, 0, 24, 0]"
    unfolding p by (simp add: le_words_def le_word_def replicate_rec upt_rec)
  then have "rfc_md5 [97, 98, 99] = put_output (add_state (0x310ade8f, 0xc08226b3, 0xe484b9d8, 0x624d8cb2) initial_state)"
    by (simp only: rfc_md5_def b rfc_block_def scramble_block_rfc [symmetric] scramble_abc)
  then show ?thesis
    using md5_buffer_ok [of "[97, 98, 99]"] by (simp add: md5_string_def initial_state_def word_bytes_def hex_byte_def hex_char_def)
qed

text \<open>
  C16. The digest of a buffer is the MD5 of RFC 1321, for every message of fewer than \<open>2 ^ 45\<close> bytes, and
  the function reads and writes inside its buffers.  The digest of a stream with the same bytes is the
  same when their number is less than 56 modulo 64; for every other number the loop that pads the last
  block passes the end of the array of 64 bytes.
\<close>

theorem md5_correct:
  assumes "length input < 2 ^ 45"
  shows "md5_buffer input (of_nat (length input)) = Inr (rfc_md5 input) \<and>
    md5_stream input = (if length input mod 64 < 56 then Inr (rfc_md5 input) else Inl Out_Of_Bounds)"
proof
  show "md5_stream input = (if length input mod 64 < 56 then Inr (rfc_md5 input) else Inl Out_Of_Bounds)"
    using md5_stream_loop_ok [of "length input" 0 input "replicate 64 None" initial_state] assms
    by (simp add: md5_stream_def rfc_md5_def rfc_padded_bytes)
qed (rule md5_buffer_ok [OF assms])

theorem md5_correct_witness:
  "md5_buffer [97, 98, 99] 3 = Inr (rfc_md5 [97, 98, 99]) \<and> md5_stream [97, 98, 99] = Inr (rfc_md5 [97, 98, 99]) \<and>
   md5_stream (replicate 56 0) = Inl Out_Of_Bounds"
  using md5_correct [of "[97, 98, 99]"] md5_correct [of "replicate 56 0"] by simp

end
