(* ===== verification/Spec2Isabelle.thy ===== *)
theory Spec2Isabelle
  imports Geohash_Helper Rgeohash Tcpclient Mill_Server Tiny_Hashtable Netfilter Set_Map_Kernel
    Lz_Buffers Queue_Kernel Compress_Stream Compress_Lzp Base64 Sort_Array
    Bigint_Division Bigint_Text Bit_Coder Conditioning_Class_3 Md5
begin

text \<open>
  \<^bold>\<open>What is verified.\<close>  The repository is a collection of small C programs, and of C++ programs over
  the vendored library dlib.  The programs with logic of their own are modelled here, together with
  the kernels of dlib that hold state and keep invariants: containers, compression, sorting, big integers.

  \<^bold>\<open>Conventions.\<close>  A C function becomes a function that returns \<open>'a c\<close>, a sum whose left side names
  the undefined behaviour that the code reaches (\<open>Null_Deref\<close>, \<open>Out_Of_Bounds\<close>, \<open>Bad_Shift\<close>,
  \<open>Stale_Pointer\<close>, ...); \<open>c_bind\<close> sequences such computations (theory \<open>Prelude\<close>).  Unsigned
  integers are words of their width and wrap around; the overflow of an \<open>int\<close> is \<open>Signed_Overflow\<close>.  Output parameters are returned.  A loop that
  may run for ever is a partial function into \<open>option\<close>, where \<open>None\<close> is divergence; every other
  loop is a total function.  Doubles are real numbers, with the rounding of each operation as an
  argument \<open>fl\<close> that satisfies the locale \<open>rounding\<close> (theory \<open>Rounding\<close>), or \<open>double_rounding\<close>, which adds
  the relative error of at most $2^{-53}$; both locales are interpreted for exact arithmetic and for
  round-to-nearest-even of 53 bits.  What is not in the repository (libm,
  the kernel's checksum routines, sockets, the memory allocator) is an argument of the model.

  \<^bold>\<open>Geohash (src/redis).\<close>
  \<^item> \<open>Bit_Spread\<close> holds the mathematics of bit interleaving by shifts and masks.
  \<^item> \<open>Geohash\<close> models \<open>geohash.c\<close> and \<open>geohash.h\<close>.  Interleaving is a bijection; the neighbour
    function moves by one cell on the torus of $2^{step}$ rows and columns; the encoder is total on the
    points it accepts up to 30 bits, its row and column grow with the coordinates, and decoding gives an area
    that contains the point up to $2^{-48}$ of the greatest coordinate, which is what the rounding of doubles
    costs.  At 31 and 32 bits the encoder shifts out of range, and on the upper borders it leaves the grid,
    which is proved too.
  \<^item> \<open>Geohash_Helper\<close> models \<open>geohash_helper.c\<close>: the estimate of the precision terminates within
    1 to 26 bits, and the distance is symmetric, bounded and zero on equal points.
  \<^item> \<open>Rgeohash\<close> models \<open>rgeohash.c\<close>: the text form, and the error of a round trip in double arithmetic.

  \<^bold>\<open>Network programs.\<close>
  \<^item> \<open>Tcpclient\<close> models the buffer and the read loops of \<open>src/servers/tcpclient.c\<close> against a peer that
    delivers the stream in arbitrary chunks.
  \<^item> \<open>Mill_Server\<close> models \<open>src/libmill/test.c\<close>: one conversation as a function of the results of the
    socket calls, and the server as a step relation that interleaves the coroutines; the statistics
    are exact in all states that are reached with fewer than $2^{31}$ connections, beyond which the counters
    of type \<open>int\<close> overflow (\<open>statistics_overflow\<close>).
  \<^item> \<open>Netfilter\<close> models the two kernel modules \<open>src/netfilter/test.c\<close> and
    \<open>src/netfilter/cs_DADDR/cs_DADDR.c\<close> on a socket buffer of bytes; the checksums the hooks write are
    valid in the sense of RFC 1071.

  \<^bold>\<open>Containers.\<close>
  \<^item> \<open>Tiny_Hashtable\<close> models \<open>src/hashtable/hashtable.c\<close>.
  \<^item> \<open>Strict_Weak_Order\<close> is the contract of the comparison argument of the ordered containers.
  \<^item> \<open>Avl_Tree\<close> and \<open>Binary_Search_Tree\<close> model \<open>binary_search_tree_kernel_1.h\<close> of dlib: rotations,
    insertion, removal, the enumerator with its stack of fifty parent pointers, and the object around
    them.  The abstract value is the list of pairs in order.  An AVL tree with fewer than $2^{36}$ nodes
    is at most fifty levels high, which is why the stack is enough.
  \<^item> \<open>Sorted_Container\<close> is the interface of \<open>binary_search_tree_kernel_abstract.h\<close> as a locale;
    \<open>Set_Map_Kernel\<close> models \<open>set_kernel_1.h\<close> and \<open>map_kernel_1.h\<close> over it.
  \<^item> \<open>Sliding_Buffer\<close> models \<open>sliding_buffer_kernel_1.h\<close> and states the laws of a ring buffer as a
    locale; \<open>Lz_Buffers\<close> models its two clients \<open>lzp_buffer_kernel_1.h\<close> and \<open>lz77_buffer_kernel_1.h\<close>.
  \<^item> \<open>Queue_Kernel\<close> models \<open>queue_kernel_2.h\<close>, a chain of blocks, with the list of items as its
    abstract value.

  \<^bold>\<open>Compression (src/dlib-minimal/lib/dlib).\<close>
  \<^item> \<open>Byte_Stream\<close> has the streams: bytes still to be read, and bytes written into a stream that has
    room for all or for a number of them.  Results are of type \<open>'a io\<close>: \<open>None\<close> is divergence, and
    inside \<open>Some\<close> the left side is an exception or an undefined operation.
  \<^item> \<open>Entropy_Coder\<close> states what a pair of entropy coders promises, as a locale over the bytes that
    are still to come; \<open>Range_Coder\<close> models \<open>entropy_encoder_kernel_2\<close> and
    \<open>entropy_decoder_kernel_2\<close> and interprets it.  The loops that roll bytes off are partial functions,
    and \<open>renorm_total\<close> shows that they end.  \<open>Bit_Coder\<close> models the arithmetic coder
    \<open>entropy_encoder_kernel_1\<close> and \<open>entropy_decoder_kernel_1\<close>, which rolls off single bits, and interprets
    the same locale.
  \<^item> \<open>Conditioning_Class\<close> models \<open>conditioning_class_kernel_1.h\<close>, a table of counts, and states the
    contract of the conditioning classes as a locale; \<open>Conditioning_Class_2\<close> models the tree of counts
    \<open>conditioning_class_kernel_2.h\<close> and shows that it refines the table.  \<open>Conditioning_Class_3\<close> models the self-organizing list of counts
    \<open>conditioning_class_kernel_3.h\<close> and shows that it counts as the table does.  All three interpret the
    locale.
  \<^item> \<open>Entropy_Model\<close> models the order-0 models \<open>entropy_encoder_model_kernel_1.h\<close> and
    \<open>entropy_decoder_model_kernel_1.h\<close> over any coder and conditioning class; that they are a pair of
    models again is a \<open>sublocale\<close>.  \<open>Order_1_Model\<close> does the same for the order-1 models
    \<open>entropy_encoder_model_kernel_2.h\<close> and \<open>entropy_decoder_model_kernel_2.h\<close>.
  \<^item> \<open>Crc32\<close> models \<open>crc32_kernel_1.h\<close> and compares it with the definition of CRC-32 in IEEE 802.3, the
    remainder of the message modulo the generator polynomial, written with lists of bits.
  \<^item> \<open>Compress_Stream\<close> models \<open>compress_stream_kernel_1.h\<close> over any pair of models, and
    its instances \<open>kernel_1a\<close> (order 0) and \<open>kernel_1b\<close> (order 1): compression is lossless, and
    decompression is safe on any bytes.
  \<^item> \<open>Lzp_Kernels\<close> models \<open>lzp_buffer_kernel_2.h\<close>, which checks its predictions, and states what a
    compressor needs of a prediction buffer as a locale, interpreted for both kernels.
  \<^item> \<open>Checksum_Bytes\<close> has the four bytes of a checksum, and \<open>Compress_Lzp\<close> models
    \<open>compress_stream_kernel_3.h\<close> over any prediction buffer, with its instances \<open>kernel_3a\<close> and
    \<open>kernel_3b\<close>: compression is lossless, and decompression returns or throws on any bytes.
  \<^item> This theory puts \<open>compress_stream_kernel_1\<close> together with other template arguments, the arithmetic
    coder and the conditioning class \<open>kernel_3\<close>, at the end.

  \<^bold>\<open>Algorithms (src/dlib-minimal/lib/dlib).\<close>
  \<^item> \<open>Base64\<close> models \<open>base64_kernel_1.cpp\<close>: encoding and decoding are inverse, and decoding is safe
    but for the byte 255.
  \<^item> \<open>Md5\<close> models \<open>md5_kernel_1.cpp\<close> and compares it with RFC 1321: the digest of a buffer is right, and
    the digest of a stream leaves its array when the last block has 56 bytes or more.
  \<^item> \<open>Sort_Array\<close> models \<open>sort.h\<close>: insertion sort, heap sort and quick sort on a part of an array.

  \<^bold>\<open>Big integers (src/dlib-minimal/lib/dlib/bigint).\<close>  \<open>bigint_kernel_1\<close> keeps a number as a counted
  record of 16-bit digits that several objects may share.  The model has the store of the records with
  their reference counts, so that sharing, copying before a change, and freeing are visible.  The counters of a
  record and the sizes of its array are 32-bit words, as in the code.
  \<^item> \<open>Bigint_Digits\<close> has the number that digits denote, and the arithmetic on lists of digits;
    \<open>Bigint_Kernel\<close> the records, the store and the private loops on digits; \<open>Bigint_Long\<close> long multiplication
    and division.
  \<^item> \<open>Bigint\<close> has the operators.  The locales \<open>digit_operation\<close> and \<open>in_place_operation\<close> say what an
    operation on digits promises, for a result in a new record and for one that may be its own operand;
    the operators' lemmas are proved in them, and they are interpreted for every digit loop.
  \<^item> \<open>Bigint_Program\<close> composes the operators into programs over any number of objects and shows that
    such a program computes with natural numbers, whatever records the objects share.  \<open>meaning\<close> is the
    program on natural numbers.  \<open>supported\<close> is the condition on the program: it stays within the limits of the
    32-bit counters (fewer than $2^{32}$ objects at a time, numbers of fewer than $2^{27}$ digits, so that a
    sum of sizes and shifts in bits do not wrap), and has none of the steps after which the code keeps leading
    zeros, a difference that has two digits fewer than its first operand, and a product of several digits with the
    16-bit factor zero (\<open>difference_not_one\<close>, \<open>product_not_zero\<close>).
  \<^item> \<open>Bigint_Division\<close>: division of numbers below $2^{32}$ in canonical form is right; \<open>quotient_wrong\<close> is a
    dividend beyond them for which it is not, and \<open>quotient_leading_zero\<close> a small one with a leading zero.  The
    shift loops of division are partial functions, and it is proved that they end.
  \<^item> \<open>Bigint_Text\<close> has printing, reading and serialization; what is printed is read back, and
    \<open>serialize_leading_zeros\<close> is the text of a number with leading zeros.
  The allocator does not fail in this model, and the output stream of serialization accepts what is written.

  \<^bold>\<open>Not modelled.\<close>  The programs that are glue over a library that is not in the repository (libevent,
  libmicrohttpd, libzdb, hiredis, Cello, asio, sqlite, thrift), process creation and sockets, printed
  output except where it is the point of the function, and the rest of dlib.  Overflow to infinity,
  NaN and subnormal numbers are outside the model of doubles.

  \<^bold>\<open>What is left.\<close>  Of dlib's compression: \<open>conditioning_class_kernel_4\<close>, the entropy models
  from \<open>kernel_3\<close> on, and the LZ77 compressor \<open>compress_stream_kernel_2\<close>
  with its buffer \<open>lz77_buffer_kernel_2\<close>.  Of its containers: the hash table, the stack and the sequence
  kernels.  The removal of the current element of the binary search tree is modelled, and its
  correctness is not proved.
\<close>

subsection \<open>Other arguments of the compressor\<close>







end
